(* ===== verification/Prelude.thy ===== *)
theory Prelude
  imports Main "HOL-Library.Multiset"
begin

text \<open>
  Shared vocabulary of the development. Go code can panic, so every operation that indexes or
  slices returns a value of \<open>'a go\<close>: \<open>Inl\<close> is the run-time error, \<open>Inr\<close> the result. The
  theory also holds the generic facts on lists, quorums and transition systems that several
  components use, and the collection \<open>go_simps\<close> that unfolds the error monad.
\<close>

named_theorems go_simps "unfolding rules of the error monad"

section \<open>Run-time errors\<close>

datatype go_error =
    IndexOutOfRange
  | SliceBounds
  | NilDereference
  | TypeAssertion
  | DivideByZero
  | LogFatal
  | ClosedChannel
  | TestFatal
  | Panic

type_synonym 'a go = "go_error + 'a"

definition bindG :: "'a go \<Rightarrow> ('a \<Rightarrow> 'b go) \<Rightarrow> 'b go" where
  "bindG m f = (case m of Inl e \<Rightarrow> Inl e | Inr x \<Rightarrow> f x)"

definition mapG :: "('a \<Rightarrow> 'b) \<Rightarrow> 'a go \<Rightarrow> 'b go" where
  "mapG f m = (case m of Inl e \<Rightarrow> Inl e | Inr x \<Rightarrow> Inr (f x))"

lemma bindG_simps [simp, go_simps]:
  "bindG (Inl e) f = Inl e"
  "bindG (Inr x) f = f x"
  by (simp_all add: bindG_def)

lemma mapG_simps [simp, go_simps]:
  "mapG f (Inl e) = Inl e"
  "mapG f (Inr x) = Inr (f x)"
  by (simp_all add: mapG_def)

lemma bindG_eq_Inr_iff: "bindG m f = Inr y \<longleftrightarrow> (\<exists>x. m = Inr x \<and> f x = Inr y)"
  by (cases m) auto

lemma bindG_eq_InrE:
  assumes "bindG m f = Inr y"
  obtains x where "m = Inr x" and "f x = Inr y"
  using assms by (cases m) auto

lemma bindG_cong [fundef_cong]:
  "m = m' \<Longrightarrow> (\<And>x. m' = Inr x \<Longrightarrow> f x = g x) \<Longrightarrow> bindG m f = bindG m' g"
  by (cases m') auto

lemma mapG_eq_Inr_iff: "mapG f m = Inr y \<longleftrightarrow> (\<exists>x. m = Inr x \<and> y = f x)"
  by (cases m) auto

text \<open>A loop over a list whose body may panic.\<close>

fun foldG :: "('a \<Rightarrow> 's \<Rightarrow> 's go) \<Rightarrow> 'a list \<Rightarrow> 's \<Rightarrow> 's go" where
  "foldG f [] s = Inr s"
| "foldG f (x # xs) s = bindG (f x s) (foldG f xs)"

lemma foldG_append: "foldG f (xs @ ys) s = bindG (foldG f xs s) (foldG f ys)"
proof (induction xs arbitrary: s)
  case (Cons x xs)
  then show ?case by (cases "f x s") simp_all
qed simp

text \<open>A property of the state that every turn of a loop keeps, over the turns that are left.\<close>

lemma foldG_invariant:
  assumes "foldG f xs s = Inr t" and "P [] s"
    and "\<And>ys x s t. set ys \<subseteq> set xs \<Longrightarrow> x \<in> set xs \<Longrightarrow> P ys s \<Longrightarrow> f x s = Inr t \<Longrightarrow> P (ys @ [x]) t"
  shows "P xs t"
  using assms(1,3)
proof (induction xs arbitrary: t rule: rev_induct)
  case Nil
  with assms(2) show ?case by simp
next
  case (snoc x xs)
  from snoc.prems(1) obtain u where u: "foldG f xs s = Inr u" "f x u = Inr t"
    by (auto simp: foldG_append bindG_eq_Inr_iff)
  have step: "P (ys @ [y]) t" if "set ys \<subseteq> set xs" "y \<in> set xs" "P ys s" "f y s = Inr t" for ys y s t
    using that by (intro snoc.prems(2) [of ys y]) auto
  have "P xs u" using u(1) step by (rule snoc.IH)
  moreover have "set xs \<subseteq> set (xs @ [x])" "x \<in> set (xs @ [x])" by auto
  ultimately show ?case using u(2) snoc.prems(2) by blast
qed

section \<open>Slices\<close>

text \<open>
  \<open>go_index xs i\<close> is \<open>xs[i]\<close> and \<open>go_slice xs lo hi\<close> is \<open>xs[lo:hi]\<close>. A slice expression
  whose upper bound lies beyond the length is reported as an error as well: Go accepts it up to
  the capacity and exposes stale elements, and the theorems show that the code never gets there.
\<close>

definition go_index :: "'a list \<Rightarrow> int \<Rightarrow> 'a go" where
  "go_index xs i = (if 0 \<le> i \<and> i < int (length xs) then Inr (xs ! nat i) else Inl IndexOutOfRange)"

definition go_slice :: "'a list \<Rightarrow> int \<Rightarrow> int \<Rightarrow> 'a list go" where
  "go_slice xs lo hi =
     (if 0 \<le> lo \<and> lo \<le> hi \<and> hi \<le> int (length xs)
      then Inr (take (nat hi - nat lo) (drop (nat lo) xs)) else Inl SliceBounds)"

definition go_update :: "'a list \<Rightarrow> int \<Rightarrow> 'a \<Rightarrow> 'a list go" where
  "go_update xs i x =
     (if 0 \<le> i \<and> i < int (length xs) then Inr (xs[nat i := x]) else Inl IndexOutOfRange)"

lemma go_index_Inr [simp]:
  "0 \<le> i \<Longrightarrow> i < int (length xs) \<Longrightarrow> go_index xs i = Inr (xs ! nat i)"
  by (simp add: go_index_def)

lemma go_index_eq_Inr_iff:
  "go_index xs i = Inr x \<longleftrightarrow> 0 \<le> i \<and> i < int (length xs) \<and> x = xs ! nat i"
  by (auto simp: go_index_def)

lemma go_slice_prefix:
  "0 \<le> hi \<Longrightarrow> hi \<le> int (length xs) \<Longrightarrow> go_slice xs 0 hi = Inr (take (nat hi) xs)"
  by (simp add: go_slice_def)

lemma go_slice_suffix:
  "0 \<le> lo \<Longrightarrow> lo \<le> int (length xs) \<Longrightarrow>
   go_slice xs lo (int (length xs)) = Inr (drop (nat lo) xs)"
  by (simp add: go_slice_def)

lemma go_index_int [simp]: "i < length xs \<Longrightarrow> go_index xs (int i) = Inr (xs ! i)"
  by (simp add: go_index_def)

lemma go_update_int [simp]: "i < length xs \<Longrightarrow> go_update xs (int i) x = Inr (xs[i := x])"
  by (simp add: go_update_def)

lemma go_update_eq_Inr_iff:
  "go_update xs i x = Inr ys \<longleftrightarrow> 0 \<le> i \<and> i < int (length xs) \<and> ys = xs[nat i := x]"
  by (auto simp: go_update_def)

text \<open>Go's integer division truncates towards zero.\<close>

definition go_div :: "int \<Rightarrow> int \<Rightarrow> int" where
  "go_div a b = sgn a * sgn b * (\<bar>a\<bar> div \<bar>b\<bar>)"

section \<open>Quorums\<close>

text \<open>
  What the election and commit rules rely on: any two quorums share a member.
\<close>

locale quorum_system =
  fixes quorum :: "'a set \<Rightarrow> bool"
  assumes quorum_intersect: "quorum A \<Longrightarrow> quorum B \<Longrightarrow> A \<inter> B \<noteq> {}"
begin

lemma common_member:
  assumes "quorum A" and "quorum B"
  obtains x where "x \<in> A" and "x \<in> B"
  using quorum_intersect [OF assms] by blast

text \<open>Members of a quorum vote for one candidate each, so two elected candidates agree.\<close>

lemma single_choice:
  assumes "quorum A" and "quorum B"
    and "\<And>x. x \<in> A \<Longrightarrow> vote x = c" and "\<And>x. x \<in> B \<Longrightarrow> vote x = d"
  shows "c = d"
proof -
  obtain x where "x \<in> A" "x \<in> B" by (rule common_member [OF assms(1,2)])
  with assms(3,4) show ?thesis by metis
qed

end

lemma majorities_share_member:
  assumes "finite E" "A \<subseteq> E" "B \<subseteq> E" "card E < card A + card B"
  shows "A \<inter> B \<noteq> {}"
proof
  assume disj: "A \<inter> B = {}"
  have "finite A" "finite B" using assms finite_subset by auto
  with disj have "card A + card B = card (A \<union> B)" by (simp add: card_Un_disjoint)
  also have "\<dots> \<le> card E" using assms by (intro card_mono) auto
  finally show False using assms(4) by simp
qed

section \<open>Invariants of transition systems\<close>

text \<open>
  The proof principle behind every safety theorem of the development: a predicate that holds
  initially and is kept by every step holds in every state of every run.
\<close>

inductive run_from :: "('s \<Rightarrow> 's \<Rightarrow> bool) \<Rightarrow> 's \<Rightarrow> 's \<Rightarrow> bool" for step where
  run_refl: "run_from step s s"
| run_step: "run_from step s t \<Longrightarrow> step t u \<Longrightarrow> run_from step s u"

lemma run_from_single: "step s t \<Longrightarrow> run_from step s t"
  by (rule run_step [OF run_refl])

lemma run_from_trans:
  assumes "run_from step s t" and "run_from step t u"
  shows "run_from step s u"
  using assms(2,1) by (induction rule: run_from.induct) (auto intro: run_step)

locale inductive_invariant =
  fixes start :: "'s \<Rightarrow> bool"
    and step :: "'s \<Rightarrow> 's \<Rightarrow> bool"
    and inv :: "'s \<Rightarrow> bool"
  assumes inv_start: "start s \<Longrightarrow> inv s"
    and inv_step: "inv s \<Longrightarrow> step s t \<Longrightarrow> inv t"
begin

lemma inv_run:
  assumes "start s" and "run_from step s t"
  shows "inv t"
  using assms(2,1) by (induction rule: run_from.induct) (auto intro: inv_start inv_step)

end

section \<open>Lists\<close>

lemma take_nat_append_drop:
  "k \<le> length xs \<Longrightarrow> length (take k xs @ ys) = k + length ys"
  by simp

lemma dropWhile_suffix_nth:
  "i < length (dropWhile P xs) \<Longrightarrow>
   dropWhile P xs ! i = xs ! (length xs - length (dropWhile P xs) + i)"
proof -
  assume i: "i < length (dropWhile P xs)"
  have "xs = takeWhile P xs @ dropWhile P xs" by simp
  moreover have "length xs - length (dropWhile P xs) = length (takeWhile P xs)"
    by (metis add_diff_cancel_right' length_append takeWhile_dropWhile_id)
  ultimately show ?thesis by (metis nth_append_length_plus)
qed

end
