(* ===== verification/Persist.thy ===== *)
theory Persist
  imports Prelude
begin

text \<open>
  The stable storage of a Raft peer, \<^verbatim>\<open>raft/persister.go\<close>: a record of two byte slices behind a
  mutex. A nil slice is the empty list. The element types of the two slices are parameters: an
  element is what one call of the encoder wrote, a value of the Raft state for the first slice
  and a value of the service for the second.
\<close>

record ('b, 'd) Persister =
  raftstate :: "'b list"
  snapshot_bytes :: "'d list"

definition MakePersister :: "('b, 'd) Persister" where
  "MakePersister = \<lparr>raftstate = [], snapshot_bytes = []\<rparr>"

definition Copy :: "('b, 'd) Persister \<Rightarrow> ('b, 'd) Persister" where
  "Copy ps = (MakePersister \<lparr>raftstate := raftstate ps\<rparr>) \<lparr>snapshot_bytes := snapshot_bytes ps\<rparr>"

definition SaveRaftState :: "('b, 'd) Persister \<Rightarrow> 'b list \<Rightarrow> ('b, 'd) Persister" where
  "SaveRaftState ps st = ps\<lparr>raftstate := st\<rparr>"

definition ReadRaftState :: "('b, 'd) Persister \<Rightarrow> 'b list" where
  "ReadRaftState ps = raftstate ps"

text \<open>
  The number of bytes of a slice depends on the encoding of its values, so \<open>RaftStateSize\<close> and
  \<open>SnapshotSize\<close> take the length function of the encoder as their first argument.
\<close>

definition RaftStateSize :: "('b list \<Rightarrow> int) \<Rightarrow> ('b, 'd) Persister \<Rightarrow> int" where
  "RaftStateSize len ps = len (raftstate ps)"

definition SaveStateAndSnapshot :: "('b, 'd) Persister \<Rightarrow> 'b list \<Rightarrow> 'd list \<Rightarrow> ('b, 'd) Persister" where
  "SaveStateAndSnapshot ps st sn = ps\<lparr>raftstate := st, snapshot_bytes := sn\<rparr>"

definition ReadSnapshot :: "('b, 'd) Persister \<Rightarrow> 'd list" where
  "ReadSnapshot ps = snapshot_bytes ps"

definition SnapshotSize :: "('d list \<Rightarrow> int) \<Rightarrow> ('b, 'd) Persister \<Rightarrow> int" where
  "SnapshotSize len ps = len (snapshot_bytes ps)"

text \<open>
  The contract the Raft layer relies on: a save is one atomic action, a read returns the last
  save, and a copy holds the same two slices.
\<close>

locale stable_store =
  fixes save :: "'st \<Rightarrow> 'b \<Rightarrow> 'd \<Rightarrow> 'st"
    and save_state :: "'st \<Rightarrow> 'b \<Rightarrow> 'st"
    and copy :: "'st \<Rightarrow> 'st"
    and state_of :: "'st \<Rightarrow> 'b"
    and snapshot_of :: "'st \<Rightarrow> 'd"
  assumes state_save: "state_of (save ps st sn) = st"
    and snapshot_save: "snapshot_of (save ps st sn) = sn"
    and state_save_state: "state_of (save_state ps st) = st"
    and snapshot_save_state: "snapshot_of (save_state ps st) = snapshot_of ps"
    and state_copy: "state_of (copy ps) = state_of ps"
    and snapshot_copy: "snapshot_of (copy ps) = snapshot_of ps"
begin

text \<open>A restart works on a copy of the store and reads exactly the last atomic save.\<close>

lemma restart_reads_last_save:
  "state_of (copy (save ps st sn)) = st \<and> snapshot_of (copy (save ps st sn)) = sn"
  by (simp add: state_copy snapshot_copy state_save snapshot_save)

lemma last_save_wins: "state_of (save (save ps st sn) st' sn') = st'"
  by (rule state_save)

end

interpretation persister: stable_store
  SaveStateAndSnapshot SaveRaftState Copy ReadRaftState ReadSnapshot
  by unfold_locales
    (simp_all add: SaveStateAndSnapshot_def SaveRaftState_def Copy_def MakePersister_def
      ReadRaftState_def ReadSnapshot_def)

end
