(* ===== verification/Raft_Core.thy ===== *)
theory Raft_Core
  imports Persist
begin

text \<open>
  One Raft peer, \<^verbatim>\<open>raft/raft.go\<close>: its state, its RPC messages and every operation on the state.
  The peer's mutex makes each locked region atomic, so a Go function that takes the lock once is
  one definition, and a function that releases and retakes it is one definition per locked
  region, named after the function. What a region starts with \<^verbatim>\<open>go\<close> is returned as a list of
  \<open>goroutine\<close>s; a send on \<^verbatim>\<open>applyChan\<close> appends to the list of messages the peer has sent. The
  clock and the random number of \<^verbatim>\<open>resetElectionTimer\<close> are arguments. Terms and indices are Go's
  64-bit \<^verbatim>\<open>int\<close>s, modelled as unbounded integers: they grow by one per election or command.
\<close>

section \<open>Data\<close>

record 'c LogEntry =
  eIndex :: int
  eTerm :: int
  eLog :: "'c option"

text \<open>One value written by a call of the gob encoder into the persisted Raft state.\<close>

datatype 'c gobval = GobInt int | GobLog "'c LogEntry list"

record 'd Snapshot =
  sIndex :: int
  sTerm :: int
  Storage :: "'d list"

datatype ('c, 'd) iface = NilIface | CommandIface 'c | SnapshotIface "'d Snapshot"

record ('c, 'd) ApplyMsg =
  CommandValid :: bool
  Command :: "('c, 'd) iface"
  CommandIndex :: int

record ('c, 'd) Raft =
  peers :: nat
  Persister :: "('c gobval, 'd) Persister"
  me :: int
  dead :: int
  applyChan :: "('c, 'd) ApplyMsg list"
  state :: int
  leaderId :: int
  CurrentTerm :: int
  VotedFor :: int
  Log :: "'c LogEntry list"
  commitIndex :: int
  lastApplied :: int
  nVotes :: int
  nextIndex :: "int list"
  matchIndex :: "int list"
  electionTimeout :: int
  heartbeatTimeout :: int
  latestSendHeartbeatTime :: int
  latestReceiveHeartbeatTime :: int
  snapshot :: "'d Snapshot"

abbreviation (input) Leader :: int where "Leader \<equiv> 0"
abbreviation (input) Candidate :: int where "Candidate \<equiv> 1"
abbreviation (input) Follower :: int where "Follower \<equiv> 2"

datatype goroutine =
    GoApply
  | GoHeartBeat
  | GoBroadcast int int int int

record RequestVoteArgs =
  rvTerm :: int
  CandidateId :: int
  LastLogIndex :: int
  LastLogTerm :: int

record RequestVoteReply =
  rvrTerm :: int
  VoteGranted :: bool

record ('c, 'd) AppendEntriesArgs =
  aeTerm :: int
  LeaderId :: int
  PrevLogIndex :: int
  PrevLogTerm :: int
  Entries :: "'c LogEntry list"
  LeaderCommit :: int
  LogSnapshot :: "'d Snapshot"

record AppendEntriesReply =
  aerTerm :: int
  Success :: bool
  ConflictIndex :: int
  ConflictTerm :: int

section \<open>Reading the log\<close>

definition snapshotEntry :: "('c, 'd) Raft \<Rightarrow> 'c LogEntry" where
  "snapshotEntry rf =
     \<lparr>eIndex = sIndex (snapshot rf), eTerm = sTerm (snapshot rf), eLog = None\<rparr>"

definition getLogByIndexUnLock :: "('c, 'd) Raft \<Rightarrow> int \<Rightarrow> 'c LogEntry go" where
  "getLogByIndexUnLock rf index =
     (let i = index - sIndex (snapshot rf)
      in if i < 0 then Inr (snapshotEntry rf) else go_index (Log rf) i)"

definition getLastLogUnLock :: "('c, 'd) Raft \<Rightarrow> 'c LogEntry" where
  "getLastLogUnLock rf = (if Log rf = [] then snapshotEntry rf else last (Log rf))"

definition GetState :: "('c, 'd) Raft \<Rightarrow> int \<times> bool" where
  "GetState rf = (CurrentTerm rf, state rf = Leader)"

section \<open>Persistence\<close>

definition send_apply :: "('c, 'd) ApplyMsg \<Rightarrow> ('c, 'd) Raft \<Rightarrow> ('c, 'd) Raft" where
  "send_apply m rf = rf\<lparr>applyChan := applyChan rf @ [m]\<rparr>"

definition encodeState :: "('c, 'd) Raft \<Rightarrow> 'c gobval list" where
  "encodeState rf =
     [GobInt (CurrentTerm rf), GobInt (VotedFor rf), GobLog (Log rf),
      GobInt (sIndex (snapshot rf)), GobInt (sTerm (snapshot rf)), GobInt (commitIndex rf)]"

definition persist :: "('c, 'd) Raft \<Rightarrow> ('c, 'd) Raft" where
  "persist rf =
     (let rf' = rf\<lparr>Persister := SaveStateAndSnapshot (Persister rf) (encodeState rf)
                                  (Storage (snapshot rf))\<rparr>
      in if lastApplied rf' > sIndex (snapshot rf') then rf'
         else send_apply \<lparr>CommandValid = False, Command = NilIface, CommandIndex = 0\<rparr> rf')"

text \<open>
  A call of \<^verbatim>\<open>Decode\<close> consumes the next value of the stream and fails when there is none or when
  it has another type.
\<close>

fun decodeInt :: "'c gobval list \<Rightarrow> (int \<times> 'c gobval list) option" where
  "decodeInt (GobInt n # r) = Some (n, r)"
| "decodeInt _ = None"

fun decodeLog :: "'c gobval list \<Rightarrow> ('c LogEntry list \<times> 'c gobval list) option" where
  "decodeLog (GobLog l # r) = Some (l, r)"
| "decodeLog _ = None"

text \<open>
  The chain of decodes stops at the first failure; the snapshot's index and term are decoded
  straight into the peer, so they stay written when a later decode fails.
\<close>

definition decodeState :: "('c, 'd) Raft \<Rightarrow> 'c gobval list \<Rightarrow> ('c, 'd) Raft" where
  "decodeState rf data =
    (case decodeInt data of None \<Rightarrow> rf | Some (currentTerm, d1) \<Rightarrow>
    (case decodeInt d1 of None \<Rightarrow> rf | Some (voteFor, d2) \<Rightarrow>
    (case decodeLog d2 of None \<Rightarrow> rf | Some (log, d3) \<Rightarrow>
    (case decodeInt d3 of None \<Rightarrow> rf | Some (si, d4) \<Rightarrow>
      (let rf = rf\<lparr>snapshot := (snapshot rf)\<lparr>sIndex := si\<rparr>\<rparr> in
    (case decodeInt d4 of None \<Rightarrow> rf | Some (st, d5) \<Rightarrow>
      (let rf = rf\<lparr>snapshot := (snapshot rf)\<lparr>sTerm := st\<rparr>\<rparr> in
    (case decodeInt d5 of None \<Rightarrow> rf | Some (ci, d6) \<Rightarrow>
       rf\<lparr>CurrentTerm := currentTerm, VotedFor := voteFor,
          Log := (if log = [] then [snapshotEntry rf] else log),
          commitIndex := ci, lastApplied := sIndex (snapshot rf)\<rparr>))))))))"

definition readPersist :: "('c, 'd) Raft \<Rightarrow> 'c gobval list \<Rightarrow> ('c, 'd) Raft" where
  "readPersist rf data =
     (if data = [] then rf else
      (let rf1 = decodeState rf data;
           rf2 = rf1\<lparr>snapshot := (snapshot rf1)\<lparr>Storage := ReadSnapshot (Persister rf1)\<rparr>\<rparr>
       in if sIndex (snapshot rf2) > 0
          then send_apply \<lparr>CommandValid = False, Command = SnapshotIface (snapshot rf2),
                           CommandIndex = sIndex (snapshot rf2)\<rparr> rf2
          else rf2))"

section \<open>Votes\<close>

definition resetElectionTimer :: "int \<Rightarrow> int \<Rightarrow> ('c, 'd) Raft \<Rightarrow> ('c, 'd) Raft" where
  "resetElectionTimer now rnd rf =
     rf\<lparr>electionTimeout := heartbeatTimeout rf * 5 + rnd, latestReceiveHeartbeatTime := now\<rparr>"

definition upToDate :: "('c, 'd) Raft \<Rightarrow> RequestVoteArgs \<Rightarrow> bool" where
  "upToDate rf args =
     (let lastLogIndex = eIndex (getLastLogUnLock rf); lastLogTerm = eTerm (getLastLogUnLock rf)
      in lastLogTerm < LastLogTerm args
         \<or> (lastLogTerm = LastLogTerm args \<and> lastLogIndex \<le> LastLogIndex args))"

definition RequestVote ::
  "int \<Rightarrow> int \<Rightarrow> ('c, 'd) Raft \<Rightarrow> RequestVoteArgs \<Rightarrow> ('c, 'd) Raft \<times> RequestVoteReply" where
  "RequestVote now rnd rf args =
     (if CurrentTerm rf \<le> rvTerm args then
        (let rf1 = (if CurrentTerm rf < rvTerm args
                    then persist (rf\<lparr>CurrentTerm := rvTerm args, VotedFor := -1, state := Follower\<rparr>)
                    else rf)
         in if (VotedFor rf1 = -1 \<or> VotedFor rf1 = CandidateId args) \<and> upToDate rf1 args
            then (let rf2 = persist ((resetElectionTimer now rnd
                              (rf1\<lparr>VotedFor := CandidateId args\<rparr>))\<lparr>state := Follower\<rparr>)
                  in (rf2, \<lparr>rvrTerm = CurrentTerm rf2, VoteGranted = True\<rparr>))
            else (rf1, \<lparr>rvrTerm = CurrentTerm rf1, VoteGranted = False\<rparr>))
      else (rf, \<lparr>rvrTerm = CurrentTerm rf, VoteGranted = False\<rparr>))"

section \<open>Snapshots\<close>

definition SaveSnapshot :: "('c, 'd) Raft \<Rightarrow> int \<Rightarrow> 'd list \<Rightarrow> ('c, 'd) Raft go" where
  "SaveSnapshot rf index storage =
     (let offsetIndex = sIndex (snapshot rf)
      in if index > offsetIndex
         then bindG (getLogByIndexUnLock rf index) (\<lambda>e.
                let rf1 = rf\<lparr>snapshot := \<lparr>sIndex = index, sTerm = eTerm e, Storage = storage\<rparr>\<rparr>
                in bindG (go_slice (Log rf1) (index - offsetIndex) (int (length (Log rf1)))) (\<lambda>l.
                     Inr (persist (rf1\<lparr>Log := l\<rparr>))))
         else Inr rf)"

definition updateSnapshotUnLock :: "('c, 'd) Raft \<Rightarrow> 'd Snapshot \<Rightarrow> ('c, 'd) Raft" where
  "updateSnapshotUnLock rf sn =
     (if sIndex sn > sIndex (snapshot rf)
      then (let rf1 = rf\<lparr>snapshot := sn\<rparr>;
                rest = dropWhile (\<lambda>e. eIndex e \<noteq> sIndex sn) (Log rf1)
            in rf1\<lparr>Log := (if rest = [] then [snapshotEntry rf1] else rest)\<rparr>)
      else rf)"

section \<open>Appending entries\<close>

definition stepDownTo :: "int \<Rightarrow> int \<Rightarrow> int \<Rightarrow> ('c, 'd) Raft \<Rightarrow> ('c, 'd) Raft" where
  "stepDownTo now rnd term rf =
     (if CurrentTerm rf < term
      then persist ((resetElectionTimer now rnd (rf\<lparr>CurrentTerm := term\<rparr>))
                      \<lparr>VotedFor := -1, state := Follower\<rparr>)
      else rf)"

text \<open>Entries already covered by the snapshot are cut off the request.\<close>

definition trimArgs ::
  "('c, 'd) Raft \<Rightarrow> ('c, 'd) AppendEntriesArgs \<Rightarrow> ('c, 'd) AppendEntriesArgs" where
  "trimArgs rf args =
     (if PrevLogIndex args < sIndex (snapshot rf)
      then args\<lparr>PrevLogIndex := sIndex (snapshot rf), PrevLogTerm := sTerm (snapshot rf),
                Entries := dropWhile (\<lambda>e. \<not> eIndex e > sIndex (snapshot rf)) (Entries args)\<rparr>
      else args)"

definition prevConsistent :: "('c, 'd) Raft \<Rightarrow> ('c, 'd) AppendEntriesArgs \<Rightarrow> bool go" where
  "prevConsistent rf args =
     (if eIndex (getLastLogUnLock rf) \<ge> PrevLogIndex args
      then mapG (\<lambda>e. eTerm e = PrevLogTerm args) (getLogByIndexUnLock rf (PrevLogIndex args))
      else Inr False)"

text \<open>The loop that looks for a missing or conflicting entry; \<open>end\<close> is the last log index.\<close>

fun isMatch :: "('c, 'd) Raft \<Rightarrow> int \<Rightarrow> int \<Rightarrow> 'c LogEntry list \<Rightarrow> bool go" where
  "isMatch rf lastIdx pos [] = Inr True"
| "isMatch rf lastIdx pos (e # es) =
     (if lastIdx < pos then Inr False
      else bindG (getLogByIndexUnLock rf pos) (\<lambda>x.
             if eTerm x \<noteq> eTerm e then Inr False else isMatch rf lastIdx (pos + 1) es))"

definition copyEntries ::
  "('c, 'd) Raft \<Rightarrow> int \<Rightarrow> int \<Rightarrow> 'c LogEntry list \<Rightarrow> ('c, 'd) Raft go" where
  "copyEntries rf offsetIndex next entries =
     (if next - 1 = eIndex (getLastLogUnLock rf) then Inr (rf\<lparr>Log := Log rf @ entries\<rparr>)
      else bindG (go_slice (Log rf) 0 (next - offsetIndex)) (\<lambda>l. Inr (rf\<lparr>Log := l @ entries\<rparr>)))"

definition followCommit ::
  "('c, 'd) Raft \<Rightarrow> int \<Rightarrow> int \<Rightarrow> ('c, 'd) Raft \<times> goroutine list" where
  "followCommit rf leaderCommit indexOfLastNewEntry =
     (if leaderCommit > commitIndex rf
      then (rf\<lparr>commitIndex := (if leaderCommit > indexOfLastNewEntry
                               then indexOfLastNewEntry else leaderCommit)\<rparr>, [GoApply])
      else (rf, []))"

text \<open>
  The scan for the first index of the conflicting term: \<open>i\<close> runs down to the snapshot while
  \<open>ci\<close> is decremented, as in the loop over \<^verbatim>\<open>reply.ConflictIndex\<close>.
\<close>

function conflictScan :: "('c, 'd) Raft \<Rightarrow> int \<Rightarrow> int \<Rightarrow> int \<Rightarrow> int \<Rightarrow> int go" where
  "conflictScan rf offsetIndex term i ci =
     (if i > offsetIndex
      then bindG (getLogByIndexUnLock rf i) (\<lambda>e.
             if eTerm e \<noteq> term then Inr ci
             else conflictScan rf offsetIndex term (i - 1) (ci - 1))
      else Inr ci)"
  by pat_completeness auto
termination
  by (relation "measure (\<lambda>(rf, off, t, i, ci). nat (i - off))") auto

declare conflictScan.simps [simp del]

definition conflictReply ::
  "('c, 'd) Raft \<Rightarrow> ('c, 'd) AppendEntriesArgs \<Rightarrow> AppendEntriesReply go" where
  "conflictReply rf args =
     (let next = PrevLogIndex args + 1; offsetIndex = sIndex (snapshot rf)
      in if eIndex (getLastLogUnLock rf) < next
         then Inr \<lparr>aerTerm = CurrentTerm rf, Success = False,
                   ConflictIndex = eIndex (getLastLogUnLock rf), ConflictTerm = 0\<rparr>
         else bindG (getLogByIndexUnLock rf (PrevLogIndex args)) (\<lambda>e.
              bindG (conflictScan rf offsetIndex (eTerm e) (PrevLogIndex args - 1)
                       (PrevLogIndex args)) (\<lambda>ci.
                Inr \<lparr>aerTerm = CurrentTerm rf, Success = False,
                     ConflictIndex = ci, ConflictTerm = eTerm e\<rparr>)))"

text \<open>The branch of the handler in which the previous entry is consistent.\<close>

definition acceptEntries ::
  "int \<Rightarrow> int \<Rightarrow> ('c, 'd) Raft \<Rightarrow> ('c, 'd) AppendEntriesArgs \<Rightarrow>
   (('c, 'd) Raft \<times> AppendEntriesReply \<times> goroutine list) go" where
  "acceptEntries now rnd rf args =
     (let rf1 = rf\<lparr>state := Follower\<rparr>; next = PrevLogIndex args + 1;
          lastIdx = eIndex (getLastLogUnLock rf1)
      in bindG (isMatch rf1 lastIdx next (Entries args)) (\<lambda>m.
         bindG (if m then Inr rf1
                else copyEntries rf1 (sIndex (snapshot rf1)) next (Entries args)) (\<lambda>rf2.
           let (rf3, gs) = followCommit rf2 (LeaderCommit args)
                             (PrevLogIndex args + int (length (Entries args)));
               rf4 = persist (resetElectionTimer now rnd
                       (updateSnapshotUnLock rf3 (LogSnapshot args)))
           in Inr (rf4, \<lparr>aerTerm = CurrentTerm rf4, Success = True,
                         ConflictIndex = 0, ConflictTerm = 0\<rparr>, gs))))"

definition AppendEntries ::
  "int \<Rightarrow> int \<Rightarrow> ('c, 'd) Raft \<Rightarrow> ('c, 'd) AppendEntriesArgs \<Rightarrow>
   (('c, 'd) Raft \<times> AppendEntriesReply \<times> goroutine list) go" where
  "AppendEntries now rnd rf args0 =
     (if CurrentTerm rf \<le> aeTerm args0 then
        (let rf1 = stepDownTo now rnd (aeTerm args0) rf; args = trimArgs rf1 args0
         in bindG (prevConsistent rf1 args) (\<lambda>consistent.
              if consistent then acceptEntries now rnd rf1 args
              else (let rf2 = resetElectionTimer now rnd rf1
                    in bindG (conflictReply rf2 args) (\<lambda>reply. Inr (rf2, reply, [])))))
      else Inr (rf, \<lparr>aerTerm = CurrentTerm rf, Success = False,
                     ConflictIndex = 0, ConflictTerm = 0\<rparr>, []))"

section \<open>Backing up after a conflict\<close>

function findTerm :: "('c, 'd) Raft \<Rightarrow> int \<Rightarrow> int \<Rightarrow> int \<Rightarrow> int go" where
  "findTerm rf offsetIndex term ci =
     (if ci > offsetIndex
      then bindG (getLogByIndexUnLock rf ci) (\<lambda>e.
             if eTerm e = term then Inr ci else findTerm rf offsetIndex term (ci - 1))
      else Inr ci)"
  by pat_completeness auto
termination
  by (relation "measure (\<lambda>(rf, off, t, ci). nat (ci - off))") auto

declare findTerm.simps [simp del]

function lastOfTerm :: "('c, 'd) Raft \<Rightarrow> int \<Rightarrow> int \<Rightarrow> int \<Rightarrow> int \<Rightarrow> int go" where
  "lastOfTerm rf next term i ci =
     (if i < next
      then bindG (getLogByIndexUnLock rf i) (\<lambda>e.
             if eTerm e \<noteq> term then Inr ci else lastOfTerm rf next term (i + 1) (ci + 1))
      else Inr ci)"
  by pat_completeness auto
termination
  by (relation "measure (\<lambda>(rf, next, t, i, ci). nat (next - i))") auto

declare lastOfTerm.simps [simp del]

definition getNextIndex :: "('c, 'd) Raft \<Rightarrow> AppendEntriesReply \<Rightarrow> int \<Rightarrow> int go" where
  "getNextIndex rf reply next =
     (if ConflictTerm reply = 0 then Inr (ConflictIndex reply)
      else bindG (getLogByIndexUnLock rf (ConflictIndex reply)) (\<lambda>e.
             if eTerm e \<ge> ConflictTerm reply
             then bindG (findTerm rf (sIndex (snapshot rf)) (ConflictTerm reply)
                           (ConflictIndex reply)) (\<lambda>ci.
                    if ci \<noteq> 0
                    then bindG (lastOfTerm rf next (ConflictTerm reply) (ci + 1) ci)
                           (\<lambda>ci'. Inr (ci' + 1))
                    else Inr (ConflictIndex reply))
             else Inr (ConflictIndex reply)))"

section \<open>Replication from the leader\<close>

definition majority :: "('c, 'd) Raft \<Rightarrow> int" where
  "majority rf = int (peers rf div 2 + 1)"

text \<open>The peers that get a goroutine; both guards of the function are locked regions of their own.\<close>

definition broadcastAppendEntries ::
  "('c, 'd) Raft \<Rightarrow> ('c, 'd) Raft \<Rightarrow> int \<Rightarrow> int list" where
  "broadcastAppendEntries rfGetState rf term =
     (if \<not> snd (GetState rfGetState) then []
      else if CurrentTerm rf \<noteq> term then []
      else filter (\<lambda>i. i \<noteq> me rf) (map int [0..<peers rf]))"

text \<open>
  The goroutine of peer \<open>i\<close>: the region that builds the request (\<open>None\<close> when it gives up), an
  attempt (the leadership check at \<^verbatim>\<open>retry\<close>, then that region), the check for an outdated reply, and one region for each kind of reply. The Boolean of the failure
  region says whether the goroutine retries.
\<close>

definition entriesToSend :: "('c, 'd) Raft \<Rightarrow> int \<Rightarrow> int \<Rightarrow> 'c LogEntry list go" where
  "entriesToSend rf next index =
     (let offsetIndex = sIndex (snapshot rf)
      in if next < index + 1
         then (if next - offsetIndex < 0
               then go_slice (Log rf) 0 (index - offsetIndex + 1)
               else go_slice (Log rf) (next - offsetIndex) (index - offsetIndex + 1))
         else Inr [])"

definition broadcastAppendEntries_prepare ::
  "('c, 'd) Raft \<Rightarrow> int \<Rightarrow> int \<Rightarrow> int \<Rightarrow> int \<Rightarrow> (int \<times> ('c, 'd) AppendEntriesArgs) option go" where
  "broadcastAppendEntries_prepare rf i index term commit =
     (if CurrentTerm rf \<noteq> term \<or> index < lastApplied rf then Inr None
      else bindG (go_index (nextIndex rf) i) (\<lambda>next.
           bindG (getLogByIndexUnLock rf (next - 1)) (\<lambda>prev.
           bindG (entriesToSend rf next index) (\<lambda>entries.
             Inr (Some (next,
               \<lparr>aeTerm = term, LeaderId = me rf, PrevLogIndex = next - 1,
                PrevLogTerm = eTerm prev, Entries = entries, LeaderCommit = commit,
                LogSnapshot = snapshot rf\<rparr>))))))"

definition broadcastAppendEntries_attempt ::
  "('c, 'd) Raft \<Rightarrow> ('c, 'd) Raft \<Rightarrow> int \<Rightarrow> int \<Rightarrow> int \<Rightarrow> int \<Rightarrow>
   (int \<times> ('c, 'd) AppendEntriesArgs) option go" where
  "broadcastAppendEntries_attempt rfGetState rf i index term commit =
     (if \<not> snd (GetState rfGetState) then Inr None
      else broadcastAppendEntries_prepare rf i index term commit)"

definition broadcastAppendEntries_stale ::
  "('c, 'd) Raft \<Rightarrow> ('c, 'd) AppendEntriesArgs \<Rightarrow> bool" where
  "broadcastAppendEntries_stale rf args \<longleftrightarrow> CurrentTerm rf \<noteq> aeTerm args"

definition broadcastAppendEntries_fail ::
  "('c, 'd) Raft \<Rightarrow> int \<Rightarrow> ('c, 'd) AppendEntriesArgs \<Rightarrow> AppendEntriesReply \<Rightarrow> int \<Rightarrow>
   (('c, 'd) Raft \<times> bool) go" where
  "broadcastAppendEntries_fail rf i args reply next =
     (if aeTerm args < aerTerm reply
      then Inr (persist (rf\<lparr>CurrentTerm := aerTerm reply, VotedFor := -1, state := Follower\<rparr>), False)
      else bindG (getNextIndex rf reply next) (\<lambda>n.
           bindG (go_update (nextIndex rf) i n) (\<lambda>ns. Inr (rf\<lparr>nextIndex := ns\<rparr>, True))))"

definition markReplicated :: "('c, 'd) Raft \<Rightarrow> int \<Rightarrow> int \<Rightarrow> ('c, 'd) Raft go" where
  "markReplicated rf i index =
     bindG (go_index (nextIndex rf) i) (\<lambda>n.
       if n < index + 1
       then bindG (go_update (nextIndex rf) i (index + 1)) (\<lambda>ns.
            bindG (go_update (matchIndex rf) i index) (\<lambda>ms.
              Inr (rf\<lparr>nextIndex := ns, matchIndex := ms\<rparr>)))
       else Inr rf)"

definition broadcastAppendEntries_success ::
  "('c, 'd) Raft \<Rightarrow> int \<Rightarrow> int \<Rightarrow> int \<Rightarrow> bool \<Rightarrow>
   (('c, 'd) Raft \<times> int \<times> bool \<times> goroutine list) go" where
  "broadcastAppendEntries_success rf0 i index nReplica isAgree =
     bindG (markReplicated rf0 i index) (\<lambda>rf.
       let nReplica' = nReplica + 1
       in if \<not> isAgree \<and> state rf = Leader \<and> nReplica' \<ge> majority rf
          then bindG (if commitIndex rf < index
                      then mapG (\<lambda>e. eTerm e = CurrentTerm rf) (getLogByIndexUnLock rf index)
                      else Inr False) (\<lambda>own.
                 if own then Inr (rf\<lparr>commitIndex := index\<rparr>, nReplica', True, [GoHeartBeat, GoApply])
                 else Inr (rf, nReplica', True, []))
          else Inr (rf, nReplica', isAgree, []))"

section \<open>Applying committed entries\<close>

definition commandOf :: "'c LogEntry \<Rightarrow> ('c, 'd) iface" where
  "commandOf e = (case eLog e of None \<Rightarrow> NilIface | Some c \<Rightarrow> CommandIface c)"

function applyLoop :: "('c, 'd) Raft \<Rightarrow> int \<Rightarrow> int \<Rightarrow> ('c, 'd) Raft go" where
  "applyLoop rf i commit =
     (if i \<le> commit
      then bindG (getLogByIndexUnLock rf i) (\<lambda>e.
             applyLoop (send_apply \<lparr>CommandValid = True, Command = commandOf e, CommandIndex = i\<rparr>
                          (rf\<lparr>lastApplied := i\<rparr>)) (i + 1) commit)
      else Inr rf)"
  by pat_completeness auto
termination
  by (relation "measure (\<lambda>(rf, i, c). nat (c + 1 - i))") auto

declare applyLoop.simps [simp del]

definition applySnapshot :: "('c, 'd) Raft \<Rightarrow> ('c, 'd) Raft" where
  "applySnapshot rf =
     (if lastApplied rf < sIndex (snapshot rf)
      then (send_apply \<lparr>CommandValid = False, Command = SnapshotIface (snapshot rf),
                        CommandIndex = 0\<rparr> rf)\<lparr>lastApplied := sIndex (snapshot rf)\<rparr>
      else rf)"

definition raft_apply :: "('c, 'd) Raft \<Rightarrow> ('c, 'd) Raft go" where
  "raft_apply rf =
     (let rf1 = applySnapshot rf
      in if commitIndex rf1 < sIndex (snapshot rf1) then Inr rf1
         else if lastApplied rf1 \<noteq> commitIndex rf
              then applyLoop rf1 (lastApplied rf1 + 1) (commitIndex rf)
              else Inr rf1)"

section \<open>Clients of the peer\<close>

text \<open>
  \<open>Start\<close> reads the role in one locked region and appends in another; its two states are the ones
  seen by the two regions. The result is the new state, the index, the term, the role and the
  goroutines.
\<close>

definition Start_append ::
  "int \<Rightarrow> ('c, 'd) Raft \<Rightarrow> 'c \<Rightarrow> ('c, 'd) Raft \<times> int \<times> goroutine list" where
  "Start_append now rf command =
     (let logEntry = \<lparr>eIndex = sIndex (snapshot rf) + int (length (Log rf)),
                      eTerm = CurrentTerm rf, eLog = Some command\<rparr>;
          rf1 = (persist (rf\<lparr>Log := Log rf @ [logEntry]\<rparr>))\<lparr>latestSendHeartbeatTime := now\<rparr>
      in (rf1, eIndex logEntry,
          [GoBroadcast (eIndex logEntry) (CurrentTerm rf1) (commitIndex rf1) 1]))"

definition Start ::
  "int \<Rightarrow> ('c, 'd) Raft \<Rightarrow> ('c, 'd) Raft \<Rightarrow> 'c \<Rightarrow>
   ('c, 'd) Raft \<times> int \<times> int \<times> bool \<times> goroutine list" where
  "Start now rfGetState rf command =
     (let (term, isLeader) = GetState rfGetState
      in if isLeader
         then (let (rf', index, gs) = Start_append now rf command in (rf', index, term, True, gs))
         else (rf, -1, term, False, []))"

definition raft_Kill :: "('c, 'd) Raft \<Rightarrow> ('c, 'd) Raft" where
  "raft_Kill rf = rf\<lparr>dead := 1\<rparr>"

definition raft_killed :: "('c, 'd) Raft \<Rightarrow> bool" where
  "raft_killed rf \<longleftrightarrow> dead rf = 1"

section \<open>Elections and timers\<close>

abbreviation (input) Millisecond :: int where "Millisecond \<equiv> 1000000"

text \<open>One iteration of each check loop: whether it signals its channel.\<close>

definition electionCheckLoop :: "int \<Rightarrow> ('c, 'd) Raft \<Rightarrow> ('c, 'd) Raft \<Rightarrow> bool" where
  "electionCheckLoop now rfGetState rf \<longleftrightarrow>
     \<not> raft_killed rfGetState \<and> \<not> snd (GetState rfGetState) \<and>
     go_div (now - latestReceiveHeartbeatTime rf) Millisecond \<ge> electionTimeout rf"

definition heartBeatLoop :: "int \<Rightarrow> ('c, 'd) Raft \<Rightarrow> ('c, 'd) Raft \<Rightarrow> bool" where
  "heartBeatLoop now rfGetState rf \<longleftrightarrow>
     \<not> raft_killed rfGetState \<and> snd (GetState rfGetState) \<and>
     go_div (now - latestSendHeartbeatTime rf) Millisecond \<ge> heartbeatTimeout rf"

definition broadcastHeartBeat ::
  "int \<Rightarrow> ('c, 'd) Raft \<Rightarrow> ('c, 'd) Raft \<Rightarrow> ('c, 'd) Raft \<times> goroutine list" where
  "broadcastHeartBeat now rfGetState rf =
     (if \<not> snd (GetState rfGetState) then (rf, [])
      else (let rf1 = rf\<lparr>latestSendHeartbeatTime := now\<rparr>
            in (rf1, [GoBroadcast (eIndex (getLastLogUnLock rf1)) (CurrentTerm rf1)
                        (commitIndex rf1) 1])))"

text \<open>
  \<^verbatim>\<open>startOneElection\<close> in its locked regions: becoming a candidate, building the request to one
  peer, the check for an outdated reply, a refused vote, and a granted vote. The counter
  \<^verbatim>\<open>nVotes\<close> is shared by the goroutines of one election, so it is passed in and out.
\<close>

definition startOneElection :: "int \<Rightarrow> int \<Rightarrow> ('c, 'd) Raft \<Rightarrow> ('c, 'd) Raft" where
  "startOneElection now rnd rf =
     resetElectionTimer now rnd
       (persist (rf\<lparr>state := Candidate, CurrentTerm := CurrentTerm rf + 1, VotedFor := me rf\<rparr>))"

definition startOneElection_args :: "('c, 'd) Raft \<Rightarrow> RequestVoteArgs" where
  "startOneElection_args rf =
     \<lparr>rvTerm = CurrentTerm rf, CandidateId = me rf,
      LastLogIndex = eIndex (getLastLogUnLock rf), LastLogTerm = eTerm (getLastLogUnLock rf)\<rparr>"

definition startOneElection_stale :: "('c, 'd) Raft \<Rightarrow> RequestVoteArgs \<Rightarrow> bool" where
  "startOneElection_stale rf args \<longleftrightarrow> CurrentTerm rf \<noteq> rvTerm args"

definition startOneElection_refused ::
  "('c, 'd) Raft \<Rightarrow> RequestVoteReply \<Rightarrow> ('c, 'd) Raft" where
  "startOneElection_refused rf reply =
     (if CurrentTerm rf < rvrTerm reply
      then persist (rf\<lparr>CurrentTerm := rvrTerm reply, VotedFor := -1, state := Follower\<rparr>)
      else rf)"

definition startOneElection_granted ::
  "('c, 'd) Raft \<Rightarrow> int \<Rightarrow> ('c, 'd) Raft \<times> int \<times> goroutine list" where
  "startOneElection_granted rf votes =
     (let votes' = votes + 1
      in if state rf = Candidate \<and> votes' \<ge> majority rf
         then (persist (rf\<lparr>nextIndex := replicate (peers rf)
                                          (int (length (Log rf)) + sIndex (snapshot rf)),
                           matchIndex := replicate (peers rf) (sIndex (snapshot rf)),
                           leaderId := me rf, state := Leader\<rparr>), votes', [GoHeartBeat])
         else (rf, votes', []))"

text \<open>One iteration of the event loop: which function the channel's signal starts.\<close>

datatype raft_event = ElectionTimeout | HeartbeatTimeout

datatype raft_task = TaskElection | TaskHeartBeat

fun eventLoop :: "raft_event \<Rightarrow> raft_task" where
  "eventLoop ElectionTimeout = TaskElection"
| "eventLoop HeartbeatTimeout = TaskHeartBeat"

section \<open>Creating a peer\<close>

definition Make ::
  "int \<Rightarrow> int \<Rightarrow> nat \<Rightarrow> int \<Rightarrow> ('c gobval, 'd) Persister \<Rightarrow> ('c, 'd) Raft" where
  "Make now rnd n i persister =
     (let rf = \<lparr>peers = n, Persister = persister, me = i, dead = 0, applyChan = [],
               state = Follower, leaderId = -1, CurrentTerm = 0, VotedFor = -1,
               Log = [\<lparr>eIndex = 0, eTerm = 0, eLog = None\<rparr>],
               commitIndex = 0, lastApplied = 0, nVotes = 0,
               nextIndex = replicate n 0, matchIndex = replicate n 0,
               electionTimeout = 0, heartbeatTimeout = 110,
               latestSendHeartbeatTime = 0, latestReceiveHeartbeatTime = 0,
               snapshot = \<lparr>sIndex = 0, sTerm = 0, Storage = []\<rparr>\<rparr>
      in readPersist (resetElectionTimer now rnd rf) (ReadRaftState persister))"

end
