(* ===== verification/Raft_Peer.thy ===== *)
theory Raft_Peer
  imports Raft_Core
begin

text \<open>
  Properties of one Raft peer that hold whatever messages it receives: terms never decrease, a
  vote is never changed within a term, and what an RPC reply or a role depends on is on stable
  storage before the lock is released, so a crash and restart changes none of it. The locked
  regions are collected in the step relation \<open>peer_step\<close>; the contract they share is the locale
  \<open>peer_contract\<close>, interpreted on that relation.
\<close>

section \<open>Frame lemmas\<close>

lemma send_apply_simps [simp]:
  "peers (send_apply m rf) = peers rf" "Persister (send_apply m rf) = Persister rf"
  "me (send_apply m rf) = me rf" "dead (send_apply m rf) = dead rf"
  "state (send_apply m rf) = state rf" "leaderId (send_apply m rf) = leaderId rf"
  "CurrentTerm (send_apply m rf) = CurrentTerm rf" "VotedFor (send_apply m rf) = VotedFor rf"
  "Log (send_apply m rf) = Log rf" "commitIndex (send_apply m rf) = commitIndex rf"
  "lastApplied (send_apply m rf) = lastApplied rf" "nextIndex (send_apply m rf) = nextIndex rf"
  "matchIndex (send_apply m rf) = matchIndex rf" "snapshot (send_apply m rf) = snapshot rf"
  "applyChan (send_apply m rf) = applyChan rf @ [m]"
  by (simp_all add: send_apply_def)

lemma persist_simps [simp]:
  "peers (persist rf) = peers rf" "me (persist rf) = me rf" "dead (persist rf) = dead rf"
  "state (persist rf) = state rf" "leaderId (persist rf) = leaderId rf"
  "CurrentTerm (persist rf) = CurrentTerm rf" "VotedFor (persist rf) = VotedFor rf"
  "Log (persist rf) = Log rf" "commitIndex (persist rf) = commitIndex rf"
  "lastApplied (persist rf) = lastApplied rf" "nextIndex (persist rf) = nextIndex rf"
  "matchIndex (persist rf) = matchIndex rf" "snapshot (persist rf) = snapshot rf"
  "Persister (persist rf) =
     SaveStateAndSnapshot (Persister rf) (encodeState rf) (Storage (snapshot rf))"
  by (simp_all add: persist_def Let_def)

lemma resetElectionTimer_simps [simp]:
  "peers (resetElectionTimer now rnd rf) = peers rf"
  "Persister (resetElectionTimer now rnd rf) = Persister rf"
  "me (resetElectionTimer now rnd rf) = me rf"
  "applyChan (resetElectionTimer now rnd rf) = applyChan rf"
  "state (resetElectionTimer now rnd rf) = state rf"
  "CurrentTerm (resetElectionTimer now rnd rf) = CurrentTerm rf"
  "VotedFor (resetElectionTimer now rnd rf) = VotedFor rf"
  "Log (resetElectionTimer now rnd rf) = Log rf"
  "commitIndex (resetElectionTimer now rnd rf) = commitIndex rf"
  "lastApplied (resetElectionTimer now rnd rf) = lastApplied rf"
  "nextIndex (resetElectionTimer now rnd rf) = nextIndex rf"
  "matchIndex (resetElectionTimer now rnd rf) = matchIndex rf"
  "snapshot (resetElectionTimer now rnd rf) = snapshot rf"
  by (simp_all add: resetElectionTimer_def)

text \<open>The last entry and the entry at an index depend on the log and the snapshot only.\<close>

lemma getLastLogUnLock_cong:
  "Log rf = Log rf' \<Longrightarrow> snapshot rf = snapshot rf' \<Longrightarrow> getLastLogUnLock rf = getLastLogUnLock rf'"
  by (simp add: getLastLogUnLock_def snapshotEntry_def)

lemma getLogByIndexUnLock_cong:
  "Log rf = Log rf' \<Longrightarrow> snapshot rf = snapshot rf' \<Longrightarrow>
   getLogByIndexUnLock rf i = getLogByIndexUnLock rf' i"
  by (simp add: getLogByIndexUnLock_def snapshotEntry_def)

section \<open>Stable storage\<close>

definition recovered :: "('c, 'd) Raft \<Rightarrow> ('c, 'd) Raft" where
  "recovered rf = Make 0 0 (peers rf) (me rf) (Copy (Persister rf))"

text \<open>What a restart would read back is what the peer holds in memory.\<close>

definition durable :: "('c, 'd) Raft \<Rightarrow> bool" where
  "durable rf \<longleftrightarrow> Log rf \<noteq> [] \<and>
     CurrentTerm (recovered rf) = CurrentTerm rf \<and> VotedFor (recovered rf) = VotedFor rf \<and>
     Log (recovered rf) = Log rf \<and> snapshot (recovered rf) = snapshot rf"

lemma readPersist_frame:
  "peers (readPersist rf data) = peers rf" "me (readPersist rf data) = me rf"
  "state (readPersist rf data) = state rf" "Persister (readPersist rf data) = Persister rf"
  by (auto simp: readPersist_def decodeState_def Let_def split: option.splits)

lemma readPersist_encodeState:
  assumes "Log rf \<noteq> []" and "ReadSnapshot (Persister rf0) = Storage (snapshot rf)"
  shows "CurrentTerm (readPersist rf0 (encodeState rf)) = CurrentTerm rf"
    and "VotedFor (readPersist rf0 (encodeState rf)) = VotedFor rf"
    and "Log (readPersist rf0 (encodeState rf)) = Log rf"
    and "commitIndex (readPersist rf0 (encodeState rf)) = commitIndex rf"
    and "snapshot (readPersist rf0 (encodeState rf)) = snapshot rf"
    and "lastApplied (readPersist rf0 (encodeState rf)) = sIndex (snapshot rf)"
  using assms by (auto simp: readPersist_def encodeState_def decodeState_def Let_def)

lemma Make_frame:
  "peers (Make now rnd n i ps) = n" "me (Make now rnd n i ps) = i"
  "state (Make now rnd n i ps) = Follower" "Persister (Make now rnd n i ps) = ps"
  by (simp_all add: Make_def Let_def readPersist_frame)

text \<open>The result of \<open>Make\<close> does not depend on the clock, but for the election timer.\<close>

lemma readPersist_timer_irrelevant:
  "CurrentTerm (readPersist (resetElectionTimer now rnd rf) data) = CurrentTerm (readPersist rf data)"
  "VotedFor (readPersist (resetElectionTimer now rnd rf) data) = VotedFor (readPersist rf data)"
  "Log (readPersist (resetElectionTimer now rnd rf) data) = Log (readPersist rf data)"
  "snapshot (readPersist (resetElectionTimer now rnd rf) data) = snapshot (readPersist rf data)"
  "commitIndex (readPersist (resetElectionTimer now rnd rf) data) = commitIndex (readPersist rf data)"
  by (auto simp: readPersist_def decodeState_def snapshotEntry_def Let_def split: option.splits)

lemma Make_timer_irrelevant:
  "CurrentTerm (Make now rnd n i ps) = CurrentTerm (Make now' rnd' n i ps)"
  "VotedFor (Make now rnd n i ps) = VotedFor (Make now' rnd' n i ps)"
  "Log (Make now rnd n i ps) = Log (Make now' rnd' n i ps)"
  "snapshot (Make now rnd n i ps) = snapshot (Make now' rnd' n i ps)"
  by (simp_all add: Make_def Let_def readPersist_timer_irrelevant)

lemma Make_recovers:
  assumes "Log rf \<noteq> []" "ReadRaftState ps = encodeState rf"
    and "ReadSnapshot ps = Storage (snapshot rf)"
  shows "CurrentTerm (Make now rnd n i ps) = CurrentTerm rf"
    and "VotedFor (Make now rnd n i ps) = VotedFor rf"
    and "Log (Make now rnd n i ps) = Log rf"
    and "snapshot (Make now rnd n i ps) = snapshot rf"
    and "commitIndex (Make now rnd n i ps) = commitIndex rf"
  using assms by (simp_all add: Make_def Let_def readPersist_encodeState)

lemma durable_persist [intro]: "Log rf \<noteq> [] \<Longrightarrow> durable (persist rf)"
  by (simp add: durable_def recovered_def persister.restart_reads_last_save Make_recovers)

lemma durable_cong:
  assumes "durable rf" "peers rf' = peers rf" "me rf' = me rf" "Persister rf' = Persister rf"
    "CurrentTerm rf' = CurrentTerm rf" "VotedFor rf' = VotedFor rf" "Log rf' = Log rf"
    "snapshot rf' = snapshot rf"
  shows "durable rf'"
  using assms by (simp add: durable_def recovered_def)

lemma durable_nonempty [dest]: "durable rf \<Longrightarrow> Log rf \<noteq> []"
  by (simp add: durable_def)

lemma durable_timer [intro]: "durable rf \<Longrightarrow> durable (resetElectionTimer now rnd rf)"
  by (rule durable_cong) simp_all

lemma durable_Make_fresh: "durable (Make now rnd n i MakePersister)"
  by (simp add: durable_def recovered_def Make_def Let_def MakePersister_def Copy_def
      ReadRaftState_def readPersist_def)

section \<open>The regions, one by one\<close>

text \<open>
  \<open>peer_mono rf rf'\<close>: the peer keeps its identity, its term does not decrease, and a vote cast in
  the current term stands. \<open>no_new_leader rf rf'\<close>: it is leader afterwards only if it was before,
  in the same term.
\<close>

definition peer_mono :: "('c, 'd) Raft \<Rightarrow> ('c, 'd) Raft \<Rightarrow> bool" where
  "peer_mono rf rf' \<longleftrightarrow> peers rf' = peers rf \<and> me rf' = me rf \<and> CurrentTerm rf \<le> CurrentTerm rf' \<and>
     (CurrentTerm rf' = CurrentTerm rf \<longrightarrow> VotedFor rf = -1 \<or> VotedFor rf' = VotedFor rf)"

definition no_new_leader :: "('c, 'd) Raft \<Rightarrow> ('c, 'd) Raft \<Rightarrow> bool" where
  "no_new_leader rf rf' \<longleftrightarrow>
     (state rf' = Leader \<longrightarrow> state rf = Leader \<and> CurrentTerm rf' = CurrentTerm rf)"

lemma peer_mono_refl [simp]: "peer_mono rf rf"
  by (simp add: peer_mono_def)

lemma peer_mono_trans:
  assumes "peer_mono a b" "peer_mono b c"
  shows "peer_mono a c"
  using assms unfolding peer_mono_def by (smt (verit))

lemma no_new_leader_refl [simp]: "no_new_leader rf rf"
  by (simp add: no_new_leader_def)

text \<open>A region that leaves term, vote and role alone satisfies both.\<close>

lemma peer_mono_frame:
  "peers rf' = peers rf \<Longrightarrow> me rf' = me rf \<Longrightarrow> CurrentTerm rf' = CurrentTerm rf \<Longrightarrow>
   VotedFor rf' = VotedFor rf \<Longrightarrow> peer_mono rf rf'"
  by (simp add: peer_mono_def)

lemma RequestVote_mono: "peer_mono rf (fst (RequestVote now rnd rf args))"
  by (auto simp: RequestVote_def peer_mono_def Let_def)

lemma RequestVote_no_new_leader: "no_new_leader rf (fst (RequestVote now rnd rf args))"
  by (auto simp: RequestVote_def no_new_leader_def Let_def)

lemma RequestVote_durable: "durable rf \<Longrightarrow> durable (fst (RequestVote now rnd rf args))"
proof -
  assume d: "durable rf"
  then have "Log rf \<noteq> []" by (simp add: durable_def)
  with d show ?thesis by (auto simp: RequestVote_def Let_def intro!: durable_persist)
qed

text \<open>A granted vote is recorded in the voter's term, for the candidate that asked.\<close>

lemma RequestVote_granted:
  assumes "VoteGranted (snd (RequestVote now rnd rf args))"
  shows "CurrentTerm (fst (RequestVote now rnd rf args)) = rvTerm args"
    and "VotedFor (fst (RequestVote now rnd rf args)) = CandidateId args"
    and "rvrTerm (snd (RequestVote now rnd rf args)) = rvTerm args"
    and "upToDate rf args"
    and "CurrentTerm rf \<le> rvTerm args"
    and "CurrentTerm rf = rvTerm args \<Longrightarrow> VotedFor rf = -1 \<or> VotedFor rf = CandidateId args"
  using assms
  by (auto simp: RequestVote_def Let_def upToDate_def getLastLogUnLock_def snapshotEntry_def
      split: if_splits)

lemma stepDownTo_effect:
  "peer_mono rf (stepDownTo now rnd t rf)" "no_new_leader rf (stepDownTo now rnd t rf)"
  "Log (stepDownTo now rnd t rf) = Log rf" "snapshot (stepDownTo now rnd t rf) = snapshot rf"
  "commitIndex (stepDownTo now rnd t rf) = commitIndex rf"
  "lastApplied (stepDownTo now rnd t rf) = lastApplied rf"
  "CurrentTerm (stepDownTo now rnd t rf) = max (CurrentTerm rf) t"
  by (auto simp: stepDownTo_def peer_mono_def no_new_leader_def)

lemma stepDownTo_durable: "durable rf \<Longrightarrow> durable (stepDownTo now rnd t rf)"
  by (auto simp: stepDownTo_def durable_def [of rf] intro!: durable_persist)

lemma followCommit_frame:
  assumes "followCommit rf lc n = (rf', gs)"
  shows "CurrentTerm rf' = CurrentTerm rf" "VotedFor rf' = VotedFor rf" "state rf' = state rf"
    "peers rf' = peers rf" "me rf' = me rf" "Log rf' = Log rf" "snapshot rf' = snapshot rf"
    "lastApplied rf' = lastApplied rf"
  using assms by (auto simp: followCommit_def split: if_splits)

lemma copyEntries_frame:
  assumes "copyEntries rf off next es = Inr rf'"
  shows "CurrentTerm rf' = CurrentTerm rf" "VotedFor rf' = VotedFor rf" "state rf' = state rf"
    "peers rf' = peers rf" "me rf' = me rf" "snapshot rf' = snapshot rf"
    "commitIndex rf' = commitIndex rf" "lastApplied rf' = lastApplied rf"
  using assms by (auto simp: copyEntries_def bindG_eq_Inr_iff split: if_splits)

lemma copyEntries_nonempty:
  assumes "copyEntries rf off next es = Inr rf'" "Log rf \<noteq> []" "off < next"
  shows "Log rf' \<noteq> []"
  using assms by (auto simp: copyEntries_def bindG_eq_Inr_iff go_slice_def split: if_splits)

lemma updateSnapshotUnLock_frame [simp]:
  "CurrentTerm (updateSnapshotUnLock rf sn) = CurrentTerm rf"
  "VotedFor (updateSnapshotUnLock rf sn) = VotedFor rf"
  "state (updateSnapshotUnLock rf sn) = state rf"
  "peers (updateSnapshotUnLock rf sn) = peers rf"
  "me (updateSnapshotUnLock rf sn) = me rf"
  "commitIndex (updateSnapshotUnLock rf sn) = commitIndex rf"
  "lastApplied (updateSnapshotUnLock rf sn) = lastApplied rf"
  by (simp_all add: updateSnapshotUnLock_def Let_def)

lemma updateSnapshotUnLock_nonempty: "Log rf \<noteq> [] \<Longrightarrow> Log (updateSnapshotUnLock rf sn) \<noteq> []"
  by (simp add: updateSnapshotUnLock_def Let_def)

lemma acceptEntries_cases:
  assumes "acceptEntries now rnd rf args = Inr (rf', reply, gs)"
  obtains rf2 rf3 m where
    "isMatch (rf\<lparr>state := Follower\<rparr>) (eIndex (getLastLogUnLock rf)) (PrevLogIndex args + 1)
       (Entries args) = Inr m"
    "(if m then Inr (rf\<lparr>state := Follower\<rparr>)
      else copyEntries (rf\<lparr>state := Follower\<rparr>) (sIndex (snapshot rf)) (PrevLogIndex args + 1)
             (Entries args)) = Inr rf2"
    "followCommit rf2 (LeaderCommit args) (PrevLogIndex args + int (length (Entries args)))
       = (rf3, gs)"
    "rf' = persist (resetElectionTimer now rnd (updateSnapshotUnLock rf3 (LogSnapshot args)))"
    "reply = \<lparr>aerTerm = CurrentTerm rf', Success = True, ConflictIndex = 0, ConflictTerm = 0\<rparr>"
proof -
  have last: "getLastLogUnLock (rf\<lparr>state := Follower\<rparr>) = getLastLogUnLock rf"
    by (rule getLastLogUnLock_cong) simp_all
  have snap: "snapshot (rf\<lparr>state := Follower\<rparr>) = snapshot rf" by simp
  let ?f = "rf\<lparr>state := Follower\<rparr>"
  from assms obtain m rf2 where
    m: "isMatch ?f (eIndex (getLastLogUnLock rf)) (PrevLogIndex args + 1) (Entries args) = Inr m" and
    rf2: "(if m then Inr ?f
      else copyEntries ?f (sIndex (snapshot rf)) (PrevLogIndex args + 1) (Entries args)) = Inr rf2" and
    rest: "(case followCommit rf2 (LeaderCommit args)
              (PrevLogIndex args + int (length (Entries args))) of
       (rf3, gs) \<Rightarrow>
         let rf4 = persist (resetElectionTimer now rnd (updateSnapshotUnLock rf3 (LogSnapshot args)))
         in Inr (rf4, \<lparr>aerTerm = CurrentTerm rf4, Success = True,
                       ConflictIndex = 0, ConflictTerm = 0\<rparr>, gs)) = (Inr (rf', reply, gs) :: _ go)"
    unfolding acceptEntries_def Let_def last snap by (elim bindG_eq_InrE) blast
  obtain rf3 gs' where fc: "followCommit rf2 (LeaderCommit args)
      (PrevLogIndex args + int (length (Entries args))) = (rf3, gs')" by fastforce
  from rest fc have "gs' = gs"
    "rf' = persist (resetElectionTimer now rnd (updateSnapshotUnLock rf3 (LogSnapshot args)))"
    "reply = \<lparr>aerTerm = CurrentTerm rf', Success = True, ConflictIndex = 0, ConflictTerm = 0\<rparr>"
    by (auto simp: Let_def)
  with m rf2 fc show thesis by (intro that) simp_all
qed

lemma acceptEntries_frame:
  assumes "acceptEntries now rnd rf args = Inr (rf', reply, gs)"
  shows "CurrentTerm rf' = CurrentTerm rf" "VotedFor rf' = VotedFor rf" "state rf' = Follower"
    "peers rf' = peers rf" "me rf' = me rf" "Success reply"
    "aerTerm reply = CurrentTerm rf" "lastApplied rf' = lastApplied rf"
proof -
  obtain rf2 rf3 m where
    rf2: "(if m then Inr (rf\<lparr>state := Follower\<rparr>)
      else copyEntries (rf\<lparr>state := Follower\<rparr>) (sIndex (snapshot rf)) (PrevLogIndex args + 1)
             (Entries args)) = Inr rf2" and
    rf3: "followCommit rf2 (LeaderCommit args)
            (PrevLogIndex args + int (length (Entries args))) = (rf3, gs)" and
    rf': "rf' = persist (resetElectionTimer now rnd (updateSnapshotUnLock rf3 (LogSnapshot args)))"
    "reply = \<lparr>aerTerm = CurrentTerm rf', Success = True, ConflictIndex = 0, ConflictTerm = 0\<rparr>"
    using assms by (rule acceptEntries_cases)
  have "CurrentTerm rf2 = CurrentTerm rf \<and> VotedFor rf2 = VotedFor rf \<and> state rf2 = Follower \<and>
      peers rf2 = peers rf \<and> me rf2 = me rf \<and> lastApplied rf2 = lastApplied rf"
    using rf2 copyEntries_frame [of "rf\<lparr>state := Follower\<rparr>"] by (cases m) auto
  with followCommit_frame [OF rf3] show
    "CurrentTerm rf' = CurrentTerm rf" "VotedFor rf' = VotedFor rf" "state rf' = Follower"
    "peers rf' = peers rf" "me rf' = me rf" "Success reply"
    "aerTerm reply = CurrentTerm rf" "lastApplied rf' = lastApplied rf"
    by (simp_all add: rf')
qed

lemma acceptEntries_durable:
  assumes "acceptEntries now rnd rf args = Inr (rf', reply, gs)" "Log rf \<noteq> []"
    and "sIndex (snapshot rf) \<le> PrevLogIndex args"
  shows "durable rf'"
  using assms(1)
proof (rule acceptEntries_cases)
  fix rf2 rf3 m
  assume "(if m then Inr (rf\<lparr>state := Follower\<rparr>)
      else copyEntries (rf\<lparr>state := Follower\<rparr>) (sIndex (snapshot rf)) (PrevLogIndex args + 1)
             (Entries args)) = Inr rf2"
    and fc: "followCommit rf2 (LeaderCommit args)
       (PrevLogIndex args + int (length (Entries args))) = (rf3, gs)"
    and rf': "rf' = persist (resetElectionTimer now rnd (updateSnapshotUnLock rf3 (LogSnapshot args)))"
  then have "Log rf2 \<noteq> []"
    using assms(2,3) copyEntries_nonempty [of "rf\<lparr>state := Follower\<rparr>"] by (auto split: if_splits)
  then show ?thesis
    unfolding rf' using fc
    by (intro durable_persist) (simp add: followCommit_frame updateSnapshotUnLock_nonempty)
qed

lemma trimArgs_prev: "sIndex (snapshot rf) \<le> PrevLogIndex (trimArgs rf args)"
  by (simp add: trimArgs_def)

text \<open>The three ways \<open>AppendEntries\<close> can end: refused, conflict, accepted.\<close>

lemma AppendEntries_cases:
  assumes "AppendEntries now rnd rf args = Inr (rf', reply, gs)"
  obtains
    (outdated) "aeTerm args < CurrentTerm rf" "rf' = rf" "gs = []" "\<not> Success reply"
      "aerTerm reply = CurrentTerm rf"
  | (conflict) "CurrentTerm rf \<le> aeTerm args"
      "rf' = resetElectionTimer now rnd (stepDownTo now rnd (aeTerm args) rf)" "gs = []"
      "prevConsistent (stepDownTo now rnd (aeTerm args) rf)
         (trimArgs (stepDownTo now rnd (aeTerm args) rf) args) = Inr False"
      "conflictReply rf' (trimArgs (stepDownTo now rnd (aeTerm args) rf) args) = Inr reply"
  | (accepted) "CurrentTerm rf \<le> aeTerm args"
      "prevConsistent (stepDownTo now rnd (aeTerm args) rf)
         (trimArgs (stepDownTo now rnd (aeTerm args) rf) args) = Inr True"
      "acceptEntries now rnd (stepDownTo now rnd (aeTerm args) rf)
         (trimArgs (stepDownTo now rnd (aeTerm args) rf) args) = Inr (rf', reply, gs)"
  using assms
  by (auto simp: AppendEntries_def Let_def elim!: bindG_eq_InrE split: if_splits)

lemma conflictReply_fields:
  "conflictReply rf args = Inr reply \<Longrightarrow> aerTerm reply = CurrentTerm rf \<and> \<not> Success reply"
  by (auto simp: conflictReply_def Let_def bindG_eq_Inr_iff split: if_splits)

lemma AppendEntries_mono:
  assumes "AppendEntries now rnd rf args = Inr (rf', reply, gs)"
  shows "peer_mono rf rf'" and "no_new_leader rf rf'"
  using assms
  by (cases rule: AppendEntries_cases;
      use stepDownTo_effect(1,2) [of rf now rnd "aeTerm args"] in
        \<open>auto simp: peer_mono_def no_new_leader_def acceptEntries_frame\<close>)+

lemma AppendEntries_durable:
  assumes "AppendEntries now rnd rf args = Inr (rf', reply, gs)" "durable rf"
  shows "durable rf'"
proof -
  have d: "durable (stepDownTo now rnd (aeTerm args) rf)" using assms(2) by (rule stepDownTo_durable)
  from assms(1) show ?thesis
  proof (cases rule: AppendEntries_cases)
    case accepted
    from d accepted(3) show ?thesis
      by (intro acceptEntries_durable [OF accepted(3)]) (auto simp: durable_def trimArgs_prev)
  qed (use assms(2) d in auto)
qed

text \<open>The reply carries the term the peer ends in.\<close>

lemma AppendEntries_reply_term:
  assumes "AppendEntries now rnd rf args = Inr (rf', reply, gs)"
  shows "aerTerm reply = CurrentTerm rf'"
  using assms
  by (cases rule: AppendEntries_cases) (auto simp: acceptEntries_frame dest: conflictReply_fields)

lemma startOneElection_effect:
  "CurrentTerm (startOneElection now rnd rf) = CurrentTerm rf + 1"
  "VotedFor (startOneElection now rnd rf) = me rf"
  "state (startOneElection now rnd rf) = Candidate"
  "peers (startOneElection now rnd rf) = peers rf" "me (startOneElection now rnd rf) = me rf"
  "Log (startOneElection now rnd rf) = Log rf"
  "snapshot (startOneElection now rnd rf) = snapshot rf"
  by (simp_all add: startOneElection_def)

lemma startOneElection_durable: "durable rf \<Longrightarrow> durable (startOneElection now rnd rf)"
  unfolding startOneElection_def durable_def [of rf]
  by (intro durable_timer durable_persist) simp

lemma refused_effect:
  "peer_mono rf (startOneElection_refused rf reply)"
  "no_new_leader rf (startOneElection_refused rf reply)"
  "durable rf \<Longrightarrow> durable (startOneElection_refused rf reply)"
  by (auto simp: startOneElection_refused_def peer_mono_def no_new_leader_def
      intro!: durable_persist)

lemma granted_effect:
  assumes "startOneElection_granted rf v = (rf', v', gs)"
  shows "peers rf' = peers rf" "me rf' = me rf" "CurrentTerm rf' = CurrentTerm rf"
    "VotedFor rf' = VotedFor rf" "v' = v + 1" "durable rf \<Longrightarrow> durable rf'"
    "state rf' = Leader \<Longrightarrow> state rf \<noteq> Leader \<Longrightarrow> state rf = Candidate \<and> majority rf \<le> v'"
  using assms
  by (auto simp: startOneElection_granted_def Let_def split: if_splits intro!: durable_persist)

lemma fail_effect:
  assumes "broadcastAppendEntries_fail rf i args reply next = Inr (rf', retry)"
  shows "aeTerm args < aerTerm reply \<longrightarrow> CurrentTerm rf < aerTerm reply \<Longrightarrow> peer_mono rf rf'"
    and "no_new_leader rf rf'" and "durable rf \<Longrightarrow> durable rf'"
  using assms
  by (auto simp: broadcastAppendEntries_fail_def peer_mono_def
      no_new_leader_def bindG_eq_Inr_iff split: if_splits intro!: durable_persist
      elim!: durable_cong)

lemma markReplicated_frame:
  assumes "markReplicated rf i index = Inr rf'"
  shows "peers rf' = peers rf" "me rf' = me rf" "CurrentTerm rf' = CurrentTerm rf"
    "VotedFor rf' = VotedFor rf" "state rf' = state rf" "Log rf' = Log rf"
    "snapshot rf' = snapshot rf" "Persister rf' = Persister rf" "lastApplied rf' = lastApplied rf"
    "commitIndex rf' = commitIndex rf"
  using assms by (auto simp: markReplicated_def split: if_splits elim!: bindG_eq_InrE)

lemma success_cases:
  assumes "broadcastAppendEntries_success rf i index n a = Inr (rf', n', a', gs)"
  obtains rf1 where "markReplicated rf i index = Inr rf1" "n' = n + 1"
    "rf' = rf1 \<or>
     rf' = rf1\<lparr>commitIndex := index\<rparr> \<and> \<not> a \<and> state rf1 = Leader \<and> majority rf1 \<le> n' \<and>
     commitIndex rf1 < index \<and>
     (\<exists>e. getLogByIndexUnLock rf1 index = Inr e \<and> eTerm e = CurrentTerm rf1)"
  using assms that
  by (auto simp: broadcastAppendEntries_success_def Let_def mapG_eq_Inr_iff split: if_splits
      elim!: bindG_eq_InrE)

lemma success_effect:
  assumes "broadcastAppendEntries_success rf i index n a = Inr (rf', n', a', gs)"
  shows "peers rf' = peers rf" "me rf' = me rf" "CurrentTerm rf' = CurrentTerm rf"
    "VotedFor rf' = VotedFor rf" "state rf' = state rf" "Log rf' = Log rf"
    "snapshot rf' = snapshot rf" "Persister rf' = Persister rf" "lastApplied rf' = lastApplied rf"
proof -
  obtain rf1 where "markReplicated rf i index = Inr rf1"
    "rf' = rf1 \<or> rf' = rf1\<lparr>commitIndex := index\<rparr>"
    using assms by (rule success_cases) blast
  then show "peers rf' = peers rf" "me rf' = me rf" "CurrentTerm rf' = CurrentTerm rf"
    "VotedFor rf' = VotedFor rf" "state rf' = state rf" "Log rf' = Log rf"
    "snapshot rf' = snapshot rf" "Persister rf' = Persister rf" "lastApplied rf' = lastApplied rf"
    using markReplicated_frame [of rf i index rf1] by auto
qed

lemma applyLoop_frame:
  "applyLoop rf i c = Inr rf' \<Longrightarrow>
     peers rf' = peers rf \<and> me rf' = me rf \<and> CurrentTerm rf' = CurrentTerm rf \<and>
     VotedFor rf' = VotedFor rf \<and> state rf' = state rf \<and> Log rf' = Log rf \<and>
     snapshot rf' = snapshot rf \<and> Persister rf' = Persister rf \<and> commitIndex rf' = commitIndex rf"
proof (induction rf i c rule: applyLoop.induct)
  case (1 rf i c)
  show ?case
  proof (cases "i \<le> c")
    case True
    with "1.prems" obtain e where e: "getLogByIndexUnLock rf i = Inr e" and
      l: "applyLoop (send_apply \<lparr>CommandValid = True, Command = commandOf e, CommandIndex = i\<rparr>
            (rf\<lparr>lastApplied := i\<rparr>)) (i + 1) c = Inr rf'"
      by (auto simp: applyLoop.simps [of rf i c] bindG_eq_Inr_iff)
    from "1.IH" [OF True e l] show ?thesis by simp
  qed (use "1.prems" in \<open>simp add: applyLoop.simps [of rf i c]\<close>)
qed

lemma applySnapshot_frame [simp]:
  "peers (applySnapshot rf) = peers rf" "me (applySnapshot rf) = me rf"
  "CurrentTerm (applySnapshot rf) = CurrentTerm rf" "VotedFor (applySnapshot rf) = VotedFor rf"
  "state (applySnapshot rf) = state rf" "Log (applySnapshot rf) = Log rf"
  "snapshot (applySnapshot rf) = snapshot rf" "Persister (applySnapshot rf) = Persister rf"
  "commitIndex (applySnapshot rf) = commitIndex rf"
  "lastApplied (applySnapshot rf) = max (lastApplied rf) (sIndex (snapshot rf))"
  by (simp_all add: applySnapshot_def)

lemma raft_apply_frame:
  assumes "raft_apply rf = Inr rf'"
  shows "peers rf' = peers rf \<and> me rf' = me rf \<and> CurrentTerm rf' = CurrentTerm rf \<and>
     VotedFor rf' = VotedFor rf \<and> state rf' = state rf \<and> Log rf' = Log rf \<and>
     snapshot rf' = snapshot rf \<and> Persister rf' = Persister rf \<and> commitIndex rf' = commitIndex rf"
  using assms
  by (auto simp: raft_apply_def Let_def split: if_splits dest!: applyLoop_frame)

lemma Start_append_effect:
  assumes "Start_append now rf c = (rf', index, gs)"
  shows "peers rf' = peers rf" "me rf' = me rf" "CurrentTerm rf' = CurrentTerm rf"
    "VotedFor rf' = VotedFor rf" "state rf' = state rf" "snapshot rf' = snapshot rf"
    "index = sIndex (snapshot rf) + int (length (Log rf))"
    "Log rf' = Log rf @ [\<lparr>eIndex = index, eTerm = CurrentTerm rf, eLog = Some c\<rparr>]"
    "commitIndex rf' = commitIndex rf" "durable rf'"
proof -
  let ?e = "\<lparr>eIndex = index, eTerm = CurrentTerm rf, eLog = Some c\<rparr>"
  from assms have rf': "rf' = (persist (rf\<lparr>Log := Log rf @ [?e]\<rparr>))\<lparr>latestSendHeartbeatTime := now\<rparr>"
    and i: "index = sIndex (snapshot rf) + int (length (Log rf))"
    by (auto simp: Start_append_def Let_def)
  show "index = sIndex (snapshot rf) + int (length (Log rf))" by (rule i)
  have "durable (persist (rf\<lparr>Log := Log rf @ [?e]\<rparr>))" by (rule durable_persist) simp
  then show "durable rf'" unfolding rf' by (rule durable_cong) simp_all
  show "peers rf' = peers rf" "me rf' = me rf" "CurrentTerm rf' = CurrentTerm rf"
    "VotedFor rf' = VotedFor rf" "state rf' = state rf" "snapshot rf' = snapshot rf"
    "Log rf' = Log rf @ [?e]" "commitIndex rf' = commitIndex rf"
    by (simp_all add: rf')
qed

lemma SaveSnapshot_effect:
  assumes "SaveSnapshot rf index st = Inr rf'"
  shows "peers rf' = peers rf" "me rf' = me rf" "CurrentTerm rf' = CurrentTerm rf"
    "VotedFor rf' = VotedFor rf" "state rf' = state rf" "commitIndex rf' = commitIndex rf"
    "lastApplied rf' = lastApplied rf" "durable rf \<Longrightarrow> durable rf'"
  using assms
  by (auto simp: SaveSnapshot_def Let_def bindG_eq_Inr_iff getLogByIndexUnLock_def
      go_index_eq_Inr_iff go_slice_def split: if_splits intro!: durable_persist)

lemma recovered_mono:
  assumes "durable rf"
  shows "peer_mono rf (Make now rnd (peers rf) (me rf) (Copy (Persister rf)))"
proof -
  have "CurrentTerm (Make now rnd (peers rf) (me rf) (Copy (Persister rf))) = CurrentTerm rf"
    "VotedFor (Make now rnd (peers rf) (me rf) (Copy (Persister rf))) = VotedFor rf"
    using assms Make_timer_irrelevant [of now rnd "peers rf" "me rf" "Copy (Persister rf)" 0 0]
    by (simp_all add: durable_def recovered_def)
  then show ?thesis by (simp add: peer_mono_def Make_frame)
qed

lemma restart_durable:
  assumes "durable rf"
  shows "durable (Make now rnd (peers rf) (me rf) (Copy (Persister rf)))" (is "durable ?r")
proof -
  have pc: "Copy (Copy ps) = Copy ps" for ps :: "('e, 'f) Persister"
    by (simp add: Copy_def MakePersister_def)
  have "recovered ?r = recovered rf" by (simp add: recovered_def Make_frame pc)
  with assms Make_timer_irrelevant [of now rnd "peers rf" "me rf" "Copy (Persister rf)" 0 0]
  show ?thesis by (simp add: durable_def) (simp add: recovered_def)
qed

section \<open>All regions together\<close>

text \<open>
  Every locked region of a live peer, with arbitrary messages, and a crash followed by a restart
  from a copy of the storage. \<open>Start\<close> and the heartbeat act on what an earlier region has read of the role,
  in any state of the peer. \<open>code_step\<close> has them all; \<open>peer_step\<close> leaves out one behaviour of the code:
  the failure region of a replication goroutine, which takes the lock again after the check for an outdated
  reply, does not handle a refusal whose term the peer has reached meanwhile. \<open>Raft_Races\<close> shows that such a
  late refusal turns the term back and erases a vote.
\<close>

inductive region_step :: "('c, 'd) Raft \<Rightarrow> ('c, 'd) Raft \<Rightarrow> bool" where
  ps_vote: "region_step rf (fst (RequestVote now rnd rf args))"
| ps_elect: "region_step rf (startOneElection now rnd rf)"
| ps_refused: "region_step rf (startOneElection_refused rf vreply)"
| ps_granted: "startOneElection_granted rf v = (rf', v', gs) \<Longrightarrow> region_step rf rf'"
| ps_fail: "broadcastAppendEntries_fail rf i args reply next = Inr (rf', retry) \<Longrightarrow>
    (aeTerm args < aerTerm reply \<longrightarrow> CurrentTerm rf < aerTerm reply) \<Longrightarrow> region_step rf rf'"
| ps_success: "broadcastAppendEntries_success rf i index n a = Inr (rf', n', a', gs) \<Longrightarrow>
    region_step rf rf'"
| ps_apply: "raft_apply rf = Inr rf' \<Longrightarrow> region_step rf rf'"
| ps_start: "region_step rf (fst (Start now rf0 rf c))"
| ps_heartbeat: "region_step rf (fst (broadcastHeartBeat now rf0 rf))"
| ps_snapshot: "SaveSnapshot rf index st = Inr rf' \<Longrightarrow> region_step rf rf'"
| ps_kill: "region_step rf (raft_Kill rf)"
| ps_restart: "region_step rf (Make now rnd (peers rf) (me rf) (Copy (Persister rf)))"

inductive peer_step :: "('c, 'd) Raft \<Rightarrow> ('c, 'd) Raft \<Rightarrow> bool" where
  ps_region: "region_step rf rf' \<Longrightarrow> peer_step rf rf'"
| ps_append: "AppendEntries now rnd rf args = Inr (rf', reply, gs) \<Longrightarrow> peer_step rf rf'"

inductive code_step :: "('c, 'd) Raft \<Rightarrow> ('c, 'd) Raft \<Rightarrow> bool" where
  cs_peer: "peer_step rf rf' \<Longrightarrow> code_step rf rf'"
| cs_late: "broadcastAppendEntries_fail rf i args reply next = Inr (rf', retry) \<Longrightarrow> code_step rf rf'"

text \<open>
  The contract: over a state kept durable, terms grow and votes stand. Its clients conclude facts
  about whole runs, crashes included.
\<close>

locale peer_contract =
  fixes region :: "('c, 'd) Raft \<Rightarrow> ('c, 'd) Raft \<Rightarrow> bool"
  assumes region_durable: "region rf rf' \<Longrightarrow> durable rf \<Longrightarrow> durable rf'"
    and region_mono: "region rf rf' \<Longrightarrow> durable rf \<Longrightarrow> peer_mono rf rf'"
begin

lemma run_durable_mono:
  assumes "run_from region rf rf'" "durable rf"
  shows "durable rf' \<and> peer_mono rf rf'"
  using assms
proof (induction rule: run_from.induct)
  case (run_step s t u)
  then show ?case using region_durable region_mono peer_mono_trans by blast
qed simp

lemma run_term_mono: "run_from region rf rf' \<Longrightarrow> durable rf \<Longrightarrow> CurrentTerm rf \<le> CurrentTerm rf'"
  using run_durable_mono by (auto simp: peer_mono_def)

lemma run_vote_stable:
  assumes "run_from region rf rf'" "durable rf" "CurrentTerm rf' = CurrentTerm rf" "VotedFor rf \<noteq> -1"
  shows "VotedFor rf' = VotedFor rf"
  using run_durable_mono [OF assms(1,2)] assms(3,4) by (auto simp: peer_mono_def)

end

lemma Start_effect: "durable rf \<Longrightarrow> durable (fst (Start now rf0 rf c)) \<and> peer_mono rf (fst (Start now rf0 rf c))"
proof -
  assume d: "durable rf"
  obtain rf' index gs where s: "Start_append now rf c = (rf', index, gs)" by (metis prod_cases3)
  show ?thesis
    using d Start_append_effect [OF s] s
    by (auto simp: Start_def Let_def GetState_def peer_mono_def)
qed

lemma region_step_effect:
  assumes st: "region_step rf rf'" and d: "durable rf"
  shows "durable rf' \<and> peer_mono rf rf'"
  using st
proof cases
  case (ps_vote now rnd args)
  then show ?thesis using d RequestVote_durable RequestVote_mono by blast
next
  case (ps_elect now rnd)
  then show ?thesis
    using d startOneElection_durable by (simp add: peer_mono_def startOneElection_effect)
next
  case (ps_refused vreply)
  then show ?thesis using d refused_effect by blast
next
  case (ps_granted v v' gs)
  then show ?thesis using d granted_effect [OF ps_granted] by (simp add: peer_mono_def)
next
  case (ps_fail i args reply nx retry)
  then show ?thesis using fail_effect [OF ps_fail(1)] d by simp
next
  case (ps_success i index n a n' a' gs)
  then show ?thesis
    using durable_cong [OF d] success_effect [OF ps_success] by (simp add: peer_mono_def)
next
  case ps_apply
  then show ?thesis using durable_cong [OF d] raft_apply_frame [OF ps_apply] by (simp add: peer_mono_def)
next
  case (ps_start now rf0 c)
  then show ?thesis using Start_effect [OF d, of now rf0 c] by simp
next
  case (ps_heartbeat now rf0)
  then show ?thesis using durable_cong [OF d, of rf']
    by (auto simp: broadcastHeartBeat_def Let_def peer_mono_def)
next
  case (ps_snapshot index st)
  then show ?thesis using d SaveSnapshot_effect [OF ps_snapshot] by (simp add: peer_mono_def)
next
  case ps_kill
  then show ?thesis using durable_cong [OF d, of rf'] by (simp add: raft_Kill_def peer_mono_def)
next
  case (ps_restart now rnd)
  then show ?thesis using d recovered_mono restart_durable by blast
qed

interpretation peer: peer_contract peer_step
proof
  fix rf rf' :: "('c, 'd) Raft"
  assume st: "peer_step rf rf'" and d: "durable rf"
  from st have "durable rf' \<and> peer_mono rf rf'"
  proof cases
    case ps_region
    then show ?thesis using d by (rule region_step_effect)
  next
    case (ps_append now rnd args reply gs)
    then show ?thesis using d AppendEntries_durable AppendEntries_mono by blast
  qed
  then show "durable rf'" "peer_mono rf rf'" by auto
qed

section \<open>Properties\<close>

lemma code_step_durable: "code_step rf rf' \<Longrightarrow> durable rf \<Longrightarrow> durable rf'"
  by (cases rule: code_step.cases) (use peer.region_durable fail_effect(3) in blast)+

lemma life_durable:
  assumes "run_from code_step (Make now rnd n i MakePersister) rf"
  shows "durable rf"
proof -
  have "durable rf" if "run_from code_step rf0 rf" "durable rf0" for rf0
    using that by (induction rule: run_from.induct) (auto intro: code_step_durable)
  then show ?thesis using assms durable_Make_fresh by blast
qed

text \<open>
  C7: A peer votes for at most one candidate per term, as long as no refusal is handled late. After any life of the
  peer (any regions of its code with any messages, late ones included, crashes and restarts from storage) let it
  grant a vote request, then do anything except handle the refusal of an \<^verbatim>\<open>AppendEntries\<close> request after
  reaching the term that the refusal carries, and then grant another request of the same term: the two requests
  come from the same candidate. The exception is needed: such a refusal erases the vote.
\<close>

theorem one_vote_per_term:
  assumes "run_from code_step (Make now0 rnd0 n i MakePersister) rf"
    and "VoteGranted (snd (RequestVote now rnd rf args))"
    and "run_from peer_step (fst (RequestVote now rnd rf args)) rf2"
    and "VoteGranted (snd (RequestVote now' rnd' rf2 args'))"
    and "rvTerm args' = rvTerm args" and "CandidateId args \<noteq> -1"
  shows "CandidateId args' = CandidateId args"
proof -
  have d1: "durable (fst (RequestVote now rnd rf args))"
    using life_durable [OF assms(1)] by (rule RequestVote_durable)
  have "run_from peer_step (fst (RequestVote now rnd rf args)) (fst (RequestVote now' rnd' rf2 args'))"
    using assms(3) ps_region [OF ps_vote] by (rule run_step)
  from peer.run_vote_stable [OF this d1] show ?thesis
    using RequestVote_granted [OF assms(2)] RequestVote_granted [OF assms(4)] assms(5,6) by simp
qed

definition example_vote :: "int \<Rightarrow> RequestVoteArgs" where
  "example_vote c = \<lparr>rvTerm = 1, CandidateId = c, LastLogIndex = 0, LastLogTerm = 0\<rparr>"

definition example_voter :: "(nat, nat) Raft" where
  "example_voter = fst (RequestVote 0 0 (Make 0 0 3 0 MakePersister) (example_vote 2))"

theorem one_vote_per_term_witness:
  "VoteGranted (snd (RequestVote 0 0 (Make 0 0 3 0 (Copy (Persister example_voter))) (example_vote 2)))
   \<and> \<not> VoteGranted (snd (RequestVote 0 0 (Make 0 0 3 0 (Copy (Persister example_voter))) (example_vote 1)))"
proof -
  let ?rf = "Make 0 0 3 0 MakePersister :: (nat, nat) Raft"
  let ?rf2 = "Make 0 0 3 0 (Copy (Persister example_voter))"
  have g: "VoteGranted (snd (RequestVote 0 0 ?rf (example_vote 2)))" by code_simp
  have pm: "peers example_voter = 3" "me example_voter = 0" by code_simp+
  have r: "run_from peer_step (fst (RequestVote 0 0 ?rf (example_vote 2))) ?rf2"
    using run_from_single [of peer_step, OF ps_region [OF ps_restart [of example_voter 0 0]]] pm
    by (simp add: example_voter_def)
  note vote = one_vote_per_term [OF run_refl g r]
  have "VoteGranted (snd (RequestVote 0 0 ?rf2 (example_vote 2)))" by code_simp
  moreover have "\<not> VoteGranted (snd (RequestVote 0 0 ?rf2 (example_vote 1)))"
    using vote [of 0 0 "example_vote 1"] by (auto simp: example_vote_def)
  ultimately show ?thesis by simp
qed

text \<open>
  C10: Stable storage is always current. At any point of a peer's life, however often it crashed before and
  whatever regions of its code have run with whatever messages, late refusals included, a restart from a copy of
  its storage brings back its current term, its vote, its log and its snapshot, so no region leaves one of them
  changed in memory only; and the term it comes back with is at least every term it has been in since the last
  refusal that was handled after the peer had reached its term (such a refusal turns the term back).
\<close>

theorem crash_recovery:
  assumes "run_from code_step (Make now0 rnd0 n i MakePersister) rf0"
    and "run_from peer_step rf0 rf"
  shows "let rf' = Make now rnd (peers rf) (me rf) (Copy (Persister rf))
    in CurrentTerm rf' = CurrentTerm rf \<and> VotedFor rf' = VotedFor rf \<and> Log rf' = Log rf \<and>
       snapshot rf' = snapshot rf \<and> CurrentTerm rf0 \<le> CurrentTerm rf'"
proof -
  have "durable rf" "CurrentTerm rf0 \<le> CurrentTerm rf"
    using peer.run_durable_mono [OF assms(2) life_durable [OF assms(1)]] by (auto simp: peer_mono_def)
  then show ?thesis
    using Make_timer_irrelevant [of now rnd "peers rf" "me rf" "Copy (Persister rf)" 0 0]
    by (simp add: durable_def recovered_def Let_def)
qed

theorem crash_recovery_witness:
  "let rf' = Make 5 7 (peers example_voter) (me example_voter) (Copy (Persister example_voter))
   in CurrentTerm rf' = 1 \<and> VotedFor rf' = 2 \<and> length (Log rf') = 1"
proof -
  have "peer_step (Make 0 0 3 0 MakePersister) example_voter"
    unfolding example_voter_def by (rule ps_region [OF ps_vote])
  then have "run_from code_step (Make 0 0 3 0 MakePersister) example_voter"
    by (intro run_from_single cs_peer)
  from crash_recovery [OF this run_refl, of 5 7] show ?thesis by code_simp
qed

end
