(* ===== verification/Raft_Election.thy ===== *)
theory Raft_Election
  imports Raft_Peer
begin

text \<open>
  A cluster of Raft peers and the goroutines of their elections. An \<open>election\<close> is one call of
  \<^verbatim>\<open>startOneElection\<close>: the shared counter \<^verbatim>\<open>nVotes\<close> and, per peer, how far its goroutine has got.
  An action is one locked region or one network event; \<open>act\<close> executes it on the regions of
  \<open>Raft_Core\<close>, in any interleaving, with lost requests and replies. The election's own term and
  the set of votes cast are history variables: no region reads them.
\<close>

section \<open>The cluster\<close>

datatype rpc =
    NotSent
  | Sent RequestVoteArgs
  | Answered RequestVoteArgs RequestVoteReply
  | Checked RequestVoteArgs RequestVoteReply
  | Dropped
  | Counted

record election =
  cand :: nat
  eterm :: int
  count :: int
  rpcs :: "rpc list"

record ('c, 'd) cluster =
  srv :: "('c, 'd) Raft list"
  elections :: "election list"
  votes :: "(nat \<times> int \<times> int) set"

definition init_cluster :: "nat \<Rightarrow> ('c, 'd) cluster" where
  "init_cluster n =
     \<lparr>srv = map (\<lambda>i. Make 0 0 n (int i) MakePersister) [0..<n], elections = [], votes = {}\<rparr>"

text \<open>
  The regions of a peer that are not part of an election. \<open>Start\<close> and the heartbeat carry the state in which an
  earlier region has read the role.
\<close>

datatype ('c, 'd) region =
    RAppend int int "('c, 'd) AppendEntriesArgs"
  | RFail int "('c, 'd) AppendEntriesArgs" AppendEntriesReply int
  | RSuccess int int int bool
  | RApply
  | RStart int "('c, 'd) Raft" 'c
  | RHeartBeat int "('c, 'd) Raft"
  | RSnapshot int "'d list"
  | RKill
  | RRestart int int

definition ok :: "'a go \<Rightarrow> 'a option" where
  "ok r = (case r of Inl _ \<Rightarrow> None | Inr x \<Rightarrow> Some x)"

fun run_region :: "('c, 'd) region \<Rightarrow> ('c, 'd) Raft \<Rightarrow> ('c, 'd) Raft option" where
  "run_region (RAppend now rnd args) rf = map_option fst (ok (AppendEntries now rnd rf args))"
| "run_region (RFail i args reply nx) rf =
     map_option fst (ok (broadcastAppendEntries_fail rf i args reply nx))"
| "run_region (RSuccess i index k a) rf =
     map_option fst (ok (broadcastAppendEntries_success rf i index k a))"
| "run_region RApply rf = ok (raft_apply rf)"
| "run_region (RStart now rf0 c) rf = Some (fst (Start now rf0 rf c))"
| "run_region (RHeartBeat now rf0) rf = Some (fst (broadcastHeartBeat now rf0 rf))"
| "run_region (RSnapshot index st) rf = ok (SaveSnapshot rf index st)"
| "run_region RKill rf = Some (raft_Kill rf)"
| "run_region (RRestart now rnd) rf = Some (Make now rnd (peers rf) (me rf) (Copy (Persister rf)))"

datatype ('c, 'd) action =
    Elect nat int int
  | Send nat nat
  | Deliver nat nat int int
  | Drop nat nat
  | Check nat nat
  | Handle nat nat
  | Local nat "('c, 'd) region"

definition set_rpc :: "nat \<Rightarrow> nat \<Rightarrow> rpc \<Rightarrow> ('c, 'd) cluster \<Rightarrow> ('c, 'd) cluster" where
  "set_rpc k i r s =
     s\<lparr>elections := (elections s)[k := (elections s ! k)\<lparr>rpcs := (rpcs (elections s ! k))[i := r]\<rparr>]\<rparr>"

definition set_srv :: "nat \<Rightarrow> ('c, 'd) Raft \<Rightarrow> ('c, 'd) cluster \<Rightarrow> ('c, 'd) cluster" where
  "set_srv i rf s = s\<lparr>srv := (srv s)[i := rf]\<rparr>"

definition has_rpc :: "('c, 'd) cluster \<Rightarrow> nat \<Rightarrow> nat \<Rightarrow> bool" where
  "has_rpc s k i \<longleftrightarrow> k < length (elections s) \<and> i < length (rpcs (elections s ! k)) \<and>
     i \<noteq> cand (elections s ! k)"

abbreviation rpc_of :: "('c, 'd) cluster \<Rightarrow> nat \<Rightarrow> nat \<Rightarrow> rpc" where
  "rpc_of s k i \<equiv> rpcs (elections s ! k) ! i"

abbreviation cand_of :: "('c, 'd) cluster \<Rightarrow> nat \<Rightarrow> nat" where
  "cand_of s k \<equiv> cand (elections s ! k)"

text \<open>The second locked region of a reply: a refused vote or a granted one.\<close>

definition handle_reply ::
  "nat \<Rightarrow> nat \<Rightarrow> RequestVoteReply \<Rightarrow> ('c, 'd) cluster \<Rightarrow> ('c, 'd) cluster" where
  "handle_reply k i reply s =
     (let c = cand_of s k; rf = srv s ! c
      in if \<not> VoteGranted reply
         then set_rpc k i Dropped (set_srv c (startOneElection_refused rf reply) s)
         else (let (rf', v', gs) = startOneElection_granted rf (count (elections s ! k));
                   s1 = set_rpc k i Counted (set_srv c rf' s)
               in s1\<lparr>elections := (elections s1)[k := (elections s1 ! k)\<lparr>count := v'\<rparr>]\<rparr>))"

text \<open>
  The loop of an election builds its requests in the order of the peers. An election may start in any role: the
  check of the role in \<^verbatim>\<open>electionCheckLoop\<close> is a region of its own, after which the role may change before
  \<^verbatim>\<open>startOneElection\<close>, which does not repeat it, takes the lock.
\<close>

fun act :: "('c, 'd) cluster \<Rightarrow> ('c, 'd) action \<Rightarrow> ('c, 'd) cluster option" where
  "act s (Elect c now rnd) =
     (if c < length (srv s)
      then (let rf = startOneElection now rnd (srv s ! c); s1 = set_srv c rf s
            in Some (s1\<lparr>votes := insert (c, CurrentTerm rf, me rf) (votes s),
                       elections := elections s @
                         [\<lparr>cand = c, eterm = CurrentTerm rf, count = 1,
                           rpcs = replicate (peers rf) NotSent\<rparr>]\<rparr>))
      else None)"
| "act s (Send k i) =
     (if has_rpc s k i \<and> rpc_of s k i = NotSent \<and> list_all (\<lambda>j. j = cand_of s k \<or> rpc_of s k j \<noteq> NotSent) [0..<i]
      then Some (set_rpc k i (Sent (startOneElection_args (srv s ! cand_of s k))) s)
      else None)"
| "act s (Deliver k i now rnd) =
     (if has_rpc s k i then
        (case rpc_of s k i of
           Sent args \<Rightarrow>
             (let (rf', reply) = RequestVote now rnd (srv s ! i) args;
                  s1 = set_rpc k i (Answered args reply) (set_srv i rf' s)
              in Some (if VoteGranted reply
                       then s1\<lparr>votes := insert (i, rvTerm args, CandidateId args) (votes s)\<rparr>
                       else s1))
         | _ \<Rightarrow> None)
      else None)"
| "act s (Drop k i) =
     (if has_rpc s k i then
        (case rpc_of s k i of
           Sent args \<Rightarrow> Some (set_rpc k i Dropped s)
         | Answered args reply \<Rightarrow> Some (set_rpc k i Dropped s)
         | _ \<Rightarrow> None)
      else None)"
| "act s (Check k i) =
     (if has_rpc s k i then
        (case rpc_of s k i of
           Answered args reply \<Rightarrow>
             Some (set_rpc k i (if startOneElection_stale (srv s ! cand_of s k) args then Dropped
                                else Checked args reply) s)
         | _ \<Rightarrow> None)
      else None)"
| "act s (Handle k i) =
     (if has_rpc s k i then
        (case rpc_of s k i of
           Checked args reply \<Rightarrow> Some (handle_reply k i reply s)
         | _ \<Rightarrow> None)
      else None)"
| "act s (Local i r) =
     (if i < length (srv s) then map_option (\<lambda>rf'. set_srv i rf' s) (run_region r (srv s ! i))
      else None)"

fun acts :: "('c, 'd) cluster \<Rightarrow> ('c, 'd) action list \<Rightarrow> ('c, 'd) cluster option" where
  "acts s [] = Some s"
| "acts s (a # as) = (case act s a of None \<Rightarrow> None | Some t \<Rightarrow> acts t as)"

text \<open>
  The scheduling under which elections are safe: a request is built while the candidate is still
  in the term it started the election for, and when a reply is handled the term check of the
  preceding region still holds.
\<close>

fun calm :: "('c, 'd) cluster \<Rightarrow> ('c, 'd) action \<Rightarrow> bool" where
  "calm s (Send k i) = (CurrentTerm (srv s ! cand_of s k) = eterm (elections s ! k))"
| "calm s (Handle k i) =
     (case rpc_of s k i of
        Checked args reply \<Rightarrow> \<not> startOneElection_stale (srv s ! cand_of s k) args
      | _ \<Rightarrow> True)"
| "calm s (Local i (RFail j args reply nx)) = (\<not> broadcastAppendEntries_stale (srv s ! i) args)"
| "calm s _ = True"

inductive calm_step :: "('c, 'd) cluster \<Rightarrow> ('c, 'd) cluster \<Rightarrow> bool" where
  calm_stepI: "calm s a \<Longrightarrow> act s a = Some t \<Longrightarrow> calm_step s t"

definition leader_in_term :: "('c, 'd) cluster \<Rightarrow> nat \<Rightarrow> int \<Rightarrow> bool" where
  "leader_in_term s i t \<longleftrightarrow>
     i < length (srv s) \<and> state (srv s ! i) = Leader \<and> CurrentTerm (srv s ! i) = t"

section \<open>The invariant\<close>

definition vote_quorum :: "nat \<Rightarrow> nat set \<Rightarrow> bool" where
  "vote_quorum n A \<longleftrightarrow> A \<subseteq> {..<n} \<and> n div 2 + 1 \<le> card A"

interpretation votes: quorum_system "vote_quorum n" for n
proof
  fix A B
  assume "vote_quorum n A" "vote_quorum n B"
  then show "A \<inter> B \<noteq> {}"
    by (intro majorities_share_member [of "{..<n}"]) (auto simp: vote_quorum_def)
qed

definition servers_ok :: "nat \<Rightarrow> ('c, 'd) Raft list \<Rightarrow> bool" where
  "servers_ok n rs \<longleftrightarrow> length rs = n \<and>
     (\<forall>i<n. durable (rs ! i) \<and> me (rs ! i) = int i \<and> peers (rs ! i) = n)"

text \<open>A recorded vote is the voter's vote of that term for as long as it stays in the term.\<close>

definition votes_ok :: "('c, 'd) Raft list \<Rightarrow> (nat \<times> int \<times> int) set \<Rightarrow> bool" where
  "votes_ok rs vs \<longleftrightarrow>
     (\<forall>v t c. (v, t, c) \<in> vs \<longrightarrow> v < length rs \<and> c \<noteq> -1 \<and> t \<le> CurrentTerm (rs ! v) \<and>
        (t = CurrentTerm (rs ! v) \<longrightarrow> VotedFor (rs ! v) = c)) \<and>
     (\<forall>v t c c'. (v, t, c) \<in> vs \<longrightarrow> (v, t, c') \<in> vs \<longrightarrow> c = c')"

definition rpc_ok :: "(nat \<times> int \<times> int) set \<Rightarrow> nat \<Rightarrow> int \<Rightarrow> nat \<Rightarrow> rpc \<Rightarrow> bool" where
  "rpc_ok vs c t i r = (case r of
       Sent args \<Rightarrow> rvTerm args = t \<and> CandidateId args = int c
     | Answered args reply \<Rightarrow> rvTerm args = t \<and> CandidateId args = int c \<and>
         (VoteGranted reply \<longrightarrow> (i, t, int c) \<in> vs)
     | Checked args reply \<Rightarrow> rvTerm args = t \<and> CandidateId args = int c \<and>
         (VoteGranted reply \<longrightarrow> (i, t, int c) \<in> vs)
     | Counted \<Rightarrow> i \<noteq> c \<and> (i, t, int c) \<in> vs
     | _ \<Rightarrow> True)"

definition counted :: "election \<Rightarrow> nat set" where
  "counted e = {i. i < length (rpcs e) \<and> rpcs e ! i = Counted}"

definition election_ok :: "nat \<Rightarrow> (nat \<times> int \<times> int) set \<Rightarrow> election \<Rightarrow> bool" where
  "election_ok n vs e \<longleftrightarrow> cand e < n \<and> length (rpcs e) = n \<and>
     (cand e, eterm e, int (cand e)) \<in> vs \<and>
     (\<forall>i<n. rpc_ok vs (cand e) (eterm e) i (rpcs e ! i)) \<and>
     count e = 1 + int (card (counted e))"

definition voters :: "(nat \<times> int \<times> int) set \<Rightarrow> int \<Rightarrow> int \<Rightarrow> nat set" where
  "voters vs t c = {v. (v, t, c) \<in> vs}"

definition leaders_ok :: "nat \<Rightarrow> ('c, 'd) Raft list \<Rightarrow> (nat \<times> int \<times> int) set \<Rightarrow> bool" where
  "leaders_ok n rs vs \<longleftrightarrow>
     (\<forall>i<length rs. state (rs ! i) = Leader \<longrightarrow>
        vote_quorum n (voters vs (CurrentTerm (rs ! i)) (int i)))"

definition cluster_inv :: "nat \<Rightarrow> ('c, 'd) cluster \<Rightarrow> bool" where
  "cluster_inv n s \<longleftrightarrow> servers_ok n (srv s) \<and> votes_ok (srv s) (votes s) \<and>
     (\<forall>e \<in> set (elections s). election_ok n (votes s) e) \<and> leaders_ok n (srv s) (votes s)"

lemma rpc_ok_mono: "rpc_ok vs c t i r \<Longrightarrow> vs \<subseteq> vs' \<Longrightarrow> rpc_ok vs' c t i r"
  by (auto simp: rpc_ok_def split: rpc.splits)

lemma election_ok_mono: "election_ok n vs e \<Longrightarrow> vs \<subseteq> vs' \<Longrightarrow> election_ok n vs' e"
  unfolding election_ok_def using rpc_ok_mono by blast

lemma vote_quorum_mono:
  "vote_quorum n A \<Longrightarrow> A \<subseteq> B \<Longrightarrow> B \<subseteq> {..<n} \<Longrightarrow> vote_quorum n B"
  unfolding vote_quorum_def by (meson card_mono finite_lessThan finite_subset le_trans)

lemma voters_bounded: "votes_ok rs vs \<Longrightarrow> voters vs t c \<subseteq> {..<length rs}"
  by (auto simp: votes_ok_def voters_def)

section \<open>Each kind of update keeps it\<close>

lemma votes_okD:
  assumes "votes_ok rs vs" "(v, t, c) \<in> vs"
  shows "v < length rs" "c \<noteq> -1" "t \<le> CurrentTerm (rs ! v)"
    "t = CurrentTerm (rs ! v) \<Longrightarrow> VotedFor (rs ! v) = c"
    "(v, t, c') \<in> vs \<Longrightarrow> c' = c"
  using assms unfolding votes_ok_def by blast+

lemma votes_okI:
  assumes "\<And>v t c. (v, t, c) \<in> vs \<Longrightarrow> v < length rs \<and> c \<noteq> -1 \<and> t \<le> CurrentTerm (rs ! v)"
    and "\<And>v t c. (v, t, c) \<in> vs \<Longrightarrow> t = CurrentTerm (rs ! v) \<Longrightarrow> VotedFor (rs ! v) = c"
    and "\<And>v t c c'. (v, t, c) \<in> vs \<Longrightarrow> (v, t, c') \<in> vs \<Longrightarrow> c = c'"
  shows "votes_ok rs vs"
  unfolding votes_ok_def by (meson assms)

lemma votes_ok_update:
  assumes ok: "votes_ok rs vs" and i: "i < length rs" and m: "peer_mono (rs ! i) rf"
  shows "votes_ok (rs[i := rf]) vs"
proof (rule votes_okI)
  fix v t c assume h: "(v, t, c) \<in> vs"
  note d = votes_okD [OF ok h]
  show "v < length (rs[i := rf]) \<and> c \<noteq> -1 \<and> t \<le> CurrentTerm (rs[i := rf] ! v)"
    using d(1-3) m by (cases "v = i") (auto simp: peer_mono_def)
  assume eq: "t = CurrentTerm (rs[i := rf] ! v)"
  show "VotedFor (rs[i := rf] ! v) = c"
  proof (cases "v = i")
    case True
    with eq d(3) m i have "CurrentTerm rf = CurrentTerm (rs ! i)" "t = CurrentTerm (rs ! i)"
      by (auto simp: peer_mono_def)
    with d(2,4) m True i show ?thesis by (auto simp: peer_mono_def)
  qed (use d(4) eq in auto)
next
  fix v t c c' assume "(v, t, c) \<in> vs" "(v, t, c') \<in> vs"
  then show "c = c'" using votes_okD(5) [OF ok] by blast
qed

text \<open>A peer takes a region that satisfies its contract and wins no election.\<close>

lemma inv_set_srv:
  assumes inv: "cluster_inv n s" and i: "i < n"
    and m: "peer_mono (srv s ! i) rf" "no_new_leader (srv s ! i) rf" "durable rf"
  shows "cluster_inv n (set_srv i rf s)"
proof -
  have len: "length (srv s) = n" using inv by (simp add: cluster_inv_def servers_ok_def)
  have "servers_ok n ((srv s)[i := rf])"
    using inv i m by (auto simp: cluster_inv_def servers_ok_def peer_mono_def nth_list_update)
  moreover have "votes_ok ((srv s)[i := rf]) (votes s)"
    using inv i m(1) len by (simp add: cluster_inv_def votes_ok_update)
  moreover have "leaders_ok n ((srv s)[i := rf]) (votes s)"
    using inv i m(2) len
    by (auto simp: cluster_inv_def leaders_ok_def no_new_leader_def nth_list_update)
  ultimately show ?thesis using inv by (simp add: cluster_inv_def set_srv_def)
qed

text \<open>A vote the peer holds in its current term is recorded.\<close>

lemma inv_record_vote:
  assumes inv: "cluster_inv n s" and v: "v < n" "c \<noteq> -1"
    and held: "t = CurrentTerm (srv s ! v)" "c = VotedFor (srv s ! v)"
  shows "cluster_inv n (s\<lparr>votes := insert (v, t, c) (votes s)\<rparr>)"
proof -
  have len: "length (srv s) = n" using inv by (simp add: cluster_inv_def servers_ok_def)
  let ?vs = "insert (v, t, c) (votes s)"
  have ok: "votes_ok (srv s) (votes s)" using inv by (simp add: cluster_inv_def)
  have vok: "votes_ok (srv s) ?vs"
  proof (rule votes_okI)
    fix w u d assume "(w, u, d) \<in> ?vs"
    then show "w < length (srv s) \<and> d \<noteq> -1 \<and> u \<le> CurrentTerm (srv s ! w)"
      using votes_okD(1-3) [OF ok, of w u d] v held len by auto
    assume "u = CurrentTerm (srv s ! w)"
    with \<open>(w, u, d) \<in> ?vs\<close> show "VotedFor (srv s ! w) = d" using votes_okD(4) [OF ok] held by auto
  next
    fix w u d d' assume "(w, u, d) \<in> ?vs" "(w, u, d') \<in> ?vs"
    then show "d = d'" using votes_okD(4,5) [OF ok] held by auto
  qed
  have "leaders_ok n (srv s) ?vs"
    unfolding leaders_ok_def
  proof (intro allI impI)
    fix i assume "i < length (srv s)" "state (srv s ! i) = Leader"
    with inv have "vote_quorum n (voters (votes s) (CurrentTerm (srv s ! i)) (int i))"
      by (simp add: cluster_inv_def leaders_ok_def)
    then show "vote_quorum n (voters ?vs (CurrentTerm (srv s ! i)) (int i))"
      by (rule vote_quorum_mono) (use voters_bounded [OF vok] len in \<open>auto simp: voters_def\<close>)
  qed
  moreover have "\<forall>e \<in> set (elections s). election_ok n ?vs e"
    using inv election_ok_mono by (metis cluster_inv_def subset_insertI)
  ultimately show ?thesis using inv vok by (simp add: cluster_inv_def)
qed

lemma inv_set_election:
  assumes "cluster_inv n s" "election_ok n (votes s) e"
  shows "cluster_inv n (s\<lparr>elections := (elections s)[k := e]\<rparr>)"
  using assms set_update_subset_insert [of "elections s" k e] by (auto simp: cluster_inv_def)

lemma inv_add_election:
  assumes "cluster_inv n s" "election_ok n (votes s) e"
  shows "cluster_inv n (s\<lparr>elections := elections s @ [e]\<rparr>)"
  using assms by (auto simp: cluster_inv_def)

lemma inv_election:
  assumes "cluster_inv n s" "k < length (elections s)"
  shows "election_ok n (votes s) (elections s ! k)"
  using assms by (simp add: cluster_inv_def)

text \<open>An RPC that is not counted moves to another stage that is not counted.\<close>

lemma inv_set_rpc:
  assumes inv: "cluster_inv n s" and has: "has_rpc s k i"
    and r: "rpc_of s k i \<noteq> Counted" "r \<noteq> Counted"
    and ok: "rpc_ok (votes s) (cand_of s k) (eterm (elections s ! k)) i r"
  shows "cluster_inv n (set_rpc k i r s)"
proof -
  let ?e = "elections s ! k"
  have eok: "election_ok n (votes s) ?e"
    using inv has by (simp add: inv_election has_rpc_def)
  have cnt: "counted (?e\<lparr>rpcs := (rpcs ?e)[i := r]\<rparr>) = counted ?e"
    using r has by (auto simp: counted_def has_rpc_def nth_list_update)
  have "election_ok n (votes s) (?e\<lparr>rpcs := (rpcs ?e)[i := r]\<rparr>)"
    using eok ok has unfolding election_ok_def cnt has_rpc_def
    by (auto simp: nth_list_update)
  then show ?thesis unfolding set_rpc_def by (rule inv_set_election [OF inv])
qed

section \<open>Every calm step keeps it\<close>

lemma cluster_inv_server:
  assumes "cluster_inv n s" "i < n"
  shows "durable (srv s ! i)" "me (srv s ! i) = int i" "peers (srv s ! i) = n"
    "length (srv s) = n"
  using assms by (simp_all add: cluster_inv_def servers_ok_def)

lemma inv_elect:
  assumes inv: "cluster_inv n s" and a: "act s (Elect c now rnd) = Some t"
  shows "cluster_inv n t"
proof -
  from inv have len: "length (srv s) = n" by (simp add: cluster_inv_def servers_ok_def)
  with a have c: "c < n" by (simp split: if_splits)
  define rf where "rf = startOneElection now rnd (srv s ! c)"
  define s1 where "s1 = set_srv c rf s"
  define s2 where "s2 = s1\<lparr>votes := insert (c, CurrentTerm rf, me rf) (votes s1)\<rparr>"
  define e where "e = \<lparr>cand = c, eterm = CurrentTerm rf, count = 1, rpcs = replicate (peers rf) NotSent\<rparr>"
  note sv = cluster_inv_server [OF inv c]
  have rf: "CurrentTerm rf = CurrentTerm (srv s ! c) + 1" "VotedFor rf = int c" "me rf = int c"
    "peers rf = n" "state rf = Candidate" "durable rf"
    using sv by (simp_all add: rf_def startOneElection_effect startOneElection_durable)
  have "cluster_inv n s1"
    unfolding s1_def by (rule inv_set_srv [OF inv c]) (use sv rf in \<open>simp_all add: peer_mono_def no_new_leader_def\<close>)
  moreover have "srv s1 ! c = rf" using c len by (simp add: s1_def set_srv_def)
  ultimately have s2: "cluster_inv n s2"
    unfolding s2_def by (intro inv_record_vote) (use c rf in auto)
  have "counted e = {}" by (auto simp: counted_def e_def)
  then have "election_ok n (votes s2) e"
    using c rf by (auto simp: election_ok_def e_def s2_def rpc_ok_def)
  from inv_add_election [OF s2 this] have "cluster_inv n (s2\<lparr>elections := elections s2 @ [e]\<rparr>)" .
  moreover have "t = s2\<lparr>elections := elections s2 @ [e]\<rparr>"
    using a c len by (simp add: s2_def s1_def e_def rf_def Let_def set_srv_def)
  ultimately show ?thesis by simp
qed

lemma inv_send:
  assumes inv: "cluster_inv n s" and a: "act s (Send k i) = Some t" and c: "calm s (Send k i)"
  shows "cluster_inv n t"
proof -
  from a have has: "has_rpc s k i" and ns: "rpc_of s k i = NotSent"
    and t: "t = set_rpc k i (Sent (startOneElection_args (srv s ! cand_of s k))) s"
    by (auto split: if_splits)
  have "election_ok n (votes s) (elections s ! k)" using inv has by (simp add: inv_election has_rpc_def)
  then have "cand_of s k < n" by (simp add: election_ok_def)
  from cluster_inv_server(2) [OF inv this] c show ?thesis
    unfolding t by (intro inv_set_rpc [OF inv has]) (simp_all add: ns rpc_ok_def startOneElection_args_def)
qed

lemma inv_deliver:
  assumes inv: "cluster_inv n s" and a: "act s (Deliver k i now rnd) = Some t"
  shows "cluster_inv n t"
proof -
  from a have has: "has_rpc s k i" by (auto split: if_splits)
  with a obtain args where r: "rpc_of s k i = Sent args" by (auto split: rpc.splits)
  define rf reply where "rf = fst (RequestVote now rnd (srv s ! i) args)"
    and "reply = snd (RequestVote now rnd (srv s ! i) args)"
  have eok: "election_ok n (votes s) (elections s ! k)" using inv has by (simp add: inv_election has_rpc_def)
  with has have i: "i < n" by (simp add: has_rpc_def election_ok_def)
  from eok i have "rpc_ok (votes s) (cand_of s k) (eterm (elections s ! k)) i (rpc_of s k i)"
    by (simp add: election_ok_def)
  with r have args: "rvTerm args = eterm (elections s ! k)" "CandidateId args = int (cand_of s k)"
    by (simp_all add: rpc_ok_def)
  define s1 where "s1 = set_srv i rf s"
  define s2 where "s2 = (if VoteGranted reply
    then s1\<lparr>votes := insert (i, rvTerm args, CandidateId args) (votes s1)\<rparr> else s1)"
  have s1: "cluster_inv n s1" unfolding s1_def rf_def
    by (rule inv_set_srv [OF inv i])
      (use cluster_inv_server [OF inv i] in
        \<open>simp_all add: RequestVote_mono RequestVote_no_new_leader RequestVote_durable\<close>)
  have at: "srv s1 ! i = rf" using i cluster_inv_server(4) [OF inv i] by (simp add: s1_def set_srv_def)
  have s2: "cluster_inv n s2"
  proof (cases "VoteGranted reply")
    case True
    then have "CurrentTerm rf = rvTerm args" "VotedFor rf = CandidateId args"
      using RequestVote_granted(1,2) by (simp_all add: rf_def reply_def)
    with True show ?thesis
      unfolding s2_def using inv_record_vote [OF s1 i] by (simp add: at args)
  qed (simp add: s2_def s1)
  have frame: "elections s2 = elections s" by (simp add: s2_def s1_def set_srv_def)
  have "cluster_inv n (set_rpc k i (Answered args reply) s2)"
    using has args by (intro inv_set_rpc [OF s2])
      (simp_all add: frame has_rpc_def r rpc_ok_def, simp add: s2_def)
  moreover have "t = set_rpc k i (Answered args reply) s2"
    using a has r
    by (cases "RequestVote now rnd (srv s ! i) args")
      (auto simp: s2_def s1_def rf_def reply_def set_rpc_def set_srv_def Let_def)
  ultimately show ?thesis by simp
qed

lemma inv_drop:
  assumes inv: "cluster_inv n s" and a: "act s (Drop k i) = Some t"
  shows "cluster_inv n t"
proof -
  from a have has: "has_rpc s k i" and "t = set_rpc k i Dropped s" "rpc_of s k i \<noteq> Counted"
    by (auto split: if_splits rpc.splits)
  then show ?thesis using inv_set_rpc [OF inv has] by (simp add: rpc_ok_def)
qed

lemma inv_check:
  assumes inv: "cluster_inv n s" and a: "act s (Check k i) = Some t"
  shows "cluster_inv n t"
proof -
  from a have has: "has_rpc s k i" by (auto split: if_splits)
  with a obtain args reply where r: "rpc_of s k i = Answered args reply"
    by (auto split: rpc.splits)
  have eok: "election_ok n (votes s) (elections s ! k)" using inv has by (simp add: inv_election has_rpc_def)
  with has have "rpc_ok (votes s) (cand_of s k) (eterm (elections s ! k)) i (rpc_of s k i)"
    by (simp add: election_ok_def has_rpc_def)
  with r have "rpc_ok (votes s) (cand_of s k) (eterm (elections s ! k)) i (Checked args reply)"
    by (simp add: rpc_ok_def)
  then show ?thesis using a has r inv_set_rpc [OF inv has]
    by (auto simp: rpc_ok_def split: if_splits)
qed

text \<open>Counting one more vote keeps the counter equal to the votes counted.\<close>

lemma counted_insert:
  assumes "i < length (rpcs e)" "rpcs e ! i \<noteq> Counted"
  shows "counted (e\<lparr>rpcs := (rpcs e)[i := Counted]\<rparr>) = insert i (counted e)" "i \<notin> counted e"
    "finite (counted e)"
  using assms by (auto simp: counted_def nth_list_update)

lemma election_ok_count:
  assumes "election_ok n vs e" "i < n" "i \<noteq> cand e" "rpcs e ! i \<noteq> Counted"
    "(i, eterm e, int (cand e)) \<in> vs"
  shows "election_ok n vs (e\<lparr>rpcs := (rpcs e)[i := Counted], count := count e + 1\<rparr>)"
proof -
  have l: "i < length (rpcs e)" using assms by (simp add: election_ok_def)
  note c = counted_insert [OF l assms(4)]
  have "counted (e\<lparr>rpcs := (rpcs e)[i := Counted], count := count e + 1\<rparr>) = insert i (counted e)"
    using c(1) by (simp add: counted_def)
  then show ?thesis
    using assms c(2,3) by (auto simp: election_ok_def rpc_ok_def nth_list_update)
qed

text \<open>The voters behind a counter: the candidate itself, the counted peers, and the new one.\<close>

lemma counted_quorum:
  assumes ok: "election_ok n vs e" and b: "voters vs (eterm e) (int (cand e)) \<subseteq> {..<n}"
    and maj: "int (n div 2 + 1) \<le> count e"
  shows "vote_quorum n (voters vs (eterm e) (int (cand e)))"
proof -
  let ?V = "insert (cand e) (counted e)"
  have nin: "cand e \<notin> counted e" and sub: "?V \<subseteq> voters vs (eterm e) (int (cand e))"
    using ok by (auto simp: election_ok_def counted_def rpc_ok_def voters_def)
  have fin: "finite (counted e)" by (simp add: counted_def)
  have "count e = int (card ?V)" using ok nin fin by (simp add: election_ok_def)
  with maj have "n div 2 + 1 \<le> card ?V" by simp
  then have "vote_quorum n ?V" using sub b by (auto simp: vote_quorum_def)
  then show ?thesis using sub b by (rule vote_quorum_mono)
qed

lemma inv_handle:
  assumes inv: "cluster_inv n s" and a: "act s (Handle k i) = Some t" and c: "calm s (Handle k i)"
  shows "cluster_inv n t"
proof -
  from a have has: "has_rpc s k i" by (auto split: if_splits)
  with a obtain args reply where r: "rpc_of s k i = Checked args reply"
    and t: "t = handle_reply k i reply s" by (auto split: rpc.splits)
  let ?e = "elections s ! k"
  define c' where "c' = cand ?e"
  have eok: "election_ok n (votes s) ?e" using inv has by (simp add: inv_election has_rpc_def)
  have i: "i < n" "i \<noteq> c'" and c': "c' < n" and k: "k < length (elections s)"
    using has eok by (auto simp: has_rpc_def election_ok_def c'_def)
  from eok i have "rpc_ok (votes s) c' (eterm ?e) i (Checked args reply)"
    by (simp add: election_ok_def c'_def flip: r)
  then have ra: "rvTerm args = eterm ?e" "VoteGranted reply \<Longrightarrow> (i, eterm ?e, int c') \<in> votes s"
    by (simp_all add: rpc_ok_def)
  note sv = cluster_inv_server [OF inv c']
  have tm: "CurrentTerm (srv s ! c') = eterm ?e"
    using c r ra(1) by (simp add: c'_def startOneElection_stale_def)
  show ?thesis
  proof (cases "VoteGranted reply")
    case False
    have s1: "cluster_inv n (set_srv c' (startOneElection_refused (srv s ! c') reply) s)"
      by (rule inv_set_srv [OF inv c']) (simp_all add: refused_effect sv)
    have "cluster_inv n (set_rpc k i Dropped (set_srv c' (startOneElection_refused (srv s ! c') reply) s))"
      by (rule inv_set_rpc [OF s1]) (use has r in \<open>simp_all add: has_rpc_def set_srv_def rpc_ok_def\<close>)
    then show ?thesis using False by (simp add: t handle_reply_def Let_def c'_def)
  next
    case True
    define e' where "e' = ?e\<lparr>rpcs := (rpcs ?e)[i := Counted], count := count ?e + 1\<rparr>"
    have e'ok: "election_ok n (votes s) e'"
      unfolding e'_def by (rule election_ok_count [OF eok i(1)]) (use i ra True r in \<open>simp_all add: c'_def\<close>)
    obtain rf' v' gs where g: "startOneElection_granted (srv s ! c') (count ?e) = (rf', v', gs)"
      by (metis prod_cases3)
    note ge = granted_effect [OF g]
    have s1: "cluster_inv n (s\<lparr>elections := (elections s)[k := e']\<rparr>)"
      by (rule inv_set_election [OF inv e'ok])
    have t': "t = set_srv c' rf' (s\<lparr>elections := (elections s)[k := e']\<rparr>)"
      using True g ge(5) k
      by (simp add: t handle_reply_def Let_def set_rpc_def set_srv_def e'_def c'_def)
    have mono: "peer_mono (srv s ! c') rf'" using ge by (simp add: peer_mono_def)
    show ?thesis
    proof (cases "no_new_leader (srv s ! c') rf'")
      case True
      then show ?thesis unfolding t' by (intro inv_set_srv [OF s1 c']) (use mono ge(6) sv in auto)
    next
      case False
      then have won: "state rf' = Leader" "state (srv s ! c') \<noteq> Leader" using ge(3) by (auto simp: no_new_leader_def)
      have vok: "votes_ok (srv s) (votes s)" using inv by (simp add: cluster_inv_def)
      have "int (n div 2 + 1) \<le> count e'"
        using ge(5) ge(7) [OF won] sv by (simp add: e'_def majority_def)
      then have q: "vote_quorum n (voters (votes s) (eterm e') (int (cand e')))"
        using counted_quorum [OF e'ok] voters_bounded [OF vok] sv(4) by simp
      then have "leaders_ok n ((srv s)[c' := rf']) (votes s)"
        using inv ge(3) tm sv(4) c'
        by (auto simp: cluster_inv_def leaders_ok_def nth_list_update e'_def c'_def)
      moreover have "servers_ok n ((srv s)[c' := rf'])"
        using inv ge(1,2,6) sv c' by (auto simp: cluster_inv_def servers_ok_def nth_list_update)
      moreover have "votes_ok ((srv s)[c' := rf']) (votes s)"
        using vok c' sv(4) mono by (simp add: votes_ok_update)
      ultimately show ?thesis using s1 by (simp add: t' set_srv_def cluster_inv_def)
    qed
  qed
qed

lemma ok_eq_Some [simp]: "ok r = Some x \<longleftrightarrow> r = Inr x"
  by (cases r) (auto simp: ok_def)

text \<open>The regions outside an election are regions of the peer, and none makes a leader.\<close>

lemma run_region_peer_step:
  assumes "run_region r rf = Some rf'" "calm s (Local i r)" "srv s ! i = rf"
  shows "peer_step rf rf'"
proof (cases r)
  case (RFail j args reply nx)
  then obtain retry where "broadcastAppendEntries_fail rf j args reply nx = Inr (rf', retry)" using assms(1) by auto
  then show ?thesis using assms(2,3) RFail by (intro ps_region ps_fail) (auto simp: broadcastAppendEntries_stale_def)
qed (use assms in \<open>auto intro: peer_step.intros region_step.intros\<close>)

lemma run_region_no_new_leader:
  assumes "run_region r rf = Some rf'"
  shows "no_new_leader rf rf'"
proof (cases r)
  case (RAppend now rnd args)
  with assms show ?thesis by (auto dest: AppendEntries_mono(2))
next
  case (RFail i args reply nx)
  with assms show ?thesis
    by (auto simp: broadcastAppendEntries_fail_def no_new_leader_def split: if_splits
        elim!: bindG_eq_InrE)
next
  case (RSuccess i index k a)
  with assms show ?thesis by (auto simp: no_new_leader_def success_effect)
next
  case RApply
  with assms show ?thesis by (auto simp: no_new_leader_def dest: raft_apply_frame)
next
  case (RStart now rf0 c)
  obtain rf1 index gs where "Start_append now rf c = (rf1, index, gs)" by (metis prod_cases3)
  with assms RStart Start_append_effect [OF this] show ?thesis
    by (cases "state rf0 = Leader") (auto simp: no_new_leader_def Start_def GetState_def)
next
  case (RHeartBeat now rf0)
  with assms show ?thesis
    by (cases "state rf0 = Leader")
      (auto simp: no_new_leader_def broadcastHeartBeat_def GetState_def Let_def)
next
  case (RSnapshot index st)
  with assms show ?thesis by (auto simp: no_new_leader_def SaveSnapshot_effect)
next
  case RKill
  with assms show ?thesis by (auto simp: no_new_leader_def raft_Kill_def)
next
  case (RRestart now rnd)
  with assms show ?thesis by (auto simp: no_new_leader_def Make_frame)
qed

lemma inv_local:
  assumes inv: "cluster_inv n s" and a: "act s (Local i r) = Some t" and c: "calm s (Local i r)"
  shows "cluster_inv n t"
proof -
  from a obtain rf where i: "i < length (srv s)" and rf: "run_region r (srv s ! i) = Some rf"
    and t: "t = set_srv i rf s" by (auto split: if_splits)
  from i inv have i': "i < n" by (simp add: cluster_inv_def servers_ok_def)
  have st: "peer_step (srv s ! i) rf" using rf c by (rule run_region_peer_step) simp
  note d = cluster_inv_server(1) [OF inv i']
  show ?thesis unfolding t
    by (rule inv_set_srv [OF inv i' peer.region_mono [OF st d] run_region_no_new_leader [OF rf]
          peer.region_durable [OF st d]])
qed

lemma inv_init: "cluster_inv n (init_cluster n)"
proof -
  have "state (Make 0 0 n (int i) MakePersister) = Follower" for i by (simp add: Make_frame)
  then show ?thesis
    by (simp add: cluster_inv_def init_cluster_def servers_ok_def durable_Make_fresh Make_frame
        votes_ok_def leaders_ok_def)
qed

interpretation elections: inductive_invariant
  "\<lambda>s. s = init_cluster n" calm_step "cluster_inv n" for n
proof
  fix s :: "('c, 'd) cluster" assume "s = init_cluster n"
  then show "cluster_inv n s" by (simp add: inv_init)
next
  fix s t :: "('c, 'd) cluster" assume inv: "cluster_inv n s" and "calm_step s t"
  from \<open>calm_step s t\<close> obtain a where "calm s a" "act s a = Some t" by cases
  with inv show "cluster_inv n t"
    by (cases a) (blast intro: inv_elect inv_send inv_deliver inv_drop inv_check inv_handle inv_local)+
qed

text \<open>The conclusion the invariant was made for.\<close>

lemma cluster_inv_one_leader:
  assumes inv: "cluster_inv n s" and l: "leader_in_term s i t" "leader_in_term s j t"
  shows "i = j"
proof -
  have "vote_quorum n (voters (votes s) t (int i))" "vote_quorum n (voters (votes s) t (int j))"
    using inv l by (auto simp: cluster_inv_def leaders_ok_def leader_in_term_def)
  then obtain v where "v \<in> voters (votes s) t (int i)" "v \<in> voters (votes s) t (int j)"
    by (rule votes.common_member)
  moreover have "votes_ok (srv s) (votes s)" using inv by (simp add: cluster_inv_def)
  ultimately show ?thesis using votes_okD(5) by (fastforce simp: voters_def)
qed

section \<open>Election safety\<close>

text \<open>Executing a list of actions, each of them calm.\<close>

fun calm_acts :: "('c, 'd) cluster \<Rightarrow> ('c, 'd) action list \<Rightarrow> bool" where
  "calm_acts s [] = True"
| "calm_acts s (a # as) = (calm s a \<and> (case act s a of None \<Rightarrow> False | Some t \<Rightarrow> calm_acts t as))"

lemma calm_acts_run: "calm_acts s as \<Longrightarrow> acts s as = Some t \<Longrightarrow> run_from calm_step s t"
proof (induction as arbitrary: s)
  case (Cons a as)
  then obtain u where u: "calm s a" "act s a = Some u" "calm_acts u as" "acts u as = Some t"
    by (auto split: option.splits)
  from calm_stepI [OF u(1,2)] have "run_from calm_step s u" by (rule run_from_single)
  then show ?case using Cons.IH [OF u(3,4)] by (rule run_from_trans)
qed (simp add: run_refl)

text \<open>
  C1: Election safety. In a cluster of any size that starts from empty storage, after any
  interleaving of elections, vote requests, lost messages, replication, commands, snapshots,
  kills and restarts whose requests are built in the election's own term and whose replies are
  handled before the term moves on, no two peers are leaders of the same term.
\<close>

theorem election_safety:
  assumes "run_from calm_step (init_cluster n) s"
    and "leader_in_term s i t" and "leader_in_term s j t"
  shows "i = j"
  using elections.inv_run [OF refl assms(1)] assms(2,3) by (rule cluster_inv_one_leader)

definition example_election :: "(nat, nat) action list" where
  "example_election =
     [Elect 0 0 0, Send 0 1, Deliver 0 1 0 0, Check 0 1, Handle 0 1,
      Local 0 (RStart 0 ((Make 0 0 3 0 MakePersister)\<lparr>state := Leader\<rparr>) 7),
      Elect 2 0 0, Send 1 0, Send 1 1, Deliver 1 1 0 0, Check 1 1, Handle 1 1]"

theorem election_safety_witness:
  "\<exists>s. acts (init_cluster 3) example_election = Some s \<and> leader_in_term s 0 1 \<and>
     \<not> leader_in_term s 2 1"
proof -
  have "calm_acts (init_cluster 3) example_election" by code_simp
  moreover obtain s where s: "acts (init_cluster 3) example_election = Some s"
    and l: "leader_in_term s 0 1"
  proof -
    have "case acts (init_cluster 3) example_election of None \<Rightarrow> False | Some s \<Rightarrow> leader_in_term s 0 1"
      by code_simp
    then show ?thesis using that by (auto split: option.splits)
  qed
  ultimately have "run_from calm_step (init_cluster 3) s" using calm_acts_run by blast
  from election_safety [OF this l, of 2] s l show ?thesis by auto
qed

end
