(* ===== verification/Raft_Spec.thy ===== *)
theory Raft_Spec
  imports Raft_Election
begin

text \<open>
  An abstract specification of replicated logs, in the style of a voting protocol: servers have a term, a log and
  may be candidates; a term has at most one leader, whose log only grows; servers take over prefixes of
  leaders' logs and acknowledge them. Votes, leaders' logs and acknowledgements are never forgotten, so the
  safety argument of Raft is an invariant of single states. What is chosen (acknowledged by
  a quorum in the term of the entry) is part of the log of every later leader.
\<close>

section \<open>The specification\<close>

record 'c spec =
  sp_term :: "nat \<Rightarrow> int"
  sp_log :: "nat \<Rightarrow> 'c LogEntry list"
  sp_cand :: "nat \<Rightarrow> bool"
  sp_votes :: "(nat \<times> int \<times> int) set"
  sp_won :: "int \<Rightarrow> nat option"
  sp_lead :: "int \<Rightarrow> 'c LogEntry list"
  sp_acks :: "(nat \<times> int \<times> nat) set"

definition first_entry :: "'c LogEntry" where
  "first_entry = \<lparr>eIndex = 0, eTerm = 0, eLog = None\<rparr>"

definition init_spec :: "'c spec" where
  "init_spec = \<lparr>sp_term = (\<lambda>_. 0), sp_log = (\<lambda>_. [first_entry]), sp_cand = (\<lambda>_. False), sp_votes = {},
     sp_won = Map.empty, sp_lead = (\<lambda>_. [first_entry]), sp_acks = {}\<rparr>"

text \<open>The comparison of logs that decides a vote.\<close>

definition up_to_date :: "'c LogEntry list \<Rightarrow> 'c LogEntry list \<Rightarrow> bool" where
  "up_to_date l m \<longleftrightarrow> eTerm (last l) < eTerm (last m) \<or>
     (eTerm (last l) = eTerm (last m) \<and> length l \<le> length m)"

inductive spec_step :: "nat \<Rightarrow> 'c spec \<Rightarrow> 'c spec \<Rightarrow> bool" for n where
  spec_stay:
    "i < n \<Longrightarrow> sp_term s i \<le> t \<Longrightarrow> (b \<longrightarrow> sp_cand s i \<and> t = sp_term s i) \<Longrightarrow>
     spec_step n s (s\<lparr>sp_term := (sp_term s)(i := t), sp_cand := (sp_cand s)(i := b)\<rparr>)"
| spec_campaign:
    "i < n \<Longrightarrow> t = sp_term s i + 1 \<Longrightarrow>
     spec_step n s (s\<lparr>sp_term := (sp_term s)(i := t), sp_cand := (sp_cand s)(i := True),
       sp_votes := insert (i, t, int i) (sp_votes s)\<rparr>)"
| spec_vote:
    "i < n \<Longrightarrow> c < n \<Longrightarrow> i \<noteq> c \<Longrightarrow> sp_term s i \<le> t \<Longrightarrow> t \<le> sp_term s c \<Longrightarrow> (\<forall>d. (i, t, d) \<in> sp_votes s \<longrightarrow> d = int c) \<Longrightarrow>
     (sp_cand s c \<and> sp_term s c = t \<longrightarrow> up_to_date (sp_log s i) (sp_log s c)) \<Longrightarrow>
     spec_step n s (s\<lparr>sp_term := (sp_term s)(i := t), sp_cand := (sp_cand s)(i := False),
       sp_votes := insert (i, t, int c) (sp_votes s)\<rparr>)"
| spec_win:
    "c < n \<Longrightarrow> sp_cand s c \<Longrightarrow> sp_term s c = t \<Longrightarrow> vote_quorum n (voters (sp_votes s) t (int c)) \<Longrightarrow>
     spec_step n s (s\<lparr>sp_cand := (sp_cand s)(c := False), sp_won := (sp_won s)(t \<mapsto> c),
       sp_lead := (sp_lead s)(t := sp_log s c)\<rparr>)"
| spec_append:
    "sp_won s t = Some l \<Longrightarrow> sp_term s l = t \<Longrightarrow> eTerm e = t \<Longrightarrow> eIndex e = int (length (sp_log s l)) \<Longrightarrow>
     spec_step n s (s\<lparr>sp_log := (sp_log s)(l := sp_log s l @ [e]),
       sp_lead := (sp_lead s)(t := sp_log s l @ [e]),
       sp_acks := insert (l, t, length (sp_log s l)) (sp_acks s)\<rparr>)"
| spec_accept:
    "i < n \<Longrightarrow> sp_won s t = Some l \<Longrightarrow> l \<noteq> i \<Longrightarrow> sp_term s i \<le> t \<Longrightarrow> q < length (sp_lead s t) \<Longrightarrow>
     spec_step n s (s\<lparr>sp_term := (sp_term s)(i := t), sp_cand := (sp_cand s)(i := False),
       sp_log := (sp_log s)(i := (if take (Suc q) (sp_log s i) = take (Suc q) (sp_lead s t)
                                   then sp_log s i else take (Suc q) (sp_lead s t))),
       sp_acks := sp_acks s \<union> {(i, t, k) |k. k \<le> q}\<rparr>)"

section \<open>Notions of the argument\<close>

text \<open>Two logs agree up to and including a position.\<close>

definition agree :: "nat \<Rightarrow> 'c LogEntry list \<Rightarrow> 'c LogEntry list \<Rightarrow> bool" where
  "agree k l m \<longleftrightarrow> k < length l \<and> take (Suc k) l = take (Suc k) m"

definition known :: "'c spec \<Rightarrow> int \<Rightarrow> bool" where
  "known s t \<longleftrightarrow> t = 0 \<or> sp_won s t \<noteq> None"

text \<open>A log that is made of leaders' logs: up to each of its entries it is the log of the leader of that entry's term.\<close>

definition traced :: "'c spec \<Rightarrow> 'c LogEntry list \<Rightarrow> bool" where
  "traced s l \<longleftrightarrow> l \<noteq> [] \<and> hd l = first_entry \<and> sorted (map eTerm l) \<and> (\<forall>j<length l. eIndex (l ! j) = int j) \<and>
     (\<forall>j<length l. known s (eTerm (l ! j)) \<and> agree j l (sp_lead s (eTerm (l ! j))))"

definition own :: "'c spec \<Rightarrow> int \<Rightarrow> nat \<Rightarrow> bool" where
  "own s t k \<longleftrightarrow> sp_won s t \<noteq> None \<and> k < length (sp_lead s t) \<and> eTerm (sp_lead s t ! k) = t"

text \<open>No quorum will ever acknowledge the position in that term.\<close>

definition blocked :: "nat \<Rightarrow> 'c spec \<Rightarrow> int \<Rightarrow> nat \<Rightarrow> bool" where
  "blocked n s t k \<longleftrightarrow> (\<exists>Q. vote_quorum n Q \<and> (\<forall>v \<in> Q. t < sp_term s v \<and> (v, t, k) \<notin> sp_acks s))"

definition chosen :: "nat \<Rightarrow> 'c spec \<Rightarrow> int \<Rightarrow> nat \<Rightarrow> bool" where
  "chosen n s t k \<longleftrightarrow> own s t k \<and> (\<exists>Q. vote_quorum n Q \<and> (\<forall>v \<in> Q. (v, t, k) \<in> sp_acks s))"

section \<open>The invariant\<close>

definition spec_votes :: "nat \<Rightarrow> 'c spec \<Rightarrow> bool" where
  "spec_votes n s \<longleftrightarrow>
     (\<forall>v t c. (v, t, c) \<in> sp_votes s \<longrightarrow> v < n \<and> t \<le> sp_term s v) \<and>
     (\<forall>v t c d. (v, t, c) \<in> sp_votes s \<longrightarrow> (v, t, d) \<in> sp_votes s \<longrightarrow> c = d) \<and>
     (\<forall>v t c. (v, t, int c) \<in> sp_votes s \<longrightarrow> t \<le> sp_term s c) \<and>
     (\<forall>i<n. 0 \<le> sp_term s i \<and> (sp_cand s i \<longrightarrow> 0 < sp_term s i))"

definition spec_leaders :: "nat \<Rightarrow> 'c spec \<Rightarrow> bool" where
  "spec_leaders n s \<longleftrightarrow> (\<forall>t l. sp_won s t = Some l \<longrightarrow>
     l < n \<and> 0 < t \<and> t \<le> sp_term s l \<and> vote_quorum n (voters (sp_votes s) t (int l)) \<and>
     (sp_term s l = t \<longrightarrow> \<not> sp_cand s l \<and> sp_log s l = sp_lead s t))"

definition spec_logs :: "nat \<Rightarrow> 'c spec \<Rightarrow> bool" where
  "spec_logs n s \<longleftrightarrow>
     (\<forall>i<n. traced s (sp_log s i) \<and> (\<forall>e \<in> set (sp_log s i). eTerm e \<le> sp_term s i)) \<and>
     (\<forall>t. known s t \<longrightarrow> traced s (sp_lead s t) \<and> (\<forall>e \<in> set (sp_lead s t). eTerm e \<le> t))"

definition spec_acks :: "nat \<Rightarrow> 'c spec \<Rightarrow> bool" where
  "spec_acks n s \<longleftrightarrow> (\<forall>v t k. (v, t, k) \<in> sp_acks s \<longrightarrow>
     v < n \<and> t \<le> sp_term s v \<and> k < length (sp_lead s t) \<and> sp_won s t \<noteq> None \<and>
     (own s t k \<longrightarrow> agree k (sp_log s v) (sp_lead s t) \<or> blocked n s t k)) \<and>
     (\<forall>t k l. sp_won s t = Some l \<longrightarrow> own s t k \<longrightarrow> (l, t, k) \<in> sp_acks s)"

definition spec_complete :: "nat \<Rightarrow> 'c spec \<Rightarrow> bool" where
  "spec_complete n s \<longleftrightarrow> (\<forall>t t' k. sp_won s t' \<noteq> None \<longrightarrow> t < t' \<longrightarrow> own s t k \<longrightarrow>
     agree k (sp_lead s t') (sp_lead s t) \<or> blocked n s t k)"

definition spec_voters :: "nat \<Rightarrow> 'c spec \<Rightarrow> bool" where
  "spec_voters n s \<longleftrightarrow> (\<forall>v t c k. c < n \<longrightarrow> (v, sp_term s c, int c) \<in> sp_votes s \<longrightarrow> sp_cand s c \<longrightarrow>
     (v, t, k) \<in> sp_acks s \<longrightarrow> t < sp_term s c \<longrightarrow> own s t k \<longrightarrow>
     agree k (sp_log s c) (sp_lead s t) \<or> blocked n s t k)"

definition spec_inv :: "nat \<Rightarrow> 'c spec \<Rightarrow> bool" where
  "spec_inv n s \<longleftrightarrow> spec_votes n s \<and> spec_leaders n s \<and> spec_logs n s \<and> spec_acks n s \<and>
     spec_complete n s \<and> spec_voters n s"

section \<open>How a step changes the history\<close>

lemma agree_refl: "k < length l \<Longrightarrow> agree k l l"
  by (simp add: agree_def)

lemma agree_length: "agree k l m \<Longrightarrow> k < length m"
  unfolding agree_def by (metis Suc_le_eq length_take min.absorb_iff2 min_def)

lemma agree_sym: "agree k l m \<Longrightarrow> agree k m l"
  using agree_length by (auto simp: agree_def)

lemma agree_trans: "agree k l m \<Longrightarrow> agree k m u \<Longrightarrow> agree k l u"
  by (simp add: agree_def)

lemma agree_mono: "agree k l m \<Longrightarrow> j \<le> k \<Longrightarrow> agree j l m"
  unfolding agree_def by (metis Suc_le_mono le_less_trans min.absorb1 take_take)

lemma agree_nth: "agree k l m \<Longrightarrow> j \<le> k \<Longrightarrow> l ! j = m ! j"
  unfolding agree_def by (metis le_imp_less_Suc nth_take)

lemma agree_append: "agree k l m \<Longrightarrow> agree k l (m @ xs)"
  using agree_length by (fastforce simp: agree_def)

lemma agree_take: "agree k l m \<Longrightarrow> k < q \<Longrightarrow> agree k (take q l) m"
  by (auto simp: agree_def min_def)

definition grown :: "'c spec \<Rightarrow> 'c spec \<Rightarrow> bool" where
  "grown s s' \<longleftrightarrow>
     (\<forall>t. sp_won s t \<noteq> None \<longrightarrow> sp_won s' t = sp_won s t) \<and>
     (\<forall>t. known s t \<longrightarrow> (\<exists>xs. sp_lead s' t = sp_lead s t @ xs)) \<and>
     (\<forall>v. sp_term s v \<le> sp_term s' v) \<and> sp_votes s \<subseteq> sp_votes s' \<and> sp_acks s \<subseteq> sp_acks s' \<and>
     (\<forall>v t k. (v, t, k) \<in> sp_acks s' \<longrightarrow> (v, t, k) \<in> sp_acks s \<or> sp_term s v \<le> t)"

lemma grownD:
  assumes "grown s s'"
  shows "sp_won s t = Some l \<Longrightarrow> sp_won s' t = Some l" and "known s t \<Longrightarrow> known s' t"
    and "known s t \<Longrightarrow> \<exists>xs. sp_lead s' t = sp_lead s t @ xs"
    and "sp_term s v \<le> sp_term s' v"
    and "x \<in> sp_votes s \<Longrightarrow> x \<in> sp_votes s'" and "y \<in> sp_acks s \<Longrightarrow> y \<in> sp_acks s'"
    and "(v, t, k) \<in> sp_acks s' \<Longrightarrow> (v, t, k) \<in> sp_acks s \<or> sp_term s v \<le> t"
  using assms by (auto simp: grown_def known_def)

lemma grown_refl: "grown s s"
  by (simp add: grown_def)

lemma grown_trans:
  assumes a: "grown s u" and b: "grown u w"
  shows "grown s w"
  unfolding grown_def
proof (intro conjI allI impI)
  show "sp_won w t = sp_won s t" if "sp_won s t \<noteq> None" for t using a b that by (simp add: grown_def)
  show "\<exists>xs. sp_lead w t = sp_lead s t @ xs" if "known s t" for t
    using grownD(3) [OF a that] grownD(3) [OF b grownD(2) [OF a that]] by auto
  show "sp_term s v \<le> sp_term w v" for v using grownD(4) [OF a] grownD(4) [OF b] by (rule order_trans)
  show "sp_votes s \<subseteq> sp_votes w" "sp_acks s \<subseteq> sp_acks w" using a b by (auto simp: grown_def)
  show "(v, t, k) \<in> sp_acks s \<or> sp_term s v \<le> t" if "(v, t, k) \<in> sp_acks w" for v t k
    using grownD(7) [OF b that] grownD(7) [OF a] grownD(4) [OF a, of v] by force
qed

lemma blocked_grown: "blocked n s t k \<Longrightarrow> grown s s' \<Longrightarrow> blocked n s' t k"
  unfolding blocked_def by (metis grownD(4,7) leD less_le_trans)

lemma agree_grown: "agree k l (sp_lead s t) \<Longrightarrow> grown s s' \<Longrightarrow> known s t \<Longrightarrow> agree k l (sp_lead s' t)"
  by (metis agree_append grownD(3))

lemma traced_grown: "traced s l \<Longrightarrow> grown s s' \<Longrightarrow> traced s' l"
  unfolding traced_def by (metis agree_grown grownD(2))

lemma traced_take: "traced s l \<Longrightarrow> 0 < q \<Longrightarrow> traced s (take q l)"
  unfolding traced_def
  by (auto simp: sorted_wrt_take hd_take simp flip: take_map intro!: agree_take)

lemma own_known: "own s t k \<Longrightarrow> known s t"
  by (simp add: own_def known_def)

lemma own_grown: "own s t k \<Longrightarrow> grown s s' \<Longrightarrow> own s' t k"
  using grownD(3) [of s s' t] by (auto simp: own_def known_def grown_def nth_append)

lemma own_back:
  assumes "own s' t k" "grown s s'" "sp_won s t \<noteq> None" "k < length (sp_lead s t)"
  shows "own s t k"
  using assms grownD(3) [of s s' t] by (auto simp: own_def known_def nth_append)

lemma chosen_grown: "chosen n s t k \<Longrightarrow> grown s s' \<Longrightarrow> chosen n s' t k"
  unfolding chosen_def by (meson grownD(6) own_grown)

lemma chosen_not_blocked: "chosen n s t k \<Longrightarrow> \<not> blocked n s t k"
  unfolding chosen_def blocked_def using votes.common_member by metis

section \<open>Every step keeps the invariant\<close>

lemma spec_invD:
  assumes "spec_inv n s"
  shows "spec_votes n s" "spec_leaders n s" "spec_logs n s" "spec_acks n s" "spec_complete n s" "spec_voters n s"
  using assms by (simp_all add: spec_inv_def)

lemma won_facts:
  assumes "spec_inv n s" "sp_won s t = Some l"
  shows "l < n" "0 < t" "t \<le> sp_term s l" "vote_quorum n (voters (sp_votes s) t (int l))"
    "sp_term s l = t \<Longrightarrow> \<not> sp_cand s l \<and> sp_log s l = sp_lead s t"
  using assms by (auto simp: spec_inv_def spec_leaders_def)

lemma voter_term: "spec_inv n s \<Longrightarrow> v \<in> voters (sp_votes s) t c \<Longrightarrow> t \<le> sp_term s v"
  by (auto simp: spec_inv_def spec_votes_def voters_def)

text \<open>A candidate of a term that has a leader already does not win.\<close>

lemma win_new:
  assumes inv: "spec_inv n s" and c: "sp_cand s c" "vote_quorum n (voters (sp_votes s) (sp_term s c) (int c))"
  shows "sp_won s (sp_term s c) = None"
proof (rule ccontr)
  let ?t = "sp_term s c"
  assume "sp_won s ?t \<noteq> None"
  then obtain l where l: "sp_won s ?t = Some l" by auto
  obtain v where "v \<in> voters (sp_votes s) ?t (int l)" "v \<in> voters (sp_votes s) ?t (int c)"
    by (rule votes.common_member [OF won_facts(4) [OF inv l] c(2)])
  then have "int l = int c" using spec_invD(1) [OF inv] unfolding voters_def spec_votes_def by blast
  then have "l = c" by simp
  then show False using won_facts(5) [OF inv l] c(1) by simp
qed

lemma spec_step_grown:
  assumes inv: "spec_inv n s" and st: "spec_step n s s'"
  shows "grown s s'"
  using st
proof cases
  case (spec_win c t)
  with win_new [OF inv, of c] have "sp_won s t = None" by simp
  moreover have "t \<noteq> 0" using spec_win inv by (auto simp: spec_inv_def spec_votes_def)
  ultimately show ?thesis using spec_win by (auto simp: grown_def known_def)
next
  case (spec_append t l e)
  then have "sp_log s l = sp_lead s t" using won_facts(5) [OF inv] by simp
  with spec_append show ?thesis by (auto simp: grown_def)
qed (auto simp: grown_def)

lemma spec_votes_step:
  assumes inv: "spec_inv n s" and st: "spec_step n s s'"
  shows "spec_votes n s'"
proof -
  note g = spec_step_grown [OF inv st]
  have v: "\<And>v t c. (v, t, c) \<in> sp_votes s \<Longrightarrow> v < n \<and> t \<le> sp_term s v"
    "\<And>v t c d. (v, t, c) \<in> sp_votes s \<Longrightarrow> (v, t, d) \<in> sp_votes s \<Longrightarrow> c = d"
    "\<And>i. i < n \<Longrightarrow> 0 \<le> sp_term s i" "\<And>i. i < n \<Longrightarrow> sp_cand s i \<Longrightarrow> 0 < sp_term s i"
    "\<And>v t c. (v, t, int c) \<in> sp_votes s \<Longrightarrow> t \<le> sp_term s c"
    using inv by (auto simp: spec_inv_def spec_votes_def)
  have old: "v < n \<and> t \<le> sp_term s' v" if "(v, t, c) \<in> sp_votes s" for v t c
    using v(1) [OF that] grownD(4) [OF g, of v] by simp
  have pos: "0 \<le> sp_term s' i" if "i < n" for i using v(3) [OF that] grownD(4) [OF g, of i] by simp
  have "sp_cand s' i \<longrightarrow> 0 < sp_term s' i" if "i < n" for i
    using st v(3,4) [OF that] by cases auto
  moreover have "v < n \<and> t \<le> sp_term s' v" if "(v, t, c) \<in> sp_votes s'" for v t c
    using st that old [of v t c] by cases auto
  moreover have "t \<le> sp_term s' c" if "(v, t, int c) \<in> sp_votes s'" for v t c
  proof (cases "(v, t, int c) \<in> sp_votes s")
    case True
    then show ?thesis using v(5) grownD(4) [OF g, of c] by fastforce
  next
    case False
    from st show ?thesis by cases (use False that in auto)
  qed
  moreover have "c = d" if "(v, t, c) \<in> sp_votes s'" "(v, t, d) \<in> sp_votes s'" for v t c d
    using st
  proof cases
    case (spec_campaign i u)
    then have "(i, u, d) \<notin> sp_votes s" for d using v(1) [of i u d] by auto
    with spec_campaign that v(2) show ?thesis by auto
  next
    case (spec_vote i e u)
    with that v(2) show ?thesis by auto
  qed (use that v(2) in auto)
  ultimately show ?thesis using pos unfolding spec_votes_def by blast
qed

lemma voters_grown:
  assumes "grown s s'" "spec_votes n s'" "vote_quorum n (voters (sp_votes s) t c)"
  shows "vote_quorum n (voters (sp_votes s') t c)"
proof (rule vote_quorum_mono [OF assms(3)])
  show "voters (sp_votes s) t c \<subseteq> voters (sp_votes s') t c" using assms(1) by (auto simp: voters_def grown_def)
  show "voters (sp_votes s') t c \<subseteq> {..<n}" using assms(2) by (auto simp: voters_def spec_votes_def)
qed

lemma spec_leaders_step:
  assumes inv: "spec_inv n s" and st: "spec_step n s s'"
  shows "spec_leaders n s'"
proof -
  note g = spec_step_grown [OF inv st] and v = spec_votes_step [OF inv st]
  have old: "l < n \<and> 0 < t \<and> t \<le> sp_term s' l \<and> vote_quorum n (voters (sp_votes s') t (int l))"
    if "sp_won s t = Some l" for t l
    using won_facts [OF inv that] grownD(4) [OF g, of l] voters_grown [OF g v] by auto
  note w = won_facts(5) [OF inv]
  have lt: "t \<le> sp_term s l" if "sp_won s t = Some l" for t l by (rule won_facts(3) [OF inv that])
  have "sp_term s' l = t \<longrightarrow> \<not> sp_cand s' l \<and> sp_log s' l = sp_lead s' t" if "sp_won s t = Some l" for t l
    using st
  proof cases
    case (spec_win c u)
    then have "sp_won s u = None" using win_new [OF inv, of c] by simp
    with spec_win that w [OF that] show ?thesis by auto
  next
    case (spec_accept i u k q)
    then show ?thesis using that w [OF that] lt [OF that] by (cases "i = l") auto
  qed (use that w [OF that] lt [OF that] in auto)
  with old have *: "l < n \<and> 0 < t \<and> t \<le> sp_term s' l \<and> vote_quorum n (voters (sp_votes s') t (int l)) \<and>
     (sp_term s' l = t \<longrightarrow> \<not> sp_cand s' l \<and> sp_log s' l = sp_lead s' t)" if "sp_won s t = Some l" for t l
    using that by blast
  from st show ?thesis
  proof cases
    case (spec_win c t)
    then have "0 < t" using inv by (auto simp: spec_inv_def spec_votes_def)
    with spec_win * show ?thesis by (simp add: spec_leaders_def)
  qed (use * in \<open>simp_all add: spec_leaders_def\<close>)
qed

lemma agree_append_left: "agree k l m \<Longrightarrow> agree k (l @ xs) m"
  using agree_sym agree_append by blast

lemma traced_snoc:
  assumes "traced s l" "\<forall>x \<in> set l. eTerm x \<le> eTerm e" "known s (eTerm e)" "sp_lead s (eTerm e) = l @ [e]"
    and "eIndex e = int (length l)"
  shows "traced s (l @ [e])"
  unfolding traced_def
proof (intro conjI allI impI)
  show "hd (l @ [e]) = first_entry" using assms(1) by (auto simp: traced_def)
  show "sorted (map eTerm (l @ [e]))" using assms(1,2) by (auto simp: traced_def sorted_append)
  show "eIndex ((l @ [e]) ! j) = int j" if "j < length (l @ [e])" for j
    using that assms(1,5) by (cases "j < length l") (auto simp: traced_def nth_append)
  fix j assume "j < length (l @ [e])"
  then have "j < length l \<or> j = length l" by auto
  then have "known s (eTerm ((l @ [e]) ! j)) \<and> agree j (l @ [e]) (sp_lead s (eTerm ((l @ [e]) ! j)))"
  proof
    assume "j < length l"
    with assms(1) show ?thesis by (simp add: traced_def nth_append agree_append_left)
  next
    assume "j = length l"
    with assms(3,4) show ?thesis by (simp add: agree_refl)
  qed
  then show "known s (eTerm ((l @ [e]) ! j))" "agree j (l @ [e]) (sp_lead s (eTerm ((l @ [e]) ! j)))" by blast+
qed simp

lemma log_facts:
  assumes "spec_inv n s"
  shows "i < n \<Longrightarrow> traced s (sp_log s i)" "i < n \<Longrightarrow> e \<in> set (sp_log s i) \<Longrightarrow> eTerm e \<le> sp_term s i"
    "known s t \<Longrightarrow> traced s (sp_lead s t)" "known s t \<Longrightarrow> e \<in> set (sp_lead s t) \<Longrightarrow> eTerm e \<le> t"
  using spec_invD(3) [OF assms] unfolding spec_logs_def by blast+

lemma spec_logs_step:
  assumes inv: "spec_inv n s" and st: "spec_step n s s'"
  shows "spec_logs n s'"
proof -
  note g = spec_step_grown [OF inv st]
  have l: "traced s' (sp_log s i)" "\<forall>e \<in> set (sp_log s i). eTerm e \<le> sp_term s' i" if "i < n" for i
    using traced_grown [OF log_facts(1) [OF inv that] g] log_facts(2) [OF inv that] grownD(4) [OF g, of i] by force+
  have m: "traced s' (sp_lead s t)" "\<forall>e \<in> set (sp_lead s t). eTerm e \<le> t" if "known s t" for t
    using traced_grown [OF log_facts(3) [OF inv that] g] log_facts(4) [OF inv that] by auto
  have same: ?thesis
    if "\<And>i. i < n \<Longrightarrow> sp_log s' i = sp_log s i \<or> (\<exists>u. known s u \<and> sp_log s' i = sp_lead s u \<and> u \<le> sp_term s' i)
          \<or> (\<exists>u q. known s u \<and> sp_log s' i = take (Suc q) (sp_lead s u) \<and> u \<le> sp_term s' i)"
      and "\<And>t. known s' t \<Longrightarrow> known s t \<and> sp_lead s' t = sp_lead s t \<or> (\<exists>i < n. sp_lead s' t = sp_log s i \<and> sp_term s' i \<le> t)"
    unfolding spec_logs_def
  proof (intro conjI allI impI)
    fix i assume i: "i < n"
    from that(1) [OF i] show "traced s' (sp_log s' i)"
      using l(1) [OF i] m(1) traced_take [of s' _ "Suc _"] by fastforce
    from that(1) [OF i] show "\<forall>e \<in> set (sp_log s' i). eTerm e \<le> sp_term s' i"
      using l(2) [OF i] m(2) by (fastforce dest: in_set_takeD)
  next
    fix t assume "known s' t"
    from that(2) [OF this] show "traced s' (sp_lead s' t)" using l(1) m(1) by auto
    from that(2) [OF \<open>known s' t\<close>] show "\<forall>e \<in> set (sp_lead s' t). eTerm e \<le> t" using l(2) m(2) by fastforce
  qed
  from st show ?thesis
  proof cases
    case (spec_win c t)
    then show ?thesis by (intro same) (auto simp: known_def)
  next
    case (spec_append t k e)
    then have k: "sp_log s k = sp_lead s t" "known s t" "k < n"
      using won_facts(1,5) [OF inv spec_append(2)] by (simp_all add: known_def)
    then have "traced s' (sp_log s k @ [e])"
      using l(1) [of k] m [of t] grownD(2) [OF g] spec_append by (intro traced_snoc) auto
    moreover have kn: "known s' u = known s u" for u using spec_append by (simp add: known_def)
    moreover have "\<forall>x \<in> set (sp_log s k @ [e]). eTerm x \<le> t" using m(2) [of t] k spec_append by auto
    ultimately show ?thesis using l m spec_append unfolding spec_logs_def by auto
  next
    case (spec_accept i t k q)
    then have "known s t" by (simp add: known_def)
    with spec_accept show ?thesis by (intro same) (auto simp: known_def)
  next
    case (spec_stay i t b)
    then show ?thesis by (intro same) (auto simp: known_def)
  next
    case (spec_campaign i t)
    then show ?thesis by (intro same) (auto simp: known_def)
  next
    case (spec_vote i c t)
    then show ?thesis by (intro same) (auto simp: known_def)
  qed
qed

lemma ack_facts:
  assumes "spec_inv n s" "(v, t, k) \<in> sp_acks s"
  shows "v < n" "t \<le> sp_term s v" "k < length (sp_lead s t)" "sp_won s t \<noteq> None" "known s t"
    "own s t k \<Longrightarrow> agree k (sp_log s v) (sp_lead s t) \<or> blocked n s t k"
  using assms by (auto simp: spec_inv_def spec_acks_def known_def)

text \<open>Taking over a prefix of a log that agrees keeps the agreement.\<close>

lemma agree_accept:
  assumes "agree k l m" "agree k u m"
  shows "agree k (if take (Suc q) l = take (Suc q) u then l else take (Suc q) u) m"
proof (cases "take (Suc q) l = take (Suc q) u")
  case False
  have "agree k l u" using assms agree_sym agree_trans by blast
  then have "\<not> q \<le> k" using False agree_mono [of k l u q] by (auto simp: agree_def)
  then show ?thesis using False agree_take [OF assms(2)] by simp
qed (simp add: assms)

text \<open>The log of a candidate that wins has no entry of the new term yet.\<close>

lemma candidate_no_own:
  assumes "spec_inv n s" "c < n" "sp_cand s c" "vote_quorum n (voters (sp_votes s) (sp_term s c) (int c))"
    and "j < length (sp_log s c)"
  shows "eTerm (sp_log s c ! j) \<noteq> sp_term s c"
proof -
  have "0 < sp_term s c" using assms(2,3) spec_invD(1) [OF assms(1)] by (auto simp: spec_votes_def)
  moreover have "sp_won s (sp_term s c) = None" by (rule win_new [OF assms(1,3,4)])
  moreover have "known s (eTerm (sp_log s c ! j))" using log_facts(1) [OF assms(1,2)] assms(5) by (simp add: traced_def)
  ultimately show ?thesis by (auto simp: known_def)
qed

text \<open>What a server has acknowledged stays in its log, or can never be chosen.\<close>

lemma acked_log_step:
  assumes inv: "spec_inv n s" and st: "spec_step n s s'" and ack: "(v, t, k) \<in> sp_acks s" "own s t k"
  shows "agree k (sp_log s' v) (sp_lead s t) \<or> blocked n s' t k"
  using ack_facts(6) [OF inv ack]
proof
  note g = spec_step_grown [OF inv st]
  assume a: "agree k (sp_log s v) (sp_lead s t)"
  from st show ?thesis
  proof cases
    case (spec_append u l e)
    with a show ?thesis using agree_append_left [OF a] by auto
  next
    case (spec_accept i u l q)
    have "agree k (sp_lead s u) (sp_lead s t) \<or> blocked n s t k" if eq: "v = i"
    proof (cases "t = u")
      case True
      then show ?thesis using a agree_length agree_refl by metis
    next
      case False
      then have "t < u" using ack_facts(2) [OF inv ack(1)] spec_accept eq by simp
      then show ?thesis using spec_accept ack(2) inv by (auto simp: spec_inv_def spec_complete_def)
    qed
    moreover have "sp_log s' v = (if v = i then if take (Suc q) (sp_log s v) = take (Suc q) (sp_lead s u)
        then sp_log s v else take (Suc q) (sp_lead s u) else sp_log s v)" using spec_accept by simp
    ultimately show ?thesis
      using a agree_accept [OF a, of "sp_lead s u" q] blocked_grown [OF _ g] by (cases "v = i") auto
  qed (use a in auto)
qed (use blocked_grown [OF _ spec_step_grown [OF inv st]] in blast)

lemma old_acks_step:
  assumes inv: "spec_inv n s" and st: "spec_step n s s'" and a: "(v, t, k) \<in> sp_acks s"
  shows "v < n \<and> t \<le> sp_term s' v \<and> k < length (sp_lead s' t) \<and> sp_won s' t \<noteq> None \<and>
     (own s' t k \<longrightarrow> agree k (sp_log s' v) (sp_lead s' t) \<or> blocked n s' t k)"
proof -
  note g = spec_step_grown [OF inv st]
  note f = ack_facts [OF inv a]
  obtain xs where "sp_lead s' t = sp_lead s t @ xs" using grownD(3) [OF g f(5)] by blast
  moreover have "own s' t k \<Longrightarrow> agree k (sp_log s' v) (sp_lead s' t) \<or> blocked n s' t k"
    using own_back [OF _ g f(4,3)] acked_log_step [OF inv st a] agree_grown [OF _ g f(5)] by blast
  ultimately show ?thesis using f(1-4) grownD(1,4) [OF g] by (fastforce intro: order_trans)
qed

text \<open>A leader has acknowledged the entries of its own term.\<close>

lemma own_acks_step:
  assumes inv: "spec_inv n s" and st: "spec_step n s s'" and w: "sp_won s' t = Some l" and o: "own s' t k"
  shows "(l, t, k) \<in> sp_acks s'"
proof (cases "own s t k")
  case True
  note g = spec_step_grown [OF inv st]
  from True have "sp_won s t = Some l" using w g by (auto simp: own_def grown_def)
  with True have "(l, t, k) \<in> sp_acks s" using inv by (auto simp: spec_inv_def spec_acks_def)
  then show ?thesis by (rule grownD(6) [OF g])
next
  case False
  from st show ?thesis
  proof cases
    case (spec_win c u)
    then show ?thesis using o False candidate_no_own [OF inv spec_win(2,3)] by (auto simp: own_def split: if_splits)
  next
    case (spec_append u j e)
    then show ?thesis using o w False won_facts(5) [OF inv spec_append(2)] by (auto simp: own_def nth_append split: if_splits)
  qed (use o False in \<open>simp_all add: own_def\<close>)
qed

lemma agree_taken:
  assumes "q < length m" "k \<le> q"
  shows "agree k (if take (Suc q) l = take (Suc q) m then l else take (Suc q) m) m"
proof -
  have "agree q l m" if "take (Suc q) l = take (Suc q) m"
    using that assms(1) agree_sym [of q m l] by (simp add: agree_def)
  moreover have "agree q (take (Suc q) m) m" using assms(1) by (simp add: agree_def)
  ultimately show ?thesis using agree_mono assms(2) by auto
qed

lemma spec_acks_step:
  assumes inv: "spec_inv n s" and st: "spec_step n s s'"
  shows "spec_acks n s'"
proof -
  note old = old_acks_step [OF inv st]
  have self: "\<forall>t k l. sp_won s' t = Some l \<longrightarrow> own s' t k \<longrightarrow> (l, t, k) \<in> sp_acks s'" using own_acks_step [OF inv st] by blast
  from st show ?thesis
  proof cases
    case (spec_append t l e)
    then have "l < n" using won_facts(1) [OF inv] by simp
    with spec_append old show ?thesis using self unfolding spec_acks_def by (auto simp: agree_refl)
  next
    case (spec_accept i t l q)
    with old agree_taken [of q "sp_lead s t"] show ?thesis using self unfolding spec_acks_def by auto
  qed (use old self in \<open>simp_all add: spec_acks_def\<close>)
qed

lemma spec_complete_step:
  assumes inv: "spec_inv n s" and st: "spec_step n s s'"
  shows "spec_complete n s'"
  unfolding spec_complete_def
proof (intro allI impI)
  fix t t' k assume w: "sp_won s' t' \<noteq> None" and lt: "t < t'" and o: "own s' t k"
  note g = spec_step_grown [OF inv st]
  show "agree k (sp_lead s' t') (sp_lead s' t) \<or> blocked n s' t k"
  proof (cases "sp_won s t' \<noteq> None \<and> own s t k")
    case True
    then have kn: "known s t" "known s t'" by (auto simp: own_def known_def)
    have "agree k (sp_lead s t') (sp_lead s t) \<or> blocked n s t k"
      using True lt inv by (auto simp: spec_inv_def spec_complete_def)
    then show ?thesis using blocked_grown [OF _ g] agree_grown [OF _ g kn(1)] agree_grown [OF _ g kn(2)] agree_sym by metis
  next
    case False
    from st show ?thesis
    proof cases
      case (spec_win c u)
      then have t: "t \<noteq> u" using o candidate_no_own [OF inv spec_win(2,3)] by (auto simp: own_def)
      then have os: "own s t k" using o spec_win by (simp add: own_def)
      then have t': "t' = u" using False w spec_win by (auto split: if_splits)
      let ?Q = "voters (sp_votes s) u (int c)"
      show ?thesis
      proof (cases "\<exists>v \<in> ?Q. (v, t, k) \<in> sp_acks s")
        case True
        then obtain v where "(v, u, int c) \<in> sp_votes s" "(v, t, k) \<in> sp_acks s" by (auto simp: voters_def)
        then have "agree k (sp_log s c) (sp_lead s t) \<or> blocked n s t k"
          using inv os lt t' spec_win unfolding spec_inv_def spec_voters_def by blast
        then show ?thesis using blocked_grown [OF _ g] spec_win t t' by auto
      next
        case False
        then have "blocked n s t k" using spec_win voter_term [OF inv, of _ u] lt t'
          unfolding blocked_def by (intro exI [of _ ?Q]) fastforce
        then show ?thesis using blocked_grown [OF _ g] by blast
      qed
    next
      case (spec_append u l e)
      then have ll: "sp_log s l = sp_lead s u" using won_facts(5) [OF inv] by simp
      from spec_append w have ws: "sp_won s t' \<noteq> None" by simp
      then obtain l' where l': "sp_won s t' = Some l'" by auto
      have tu: "t = u" "k = length (sp_lead s u)"
        using False ws o spec_append ll by (auto simp: own_def nth_append split: if_splits)
      have "t < sp_term s v \<and> (v, t, k) \<notin> sp_acks s" if "v \<in> voters (sp_votes s) t' (int l')" for v
        using voter_term [OF inv that] lt ack_facts(3) [OF inv, of v t k] tu by auto
      then have "blocked n s t k" unfolding blocked_def using won_facts(4) [OF inv l'] by blast
      then show ?thesis using blocked_grown [OF _ g] by blast
    qed (use False w o in \<open>auto simp: own_def\<close>)
  qed
qed

text \<open>A vote is given to a candidate only if the candidate has what the voter has acknowledged.\<close>

lemma vote_agree:
  assumes inv: "spec_inv n s" and l: "i < n" "agree k (sp_log s i) (sp_lead s t)" and o: "own s t k"
    and u: "up_to_date (sp_log s i) m" and m: "traced s m"
  shows "agree k m (sp_lead s t) \<or> blocked n s t k"
proof -
  let ?l = "sp_log s i" and ?T = "eTerm (last m)" and ?j = "length m - 1"
  have j: "?j < length m" "m ! ?j = last m" using m by (auto simp: traced_def last_conv_nth)
  have tl: "traced s ?l" by (rule log_facts(1) [OF inv l(1)])
  have k: "k < length ?l" "eTerm (?l ! k) = t"
    using l(2) o agree_nth [OF l(2), of k] by (simp_all add: agree_def own_def)
  then have "t \<le> eTerm (last ?l)" using tl sorted_nth_mono [of "map eTerm ?l" k "length ?l - 1"]
    by (auto simp: traced_def last_conv_nth)
  then have T: "t \<le> ?T" "?T = t \<Longrightarrow> k < length m" using u k(1) by (auto simp: up_to_date_def)
  have mT: "known s ?T" "agree ?j m (sp_lead s ?T)" using m j unfolding traced_def by metis+
  show ?thesis
  proof (cases "?T = t")
    case True
    then have "k \<le> ?j" using T(2) by simp
    then show ?thesis using mT(2) agree_mono True by auto
  next
    case False
    then have lt: "t < ?T" using T(1) by simp
    have "0 < t" using o won_facts(2) [OF inv] by (auto simp: own_def)
    then have "sp_won s ?T \<noteq> None" using mT(1) lt by (simp add: known_def)
    then have "agree k (sp_lead s ?T) (sp_lead s t) \<or> blocked n s t k"
      using inv lt o by (auto simp: spec_inv_def spec_complete_def)
    moreover have "agree k m (sp_lead s t)" if a: "agree k (sp_lead s ?T) (sp_lead s t)"
    proof -
      have "eTerm (sp_lead s ?T ! k) = t" using agree_nth [OF a, of k] o by (simp add: own_def)
      moreover have "eTerm (sp_lead s ?T ! ?j) = ?T" using agree_nth [OF mT(2), of ?j] j by simp
      moreover have "traced s (sp_lead s ?T)" by (rule log_facts(3) [OF inv mT(1)])
      ultimately have "k < ?j"
        using lt a sorted_nth_mono [of "map eTerm (sp_lead s ?T)" ?j k]
        by (auto simp: traced_def agree_def not_less intro: ccontr)
      then show ?thesis using agree_mono [OF mT(2), of k] agree_trans a by auto
    qed
    ultimately show ?thesis by blast
  qed
qed

lemma new_voter_agree:
  assumes "spec_inv n s" "i < n" "c < n" "(i, t, k) \<in> sp_acks s" "own s t k" "up_to_date (sp_log s i) (sp_log s c)"
  shows "agree k (sp_log s c) (sp_lead s t) \<or> blocked n s t k"
  using ack_facts(6) [OF assms(1,4,5)] vote_agree [OF assms(1,2) _ assms(5,6) log_facts(1) [OF assms(1,3)]] by blast

text \<open>Nobody has voted yet in the term that a new candidate starts.\<close>

lemma no_votes_ahead:
  assumes "spec_inv n s" "sp_term s i < u"
  shows "(v, u, int i) \<notin> sp_votes s"
proof
  assume "(v, u, int i) \<in> sp_votes s"
  then have "u \<le> sp_term s i" using spec_invD(1) [OF assms(1)] unfolding spec_votes_def by blast
  then show False using assms(2) by simp
qed

lemma spec_voters_step:
  assumes inv: "spec_inv n s" and st: "spec_step n s s'"
  shows "spec_voters n s'"
  unfolding spec_voters_def
proof (intro allI impI)
  fix v t c k
  assume c: "c < n" "(v, sp_term s' c, int c) \<in> sp_votes s'" "sp_cand s' c"
    and a: "(v, t, k) \<in> sp_acks s'" "t < sp_term s' c" "own s' t k"
  let ?goal = "agree k (sp_log s' c) (sp_lead s' t) \<or> blocked n s' t k"
  note g = spec_step_grown [OF inv st]
  have vt: "u \<le> sp_term s v" if "(v, u, d) \<in> sp_votes s" for u d
    using inv that by (auto simp: spec_inv_def spec_votes_def)
  have os: "own s t k" if "(v, t, k) \<in> sp_acks s"
    by (rule own_back [OF a(3) g ack_facts(4,3) [OF inv that]])
  have kn: "known s t" if "(v, t, k) \<in> sp_acks s" by (rule ack_facts(5) [OF inv that])
  have lift: ?goal if "(v, t, k) \<in> sp_acks s" "agree k (sp_log s' c) (sp_lead s t) \<or> blocked n s t k"
    using that kn agree_grown [OF _ g] blocked_grown [OF _ g] by blast
  have old: ?goal if "(v, t, k) \<in> sp_acks s" "(v, sp_term s c, int c) \<in> sp_votes s" "sp_cand s c"
      "sp_term s' c = sp_term s c" "sp_log s' c = sp_log s c"
  proof -
    have "agree k (sp_log s c) (sp_lead s t) \<or> blocked n s t k"
      using inv that(1-4) c(1) a(2) os unfolding spec_inv_def spec_voters_def by fastforce
    then show ?goal using that by (intro lift) simp_all
  qed
  from st show "agree k (sp_log s' c) (sp_lead s' t) \<or> blocked n s' t k"
  proof cases
    case (spec_stay i u b)
    then show ?thesis using c a by (intro old) (auto split: if_splits)
  next
    case (spec_campaign i u)
    show ?thesis
    proof (cases "c = i")
      case True
      have "v = i" using no_votes_ahead [OF inv, of i u] c(2) True spec_campaign by auto
      then show ?thesis using a True spec_campaign os ack_facts(6) [OF inv, of v t k] by (intro lift) auto
    next
      case False
      then show ?thesis using c a spec_campaign by (intro old) auto
    qed
  next
    case (spec_vote i d u)
    have ci: "c \<noteq> i" and ac: "(v, t, k) \<in> sp_acks s" using c(3) a(1) spec_vote by auto
    show ?thesis
    proof (cases "(v, sp_term s c, int c) \<in> sp_votes s")
      case True
      then show ?thesis using c a ci spec_vote by (intro old) auto
    next
      case False
      then have n: "v = i" "d = c" "u = sp_term s c" using c(2) ci spec_vote by auto
      moreover have "up_to_date (sp_log s i) (sp_log s c)" using spec_vote n c(3) ci by simp
      ultimately have "agree k (sp_log s c) (sp_lead s t) \<or> blocked n s t k"
        using new_voter_agree [OF inv spec_vote(2) c(1) _ os [OF ac]] ac by blast
      then show ?thesis using spec_vote ac by (intro lift) simp_all
    qed
  next
    case (spec_win d u)
    then show ?thesis using c a by (intro old) (auto split: if_splits)
  next
    case (spec_append u l e)
    have "c \<noteq> l" using won_facts(5) [OF inv spec_append(2)] spec_append c(3) by auto
    moreover have "v \<noteq> l \<or> t \<noteq> u" using vt [of "sp_term s c"] c(2) a(2) spec_append by auto
    ultimately show ?thesis using c a spec_append by (intro old) auto
  next
    case (spec_accept i u l q)
    have "c \<noteq> i" using c(3) spec_accept by auto
    moreover have "v \<noteq> i \<or> t \<noteq> u"
      using vt [of "sp_term s c" "int c"] c(2) a(2) spec_accept \<open>c \<noteq> i\<close> by auto
    ultimately show ?thesis using c a spec_accept by (intro old) auto
  qed
qed

lemma init_spec_simps [simp]:
  "sp_log init_spec i = [first_entry]" "sp_lead init_spec t = [first_entry]" "sp_term init_spec i = 0"
  "known init_spec t \<longleftrightarrow> t = 0"
  by (simp_all add: init_spec_def known_def)

lemma traced_init: "traced init_spec [first_entry]"
  by (simp add: traced_def agree_def first_entry_def)

lemma spec_inv_init: "spec_inv n init_spec"
  unfolding spec_inv_def
proof (intro conjI)
  show "spec_logs n init_spec" by (simp add: spec_logs_def traced_init) (simp add: first_entry_def)
qed (simp_all add: init_spec_def spec_votes_def spec_leaders_def spec_acks_def spec_complete_def spec_voters_def)

interpretation logs: inductive_invariant "\<lambda>s. s = init_spec" "spec_step n" "spec_inv n" for n
proof
  fix s :: "'c spec" assume "s = init_spec"
  then show "spec_inv n s" by (simp add: spec_inv_init)
next
  fix s t :: "'c spec" assume "spec_inv n s" "spec_step n s t"
  then show "spec_inv n t" unfolding spec_inv_def [of n t]
    by (intro conjI spec_votes_step spec_leaders_step spec_logs_step spec_acks_step spec_complete_step spec_voters_step)
qed

section \<open>What is chosen stays\<close>

lemma run_spec_inv: "spec_inv n s \<Longrightarrow> run_from (spec_step n) s s' \<Longrightarrow> spec_inv n s'"
  by (rotate_tac 1, induction rule: run_from.induct) (auto intro: logs.inv_step)

lemma run_spec_grown: "run_from (spec_step n) s s' \<Longrightarrow> spec_inv n s \<Longrightarrow> grown s s'"
proof (induction rule: run_from.induct)
  case (run_step t u)
  then show ?case using run_spec_inv spec_step_grown grown_trans by blast
qed (rule grown_refl)

lemma chosen_in_leader:
  assumes "spec_inv n s" "chosen n s t k" "sp_won s t' \<noteq> None" "t \<le> t'"
  shows "agree k (sp_lead s t') (sp_lead s t)"
proof (cases "t = t'")
  case True
  then show ?thesis using assms(2) by (simp add: chosen_def own_def agree_refl)
next
  case False
  then have "t < t'" using assms(4) by simp
  moreover have "own s t k" using assms(2) by (simp add: chosen_def)
  ultimately show ?thesis using chosen_not_blocked [OF assms(2)] spec_invD(5) [OF assms(1)] assms(3)
    unfolding spec_complete_def by blast
qed

text \<open>Two positions that are chosen belong to one sequence of entries.\<close>

lemma chosen_agree:
  assumes "spec_inv n s" "chosen n s t k" "chosen n s t' k'" "j \<le> k" "j \<le> k'"
  shows "sp_lead s t ! j = sp_lead s t' ! j"
proof -
  have w: "sp_won s t \<noteq> None" "sp_won s t' \<noteq> None" using assms(2,3) by (simp_all add: chosen_def own_def)
  show ?thesis
  proof (cases "t \<le> t'")
    case True
    from agree_nth [OF chosen_in_leader [OF assms(1,2) w(2) True] assms(4)] show ?thesis by simp
  next
    case False
    from agree_nth [OF chosen_in_leader [OF assms(1,3) w(1)] assms(5)] False show ?thesis by simp
  qed
qed

end
