(* ===== verification/Raft_Log.thy ===== *)
theory Raft_Log
  imports Raft_Peer
begin

text \<open>
  The log of a peer and its replication. The log slice starts at the entry of the snapshot and is
  contiguous in its indices (\<open>wf_log\<close>); the requests a leader builds are contiguous too
  (\<open>wf_args\<close>), either from the entry after \<^verbatim>\<open>PrevLogIndex\<close> or, when the follower lags behind
  the leader's snapshot, from the snapshot's entry on. On such states and requests no index or slice expression panics,
  and every operation keeps the log well-formed.
\<close>

section \<open>Contiguous entries\<close>

definition contiguous :: "int \<Rightarrow> 'c LogEntry list \<Rightarrow> bool" where
  "contiguous b es \<longleftrightarrow> (\<forall>k<length es. eIndex (es ! k) = b + int k)"

definition wf_log :: "('c, 'd) Raft \<Rightarrow> bool" where
  "wf_log rf \<longleftrightarrow> Log rf \<noteq> [] \<and> contiguous (sIndex (snapshot rf)) (Log rf)"

definition wf_args :: "('c, 'd) AppendEntriesArgs \<Rightarrow> bool" where
  "wf_args a \<longleftrightarrow> contiguous (PrevLogIndex a + 1) (Entries a) \<or>
     (PrevLogIndex a < sIndex (LogSnapshot a) \<and> contiguous (sIndex (LogSnapshot a)) (Entries a))"

lemma contiguous_Nil [simp]: "contiguous b []"
  by (simp add: contiguous_def)

lemma contiguous_Cons: "contiguous b (e # es) \<longleftrightarrow> eIndex e = b \<and> contiguous (b + 1) es"
  unfolding contiguous_def by (auto simp: nth_Cons split: nat.splits)

lemma contiguous_append:
  "contiguous b (xs @ ys) \<longleftrightarrow> contiguous b xs \<and> contiguous (b + int (length xs)) ys"
  by (induction xs arbitrary: b) (auto simp: contiguous_Cons algebra_simps)

lemma contiguous_take: "contiguous b es \<Longrightarrow> contiguous b (take k es)"
  by (simp add: contiguous_def)

lemma contiguous_drop:
  "contiguous b es \<Longrightarrow> k \<le> length es \<Longrightarrow> contiguous (b + int k) (drop k es)"
  by (simp add: contiguous_def)

lemma contiguous_nth: "contiguous b es \<Longrightarrow> k < length es \<Longrightarrow> eIndex (es ! k) = b + int k"
  by (simp add: contiguous_def)

lemma contiguous_mem_ge: "contiguous b es \<Longrightarrow> e \<in> set es \<Longrightarrow> b \<le> eIndex e"
  by (auto simp: contiguous_def in_set_conv_nth)

text \<open>Cutting off the entries covered by a snapshot leaves what follows the snapshot.\<close>

lemma contiguous_trim:
  "contiguous b es \<Longrightarrow> b \<le> m + 1 \<Longrightarrow> contiguous (m + 1) (dropWhile (\<lambda>e. \<not> eIndex e > m) es)"
proof (induction es arbitrary: b)
  case (Cons e es)
  then show ?case
    by (cases "b = m + 1") (auto simp: contiguous_Cons)
qed simp

text \<open>Searching for an index leaves a list that starts there, if the index occurs.\<close>

lemma contiguous_from:
  "contiguous b es \<Longrightarrow> contiguous m (dropWhile (\<lambda>e. eIndex e \<noteq> m) es)"
  by (induction es arbitrary: b) (auto simp: contiguous_Cons)

lemma dropWhile_prefix_none:
  "(\<And>e. e \<in> set xs \<Longrightarrow> P e) \<Longrightarrow> dropWhile P (xs @ ys) = dropWhile P ys"
  by (induction xs) auto

section \<open>Reading a well-formed log\<close>

abbreviation snapIndex :: "('c, 'd) Raft \<Rightarrow> int" where
  "snapIndex rf \<equiv> sIndex (snapshot rf)"

abbreviation lastIndex :: "('c, 'd) Raft \<Rightarrow> int" where
  "lastIndex rf \<equiv> eIndex (getLastLogUnLock rf)"

lemma wf_lastIndex: "wf_log rf \<Longrightarrow> lastIndex rf = snapIndex rf + int (length (Log rf)) - 1"
  by (auto simp: wf_log_def getLastLogUnLock_def last_conv_nth contiguous_nth of_nat_diff
      Suc_leI)

lemma wf_getLog:
  assumes "wf_log rf" "snapIndex rf \<le> i" "i \<le> lastIndex rf"
  shows "getLogByIndexUnLock rf i = Inr (Log rf ! nat (i - snapIndex rf))"
  using assms wf_lastIndex [OF assms(1)] by (simp add: getLogByIndexUnLock_def)

lemma wf_getLog_index:
  assumes "wf_log rf" "snapIndex rf \<le> i" "i \<le> lastIndex rf"
  shows "eIndex (Log rf ! nat (i - snapIndex rf)) = i"
  using assms wf_lastIndex [OF assms(1)]
    contiguous_nth [of "snapIndex rf" "Log rf" "nat (i - snapIndex rf)"]
  by (simp add: wf_log_def)

lemma getLog_below: "i < snapIndex rf \<Longrightarrow> getLogByIndexUnLock rf i = Inr (snapshotEntry rf)"
  by (simp add: getLogByIndexUnLock_def)

lemma wf_getLog_ok:
  assumes "wf_log rf" "i \<le> lastIndex rf"
  obtains e where "getLogByIndexUnLock rf i = Inr e"
  using assms getLog_below wf_getLog by (metis not_less)

lemma wf_log_cong:
  "Log rf' = Log rf \<Longrightarrow> snapshot rf' = snapshot rf \<Longrightarrow> wf_log rf' = wf_log rf"
  by (simp add: wf_log_def)

section \<open>Operations that keep the log well-formed\<close>

lemma wf_Make_fresh: "wf_log (Make now rnd n i MakePersister)"
  by (simp add: wf_log_def Make_def Let_def MakePersister_def ReadRaftState_def readPersist_def
      contiguous_def)

lemma wf_restart:
  assumes "durable rf" "wf_log rf"
  shows "wf_log (Make now rnd (peers rf) (me rf) (Copy (Persister rf)))"
  using assms Make_timer_irrelevant [of now rnd "peers rf" "me rf" "Copy (Persister rf)" 0 0]
  by (simp add: durable_def recovered_def wf_log_def)

lemma wf_Start:
  assumes "Start_append now rf c = (rf', index, gs)" "wf_log rf"
  shows "wf_log rf'" and "index = lastIndex rf + 1" and "lastIndex rf' = index"
proof -
  note e = Start_append_effect [OF assms(1)]
  show i: "index = lastIndex rf + 1" using e(7) assms(2) by (simp add: wf_lastIndex)
  show "wf_log rf'"
    using assms(2) e(6,7,8) by (simp add: wf_log_def contiguous_append contiguous_Cons)
  then show "lastIndex rf' = index" using e(6,7,8) by (simp add: wf_lastIndex)
qed

lemma wf_updateSnapshot:
  assumes "wf_log rf"
  shows "wf_log (updateSnapshotUnLock rf sn)"
proof (cases "sIndex sn > snapIndex rf")
  case True
  let ?rest = "dropWhile (\<lambda>e. eIndex e \<noteq> sIndex sn) (Log rf)"
  have "contiguous (sIndex sn) ?rest" using assms contiguous_from by (auto simp: wf_log_def)
  then show ?thesis
    using True by (auto simp: wf_log_def updateSnapshotUnLock_def Let_def snapshotEntry_def
        contiguous_Cons)
qed (simp add: updateSnapshotUnLock_def assms)

lemma SaveSnapshot_ok:
  assumes wf: "wf_log rf" and i: "snapIndex rf < index" "index \<le> lastIndex rf"
  obtains rf' where "SaveSnapshot rf index st = Inr rf'" "wf_log rf'"
    "snapshot rf' = \<lparr>sIndex = index, sTerm = eTerm (Log rf ! nat (index - snapIndex rf)),
                     Storage = st\<rparr>"
    "Log rf' = drop (nat (index - snapIndex rf)) (Log rf)"
proof -
  let ?k = "nat (index - snapIndex rf)"
  have k: "?k < length (Log rf)" using i wf_lastIndex [OF wf] by linarith
  have sl: "go_slice (Log rf) (index - snapIndex rf) (int (length (Log rf))) = Inr (drop ?k (Log rf))"
    using k i by (intro go_slice_suffix) linarith+
  define rf' where "rf' = persist (rf\<lparr>snapshot := \<lparr>sIndex = index,
      sTerm = eTerm (Log rf ! ?k), Storage = st\<rparr>, Log := drop ?k (Log rf)\<rparr>)"
  have eq: "SaveSnapshot rf index st = Inr rf'"
    using i sl wf_getLog [OF wf, of index] by (simp add: SaveSnapshot_def Let_def rf'_def)
  have "contiguous (snapIndex rf + int ?k) (drop ?k (Log rf))"
    using wf k by (intro contiguous_drop) (simp_all add: wf_log_def)
  then have "wf_log rf'" using i k by (simp add: wf_log_def rf'_def)
  then show thesis by (rule that [OF eq]) (simp_all add: rf'_def)
qed

section \<open>Replication\<close>

text \<open>The requests a leader builds from a well-formed log are well-formed.\<close>

lemma entriesToSend_contiguous:
  assumes "entriesToSend rf nx index = Inr es" "wf_log rf"
  shows "if nx < snapIndex rf then contiguous (snapIndex rf) es else contiguous nx es"
proof -
  let ?off = "snapIndex rf"
  have c: "contiguous ?off (Log rf)" using assms(2) by (simp add: wf_log_def)
  consider "\<not> nx < index + 1" | "nx < index + 1" "nx < ?off" | "nx < index + 1" "\<not> nx < ?off" by blast
  then show ?thesis
  proof cases
    case 2
    with assms(1) c show ?thesis
      by (auto simp: entriesToSend_def Let_def go_slice_def contiguous_take split: if_splits)
  next
    case 3
    with assms(1) have
      es: "es = take (nat (index - ?off + 1) - nat (nx - ?off)) (drop (nat (nx - ?off)) (Log rf))"
      and le: "nx - ?off \<le> int (length (Log rf))"
      by (auto simp: entriesToSend_def Let_def go_slice_def split: if_splits)
    have "contiguous (?off + int (nat (nx - ?off))) (drop (nat (nx - ?off)) (Log rf))"
      using c le by (intro contiguous_drop) linarith+
    with 3 show ?thesis by (simp add: es contiguous_take)
  qed (use assms(1) in \<open>auto simp: entriesToSend_def Let_def\<close>)
qed

lemma prepare_cases:
  assumes "broadcastAppendEntries_prepare rf i index term commit = Inr (Some (nx, args))"
  obtains prev es where "CurrentTerm rf = term" "go_index (nextIndex rf) i = Inr nx"
    "getLogByIndexUnLock rf (nx - 1) = Inr prev" "entriesToSend rf nx index = Inr es"
    "args = \<lparr>aeTerm = term, LeaderId = me rf, PrevLogIndex = nx - 1, PrevLogTerm = eTerm prev,
             Entries = es, LeaderCommit = commit, LogSnapshot = snapshot rf\<rparr>"
  using assms
  by (auto simp: broadcastAppendEntries_prepare_def bindG_eq_Inr_iff split: if_split_asm)

lemma prepare_wf_args:
  assumes "broadcastAppendEntries_prepare rf i index term commit = Inr (Some (nx, args))"
    and "wf_log rf"
  shows "wf_args args"
  using assms(1)
proof (rule prepare_cases)
  fix prev es
  assume es: "entriesToSend rf nx index = Inr es"
    and "args = \<lparr>aeTerm = term, LeaderId = me rf, PrevLogIndex = nx - 1, PrevLogTerm = eTerm prev,
             Entries = es, LeaderCommit = commit, LogSnapshot = snapshot rf\<rparr>"
  then show ?thesis
    using entriesToSend_contiguous [OF es assms(2)] by (auto simp: wf_args_def split: if_splits)
qed

lemma attempt_prepare:
  assumes "broadcastAppendEntries_attempt rfGetState rf i index term commit = Inr (Some r)"
  shows "broadcastAppendEntries_prepare rf i index term commit = Inr (Some r)"
  using assms by (simp add: broadcastAppendEntries_attempt_def split: if_splits)

section \<open>Receiving entries\<close>

lemma trimArgs_aligned:
  assumes "wf_args args"
  shows "contiguous (PrevLogIndex (trimArgs rf args) + 1) (Entries (trimArgs rf args)) \<or>
     (PrevLogIndex (trimArgs rf args) < sIndex (LogSnapshot args) \<and>
      contiguous (sIndex (LogSnapshot args)) (Entries (trimArgs rf args)))"
proof (cases "PrevLogIndex args < snapIndex rf")
  case True
  let ?es = "dropWhile (\<lambda>e. \<not> eIndex e > snapIndex rf) (Entries args)"
  have t: "PrevLogIndex (trimArgs rf args) = snapIndex rf" "Entries (trimArgs rf args) = ?es"
    using True by (simp_all add: trimArgs_def)
  from assms consider "contiguous (PrevLogIndex args + 1) (Entries args)"
    | "PrevLogIndex args < sIndex (LogSnapshot args)" "contiguous (sIndex (LogSnapshot args)) (Entries args)"
    by (auto simp: wf_args_def)
  then show ?thesis
  proof cases
    case 1
    then show ?thesis using True contiguous_trim [OF 1, of "snapIndex rf"] by (simp add: t)
  next
    case 2
    show ?thesis
    proof (cases "sIndex (LogSnapshot args) \<le> snapIndex rf + 1")
      case True
      then show ?thesis using contiguous_trim [OF 2(2), of "snapIndex rf"] by (simp add: t)
    next
      case False
      have "?es = Entries args"
      proof (cases "Entries args")
        case (Cons e es)
        with 2(2) False show ?thesis by (simp add: contiguous_Cons)
      qed simp
      with 2 False show ?thesis by (simp add: t)
    qed
  qed
qed (use assms in \<open>simp add: trimArgs_def wf_args_def\<close>)

lemma trimArgs_LogSnapshot [simp]: "LogSnapshot (trimArgs rf args) = LogSnapshot args"
  "LeaderCommit (trimArgs rf args) = LeaderCommit args" "aeTerm (trimArgs rf args) = aeTerm args"
  by (simp_all add: trimArgs_def)

text \<open>No loop of the handler leaves the log's range.\<close>

lemma isMatch_ok:
  assumes "wf_log rf" "snapIndex rf \<le> pos" "l = lastIndex rf"
  shows "isMatch rf l pos es =
    Inr (\<forall>k<length es. pos + int k \<le> l \<and>
           eTerm (Log rf ! nat (pos + int k - snapIndex rf)) = eTerm (es ! k))"
  using assms(2)
proof (induction es arbitrary: pos)
  case (Cons e es)
  show ?case
  proof (cases "l < pos")
    case True
    then show ?thesis by force
  next
    case False
    then have g: "getLogByIndexUnLock rf pos = Inr (Log rf ! nat (pos - snapIndex rf))"
      using wf_getLog [OF assms(1) Cons.prems] assms(3) by simp
    from Cons.prems have "isMatch rf l (pos + 1) es = Inr (\<forall>k<length es. pos + 1 + int k \<le> l \<and>
           eTerm (Log rf ! nat (pos + 1 + int k - snapIndex rf)) = eTerm (es ! k))"
      by (intro Cons.IH) simp
    then show ?thesis using False g
      by (auto simp: All_less_Suc2 algebra_simps)
  qed
qed simp

lemma prevConsistent_ok:
  assumes "wf_log rf" "snapIndex rf \<le> PrevLogIndex args"
  shows "prevConsistent rf args = Inr (PrevLogIndex args \<le> lastIndex rf \<and>
     eTerm (Log rf ! nat (PrevLogIndex args - snapIndex rf)) = PrevLogTerm args)"
  using assms wf_getLog [OF assms] by (auto simp: prevConsistent_def)

lemma copyEntries_ok:
  assumes "wf_log rf" "snapIndex rf < nx" "nx - 1 \<le> lastIndex rf"
  shows "copyEntries rf (snapIndex rf) nx es =
     Inr (rf\<lparr>Log := take (nat (nx - snapIndex rf)) (Log rf) @ es\<rparr>)"
proof (cases "nx - 1 = lastIndex rf")
  case True
  then have "length (Log rf) \<le> nat (nx - snapIndex rf)" using wf_lastIndex [OF assms(1)] by simp
  with True show ?thesis by (simp add: copyEntries_def)
next
  case False
  have "go_slice (Log rf) 0 (nx - snapIndex rf) = Inr (take (nat (nx - snapIndex rf)) (Log rf))"
    using assms wf_lastIndex [OF assms(1)] by (intro go_slice_prefix) linarith+
  with False show ?thesis by (simp add: copyEntries_def)
qed

lemma conflictScan_ok:
  assumes "wf_log rf" "i \<le> lastIndex rf" "off = snapIndex rf"
  shows "\<exists>ci'. conflictScan rf off t i ci = Inr ci' \<and> ci' \<le> ci \<and> min ci (ci - (i - off)) \<le> ci'"
  using assms
proof (induction rf off t i ci rule: conflictScan.induct)
  case (1 rf off t i ci)
  show ?case
  proof (cases "i > off")
    case True
    then obtain e where e: "getLogByIndexUnLock rf i = Inr e"
      using "1.prems" by (metis wf_getLog_ok)
    show ?thesis
    proof (cases "eTerm e \<noteq> t")
      case True
      with \<open>i > off\<close> e show ?thesis by (simp add: conflictScan.simps [of rf off t i ci])
    next
      case False
      have "i - 1 \<le> lastIndex rf" using "1.prems" by simp
      from "1.IH" [OF \<open>i > off\<close> e False "1.prems"(1) this "1.prems"(3)] obtain ci' where
        "conflictScan rf off t (i - 1) (ci - 1) = Inr ci'" "ci' \<le> ci - 1"
        "min (ci - 1) (ci - 1 - (i - 1 - off)) \<le> ci'" by blast
      with \<open>i > off\<close> e False show ?thesis
        by (intro exI [of _ ci']) (simp add: conflictScan.simps [of rf off t i ci] min_def split: if_splits)
    qed
  qed (auto simp: conflictScan.simps [of rf off t i ci])
qed

lemma conflictReply_ok:
  assumes wf: "wf_log rf" and p: "snapIndex rf \<le> PrevLogIndex args"
  shows "\<exists>reply. conflictReply rf args = Inr reply \<and> \<not> Success reply \<and>
     ConflictIndex reply \<le> PrevLogIndex args \<and> snapIndex rf \<le> ConflictIndex reply \<and>
     (ConflictTerm reply = 0 \<or> PrevLogIndex args \<le> lastIndex rf \<and>
        ConflictTerm reply = eTerm (Log rf ! nat (PrevLogIndex args - snapIndex rf)))"
proof (cases "lastIndex rf < PrevLogIndex args + 1")
  case True
  then show ?thesis
    using wf_lastIndex [OF wf] wf by (auto simp: conflictReply_def wf_log_def Suc_leI)
next
  case False
  then have g: "getLogByIndexUnLock rf (PrevLogIndex args) =
      Inr (Log rf ! nat (PrevLogIndex args - snapIndex rf))" using wf p by (intro wf_getLog) auto
  obtain ci where "conflictScan rf (snapIndex rf)
      (eTerm (Log rf ! nat (PrevLogIndex args - snapIndex rf)))
      (PrevLogIndex args - 1) (PrevLogIndex args) = Inr ci"
    "ci \<le> PrevLogIndex args" "min (PrevLogIndex args) (1 + snapIndex rf) \<le> ci"
    using conflictScan_ok [OF wf, of "PrevLogIndex args - 1" "snapIndex rf"
        "eTerm (Log rf ! nat (PrevLogIndex args - snapIndex rf))" "PrevLogIndex args"] False
    by (auto simp: algebra_simps)
  with False g p show ?thesis by (auto simp: conflictReply_def Let_def min_def split: if_splits)
qed

text \<open>
  What accepting a request does to the log slice: \<open>p\<close> is the position after the previous entry.
\<close>

definition mergeEntries :: "nat \<Rightarrow> 'c LogEntry list \<Rightarrow> 'c LogEntry list \<Rightarrow> 'c LogEntry list" where
  "mergeEntries p old es =
     (if \<forall>k<length es. p + k < length old \<and> eTerm (old ! (p + k)) = eTerm (es ! k) then old
      else take p old @ es)"

abbreviation prevPos :: "('c, 'd) Raft \<Rightarrow> ('c, 'd) AppendEntriesArgs \<Rightarrow> nat" where
  "prevPos rf args \<equiv> nat (PrevLogIndex args + 1 - snapIndex rf)"

lemma acceptEntries_merge:
  assumes wf: "wf_log rf"
    and p: "snapIndex rf \<le> PrevLogIndex args" "PrevLogIndex args \<le> lastIndex rf"
  obtains rf3 gs where
    "acceptEntries now rnd rf args =
       (let rf' = persist (resetElectionTimer now rnd (updateSnapshotUnLock rf3 (LogSnapshot args)))
        in Inr (rf', \<lparr>aerTerm = CurrentTerm rf', Success = True, ConflictIndex = 0,
                      ConflictTerm = 0\<rparr>, gs))"
    "followCommit (rf\<lparr>state := Follower, Log := mergeEntries (prevPos rf args) (Log rf) (Entries args)\<rparr>)
       (LeaderCommit args) (PrevLogIndex args + int (length (Entries args))) = (rf3, gs)"
proof -
  let ?f = "rf\<lparr>state := Follower\<rparr>" and ?nx = "PrevLogIndex args + 1" and ?es = "Entries args"
  have wff: "wf_log ?f" using wf by (simp add: wf_log_def)
  have last: "getLastLogUnLock ?f = getLastLogUnLock rf" by (rule getLastLogUnLock_cong) simp_all
  define m where "m \<longleftrightarrow> (\<forall>k<length ?es. ?nx + int k \<le> lastIndex rf \<and>
      eTerm (Log rf ! nat (?nx + int k - snapIndex rf)) = eTerm (?es ! k))"
  have im: "isMatch ?f (lastIndex rf) ?nx ?es = Inr m"
    using isMatch_ok [OF wff, of ?nx "lastIndex rf" ?es] p by (simp add: last m_def)
  have ce: "copyEntries ?f (snapIndex rf) ?nx ?es =
      Inr (?f\<lparr>Log := take (prevPos rf args) (Log rf) @ ?es\<rparr>)"
    using copyEntries_ok [OF wff, of ?nx ?es] p by (simp add: last)
  have "m \<longleftrightarrow> (\<forall>k<length ?es. prevPos rf args + k < length (Log rf) \<and>
      eTerm (Log rf ! (prevPos rf args + k)) = eTerm (?es ! k))"
    using p wf_lastIndex [OF wf] unfolding m_def
    by (auto simp: nat_add_distrib nat_diff_distrib' algebra_simps simp flip: nat_int_add)
  then have "(if m then Inr ?f else copyEntries ?f (snapIndex rf) ?nx ?es) =
      Inr (?f\<lparr>Log := mergeEntries (prevPos rf args) (Log rf) ?es\<rparr>)"
    by (auto simp: ce mergeEntries_def)
  then show thesis
    using im last
    by (cases "followCommit (?f\<lparr>Log := mergeEntries (prevPos rf args) (Log rf) ?es\<rparr>)
      (LeaderCommit args) (PrevLogIndex args + int (length ?es))")
      (auto intro!: that simp: acceptEntries_def Let_def)
qed

lemma mergeEntries_nonempty: "old \<noteq> [] \<Longrightarrow> 0 < p \<Longrightarrow> mergeEntries p old es \<noteq> []"
  by (simp add: mergeEntries_def)

lemma mergeEntries_contiguous:
  assumes "contiguous b old" "contiguous (b + int p) es" "p \<le> length old"
  shows "contiguous b (mergeEntries p old es)"
  using assms by (auto simp: mergeEntries_def contiguous_append contiguous_take min_def)

lemma acceptEntries_wf:
  assumes wf: "wf_log rf"
    and p: "snapIndex rf \<le> PrevLogIndex args" "PrevLogIndex args \<le> lastIndex rf"
    and al: "contiguous (PrevLogIndex args + 1) (Entries args) \<or>
      (PrevLogIndex args < sIndex (LogSnapshot args) \<and>
       contiguous (sIndex (LogSnapshot args)) (Entries args))"
  shows "\<exists>rf' reply gs. acceptEntries now rnd rf args = Inr (rf', reply, gs) \<and> wf_log rf'"
proof -
  let ?p = "prevPos rf args" and ?sn = "LogSnapshot args" and ?es = "Entries args"
  let ?l = "mergeEntries ?p (Log rf) ?es"
  obtain rf3 gs where acc: "acceptEntries now rnd rf args =
       (let rf' = persist (resetElectionTimer now rnd (updateSnapshotUnLock rf3 ?sn))
        in Inr (rf', \<lparr>aerTerm = CurrentTerm rf', Success = True, ConflictIndex = 0,
                      ConflictTerm = 0\<rparr>, gs))"
    and fc: "followCommit (rf\<lparr>state := Follower, Log := ?l\<rparr>)
       (LeaderCommit args) (PrevLogIndex args + int (length ?es)) = (rf3, gs)"
    by (rule acceptEntries_merge [OF wf p])
  have r3: "Log rf3 = ?l" "snapshot rf3 = snapshot rf" using followCommit_frame [OF fc] by simp_all
  have pl: "?p \<le> length (Log rf)" "0 < ?p" "snapIndex rf + int ?p = PrevLogIndex args + 1"
    using p wf_lastIndex [OF wf] by auto
  have old: "contiguous (snapIndex rf) (Log rf)" "Log rf \<noteq> []" using wf by (auto simp: wf_log_def)
  have "wf_log (updateSnapshotUnLock rf3 ?sn)"
  proof (cases "contiguous (PrevLogIndex args + 1) ?es \<or> ?l = Log rf")
    case True
    then have "contiguous (snapIndex rf) ?l"
      using old pl mergeEntries_contiguous [of "snapIndex rf" "Log rf" ?p ?es] by auto
    then have "wf_log rf3" using r3 old(2) pl(2) by (simp add: wf_log_def mergeEntries_nonempty)
    then show ?thesis by (rule wf_updateSnapshot)
  next
    case False
    with al have sn: "PrevLogIndex args < sIndex ?sn" "contiguous (sIndex ?sn) ?es" by auto
    from False have l: "?l = take ?p (Log rf) @ ?es" and "?es \<noteq> []"
      by (auto simp: mergeEntries_def split: if_splits)
    have "eIndex e \<noteq> sIndex ?sn" if "e \<in> set (take ?p (Log rf))" for e
    proof -
      from that obtain k where "k < ?p" "k < length (Log rf)" "e = Log rf ! k"
        by (auto simp: in_set_conv_nth)
      then show ?thesis using contiguous_nth [OF old(1)] pl sn(1) by auto
    qed
    then have "dropWhile (\<lambda>e. eIndex e \<noteq> sIndex ?sn) ?l = dropWhile (\<lambda>e. eIndex e \<noteq> sIndex ?sn) ?es"
      unfolding l by (rule dropWhile_prefix_none)
    also have "\<dots> = ?es" using sn(2) \<open>?es \<noteq> []\<close> by (cases ?es) (auto simp: contiguous_Cons)
    finally show ?thesis
      using sn p \<open>?es \<noteq> []\<close> r3
      by (auto simp: wf_log_def updateSnapshotUnLock_def Let_def snapshotEntry_def contiguous_Cons)
  qed
  then show ?thesis
    unfolding acc by (simp add: Let_def wf_log_def)
qed

text \<open>The handler as a whole.\<close>

lemma stepDownTo_wf: "wf_log (stepDownTo now rnd t rf) = wf_log rf"
  by (simp add: wf_log_def stepDownTo_effect)

lemma AppendEntries_ok:
  assumes wf: "wf_log rf" and wa: "wf_args args"
  shows "\<exists>rf' reply gs. AppendEntries now rnd rf args = Inr (rf', reply, gs) \<and> wf_log rf'"
proof (cases "CurrentTerm rf \<le> aeTerm args")
  case True
  let ?r1 = "stepDownTo now rnd (aeTerm args) rf"
  let ?a = "trimArgs ?r1 args" and ?r2 = "resetElectionTimer now rnd ?r1"
  have wf1: "wf_log ?r1" using wf by (simp add: stepDownTo_wf)
  have p: "snapIndex ?r1 \<le> PrevLogIndex ?a" by (rule trimArgs_prev)
  obtain c where c: "prevConsistent ?r1 ?a = Inr c" using prevConsistent_ok [OF wf1 p] by blast
  show ?thesis
  proof (cases c)
    case True
    then have "PrevLogIndex ?a \<le> lastIndex ?r1" using c prevConsistent_ok [OF wf1 p] by simp
    from acceptEntries_wf [OF wf1 p this] trimArgs_aligned [OF wa, of ?r1]
    have "\<exists>rf' reply gs. acceptEntries now rnd ?r1 ?a = Inr (rf', reply, gs) \<and> wf_log rf'" by simp
    with \<open>CurrentTerm rf \<le> aeTerm args\<close> c True show ?thesis by (auto simp: AppendEntries_def)
  next
    case False
    have "wf_log ?r2" using wf1 by (simp add: wf_log_def)
    moreover obtain reply where "conflictReply ?r2 ?a = Inr reply"
      using conflictReply_ok [of ?r2 ?a] calculation p by auto
    ultimately show ?thesis
      using \<open>CurrentTerm rf \<le> aeTerm args\<close> c False by (simp add: AppendEntries_def Let_def)
  qed
qed (use wf in \<open>simp add: AppendEntries_def\<close>)

section \<open>The receiver rule\<close>

text \<open>
  The rule of the Raft paper for entries \<open>es\<close> to be stored from position \<open>p\<close> on: walk over the
  entries both logs have; at the first conflicting term drop the rest of the log; append what is
  missing.
\<close>

fun paperRule :: "'c LogEntry list \<Rightarrow> 'c LogEntry list \<Rightarrow> 'c LogEntry list" where
  "paperRule old [] = old"
| "paperRule [] (e # es) = e # es"
| "paperRule (x # xs) (e # es) = (if eTerm x = eTerm e then x # paperRule xs es else e # es)"

text \<open>Entries that agree in index and term agree altogether (Raft's log matching).\<close>

definition matching :: "'c LogEntry list \<Rightarrow> 'c LogEntry list \<Rightarrow> bool" where
  "matching xs ys \<longleftrightarrow> (\<forall>k<min (length xs) (length ys). eTerm (xs ! k) = eTerm (ys ! k) \<longrightarrow> xs ! k = ys ! k)"

lemma matching_Cons:
  "matching (x # xs) (y # ys) \<longleftrightarrow> (eTerm x = eTerm y \<longrightarrow> x = y) \<and> matching xs ys"
  unfolding matching_def by (auto simp: All_less_Suc2)

lemma paperRule_merge:
  assumes "matching old es"
  shows "paperRule old es =
    (if \<forall>k<length es. k < length old \<and> eTerm (old ! k) = eTerm (es ! k) then old else es)"
  using assms
proof (induction old es rule: paperRule.induct)
  case (3 x xs e es)
  then show ?case by (auto simp: matching_Cons All_less_Suc2)
qed auto

lemma mergeEntries_paperRule:
  assumes "p \<le> length old" "matching (drop p old) es"
  shows "mergeEntries p old es = take p old @ paperRule (drop p old) es"
proof -
  have "(\<forall>k<length es. p + k < length old \<and> eTerm (old ! (p + k)) = eTerm (es ! k)) \<longleftrightarrow>
      (\<forall>k<length es. k < length (drop p old) \<and> eTerm (drop p old ! k) = eTerm (es ! k))"
    using assms(1) by (auto simp: less_diff_conv add.commute)
  then show ?thesis
    unfolding mergeEntries_def paperRule_merge [OF assms(2)] by auto
qed

section \<open>Applying\<close>

definition applyMsgs :: "('c, 'd) Raft \<Rightarrow> int \<Rightarrow> nat \<Rightarrow> ('c, 'd) ApplyMsg list" where
  "applyMsgs rf from n =
     map (\<lambda>k. \<lparr>CommandValid = True,
               Command = commandOf (Log rf ! nat (from + int k - snapIndex rf)),
               CommandIndex = from + int k\<rparr>) [0..<n]"

lemma applyLoop_ok:
  assumes "wf_log rf" "snapIndex rf < i" "c \<le> lastIndex rf" "i \<le> c + 1"
  shows "applyLoop rf i c =
    Inr (rf\<lparr>lastApplied := (if i \<le> c then c else lastApplied rf),
            applyChan := applyChan rf @ applyMsgs rf i (nat (c + 1 - i))\<rparr>)"
  using assms
proof (induction rf i c rule: applyLoop.induct)
  case (1 rf i c)
  show ?case
  proof (cases "i \<le> c")
    case True
    let ?e = "Log rf ! nat (i - snapIndex rf)"
    let ?rf1 = "send_apply \<lparr>CommandValid = True, Command = commandOf ?e, CommandIndex = i\<rparr>
      (rf\<lparr>lastApplied := i\<rparr>)"
    have g: "getLogByIndexUnLock rf i = Inr ?e" using "1.prems" True by (intro wf_getLog) auto
    have wf1: "wf_log ?rf1" using "1.prems"(1) by (simp add: wf_log_def)
    have last: "lastIndex ?rf1 = lastIndex rf" by (simp add: getLastLogUnLock_cong [of ?rf1 rf])
    have "applyLoop ?rf1 (i + 1) c =
      Inr (?rf1\<lparr>lastApplied := (if i + 1 \<le> c then c else lastApplied ?rf1),
            applyChan := applyChan ?rf1 @ applyMsgs ?rf1 (i + 1) (nat (c + 1 - (i + 1)))\<rparr>)"
      by (rule "1.IH" [OF True g wf1]) (use "1.prems" True last in auto)
    moreover have "nat (c + 1 - i) = Suc (nat (c + 1 - (i + 1)))" using True by simp
    then have "applyMsgs rf i (nat (c + 1 - i)) =
        \<lparr>CommandValid = True, Command = commandOf ?e, CommandIndex = i\<rparr> #
        applyMsgs ?rf1 (i + 1) (nat (c + 1 - (i + 1)))"
      by (simp add: applyMsgs_def upt_conv_Cons map_Suc_upt [symmetric] add_ac del: upt_Suc)
    ultimately show ?thesis
      using True g by (simp add: applyLoop.simps [of rf i c] send_apply_def)
  qed (use "1.prems" in \<open>simp add: applyLoop.simps [of rf i c] applyMsgs_def\<close>)
qed

section \<open>Backing up\<close>

lemma findTerm_ok:
  assumes "wf_log rf" "ci \<le> lastIndex rf" "off = snapIndex rf"
  shows "\<exists>c. findTerm rf off t ci = Inr c \<and> c \<le> ci \<and>
    (off < ci \<longrightarrow> off \<le> c \<and> (c = ci \<longrightarrow> eTerm (Log rf ! nat (ci - off)) = t))"
  using assms
proof (induction rf off t ci rule: findTerm.induct)
  case (1 rf off t ci)
  show ?case
  proof (cases "ci > off")
    case True
    let ?e = "Log rf ! nat (ci - off)"
    have e: "getLogByIndexUnLock rf ci = Inr ?e"
      using "1.prems" True wf_getLog [of rf ci] by simp
    show ?thesis
    proof (cases "eTerm ?e = t")
      case True
      with e \<open>ci > off\<close> show ?thesis by (simp add: findTerm.simps [of rf off t ci])
    next
      case False
      from "1.IH" [OF \<open>ci > off\<close> e False "1.prems"(1) _ "1.prems"(3)] "1.prems"(2)
      obtain c where "findTerm rf off t (ci - 1) = Inr c" "c \<le> ci - 1" "off < ci - 1 \<longrightarrow> off \<le> c"
        by auto
      moreover have "off \<le> c"
        using calculation True by (cases "off < ci - 1") (auto simp: findTerm.simps [of rf off t "ci - 1"])
      ultimately show ?thesis using e False True by (simp add: findTerm.simps [of rf off t ci])
    qed
  qed (simp add: findTerm.simps [of rf off t ci])
qed

lemma lastOfTerm_ok:
  assumes "wf_log rf" "q \<le> lastIndex rf" "getLogByIndexUnLock rf q = Inr e" "eTerm e \<noteq> t"
    and "i \<le> q" "q < nx" "ci = i - 1"
  shows "\<exists>c. lastOfTerm rf nx t i ci = Inr c \<and> c < q"
  using assms
proof (induction rf nx t i ci rule: lastOfTerm.induct)
  case (1 rf nx t i ci)
  have lt: "i < nx" using "1.prems" by simp
  obtain x where x: "getLogByIndexUnLock rf i = Inr x"
    using "1.prems"(1,2,5) by (metis order_trans wf_getLog_ok)
  show ?case
  proof (cases "eTerm x \<noteq> t")
    case True
    then have "lastOfTerm rf nx t i ci = Inr ci" by (simp add: lastOfTerm.simps [of rf nx t i ci] x lt)
    with "1.prems" show ?thesis by simp
  next
    case False
    with x "1.prems" have "i \<noteq> q" by auto
    from "1.IH" [OF lt x False "1.prems"(1-4)] "1.prems" \<open>i \<noteq> q\<close>
    have "\<exists>c. lastOfTerm rf nx t (i + 1) (ci + 1) = Inr c \<and> c < q" by simp
    with x lt False show ?thesis by (simp add: lastOfTerm.simps [of rf nx t i ci])
  qed
qed

lemma getNextIndex_decreases:
  assumes wf: "wf_log rf" and r: "ConflictIndex reply \<le> nx - 1" "nx - 1 \<le> lastIndex rf"
    and off: "snapIndex rf < nx - 1"
    and differ: "ConflictTerm reply = 0 \<or>
      eTerm (Log rf ! nat (nx - 1 - snapIndex rf)) \<noteq> ConflictTerm reply"
  shows "\<exists>n. getNextIndex rf reply nx = Inr n \<and> n < nx"
proof (cases "ConflictTerm reply = 0")
  case False
  let ?t = "ConflictTerm reply" and ?c0 = "ConflictIndex reply" and ?off = "snapIndex rf"
  let ?q = "Log rf ! nat (nx - 1 - ?off)"
  from False differ have neq: "eTerm ?q \<noteq> ?t" by simp
  have gq: "getLogByIndexUnLock rf (nx - 1) = Inr ?q" using wf off r by (intro wf_getLog) auto
  obtain e where e: "getLogByIndexUnLock rf ?c0 = Inr e" using wf r by (metis order_trans wf_getLog_ok)
  obtain c where c: "findTerm rf ?off ?t ?c0 = Inr c" "c \<le> ?c0"
    "?off < ?c0 \<Longrightarrow> c = ?c0 \<Longrightarrow> eTerm (Log rf ! nat (?c0 - ?off)) = ?t"
    using findTerm_ok [OF wf, of ?c0 ?off ?t] r by auto
  have "c \<noteq> nx - 1"
  proof
    assume "c = nx - 1"
    with c(2) r(1) have "?c0 = nx - 1" "c = ?c0" by auto
    with c(3) off neq show False by simp
  qed
  with c(2) r(1) have "c + 1 \<le> nx - 1" by simp
  then obtain c' where "lastOfTerm rf nx ?t (c + 1) c = Inr c'" "c' < nx - 1"
    using lastOfTerm_ok [OF wf r(2) gq neq, of "c + 1" nx c] by auto
  with False e c(1) r(1) show ?thesis by (auto simp: getNextIndex_def)
qed (use r in \<open>simp add: getNextIndex_def\<close>)

section \<open>Properties\<close>

definition example_leader :: "(nat, nat) Raft" where
  "example_leader =
     (Make 0 0 3 0 MakePersister)
       \<lparr>state := Leader, CurrentTerm := 2, nextIndex := [4, 4, 4],
        Log := [\<lparr>eIndex = 0, eTerm = 0, eLog = None\<rparr>, \<lparr>eIndex = 1, eTerm = 1, eLog = Some 10\<rparr>,
                \<lparr>eIndex = 2, eTerm = 2, eLog = Some 20\<rparr>, \<lparr>eIndex = 3, eTerm = 2, eLog = Some 30\<rparr>]\<rparr>"

definition example_follower :: "(nat, nat) Raft" where
  "example_follower =
     (Make 0 0 3 1 MakePersister)
       \<lparr>CurrentTerm := 2,
        Log := [\<lparr>eIndex = 0, eTerm = 0, eLog = None\<rparr>, \<lparr>eIndex = 1, eTerm = 1, eLog = Some 10\<rparr>,
                \<lparr>eIndex = 2, eTerm = 1, eLog = Some 11\<rparr>, \<lparr>eIndex = 3, eTerm = 1, eLog = Some 12\<rparr>,
                \<lparr>eIndex = 4, eTerm = 1, eLog = Some 13\<rparr>]\<rparr>"

section \<open>Peers and messages together\<close>

lemma SaveSnapshot_wf:
  assumes r: "SaveSnapshot rf index st = Inr rf'" and wf: "wf_log rf"
  shows "wf_log rf'"
proof (cases "snapIndex rf < index")
  case True
  with r have "index - snapIndex rf < int (length (Log rf))"
    by (auto simp: SaveSnapshot_def Let_def getLogByIndexUnLock_def bindG_eq_Inr_iff
        go_index_eq_Inr_iff)
  then have "index \<le> lastIndex rf" using wf_lastIndex [OF wf] by simp
  from SaveSnapshot_ok [OF wf True this, of st] r show ?thesis by auto
qed (use r wf in \<open>simp add: SaveSnapshot_def\<close>)

lemma fail_wf: "broadcastAppendEntries_fail rf i args reply nx = Inr (rf', retry) \<Longrightarrow> wf_log rf \<Longrightarrow> wf_log rf'"
  by (auto simp: broadcastAppendEntries_fail_def bindG_eq_Inr_iff wf_log_def split: if_splits)

lemma region_step_wf:
  assumes st: "region_step rf rf'" and d: "durable rf" and wf: "wf_log rf"
  shows "wf_log rf'"
  using st
proof cases
  case (ps_vote now rnd args)
  then show ?thesis using wf by (simp add: RequestVote_def Let_def wf_log_def)
next
  case (ps_elect now rnd)
  then show ?thesis using wf by (simp add: startOneElection_def wf_log_def)
next
  case (ps_refused vreply)
  then show ?thesis using wf by (simp add: startOneElection_refused_def wf_log_def)
next
  case (ps_granted v v' gs)
  then show ?thesis using wf
    by (auto simp: startOneElection_granted_def Let_def wf_log_def split: if_splits)
next
  case (ps_fail i args reply nx retry)
  then show ?thesis using fail_wf wf by blast
next
  case (ps_success i index n a n' a' gs)
  then show ?thesis using wf success_effect [OF ps_success] by (simp add: wf_log_def)
next
  case ps_apply
  then show ?thesis using wf raft_apply_frame [OF ps_apply] by (simp add: wf_log_def)
next
  case (ps_start now rf0 c)
  obtain rf1 index gs where s: "Start_append now rf c = (rf1, index, gs)" by (metis prod_cases3)
  then show ?thesis using wf wf_Start(1) [OF s wf] ps_start by (simp add: Start_def GetState_def)
next
  case (ps_heartbeat now rf0)
  then show ?thesis using wf by (simp add: broadcastHeartBeat_def Let_def wf_log_def)
next
  case (ps_snapshot index st)
  then show ?thesis using SaveSnapshot_wf wf by blast
next
  case ps_kill
  then show ?thesis using wf by (simp add: raft_Kill_def wf_log_def)
next
  case (ps_restart now rnd)
  then show ?thesis using wf_restart [OF d wf] by simp
qed

text \<open>
  Peers and the requests on the wire: a peer takes a region step, a leader's replication goroutine
  puts the request of one attempt on the wire, or a peer handles some request that was sent at some
  time. Requests are never removed, so they may be lost, delayed, reordered and duplicated.
\<close>

record ('c, 'd) net =
  nodes :: "nat \<Rightarrow> ('c, 'd) Raft"
  wire :: "('c, 'd) AppendEntriesArgs set"

definition init_net :: "nat \<Rightarrow> ('c, 'd) net" where
  "init_net n = \<lparr>nodes = (\<lambda>i. Make 0 0 n (int i) MakePersister), wire = {}\<rparr>"

inductive net_step :: "('c, 'd) net \<Rightarrow> ('c, 'd) net \<Rightarrow> bool" where
  net_region: "region_step (nodes s i) rf' \<Longrightarrow> net_step s (s\<lparr>nodes := (nodes s)(i := rf')\<rparr>)"
| net_late: "broadcastAppendEntries_fail (nodes s i) j args reply nx = Inr (rf', retry) \<Longrightarrow>
     net_step s (s\<lparr>nodes := (nodes s)(i := rf')\<rparr>)"
| net_send:
    "broadcastAppendEntries_attempt rfGetState (nodes s i) j index term commit = Inr (Some (nx, args))
     \<Longrightarrow> net_step s (s\<lparr>wire := insert args (wire s)\<rparr>)"
| net_deliver:
    "args \<in> wire s \<Longrightarrow> AppendEntries now rnd (nodes s i) args = Inr (rf', reply, gs) \<Longrightarrow>
     net_step s (s\<lparr>nodes := (nodes s)(i := rf')\<rparr>)"

inductive_cases net_stepE: "net_step s t"

definition net_inv :: "('c, 'd) net \<Rightarrow> bool" where
  "net_inv s \<longleftrightarrow> (\<forall>i. wf_log (nodes s i) \<and> durable (nodes s i)) \<and> (\<forall>a \<in> wire s. wf_args a)"

interpretation network: inductive_invariant "\<lambda>s. s = init_net n" net_step net_inv for n
proof
  fix s :: "('c, 'd) net" assume "s = init_net n"
  then show "net_inv s" by (simp add: net_inv_def init_net_def wf_Make_fresh durable_Make_fresh)
next
  fix s t :: "('c, 'd) net" assume inv: "net_inv s" and st: "net_step s t"
  from st show "net_inv t"
  proof (rule net_stepE)
    fix i rf' assume t: "t = s\<lparr>nodes := (nodes s)(i := rf')\<rparr>" and st: "region_step (nodes s i) rf'"
    show ?thesis using inv region_step_wf [OF st] region_step_effect [OF st]
      by (simp add: net_inv_def t)
  next
    fix i j args reply nx rf' retry
    assume t: "t = s\<lparr>nodes := (nodes s)(i := rf')\<rparr>" and f: "broadcastAppendEntries_fail (nodes s i) j args reply nx = Inr (rf', retry)"
    show ?thesis using inv fail_wf [OF f] fail_effect(3) [OF f] by (simp add: net_inv_def t)
  next
    fix rfGetState i j index nx args and "term" commit :: int
    assume "t = s\<lparr>wire := insert args (wire s)\<rparr>"
      "broadcastAppendEntries_attempt rfGetState (nodes s i) j index term commit = Inr (Some (nx, args))"
    then show ?thesis
      using inv prepare_wf_args [OF attempt_prepare [of rfGetState "nodes s i" j index "term" commit]]
      by (simp add: net_inv_def)
  next
    fix args now rnd i rf' reply gs
    assume *: "t = s\<lparr>nodes := (nodes s)(i := rf')\<rparr>" "args \<in> wire s"
      and r: "AppendEntries now rnd (nodes s i) args = Inr (rf', reply, gs)"
    have "wf_log rf'"
      using AppendEntries_ok [of "nodes s i" args now rnd] inv * r by (auto simp: net_inv_def)
    moreover have "durable rf'" using AppendEntries_durable [OF r] inv by (simp add: net_inv_def)
    ultimately show ?thesis using * inv by (auto simp: net_inv_def)
  qed
qed

text \<open>
  C8: Replication cannot crash a peer. In every state that peers and requests can reach from empty
  storage, with requests lost, delayed, reordered and duplicated and with crashes and restarts,
  every peer's log is contiguous from its snapshot on, and every peer handles every request that
  was ever sent without an index or slice out of range.
\<close>

theorem replication_never_panics:
  assumes "run_from net_step (init_net n) s"
  shows "wf_log (nodes s i) \<and>
    (\<forall>args \<in> wire s. \<exists>rf' reply gs. AppendEntries now rnd (nodes s i) args = Inr (rf', reply, gs))"
proof -
  have "net_inv s" using network.inv_run [OF refl assms] .
  then show ?thesis using AppendEntries_ok unfolding net_inv_def by blast
qed

definition example_net :: "(nat, nat) net" where
  "example_net =
     (let rf1 = startOneElection 0 0 (Make 0 0 2 0 MakePersister);
          rf2 = fst (startOneElection_granted rf1 1);
          rf3 = fst (Start 0 rf2 rf2 7)
      in (init_net 2)\<lparr>nodes := (\<lambda>i. Make 0 0 2 (int i) MakePersister)(0 := rf3),
            wire := {\<lparr>aeTerm = 1, LeaderId = 0, PrevLogIndex = 0, PrevLogTerm = 0,
                      Entries = [\<lparr>eIndex = 1, eTerm = 1, eLog = Some 7\<rparr>], LeaderCommit = 0,
                      LogSnapshot = \<lparr>sIndex = 0, sTerm = 0, Storage = []\<rparr>\<rparr>}\<rparr>)"

lemma example_net_reachable: "run_from net_step (init_net 2) example_net"
proof -
  let ?rf0 = "Make 0 0 2 0 MakePersister :: (nat, nat) Raft"
  let ?rf1 = "startOneElection 0 0 ?rf0" let ?rf2 = "fst (startOneElection_granted ?rf1 1)"
  let ?rf3 = "fst (Start 0 ?rf2 ?rf2 7)"
  let ?n = "\<lambda>rf. (init_net 2)\<lparr>nodes := (\<lambda>i. Make 0 0 2 (int i) MakePersister)(0 := rf)\<rparr>"
  have up: "run_from net_step (init_net 2) (?n rf')"
    if r: "run_from net_step (init_net 2) (?n rf)" and st: "region_step rf rf'" for rf rf'
  proof -
    have "net_step (?n rf) (?n rf')" using net_region [of "?n rf" 0 rf'] st by simp
    with r show ?thesis by (rule run_step)
  qed
  have n0: "run_from net_step (init_net 2) (?n ?rf0)"
    using run_refl [of net_step "init_net 2"] by (simp add: init_net_def fun_upd_idem)
  obtain v gs where g: "startOneElection_granted ?rf1 1 = (?rf2, v, gs)" by (metis prod.collapse)
  have n3: "run_from net_step (init_net 2) (?n ?rf3)"
    by (rule up [OF up [OF up [OF n0 ps_elect] ps_granted [OF g]] ps_start])
  have att: "broadcastAppendEntries_attempt ?rf3 ?rf3 1 1 1 0 =
      Inr (Some (1, \<lparr>aeTerm = 1, LeaderId = 0, PrevLogIndex = 0, PrevLogTerm = 0,
                      Entries = [\<lparr>eIndex = 1, eTerm = 1, eLog = Some 7\<rparr>], LeaderCommit = 0,
                      LogSnapshot = \<lparr>sIndex = 0, sTerm = 0, Storage = []\<rparr>\<rparr>))"
    by code_simp
  have "net_step (?n ?rf3) example_net"
    using net_send [of ?rf3 "?n ?rf3" 0 1 1 1 0] att
    by (simp add: example_net_def Let_def init_net_def)
  with n3 show ?thesis by (rule run_step)
qed

theorem replication_never_panics_witness:
  "\<exists>args \<in> wire example_net. \<exists>rf' reply gs.
     AppendEntries 0 0 (nodes example_net 1) args = Inr (rf', reply, gs)"
  using replication_never_panics [OF example_net_reachable, of 1 0 0]
  by (simp add: example_net_def Let_def)

lemma AppendEntries_receiver:
  assumes wf: "wf_log rf" and t: "CurrentTerm rf \<le> aeTerm args"
    and p: "sIndex (snapshot rf) \<le> PrevLogIndex args"
    and sn: "sIndex (LogSnapshot args) \<le> sIndex (snapshot rf)"
    and m: "matching (drop (prevPos rf args) (Log rf)) (Entries args)"
    and r: "AppendEntries now rnd rf args = Inr (rf', reply, gs)"
  shows "Success reply \<longleftrightarrow> PrevLogIndex args \<le> lastIndex rf \<and>
           eTerm (Log rf ! nat (PrevLogIndex args - snapIndex rf)) = PrevLogTerm args"
    and "Log rf' = (if Success reply
           then take (prevPos rf args) (Log rf) @
                paperRule (drop (prevPos rf args) (Log rf)) (Entries args)
           else Log rf)"
proof -
  let ?r1 = "stepDownTo now rnd (aeTerm args) rf"
  have e1: "Log ?r1 = Log rf" "snapshot ?r1 = snapshot rf" by (simp_all add: stepDownTo_effect)
  have last: "lastIndex ?r1 = lastIndex rf" by (simp add: getLastLogUnLock_cong [OF e1])
  have wf1: "wf_log ?r1" using wf by (simp add: stepDownTo_wf)
  have tr: "trimArgs ?r1 args = args" using p e1 by (simp add: trimArgs_def)
  have p1: "snapIndex ?r1 \<le> PrevLogIndex args" using p e1 by simp
  have c: "prevConsistent ?r1 args = Inr (PrevLogIndex args \<le> lastIndex rf \<and>
      eTerm (Log rf ! nat (PrevLogIndex args - snapIndex rf)) = PrevLogTerm args)"
    using prevConsistent_ok [OF wf1 p1] e1 last by simp
  from r have "(Success reply \<longleftrightarrow> PrevLogIndex args \<le> lastIndex rf \<and>
      eTerm (Log rf ! nat (PrevLogIndex args - snapIndex rf)) = PrevLogTerm args) \<and>
    Log rf' = (if Success reply then take (prevPos rf args) (Log rf) @
                paperRule (drop (prevPos rf args) (Log rf)) (Entries args) else Log rf)"
  proof (cases rule: AppendEntries_cases)
    case outdated
    with t show ?thesis by simp
  next
    case conflict
    then show ?thesis using c tr e1 conflictReply_fields by fastforce
  next
    case accepted
    then have acc: "acceptEntries now rnd ?r1 args = Inr (rf', reply, gs)"
      and ok: "PrevLogIndex args \<le> lastIndex rf"
        "eTerm (Log rf ! nat (PrevLogIndex args - snapIndex rf)) = PrevLogTerm args"
      using tr c by auto
    obtain rf3 gs' where
      acc': "acceptEntries now rnd ?r1 args =
        (let rf' = persist (resetElectionTimer now rnd (updateSnapshotUnLock rf3 (LogSnapshot args)))
         in Inr (rf', \<lparr>aerTerm = CurrentTerm rf', Success = True, ConflictIndex = 0,
                       ConflictTerm = 0\<rparr>, gs'))" and
      fc: "followCommit (?r1\<lparr>state := Follower,
             Log := mergeEntries (prevPos ?r1 args) (Log ?r1) (Entries args)\<rparr>)
           (LeaderCommit args) (PrevLogIndex args + int (length (Entries args))) = (rf3, gs')"
      by (rule acceptEntries_merge [OF wf1 p1]) (use ok last in simp)
    have f: "Log rf3 = mergeEntries (prevPos rf args) (Log rf) (Entries args)"
      "snapshot rf3 = snapshot rf" using followCommit_frame [OF fc] e1 by simp_all
    have "prevPos rf args \<le> length (Log rf)" using ok(1) wf_lastIndex [OF wf] by linarith
    from mergeEntries_paperRule [OF this m] acc acc' f sn acceptEntries_frame(6) [OF acc] ok
    show ?thesis by (auto simp: updateSnapshotUnLock_def Let_def)
  qed
  then show "Success reply \<longleftrightarrow> PrevLogIndex args \<le> lastIndex rf \<and>
           eTerm (Log rf ! nat (PrevLogIndex args - snapIndex rf)) = PrevLogTerm args"
    and "Log rf' = (if Success reply then take (prevPos rf args) (Log rf) @
                paperRule (drop (prevPos rf args) (Log rf)) (Entries args) else Log rf)" by auto
qed

text \<open>
  C9: The receiver rule. A request that is not of an older term than the receiver's, whose previous index is not
  below the receiver's snapshot and whose own snapshot is not ahead of it, and whose entries are the receiver's
  where index and term agree (which log matching gives), succeeds exactly when the receiver's log has an entry with the previous index and
  term; then the new log is the one the Raft paper prescribes (drop from the first conflicting
  entry on, append what is missing), and otherwise the log is unchanged.
\<close>

theorem AppendEntries_receiver_rule:
  assumes "wf_log rf" and "CurrentTerm rf \<le> aeTerm args"
    and "sIndex (snapshot rf) \<le> PrevLogIndex args"
    and "sIndex (LogSnapshot args) \<le> sIndex (snapshot rf)"
    and "matching (drop (prevPos rf args) (Log rf)) (Entries args)"
    and "AppendEntries now rnd rf args = Inr (rf', reply, gs)"
  shows "(Success reply \<longleftrightarrow> PrevLogIndex args \<le> eIndex (getLastLogUnLock rf) \<and>
           eTerm (Log rf ! nat (PrevLogIndex args - sIndex (snapshot rf))) = PrevLogTerm args) \<and>
         Log rf' = (if Success reply
           then take (prevPos rf args) (Log rf) @
                paperRule (drop (prevPos rf args) (Log rf)) (Entries args)
           else Log rf)"
  using AppendEntries_receiver [OF assms] by blast

definition example_args :: "(nat, nat) AppendEntriesArgs" where
  "example_args =
     \<lparr>aeTerm = 2, LeaderId = 0, PrevLogIndex = 1, PrevLogTerm = 1,
      Entries = [\<lparr>eIndex = 2, eTerm = 2, eLog = Some 20\<rparr>, \<lparr>eIndex = 3, eTerm = 2, eLog = Some 30\<rparr>],
      LeaderCommit = 0, LogSnapshot = \<lparr>sIndex = 0, sTerm = 0, Storage = []\<rparr>\<rparr>"

lemma example_peer_fields [simp]:
  "Log example_follower = [\<lparr>eIndex = 0, eTerm = 0, eLog = None\<rparr>,
     \<lparr>eIndex = 1, eTerm = 1, eLog = Some 10\<rparr>, \<lparr>eIndex = 2, eTerm = 1, eLog = Some 11\<rparr>,
     \<lparr>eIndex = 3, eTerm = 1, eLog = Some 12\<rparr>, \<lparr>eIndex = 4, eTerm = 1, eLog = Some 13\<rparr>]"
  "snapshot example_follower = \<lparr>sIndex = 0, sTerm = 0, Storage = []\<rparr>"
  "CurrentTerm example_follower = 2" "commitIndex example_follower = 0"
  "lastApplied example_follower = 0" "applyChan example_follower = []"
  "Log example_leader = [\<lparr>eIndex = 0, eTerm = 0, eLog = None\<rparr>,
     \<lparr>eIndex = 1, eTerm = 1, eLog = Some 10\<rparr>, \<lparr>eIndex = 2, eTerm = 2, eLog = Some 20\<rparr>,
     \<lparr>eIndex = 3, eTerm = 2, eLog = Some 30\<rparr>]"
  "snapshot example_leader = \<lparr>sIndex = 0, sTerm = 0, Storage = []\<rparr>"
  "CurrentTerm example_leader = 2" "state example_leader = Leader" "nextIndex example_leader = [4, 4, 4]"
  "commitIndex example_leader = 0" "lastApplied example_leader = 0" "applyChan example_leader = []"
  by (simp_all add: example_follower_def example_leader_def Make_def Let_def MakePersister_def
      ReadRaftState_def readPersist_def)

lemma example_wf: "wf_log example_follower" "wf_log example_leader"
  by (simp_all add: wf_log_def contiguous_Cons)

theorem AppendEntries_receiver_rule_witness:
  "\<exists>rf' reply gs. AppendEntries 0 0 example_follower example_args = Inr (rf', reply, gs) \<and>
     Success reply \<and> map eTerm (Log rf') = [0, 1, 2, 2]"
proof -
  have wa: "wf_args example_args" by (simp add: wf_args_def example_args_def contiguous_Cons)
  obtain rf' reply gs where r: "AppendEntries 0 0 example_follower example_args = Inr (rf', reply, gs)"
    using AppendEntries_ok [OF example_wf(1) wa] by blast
  have m: "matching (drop (prevPos example_follower example_args) (Log example_follower))
      (Entries example_args)"
    by (simp add: example_args_def matching_def All_less_Suc2 numeral_2_eq_2)
  note rule = AppendEntries_receiver_rule [OF example_wf(1) _ _ _ m r]
  have s: "Success reply" using rule by (simp add: example_args_def getLastLogUnLock_def)
  have l: "map eTerm (Log rf') = [0, 1, 2, 2]"
    using rule s by (simp add: example_args_def numeral_2_eq_2)
  show ?thesis by (intro exI conjI, rule r, rule s, rule l)
qed

lemma raft_apply_sends:
  assumes "wf_log rf" and "sIndex (snapshot rf) \<le> commitIndex rf"
    and "commitIndex rf \<le> eIndex (getLastLogUnLock rf)" and "lastApplied rf \<le> commitIndex rf"
  shows "\<exists>rf'. raft_apply rf = Inr rf' \<and> lastApplied rf' = commitIndex rf \<and>
    applyChan rf' = applyChan rf @
      (if lastApplied rf < sIndex (snapshot rf)
       then [\<lparr>CommandValid = False, Command = SnapshotIface (snapshot rf), CommandIndex = 0\<rparr>]
       else []) @
      applyMsgs rf (max (lastApplied rf) (sIndex (snapshot rf)) + 1)
        (nat (commitIndex rf - max (lastApplied rf) (sIndex (snapshot rf))))"
proof -
  let ?r1 = "applySnapshot rf" and ?la = "max (lastApplied rf) (snapIndex rf)"
  have wf1: "wf_log ?r1" using assms(1) by (simp add: wf_log_def)
  have last: "lastIndex ?r1 = lastIndex rf" by (simp add: getLastLogUnLock_cong [of ?r1 rf])
  have ch: "applyChan ?r1 = applyChan rf @
      (if lastApplied rf < snapIndex rf
       then [\<lparr>CommandValid = False, Command = SnapshotIface (snapshot rf), CommandIndex = 0\<rparr>]
       else [])" by (simp add: applySnapshot_def)
  have msgs: "applyMsgs ?r1 i n = applyMsgs rf i n" for i n by (simp add: applyMsgs_def)
  show ?thesis
  proof (cases "?la = commitIndex rf")
    case True
    then have "raft_apply rf = Inr ?r1" using assms(2) by (simp add: raft_apply_def)
    with True ch show ?thesis by (simp add: applyMsgs_def)
  next
    case False
    then have "raft_apply rf = applyLoop ?r1 (?la + 1) (commitIndex rf)"
      using assms(2) by (simp add: raft_apply_def Let_def)
    also have "\<dots> = Inr (?r1\<lparr>lastApplied := commitIndex rf,
        applyChan := applyChan ?r1 @ applyMsgs rf (?la + 1) (nat (commitIndex rf - ?la))\<rparr>)"
      using applyLoop_ok [OF wf1, of "?la + 1" "commitIndex rf"] False assms(2-4) last msgs by auto
    finally show ?thesis using ch by simp
  qed
qed

text \<open>
  Committed entries reach the service once each and in order: with the commit index inside
  the log, \<^verbatim>\<open>apply\<close> returns, sends the snapshot first if the service lags behind it, then exactly
  the entries from the first unapplied index up to the commit index, each with its own index, and
  ends with \<^verbatim>\<open>lastApplied\<close> equal to the commit index.
\<close>

lemma raft_apply_in_order:
  assumes "wf_log rf" and "sIndex (snapshot rf) \<le> commitIndex rf"
    and "commitIndex rf \<le> eIndex (getLastLogUnLock rf)" and "lastApplied rf \<le> commitIndex rf"
  shows "\<exists>rf'. raft_apply rf = Inr rf' \<and> lastApplied rf' = commitIndex rf \<and>
    applyChan rf' = applyChan rf @
      (if lastApplied rf < sIndex (snapshot rf)
       then [\<lparr>CommandValid = False, Command = SnapshotIface (snapshot rf), CommandIndex = 0\<rparr>]
       else []) @
      applyMsgs rf (max (lastApplied rf) (sIndex (snapshot rf)) + 1)
        (nat (commitIndex rf - max (lastApplied rf) (sIndex (snapshot rf))))"
  using assms by (rule raft_apply_sends)

lemma raft_apply_in_order_witness:
  "\<exists>rf'. raft_apply (example_leader\<lparr>commitIndex := 2\<rparr>) = Inr rf' \<and> lastApplied rf' = 2 \<and>
     map CommandIndex (applyChan rf') = [1, 2] \<and>
     map Command (applyChan rf') = [CommandIface 10, CommandIface 20]"
proof -
  let ?l = "example_leader\<lparr>commitIndex := 2\<rparr>"
  have "wf_log ?l" using example_wf(2) by (simp add: wf_log_def)
  from raft_apply_in_order [OF this] show ?thesis
    by (auto simp: applyMsgs_def getLastLogUnLock_def commandOf_def numeral_2_eq_2)
qed

text \<open>
  C27: The retry loop of the replication goroutine makes progress: when a request whose previous
  entry lies above both snapshots is refused by a follower that is not ahead in term, the backup
  computation returns without a panic and strictly lowers the next index.
\<close>

theorem retry_progress:
  assumes wl: "wf_log leader" and wf: "wf_log follower"
    and att: "broadcastAppendEntries_attempt rfGetState leader i index term commit = Inr (Some (nx, args))"
    and above: "sIndex (snapshot leader) < nx - 1" "sIndex (snapshot follower) \<le> nx - 1"
    and range: "nx - 1 \<le> eIndex (getLastLogUnLock leader)"
    and r: "AppendEntries now rnd follower args = Inr (follower', reply, gs)"
    and refused: "\<not> Success reply" "aerTerm reply = aeTerm args"
  shows "\<exists>n. getNextIndex leader reply nx = Inr n \<and> n < nx"
proof -
  from attempt_prepare [OF att] obtain prev es where
    prev: "getLogByIndexUnLock leader (nx - 1) = Inr prev" and
    args: "args = \<lparr>aeTerm = term, LeaderId = me leader, PrevLogIndex = nx - 1,
      PrevLogTerm = eTerm prev, Entries = es, LeaderCommit = commit, LogSnapshot = snapshot leader\<rparr>"
    by (rule prepare_cases)
  let ?r1 = "stepDownTo now rnd (aeTerm args) follower"
  have e1: "Log ?r1 = Log follower" "snapshot ?r1 = snapshot follower" by (simp_all add: stepDownTo_effect)
  have wf1: "wf_log ?r1" using wf by (simp add: stepDownTo_wf)
  have tr: "trimArgs ?r1 args = args" using above(2) e1 by (simp add: trimArgs_def args)
  have p1: "snapIndex ?r1 \<le> PrevLogIndex args" using above(2) e1 by (simp add: args)
  have pv: "prev = Log leader ! nat (nx - 1 - snapIndex leader)"
    using prev wf_getLog [OF wl, of "nx - 1"] above(1) range by simp
  from r show ?thesis
  proof (cases rule: AppendEntries_cases)
    case conflict
    let ?r2 = "resetElectionTimer now rnd ?r1"
    have wf2: "wf_log ?r2" using wf1 by (simp add: wf_log_def)
    have last2: "lastIndex ?r2 = lastIndex ?r1" by (simp add: getLastLogUnLock_cong [of ?r2 ?r1])
    have "conflictReply ?r2 args = Inr reply" using conflict tr by simp
    with conflictReply_ok [OF wf2, of args] p1
    have c': "ConflictIndex reply \<le> PrevLogIndex args"
      "ConflictTerm reply = 0 \<or> PrevLogIndex args \<le> lastIndex ?r1 \<and>
        ConflictTerm reply = eTerm (Log ?r1 ! nat (PrevLogIndex args - snapIndex ?r1))"
      by (auto simp: last2)
    have c: "ConflictIndex reply \<le> nx - 1" "ConflictTerm reply = 0 \<or> nx - 1 \<le> lastIndex ?r1 \<and>
        ConflictTerm reply = eTerm (Log ?r1 ! nat (nx - 1 - snapIndex ?r1))"
      using c' by (simp_all add: args)
    moreover have "prevConsistent ?r1 args = Inr False" using conflict tr by simp
    ultimately have "ConflictTerm reply = 0 \<or> eTerm prev \<noteq> ConflictTerm reply"
      using prevConsistent_ok [OF wf1 p1] by (auto simp: args)
    then show ?thesis using getNextIndex_decreases [OF wl c(1) range above(1)] pv by simp
  next
    case accepted
    show ?thesis using acceptEntries_frame(6) [OF accepted(3)] refused(1) by contradiction
  qed (use refused in auto)
qed

theorem retry_progress_witness:
  "\<exists>nx args rf' reply gs n.
     broadcastAppendEntries_attempt example_leader example_leader 1 3 2 0 = Inr (Some (nx, args)) \<and>
     AppendEntries 0 0 example_follower args = Inr (rf', reply, gs) \<and> \<not> Success reply \<and>
     getNextIndex example_leader reply nx = Inr n \<and> n < nx"
proof -
  define args :: "(nat, nat) AppendEntriesArgs" where
    "args = \<lparr>aeTerm = 2, LeaderId = me example_leader, PrevLogIndex = 3, PrevLogTerm = 2,
       Entries = [], LeaderCommit = 0, LogSnapshot = snapshot example_leader\<rparr>"
  have p: "broadcastAppendEntries_attempt example_leader example_leader 1 3 2 0 = Inr (Some (4, args))"
    by (simp add: broadcastAppendEntries_attempt_def GetState_def broadcastAppendEntries_prepare_def go_index_def getLogByIndexUnLock_def
        entriesToSend_def args_def)
  obtain rf' reply gs where r: "AppendEntries 0 0 example_follower args = Inr (rf', reply, gs)"
    using AppendEntries_ok [OF example_wf(1) prepare_wf_args [OF attempt_prepare [OF p] example_wf(2)]] by blast
  have "matching (drop (prevPos example_follower args) (Log example_follower)) (Entries args)"
    by (simp add: args_def matching_def)
  from AppendEntries_receiver(1) [OF example_wf(1) _ _ _ this r]
  have ns: "\<not> Success reply" by (simp add: args_def)
  have "aerTerm reply = aeTerm args"
    using AppendEntries_reply_term [OF r] r ns
    by (cases rule: AppendEntries_cases [OF r])
      (auto simp: args_def stepDownTo_effect acceptEntries_frame)
  from retry_progress [OF example_wf(2,1) p _ _ _ r ns this] p r ns show ?thesis
    by (auto simp: getLastLogUnLock_def)
qed

text \<open>
  C28: Taking a snapshot compacts the log and loses nothing: for an index inside the log,
  \<^verbatim>\<open>SaveSnapshot\<close> returns, keeps the last index and every entry from the snapshot index on, records
  the term of the entry at that index, keeps the log well-formed and has the service's data and
  the shortened log on stable storage.
\<close>

theorem SaveSnapshot_compacts:
  assumes "wf_log rf" and "sIndex (snapshot rf) < index" and "index \<le> eIndex (getLastLogUnLock rf)"
  shows "\<exists>rf'. SaveSnapshot rf index st = Inr rf' \<and> wf_log rf' \<and>
    eIndex (getLastLogUnLock rf') = eIndex (getLastLogUnLock rf) \<and>
    (\<forall>j \<ge> index. getLogByIndexUnLock rf' j = getLogByIndexUnLock rf j) \<and>
    mapG eTerm (getLogByIndexUnLock rf index) = Inr (sTerm (snapshot rf')) \<and>
    ReadSnapshot (Persister rf') = st \<and> ReadRaftState (Persister rf') = encodeState rf'"
proof -
  obtain rf' where r: "SaveSnapshot rf index st = Inr rf'" "wf_log rf'"
    and sn: "snapshot rf' = \<lparr>sIndex = index, sTerm = eTerm (Log rf ! nat (index - snapIndex rf)),
                     Storage = st\<rparr>"
    and l: "Log rf' = drop (nat (index - snapIndex rf)) (Log rf)"
    using SaveSnapshot_ok [OF assms] by metis
  have last: "lastIndex rf' = lastIndex rf"
    using wf_lastIndex [OF assms(1)] wf_lastIndex [OF r(2)] sn l assms(2,3) by simp
  have same: "getLogByIndexUnLock rf' j = getLogByIndexUnLock rf j" if "index \<le> j" for j
  proof -
    have "nat (j - snapIndex rf) = nat (index - snapIndex rf) + nat (j - index)"
      using that assms(2) by linarith
    then show ?thesis
      using that assms(2) sn l by (auto simp: getLogByIndexUnLock_def go_index_def Let_def)
  qed
  have "ReadSnapshot (Persister rf') = st \<and> ReadRaftState (Persister rf') = encodeState rf'"
    using r(1) assms(2) persister.state_save persister.snapshot_save
    by (auto simp: SaveSnapshot_def Let_def bindG_eq_Inr_iff persist_def encodeState_def)
  then show ?thesis using r last same wf_getLog [OF assms(1), of index] assms sn by auto
qed

theorem SaveSnapshot_compacts_witness:
  "\<exists>rf'. SaveSnapshot example_leader 2 [5] = Inr rf' \<and> wf_log rf' \<and>
     eIndex (getLastLogUnLock rf') = 3 \<and> sTerm (snapshot rf') = 2"
  using SaveSnapshot_compacts [OF example_wf(2), of 2 "[5]"]
  by (auto simp: getLastLogUnLock_def getLogByIndexUnLock_def go_index_def)

end
