(* ===== verification/Raft_Replication.thy ===== *)
theory Raft_Replication
  imports Raft_Spec Raft_Log
begin

text \<open>
  A cluster with the goroutines of elections and of replication. A \<open>broadcast\<close> is one call of
  \<^verbatim>\<open>broadcastAppendEntries\<close>: its arguments, the variables \<^verbatim>\<open>nReplica\<close> and \<^verbatim>\<open>isAgree\<close> that its goroutines share,
  and how far each of them has got. An event is one locked region or one message, executed on the regions of
  \<open>Raft_Core\<close>; requests and replies are delayed and lost in any way, and commands, heartbeats, kills and
  restarts happen at any time. A region that follows a call of \<^verbatim>\<open>GetState\<close> has the state that call saw as an
  argument. The goroutines that a counted success starts are such events too: a heartbeat and an application of
  committed entries.
\<close>

section \<open>Broadcasts\<close>

text \<open>
  A goroutine is at the label \<^verbatim>\<open>retry\<close>, has looked at the role (and seen a state), has sent its request, has got
  the reply, has found the reply up to date, has counted a success, or has returned.
\<close>

datatype ('c, 'd) replicator =
    AtRetry
  | Looked "('c, 'd) Raft"
  | Requested int "('c, 'd) AppendEntriesArgs"
  | Replied int "('c, 'd) AppendEntriesArgs" AppendEntriesReply
  | Fresh int "('c, 'd) AppendEntriesArgs" AppendEntriesReply
  | Replicated
  | Returned

datatype ('c, 'd) cast_phase = Called | SawRole "('c, 'd) Raft" | Running

record ('c, 'd) broadcast =
  b_leader :: nat
  b_index :: int
  b_term :: int
  b_commit :: int
  b_phase :: "('c, 'd) cast_phase"
  b_replicas :: int
  b_agree :: bool
  b_gos :: "('c, 'd) replicator list"

record ('c, 'd) system =
  base :: "('c, 'd) cluster"
  casts :: "('c, 'd) broadcast list"

definition init_system :: "nat \<Rightarrow> ('c, 'd) system" where
  "init_system n = \<lparr>base = init_cluster n, casts = []\<rparr>"

fun spawn :: "nat \<Rightarrow> goroutine list \<Rightarrow> ('c, 'd) broadcast list" where
  "spawn l [] = []"
| "spawn l (GoBroadcast index term commit k # gs) =
     \<lparr>b_leader = l, b_index = index, b_term = term, b_commit = commit, b_phase = Called, b_replicas = k,
      b_agree = False, b_gos = []\<rparr> # spawn l gs"
| "spawn l (_ # gs) = spawn l gs"

datatype ('c, 'd) system_event =
    Election "('c, 'd) action"
  | Propose nat int "('c, 'd) Raft" 'c
  | Beat nat int "('c, 'd) Raft"
  | Look nat
  | Begin nat
  | GLook nat nat
  | GSend nat nat
  | GDeliver nat nat int int
  | GDrop nat nat
  | GCheck nat nat
  | GHandle nat nat

abbreviation peer :: "('c, 'd) system \<Rightarrow> nat \<Rightarrow> ('c, 'd) Raft" where
  "peer s i \<equiv> srv (base s) ! i"

definition set_peer :: "nat \<Rightarrow> ('c, 'd) Raft \<Rightarrow> ('c, 'd) system \<Rightarrow> ('c, 'd) system" where
  "set_peer i rf s = s\<lparr>base := set_srv i rf (base s)\<rparr>"

definition set_cast :: "nat \<Rightarrow> ('c, 'd) broadcast \<Rightarrow> ('c, 'd) system \<Rightarrow> ('c, 'd) system" where
  "set_cast k b s = s\<lparr>casts := (casts s)[k := b]\<rparr>"

definition set_go :: "nat \<Rightarrow> nat \<Rightarrow> ('c, 'd) replicator \<Rightarrow> ('c, 'd) system \<Rightarrow> ('c, 'd) system" where
  "set_go k j g s = set_cast k ((casts s ! k)\<lparr>b_gos := (b_gos (casts s ! k))[j := g]\<rparr>) s"

definition has_go :: "('c, 'd) system \<Rightarrow> nat \<Rightarrow> nat \<Rightarrow> bool" where
  "has_go s k j \<longleftrightarrow> k < length (casts s) \<and> j < length (b_gos (casts s ! k))"

abbreviation go_of :: "('c, 'd) system \<Rightarrow> nat \<Rightarrow> nat \<Rightarrow> ('c, 'd) replicator" where
  "go_of s k j \<equiv> b_gos (casts s ! k) ! j"

text \<open>The goroutines that a broadcast starts after its two checks.\<close>

definition start_gos :: "('c, 'd) Raft \<Rightarrow> ('c, 'd) Raft \<Rightarrow> ('c, 'd) broadcast \<Rightarrow> ('c, 'd) replicator list" where
  "start_gos rfGetState rf b =
     map (\<lambda>i. if int i \<in> set (broadcastAppendEntries rfGetState rf (b_term b)) then AtRetry else Returned)
       [0..<peers rf]"

text \<open>The last region of a goroutine: a success, or a failure after which it may try again.\<close>

definition handle_append ::
  "nat \<Rightarrow> nat \<Rightarrow> int \<Rightarrow> ('c, 'd) AppendEntriesArgs \<Rightarrow> AppendEntriesReply \<Rightarrow> ('c, 'd) system \<Rightarrow> ('c, 'd) system option" where
  "handle_append k j nx args reply s =
     (let b = casts s ! k; l = b_leader b; rf = peer s l
      in if Success reply
         then map_option (\<lambda>(rf', r', a', gs).
                set_cast k (b\<lparr>b_replicas := r', b_agree := a', b_gos := (b_gos b)[j := Replicated]\<rparr>) (set_peer l rf' s))
                (ok (broadcastAppendEntries_success rf (int j) (b_index b) (b_replicas b) (b_agree b)))
         else map_option (\<lambda>(rf', retry). set_go k j (if retry then AtRetry else Returned) (set_peer l rf' s))
                (ok (broadcastAppendEntries_fail rf (int j) args reply nx)))"

fun run_event :: "('c, 'd) system \<Rightarrow> ('c, 'd) system_event \<Rightarrow> ('c, 'd) system option" where
  "run_event s (Election a) = map_option (\<lambda>b. s\<lparr>base := b\<rparr>) (act (base s) a)"
| "run_event s (Propose i now rf0 c) =
     (if i < length (srv (base s))
      then (let (rf', index, term, isLeader, gs) = Start now rf0 (peer s i) c
            in Some ((set_peer i rf' s)\<lparr>casts := casts s @ spawn i gs\<rparr>))
      else None)"
| "run_event s (Beat i now rf0) =
     (if i < length (srv (base s))
      then (let (rf', gs) = broadcastHeartBeat now rf0 (peer s i)
            in Some ((set_peer i rf' s)\<lparr>casts := casts s @ spawn i gs\<rparr>))
      else None)"
| "run_event s (Look k) =
     (if k < length (casts s) then
        (case b_phase (casts s ! k) of
           Called \<Rightarrow> Some (set_cast k ((casts s ! k)\<lparr>b_phase := SawRole (peer s (b_leader (casts s ! k)))\<rparr>) s)
         | _ \<Rightarrow> None)
      else None)"
| "run_event s (Begin k) =
     (if k < length (casts s) then
        (case b_phase (casts s ! k) of
           SawRole rf0 \<Rightarrow>
             (let b = casts s ! k
              in Some (set_cast k (b\<lparr>b_phase := Running, b_gos := start_gos rf0 (peer s (b_leader b)) b\<rparr>) s))
         | _ \<Rightarrow> None)
      else None)"
| "run_event s (GLook k j) =
     (if has_go s k j then
        (case go_of s k j of
           AtRetry \<Rightarrow> Some (set_go k j (Looked (peer s (b_leader (casts s ! k)))) s)
         | _ \<Rightarrow> None)
      else None)"
| "run_event s (GSend k j) =
     (if has_go s k j then
        (case go_of s k j of
           Looked rf0 \<Rightarrow>
             (let b = casts s ! k
              in map_option (\<lambda>r. set_go k j (case r of None \<Rightarrow> Returned | Some (nx, args) \<Rightarrow> Requested nx args) s)
                   (ok (broadcastAppendEntries_attempt rf0 (peer s (b_leader b)) (int j) (b_index b) (b_term b) (b_commit b))))
         | _ \<Rightarrow> None)
      else None)"
| "run_event s (GDeliver k j now rnd) =
     (if has_go s k j then
        (case go_of s k j of
           Requested nx args \<Rightarrow>
             map_option (\<lambda>(rf', reply, gs). set_go k j (Replied nx args reply) (set_peer j rf' s))
               (ok (AppendEntries now rnd (peer s j) args))
         | _ \<Rightarrow> None)
      else None)"
| "run_event s (GDrop k j) =
     (if has_go s k j then
        (case go_of s k j of
           Requested nx args \<Rightarrow> Some (set_go k j Returned s)
         | Replied nx args reply \<Rightarrow> Some (set_go k j Returned s)
         | _ \<Rightarrow> None)
      else None)"
| "run_event s (GCheck k j) =
     (if has_go s k j then
        (case go_of s k j of
           Replied nx args reply \<Rightarrow>
             Some (set_go k j (if broadcastAppendEntries_stale (peer s (b_leader (casts s ! k))) args then Returned
                               else Fresh nx args reply) s)
         | _ \<Rightarrow> None)
      else None)"
| "run_event s (GHandle k j) =
     (if has_go s k j then
        (case go_of s k j of
           Fresh nx args reply \<Rightarrow> handle_append k j nx args reply s
         | _ \<Rightarrow> None)
      else None)"

fun run_events :: "('c, 'd) system \<Rightarrow> ('c, 'd) system_event list \<Rightarrow> ('c, 'd) system option" where
  "run_events s [] = Some s"
| "run_events s (e # es) = (case run_event s e of None \<Rightarrow> None | Some t \<Rightarrow> run_events t es)"

text \<open>
  The schedules under which replication is safe: elections are calm, no snapshots are taken, a command is
  appended only if the server still is the leader that \<^verbatim>\<open>GetState\<close> saw in the region before, and when a reply
  of the receiver is handled the term check of the region before still holds. \<open>Raft_Races\<close> shows what
  happens otherwise.
\<close>

fun steady :: "('c, 'd) system \<Rightarrow> ('c, 'd) system_event \<Rightarrow> bool" where
  "steady s (Election a) = (calm (base s) a \<and>
     (case a of Local i r \<Rightarrow> (case r of RApply \<Rightarrow> True | RKill \<Rightarrow> True | RRestart now rnd \<Rightarrow> True | _ \<Rightarrow> False) | _ \<Rightarrow> True))"
| "steady s (Propose i now rf0 c) = (state rf0 = Leader \<longrightarrow> state (peer s i) = Leader)"
| "steady s (GHandle k j) =
     (case go_of s k j of
        Fresh nx args reply \<Rightarrow> \<not> broadcastAppendEntries_stale (peer s (b_leader (casts s ! k))) args
      | _ \<Rightarrow> True)"
| "steady s _ = True"

inductive steady_step :: "('c, 'd) system \<Rightarrow> ('c, 'd) system \<Rightarrow> bool" where
  steady_stepI: "steady s e \<Longrightarrow> run_event s e = Some t \<Longrightarrow> steady_step s t"

fun steady_events :: "('c, 'd) system \<Rightarrow> ('c, 'd) system_event list \<Rightarrow> bool" where
  "steady_events s [] = True"
| "steady_events s (e # es) = (steady s e \<and> (case run_event s e of None \<Rightarrow> False | Some t \<Rightarrow> steady_events t es))"

lemma steady_events_run: "steady_events s es \<Longrightarrow> run_events s es = Some t \<Longrightarrow> run_from steady_step s t"
proof (induction es arbitrary: s)
  case (Cons e es)
  then obtain u where u: "steady s e" "run_event s e = Some u" "steady_events u es" "run_events u es = Some t"
    by (auto split: option.splits)
  from steady_stepI [OF u(1,2)] have "run_from steady_step s u" by (rule run_from_single)
  then show ?case using Cons.IH [OF u(3,4)] by (rule run_from_trans)
qed (simp add: run_refl)

text \<open>Two schedules that follow each other.\<close>

definition steady_then ::
  "('c, 'd) system \<Rightarrow> ('c, 'd) system_event list \<Rightarrow> ('c, 'd) system_event list \<Rightarrow>
   (('c, 'd) system \<Rightarrow> ('c, 'd) system \<Rightarrow> bool) \<Rightarrow> bool" where
  "steady_then s0 es es' P =
     (steady_events s0 es \<and>
      (case run_events s0 es of
         None \<Rightarrow> False
       | Some s \<Rightarrow> steady_events s es' \<and> (case run_events s es' of None \<Rightarrow> False | Some s' \<Rightarrow> P s s')))"

lemma steady_thenE:
  assumes "steady_then s0 es es' P"
  obtains s s' where "run_events s0 es = Some s" "run_events s es' = Some s'"
    "run_from steady_step s0 s" "run_from steady_step s s'" "P s s'"
  using assms unfolding steady_then_def by (auto split: option.splits intro: steady_events_run)

end
