(* ===== verification/Raft_Races.thy ===== *)
theory Raft_Races
  imports Raft_Replication
begin

text \<open>
  Schedules outside the ones the safety theorems assume. Each lemma exhibits concrete states or a
  concrete run on which a locked region acts on something an earlier region has read, or on which a
  request that starts inside the leader's snapshot is misjudged; they show that the hypotheses of
  \<open>Raft_Election\<close>, \<open>Raft_Log\<close> and \<open>Raft_Safety\<close> are needed for this code.
\<close>

section \<open>Elections\<close>

text \<open>
  Server 0 starts the election of term 1, gets a vote of server 1, and times out before it has
  asked the others. The goroutine of the first election then asks server 2 with the term of the
  second one, and adds the answer to its own counter.
\<close>

definition stale_election :: "(nat, nat) action list" where
  "stale_election =
     [Elect 0 0 0, Send 0 1, Deliver 0 1 0 0, Check 0 1, Handle 0 1,
      Elect 0 0 0, Send 0 2, Deliver 0 2 0 0, Check 0 2, Handle 0 2,
      Elect 3 0 0, Elect 3 0 0, Send 3 0, Send 3 1, Deliver 3 1 0 0, Check 3 1, Handle 3 1,
      Send 3 2, Send 3 4, Deliver 3 4 0 0, Check 3 4, Handle 3 4]"

text \<open>
  Two leaders of one term. \<^verbatim>\<open>startOneElection\<close> builds its requests from the current term at the
  time each is sent, not from the term the election was started for, and counts every granted vote
  of that term in the counter of the old election. In a cluster of five, starting from empty
  storage, server 0 becomes leader of term 2 with two votes of that term (its own and one more),
  and server 3 becomes leader of term 2 as well.
\<close>

lemma stale_votes_elect_two_leaders:
  "\<exists>s. acts (init_cluster 5) stale_election = Some s \<and>
       leader_in_term s 0 2 \<and> leader_in_term s 3 2"
proof -
  have "case acts (init_cluster 5) stale_election of None \<Rightarrow> False
        | Some s \<Rightarrow> leader_in_term s 0 2 \<and> leader_in_term s 3 2"
    by code_simp
  then show ?thesis by (auto split: option.splits)
qed

section \<open>Regions that run between a check and its use\<close>

definition race_peer :: "int \<Rightarrow> (nat, nat) Raft" where
  "race_peer t = (Make 0 0 3 0 MakePersister)\<lparr>CurrentTerm := t, state := Leader\<rparr>"

definition race_vote :: "int \<Rightarrow> RequestVoteArgs" where
  "race_vote t = \<lparr>rvTerm = t, CandidateId = 1, LastLogIndex = 0, LastLogTerm = 0\<rparr>"

text \<open>
  A deposed leader's \<^verbatim>\<open>Start\<close> forges an entry of the new term. The role is read in one locked
  region and the entry appended in another: when a vote request of term 2 is handled in between,
  \<^verbatim>\<open>Start\<close> reports leadership of term 1 while the follower it runs on has appended an entry that
  carries term 2, whose leader never issued it.
\<close>

lemma Start_forges_entry:
  "let rf0 = race_peer 1; rf1 = fst (RequestVote 0 0 rf0 (race_vote 2));
       (rf2, index, term, isLeader, gs) = Start 0 rf0 rf1 7
   in isLeader \<and> term = 1 \<and> index = 1 \<and> state rf2 = Follower \<and> VotedFor rf2 = 1 \<and>
      last (Log rf2) = \<lparr>eIndex = 1, eTerm = 2, eLog = Some 7\<rparr>"
  by code_simp

text \<open>
  A late refusal turns the term back. The failure branch of \<^verbatim>\<open>broadcastAppendEntries\<close> compares
  the reply's term with the request's and not with the current one: when a vote request of term 5
  is granted between the check for an outdated reply and that branch, the peer goes back to term
  3, and forgets its vote of term 5 on stable storage.
\<close>

lemma refusal_lowers_term:
  "let rf0 = race_peer 1; rf1 = fst (RequestVote 0 0 rf0 (race_vote 5));
       args = \<lparr>aeTerm = 1, LeaderId = 0, PrevLogIndex = 0, PrevLogTerm = 0, Entries = [],
               LeaderCommit = 0, LogSnapshot = snapshot rf0\<rparr>;
       reply = \<lparr>aerTerm = 3, Success = False, ConflictIndex = 0, ConflictTerm = 0\<rparr>
   in \<not> broadcastAppendEntries_stale rf0 args \<and> CurrentTerm rf1 = 5 \<and> VotedFor rf1 = 1 \<and>
      (case broadcastAppendEntries_fail rf1 1 args reply 1 of
         Inl _ \<Rightarrow> False
       | Inr (rf2, retry) \<Rightarrow> CurrentTerm rf2 = 3 \<and> VotedFor rf2 = -1 \<and>
           CurrentTerm (Make 0 0 3 0 (Copy (Persister rf2))) = 3)"
  by code_simp

section \<open>Replies that are handled in a later term\<close>

text \<open>
  A schedule of three servers. Server 0 appends two commands in term 1 and server 2 another one in term 2, and
  neither is replicated. In term 3 server 0 leads again and server 1 acknowledges its log up to index 2; the
  reply passes the check for outdated ones, and its goroutine is delayed there. Server 2 leads in term 4 and
  overwrites the log of server 0, which then leads in term 5 and appends a command at index 2.
\<close>

definition race_role :: "(nat, nat) Raft" where
  "race_role = (Make 0 0 3 0 MakePersister)\<lparr>state := Leader\<rparr>"

text \<open>
  Servers 0 and 2 run for leader in turn: an election (number \<open>e\<close>) sends its requests in the order of the peers, the
  rival gets its request and steps down, and the vote of server 1 decides.
\<close>

definition race_election :: "nat \<Rightarrow> nat \<Rightarrow> nat \<Rightarrow> (nat, nat) system_event list" where
  "race_election e candidate rival = map Election
     ([Elect candidate 0 0] @ map (Send e) (if candidate = 0 then [1, 2] else [0, 1]) @
      [Deliver e rival 0 0, Deliver e 1 0 0, Check e 1, Handle e 1])"

definition race_attempt :: "nat \<Rightarrow> nat \<Rightarrow> (nat, nat) system_event list" where
  "race_attempt k j = [GLook k j, GSend k j, GDeliver k j 0 0, GCheck k j]"

definition before_late_success :: "(nat, nat) system_event list" where
  "before_late_success =
     race_election 0 0 2 @ [Propose 0 0 race_role 10, Propose 0 0 race_role 11] @
     race_election 1 2 0 @ [Propose 2 0 race_role 20] @
     race_election 2 0 2 @
     [Beat 0 0 race_role, Look 3, Begin 3] @ race_attempt 3 1 @ [GHandle 3 1] @ race_attempt 3 1 @
     race_election 3 2 0 @
     [Beat 2 0 race_role, Look 4, Begin 4] @ race_attempt 4 0 @ [GHandle 4 0] @ race_attempt 4 0 @
     race_election 4 0 2 @ [Propose 0 0 race_role 30]"

text \<open>Server 0 applies its log; then server 2 leads in term 6 and replicates a command of its own at index 2.\<close>

definition after_late_success :: "(nat, nat) system_event list" where
  "after_late_success =
     Election (Local 0 RApply) # race_election 5 2 0 @
     [Propose 2 0 race_role 40, Look 6, Begin 6] @ race_attempt 6 1 @ [GHandle 6 1] @ race_attempt 6 1 @
     [GHandle 6 1, Election (Local 2 RApply)]"

text \<open>
  A late success breaks state machine safety. The region of \<^verbatim>\<open>broadcastAppendEntries\<close> that counts a
  success takes the lock again after the check for an outdated reply and does not repeat it. There is a run of
  three servers, starting from empty storage and steady but for one reply handled that late, in which server 0
  commits at index 2 a command that no other server has, because it counts an acknowledgement of what its log
  held there two terms ago; another server then commits a different command at index 2, and the services of the
  two servers apply different commands.
\<close>

lemma late_success_breaks_safety:
  "\<exists>s s' t. steady_events (init_system 3) before_late_success \<and>
     run_events (init_system 3) before_late_success = Some s \<and>
     run_event s (GHandle 3 1) = Some s' \<and>
     steady_events s' after_late_success \<and> run_events s' after_late_success = Some t \<and>
     map Command (filter CommandValid (applyChan (peer t 0))) = [CommandIface 20, CommandIface 30] \<and>
     map Command (filter CommandValid (applyChan (peer t 2))) = [CommandIface 20, CommandIface 40]"
proof -
  have "case run_events (init_system 3) before_late_success of None \<Rightarrow> False
    | Some s \<Rightarrow> (case run_event s (GHandle 3 1) of None \<Rightarrow> False
        | Some s' \<Rightarrow> steady_events s' after_late_success \<and>
            (case run_events s' after_late_success of None \<Rightarrow> False
             | Some t \<Rightarrow>
                 map Command (filter CommandValid (applyChan (peer t 0))) = [CommandIface 20, CommandIface 30] \<and>
                 map Command (filter CommandValid (applyChan (peer t 2))) = [CommandIface 20, CommandIface 40]))"
    by code_simp
  moreover have "steady_events (init_system 3) before_late_success" by code_simp
  ultimately show ?thesis
    by (auto simp del: run_event.simps One_nat_def map_eq_Cons_conv split: option.splits)
qed

section \<open>Requests that start inside the leader's snapshot\<close>

definition entry :: "int \<times> int \<Rightarrow> nat LogEntry" where
  "entry = (\<lambda>(i, t). \<lparr>eIndex = i, eTerm = t, eLog = Some (nat i)\<rparr>)"

definition snapshotting_leader :: "int \<Rightarrow> int \<Rightarrow> (nat, nat) Raft" where
  "snapshotting_leader t next =
     (Make 0 0 3 0 MakePersister)
       \<lparr>CurrentTerm := 3, state := Leader, nextIndex := [9, next, 9],
        Log := map entry [(5, t), (6, t), (7, t), (8, t)],
        snapshot := \<lparr>sIndex = 5, sTerm = t, Storage = [5]\<rparr>,
        commitIndex := 5, lastApplied := 5\<rparr>"

definition lagging_follower :: "int list \<Rightarrow> (nat, nat) Raft" where
  "lagging_follower ts =
     (Make 0 0 3 1 MakePersister)
       \<lparr>CurrentTerm := 3,
        Log := map entry (zip [0, 1, 2, 3, 4, 5, 6, 7] (0 # ts))\<rparr>"

text \<open>
  Success without the entries. When \<^verbatim>\<open>nextIndex\<close> of a follower lies below the leader's snapshot,
  the request carries the log from the snapshot on, but its previous index stays below it. The
  follower compares the entries with its log at the wrong positions; with equal terms it finds
  nothing to copy and answers success, and the leader counts it as a replica up to index 8 although
  its log ends at index 6.
\<close>

lemma success_without_replication:
  "let leader = snapshotting_leader 1 3; follower = lagging_follower [1, 1, 1, 1, 1, 1]
   in wf_log leader \<and> wf_log follower \<and>
      (case broadcastAppendEntries_attempt leader leader 1 8 3 5 of
         Inr (Some (nx, args)) \<Rightarrow>
           (case AppendEntries 0 0 follower args of
              Inr (follower', reply, gs) \<Rightarrow>
                Success reply \<and> eIndex (getLastLogUnLock follower') = 6 \<and>
                (case broadcastAppendEntries_success leader 1 8 1 False of
                   Inr (leader', n, isAgree, gs') \<Rightarrow> matchIndex leader' ! 1 = 8
                 | Inl _ \<Rightarrow> False)
            | Inl _ \<Rightarrow> False)
       | _ \<Rightarrow> False)"
  by code_simp

text \<open>
  Retrying without progress. When the previous index of a refused request lies inside the
  leader's snapshot and the follower's conflicting entry has an older term than the snapshot,
  \<^verbatim>\<open>getNextIndex\<close> returns the index it was given: the goroutine sends the same request again and
  again. The bound above the snapshots in the progress theorem of \<open>Raft_Log\<close> is needed.
\<close>

lemma retry_without_progress:
  "let leader = snapshotting_leader 3 5; follower = lagging_follower [1, 1, 1, 2, 2, 2, 2]
   in wf_log leader \<and> wf_log follower \<and>
      (case broadcastAppendEntries_attempt leader leader 1 8 3 5 of
         Inr (Some (nx, args)) \<Rightarrow>
           (case AppendEntries 0 0 follower args of
              Inr (follower', reply, gs) \<Rightarrow>
                \<not> Success reply \<and> aerTerm reply = aeTerm args \<and> Log follower' = Log follower \<and>
                getNextIndex leader reply nx = Inr nx
            | Inl _ \<Rightarrow> False)
       | _ \<Rightarrow> False)"
  by code_simp

end
