(* ===== verification/Raft_Refinement.thy ===== *)
theory Raft_Refinement
  imports Raft_Replication
begin

text \<open>
  The peers of a cluster implement the specification of replicated logs. The relation \<open>sim\<close> ties a state of the
  cluster to a state of the specification: terms, logs, roles and votes are the same, requests on their way
  carry segments of leaders' logs, counted replies are acknowledgements, and commit indices and applied messages
  are covered by chosen positions. Every steady step of the cluster is matched by steps of the specification.
\<close>

section \<open>The relation to the specification\<close>

text \<open>An index up to which a server may apply its log.\<close>

definition commit_ok :: "nat \<Rightarrow> 'c spec \<Rightarrow> nat \<Rightarrow> int \<Rightarrow> bool" where
  "commit_ok n a i c \<longleftrightarrow> c \<le> 0 \<or>
     (\<exists>t k. chosen n a t k \<and> t \<le> sp_term a i \<and> c \<le> int k \<and> agree (nat c) (sp_log a i) (sp_lead a t))"

text \<open>An index that a leader of a term may announce.\<close>

definition announced :: "nat \<Rightarrow> 'c spec \<Rightarrow> int \<Rightarrow> int \<Rightarrow> bool" where
  "announced n a u c \<longleftrightarrow> c \<le> 0 \<or> (\<exists>t k. chosen n a t k \<and> t \<le> u \<and> c \<le> int k)"

definition applied_ok :: "nat \<Rightarrow> 'c spec \<Rightarrow> ('c, 'd) ApplyMsg \<Rightarrow> bool" where
  "applied_ok n a m \<longleftrightarrow> CommandValid m \<and> 0 < CommandIndex m \<and>
     (\<exists>t k. chosen n a t k \<and> CommandIndex m \<le> int k \<and> Command m = commandOf (sp_lead a t ! nat (CommandIndex m)))"

text \<open>The messages that a service acts on: commands and snapshots, and not the empty notes of \<^verbatim>\<open>persist\<close>.\<close>

definition for_service :: "('c, 'd) ApplyMsg \<Rightarrow> bool" where
  "for_service m \<longleftrightarrow> CommandValid m \<or> Command m \<noteq> NilIface"

abbreviation service_msgs :: "('c, 'd) Raft \<Rightarrow> ('c, 'd) ApplyMsg list" where
  "service_msgs rf \<equiv> filter for_service (applyChan rf)"

text \<open>The service has got the chosen commands from the first one up to the last index applied, in order.\<close>

definition service_ok :: "nat \<Rightarrow> 'c spec \<Rightarrow> ('c, 'd) Raft \<Rightarrow> bool" where
  "service_ok n a rf \<longleftrightarrow> 0 \<le> lastApplied rf \<and> list_all (applied_ok n a) (service_msgs rf) \<and>
     map CommandIndex (service_msgs rf) = map int [1..<Suc (nat (lastApplied rf))]"

definition peer_sim :: "nat \<Rightarrow> 'c spec \<Rightarrow> nat \<Rightarrow> ('c, 'd) Raft \<Rightarrow> bool" where
  "peer_sim n a i rf \<longleftrightarrow> wf_log rf \<and> sIndex (snapshot rf) = 0 \<and> sTerm (snapshot rf) = 0 \<and>
     CurrentTerm rf = sp_term a i \<and> Log rf = sp_log a i \<and> (state rf = Candidate \<longleftrightarrow> sp_cand a i) \<and>
     (state rf = Leader \<longrightarrow> sp_won a (CurrentTerm rf) = Some i) \<and>
     commit_ok n a i (commitIndex rf) \<and> commit_ok n a i (commitIndex (recovered rf)) \<and> service_ok n a rf"

text \<open>A vote request on its way describes the log of its candidate, as long as the candidate is one.\<close>

definition rpc_sim :: "'c spec \<Rightarrow> election \<Rightarrow> rpc \<Rightarrow> bool" where
  "rpc_sim a e r = (case r of
       Sent args \<Rightarrow> sp_cand a (cand e) \<and> sp_term a (cand e) = eterm e \<longrightarrow>
         LastLogIndex args = int (length (sp_log a (cand e))) - 1 \<and> LastLogTerm args = eTerm (last (sp_log a (cand e)))
     | _ \<Rightarrow> True)"

text \<open>The entries of a request are a segment of the leader's log, after the previous entry, that reaches the index of the broadcast.\<close>

definition segment :: "'c LogEntry list \<Rightarrow> ('c, 'd) AppendEntriesArgs \<Rightarrow> bool" where
  "segment m args \<longleftrightarrow>
     (let p = PrevLogIndex args; es = Entries args
      in if p < 0 then length es \<le> length m \<and> es = take (length es) m
         else nat p + length es < length m \<and> PrevLogTerm args = eTerm (m ! nat p) \<and>
              es = take (length es) (drop (Suc (nat p)) m))"

definition reaches :: "int \<Rightarrow> ('c, 'd) AppendEntriesArgs \<Rightarrow> bool" where
  "reaches index args \<longleftrightarrow>
     index \<le> (if PrevLogIndex args < 0 then max 0 (int (length (Entries args)) - 1)
              else PrevLogIndex args + int (length (Entries args)))"

definition args_ok :: "'c spec \<Rightarrow> ('c, 'd) broadcast \<Rightarrow> ('c, 'd) AppendEntriesArgs \<Rightarrow> bool" where
  "args_ok a b args \<longleftrightarrow> aeTerm args = b_term b \<and> LeaderCommit args = b_commit b \<and>
     sIndex (LogSnapshot args) = 0 \<and> segment (sp_lead a (b_term b)) args \<and> reaches (b_index b) args"

definition acked :: "'c spec \<Rightarrow> ('c, 'd) broadcast \<Rightarrow> nat \<Rightarrow> bool" where
  "acked a b j \<longleftrightarrow> (\<forall>k. int k \<le> b_index b \<longrightarrow> (j, b_term b, k) \<in> sp_acks a)"

definition go_ok :: "'c spec \<Rightarrow> ('c, 'd) broadcast \<Rightarrow> nat \<Rightarrow> ('c, 'd) replicator \<Rightarrow> bool" where
  "go_ok a b j g \<longleftrightarrow>
     (g \<noteq> Returned \<longrightarrow> sp_won a (b_term b) = Some (b_leader b) \<and> j \<noteq> b_leader b) \<and>
     (case g of
        Requested nx args \<Rightarrow> args_ok a b args
      | Replied nx args reply \<Rightarrow> args_ok a b args \<and> (Success reply \<longrightarrow> acked a b j)
      | Fresh nx args reply \<Rightarrow> args_ok a b args \<and> (Success reply \<longrightarrow> acked a b j)
      | Replicated \<Rightarrow> acked a b j
      | _ \<Rightarrow> True)"

definition replicated :: "('c, 'd) broadcast \<Rightarrow> nat set" where
  "replicated b = {j. j < length (b_gos b) \<and> b_gos b ! j = Replicated}"

definition cast_ok :: "nat \<Rightarrow> 'c spec \<Rightarrow> ('c, 'd) broadcast \<Rightarrow> bool" where
  "cast_ok n a b \<longleftrightarrow> b_leader b < n \<and> b_term b \<le> sp_term a (b_leader b) \<and> announced n a (b_term b) (b_commit b) \<and>
     b_replicas b = 1 + int (card (replicated b)) \<and>
     (case b_phase b of
        Called \<Rightarrow> b_gos b = []
      | SawRole rf0 \<Rightarrow> b_gos b = [] \<and>
          (state rf0 = Leader \<longrightarrow> b_term b \<le> CurrentTerm rf0 \<and> CurrentTerm rf0 \<le> sp_term a (b_leader b) \<and>
             sp_won a (CurrentTerm rf0) = Some (b_leader b))
      | Running \<Rightarrow> length (b_gos b) = n \<and> (\<forall>j<n. go_ok a b j (b_gos b ! j)))"

definition sim :: "nat \<Rightarrow> ('c, 'd) system \<Rightarrow> 'c spec \<Rightarrow> bool" where
  "sim n s a \<longleftrightarrow> cluster_inv n (base s) \<and> spec_inv n a \<and> votes (base s) = sp_votes a \<and>
     (\<forall>i<n. peer_sim n a i (peer s i)) \<and>
     (\<forall>e \<in> set (elections (base s)). \<forall>r \<in> set (rpcs e). rpc_sim a e r) \<and> (\<forall>b \<in> set (casts s). cast_ok n a b)"

section \<open>What growth of the specification keeps\<close>

lemma commit_ok_grown:
  assumes "commit_ok n a i c" "grown a a'" "sp_log a' i = sp_log a i @ xs"
  shows "commit_ok n a' i c"
proof (cases "c \<le> 0")
  case False
  with assms(1) obtain t k where c: "chosen n a t k" "t \<le> sp_term a i" "c \<le> int k"
    "agree (nat c) (sp_log a i) (sp_lead a t)" by (auto simp: commit_ok_def)
  have "known a t" using c(1) own_known by (auto simp: chosen_def)
  then have "agree (nat c) (sp_log a' i) (sp_lead a' t)"
    unfolding assms(3) by (intro agree_append_left agree_grown [OF c(4) assms(2)])
  moreover have "t \<le> sp_term a' i" using c(2) grownD(4) [OF assms(2), of i] by simp
  ultimately show ?thesis using chosen_grown [OF c(1) assms(2)] c(3) by (auto simp: commit_ok_def)
qed (simp add: commit_ok_def)

lemma announced_grown: "announced n a u c \<Longrightarrow> grown a a' \<Longrightarrow> announced n a' u c"
  unfolding announced_def by (metis chosen_grown)

lemma announced_later: "announced n a u c \<Longrightarrow> u \<le> u' \<Longrightarrow> announced n a u' c"
  by (force simp: announced_def)

lemma chosen_length: "chosen n a t k \<Longrightarrow> k < length (sp_lead a t)"
  by (simp add: chosen_def own_def)

lemma lead_nth_grown:
  assumes "grown a a'" "known a t" "k < length (sp_lead a t)"
  shows "sp_lead a' t ! k = sp_lead a t ! k"
  using grownD(3) [OF assms(1,2)] assms(3) by (auto simp: nth_append)

lemma applied_ok_grown:
  assumes "applied_ok n a m" "grown a a'"
  shows "applied_ok n a' m"
proof -
  obtain t k where c: "CommandValid m \<and> 0 < CommandIndex m" "chosen n a t k" "CommandIndex m \<le> int k"
    "Command m = commandOf (sp_lead a t ! nat (CommandIndex m))" using assms(1) by (auto simp: applied_ok_def)
  have "sp_lead a' t ! nat (CommandIndex m) = sp_lead a t ! nat (CommandIndex m)"
    using chosen_length [OF c(2)] c(2,3) by (intro lead_nth_grown [OF assms(2)]) (auto simp: chosen_def dest: own_known)
  with c chosen_grown [OF c(2) assms(2)] show ?thesis unfolding applied_ok_def by metis
qed

lemma service_ok_keep:
  assumes "service_ok n a rf" "grown a a'" "lastApplied rf' = lastApplied rf" "service_msgs rf' = service_msgs rf"
  shows "service_ok n a' rf'"
  using assms(1) unfolding service_ok_def assms(3,4)
  by (auto simp: list_all_iff intro: applied_ok_grown [OF _ assms(2)])

lemma service_ok_reset: "lastApplied rf = 0 \<Longrightarrow> service_msgs rf = [] \<Longrightarrow> service_ok n a rf"
  by (simp add: service_ok_def)

lemma peer_sim_grown:
  assumes "peer_sim n a i rf" "grown a a'" "sp_log a' i = sp_log a i" "sp_term a' i = sp_term a i" "sp_cand a' i = sp_cand a i"
  shows "peer_sim n a' i rf"
  using assms(1,3-5) grownD(1) [OF assms(2)]
  by (auto simp: peer_sim_def intro: commit_ok_grown [OF _ assms(2), where xs = "[]"] service_ok_keep [OF _ assms(2)])

lemma segment_append: "segment m args \<Longrightarrow> segment (m @ xs) args"
  by (auto simp: segment_def Let_def nth_append split: if_splits)

lemma go_ok_grown:
  assumes "go_ok a b j g" "grown a a'"
  shows "go_ok a' b j g"
proof -
  have "sp_won a' (b_term b) = Some (b_leader b)" if "sp_won a (b_term b) = Some (b_leader b)"
    using grownD(1) [OF assms(2) that] .
  moreover have "args_ok a' b args" if "args_ok a b args" "sp_won a (b_term b) = Some (b_leader b)" for args
    using that grownD(3) [OF assms(2), of "b_term b"] segment_append by (auto simp: args_ok_def known_def)
  moreover have "acked a' b j" if "acked a b j" using that grownD(6) [OF assms(2)] by (auto simp: acked_def)
  ultimately show ?thesis using assms(1) by (auto simp: go_ok_def split: replicator.splits)
qed

lemma cast_ok_grown:
  assumes "cast_ok n a b" "grown a a'"
  shows "cast_ok n a' b"
proof -
  have "sp_term a (b_leader b) \<le> sp_term a' (b_leader b)" by (rule grownD(4) [OF assms(2)])
  moreover have "announced n a' (b_term b) (b_commit b)" using assms announced_grown by (auto simp: cast_ok_def)
  ultimately show ?thesis using assms(1)
    by (auto simp: cast_ok_def intro: go_ok_grown [OF _ assms(2)] grownD(1) [OF assms(2)] split: cast_phase.splits)
qed

section \<open>Regions that the specification does not see\<close>

lemma recovered_persisted:
  "Persister rf' = Persister (persist rf) \<Longrightarrow> Log rf \<noteq> [] \<Longrightarrow> commitIndex (recovered rf') = commitIndex rf"
  by (simp add: recovered_def persister.restart_reads_last_save Make_recovers)

lemma recovered_same:
  "Persister rf' = Persister rf \<Longrightarrow> peers rf' = peers rf \<Longrightarrow> me rf' = me rf \<Longrightarrow> recovered rf' = recovered rf"
  by (simp add: recovered_def)

lemma service_persist [simp]: "service_msgs (persist rf) = service_msgs rf"
  by (simp add: persist_def Let_def send_apply_def for_service_def)

text \<open>
  A region that keeps the log and may only raise the term or give up a role; the commit index stays
  or is the one on stable storage.
\<close>

definition quiet :: "('c, 'd) Raft \<Rightarrow> ('c, 'd) Raft \<Rightarrow> bool" where
  "quiet rf rf' \<longleftrightarrow> Log rf' = Log rf \<and> snapshot rf' = snapshot rf \<and> CurrentTerm rf \<le> CurrentTerm rf' \<and>
     (state rf' = Candidate \<longrightarrow> state rf = Candidate \<and> CurrentTerm rf' = CurrentTerm rf) \<and> no_new_leader rf rf' \<and>
     commitIndex rf' \<in> {commitIndex rf, commitIndex (recovered rf)} \<and>
     commitIndex (recovered rf') \<in> {commitIndex rf, commitIndex (recovered rf)} \<and>
     (lastApplied rf' = lastApplied rf \<and> service_msgs rf' = service_msgs rf \<or> lastApplied rf' = 0 \<and> service_msgs rf' = [])"

lemma quiet_refl [simp]: "quiet rf rf"
  by (simp add: quiet_def)

lemma quiet_frame:
  assumes "Log rf' = Log rf" "snapshot rf' = snapshot rf" "CurrentTerm rf' = CurrentTerm rf" "state rf' = state rf"
    "commitIndex rf' = commitIndex rf" "Persister rf' = Persister rf" "peers rf' = peers rf" "me rf' = me rf"
    "lastApplied rf' = lastApplied rf" "service_msgs rf' = service_msgs rf"
  shows "quiet rf rf'"
  using assms recovered_same [of rf' rf] by (simp add: quiet_def no_new_leader_def)

text \<open>Moving to a later term as a follower.\<close>

lemma quiet_step_down:
  assumes "Log rf \<noteq> []" "CurrentTerm rf < t" "rf' = persist (rf\<lparr>CurrentTerm := t, VotedFor := v, state := Follower\<rparr>)"
  shows "quiet rf rf'"
proof -
  have "commitIndex (recovered rf') = commitIndex (rf\<lparr>CurrentTerm := t, VotedFor := v, state := Follower\<rparr>)"
    using assms by (intro recovered_persisted) simp_all
  then show ?thesis using assms by (simp add: quiet_def no_new_leader_def)
qed

lemma quiet_timer: "quiet rf rf' \<Longrightarrow> quiet rf (resetElectionTimer now rnd rf')"
  using recovered_same [of "resetElectionTimer now rnd rf'" rf'] by (simp add: quiet_def no_new_leader_def)

lemma quiet_stepDownTo:
  assumes "Log rf \<noteq> []"
  shows "quiet rf (stepDownTo now rnd t rf)"
proof (cases "CurrentTerm rf < t")
  case True
  let ?rf1 = "(resetElectionTimer now rnd (rf\<lparr>CurrentTerm := t\<rparr>))\<lparr>VotedFor := -1, state := Follower\<rparr>"
  have "stepDownTo now rnd t rf = persist ?rf1" using True by (simp add: stepDownTo_def)
  moreover have "commitIndex (recovered (persist ?rf1)) = commitIndex ?rf1"
    using assms by (intro recovered_persisted) simp_all
  ultimately show ?thesis using True by (simp add: quiet_def no_new_leader_def)
qed (simp add: stepDownTo_def)

lemma quiet_trans_persist:
  assumes "quiet rf rf1" "Log rf \<noteq> []" "rf' = persist rf2" "Log rf2 = Log rf1" "snapshot rf2 = snapshot rf1"
    "CurrentTerm rf2 = CurrentTerm rf1" "state rf2 = Follower" "commitIndex rf2 = commitIndex rf"
    "lastApplied rf2 = lastApplied rf1" "service_msgs rf2 = service_msgs rf1"
  shows "quiet rf rf'"
proof -
  have "commitIndex (recovered rf') = commitIndex rf2"
    using assms by (intro recovered_persisted) (auto simp: quiet_def)
  then show ?thesis using assms by (simp add: quiet_def no_new_leader_def)
qed

lemma quiet_RequestVote:
  assumes "Log rf \<noteq> []"
  shows "quiet rf (fst (RequestVote now rnd rf args))"
proof -
  define rf1 where "rf1 = (if CurrentTerm rf < rvTerm args
    then persist (rf\<lparr>CurrentTerm := rvTerm args, VotedFor := -1, state := Follower\<rparr>) else rf)"
  let ?rf2 = "persist ((resetElectionTimer now rnd (rf1\<lparr>VotedFor := CandidateId args\<rparr>))\<lparr>state := Follower\<rparr>)"
  have q: "quiet rf rf1" using quiet_step_down [OF assms] by (simp add: rf1_def)
  have c: "commitIndex rf1 = commitIndex rf" by (simp add: rf1_def)
  have "quiet rf ?rf2" by (rule quiet_trans_persist [OF q assms refl]) (simp_all add: c)
  moreover have "fst (RequestVote now rnd rf args) \<in> {rf, rf1, ?rf2}" by (simp add: RequestVote_def Let_def rf1_def)
  ultimately show ?thesis using q by auto
qed

lemma quiet_refused:
  assumes "Log rf \<noteq> []"
  shows "quiet rf (startOneElection_refused rf reply)"
  using quiet_step_down [OF assms] by (simp add: startOneElection_refused_def)

lemma quiet_fail:
  assumes "broadcastAppendEntries_fail rf i args reply nx = Inr (rf', retry)" "\<not> broadcastAppendEntries_stale rf args"
    and "Log rf \<noteq> []"
  shows "quiet rf rf'"
proof (cases "aeTerm args < aerTerm reply")
  case True
  then have "rf' = persist (rf\<lparr>CurrentTerm := aerTerm reply, VotedFor := -1, state := Follower\<rparr>)"
    using assms(1) by (simp add: broadcastAppendEntries_fail_def)
  moreover have "CurrentTerm rf < aerTerm reply" using True assms(2) by (simp add: broadcastAppendEntries_stale_def)
  ultimately show ?thesis using quiet_step_down [OF assms(3)] by blast
next
  case False
  then obtain ns where "rf' = rf\<lparr>nextIndex := ns\<rparr>"
    using assms(1) by (auto simp: broadcastAppendEntries_fail_def bindG_eq_Inr_iff)
  then show ?thesis by (intro quiet_frame) simp_all
qed

lemma quiet_markReplicated:
  assumes "markReplicated rf i index = Inr rf'"
  shows "quiet rf rf'"
proof -
  have "applyChan rf' = applyChan rf" using assms by (auto simp: markReplicated_def split: if_splits elim!: bindG_eq_InrE)
  then show ?thesis using markReplicated_frame [OF assms] by (intro quiet_frame) simp_all
qed

lemma readPersist_lastApplied:
  "lastApplied (readPersist rf data) = lastApplied rf \<or>
   lastApplied (readPersist rf data) = sIndex (snapshot (readPersist rf data))"
  by (auto simp: readPersist_def decodeState_def Let_def send_apply_def split: option.splits)

lemma readPersist_service:
  assumes "sIndex (snapshot (readPersist rf data)) = 0"
  shows "service_msgs (readPersist rf data) = service_msgs rf"
proof -
  have "applyChan (decodeState rf data) = applyChan rf"
    by (auto simp: decodeState_def Let_def split: option.splits)
  then show ?thesis using assms by (auto simp: readPersist_def Let_def send_apply_def split: if_splits)
qed

lemma Make_lastApplied:
  "lastApplied (Make now rnd n i ps) = 0 \<or> lastApplied (Make now rnd n i ps) = sIndex (snapshot (Make now rnd n i ps))"
  "sIndex (snapshot (Make now rnd n i ps)) = 0 \<Longrightarrow> service_msgs (Make now rnd n i ps) = []"
proof -
  have "\<exists>rf d. Make now rnd n i ps = readPersist rf d \<and> lastApplied rf = 0 \<and> applyChan rf = []"
    unfolding Make_def Let_def by (intro exI conjI, rule refl) simp_all
  then obtain rf d where m: "Make now rnd n i ps = readPersist rf d" "lastApplied rf = 0" "applyChan rf = []" by blast
  show "lastApplied (Make now rnd n i ps) = 0 \<or> lastApplied (Make now rnd n i ps) = sIndex (snapshot (Make now rnd n i ps))"
    using readPersist_lastApplied [of rf d] m by simp
  show "service_msgs (Make now rnd n i ps) = []" if "sIndex (snapshot (Make now rnd n i ps)) = 0" using m that by (simp add: readPersist_service)
qed

lemma quiet_restart:
  assumes "durable rf" "sIndex (snapshot rf) = 0"
  shows "quiet rf (Make now rnd (peers rf) (me rf) (Copy (Persister rf)))" (is "quiet rf ?rf'")
proof -
  have c: "Copy (Copy p) = Copy p" for p :: "('a gobval, 'b) Persister" by (simp add: Copy_def)
  have rec: "recovered ?rf' = recovered rf" by (simp add: recovered_def Make_frame c)
  have f: "Log ?rf' = Log rf" "snapshot ?rf' = snapshot rf" "CurrentTerm ?rf' = CurrentTerm rf"
    using assms(1) Make_timer_irrelevant [of now rnd "peers rf" "me rf" "Copy (Persister rf)" 0 0]
    by (simp_all add: durable_def recovered_def)
  have ci: "commitIndex ?rf' = commitIndex (recovered rf)"
    by (simp add: recovered_def Make_def Let_def readPersist_timer_irrelevant)
  have "lastApplied ?rf' = 0" "service_msgs ?rf' = []"
    using Make_lastApplied(1) [of now rnd "peers rf" "me rf" "Copy (Persister rf)"] f assms(2)
    by (auto intro: Make_lastApplied(2))
  then show ?thesis using f ci rec by (simp add: quiet_def Make_frame no_new_leader_def)
qed

section \<open>Matching steps\<close>

lemma simD:
  assumes "sim n s a"
  shows "cluster_inv n (base s)" "spec_inv n a" "votes (base s) = sp_votes a" "i < n \<Longrightarrow> peer_sim n a i (peer s i)"
    "e \<in> set (elections (base s)) \<Longrightarrow> r \<in> set (rpcs e) \<Longrightarrow> rpc_sim a e r" "b \<in> set (casts s) \<Longrightarrow> cast_ok n a b"
    "length (srv (base s)) = n"
  using assms by (auto simp: sim_def cluster_inv_def servers_ok_def)

lemma sim_server:
  assumes sim: "sim n s a" and st: "spec_step n a a'" and i: "i < n"
    and others: "\<And>j. j \<noteq> i \<Longrightarrow> sp_term a' j = sp_term a j \<and> sp_log a' j = sp_log a j \<and> sp_cand a' j = sp_cand a j"
    and ps: "peer_sim n a' i rf'" and inv: "cluster_inv n b'" and srv: "srv b' = (srv (base s))[i := rf']"
    and vt: "votes b' = sp_votes a'" and el: "\<forall>e \<in> set (elections b'). \<forall>r \<in> set (rpcs e). rpc_sim a' e r"
  shows "sim n (s\<lparr>base := b'\<rparr>) a'"
proof -
  have g: "grown a a'" by (rule spec_step_grown [OF simD(2) [OF sim] st])
  have "peer_sim n a' j (srv b' ! j)" if "j < n" for j
  proof (cases "j = i")
    case True
    then show ?thesis using ps srv i simD(7) [OF sim] by simp
  next
    case False
    then show ?thesis using peer_sim_grown [OF simD(4) [OF sim that] g] others [OF False] srv by simp
  qed
  moreover have "cast_ok n a' b" if "b \<in> set (casts s)" for b
    by (rule cast_ok_grown [OF simD(6) [OF sim that] g])
  moreover have "spec_inv n a'" by (rule logs.inv_step [OF simD(2) [OF sim] st])
  ultimately show ?thesis using inv vt el by (simp add: sim_def)
qed

text \<open>The vote requests of the new elections are among those of the old ones.\<close>

definition elections_from :: "election list \<Rightarrow> election list \<Rightarrow> bool" where
  "elections_from es es' \<longleftrightarrow> (\<forall>e \<in> set es'. \<forall>r \<in> set (rpcs e). (\<forall>args. r \<noteq> Sent args) \<or>
     (\<exists>e0 \<in> set es. cand e0 = cand e \<and> eterm e0 = eterm e \<and> r \<in> set (rpcs e0)))"

lemma elections_from_refl: "elections_from es es"
  by (auto simp: elections_from_def)

lemma rpcs_keep:
  assumes sim: "sim n s a" and ef: "elections_from (elections (base s)) es'"
    and c: "\<And>e. e \<in> set (elections (base s)) \<Longrightarrow> sp_cand a' (cand e) \<Longrightarrow> sp_term a' (cand e) = eterm e \<Longrightarrow>
      sp_cand a (cand e) \<and> sp_term a (cand e) = eterm e \<and> sp_log a' (cand e) = sp_log a (cand e)"
  shows "\<forall>e \<in> set es'. \<forall>r \<in> set (rpcs e). rpc_sim a' e r"
proof (intro ballI)
  fix e r assume e: "e \<in> set es'" "r \<in> set (rpcs e)"
  show "rpc_sim a' e r"
  proof (cases "\<exists>args. r = Sent args")
    case True
    then obtain e0 where e0: "e0 \<in> set (elections (base s))" "cand e0 = cand e" "eterm e0 = eterm e" "r \<in> set (rpcs e0)"
      using ef e by (auto simp: elections_from_def)
    have "rpc_sim a e0 r" by (rule simD(5) [OF sim e0(1,4)])
    then show ?thesis using True c [OF e0(1)] e0(2,3) by (auto simp: rpc_sim_def)
  next
    case False
    then show ?thesis by (auto simp: rpc_sim_def split: rpc.splits)
  qed
qed

lemma peer_sim_quiet:
  assumes ps: "peer_sim n a i rf" and q: "quiet rf rf'" and g: "grown a a'"
    and a': "sp_term a' i = CurrentTerm rf'" "sp_cand a' i \<longleftrightarrow> state rf' = Candidate" "sp_log a' i = sp_log a i"
  shows "peer_sim n a' i rf'"
proof -
  have c: "commit_ok n a' i (commitIndex rf')" "commit_ok n a' i (commitIndex (recovered rf'))"
    using ps q commit_ok_grown [OF _ g, where xs = "[]"] a'(3) by (auto simp: peer_sim_def quiet_def)
  have sv: "service_ok n a rf" using ps by (simp add: peer_sim_def)
  have m: "service_ok n a' rf'" using q service_ok_keep [OF sv g, where rf' = rf'] service_ok_reset [of rf'] by (auto simp: quiet_def)
  have "sp_won a' (CurrentTerm rf') = Some i" if "state rf' = Leader"
  proof -
    have "state rf = Leader" "CurrentTerm rf' = CurrentTerm rf" using q that by (auto simp: quiet_def no_new_leader_def)
    then show ?thesis using ps grownD(1) [OF g] by (auto simp: peer_sim_def)
  qed
  then show ?thesis using ps q c m a' by (auto simp: peer_sim_def quiet_def wf_log_def)
qed

lemma sim_quiet:
  assumes sim: "sim n s a" and i: "i < n" and q: "quiet (peer s i) rf'" and inv: "cluster_inv n b'"
    and srv: "srv b' = (srv (base s))[i := rf']" and vt: "votes b' = votes (base s)"
    and ef: "elections_from (elections (base s)) (elections b')"
  shows "\<exists>a'. spec_step n a a' \<and> sim n (s\<lparr>base := b'\<rparr>) a'"
proof -
  define a' where "a' = a\<lparr>sp_term := (sp_term a)(i := CurrentTerm rf'), sp_cand := (sp_cand a)(i := state rf' = Candidate)\<rparr>"
  note ps = simD(4) [OF sim i]
  have st: "spec_step n a a'" unfolding a'_def
    using ps q i by (intro spec_stay) (auto simp: peer_sim_def quiet_def)
  have g: "grown a a'" by (rule spec_step_grown [OF simD(2) [OF sim] st])
  have psim: "peer_sim n a' i rf'" by (rule peer_sim_quiet [OF ps q g]) (simp_all add: a'_def)
  have "sim n (s\<lparr>base := b'\<rparr>) a'"
  proof (rule sim_server [OF sim st i _ psim inv srv])
    show "sp_term a' j = sp_term a j \<and> sp_log a' j = sp_log a j \<and> sp_cand a' j = sp_cand a j" if "j \<noteq> i" for j
      using that by (simp add: a'_def)
    show "votes b' = sp_votes a'" using vt simD(3) [OF sim] by (simp add: a'_def)
    show "\<forall>e \<in> set (elections b'). \<forall>r \<in> set (rpcs e). rpc_sim a' e r"
      by (rule rpcs_keep [OF sim ef]) (use ps q in \<open>auto simp: a'_def peer_sim_def quiet_def split: if_splits\<close>)
  qed
  with st show ?thesis by blast
qed

lemma sim_elections:
  assumes "sim n s a" "cluster_inv n b'" "srv b' = srv (base s)" "votes b' = votes (base s)"
    "\<forall>e \<in> set (elections b'). \<forall>r \<in> set (rpcs e). rpc_sim a e r"
  shows "sim n (s\<lparr>base := b'\<rparr>) a"
  using assms by (simp add: sim_def)

lemma elections_from_set:
  assumes "k < length es" "\<forall>args. r \<noteq> Sent args" "set (rpcs e') \<subseteq> insert r (set (rpcs (es ! k)))"
    "cand e' = cand (es ! k)" "eterm e' = eterm (es ! k)"
  shows "elections_from es (es[k := e'])"
  unfolding elections_from_def
proof (intro ballI)
  fix e x assume e: "e \<in> set (es[k := e'])" "x \<in> set (rpcs e)"
  show "(\<forall>args. x \<noteq> Sent args) \<or> (\<exists>e0 \<in> set es. cand e0 = cand e \<and> eterm e0 = eterm e \<and> x \<in> set (rpcs e0))"
  proof (cases "e = e'")
    case True
    with e(2) assms show ?thesis by (metis insert_iff nth_mem subsetD)
  next
    case False
    then have "e \<in> set es" using e(1) set_update_subset_insert [of es k e'] by auto
    then show ?thesis using e(2) by blast
  qed
qed

lemma elections_from_set_rpc:
  assumes "has_rpc s k i" "\<forall>args. r \<noteq> Sent args"
  shows "elections_from (elections s) (elections (set_rpc k i r s))"
proof -
  let ?e = "elections s ! k"
  have "elections_from (elections s) ((elections s)[k := ?e\<lparr>rpcs := (rpcs ?e)[i := r]\<rparr>])"
    by (rule elections_from_set [where r = r]) (use assms set_update_subset_insert [of "rpcs ?e" i r] in \<open>simp_all add: has_rpc_def\<close>)
  then show ?thesis by (simp add: set_rpc_def)
qed

lemma election_term:
  assumes "sim n s a" "e \<in> set (elections (base s))"
  shows "cand e < n" "eterm e \<le> sp_term a (cand e)" "length (rpcs e) = n"
proof -
  have ok: "election_ok n (votes (base s)) e" using simD(1) [OF assms(1)] assms(2) by (simp add: cluster_inv_def)
  then show "cand e < n" "length (rpcs e) = n" by (simp_all add: election_ok_def)
  have "(cand e, eterm e, int (cand e)) \<in> sp_votes a" using ok simD(3) [OF assms(1)] by (simp add: election_ok_def)
  then show "eterm e \<le> sp_term a (cand e)" using spec_invD(1) [OF simD(2) [OF assms(1)]] by (auto simp: spec_votes_def)
qed

lemma sim_elect:
  assumes sim: "sim n s a" and act: "act (base s) (Elect c now rnd) = Some b'" and inv: "cluster_inv n b'"
  shows "\<exists>a'. spec_step n a a' \<and> sim n (s\<lparr>base := b'\<rparr>) a'"
proof -
  let ?rf = "peer s c"
  define rf' where "rf' = startOneElection now rnd ?rf"
  define a' where "a' = a\<lparr>sp_term := (sp_term a)(c := CurrentTerm rf'), sp_cand := (sp_cand a)(c := True),
       sp_votes := insert (c, CurrentTerm rf', int c) (sp_votes a)\<rparr>"
  from act have c: "c < n" using simD(7) [OF sim] by (auto split: if_splits)
  have me: "me ?rf = int c" using simD(1) [OF sim] c by (simp add: cluster_inv_def servers_ok_def)
  have b': "srv b' = (srv (base s))[c := rf']" "votes b' = insert (c, CurrentTerm rf', int c) (votes (base s))"
    "elections b' = elections (base s) @ [\<lparr>cand = c, eterm = CurrentTerm rf', count = 1, rpcs = replicate (peers rf') NotSent\<rparr>]"
    using act me by (auto simp: Let_def set_srv_def rf'_def startOneElection_effect split: if_splits)
  note ps = simD(4) [OF sim c]
  have ne: "Log ?rf \<noteq> []" using ps by (auto simp: peer_sim_def wf_log_def)
  have tm: "CurrentTerm rf' = sp_term a c + 1" using ps by (simp add: rf'_def startOneElection_effect peer_sim_def)
  have st: "spec_step n a a'" unfolding a'_def using c tm by (intro spec_campaign) simp_all
  have g: "grown a a'" by (rule spec_step_grown [OF simD(2) [OF sim] st])
  let ?x = "?rf\<lparr>state := Candidate, CurrentTerm := CurrentTerm ?rf + 1, VotedFor := me ?rf\<rparr>"
  have "commitIndex (recovered rf') = commitIndex ?x"
    using ne by (intro recovered_persisted) (simp_all add: rf'_def startOneElection_def)
  then have rc: "commitIndex (recovered rf') = commitIndex ?rf" by simp
  have fr: "commitIndex rf' = commitIndex ?rf" "lastApplied rf' = lastApplied ?rf" "service_msgs rf' = service_msgs ?rf"
    by (simp_all add: rf'_def startOneElection_def)
  have m: "service_ok n a' rf'" using ps service_ok_keep [OF _ g fr(2,3)] by (simp add: peer_sim_def)
  have psim: "peer_sim n a' c rf'"
    using ps rc fr m commit_ok_grown [OF _ g, where xs = "[]"]
    by (auto simp: peer_sim_def a'_def rf'_def startOneElection_effect wf_log_def)
  have "sim n (s\<lparr>base := b'\<rparr>) a'"
  proof (rule sim_server [OF sim st c _ psim inv b'(1)])
    show "sp_term a' j = sp_term a j \<and> sp_log a' j = sp_log a j \<and> sp_cand a' j = sp_cand a j" if "j \<noteq> c" for j
      using that by (simp add: a'_def)
    show "votes b' = sp_votes a'" using b'(2) simD(3) [OF sim] by (simp add: a'_def)
    have "elections_from (elections (base s)) (elections b')" by (auto simp: b'(3) elections_from_def)
    then show "\<forall>e \<in> set (elections b'). \<forall>r \<in> set (rpcs e). rpc_sim a' e r"
    proof (rule rpcs_keep [OF sim])
      fix e assume "e \<in> set (elections (base s))" "sp_cand a' (cand e)" "sp_term a' (cand e) = eterm e"
      then show "sp_cand a (cand e) \<and> sp_term a (cand e) = eterm e \<and> sp_log a' (cand e) = sp_log a (cand e)"
        using election_term(2) [OF sim] tm by (fastforce simp: a'_def split: if_splits)
    qed
  qed
  with st show ?thesis by blast
qed

lemma sim_send:
  assumes sim: "sim n s a" and act: "act (base s) (Send k i) = Some b'" and inv: "cluster_inv n b'"
  shows "sim n (s\<lparr>base := b'\<rparr>) a"
proof -
  let ?e = "elections (base s) ! k"
  let ?args = "startOneElection_args (peer s (cand ?e))"
  from act have has: "has_rpc (base s) k i" and b': "b' = set_rpc k i (Sent ?args) (base s)" by (auto split: if_splits)
  then have e: "?e \<in> set (elections (base s))" by (simp add: has_rpc_def)
  let ?l = "sp_log a (cand ?e)"
  have ps: "peer_sim n a (cand ?e) (peer s (cand ?e))" by (rule simD(4) [OF sim election_term(1) [OF sim e]])
  then have "LastLogIndex ?args = int (length ?l) - 1" "LastLogTerm ?args = eTerm (last ?l)"
    using wf_lastIndex [of "peer s (cand ?e)"]
    by (auto simp: startOneElection_args_def peer_sim_def getLastLogUnLock_def wf_log_def)
  then have new: "rpc_sim a ?e (Sent ?args)" by (simp add: rpc_sim_def)
  have "rpc_sim a e' r" if "e' \<in> set (elections b')" "r \<in> set (rpcs e')" for e' r
  proof (cases "e' \<in> set (elections (base s))")
    case True
    then show ?thesis using simD(5) [OF sim _ that(2)] by simp
  next
    case False
    then have e': "e' = ?e\<lparr>rpcs := (rpcs ?e)[i := Sent ?args]\<rparr>"
      using that(1) b' set_update_subset_insert [of "elections (base s)" k] by (auto simp: set_rpc_def)
    then have "r = Sent ?args \<or> r \<in> set (rpcs ?e)"
      using that(2) set_update_subset_insert [of "rpcs ?e" i] by auto
    then have "rpc_sim a ?e r" using new simD(5) [OF sim e] by auto
    then show ?thesis by (simp add: rpc_sim_def e' cong: rpc.case_cong)
  qed
  then show ?thesis by (intro sim_elections [OF sim inv]) (simp_all add: b' set_rpc_def)
qed

lemma peer_nonempty: "peer_sim n a i rf \<Longrightarrow> Log rf \<noteq> []"
  by (auto simp: peer_sim_def wf_log_def)

text \<open>A granted vote is a vote of the specification.\<close>

lemma sim_vote:
  assumes sim: "sim n s a" and has: "has_rpc (base s) k i" and r: "rpc_of (base s) k i = Sent args"
    and granted: "VoteGranted (snd (RequestVote now rnd (peer s i) args))"
    and inv: "cluster_inv n b'" and srv: "srv b' = (srv (base s))[i := fst (RequestVote now rnd (peer s i) args)]"
    and vt: "votes b' = insert (i, rvTerm args, CandidateId args) (votes (base s))"
    and ef: "elections_from (elections (base s)) (elections b')"
  shows "\<exists>a'. spec_step n a a' \<and> sim n (s\<lparr>base := b'\<rparr>) a'"
proof -
  let ?e = "elections (base s) ! k" and ?rf = "peer s i"
  let ?rf' = "fst (RequestVote now rnd ?rf args)" and ?c = "cand ?e" and ?t = "rvTerm args"
  have e: "?e \<in> set (elections (base s))" using has by (simp add: has_rpc_def)
  note et = election_term [OF sim e]
  have i: "i < n" "i \<noteq> ?c" using has et by (auto simp: has_rpc_def)
  have "election_ok n (votes (base s)) ?e" using simD(1) [OF sim] e by (simp add: cluster_inv_def)
  then have "rpc_ok (votes (base s)) ?c (eterm ?e) i (Sent args)" using i(1) by (simp add: election_ok_def flip: r)
  then have ag: "?t = eterm ?e" "CandidateId args = int ?c" by (simp_all add: rpc_ok_def)
  note ps = simD(4) [OF sim i(1)]
  note rv = RequestVote_granted [OF granted]
  define a' where "a' = a\<lparr>sp_term := (sp_term a)(i := ?t), sp_cand := (sp_cand a)(i := False),
    sp_votes := insert (i, ?t, int ?c) (sp_votes a)\<rparr>"
  have fol: "state ?rf' = Follower" using granted by (auto simp: RequestVote_def Let_def split: if_splits)
  have st: "spec_step n a a'" unfolding a'_def
  proof (rule spec_vote [OF i(1) et(1) i(2)])
    show "sp_term a i \<le> ?t" using rv(5) ps by (simp add: peer_sim_def)
    show "?t \<le> sp_term a ?c" using et(2) ag(1) by simp
    have "votes_ok (srv (base s)) (votes (base s))" using simD(1) [OF sim] by (simp add: cluster_inv_def)
    then have "t \<le> CurrentTerm ?rf \<and> d \<noteq> -1 \<and> (t = CurrentTerm ?rf \<longrightarrow> VotedFor ?rf = d)" if "(i, t, d) \<in> sp_votes a" for t d
      using that simD(3) [OF sim] by (auto simp: votes_ok_def)
    then show "\<forall>d. (i, ?t, d) \<in> sp_votes a \<longrightarrow> d = int ?c" using rv(5,6) ag(2) by force
    show "sp_cand a ?c \<and> sp_term a ?c = ?t \<longrightarrow> up_to_date (sp_log a i) (sp_log a ?c)"
    proof
      assume "sp_cand a ?c \<and> sp_term a ?c = ?t"
      moreover have "rpc_sim a ?e (Sent args)" using simD(5) [OF sim e, of "Sent args"] r has by (metis has_rpc_def nth_mem)
      ultimately have "LastLogIndex args = int (length (sp_log a ?c)) - 1" "LastLogTerm args = eTerm (last (sp_log a ?c))"
        using ag(1) by (simp_all add: rpc_sim_def)
      then show "up_to_date (sp_log a i) (sp_log a ?c)" using rv(4) ps wf_lastIndex [of ?rf] peer_nonempty [OF ps]
        by (auto simp: upToDate_def up_to_date_def Let_def peer_sim_def getLastLogUnLock_def)
    qed
  qed
  have g: "grown a a'" by (rule spec_step_grown [OF simD(2) [OF sim] st])
  have psim: "peer_sim n a' i ?rf'"
    by (rule peer_sim_quiet [OF ps quiet_RequestVote [OF peer_nonempty [OF ps]] g]) (simp_all add: a'_def rv(1) fol)
  have "sim n (s\<lparr>base := b'\<rparr>) a'"
  proof (rule sim_server [OF sim st i(1) _ psim inv srv])
    show "sp_term a' j = sp_term a j \<and> sp_log a' j = sp_log a j \<and> sp_cand a' j = sp_cand a j" if "j \<noteq> i" for j
      using that by (simp add: a'_def)
    show "votes b' = sp_votes a'" using vt simD(3) [OF sim] ag(2) by (simp add: a'_def)
    show "\<forall>e \<in> set (elections b'). \<forall>r \<in> set (rpcs e). rpc_sim a' e r"
      by (rule rpcs_keep [OF sim ef]) (auto simp: a'_def split: if_splits)
  qed
  with st show ?thesis by blast
qed

lemma sim_deliver:
  assumes sim: "sim n s a" and act: "act (base s) (Deliver k i now rnd) = Some b'" and inv: "cluster_inv n b'"
  shows "\<exists>a'. spec_step n a a' \<and> sim n (s\<lparr>base := b'\<rparr>) a'"
proof -
  from act have has: "has_rpc (base s) k i" by (auto split: if_splits)
  with act obtain args where r: "rpc_of (base s) k i = Sent args" by (auto split: rpc.splits)
  let ?rv = "RequestVote now rnd (peer s i) args"
  have b': "srv b' = (srv (base s))[i := fst ?rv]" "elections b' = elections (set_rpc k i (Answered args (snd ?rv)) (base s))"
    "votes b' = (if VoteGranted (snd ?rv) then insert (i, rvTerm args, CandidateId args) (votes (base s)) else votes (base s))"
    using act has r by (auto simp: Let_def set_rpc_def set_srv_def split: prod.splits)
  have ef: "elections_from (elections (base s)) (elections b')"
    unfolding b'(2) by (rule elections_from_set_rpc [OF has]) simp
  have i: "i < n" using has election_term(3) [OF sim, of "elections (base s) ! k"] by (simp add: has_rpc_def)
  show ?thesis
  proof (cases "VoteGranted (snd ?rv)")
    case True
    then show ?thesis using sim_vote [OF sim has r True inv b'(1) _ ef] b'(3) by simp
  next
    case False
    then show ?thesis
      using sim_quiet [OF sim i quiet_RequestVote [OF peer_nonempty [OF simD(4) [OF sim i]]] inv b'(1) _ ef] b'(3) by simp
  qed
qed

text \<open>Winning an election.\<close>

lemma sim_win:
  assumes sim: "sim n s a" and c: "c < n" and won: "startOneElection_granted (peer s c) v = (rf', v', gs)" "state rf' = Leader"
    "state (peer s c) \<noteq> Leader"
    and inv: "cluster_inv n b'" and srv: "srv b' = (srv (base s))[c := rf']" and vt: "votes b' = votes (base s)"
    and ef: "elections_from (elections (base s)) (elections b')"
  shows "\<exists>a'. spec_step n a a' \<and> sim n (s\<lparr>base := b'\<rparr>) a'"
proof -
  let ?rf = "peer s c"
  note ps = simD(4) [OF sim c]
  let ?t = "sp_term a c"
  define x where "x = ?rf\<lparr>nextIndex := replicate (peers ?rf) (int (length (Log ?rf)) + sIndex (snapshot ?rf)),
      matchIndex := replicate (peers ?rf) (sIndex (snapshot ?rf)), leaderId := me ?rf, state := Leader\<rparr>"
  have rf': "rf' = persist x" "state ?rf = Candidate"
    using won by (auto simp: startOneElection_granted_def Let_def x_def split: if_splits)
  have cnd: "sp_cand a c" using ps rf'(2) by (simp add: peer_sim_def)
  have tm: "CurrentTerm rf' = ?t" using ps by (simp add: rf'(1) x_def peer_sim_def)
  have len: "length (srv (base s)) = n" by (rule simD(7) [OF sim])
  have q: "vote_quorum n (voters (sp_votes a) ?t (int c))"
  proof -
    have "srv b' ! c = rf'" using srv c len by simp
    then have "vote_quorum n (voters (votes b') (CurrentTerm rf') (int c))"
      using inv won(2) c srv len by (auto simp: cluster_inv_def leaders_ok_def)
    then show ?thesis using vt simD(3) [OF sim] tm by simp
  qed
  define a' where "a' = a\<lparr>sp_cand := (sp_cand a)(c := False), sp_won := (sp_won a)(?t \<mapsto> c),
       sp_lead := (sp_lead a)(?t := sp_log a c)\<rparr>"
  have st: "spec_step n a a'" unfolding a'_def by (rule spec_win [OF c cnd refl q])
  have g: "grown a a'" by (rule spec_step_grown [OF simD(2) [OF sim] st])
  have "commitIndex (recovered rf') = commitIndex x"
    using peer_nonempty [OF ps] by (intro recovered_persisted) (simp_all add: rf'(1) x_def)
  then have rc: "commitIndex (recovered rf') = commitIndex ?rf" "commitIndex rf' = commitIndex ?rf"
    by (simp_all add: rf'(1) x_def)
  have m: "service_ok n a' rf'" using ps service_ok_keep [OF _ g, where rf = ?rf and rf' = rf'] by (simp add: peer_sim_def rf'(1) x_def)
  have psim: "peer_sim n a' c rf'"
    using ps rc m commit_ok_grown [OF _ g, where xs = "[]"] by (auto simp: peer_sim_def a'_def rf'(1) x_def wf_log_def)
  have "sim n (s\<lparr>base := b'\<rparr>) a'"
  proof (rule sim_server [OF sim st c _ psim inv srv])
    show "sp_term a' j = sp_term a j \<and> sp_log a' j = sp_log a j \<and> sp_cand a' j = sp_cand a j" if "j \<noteq> c" for j
      using that by (simp add: a'_def)
    show "votes b' = sp_votes a'" using vt simD(3) [OF sim] by (simp add: a'_def)
    show "\<forall>e \<in> set (elections b'). \<forall>r \<in> set (rpcs e). rpc_sim a' e r"
      by (rule rpcs_keep [OF sim ef]) (auto simp: a'_def split: if_splits)
  qed
  with st show ?thesis by blast
qed

lemma sim_handle:
  assumes sim: "sim n s a" and act: "act (base s) (Handle k i) = Some b'" and inv: "cluster_inv n b'"
  shows "\<exists>a'. spec_step n a a' \<and> sim n (s\<lparr>base := b'\<rparr>) a'"
proof -
  from act have has: "has_rpc (base s) k i" by (auto split: if_splits)
  with act obtain args reply where b: "b' = handle_reply k i reply (base s)" by (auto split: rpc.splits)
  let ?e = "elections (base s) ! k"
  have k: "k < length (elections (base s))" using has by (simp add: has_rpc_def)
  have c: "cand ?e < n" using election_term(1) [OF sim nth_mem [OF k]] .
  note ps = simD(4) [OF sim c]
  show ?thesis
  proof (cases "VoteGranted reply")
    case False
    then have b': "srv b' = (srv (base s))[cand ?e := startOneElection_refused (peer s (cand ?e)) reply]"
      "votes b' = votes (base s)" "elections b' = elections (set_rpc k i Dropped (base s))"
      by (simp_all add: b handle_reply_def Let_def set_rpc_def set_srv_def)
    have "elections_from (elections (base s)) (elections b')"
      unfolding b'(3) by (rule elections_from_set_rpc [OF has]) simp
    then show ?thesis using sim_quiet [OF sim c quiet_refused [OF peer_nonempty [OF ps]] inv b'(1,2)] by blast
  next
    case True
    obtain rf' v' gs where g: "startOneElection_granted (peer s (cand ?e)) (count ?e) = (rf', v', gs)" by (metis prod_cases3)
    have b': "srv b' = (srv (base s))[cand ?e := rf']" "votes b' = votes (base s)"
      "elections b' = (elections (base s))[k := ?e\<lparr>rpcs := (rpcs ?e)[i := Counted], count := v'\<rparr>]"
      using True g k by (simp_all add: b handle_reply_def Let_def set_rpc_def set_srv_def)
    have ef: "elections_from (elections (base s)) (elections b')"
      unfolding b'(3) by (rule elections_from_set [OF k, where r = Counted])
        (use set_update_subset_insert [of "rpcs ?e" i Counted] in simp_all)
    show ?thesis
    proof (cases "rf' = peer s (cand ?e)")
      case True
      then show ?thesis using sim_quiet [OF sim c _ inv b'(1,2) ef] by simp
    next
      case False
      then have "state rf' = Leader" "state (peer s (cand ?e)) \<noteq> Leader"
        using g by (auto simp: startOneElection_granted_def Let_def split: if_splits)
      from sim_win [OF sim c g this inv b'(1,2) ef] show ?thesis .
    qed
  qed
qed

section \<open>Applying\<close>

lemma applyMsgs_ok:
  fixes rf :: "('c, 'd) Raft"
  assumes ps: "peer_sim n a i rf" and f: "0 < from" "from + int m \<le> commitIndex rf + 1"
  shows "list_all (applied_ok n a) (applyMsgs rf from m)"
proof (cases "commitIndex rf \<le> 0")
  case True
  then show ?thesis using f by (simp add: applyMsgs_def)
next
  case False
  then obtain t k where c: "chosen n a t k" "commitIndex rf \<le> int k" "agree (nat (commitIndex rf)) (sp_log a i) (sp_lead a t)"
    using ps by (auto simp: peer_sim_def commit_ok_def)
  have "applied_ok n a (\<lparr>CommandValid = True, Command = commandOf (Log rf ! nat (from + int j - snapIndex rf)),
      CommandIndex = from + int j\<rparr> :: ('c, 'd) ApplyMsg)" if "j < m" for j
  proof -
    have "Log rf ! nat (from + int j) = sp_lead a t ! nat (from + int j)"
      using agree_nth [OF c(3), of "nat (from + int j)"] f that ps by (simp add: peer_sim_def nat_le_eq_zle)
    then show ?thesis using c(1,2) f that ps by (auto simp: applied_ok_def peer_sim_def intro!: exI [of _ t] exI [of _ k])
  qed
  then show ?thesis by (simp add: applyMsgs_def list_all_iff)
qed

lemma commit_in_log:
  assumes "peer_sim n a i rf"
  shows "commitIndex rf \<le> 0 \<or> commitIndex rf \<le> lastIndex rf"
  using assms wf_lastIndex [of rf] by (auto simp: peer_sim_def commit_ok_def agree_def)

lemma peer_sim_apply:
  assumes ps: "peer_sim n a i rf" and r: "raft_apply rf = Inr rf'"
  shows "peer_sim n a i rf'"
proof -
  have snap: "sIndex (snapshot rf) = 0" "0 \<le> lastApplied rf" "wf_log rf" using ps by (auto simp: peer_sim_def service_ok_def)
  then have "applySnapshot rf = rf" by (simp add: applySnapshot_def)
  with r have r': "rf' = rf \<or> 0 \<le> commitIndex rf \<and> applyLoop rf (lastApplied rf + 1) (commitIndex rf) = Inr rf'"
    by (auto simp: raft_apply_def Let_def snap split: if_splits)
  have "rf' = rf \<or> rf' = rf\<lparr>lastApplied := commitIndex rf, applyChan := applyChan rf @
      applyMsgs rf (lastApplied rf + 1) (nat (commitIndex rf - lastApplied rf))\<rparr> \<and> lastApplied rf < commitIndex rf"
  proof (cases "lastApplied rf < commitIndex rf")
    case True
    then have "commitIndex rf \<le> lastIndex rf" using commit_in_log [OF ps] snap(2) by linarith
    then show ?thesis using r' applyLoop_ok [OF snap(3), of "lastApplied rf + 1" "commitIndex rf"] True snap by auto
  next
    case False
    then show ?thesis using r' by (auto simp: applyLoop.simps [of rf])
  qed
  moreover have "peer_sim n a i (rf\<lparr>lastApplied := commitIndex rf, applyChan := applyChan rf @
      applyMsgs rf (lastApplied rf + 1) (nat (commitIndex rf - lastApplied rf))\<rparr>)" (is "peer_sim n a i ?rf'")
    if lt: "lastApplied rf < commitIndex rf"
  proof -
    let ?ms = "applyMsgs rf (lastApplied rf + 1) (nat (commitIndex rf - lastApplied rf))"
    have sv: "service_ok n a rf" using ps by (simp add: peer_sim_def)
    have vm: "service_msgs ?rf' = service_msgs rf @ ?ms" by (simp add: applyMsgs_def filter_id_conv for_service_def)
    have "map CommandIndex ?ms = map int [Suc (nat (lastApplied rf))..<Suc (nat (commitIndex rf))]"
      using lt snap(2) by (auto simp: applyMsgs_def list_eq_iff_nth_eq simp del: upt_Suc)
    moreover have "[1..<Suc (nat (commitIndex rf))] =
        [1..<Suc (nat (lastApplied rf))] @ [Suc (nat (lastApplied rf))..<Suc (nat (commitIndex rf))]"
      using lt snap(2) upt_add_eq_append [of 1 "Suc (nat (lastApplied rf))" "nat (commitIndex rf) - nat (lastApplied rf)"] by simp
    ultimately have "map CommandIndex (service_msgs ?rf') = map int [1..<Suc (nat (commitIndex rf))]"
      unfolding vm using sv by (simp only: service_ok_def map_append)
    moreover have "list_all (applied_ok n a) (service_msgs ?rf')"
      unfolding vm using sv applyMsgs_ok [OF ps] lt snap(2) by (simp add: service_ok_def)
    ultimately have "service_ok n a ?rf'" using lt snap(2) by (simp add: service_ok_def)
    moreover have "recovered ?rf' = recovered rf" by (simp add: recovered_def)
    ultimately show ?thesis using ps by (auto simp: peer_sim_def wf_log_def)
  qed
  ultimately show ?thesis using ps by auto
qed

lemma spec_step_refl: "i < n \<Longrightarrow> spec_step n a a"
  using spec_stay [of i n a "sp_term a i" "sp_cand a i"] by simp

lemma sim_peer:
  assumes "sim n s a" "i < n" "peer_sim n a i rf'" "cluster_inv n (set_srv i rf' (base s))"
  shows "sim n (set_peer i rf' s) a"
  unfolding set_peer_def
  by (rule sim_server [OF assms(1) spec_step_refl [OF assms(2)] assms(2) _ assms(3,4)])
    (use assms(1) in \<open>simp_all add: set_srv_def sim_def\<close>)

lemma sim_local:
  assumes sim: "sim n s a" and act: "act (base s) (Local i r) = Some b'" and inv: "cluster_inv n b'"
    and st: "steady s (Election (Local i r))"
  shows "\<exists>a'. spec_step n a a' \<and> sim n (s\<lparr>base := b'\<rparr>) a'"
proof -
  from act obtain rf' where i: "i < n" and rf': "run_region r (peer s i) = Some rf'" and b': "b' = set_srv i rf' (base s)"
    using simD(7) [OF sim] by (auto split: if_splits)
  note ps = simD(4) [OF sim i]
  have "quiet (peer s i) rf' \<or> peer_sim n a i rf'"
  proof (cases r)
    case RApply
    then show ?thesis using rf' peer_sim_apply [OF ps] by simp
  next
    case RKill
    then show ?thesis using rf' by (auto simp: raft_Kill_def intro!: quiet_frame)
  next
    case (RRestart now rnd)
    have "durable (peer s i)" using inv simD(1) [OF sim] i by (simp add: cluster_inv_def servers_ok_def)
    then show ?thesis using rf' RRestart quiet_restart ps by (auto simp: peer_sim_def)
  qed (use st in simp_all)
  then show ?thesis
  proof
    assume "quiet (peer s i) rf'"
    then show ?thesis by (rule sim_quiet [OF sim i _ inv]) (simp_all add: b' set_srv_def elections_from_refl)
  next
    assume "peer_sim n a i rf'"
    then have "sim n (s\<lparr>base := b'\<rparr>) a" using sim_peer [OF sim i] inv by (simp add: b' set_peer_def)
    then show ?thesis using spec_step_refl [OF i] by blast
  qed
qed

text \<open>All events of elections.\<close>

lemma sim_election:
  assumes sim: "sim n s a" and st: "steady s (Election act1)" and r: "run_event s (Election act1) = Some t"
  shows "\<exists>a'. (a' = a \<or> spec_step n a a') \<and> sim n t a'"
proof -
  from r obtain b' where b': "act (base s) act1 = Some b'" and t: "t = s\<lparr>base := b'\<rparr>" by auto
  have "calm_step (base s) b'" using st b' by (auto intro: calm_stepI)
  then have inv: "cluster_inv n b'" by (rule elections.inv_step [OF simD(1) [OF sim]])
  have rpc_only: "sim n t a" if "\<exists>k i r. has_rpc (base s) k i \<and> (\<forall>args. r \<noteq> Sent args) \<and> b' = set_rpc k i r (base s)"
  proof -
    from that obtain k i r where k: "has_rpc (base s) k i" "\<forall>args. r \<noteq> Sent args" "b' = set_rpc k i r (base s)" by blast
    from rpcs_keep [OF sim elections_from_set_rpc [OF k(1,2)], of a]
    show ?thesis unfolding t by (intro sim_elections [OF sim inv]) (simp_all add: k(3) set_rpc_def)
  qed
  show ?thesis
  proof (cases act1)
    case (Drop k i)
    with b' rpc_only show ?thesis by (fastforce split: if_splits rpc.splits)
  next
    case (Check k i)
    with b' rpc_only show ?thesis by (fastforce split: if_splits rpc.splits)
  next
    case (Local i r)
    then show ?thesis using sim_local [OF sim _ inv] b' st t by blast
  next
    case (Elect c now rnd)
    with b' have "act (base s) (Elect c now rnd) = Some b'" by simp
    from sim_elect [OF sim this inv] show ?thesis unfolding t by blast
  next
    case (Send k i)
    with b' have "act (base s) (Send k i) = Some b'" by simp
    from sim_send [OF sim this inv] show ?thesis unfolding t by blast
  next
    case (Deliver k i now rnd)
    with b' have "act (base s) (Deliver k i now rnd) = Some b'" by simp
    from sim_deliver [OF sim this inv] show ?thesis unfolding t by blast
  next
    case (Handle k i)
    with b' have "act (base s) (Handle k i) = Some b'" by simp
    from sim_handle [OF sim this inv] show ?thesis unfolding t by blast
  qed
qed

end
