(* ===== verification/Raft_Safety.thy ===== *)
theory Raft_Safety
  imports Raft_Refinement "HOL-Library.Sublist"
begin

text \<open>
  The events of replication are matched by the specification, and what follows for the code: logs match, what is
  committed stays in every later leader's log, and all servers apply the same commands.
\<close>

section \<open>Building requests\<close>

lemma prepare_args_ok:
  assumes ps: "peer_sim n a l rf" and inv: "spec_inv n a" and won: "sp_won a (b_term b) = Some l"
    and prep: "broadcastAppendEntries_prepare rf j (b_index b) (b_term b) (b_commit b) = Inr (Some (nx, args))"
  shows "args_ok a b args"
  using prep
proof (rule prepare_cases)
  fix prev es
  assume tm: "CurrentTerm rf = b_term b" and prev: "getLogByIndexUnLock rf (nx - 1) = Inr prev"
    and es: "entriesToSend rf nx (b_index b) = Inr es"
    and args: "args = \<lparr>aeTerm = b_term b, LeaderId = me rf, PrevLogIndex = nx - 1, PrevLogTerm = eTerm prev,
             Entries = es, LeaderCommit = b_commit b, LogSnapshot = snapshot rf\<rparr>"
  let ?m = "sp_lead a (b_term b)" and ?i = "b_index b"
  have m: "Log rf = ?m" "sIndex (snapshot rf) = 0" using won_facts(5) [OF inv won] ps tm by (simp_all add: peer_sim_def)
  have prev': "nx - 1 < int (length ?m) \<and> prev = ?m ! nat (nx - 1)" if "0 \<le> nx - 1"
    using prev that by (simp add: getLogByIndexUnLock_def m go_index_eq_Inr_iff)
  have "segment ?m args \<and> reaches ?i args"
  proof (cases "nx < ?i + 1")
    case False
    then have "es = []" using es by (simp add: entriesToSend_def Let_def)
    then show ?thesis using prev' False by (auto simp: segment_def reaches_def args Let_def nat_less_iff)
  next
    case True
    show ?thesis
    proof (cases "nx \<le> 0")
      case neg: True
      then have "es = take (nat (?i + 1)) ?m" "0 \<le> ?i + 1" "?i + 1 \<le> int (length ?m)"
        using es True by (auto simp: entriesToSend_def Let_def m go_slice_def split: if_splits)
      then show ?thesis using neg by (auto simp: segment_def reaches_def args Let_def nat_le_iff)
    next
      case False
      then have e: "es = take (nat (?i + 1) - nat nx) (drop (nat nx) ?m)" "?i + 1 \<le> int (length ?m)"
        using es True by (auto simp: entriesToSend_def Let_def m go_slice_def split: if_splits)
      have "length es = nat (?i + 1) - nat nx" using e True False by auto
      moreover have "Suc (nat (nx - 1)) = nat nx" using False by linarith
      ultimately show ?thesis using e prev' False True by (auto simp: segment_def reaches_def args Let_def)
    qed
  qed
  then show ?thesis by (simp add: args_ok_def args m)
qed

section \<open>Accepting entries\<close>

text \<open>Log matching: two logs that agree in the term of a position agree up to it.\<close>

lemma traced_match:
  assumes "traced a l" "traced a m" "j < length l" "j < length m" "eTerm (l ! j) = eTerm (m ! j)"
  shows "agree j l m"
  using assms agree_sym agree_trans unfolding traced_def by metis

lemma merge_traced:
  assumes l: "traced a l" and m: "traced a m" and p: "p < length l" "p + k < length m" "eTerm (l ! p) = eTerm (m ! p)"
  shows "mergeEntries (Suc p) l (take k (drop (Suc p) m)) =
    (if take (Suc (p + k)) l = take (Suc (p + k)) m then l else take (Suc (p + k)) m)"
proof -
  let ?es = "take k (drop (Suc p) m)"
  have len: "length ?es = k" using p(2) by simp
  have ag: "agree p l m" by (rule traced_match [OF l m p(1) _ p(3)]) (use p(2) in simp)
  have cat: "take (Suc p) l @ ?es = take (Suc (p + k)) m" using ag by (simp add: agree_def flip: take_add)
  have es: "?es ! i = m ! (Suc p + i)" if "i < k" for i using that p(2) by simp
  have all: "(\<forall>i<k. Suc p + i < length l \<and> eTerm (l ! (Suc p + i)) = eTerm (?es ! i)) \<longleftrightarrow>
      take (Suc (p + k)) l = take (Suc (p + k)) m"
  proof
    assume h: "\<forall>i<k. Suc p + i < length l \<and> eTerm (l ! (Suc p + i)) = eTerm (?es ! i)"
    have "agree (p + k) l m"
    proof (cases k)
      case 0
      then show ?thesis using ag by simp
    next
      case (Suc i)
      then have "Suc p + i < length l" "eTerm (l ! (Suc p + i)) = eTerm (m ! (Suc p + i))" using h es [of i] by auto
      then show ?thesis using traced_match [OF l m, of "Suc p + i"] p(2) Suc by simp
    qed
    then show "take (Suc (p + k)) l = take (Suc (p + k)) m" by (simp add: agree_def)
  next
    assume "take (Suc (p + k)) l = take (Suc (p + k)) m"
    then have "agree (p + k) l m" using p(2) agree_sym [of "p + k" m l] by (simp add: agree_def)
    then show "\<forall>i<k. Suc p + i < length l \<and> eTerm (l ! (Suc p + i)) = eTerm (?es ! i)"
      using agree_nth [of "p + k" l m] es by (auto simp: agree_def)
  qed
  show ?thesis unfolding mergeEntries_def len all cat ..
qed

text \<open>After the part that the receiver's snapshot covers is cut off, a request is a segment from a position on.\<close>

lemma segment_trim:
  assumes m: "traced a m" and seg: "segment m args" and sn: "sIndex (snapshot rf) = 0" "sTerm (snapshot rf) = 0"
  obtains p k where "PrevLogIndex (trimArgs rf args) = int p" "PrevLogTerm (trimArgs rf args) = eTerm (m ! p)"
    "Entries (trimArgs rf args) = take k (drop (Suc p) m)" "p + k < length m"
    "\<And>index. reaches index args \<Longrightarrow> index \<le> int (p + k)"
proof (cases "PrevLogIndex args < 0")
  case True
  let ?es = "Entries args"
  have es: "length ?es \<le> length m" "?es = take (length ?es) m" using seg True by (auto simp: segment_def Let_def)
  obtain m' where m': "m = first_entry # m'" using m by (cases m) (auto simp: traced_def)
  have i1: "eIndex x > 0" if "m' = x # xs" for x xs using m that m' by (auto simp: traced_def dest!: spec [of _ 1])
  have dw: "dropWhile (\<lambda>e. \<not> eIndex e > 0) ?es = take (length ?es - 1) (drop (Suc 0) m)"
  proof (cases "length ?es")
    case (Suc j)
    then have "?es = first_entry # take j m'" using es(2) m' by simp
    moreover have "dropWhile (\<lambda>e. \<not> eIndex e > 0) (take j m') = take j m'"
      using i1 by (cases m'; cases j) auto
    ultimately show ?thesis using Suc by (simp add: m' first_entry_def)
  qed simp
  show ?thesis
  proof (rule that [of 0 "length ?es - 1"])
    show "PrevLogIndex (trimArgs rf args) = int 0" "PrevLogTerm (trimArgs rf args) = eTerm (m ! 0)"
      using True sn by (simp_all add: trimArgs_def m' first_entry_def)
    show "Entries (trimArgs rf args) = take (length ?es - 1) (drop (Suc 0) m)" using True sn dw by (simp add: trimArgs_def)
    show "0 + (length ?es - 1) < length m" using es(1) m' by auto
    show "index \<le> int (0 + (length ?es - 1))" if "reaches index args" for index using that True by (auto simp: reaches_def)
  qed
next
  case False
  then have "trimArgs rf args = args" using sn by (simp add: trimArgs_def)
  then show ?thesis using that [of "nat (PrevLogIndex args)" "length (Entries args)"] seg False
    by (auto simp: segment_def Let_def reaches_def)
qed

text \<open>A commit index stays right when a prefix of a leader's log is taken over.\<close>

lemma commit_ok_accept:
  assumes inv: "spec_inv n a" and c: "commit_ok n a i c" "sp_term a i \<le> t" and won: "sp_won a t \<noteq> None"
    and g: "grown a a'" and a': "sp_term a' i = t"
      "sp_log a' i = (if take (Suc q) (sp_log a i) = take (Suc q) (sp_lead a t) then sp_log a i else take (Suc q) (sp_lead a t))"
  shows "commit_ok n a' i c"
proof (cases "c \<le> 0")
  case False
  with c(1) obtain u k where u: "chosen n a u k" "u \<le> sp_term a i" "c \<le> int k" "agree (nat c) (sp_log a i) (sp_lead a u)"
    by (auto simp: commit_ok_def)
  have "u \<le> t" using u(2) c(2) by simp
  from agree_mono [OF chosen_in_leader [OF inv u(1) won this], of "nat c"] u(3)
  have "agree (nat c) (sp_lead a t) (sp_lead a u)" by simp
  from agree_accept [OF u(4) this, of q] have "agree (nat c) (sp_log a' i) (sp_lead a u)" using a'(2) by simp
  moreover have "known a u" using u(1) own_known by (auto simp: chosen_def)
  ultimately have "agree (nat c) (sp_log a' i) (sp_lead a' u)" using agree_grown [OF _ g] by blast
  then show ?thesis using chosen_grown [OF u(1) g] u(3) \<open>u \<le> t\<close> a'(1) by (auto simp: commit_ok_def)
qed (simp add: commit_ok_def)

text \<open>The index that a follower learns, bounded by the last entry it has taken over.\<close>

lemma commit_ok_learn:
  assumes inv: "spec_inv n a" and ann: "announced n a t c" and won: "sp_won a t \<noteq> None" and g: "grown a a'"
    and a': "sp_term a' i = t" "agree q (sp_log a' i) (sp_lead a t)"
  shows "commit_ok n a' i (if c > int q then int q else c)" (is "commit_ok n a' i ?c")
proof (cases "?c \<le> 0")
  case False
  then have "\<not> c \<le> 0" by (simp split: if_splits)
  with ann obtain u k where u: "chosen n a u k" "u \<le> t" "c \<le> int k" by (auto simp: announced_def)
  have le: "nat ?c \<le> q" "nat ?c \<le> k" using u(3) False by auto
  have "agree (nat ?c) (sp_lead a t) (sp_lead a u)" by (rule agree_mono [OF chosen_in_leader [OF inv u(1) won u(2)] le(2)])
  with agree_mono [OF a'(2) le(1)] have "agree (nat ?c) (sp_log a' i) (sp_lead a u)" by (rule agree_trans)
  moreover have "known a u" using u(1) own_known by (auto simp: chosen_def)
  ultimately have "agree (nat ?c) (sp_log a' i) (sp_lead a' u)" using agree_grown [OF _ g] by blast
  moreover have "?c \<le> int k" using u(3) by auto
  ultimately show ?thesis using chosen_grown [OF u(1) g] u(2) a'(1) unfolding commit_ok_def by metis
qed (simp add: commit_ok_def)

definition accept_spec :: "'c spec \<Rightarrow> nat \<Rightarrow> int \<Rightarrow> nat \<Rightarrow> 'c spec" where
  "accept_spec a i t q = a\<lparr>sp_term := (sp_term a)(i := t), sp_cand := (sp_cand a)(i := False),
     sp_log := (sp_log a)(i := (if take (Suc q) (sp_log a i) = take (Suc q) (sp_lead a t)
                                 then sp_log a i else take (Suc q) (sp_lead a t))),
     sp_acks := sp_acks a \<union> {(i, t, k) |k. k \<le> q}\<rparr>"

lemma quiet_append:
  assumes "AppendEntries now rnd rf args = Inr (rf', reply, gs)" "\<not> Success reply" "Log rf \<noteq> []"
  shows "quiet rf rf'"
  using assms(1)
proof (cases rule: AppendEntries_cases)
  case accepted
  then show ?thesis using acceptEntries_frame(6) [OF accepted(3)] assms(2) by simp
qed (use quiet_timer [OF quiet_stepDownTo [OF assms(3)]] in auto)

lemma contiguous_traced: "traced a l \<Longrightarrow> contiguous 0 l"
  by (simp add: traced_def contiguous_def)

lemma service_stepDownTo [simp]: "service_msgs (stepDownTo now rnd t rf) = service_msgs rf"
  by (simp add: stepDownTo_def)

lemma followCommit_result:
  assumes "followCommit rf c k = (rf', gs)"
  shows "commitIndex rf' = commitIndex rf \<or> commitIndex rf' = (if c > k then k else c)" "applyChan rf' = applyChan rf"
    "Persister rf' = Persister rf"
  using assms by (auto simp: followCommit_def split: if_splits)

text \<open>The log and the commit index after an accepted request whose entries are a segment of the leader's log.\<close>

definition taken :: "nat \<Rightarrow> 'c LogEntry list \<Rightarrow> 'c LogEntry list \<Rightarrow> 'c LogEntry list" where
  "taken q m l = (if take (Suc q) l = take (Suc q) m then l else take (Suc q) m)"

lemma append_log:
  assumes ps: "peer_sim n a j rf" and inv: "spec_inv n a" and j: "j < n" and won: "sp_won a (aeTerm args) = Some l"
    and seg: "segment (sp_lead a (aeTerm args)) args"
    and r: "AppendEntries now rnd rf args = Inr (rf', reply, gs)" and ok: "Success reply"
  obtains q rf3 gs' where "CurrentTerm rf \<le> aeTerm args" "q < length (sp_lead a (aeTerm args))"
    "\<forall>index. reaches index args \<longrightarrow> index \<le> int q"
    "followCommit ((stepDownTo now rnd (aeTerm args) rf)\<lparr>state := Follower, Log := taken q (sp_lead a (aeTerm args)) (sp_log a j)\<rparr>)
       (LeaderCommit args) (int q) = (rf3, gs')"
    "rf' = persist (resetElectionTimer now rnd (updateSnapshotUnLock rf3 (LogSnapshot args)))"
proof -
  let ?t = "aeTerm args" and ?r1 = "stepDownTo now rnd (aeTerm args) rf"
  let ?m = "sp_lead a ?t" and ?l = "sp_log a j" and ?a = "trimArgs ?r1 args"
  from r ok have acc: "CurrentTerm rf \<le> ?t" "prevConsistent ?r1 ?a = Inr True" "acceptEntries now rnd ?r1 ?a = Inr (rf', reply, gs)"
    by (cases rule: AppendEntries_cases; auto dest: conflictReply_fields)+
  have r1: "Log ?r1 = ?l" "sIndex (snapshot ?r1) = 0" "sTerm (snapshot ?r1) = 0" "wf_log ?r1" "CurrentTerm ?r1 = ?t"
    "commitIndex ?r1 = commitIndex rf" "lastApplied ?r1 = lastApplied rf"
    using ps acc(1) by (auto simp: stepDownTo_effect stepDownTo_wf peer_sim_def)
  have kn: "known a ?t" using won by (simp add: known_def)
  have tm: "traced a ?m" "traced a ?l" using log_facts(3) [OF inv kn] log_facts(1) [OF inv j] by auto
  obtain p k where pk: "PrevLogIndex ?a = int p" "PrevLogTerm ?a = eTerm (?m ! p)" "Entries ?a = take k (drop (Suc p) ?m)"
    "p + k < length ?m" and reach: "\<And>index. reaches index args \<Longrightarrow> index \<le> int (p + k)"
    using segment_trim [OF tm(1) seg r1(2,3)] by metis
  have le: "snapIndex ?r1 \<le> PrevLogIndex ?a" "PrevLogIndex ?a \<le> lastIndex ?r1" "eTerm (?l ! p) = eTerm (?m ! p)"
    using prevConsistent_ok [OF r1(4), of ?a] acc(2) r1 pk(1,2) by simp_all
  then have pl: "p < length ?l" using wf_lastIndex [OF r1(4)] r1(1,2) pk(1) by simp
  let ?q = "p + k"
  let ?new = "taken ?q ?m ?l"
  have merge: "mergeEntries (prevPos ?r1 ?a) (Log ?r1) (Entries ?a) = ?new"
    using merge_traced [OF tm(2,1) pl pk(4) le(3)] pk(1,3) r1(1,2) by (simp add: nat_add_distrib taken_def)
  obtain rf3 gs' where fc: "followCommit (?r1\<lparr>state := Follower, Log := ?new\<rparr>) (LeaderCommit ?a) (int ?q) = (rf3, gs')"
    and rf': "rf' = persist (resetElectionTimer now rnd (updateSnapshotUnLock rf3 (LogSnapshot ?a)))"
  proof (rule acceptEntries_merge [OF r1(4) le(1,2), of now rnd])
    fix rf3 gs'
    assume "acceptEntries now rnd ?r1 ?a = (let rf' = persist (resetElectionTimer now rnd (updateSnapshotUnLock rf3 (LogSnapshot ?a)))
        in Inr (rf', \<lparr>aerTerm = CurrentTerm rf', Success = True, ConflictIndex = 0, ConflictTerm = 0\<rparr>, gs'))"
      and "followCommit (?r1\<lparr>state := Follower, Log := mergeEntries (prevPos ?r1 ?a) (Log ?r1) (Entries ?a)\<rparr>)
        (LeaderCommit ?a) (PrevLogIndex ?a + int (length (Entries ?a))) = (rf3, gs')"
    then show thesis using acc(3) merge pk by (intro that) (simp_all add: Let_def)
  qed
  show thesis by (rule that [OF acc(1) pk(4)]) (use reach fc rf' in simp_all)
qed

lemma append_accept:
  assumes ps: "peer_sim n a j rf" and inv: "spec_inv n a" and j: "j < n" "j \<noteq> l"
    and won: "sp_won a (aeTerm args) = Some l" and ann: "announced n a (aeTerm args) (LeaderCommit args)"
    and sn: "sIndex (LogSnapshot args) = 0" and seg: "segment (sp_lead a (aeTerm args)) args"
    and r: "AppendEntries now rnd rf args = Inr (rf', reply, gs)" and ok: "Success reply"
  obtains q where "spec_step n a (accept_spec a j (aeTerm args) q)" "peer_sim n (accept_spec a j (aeTerm args) q) j rf'"
    "\<And>index. reaches index args \<Longrightarrow> index \<le> int q"
proof -
  let ?t = "aeTerm args" and ?r1 = "stepDownTo now rnd (aeTerm args) rf"
  let ?m = "sp_lead a ?t" and ?l = "sp_log a j"
  obtain q rf3 gs' where acc: "CurrentTerm rf \<le> ?t" "q < length ?m" and reach: "\<forall>index. reaches index args \<longrightarrow> index \<le> int q"
    and fc: "followCommit (?r1\<lparr>state := Follower, Log := taken q ?m ?l\<rparr>) (LeaderCommit args) (int q) = (rf3, gs')"
    and rf': "rf' = persist (resetElectionTimer now rnd (updateSnapshotUnLock rf3 (LogSnapshot args)))"
    by (rule append_log [OF ps inv j(1) won seg r ok])
  let ?new = "taken q ?m ?l"
  have r1: "sIndex (snapshot ?r1) = 0" "sTerm (snapshot ?r1) = 0" "CurrentTerm ?r1 = ?t"
    "commitIndex ?r1 = commitIndex rf" "lastApplied ?r1 = lastApplied rf"
    using ps acc(1) by (auto simp: stepDownTo_effect peer_sim_def)
  have tm: "traced a ?m" "traced a ?l" using log_facts(3) [OF inv] log_facts(1) [OF inv j(1)] won by (auto simp: known_def)
  note f3 = followCommit_frame [OF fc] followCommit_result [OF fc]
  have "updateSnapshotUnLock rf3 (LogSnapshot args) = rf3" using f3(7) r1(1) sn by (simp add: updateSnapshotUnLock_def)
  then have rf': "rf' = persist (resetElectionTimer now rnd rf3)" using rf' by simp
  define a' where "a' = accept_spec a j ?t q"
  have st: "spec_step n a a'" unfolding a'_def accept_spec_def
    by (rule spec_accept [OF j(1) won]) (use j(2) acc(1) ps acc(2) in \<open>auto simp: peer_sim_def\<close>)
  have g: "grown a a'" by (rule spec_step_grown [OF inv st])
  have a': "sp_term a' j = ?t" "sp_log a' j = ?new" "\<not> sp_cand a' j" by (simp_all add: a'_def accept_spec_def taken_def)
  have fr: "Log rf' = ?new" "snapshot rf' = snapshot ?r1" "CurrentTerm rf' = ?t" "state rf' = Follower"
    "lastApplied rf' = lastApplied rf" "service_msgs rf' = service_msgs rf" "commitIndex rf' = commitIndex rf3"
    using f3 r1 by (simp_all add: rf')
  have new: "traced a ?new" using tm traced_take [OF tm(1), of "Suc q"] by (auto simp: taken_def)
  then have wf: "wf_log rf'" using fr(1,2) r1(1) contiguous_traced [OF new] by (auto simp: wf_log_def traced_def)
  have "agree q ?new ?m" using agree_taken [OF acc(2) order_refl, of ?l] by (simp add: taken_def)
  then have "commit_ok n a' j (if LeaderCommit args > int q then int q else LeaderCommit args)"
    using won a' by (intro commit_ok_learn [OF inv ann _ g]) simp_all
  moreover have "commit_ok n a' j (commitIndex rf)"
    by (rule commit_ok_accept [OF inv _ _ _ g a'(1) a'(2) [unfolded taken_def]]) (use ps acc(1) won in \<open>auto simp: peer_sim_def\<close>)
  ultimately have ci: "commit_ok n a' j (commitIndex rf')" using f3(9) r1(4) fr(7) by auto
  have "commitIndex (recovered rf') = commitIndex (resetElectionTimer now rnd rf3)"
    using wf fr(1) f3(6) by (intro recovered_persisted) (auto simp: rf' wf_log_def)
  then have "commitIndex (recovered rf') = commitIndex rf'" using fr(7) by simp
  moreover have "service_ok n a' rf'" using ps service_ok_keep [OF _ g fr(5,6)] by (simp add: peer_sim_def)
  ultimately have "peer_sim n a' j rf'" using wf fr r1 ci a' ps by (simp add: peer_sim_def)
  then show thesis using that [of q] st reach by (simp add: a'_def)
qed

section \<open>The events of broadcasts\<close>

lemma sim_set_cast:
  assumes "sim n s a" "cast_ok n a b"
  shows "sim n (set_cast k b s) a"
  using assms set_update_subset_insert [of "casts s" k b] by (auto simp: sim_def set_cast_def)

lemma sim_add_casts:
  assumes "sim n s a" "\<forall>b \<in> set bs. cast_ok n a b"
  shows "sim n (s\<lparr>casts := casts s @ bs\<rparr>) a"
  using assms by (auto simp: sim_def)

lemma go_ok_gos [simp]: "go_ok a (b\<lparr>b_gos := gs\<rparr>) j g = go_ok a b j g"
  by (simp add: go_ok_def args_ok_def acked_def cong: replicator.case_cong)

lemma cast_go:
  assumes "sim n s a" "has_go s k j"
  shows "cast_ok n a (casts s ! k)" "b_phase (casts s ! k) = Running" "j < n" "go_ok a (casts s ! k) j (go_of s k j)"
    "length (b_gos (casts s ! k)) = n" "b_leader (casts s ! k) < n"
proof -
  show ok: "cast_ok n a (casts s ! k)" using assms by (intro simD(6) [OF assms(1)]) (simp add: has_go_def)
  then show run: "b_phase (casts s ! k) = Running" using assms(2) by (auto simp: cast_ok_def has_go_def split: cast_phase.splits)
  with ok show "length (b_gos (casts s ! k)) = n" "b_leader (casts s ! k) < n" by (simp_all add: cast_ok_def)
  then show "j < n" using assms(2) by (simp add: has_go_def)
  then show "go_ok a (casts s ! k) j (go_of s k j)" using ok run by (simp add: cast_ok_def)
qed

text \<open>A goroutine goes on without counting a success.\<close>

lemma sim_set_go:
  assumes sim: "sim n s a" and has: "has_go s k j" and g: "go_ok a (casts s ! k) j g"
    and r: "go_of s k j \<noteq> Replicated" "g \<noteq> Replicated"
  shows "sim n (set_go k j g s) a"
proof -
  let ?b = "casts s ! k"
  note c = cast_go [OF sim has]
  have "replicated (?b\<lparr>b_gos := (b_gos ?b)[j := g]\<rparr>) = replicated ?b"
    using r has by (auto simp: replicated_def has_go_def nth_list_update split: if_splits)
  then have "cast_ok n a (?b\<lparr>b_gos := (b_gos ?b)[j := g]\<rparr>)"
    using c g by (simp add: cast_ok_def nth_list_update)
  then show ?thesis unfolding set_go_def by (rule sim_set_cast [OF sim])
qed

lemma new_cast_ok:
  assumes "peer_sim n a i rf" "i < n" "b \<in> set (spawn i [GoBroadcast index (CurrentTerm rf) (commitIndex rf) 1])"
  shows "cast_ok n a b"
  using assms by (auto simp: cast_ok_def peer_sim_def commit_ok_def announced_def replicated_def)

lemma sim_beat:
  assumes sim: "sim n s a" and r: "run_event s (Beat i now rf0) = Some t"
  shows "\<exists>a'. spec_step n a a' \<and> sim n t a'"
proof -
  from r have i: "i < n" using simD(7) [OF sim] by (auto split: if_splits)
  let ?rf = "peer s i" and ?rf' = "peer s i\<lparr>latestSendHeartbeatTime := now\<rparr>"
  let ?gs = "[GoBroadcast (eIndex (getLastLogUnLock ?rf')) (CurrentTerm ?rf) (commitIndex ?rf) 1]"
  have t: "t = s \<or> t = (set_peer i ?rf' s)\<lparr>casts := casts s @ spawn i ?gs\<rparr>"
    using r i simD(7) [OF sim]
    by (cases "snd (GetState rf0)") (auto simp: broadcastHeartBeat_def Let_def set_peer_def set_srv_def)
  note ps = simD(4) [OF sim i]
  have q: "quiet ?rf ?rf'" by (rule quiet_frame) simp_all
  have ps': "peer_sim n a i ?rf'"
    by (rule peer_sim_quiet [OF ps q grown_refl]) (use ps in \<open>simp_all add: peer_sim_def\<close>)
  have "cluster_inv n (set_srv i ?rf' (base s))"
    by (rule inv_set_srv [OF simD(1) [OF sim] i])
      (use cluster_inv_server(1) [OF simD(1) [OF sim] i] in \<open>auto simp: peer_mono_def no_new_leader_def elim!: durable_cong\<close>)
  then have "sim n (set_peer i ?rf' s) a" by (rule sim_peer [OF sim i ps'])
  moreover have "\<forall>b \<in> set (spawn i ?gs). cast_ok n a b" by (intro ballI new_cast_ok [OF ps i])
  ultimately have "sim n ((set_peer i ?rf' s)\<lparr>casts := casts (set_peer i ?rf' s) @ spawn i ?gs\<rparr>) a" by (rule sim_add_casts)
  moreover have "casts (set_peer i ?rf' s) = casts s" by (simp add: set_peer_def)
  ultimately show ?thesis using t sim spec_step_refl [OF i] by metis
qed

lemma sim_propose:
  assumes sim: "sim n s a" and r: "run_event s (Propose i now rf0 c) = Some t"
    and st: "steady s (Propose i now rf0 c)"
  shows "\<exists>a'. spec_step n a a' \<and> sim n t a'"
proof -
  from r have i: "i < n" using simD(7) [OF sim] by (auto split: if_splits)
  let ?rf = "peer s i" and ?t = "sp_term a i"
  note ps = simD(4) [OF sim i]
  show ?thesis
  proof (cases "state rf0 = Leader")
    case False
    then have "t = s" using r i simD(7) [OF sim] by (simp add: Start_def GetState_def set_peer_def set_srv_def)
    then show ?thesis using sim spec_step_refl [OF i] by blast
  next
    case role: True
    with st have True: "state ?rf = Leader" by simp
    obtain rf' index gs where sa: "Start_append now ?rf c = (rf', index, gs)" by (metis prod_cases3)
    note f = Start_append_effect [OF sa]
    have gs: "gs = [GoBroadcast index (CurrentTerm rf') (commitIndex rf') 1]" using sa by (auto simp: Start_append_def Let_def)
    have t: "t = (set_peer i rf' s)\<lparr>casts := casts s @ spawn i gs\<rparr>"
      using r i simD(7) [OF sim] role sa by (simp add: Start_def GetState_def)
    let ?e = "\<lparr>eIndex = index, eTerm = CurrentTerm ?rf, eLog = Some c\<rparr>"
    define a' where "a' = a\<lparr>sp_log := (sp_log a)(i := sp_log a i @ [?e]), sp_lead := (sp_lead a)(?t := sp_log a i @ [?e]),
       sp_acks := insert (i, ?t, length (sp_log a i)) (sp_acks a)\<rparr>"
    have won: "sp_won a ?t = Some i" using ps True by (auto simp: peer_sim_def)
    have sp: "spec_step n a a'" unfolding a'_def
      by (rule spec_append [OF won refl]) (use ps f(7) in \<open>auto simp: peer_sim_def\<close>)
    have g: "grown a a'" by (rule spec_step_grown [OF simD(2) [OF sim] sp])
    let ?x = "?rf\<lparr>Log := Log ?rf @ [?e]\<rparr>"
    have rf': "rf' = (persist ?x)\<lparr>latestSendHeartbeatTime := now\<rparr>" using sa f(7) by (auto simp: Start_append_def Let_def)
    have "commitIndex (recovered rf') = commitIndex ?x" by (intro recovered_persisted) (simp_all add: rf')
    then have rc: "commitIndex (recovered rf') = commitIndex ?rf" by simp
    have m: "service_ok n a' rf'" using ps service_ok_keep [OF _ g, where rf = ?rf and rf' = rf'] by (simp add: peer_sim_def rf')
    have psim: "peer_sim n a' i rf'"
      using ps m rc f wf_Start(1) [OF sa] commit_ok_grown [OF _ g, where xs = "[?e]"]
      by (auto simp: peer_sim_def a'_def rf')
    have inv: "cluster_inv n (set_srv i rf' (base s))"
      by (rule inv_set_srv [OF simD(1) [OF sim] i]) (use f in \<open>auto simp: peer_mono_def no_new_leader_def\<close>)
    have "sim n (s\<lparr>base := set_srv i rf' (base s)\<rparr>) a'"
    proof (rule sim_server [OF sim sp i _ psim inv])
      show "sp_term a' j = sp_term a j \<and> sp_log a' j = sp_log a j \<and> sp_cand a' j = sp_cand a j" if "j \<noteq> i" for j
        using that by (simp add: a'_def)
      show "votes (set_srv i rf' (base s)) = sp_votes a'" using simD(3) [OF sim] by (simp add: a'_def set_srv_def)
      have "\<not> sp_cand a i" using ps True by (simp add: peer_sim_def)
      then show "\<forall>e \<in> set (elections (set_srv i rf' (base s))). \<forall>r \<in> set (rpcs e). rpc_sim a' e r"
        by (intro rpcs_keep [OF sim]) (auto simp: a'_def set_srv_def elections_from_refl)
    qed (simp add: set_srv_def)
    then have "sim n (set_peer i rf' s) a'" by (simp add: set_peer_def)
    moreover have "\<forall>b \<in> set (spawn i gs). cast_ok n a' b" unfolding gs by (intro ballI new_cast_ok [OF psim i])
    ultimately have "sim n ((set_peer i rf' s)\<lparr>casts := casts (set_peer i rf' s) @ spawn i gs\<rparr>) a'" by (rule sim_add_casts)
    then have "sim n t a'" by (simp add: t set_peer_def)
    with sp show ?thesis by blast
  qed
qed

lemma sim_look:
  assumes sim: "sim n s a" and r: "run_event s (Look k) = Some t"
  shows "sim n t a"
proof -
  let ?b = "casts s ! k"
  from r have k: "k < length (casts s)" "b_phase ?b = Called" and t: "t = set_cast k (?b\<lparr>b_phase := SawRole (peer s (b_leader ?b))\<rparr>) s"
    by (auto split: if_splits cast_phase.splits)
  have ok: "cast_ok n a ?b" using k(1) by (intro simD(6) [OF sim]) simp
  then have "peer_sim n a (b_leader ?b) (peer s (b_leader ?b))" by (intro simD(4) [OF sim]) (simp add: cast_ok_def)
  with ok k(2) have "cast_ok n a (?b\<lparr>b_phase := SawRole (peer s (b_leader ?b))\<rparr>)"
    by (auto simp: cast_ok_def peer_sim_def replicated_def)
  then show ?thesis unfolding t by (rule sim_set_cast [OF sim])
qed

lemma sim_begin:
  assumes sim: "sim n s a" and r: "run_event s (Begin k) = Some t"
  shows "sim n t a"
proof -
  let ?b = "casts s ! k"
  let ?rf = "peer s (b_leader ?b)"
  from r obtain rf0 where k: "k < length (casts s)" "b_phase ?b = SawRole rf0"
    and t: "t = set_cast k (?b\<lparr>b_phase := Running, b_gos := start_gos rf0 ?rf ?b\<rparr>) s"
    by (auto simp: Let_def split: if_splits cast_phase.splits)
  have ok: "cast_ok n a ?b" using k(1) by (intro simD(6) [OF sim]) simp
  then have l: "b_leader ?b < n" by (simp add: cast_ok_def)
  have ps: "peer_sim n a (b_leader ?b) ?rf" by (rule simD(4) [OF sim l])
  have id: "peers ?rf = n" "me ?rf = int (b_leader ?b)" using cluster_inv_server [OF simD(1) [OF sim] l] by simp_all
  have "go_ok a ?b j (start_gos rf0 ?rf ?b ! j)" if "j < n" for j
  proof (cases "int j \<in> set (broadcastAppendEntries rf0 ?rf (b_term ?b))")
    case True
    then have "state rf0 = Leader" "CurrentTerm ?rf = b_term ?b" "j \<noteq> b_leader ?b"
      by (auto simp: broadcastAppendEntries_def GetState_def id split: if_splits)
    moreover from this(1) have "b_term ?b \<le> CurrentTerm rf0" "CurrentTerm rf0 \<le> sp_term a (b_leader ?b)"
      "sp_won a (CurrentTerm rf0) = Some (b_leader ?b)" using ok k(2) by (simp_all add: cast_ok_def)
    ultimately show ?thesis using ps that id(1) True by (auto simp: go_ok_def start_gos_def peer_sim_def)
  qed (use that id(1) in \<open>simp add: go_ok_def start_gos_def\<close>)
  moreover have "replicated (?b\<lparr>b_phase := Running, b_gos := start_gos rf0 ?rf ?b\<rparr>) = {}" "replicated ?b = {}"
    using ok k(2) by (auto simp: replicated_def start_gos_def cast_ok_def)
  moreover have "length (start_gos rf0 ?rf ?b) = n" by (simp add: start_gos_def id(1))
  moreover have "go_ok a (?b\<lparr>b_phase := Running\<rparr>) j g = go_ok a ?b j g" for j g
    by (simp add: go_ok_def args_ok_def acked_def cong: replicator.case_cong)
  ultimately have "cast_ok n a (?b\<lparr>b_phase := Running, b_gos := start_gos rf0 ?rf ?b\<rparr>)"
    using ok k(2) by (simp add: cast_ok_def)
  then show ?thesis unfolding t by (rule sim_set_cast [OF sim])
qed

lemma go_ok_running: "go_ok a b j g \<Longrightarrow> g \<noteq> Returned \<Longrightarrow> sp_won a (b_term b) = Some (b_leader b) \<and> j \<noteq> b_leader b"
  by (simp add: go_ok_def)

lemma go_ok_Returned [simp]: "go_ok a b j Returned"
  by (simp add: go_ok_def)

lemma sim_gsend:
  assumes sim: "sim n s a" and r: "run_event s (GSend k j) = Some t"
  shows "sim n t a"
proof -
  from r have has: "has_go s k j" by (auto split: if_splits)
  let ?b = "casts s ! k"
  from r has obtain rf0 x where g: "go_of s k j = Looked rf0"
    and x: "broadcastAppendEntries_attempt rf0 (peer s (b_leader ?b)) (int j) (b_index ?b) (b_term ?b) (b_commit ?b) = Inr x"
    and t: "t = set_go k j (case x of None \<Rightarrow> Returned | Some (nx, args) \<Rightarrow> Requested nx args) s"
    by (auto simp: Let_def split: replicator.splits)
  note c = cast_go [OF sim has]
  have run: "sp_won a (b_term ?b) = Some (b_leader ?b)" "j \<noteq> b_leader ?b" using go_ok_running [OF c(4)] g by auto
  have "args_ok a ?b args" if "x = Some (nx, args)" for nx args
    by (rule prepare_args_ok [OF simD(4) [OF sim c(6)] simD(2) [OF sim] run(1)]) (use x that attempt_prepare in blast)
  then have "go_ok a ?b j (case x of None \<Rightarrow> Returned | Some (nx, args) \<Rightarrow> Requested nx args)"
    using run by (auto simp: go_ok_def split: option.splits)
  then show ?thesis unfolding t using g by (intro sim_set_go [OF sim has]) (auto split: option.splits)
qed

text \<open>Looking at the role, losing a message and the check for an outdated reply.\<close>

lemma sim_gquiet:
  assumes sim: "sim n s a" and e: "e \<in> {GLook k j, GDrop k j, GCheck k j}" and r: "run_event s e = Some t"
  shows "sim n t a"
proof -
  from r e have has: "has_go s k j" by (auto split: if_splits)
  have "\<exists>g. t = set_go k j g s \<and> go_ok a (casts s ! k) j g \<and> go_of s k j \<noteq> Replicated \<and> g \<noteq> Replicated"
    using cast_go(4) [OF sim has] r e has
    by (auto simp: go_ok_def split: if_splits replicator.splits)
  then show ?thesis using sim_set_go [OF sim has] by blast
qed

lemma set_peer_frame [simp]: "has_go (set_peer i rf s) = has_go s" "casts (set_peer i rf s) = casts s"
  by (simp_all add: fun_eq_iff set_peer_def has_go_def)

lemma local_inv:
  assumes "sim n s a" "i < n" "run_region r (peer s i) = Some rf'" "calm (base s) (Local i r)"
  shows "cluster_inv n (set_srv i rf' (base s))"
proof -
  have "act (base s) (Local i r) = Some (set_srv i rf' (base s))" using assms(2,3) simD(7) [OF assms(1)] by simp
  with assms(4) have "calm_step (base s) (set_srv i rf' (base s))" by (rule calm_stepI)
  then show ?thesis by (rule elections.inv_step [OF simD(1) [OF assms(1)]])
qed

lemma sim_accept:
  assumes sim: "sim n s a" and j: "j < n" and st: "spec_step n a (accept_spec a j t q)"
    and ps: "peer_sim n (accept_spec a j t q) j rf'" and inv: "cluster_inv n (set_srv j rf' (base s))"
  shows "sim n (set_peer j rf' s) (accept_spec a j t q)" (is "sim n _ ?a'")
  unfolding set_peer_def
proof (rule sim_server [OF sim st j _ ps inv])
  show "sp_term ?a' i = sp_term a i \<and> sp_log ?a' i = sp_log a i \<and> sp_cand ?a' i = sp_cand a i" if "i \<noteq> j" for i
    using that by (simp add: accept_spec_def)
  show "votes (set_srv j rf' (base s)) = sp_votes ?a'" using simD(3) [OF sim] by (simp add: accept_spec_def set_srv_def)
  show "\<forall>e \<in> set (elections (set_srv j rf' (base s))). \<forall>r \<in> set (rpcs e). rpc_sim ?a' e r"
    by (rule rpcs_keep [OF sim]) (auto simp: accept_spec_def set_srv_def elections_from_refl split: if_splits)
qed (simp add: set_srv_def)

lemma sim_gdeliver:
  assumes sim: "sim n s a" and r: "run_event s (GDeliver k j now rnd) = Some t"
  shows "\<exists>a'. spec_step n a a' \<and> sim n t a'"
proof -
  from r have has: "has_go s k j" by (auto split: if_splits)
  let ?b = "casts s ! k"
  from r has obtain nx args rf' reply gs where g: "go_of s k j = Requested nx args"
    and ae: "AppendEntries now rnd (peer s j) args = Inr (rf', reply, gs)"
    and t: "t = set_go k j (Replied nx args reply) (set_peer j rf' s)"
    by (auto split: replicator.splits)
  note c = cast_go [OF sim has]
  have inv: "cluster_inv n (set_srv j rf' (base s))"
    by (rule local_inv [OF sim c(3), of "RAppend now rnd args"]) (simp_all add: ae)
  have run: "sp_won a (b_term ?b) = Some (b_leader ?b)" "j \<noteq> b_leader ?b" "args_ok a ?b args"
    using c(4) g by (auto simp: go_ok_def)
  note ps = simD(4) [OF sim c(3)]
  have "\<exists>a'. spec_step n a a' \<and> sim n (set_peer j rf' s) a' \<and> (Success reply \<longrightarrow> acked a' ?b j)"
  proof (cases "Success reply")
    case False
    from sim_quiet [OF sim c(3) quiet_append [OF ae False peer_nonempty [OF ps]] inv] False
    show ?thesis by (auto simp: set_srv_def set_peer_def elections_from_refl)
  next
    case True
    have ar: "aeTerm args = b_term ?b" "LeaderCommit args = b_commit ?b" "sIndex (LogSnapshot args) = 0"
      "segment (sp_lead a (aeTerm args)) args" "reaches (b_index ?b) args"
      using run(3) by (auto simp: args_ok_def)
    have "sp_won a (aeTerm args) = Some (b_leader ?b)" "announced n a (aeTerm args) (LeaderCommit args)"
      using run(1) c(1) ar by (simp_all add: cast_ok_def)
    from append_accept [OF ps simD(2) [OF sim] c(3) run(2) this ar(3,4) ae True]
    obtain q where q: "spec_step n a (accept_spec a j (aeTerm args) q)" "peer_sim n (accept_spec a j (aeTerm args) q) j rf'"
      "\<And>index. reaches index args \<Longrightarrow> index \<le> int q" by blast
    have "acked (accept_spec a j (aeTerm args) q) ?b j"
      using q(3) [OF ar(5)] ar(1) by (auto simp: acked_def accept_spec_def)
    then show ?thesis using q(1) sim_accept [OF sim c(3) q(1,2) inv] by blast
  qed
  then obtain a' where a': "spec_step n a a'" "sim n (set_peer j rf' s) a'" "Success reply \<longrightarrow> acked a' ?b j" by blast
  have "go_ok a' ?b j (Requested nx args)" using cast_go(4) [OF a'(2), of k j] has g by simp
  then have "go_ok a' ?b j (Replied nx args reply)" using a'(3) by (simp add: go_ok_def)
  then have "sim n t a'" unfolding t using has g by (intro sim_set_go [OF a'(2)]) simp_all
  then show ?thesis using a'(1) by blast
qed

text \<open>The replicas that a broadcast has counted, the new one and the leader have acknowledged its index.\<close>

lemma counted_chosen:
  assumes sim: "sim n s a" and has: "has_go s k j" and g: "go_of s k j = Fresh nx args reply" "Success reply"
    and maj: "int (n div 2 + 1) \<le> b_replicas (casts s ! k) + 1" and i: "0 \<le> b_index (casts s ! k)"
    and own: "own a (b_term (casts s ! k)) (nat (b_index (casts s ! k)))"
  shows "chosen n a (b_term (casts s ! k)) (nat (b_index (casts s ! k)))"
proof -
  let ?b = "casts s ! k"
  let ?l = "b_leader ?b" and ?Q = "insert (b_leader ?b) (insert j (replicated ?b))"
  note c = cast_go [OF sim has]
  have run: "sp_won a (b_term ?b) = Some ?l" "j \<noteq> ?l" "acked a ?b j" using c(4) g by (auto simp: go_ok_def)
  have rep: "acked a ?b v" "v \<noteq> ?l" "v < n" if "v \<in> replicated ?b" for v
  proof -
    have v: "v < n" "b_gos ?b ! v = Replicated" using that c(5) by (auto simp: replicated_def)
    then have "go_ok a ?b v Replicated" using c(1,2) by (auto simp: cast_ok_def)
    then show "acked a ?b v" "v \<noteq> ?l" "v < n" using v by (auto simp: go_ok_def)
  qed
  have "j \<notin> replicated ?b" using g(1) by (auto simp: replicated_def)
  moreover have "finite (replicated ?b)" by (simp add: replicated_def)
  moreover have "?l \<notin> insert j (replicated ?b)" using rep(2) run(2) by blast
  ultimately have "int (card ?Q) = b_replicas ?b + 1" using c(1) by (simp add: cast_ok_def)
  then have "vote_quorum n ?Q" using maj rep(3) c(3,6) by (auto simp: vote_quorum_def)
  moreover have "(v, b_term ?b, nat (b_index ?b)) \<in> sp_acks a" if "v \<in> ?Q" for v
  proof (cases "v = ?l")
    case True
    then show ?thesis using spec_invD(4) [OF simD(2) [OF sim]] run(1) own by (auto simp: spec_acks_def)
  next
    case False
    then show ?thesis using that rep(1) run(3) i by (auto simp: acked_def)
  qed
  ultimately show ?thesis using own by (auto simp: chosen_def)
qed

text \<open>An index that a majority has acknowledged may be applied, when its entry is of the leader's own term.\<close>

lemma counted_commit_ok:
  assumes sim: "sim n s a" and has: "has_go s k j" and g: "go_of s k j = Fresh nx args reply" "Success reply"
    and b: "b = casts s ! k" and tm: "CurrentTerm (peer s (b_leader b)) = b_term b"
    and maj: "majority (peer s (b_leader b)) \<le> b_replicas b + 1"
    and e: "getLogByIndexUnLock (peer s (b_leader b)) (b_index b) = Inr e" "eTerm e = b_term b"
  shows "commit_ok n a (b_leader b) (b_index b)"
proof (cases "b_index b \<le> 0")
  case False
  note c = cast_go [OF sim has]
  have won: "sp_won a (b_term b) = Some (b_leader b)" using c(4) g b by (auto simp: go_ok_def)
  note ps = simD(4) [OF sim c(6)]
  have log: "Log (peer s (b_leader b)) = sp_lead a (b_term b)" "sp_term a (b_leader b) = b_term b"
    using won_facts(5) [OF simD(2) [OF sim] won] ps tm b by (simp_all add: peer_sim_def)
  have "getLogByIndexUnLock (peer s (b_leader b)) (b_index b) = go_index (sp_lead a (b_term b)) (b_index b)"
    using False log ps b by (simp add: getLogByIndexUnLock_def peer_sim_def)
  then have "go_index (sp_lead a (b_term b)) (b_index b) = Inr e" using e(1) by simp
  then have "nat (b_index b) < length (sp_lead a (b_term b))" "e = sp_lead a (b_term b) ! nat (b_index b)"
    by (auto simp: go_index_eq_Inr_iff)
  then have o: "own a (b_term b) (nat (b_index b))" using e(2) won by (simp add: own_def)
  have "peers (peer s (b_leader b)) = n" using cluster_inv_server [OF simD(1) [OF sim] c(6)] b by simp
  then have "int (n div 2 + 1) \<le> b_replicas b + 1" using maj by (simp add: majority_def)
  with counted_chosen [OF sim has g] o False b have ch: "chosen n a (b_term b) (nat (b_index b))" by simp
  have "agree (nat (b_index b)) (sp_log a (b_leader b)) (sp_lead a (b_term b))"
    using chosen_length [OF ch] log(1) ps b by (simp add: peer_sim_def agree_refl)
  with ch log(2) False show ?thesis by (auto simp: commit_ok_def intro!: exI [of _ "b_term b"] exI [of _ "nat (b_index b)"])
qed (simp add: commit_ok_def)

text \<open>Counting one more replica.\<close>

lemma cast_count:
  assumes b: "cast_ok n a b" "b_phase b = Running" "length (b_gos b) = n" and j: "j < n" "b_gos b ! j \<noteq> Replicated" "go_ok a b j Replicated"
  shows "cast_ok n a (b\<lparr>b_replicas := b_replicas b + 1, b_agree := x, b_gos := (b_gos b)[j := Replicated]\<rparr>)"
proof -
  have "replicated (b\<lparr>b_replicas := b_replicas b + 1, b_agree := x, b_gos := (b_gos b)[j := Replicated]\<rparr>) = insert j (replicated b)"
    using b(3) j(1) by (auto simp: replicated_def nth_list_update split: if_splits)
  moreover have "j \<notin> replicated b" "finite (replicated b)" using j(2) by (auto simp: replicated_def)
  moreover have "go_ok a (b\<lparr>b_replicas := r, b_agree := x\<rparr>) i y = go_ok a b i y" for i y r
    by (simp add: go_ok_def args_ok_def acked_def cong: replicator.case_cong)
  ultimately show ?thesis using b j(1,3) by (auto simp: cast_ok_def nth_list_update)
qed

lemma sim_gsuccess:
  assumes sim: "sim n s a" and has: "has_go s k j" and g: "go_of s k j = Fresh nx args reply" "Success reply"
    and fresh: "\<not> broadcastAppendEntries_stale (peer s (b_leader (casts s ! k))) args"
    and r: "handle_append k j nx args reply s = Some t"
  shows "sim n t a"
proof -
  let ?b = "casts s ! k"
  let ?l = "b_leader ?b"
  let ?rf = "peer s ?l"
  from r g(2) obtain rf' r' a' gs where su: "broadcastAppendEntries_success ?rf (int j) (b_index ?b) (b_replicas ?b) (b_agree ?b) = Inr (rf', r', a', gs)"
    and t: "t = set_cast k (?b\<lparr>b_replicas := r', b_agree := a', b_gos := (b_gos ?b)[j := Replicated]\<rparr>) (set_peer ?l rf' s)"
    by (auto simp: handle_append_def Let_def)
  note c = cast_go [OF sim has]
  have run: "sp_won a (b_term ?b) = Some ?l" "args_ok a ?b args" "acked a ?b j" "j \<noteq> ?l" using c(4) g by (auto simp: go_ok_def)
  note ps = simD(4) [OF sim c(6)]
  have tm: "CurrentTerm ?rf = b_term ?b" using fresh run(2) by (simp add: broadcastAppendEntries_stale_def args_ok_def)
  have log: "Log ?rf = sp_lead a (b_term ?b)" "sp_term a ?l = b_term ?b"
    using won_facts(5) [OF simD(2) [OF sim] run(1)] ps tm by (simp_all add: peer_sim_def)
  have inv: "cluster_inv n (set_srv ?l rf' (base s))"
    by (rule local_inv [OF sim c(6), of "RSuccess (int j) (b_index ?b) (b_replicas ?b) (b_agree ?b)"]) (simp_all add: su)
  obtain rf1 where m: "markReplicated ?rf (int j) (b_index ?b) = Inr rf1" "r' = b_replicas ?b + 1"
    and cs: "rf' = rf1 \<or> rf' = rf1\<lparr>commitIndex := b_index ?b\<rparr> \<and> \<not> b_agree ?b \<and> state rf1 = Leader \<and> majority rf1 \<le> r' \<and>
      commitIndex rf1 < b_index ?b \<and> (\<exists>e. getLogByIndexUnLock rf1 (b_index ?b) = Inr e \<and> eTerm e = CurrentTerm rf1)"
    using su by (rule success_cases)
  note f1 = markReplicated_frame [OF m(1)]
  have ps1: "peer_sim n a ?l rf1"
    by (rule peer_sim_quiet [OF ps quiet_markReplicated [OF m(1)] grown_refl]) (use ps f1 in \<open>simp_all add: peer_sim_def\<close>)
  have "peer_sim n a ?l rf'" using cs
  proof (elim disjE conjE exE)
    fix e assume rf': "rf' = rf1\<lparr>commitIndex := b_index ?b\<rparr>" and maj: "majority rf1 \<le> r'"
      and e: "getLogByIndexUnLock rf1 (b_index ?b) = Inr e" "eTerm e = CurrentTerm rf1"
    have "commit_ok n a ?l (b_index ?b)"
    proof (rule counted_commit_ok [OF sim has g refl tm])
      show "majority ?rf \<le> b_replicas ?b + 1" using maj m(2) f1(1) by (simp add: majority_def)
      show "getLogByIndexUnLock ?rf (b_index ?b) = Inr e" using e(1) f1 getLogByIndexUnLock_cong [of rf1 ?rf] by simp
      show "eTerm e = b_term ?b" using e(2) f1(3) tm by simp
    qed
    moreover have "service_ok n a rf'" using ps1 service_ok_keep [OF _ grown_refl, where rf = rf1 and rf' = rf'] by (simp add: peer_sim_def rf')
    ultimately show ?thesis using ps1 recovered_same [of rf' rf1] by (auto simp: rf' peer_sim_def wf_log_def)
  qed (use ps1 in simp)
  then have s1: "sim n (set_peer ?l rf' s) a" by (rule sim_peer [OF sim c(6) _ inv])
  have "go_ok a ?b j Replicated" using run by (simp add: go_ok_def)
  then have "cast_ok n a (?b\<lparr>b_replicas := r', b_agree := a', b_gos := (b_gos ?b)[j := Replicated]\<rparr>)"
    unfolding m(2) using c g(1) by (intro cast_count) auto
  then show ?thesis unfolding t by (rule sim_set_cast [OF s1])
qed

lemma sim_gfail:
  assumes sim: "sim n s a" and has: "has_go s k j" and g: "go_of s k j = Fresh nx args reply" "\<not> Success reply"
    and fresh: "\<not> broadcastAppendEntries_stale (peer s (b_leader (casts s ! k))) args"
    and r: "handle_append k j nx args reply s = Some t"
  shows "\<exists>a'. spec_step n a a' \<and> sim n t a'"
proof -
  let ?b = "casts s ! k"
  let ?l = "b_leader ?b"
  from r g(2) obtain rf' retry where fl: "broadcastAppendEntries_fail (peer s ?l) (int j) args reply nx = Inr (rf', retry)"
    and t: "t = set_go k j (if retry then AtRetry else Returned) (set_peer ?l rf' s)"
    by (auto simp: handle_append_def Let_def)
  note c = cast_go [OF sim has]
  have q: "quiet (peer s ?l) rf'" by (rule quiet_fail [OF fl fresh peer_nonempty [OF simD(4) [OF sim c(6)]]])
  have inv: "cluster_inv n (set_srv ?l rf' (base s))"
    by (rule local_inv [OF sim c(6), of "RFail (int j) args reply nx"]) (simp_all add: fl fresh)
  from sim_quiet [OF sim c(6) q inv] obtain a' where a': "spec_step n a a'" "sim n (set_peer ?l rf' s) a'"
    by (auto simp: set_srv_def set_peer_def elections_from_refl)
  have "go_ok a' ?b j (Fresh nx args reply)" using cast_go(4) [OF a'(2), of k j] has g by simp
  then have "go_ok a' ?b j (if retry then AtRetry else Returned)" by (auto simp: go_ok_def)
  then have "sim n t a'" unfolding t using has g by (intro sim_set_go [OF a'(2)]) simp_all
  then show ?thesis using a'(1) by blast
qed

section \<open>The cluster implements the specification\<close>

lemma sim_step:
  assumes sim: "sim n s a" and "steady_step s t"
  shows "\<exists>a'. run_from (spec_step n) a a' \<and> sim n t a'"
proof -
  from assms(2) obtain e where st: "steady s e" and r: "run_event s e = Some t" by cases
  have "\<exists>a'. (a' = a \<or> spec_step n a a') \<and> sim n t a'"
  proof (cases e)
    case (Election x)
    then show ?thesis using sim_election [OF sim] st r by blast
  next
    case (Propose i now rf0 c)
    then show ?thesis using sim_propose [OF sim] st r by blast
  next
    case (Beat i now rf0)
    then show ?thesis using sim_beat [OF sim] r by blast
  next
    case (Look k)
    then show ?thesis using sim_look [OF sim] r by blast
  next
    case (Begin k)
    then show ?thesis using sim_begin [OF sim] r by blast
  next
    case (GSend k j)
    then show ?thesis using sim_gsend [OF sim] r by blast
  next
    case (GDeliver k j now rnd)
    then show ?thesis using sim_gdeliver [OF sim] r by blast
  next
    case (GHandle k j)
    from r GHandle have has: "has_go s k j" by (auto split: if_splits)
    with r GHandle obtain nx args reply where g: "go_of s k j = Fresh nx args reply"
      and h: "handle_append k j nx args reply s = Some t" by (auto split: replicator.splits)
    have "\<not> broadcastAppendEntries_stale (peer s (b_leader (casts s ! k))) args" using st GHandle g by simp
    then show ?thesis using sim_gsuccess [OF sim has g _ _ h] sim_gfail [OF sim has g _ _ h] by blast
  next
    case (GLook k j)
    then show ?thesis using sim_gquiet [OF sim _ r] by blast
  next
    case (GDrop k j)
    then show ?thesis using sim_gquiet [OF sim _ r] by blast
  next
    case (GCheck k j)
    then show ?thesis using sim_gquiet [OF sim _ r] by blast
  qed
  then show ?thesis by (auto intro: run_refl run_from_single)
qed

lemma sim_run:
  assumes "run_from steady_step s t" "sim n s a"
  shows "\<exists>a'. run_from (spec_step n) a a' \<and> sim n t a'"
  using assms
proof (induction rule: run_from.induct)
  case (run_refl s)
  then show ?case by (blast intro: run_from.run_refl)
next
  case (run_step s t u)
  then obtain a' where a': "run_from (spec_step n) a a'" "sim n t a'" by blast
  obtain a'' where "run_from (spec_step n) a' a''" "sim n u a''" using sim_step [OF a'(2) run_step.hyps(2)] by blast
  then show ?case using run_from_trans [OF a'(1)] by blast
qed

lemma recovered_fresh: "recovered (Make 0 0 n i MakePersister) = Make 0 0 n i MakePersister"
  by (simp add: recovered_def Make_frame Copy_def MakePersister_def)

lemma peer_sim_init: "peer_sim n init_spec i (Make 0 0 n (int i) MakePersister)"
  unfolding peer_sim_def recovered_fresh service_ok_def Make_lastApplied(2)
  by (simp add: wf_Make_fresh Make_frame)
    (simp add: commit_ok_def Make_def Let_def MakePersister_def ReadRaftState_def readPersist_def first_entry_def init_spec_def)

lemma sim_init: "sim n (init_system n) init_spec"
  unfolding sim_def
proof (intro conjI)
  show "cluster_inv n (base (init_system n))" by (simp add: init_system_def inv_init)
  show "spec_inv n init_spec" by (rule spec_inv_init)
  show "\<forall>i<n. peer_sim n init_spec i (peer (init_system n) i)"
    by (simp add: init_system_def init_cluster_def peer_sim_init)
qed (simp_all add: init_system_def init_cluster_def init_spec_def)

lemma run_sim:
  assumes "run_from steady_step (init_system n) s"
  obtains a where "run_from (spec_step n) init_spec a" "sim n s a"
  using sim_run [OF assms sim_init] by blast

text \<open>A state and a later one, with the history of the later one extending that of the first.\<close>

lemma run_sim_later:
  assumes "run_from steady_step (init_system n) s" "run_from steady_step s s'"
  obtains a a' where "sim n s a" "sim n s' a'" "grown a a'"
proof -
  obtain a where a: "sim n s a" using run_sim [OF assms(1)] by blast
  obtain a' where a': "run_from (spec_step n) a a'" "sim n s' a'" using sim_run [OF assms(2) a] by blast
  then show thesis using that a run_spec_grown [OF a'(1) simD(2) [OF a]] by blast
qed

section \<open>Consequences for the cluster\<close>

lemma sim_logs_match:
  assumes "sim n s a" "i < n" "j < n" "k < length (Log (peer s i))" "k < length (Log (peer s j))"
    and "eTerm (Log (peer s i) ! k) = eTerm (Log (peer s j) ! k)"
  shows "take (Suc k) (Log (peer s i)) = take (Suc k) (Log (peer s j))"
proof -
  have "Log (peer s i) = sp_log a i" "Log (peer s j) = sp_log a j"
    using simD(4) [OF assms(1)] assms(2,3) by (simp_all add: peer_sim_def)
  then show ?thesis
    using traced_match [of a "sp_log a i" "sp_log a j" k] log_facts(1) [OF simD(2) [OF assms(1)]] assms(2-) by (simp add: agree_def)
qed

text \<open>What a server has committed is chosen, and so part of the log of every leader of its term or a later one.\<close>

lemma committed_in_leader:
  assumes a: "sim n s a" "sim n s' a'" "grown a a'" and i: "i < n" and l: "l < n" "state (peer s' l) = Leader"
    and t: "CurrentTerm (peer s i) \<le> CurrentTerm (peer s' l)" and k: "int k \<le> commitIndex (peer s i)"
  shows "k < length (Log (peer s i))" "k < length (Log (peer s' l))" "Log (peer s' l) ! k = Log (peer s i) ! k"
proof -
  note ps = simD(4) [OF a(1) i] and pl = simD(4) [OF a(2) l(1)]
  have logs: "Log (peer s i) = sp_log a i" "Log (peer s' l) = sp_log a' l" using ps pl by (simp_all add: peer_sim_def)
  have tr: "traced a (sp_log a i)" "traced a' (sp_log a' l)" using log_facts(1) [OF simD(2) [OF a(1)] i] log_facts(1) [OF simD(2) [OF a(2)] l(1)] by auto
  have "k < length (sp_log a i) \<and> k < length (sp_log a' l) \<and> sp_log a' l ! k = sp_log a i ! k"
  proof (cases "commitIndex (peer s i) \<le> 0")
    case True
    then have "k = 0" using k by simp
    then show ?thesis using tr by (auto simp: traced_def hd_conv_nth)
  next
    case False
    then obtain u m where u: "chosen n a u m" "u \<le> sp_term a i" "commitIndex (peer s i) \<le> int m"
      "agree (nat (commitIndex (peer s i))) (sp_log a i) (sp_lead a u)" using ps by (auto simp: peer_sim_def commit_ok_def)
    have won: "sp_won a' (sp_term a' l) = Some l" using pl l(2) by (auto simp: peer_sim_def)
    then have ll: "sp_log a' l = sp_lead a' (sp_term a' l)" using won_facts(5) [OF simD(2) [OF a(2)]] by simp
    have "u \<le> sp_term a' l" using u(2) t ps pl by (simp add: peer_sim_def)
    then have "agree m (sp_log a' l) (sp_lead a' u)"
      using chosen_in_leader [OF simD(2) [OF a(2)] chosen_grown [OF u(1) a(3)]] won ll by simp
    moreover have "k \<le> m" "k \<le> nat (commitIndex (peer s i))" using k u(3) by auto
    ultimately have "agree k (sp_log a' l) (sp_lead a' u)" "agree k (sp_log a i) (sp_lead a u)"
      using u(4) agree_mono by blast+
    moreover from this(2) have "agree k (sp_log a i) (sp_lead a' u)" using agree_grown [OF _ a(3)] u(1) own_known unfolding chosen_def by blast
    ultimately show ?thesis using agree_nth [of k _ "sp_lead a' u" k] by (auto simp: agree_def)
  qed
  then show "k < length (Log (peer s i))" "k < length (Log (peer s' l))" "Log (peer s' l) ! k = Log (peer s i) ! k"
    by (simp_all add: logs)
qed

lemma applied_agree:
  assumes inv: "spec_inv n a" and ok: "applied_ok n a m" "applied_ok n a m'" and i: "CommandIndex m = CommandIndex m'"
  shows "Command m = Command m'"
proof -
  obtain t k u j where c: "chosen n a t k" "CommandIndex m \<le> int k" "Command m = commandOf (sp_lead a t ! nat (CommandIndex m))"
    "chosen n a u j" "CommandIndex m' \<le> int j" "Command m' = commandOf (sp_lead a u ! nat (CommandIndex m'))"
    using ok by (auto simp: applied_ok_def)
  have "sp_lead a t ! nat (CommandIndex m) = sp_lead a u ! nat (CommandIndex m)"
    by (rule chosen_agree [OF inv c(1,4)]) (use c(2,5) i in auto)
  then show ?thesis using c(3,6) i by simp
qed

text \<open>Two services that have got as many commands have got the same ones.\<close>

lemma service_prefix:
  fixes rf rf' :: "('c, 'd) Raft"
  assumes inv: "spec_inv n a" and sv: "service_ok n a rf" "service_ok n a rf'" and le: "lastApplied rf \<le> lastApplied rf'"
  shows "service_msgs rf = take (length (service_msgs rf)) (service_msgs rf')"
proof (rule nth_equalityI)
  have ix: "length (service_msgs r) = nat (lastApplied r)" "\<And>k. k < length (service_msgs r) \<Longrightarrow> CommandIndex (service_msgs r ! k) = int k + 1"
    if "service_ok n a r" for r :: "('c, 'd) Raft"
  proof -
    have m: "map CommandIndex (service_msgs r) = map int [1..<Suc (nat (lastApplied r))]" using that by (simp only: service_ok_def)
    from arg_cong [OF m, of length] show len: "length (service_msgs r) = nat (lastApplied r)" by (simp del: upt_Suc)
    fix k assume "k < length (service_msgs r)"
    then show "CommandIndex (service_msgs r ! k) = int k + 1"
      using arg_cong [OF m, of "\<lambda>xs. xs ! k"] len by (simp del: upt_Suc)
  qed
  have len: "length (service_msgs rf) \<le> length (service_msgs rf')" using ix(1) sv le by simp
  then show "length (service_msgs rf) = length (take (length (service_msgs rf)) (service_msgs rf'))" by simp
  fix k assume k: "k < length (service_msgs rf)"
  let ?m = "service_msgs rf ! k" and ?m' = "service_msgs rf' ! k"
  have k': "k < length (service_msgs rf')" using k len by simp
  have mem: "?m \<in> set (service_msgs rf)" "?m' \<in> set (service_msgs rf')" using k k' nth_mem by blast+
  have idx: "CommandIndex ?m = CommandIndex ?m'" using ix(2) [OF sv(1) k] ix(2) [OF sv(2) k'] by simp
  have "applied_ok n a ?m" "applied_ok n a ?m'" using sv mem by (auto simp: service_ok_def list_all_iff)
  from applied_agree [OF inv this idx] have "Command ?m = Command ?m'" .
  moreover have "CommandValid ?m" "CommandValid ?m'" using sv mem by (auto simp: service_ok_def list_all_iff applied_ok_def)
  ultimately show "?m = take (length (service_msgs rf)) (service_msgs rf') ! k" using idx k by (simp add: ApplyMsg.equality)
qed

text \<open>Without snapshots the messages for the service are the commands.\<close>

lemma service_commands:
  assumes "sim n s a" "i < n"
  shows "service_msgs (peer s i) = filter CommandValid (applyChan (peer s i))"
proof (rule filter_cong [OF refl])
  fix m assume "m \<in> set (applyChan (peer s i))"
  then show "for_service m = CommandValid m"
    using simD(4) [OF assms] by (auto simp: peer_sim_def service_ok_def list_all_iff applied_ok_def for_service_def)
qed

text \<open>A service keeps what it has got when the history grows.\<close>

lemma services_prefix:
  fixes s s' :: "('c, 'd) system"
  assumes a: "sim n s a" "sim n s' a'" "grown a a'" and i: "i < n" "j < n"
  shows "prefix (service_msgs (peer s i)) (service_msgs (peer s' j)) \<or> prefix (service_msgs (peer s' j)) (service_msgs (peer s i))"
proof -
  have "service_ok n a (peer s i)" "service_ok n a' (peer s' j)"
    using simD(4) [OF a(1) i(1)] simD(4) [OF a(2) i(2)] by (simp_all add: peer_sim_def)
  then have ok: "service_ok n a' (peer s i)" "service_ok n a' (peer s' j)" using service_ok_keep a(3) by blast+
  note inv = simD(2) [OF a(2)]
  consider "lastApplied (peer s i) \<le> lastApplied (peer s' j)" | "lastApplied (peer s' j) \<le> lastApplied (peer s i)" by linarith
  then show ?thesis
  proof cases
    case 1
    have "prefix (service_msgs (peer s i)) (service_msgs (peer s' j))"
      by (subst service_prefix [OF inv ok 1]) (rule take_is_prefix)
    then show ?thesis ..
  next
    case 2
    have "prefix (service_msgs (peer s' j)) (service_msgs (peer s i))"
      by (subst service_prefix [OF inv ok(2,1) 2]) (rule take_is_prefix)
    then show ?thesis ..
  qed
qed

section \<open>The properties of replication\<close>

text \<open>A schedule for examples: server 0 is elected and replicates a command on server 1; then server 1 is elected and replicates
  another on server 2, at the second attempt.\<close>

definition example_leader :: "nat \<Rightarrow> ('c, 'd) Raft" where
  "example_leader i = (Make 0 0 3 (int i) MakePersister)\<lparr>state := Leader\<rparr>"

definition example_commit :: "'c \<Rightarrow> ('c, 'd) system_event list" where
  "example_commit c =
     [Election (Elect 0 0 0), Election (Send 0 1), Election (Deliver 0 1 0 0), Election (Check 0 1), Election (Handle 0 1),
      Propose 0 0 (example_leader 0) c, Look 0, Begin 0, GLook 0 1, GSend 0 1, GDeliver 0 1 0 0, GCheck 0 1, GHandle 0 1,
      Election (Local 0 RApply)]"

definition example_takeover :: "'c \<Rightarrow> ('c, 'd) system_event list" where
  "example_takeover c =
     [Election (Elect 1 0 0), Election (Send 1 0), Election (Send 1 2), Election (Deliver 1 2 0 0), Election (Check 1 2), Election (Handle 1 2),
      Propose 1 0 (example_leader 1) c, Look 1, Begin 1, GLook 1 2, GSend 1 2, GDeliver 1 2 0 0, GCheck 1 2, GHandle 1 2,
      GLook 1 2, GSend 1 2, GDeliver 1 2 0 0, GCheck 1 2, GHandle 1 2, Election (Local 1 RApply)]"

abbreviation (input) example_system :: "(nat, nat) system" where
  "example_system \<equiv> init_system 3"

text \<open>
  C2: State machine safety. In a cluster of any size that starts from empty storage, under any steady
  interleaving of elections, commands, heartbeats, replication, lost messages, kills and restarts,
  the commands that one server's service has got at some moment and those that any server's service
  has got at that or a later moment are the same as far as both go: one sequence is a prefix of the
  other, index by index and command by command.
\<close>

theorem state_machine_safety:
  assumes "run_from steady_step (init_system n) s" and "run_from steady_step s s'" and "i < n" and "j < n"
  shows "prefix (filter CommandValid (applyChan (peer s i))) (filter CommandValid (applyChan (peer s' j))) \<or>
    prefix (filter CommandValid (applyChan (peer s' j))) (filter CommandValid (applyChan (peer s i)))"
proof -
  obtain a a' where a: "sim n s a" "sim n s' a'" "grown a a'" by (rule run_sim_later [OF assms(1,2)])
  from services_prefix [OF this assms(3,4)] show ?thesis
    by (simp only: service_commands [OF a(1) assms(3)] service_commands [OF a(2) assms(4)])
qed

theorem state_machine_safety_witness:
  "\<exists>s s'. run_events example_system (example_commit 7) = Some s \<and> run_events s (example_takeover 8) = Some s' \<and>
     map CommandIndex (filter CommandValid (applyChan (peer s 0))) = [1] \<and>
     map CommandIndex (filter CommandValid (applyChan (peer s' 1))) = [1, 2] \<and>
     prefix (filter CommandValid (applyChan (peer s 0))) (filter CommandValid (applyChan (peer s' 1)))"
proof -
  have "steady_then example_system (example_commit 7) (example_takeover 8) (\<lambda>s s'.
    map CommandIndex (filter CommandValid (applyChan (peer s 0))) = [1] \<and>
     map CommandIndex (filter CommandValid (applyChan (peer s' 1))) = [1, 2] \<and>
    length (filter CommandValid (applyChan (peer s 0))) < length (filter CommandValid (applyChan (peer s' 1))))" by code_simp
  then obtain s s' where r: "run_events example_system (example_commit 7) = Some s" "run_events s (example_takeover 8) = Some s'"
    "run_from steady_step example_system s" "run_from steady_step s s'"
    and p: "map CommandIndex (filter CommandValid (applyChan (peer s 0))) = [1]" "map CommandIndex (filter CommandValid (applyChan (peer s' 1))) = [1, 2]"
      "length (filter CommandValid (applyChan (peer s 0))) < length (filter CommandValid (applyChan (peer s' 1)))"
    by (elim steady_thenE) auto
  have "prefix (filter CommandValid (applyChan (peer s 0))) (filter CommandValid (applyChan (peer s' 1)))"
    using state_machine_safety [OF r(3,4), of 0 1] p(3) prefix_length_le by fastforce
  with r(1,2) p(1,2) show ?thesis by (intro exI conjI)
qed

text \<open>
  C3: Leader completeness. Under the same schedules, every entry up to the commit index of a server
  is in that server's log, and it is in the log of every server that leads that term or a later one
  from then on, at the same position.
\<close>

theorem committed_entries_stay:
  assumes "run_from steady_step (init_system n) s" and "run_from steady_step s s'"
    and "i < n" and "int k \<le> commitIndex (peer s i)"
    and "l < n" and "state (peer s' l) = Leader" and "CurrentTerm (peer s i) \<le> CurrentTerm (peer s' l)"
  shows "k < length (Log (peer s i)) \<and> k < length (Log (peer s' l)) \<and> Log (peer s' l) ! k = Log (peer s i) ! k"
  using run_sim_later [OF assms(1,2)] committed_in_leader assms(3-) by metis

theorem committed_entries_stay_witness:
  "\<exists>s s'. run_events example_system (example_commit 7) = Some s \<and> run_events s (example_takeover 8) = Some s' \<and>
     commitIndex (peer s 0) = 1 \<and> state (peer s' 1) = Leader \<and> CurrentTerm (peer s' 1) = 2 \<and>
     Log (peer s' 1) ! 1 = Log (peer s 0) ! 1"
proof -
  have "steady_then example_system (example_commit 7) (example_takeover 8) (\<lambda>s s'.
    commitIndex (peer s 0) = 1 \<and> CurrentTerm (peer s 0) = 1 \<and> state (peer s' 1) = Leader \<and> CurrentTerm (peer s' 1) = 2)"
    by code_simp
  then obtain s s' where r: "run_events example_system (example_commit 7) = Some s" "run_events s (example_takeover 8) = Some s'"
    "run_from steady_step example_system s" "run_from steady_step s s'"
    and p: "commitIndex (peer s 0) = 1" "CurrentTerm (peer s 0) = 1" "state (peer s' 1) = Leader" "CurrentTerm (peer s' 1) = 2"
    by (elim steady_thenE) auto
  have "Log (peer s' 1) ! 1 = Log (peer s 0) ! 1"
    using committed_entries_stay [OF r(3,4), of 0 1 1] p by simp
  then show ?thesis using r(1,2) p by blast
qed

text \<open>
  C6: Log matching. Under the same schedules, when the logs of two servers have entries of the same
  term at a position, the two logs are equal up to that position.
\<close>

theorem log_matching:
  assumes "run_from steady_step (init_system n) s" and "i < n" and "j < n"
    and "k < length (Log (peer s i))" and "k < length (Log (peer s j))"
    and "eTerm (Log (peer s i) ! k) = eTerm (Log (peer s j) ! k)"
  shows "take (Suc k) (Log (peer s i)) = take (Suc k) (Log (peer s j))"
  using run_sim [OF assms(1)] sim_logs_match assms(2-) by metis

theorem log_matching_witness:
  "\<exists>s. run_events example_system (example_commit 7 @ example_takeover 8) = Some s \<and>
     map eTerm (Log (peer s 1)) = [0, 1, 2] \<and> take 3 (Log (peer s 1)) = take 3 (Log (peer s 2))"
proof -
  have c: "steady_then example_system (example_commit 7 @ example_takeover 8) [] (\<lambda>s s'.
    map eTerm (Log (peer s 1)) = [0, 1, 2] \<and> map eTerm (Log (peer s 2)) = [0, 1, 2])" by code_simp
  then obtain s where r: "run_events example_system (example_commit 7 @ example_takeover 8) = Some s"
    "run_from steady_step example_system s"
    and t: "map eTerm (Log (peer s 1)) = [0, 1, 2]" "map eTerm (Log (peer s 2)) = [0, 1, 2]"
    by (elim steady_thenE) auto
  then have len: "length (Log (peer s 1)) = 3" "length (Log (peer s 2)) = 3"
    using map_eq_imp_length_eq [of eTerm _ id "[0, 1, 2]"] by auto
  then have "eTerm (Log (peer s 1) ! 2) = eTerm (Log (peer s 2) ! 2)"
    using nth_map [of 2 "Log (peer s 1)" eTerm] nth_map [of 2 "Log (peer s 2)" eTerm] by (simp add: t del: One_nat_def)
  then have "take (Suc 2) (Log (peer s 1)) = take (Suc 2) (Log (peer s 2))"
    using log_matching [OF r(2), of 1 2 2] len by simp
  then show ?thesis using r(1) t(1) by (auto simp: numeral_3_eq_3)
qed

text \<open>
  C4: The cluster implements the specification of replicated logs. Every state that a cluster of the
  code's peers reaches under a steady schedule has the terms, the logs, the candidates, the votes and
  the leaders of a state that the specification reaches.
\<close>

theorem cluster_implements_spec:
  assumes "run_from steady_step (init_system n) s"
  shows "\<exists>a. run_from (spec_step n) init_spec a \<and> votes (base s) = sp_votes a \<and>
    (\<forall>i<n. CurrentTerm (peer s i) = sp_term a i \<and> Log (peer s i) = sp_log a i \<and>
      (state (peer s i) = Candidate \<longleftrightarrow> sp_cand a i) \<and>
      (state (peer s i) = Leader \<longrightarrow> sp_won a (CurrentTerm (peer s i)) = Some i))"
proof -
  obtain a where "run_from (spec_step n) init_spec a" and s: "sim n s a" by (rule run_sim [OF assms])
  then show ?thesis using simD(3) [OF s] simD(4) [OF s] unfolding peer_sim_def by blast
qed

theorem cluster_implements_spec_witness:
  "\<exists>s (a :: nat spec). run_events example_system (example_commit 7) = Some s \<and> run_from (spec_step 3) init_spec a \<and>
     sp_term a 0 = 1 \<and> sp_won a 1 = Some 0 \<and> map eTerm (sp_log a 1) = [0, 1] \<and> map eTerm (sp_log a 2) = [0]"
proof -
  have "steady_then example_system (example_commit 7) [] (\<lambda>s s'.
    state (peer s 0) = Leader \<and> CurrentTerm (peer s 0) = 1 \<and> map eTerm (Log (peer s 1)) = [0, 1] \<and>
    map eTerm (Log (peer s 2)) = [0])" by code_simp
  then obtain s where r: "run_events example_system (example_commit 7) = Some s" "run_from steady_step example_system s"
    and p: "state (peer s 0) = Leader" "CurrentTerm (peer s 0) = 1" "map eTerm (Log (peer s 1)) = [0, 1]"
      "map eTerm (Log (peer s 2)) = [0]" by (elim steady_thenE) auto
  from cluster_implements_spec [OF r(2)] obtain a where a: "run_from (spec_step 3) init_spec a"
    "\<forall>i<3. CurrentTerm (peer s i) = sp_term a i \<and> Log (peer s i) = sp_log a i \<and>
      (state (peer s i) = Leader \<longrightarrow> sp_won a (CurrentTerm (peer s i)) = Some i)" by blast
  from a(2) [rule_format, of 0] a(2) [rule_format, of 1] a(2) [rule_format, of 2] p
  have "sp_term a 0 = 1 \<and> sp_won a 1 = Some 0 \<and> map eTerm (sp_log a 1) = [0, 1] \<and> map eTerm (sp_log a 2) = [0]"
    by simp
  with r(1) a(1) show ?thesis by (intro exI conjI) auto
qed

end
