(* ===== verification/Kv_Server.thy ===== *)
theory Kv_Server
  imports Raft_Log
begin

text \<open>
  The replicated key/value server, \<^verbatim>\<open>kvraft/server.go\<close> and \<^verbatim>\<open>kvraft/common.go\<close>. A server owns its
  Raft peer and receives the peer's \<open>ApplyMsg\<close>s in order. \<^verbatim>\<open>kv.mu\<close> protects the two maps, and
  \<^verbatim>\<open>apply\<close> and \<^verbatim>\<open>requestRaft\<close>, which take it more than once or wait, are split into their locked regions;
  \<open>kv_apply\<close> and \<open>requestRaft\<close> put the regions together for a server that does nothing else meanwhile, and
  the theory \<open>Kv_Serving\<close> interleaves them. A channel is a number and nil is \<open>None\<close>; which channels have a receiver blocked in
  that \<^verbatim>\<open>select\<close> is an argument of \<open>kv_apply\<close>, since a send with a default case goes through
  only then. Client and message numbers are Go's \<^verbatim>\<open>int64\<close>, modelled as unbounded integers.
\<close>

section \<open>Data\<close>

record PutAppendArgs =
  paKey :: string
  Value :: string
  paOp :: string
  ClientId :: int
  MsgId :: int

record PutAppendReply =
  paErr :: string

record GetArgs =
  gKey :: string

record GetReply =
  gErr :: string
  gValue :: string

text \<open>The dynamic types of the interface value in the field \<^verbatim>\<open>Command\<close>.\<close>

datatype op_command = CmdPutAppend PutAppendArgs | CmdGet GetArgs

record Op =
  opCommand :: op_command
  NotifyChan :: "nat option"
  OpType :: string

text \<open>A value written by a call of the encoder into the server's snapshot.\<close>

datatype kvgob = GobMsgIds "int \<rightharpoonup> int" | GobStorage "string \<rightharpoonup> string"

record KVServer =
  kvme :: int
  kvrf :: "(Op, kvgob) Raft"
  kvdead :: int
  maxraftstate :: int
  KvStorage :: "string \<rightharpoonup> string"
  ClientMsgId :: "int \<rightharpoonup> int"
  lastLogIndex :: int

section \<open>Duplicate detection\<close>

definition isRepeated :: "KVServer \<Rightarrow> int \<Rightarrow> int \<Rightarrow> bool \<Rightarrow> KVServer \<times> bool" where
  "isRepeated kv clientId msgId update =
     (let compare = (case ClientMsgId kv clientId of None \<Rightarrow> False | Some lastMsgId \<Rightarrow> lastMsgId \<ge> msgId)
      in (if update \<and> \<not> compare
          then kv\<lparr>ClientMsgId := (ClientMsgId kv)(clientId \<mapsto> msgId)\<rparr> else kv, compare))"

section \<open>Snapshots\<close>

text \<open>The argument \<open>len\<close> is the byte length of the encoded Raft state.\<close>

definition snapshot_data :: "KVServer \<Rightarrow> kvgob list" where
  "snapshot_data kv = [GobMsgIds (ClientMsgId kv), GobStorage (KvStorage kv)]"

definition ifSnapshot :: "(Op gobval list \<Rightarrow> int) \<Rightarrow> KVServer \<Rightarrow> KVServer go" where
  "ifSnapshot len kv =
     (if maxraftstate kv \<noteq> -1 \<and> RaftStateSize len (Persister (kvrf kv)) \<ge> maxraftstate kv
      then mapG (\<lambda>rf. kv\<lparr>kvrf := rf\<rparr>)
             (SaveSnapshot (kvrf kv) (lastLogIndex kv) (snapshot_data kv))
      else Inr kv)"

text \<open>
  Decoding into a map that is not nil keeps the entries it has and overwrites those that the
  stream carries; the second decode is not reached when the first one fails.
\<close>

definition updateFromSnapshot :: "KVServer \<Rightarrow> int \<Rightarrow> kvgob list \<Rightarrow> KVServer" where
  "updateFromSnapshot kv index data =
     (if data = [] then kv
      else (let kv1 = kv\<lparr>lastLogIndex := index\<rparr>
            in case data of
                 GobMsgIds ids # rest \<Rightarrow>
                   (let kv2 = kv1\<lparr>ClientMsgId := ClientMsgId kv1 ++ ids\<rparr>
                    in case rest of
                         GobStorage st # _ \<Rightarrow> kv2\<lparr>KvStorage := KvStorage kv2 ++ st\<rparr>
                       | _ \<Rightarrow> kv2)
               | _ \<Rightarrow> kv1))"

section \<open>Applying\<close>

definition kv_store :: "string \<Rightarrow> PutAppendArgs \<Rightarrow> (string \<rightharpoonup> string) \<Rightarrow> (string \<rightharpoonup> string)" where
  "kv_store opType command m =
     (if opType = ''Put'' then m(paKey command \<mapsto> Value command)
      else if opType = ''Append''
           then m(paKey command \<mapsto>
                  (case m (paKey command) of None \<Rightarrow> [] | Some v \<Rightarrow> v) @ Value command)
           else m)"

text \<open>
  \<^verbatim>\<open>apply\<close> takes the lock twice, in \<^verbatim>\<open>isRepeated\<close> and again for the store, and other goroutines may run in
  between and before the notification. The pieces are definitions of their own: up to the end of
  \<^verbatim>\<open>isRepeated\<close>, with the command that is still to be stored; the store; the notification.
\<close>

definition kv_apply_check :: "KVServer \<Rightarrow> Op \<Rightarrow> (KVServer \<times> PutAppendArgs option) go" where
  "kv_apply_check kv op =
     (if OpType op \<noteq> ''Get''
      then (case opCommand op of
              CmdPutAppend command \<Rightarrow>
                (let (kv1, repeated) = isRepeated kv (ClientId command) (MsgId command) True
                 in Inr (kv1, if \<not> repeated then Some command else None))
            | CmdGet _ \<Rightarrow> Inl TypeAssertion)
      else (case opCommand op of
              CmdGet _ \<Rightarrow> Inr (kv, None)
            | CmdPutAppend _ \<Rightarrow> Inl TypeAssertion))"

definition kv_apply_store :: "KVServer \<Rightarrow> Op \<Rightarrow> PutAppendArgs \<Rightarrow> KVServer" where
  "kv_apply_store kv op command = kv\<lparr>KvStorage := kv_store (OpType op) command (KvStorage kv)\<rparr>"

definition kv_apply_notify :: "(nat \<Rightarrow> bool) \<Rightarrow> Op \<Rightarrow> nat list" where
  "kv_apply_notify receiver op =
     (case NotifyChan op of Some ch \<Rightarrow> (if receiver ch then [ch] else []) | None \<Rightarrow> [])"

definition kv_apply ::
  "(nat \<Rightarrow> bool) \<Rightarrow> (Op gobval list \<Rightarrow> int) \<Rightarrow> KVServer \<Rightarrow> (Op, kvgob) ApplyMsg \<Rightarrow>
   (KVServer \<times> nat list) go" where
  "kv_apply receiver len kv msg =
     (case Command msg of
        CommandIface op \<Rightarrow>
          bindG (kv_apply_check kv op) (\<lambda>(kv1, todo).
            let kv2 = (case todo of Some command \<Rightarrow> kv_apply_store kv1 op command | None \<Rightarrow> kv1)
            in mapG (\<lambda>kv3. (kv3, kv_apply_notify receiver op)) (ifSnapshot len kv2))
      | _ \<Rightarrow> Inl TypeAssertion)"

definition kv_killed :: "KVServer \<Rightarrow> bool" where
  "kv_killed kv \<longleftrightarrow> kvdead kv = 1"

definition kv_Kill :: "KVServer \<Rightarrow> KVServer" where
  "kv_Kill kv = kv\<lparr>kvdead := 1, kvrf := raft_Kill (kvrf kv)\<rparr>"

text \<open>One iteration of the loop: \<open>None\<close> when the loop has ended or waits for a message.\<close>

definition kv_applyLoop ::
  "(nat \<Rightarrow> bool) \<Rightarrow> (Op gobval list \<Rightarrow> int) \<Rightarrow> KVServer \<Rightarrow> (KVServer \<times> nat list) option go" where
  "kv_applyLoop receiver len kv =
     (if kv_killed kv then Inr None
      else case applyChan (kvrf kv) of
             [] \<Rightarrow> Inr None
           | msg # rest \<Rightarrow>
               (let kv1 = kv\<lparr>kvrf := (kvrf kv)\<lparr>applyChan := rest\<rparr>\<rparr>
                in if CommandValid msg then mapG Some (kv_apply receiver len kv1 msg)
                   else (let kv2 = (case Command msg of
                                      SnapshotIface sn \<Rightarrow> updateFromSnapshot kv1 (sIndex sn) (Storage sn)
                                    | _ \<Rightarrow> kv1)
                         in mapG (\<lambda>kv3. Some (kv3, [])) (ifSnapshot len kv2))))"

section \<open>Requests\<close>

text \<open>
  \<open>requestRaft\<close> up to its \<^verbatim>\<open>select\<close>, in its two parts, between which the lock is free: the answer, or the channel
  it waits on and the log index. The argument \<open>ch\<close> is the new channel; the peer is read at two moments, as in
  \<open>Start\<close>.
\<close>

datatype request_state = Returned bool | Waiting nat int

definition requestRaft_check :: "KVServer \<Rightarrow> int \<Rightarrow> int \<Rightarrow> bool" where
  "requestRaft_check kv clientId msgId \<longleftrightarrow> msgId > 0 \<and> snd (isRepeated kv clientId msgId False)"

definition requestRaft_start ::
  "int \<Rightarrow> (Op, kvgob) Raft \<Rightarrow> nat \<Rightarrow> KVServer \<Rightarrow> op_command \<Rightarrow> string \<Rightarrow> KVServer \<times> request_state" where
  "requestRaft_start now rfGetState ch kv args opType =
     (let op = \<lparr>opCommand = args, NotifyChan = Some ch, OpType = opType\<rparr>;
          (rf, index, term, isLeader, gs) = Start now rfGetState (kvrf kv) op;
          kv1 = kv\<lparr>kvrf := rf\<rparr>
      in if \<not> isLeader then (kv1, Returned False) else (kv1, Waiting ch index))"

definition requestRaft ::
  "int \<Rightarrow> (Op, kvgob) Raft \<Rightarrow> nat \<Rightarrow> KVServer \<Rightarrow> int \<Rightarrow> int \<Rightarrow> op_command \<Rightarrow> string \<Rightarrow>
   KVServer \<times> request_state" where
  "requestRaft now rfGetState ch kv clientId msgId args opType =
     (if requestRaft_check kv clientId msgId then (kv, Returned True)
      else requestRaft_start now rfGetState ch kv args opType)"

text \<open>The two ways out of the \<^verbatim>\<open>select\<close>: a notification, or the timer.\<close>

definition requestRaft_notified :: "KVServer \<Rightarrow> int \<Rightarrow> KVServer \<times> bool" where
  "requestRaft_notified kv index = (kv\<lparr>lastLogIndex := index\<rparr>, True)"

definition requestRaft_timeout :: "KVServer \<Rightarrow> KVServer \<times> bool" where
  "requestRaft_timeout kv = (kv, False)"

definition kv_Get_call ::
  "int \<Rightarrow> (Op, kvgob) Raft \<Rightarrow> nat \<Rightarrow> KVServer \<Rightarrow> GetArgs \<Rightarrow> KVServer \<times> request_state" where
  "kv_Get_call now rfGetState ch kv args =
     requestRaft now rfGetState ch kv (-1) (-1) (CmdGet args) ''Get''"

definition kv_Get_reply :: "KVServer \<Rightarrow> GetArgs \<Rightarrow> bool \<Rightarrow> GetReply" where
  "kv_Get_reply kv args msg =
     (if msg
      then (case KvStorage kv (gKey args) of
              Some value \<Rightarrow> \<lparr>gErr = [], gValue = value\<rparr>
            | None \<Rightarrow> \<lparr>gErr = ''NotFoundError'', gValue = []\<rparr>)
      else \<lparr>gErr = ''NotLeaderError'', gValue = []\<rparr>)"

definition kv_PutAppend_call ::
  "int \<Rightarrow> (Op, kvgob) Raft \<Rightarrow> nat \<Rightarrow> KVServer \<Rightarrow> PutAppendArgs \<Rightarrow> KVServer \<times> request_state" where
  "kv_PutAppend_call now rfGetState ch kv args =
     requestRaft now rfGetState ch kv (ClientId args) (MsgId args) (CmdPutAppend args) (paOp args)"

definition kv_PutAppend_reply :: "bool \<Rightarrow> PutAppendReply" where
  "kv_PutAppend_reply msg = \<lparr>paErr = (if msg then [] else ''NotLeaderError'')\<rparr>"

section \<open>Starting a server\<close>

text \<open>
  \<^verbatim>\<open>Make\<close> sends a persisted snapshot on the channel before the maps are created; the loop that
  receives it starts last.
\<close>

definition StartKVServer ::
  "int \<Rightarrow> int \<Rightarrow> nat \<Rightarrow> int \<Rightarrow> (Op gobval, kvgob) Persister \<Rightarrow> int \<Rightarrow> KVServer" where
  "StartKVServer now rnd servers i persister maxstate =
     \<lparr>kvme = i, kvrf = Make now rnd servers i persister, kvdead = 0, maxraftstate = maxstate,
      KvStorage = Map.empty, ClientMsgId = Map.empty, lastLogIndex = 0\<rparr>"

end
