(* ===== verification/Kv_Dedup.thy ===== *)
theory Kv_Dedup
  imports Kv_Server
begin

text \<open>
  What the key/value server guarantees. \<open>kv_exec\<close> is the abstract machine of the service: the two
  maps and the effect of one operation on them. The locale \<open>at_most_once\<close> states the contract of
  duplicate detection and derives that replaying operations is harmless; it is interpreted on the
  machine, and the server's \<^verbatim>\<open>apply\<close> is shown to refine it, snapshots included.
\<close>

section \<open>At most once\<close>

locale at_most_once =
  fixes exec :: "'s \<Rightarrow> 'o \<Rightarrow> 's"
    and recorded :: "'s \<Rightarrow> 'o \<Rightarrow> bool"
  assumes exec_records: "recorded (exec s x) x"
    and recorded_mono: "recorded s x \<Longrightarrow> recorded (exec s y) x"
    and exec_recorded: "recorded s x \<Longrightarrow> exec s x = s"
begin

lemma recorded_run_mono: "recorded s x \<Longrightarrow> recorded (foldl exec s ys) x"
  by (induction ys arbitrary: s) (simp_all add: recorded_mono)

lemma run_records: "x \<in> set xs \<Longrightarrow> recorded (foldl exec s xs) x"
  by (induction xs arbitrary: s) (auto intro: recorded_run_mono exec_records)

lemma replay_recorded: "(\<And>x. x \<in> set xs \<Longrightarrow> recorded s x) \<Longrightarrow> foldl exec s xs = s"
  by (induction xs) (simp_all add: exec_recorded)

lemma replay: "set ys \<subseteq> set xs \<Longrightarrow> foldl exec (foldl exec s xs) ys = foldl exec s xs"
  by (rule replay_recorded) (auto intro: run_records)

text \<open>
  A state that is ahead of the index it is labelled with: going on from the index repeats some
  operations and ends in the same state.
\<close>

lemma replay_overlap:
  assumes "k \<le> j"
  shows "foldl exec (foldl exec s (take j xs)) (drop k xs) = foldl exec s xs"
proof -
  have d: "drop k xs = take (j - k) (drop k xs) @ drop j xs"
    using assms by (metis append_take_drop_id drop_drop le_add_diff_inverse2)
  have sub: "set (take (j - k) (drop k xs)) \<subseteq> set (take j xs)"
    using assms by (metis drop_take set_drop_subset)
  have "foldl exec (foldl exec s (take j xs)) (drop k xs)
      = foldl exec (foldl exec (foldl exec s (take j xs)) (take (j - k) (drop k xs))) (drop j xs)"
    by (subst d) simp
  also have "\<dots> = foldl exec (foldl exec s (take j xs)) (drop j xs)" by (simp add: replay [OF sub])
  also have "\<dots> = foldl exec s xs" by (metis append_take_drop_id foldl_append)
  finally show ?thesis .
qed

end

section \<open>The service as an abstract machine\<close>

type_synonym kv_state = "(int \<rightharpoonup> int) \<times> (string \<rightharpoonup> string)"

definition typed_op :: "Op \<Rightarrow> bool" where
  "typed_op op \<longleftrightarrow>
     (case opCommand op of CmdGet _ \<Rightarrow> OpType op = ''Get'' | CmdPutAppend _ \<Rightarrow> OpType op \<noteq> ''Get'')"

definition seen :: "(int \<rightharpoonup> int) \<Rightarrow> PutAppendArgs \<Rightarrow> bool" where
  "seen ids c \<longleftrightarrow> (case ids (ClientId c) of None \<Rightarrow> False | Some l \<Rightarrow> MsgId c \<le> l)"

definition kv_exec :: "kv_state \<Rightarrow> Op \<Rightarrow> kv_state" where
  "kv_exec s op =
     (case opCommand op of
        CmdGet _ \<Rightarrow> s
      | CmdPutAppend c \<Rightarrow>
          if seen (fst s) c then s
          else ((fst s)(ClientId c \<mapsto> MsgId c), kv_store (OpType op) c (snd s)))"

definition kv_recorded :: "kv_state \<Rightarrow> Op \<Rightarrow> bool" where
  "kv_recorded s op \<longleftrightarrow>
     (case opCommand op of CmdGet _ \<Rightarrow> True | CmdPutAppend c \<Rightarrow> seen (fst s) c)"

lemma seen_update: "seen (ids(ClientId c \<mapsto> MsgId c)) c"
  by (simp add: seen_def)

lemma seen_mono:
  assumes "seen ids c" "\<not> seen ids d"
  shows "seen (ids(ClientId d \<mapsto> MsgId d)) c"
  using assms by (auto simp: seen_def split: option.splits)

interpretation kv: at_most_once kv_exec kv_recorded
  by unfold_locales
    (auto simp: kv_exec_def kv_recorded_def seen_update seen_mono split: op_command.splits)

text \<open>Keys are never removed, so a later state has every key of an earlier one.\<close>

lemma kv_exec_dom:
  "dom (fst s) \<subseteq> dom (fst (kv_exec s op))" "dom (snd s) \<subseteq> dom (snd (kv_exec s op))"
  by (auto simp: kv_exec_def kv_store_def split: op_command.splits)

lemma kv_run_dom:
  "dom (fst s) \<subseteq> dom (fst (foldl kv_exec s ops)) \<and> dom (snd s) \<subseteq> dom (snd (foldl kv_exec s ops))"
proof (induction ops arbitrary: s)
  case (Cons op ops)
  show ?case using Cons.IH [of "kv_exec s op"] kv_exec_dom [of s op] by (simp add: subset_trans)
qed simp

lemma map_add_dominated: "dom m \<subseteq> dom m' \<Longrightarrow> m ++ m' = m'"
  by (rule ext) (auto simp: map_add_def dom_def split: option.splits)

section \<open>The server refines the machine\<close>

definition kv_view :: "KVServer \<Rightarrow> kv_state" where
  "kv_view kv = (ClientMsgId kv, KvStorage kv)"

definition kv_ok :: "KVServer \<Rightarrow> bool" where
  "kv_ok kv \<longleftrightarrow> wf_log (kvrf kv) \<and> lastLogIndex kv \<le> lastIndex (kvrf kv)"

lemma SaveSnapshot_any:
  assumes wf: "wf_log rf" and le: "index \<le> lastIndex rf"
  shows "\<exists>rf'. SaveSnapshot rf index st = Inr rf' \<and> wf_log rf' \<and> lastIndex rf' = lastIndex rf"
proof (cases "snapIndex rf < index")
  case True
  obtain rf' where r: "SaveSnapshot rf index st = Inr rf'" "wf_log rf'"
    "snapshot rf' = \<lparr>sIndex = index, sTerm = eTerm (Log rf ! nat (index - snapIndex rf)), Storage = st\<rparr>"
    "Log rf' = drop (nat (index - snapIndex rf)) (Log rf)"
    using SaveSnapshot_ok [OF wf True le] by metis
  have "lastIndex rf' = lastIndex rf"
    using wf_lastIndex [OF wf] wf_lastIndex [OF r(2)] r(3,4) True le by simp
  with r show ?thesis by blast
qed (use wf in \<open>simp add: SaveSnapshot_def\<close>)

lemma ifSnapshot_ok:
  assumes "kv_ok kv"
  shows "\<exists>kv'. ifSnapshot len kv = Inr kv' \<and> kv_ok kv' \<and> kv_view kv' = kv_view kv"
proof -
  obtain rf where "SaveSnapshot (kvrf kv) (lastLogIndex kv) (snapshot_data kv) = Inr rf"
    "wf_log rf" "lastIndex rf = lastIndex (kvrf kv)"
    using SaveSnapshot_any assms unfolding kv_ok_def by blast
  then show ?thesis using assms by (auto simp: ifSnapshot_def kv_ok_def kv_view_def)
qed

definition kv_effect :: "KVServer \<Rightarrow> Op \<Rightarrow> KVServer" where
  "kv_effect kv op =
     kv\<lparr>ClientMsgId := fst (kv_exec (kv_view kv) op), KvStorage := snd (kv_exec (kv_view kv) op)\<rparr>"

lemma kv_effect_simps [simp]:
  "kv_view (kv_effect kv op) = kv_exec (kv_view kv) op" "kvrf (kv_effect kv op) = kvrf kv"
  "lastLogIndex (kv_effect kv op) = lastLogIndex kv"
  by (simp_all add: kv_effect_def kv_view_def)

text \<open>Every branch of \<^verbatim>\<open>apply\<close> on a well-typed operation.\<close>

lemma kv_apply_effect:
  assumes "typed_op op"
  shows "kv_apply receiver len kv \<lparr>CommandValid = v, Command = CommandIface op, CommandIndex = i\<rparr>
       = mapG (\<lambda>kv2. (kv2, kv_apply_notify receiver op)) (ifSnapshot len (kv_effect kv op))"
proof (cases "opCommand op")
  case (CmdPutAppend c)
  moreover have "kv = kv\<lparr>ClientMsgId := ClientMsgId kv, KvStorage := KvStorage kv\<rparr>" by simp
  ultimately show ?thesis using assms
    by (auto simp: kv_apply_def kv_apply_check_def kv_apply_store_def typed_op_def isRepeated_def kv_effect_def kv_exec_def kv_view_def
        seen_def Let_def split: option.splits)
next
  case (CmdGet g)
  moreover have "kv = kv\<lparr>ClientMsgId := ClientMsgId kv, KvStorage := KvStorage kv\<rparr>" by simp
  ultimately show ?thesis using assms
    by (auto simp: kv_apply_def kv_apply_check_def typed_op_def kv_effect_def kv_exec_def kv_view_def Let_def)
qed

lemma kv_apply_ok:
  assumes "typed_op op" "kv_ok kv"
  shows "\<exists>kv' ns. kv_apply receiver len kv
      \<lparr>CommandValid = v, Command = CommandIface op, CommandIndex = i\<rparr> = Inr (kv', ns) \<and>
      kv_ok kv' \<and> kv_view kv' = kv_exec (kv_view kv) op"
proof -
  have "kv_ok (kv_effect kv op)" using assms(2) by (simp add: kv_ok_def)
  from ifSnapshot_ok [OF this, of len] assms(1) show ?thesis by (auto simp: kv_apply_effect)
qed

section \<open>The apply loop\<close>

text \<open>The loop for as many messages as \<open>n\<close>, or until the channel is empty or the server killed.\<close>

fun kv_loop :: "nat \<Rightarrow> (nat \<Rightarrow> bool) \<Rightarrow> (Op gobval list \<Rightarrow> int) \<Rightarrow> KVServer \<Rightarrow> KVServer go" where
  "kv_loop 0 receiver len kv = Inr kv"
| "kv_loop (Suc n) receiver len kv =
     bindG (kv_applyLoop receiver len kv) (\<lambda>r.
       case r of None \<Rightarrow> Inr kv | Some (kv', ns) \<Rightarrow> kv_loop n receiver len kv')"

lemma SaveSnapshot_sends:
  assumes "SaveSnapshot rf index st = Inr rf'"
  shows "\<exists>ms. applyChan rf' = applyChan rf @ ms"
  using assms
  by (auto simp: SaveSnapshot_def Let_def bindG_eq_Inr_iff persist_def send_apply_def split: if_splits)

lemma ifSnapshot_frame:
  assumes "ifSnapshot len kv = Inr kv'"
  shows "\<exists>ms. applyChan (kvrf kv') = applyChan (kvrf kv) @ ms" and "kvdead kv' = kvdead kv"
    and "lastLogIndex kv' = lastLogIndex kv"
  using assms
  by (auto simp: ifSnapshot_def mapG_eq_Inr_iff dest: SaveSnapshot_sends split: if_splits)

definition delivers :: "(Op, kvgob) ApplyMsg \<Rightarrow> Op \<Rightarrow> bool" where
  "delivers m op \<longleftrightarrow> CommandValid m \<and> Command m = CommandIface op \<and> typed_op op"

lemma kv_ok_channel: "kv_ok (kv\<lparr>kvrf := (kvrf kv)\<lparr>applyChan := ms\<rparr>\<rparr>) = kv_ok kv"
  by (simp add: kv_ok_def wf_log_def getLastLogUnLock_def snapshotEntry_def)

lemma kv_applyLoop_delivers:
  assumes ok: "kv_ok kv" and live: "kvdead kv \<noteq> 1" and d: "delivers m op"
    and ch: "applyChan (kvrf kv) = m # rest"
  shows "\<exists>kv' ns ms. kv_applyLoop receiver len kv = Inr (Some (kv', ns)) \<and> kv_ok kv' \<and>
    kvdead kv' = kvdead kv \<and> kv_view kv' = kv_exec (kv_view kv) op \<and>
    applyChan (kvrf kv') = rest @ ms"
proof -
  let ?kv1 = "kv\<lparr>kvrf := (kvrf kv)\<lparr>applyChan := rest\<rparr>\<rparr>"
  have "kv_ok (kv_effect ?kv1 op)"
    using ok kv_ok_channel [where kv = kv and ms = rest] by (simp add: kv_ok_def)
  then obtain kv2 where s: "ifSnapshot len (kv_effect ?kv1 op) = Inr kv2" "kv_ok kv2"
    "kv_view kv2 = kv_exec (kv_view ?kv1) op" using ifSnapshot_ok by fastforce
  have m: "m = \<lparr>CommandValid = True, Command = CommandIface op, CommandIndex = CommandIndex m\<rparr>"
    using d by (cases m) (simp add: delivers_def)
  have "\<exists>ns. kv_apply receiver len ?kv1 m = Inr (kv2, ns)"
    using d s(1) by (subst m) (simp add: kv_apply_effect delivers_def)
  then have "\<exists>ns. kv_applyLoop receiver len kv = Inr (Some (kv2, ns))"
    using live ch d by (auto simp: kv_applyLoop_def kv_killed_def delivers_def Let_def)
  moreover have "kv_view ?kv1 = kv_view kv" by (simp add: kv_view_def)
  moreover have "kvdead (kv_effect ?kv1 op) = kvdead kv" by (simp add: kv_effect_def)
  ultimately show ?thesis using s ifSnapshot_frame [OF s(1)] by auto
qed

lemma kv_loop_delivers:
  assumes "kv_ok kv" "kvdead kv \<noteq> 1" "list_all2 delivers msgs ops"
    "applyChan (kvrf kv) = msgs @ rest"
  shows "\<exists>kv' ms. kv_loop (length msgs) receiver len kv = Inr kv' \<and> kv_ok kv' \<and>
    kvdead kv' \<noteq> 1 \<and> kv_view kv' = foldl kv_exec (kv_view kv) ops \<and> applyChan (kvrf kv') = rest @ ms"
  using assms
proof (induction msgs arbitrary: kv ops rest)
  case (Cons m msgs)
  from Cons.prems(3) obtain op ops' where o: "ops = op # ops'" "delivers m op"
    "list_all2 delivers msgs ops'" by (auto simp: list_all2_Cons1)
  obtain kv1 ns ms where 1: "kv_applyLoop receiver len kv = Inr (Some (kv1, ns))" "kv_ok kv1"
    "kvdead kv1 = kvdead kv" "kv_view kv1 = kv_exec (kv_view kv) op"
    "applyChan (kvrf kv1) = msgs @ rest @ ms"
    using kv_applyLoop_delivers [OF Cons.prems(1,2) o(2), of "msgs @ rest"] Cons.prems(4) by fastforce
  from Cons.IH [OF 1(2) _ o(3) 1(5)] 1 Cons.prems(2) o(1) show ?case by auto
qed simp

section \<open>Properties\<close>

text \<open>
  The specification of exactly-once: keep the first request of every number and run it plainly.
  A clerk numbers its requests upwards and repeats one until it is answered, so a number that is
  new in the log is above every earlier number of its client.
\<close>

fun request_id :: "op_command \<Rightarrow> (int \<times> int) option" where
  "request_id (CmdPutAppend c) = Some (ClientId c, MsgId c)"
| "request_id (CmdGet g) = None"

fun first_requests :: "(int \<times> int) list \<Rightarrow> Op list \<Rightarrow> Op list" where
  "first_requests old [] = []"
| "first_requests old (op # ops) =
     (case request_id (opCommand op) of
        None \<Rightarrow> first_requests old ops
      | Some r \<Rightarrow> if r \<in> set old then first_requests old ops
                  else op # first_requests (r # old) ops)"

fun in_order :: "(int \<times> int) list \<Rightarrow> Op list \<Rightarrow> bool" where
  "in_order old [] = True"
| "in_order old (op # ops) =
     (case request_id (opCommand op) of
        None \<Rightarrow> in_order old ops
      | Some (c, m) \<Rightarrow> ((c, m) \<in> set old \<or> list_all (\<lambda>(c', m'). c' = c \<longrightarrow> m' < m) old) \<and>
                       in_order ((c, m) # old) ops)"

definition kv_raw :: "(string \<rightharpoonup> string) \<Rightarrow> Op \<Rightarrow> (string \<rightharpoonup> string)" where
  "kv_raw st op =
     (case opCommand op of CmdPutAppend c \<Rightarrow> kv_store (OpType op) c st | CmdGet _ \<Rightarrow> st)"

definition tracks :: "(int \<rightharpoonup> int) \<Rightarrow> (int \<times> int) list \<Rightarrow> bool" where
  "tracks ids old \<longleftrightarrow> (\<forall>c l. ids c = Some l \<longrightarrow> (c, l) \<in> set old) \<and>
     (\<forall>(c, m) \<in> set old. \<exists>l. ids c = Some l \<and> m \<le> l)"

lemma tracks_seen:
  assumes t: "tracks ids old"
    and o: "(ClientId c, MsgId c) \<in> set old \<or>
      list_all (\<lambda>(c', m'). c' = ClientId c \<longrightarrow> m' < MsgId c) old"
  shows "seen ids c \<longleftrightarrow> (ClientId c, MsgId c) \<in> set old"
proof
  assume "seen ids c"
  then obtain l where l: "ids (ClientId c) = Some l" "MsgId c \<le> l"
    by (auto simp: seen_def split: option.splits)
  then have "(ClientId c, l) \<in> set old" using t by (simp add: tracks_def)
  with o l(2) show "(ClientId c, MsgId c) \<in> set old" by (fastforce simp: list_all_iff)
qed (use t in \<open>fastforce simp: tracks_def seen_def\<close>)

lemma tracks_insert:
  assumes "tracks ids old" "list_all (\<lambda>(c', m'). c' = c \<longrightarrow> m' < m) old"
  shows "tracks (ids(c \<mapsto> m)) ((c, m) # old)"
  using assms by (fastforce simp: tracks_def list_all_iff)

lemma tracks_again: "tracks ids old \<Longrightarrow> r \<in> set old \<Longrightarrow> tracks ids (r # old)"
  by (auto simp: tracks_def)

lemma first_requests_cong: "set old = set old' \<Longrightarrow> first_requests old ops = first_requests old' ops"
proof (induction ops arbitrary: old old')
  case (Cons op ops)
  show ?case
    using Cons.prems Cons.IH [OF Cons.prems]
      Cons.IH [of "the (request_id (opCommand op)) # old" "the (request_id (opCommand op)) # old'"]
    by (cases "request_id (opCommand op)") simp_all
qed simp

lemma first_requests_again: "r \<in> set old \<Longrightarrow> first_requests (r # old) ops = first_requests old ops"
  by (rule first_requests_cong) auto

lemma dedup_first:
  assumes "tracks (fst s) old" "in_order old ops"
  shows "snd (foldl kv_exec s ops) = foldl kv_raw (snd s) (first_requests old ops)"
  using assms
proof (induction ops arbitrary: s old)
  case (Cons op ops)
  show ?case
  proof (cases "opCommand op")
    case (CmdGet g)
    then show ?thesis using Cons by (simp add: kv_exec_def)
  next
    case (CmdPutAppend c)
    let ?r = "(ClientId c, MsgId c)"
    have o: "?r \<in> set old \<or> list_all (\<lambda>(c', m'). c' = ClientId c \<longrightarrow> m' < MsgId c) old"
      and rest: "in_order (?r # old) ops" using Cons.prems(2) CmdPutAppend by simp_all
    note sn = tracks_seen [OF Cons.prems(1) o]
    show ?thesis
    proof (cases "?r \<in> set old")
      case True
      then show ?thesis
        using Cons.IH [OF tracks_again [OF Cons.prems(1) True] rest] sn CmdPutAppend
        by (simp add: kv_exec_def first_requests_again)
    next
      case False
      with o have "list_all (\<lambda>(c', m'). c' = ClientId c \<longrightarrow> m' < MsgId c) old" by simp
      note t = tracks_insert [OF Cons.prems(1) this]
      have e: "kv_exec s op = ((fst s)(ClientId c \<mapsto> MsgId c), kv_raw (snd s) op)"
        using False sn CmdPutAppend by (simp add: kv_exec_def kv_raw_def)
      have "tracks (fst (kv_exec s op)) (?r # old)" using t by (simp add: e)
      from Cons.IH [OF this rest] show ?thesis using False CmdPutAppend by (simp add: e)
    qed
  qed
qed simp

text \<open>
  C11: Exactly once. When the committed operations on a server's channel carry, per client, numbers
  that are new only upwards, however often the clients' retries repeat them, the apply loop
  returns without a panic and leaves the storage that running the first copy of each request
  once, in log order, would leave; also when the server takes snapshots on the way.
\<close>

theorem exactly_once:
  assumes "kv_ok kv" and "kvdead kv \<noteq> 1" and "ClientMsgId kv = Map.empty"
    and "applyChan (kvrf kv) = msgs @ rest" and "list_all2 delivers msgs ops" and "in_order [] ops"
  shows "\<exists>kv'. kv_loop (length msgs) receiver len kv = Inr kv' \<and>
    KvStorage kv' = foldl kv_raw (KvStorage kv) (first_requests [] ops)"
proof -
  have "tracks (fst (kv_view kv)) []" using assms(3) by (simp add: tracks_def kv_view_def)
  note first = dedup_first [OF this assms(6)]
  obtain kv' where "kv_loop (length msgs) receiver len kv = Inr kv'"
    and v: "kv_view kv' = foldl kv_exec (kv_view kv) ops"
    using kv_loop_delivers [OF assms(1,2,5,4), of receiver len] by blast
  moreover have "KvStorage kv' = foldl kv_raw (KvStorage kv) (first_requests [] ops)"
    using first v [symmetric] by (simp add: kv_view_def)
  ultimately show ?thesis by blast
qed

definition example_op :: "string \<Rightarrow> int \<Rightarrow> string \<Rightarrow> Op" where
  "example_op ty m v = \<lparr>opCommand = CmdPutAppend \<lparr>paKey = ''k'', Value = v, paOp = ty, ClientId = 9,
     MsgId = m\<rparr>, NotifyChan = None, OpType = ty\<rparr>"

definition example_ops :: "Op list" where
  "example_ops = [example_op ''Put'' 1 ''a'', example_op ''Append'' 2 ''b'', example_op ''Put'' 1 ''a'',
     example_op ''Append'' 2 ''b'', example_op ''Append'' 3 ''c'']"

definition example_server :: "Op list \<Rightarrow> KVServer" where
  "example_server ops =
     (let kv = StartKVServer 0 0 3 0 MakePersister 1000
      in kv\<lparr>kvrf := (kvrf kv)\<lparr>applyChan :=
           map (\<lambda>op. \<lparr>CommandValid = True, Command = CommandIface op, CommandIndex = 1\<rparr>) ops\<rparr>\<rparr>)"

lemma example_server_fields [simp]:
  "kvdead (example_server ops) = 0" "ClientMsgId (example_server ops) = Map.empty"
  "KvStorage (example_server ops) = Map.empty" "lastLogIndex (example_server ops) = 0"
  by (simp_all add: example_server_def StartKVServer_def Let_def)

lemma example_server_ok: "kv_ok (example_server ops)"
proof -
  have "wf_log (kvrf (example_server ops))"
    using wf_Make_fresh [of 0 0 3 0] by (simp add: example_server_def StartKVServer_def Let_def wf_log_def)
  moreover have "lastIndex (kvrf (example_server ops)) = 0"
    by (simp add: example_server_def StartKVServer_def Let_def getLastLogUnLock_def Make_def
        readPersist_def ReadRaftState_def MakePersister_def)
  ultimately show ?thesis by (simp add: kv_ok_def)
qed

lemma example_delivers:
  "list_all typed_op ops \<Longrightarrow> list_all2 delivers
     (map (\<lambda>op. \<lparr>CommandValid = True, Command = CommandIface op, CommandIndex = 1\<rparr>) ops) ops"
  by (induction ops) (auto simp: delivers_def)

lemma example_channel:
  "applyChan (kvrf (example_server ops)) =
   map (\<lambda>op. \<lparr>CommandValid = True, Command = CommandIface op, CommandIndex = 1\<rparr>) ops @ []"
  by (simp add: example_server_def Let_def)

theorem exactly_once_witness:
  "\<exists>kv'. kv_loop 5 (\<lambda>_. False) (\<lambda>_. 2000) (example_server example_ops) = Inr kv' \<and>
     KvStorage kv' ''k'' = Some ''abc''"
proof -
  have "list_all typed_op example_ops" "in_order [] example_ops" by code_simp+
  from exactly_once [OF example_server_ok _ _ example_channel example_delivers [OF this(1)] this(2),
      of "\<lambda>_. False" "\<lambda>_. 2000"]
  obtain kv' where "kv_loop 5 (\<lambda>_. False) (\<lambda>_. 2000) (example_server example_ops) = Inr kv'"
    "KvStorage kv' = foldl kv_raw Map.empty (first_requests [] example_ops)"
    by (auto simp: example_ops_def numeral_eq_Suc)
  moreover have "foldl kv_raw Map.empty (first_requests [] example_ops) ''k'' = Some ''abc''" by code_simp
  ultimately show ?thesis by auto
qed

text \<open>
  C12: Recovery from a snapshot. A server whose state is ahead of the index it labels its snapshot
  with (it has applied \<open>j\<close> operations, the snapshot says \<open>k \<le> j\<close>) loses and repeats nothing: any
  server that has applied at most those \<open>j\<close> operations (none after a restart), takes over the
  snapshot and is then sent the operations after index \<open>k\<close>, ends with the same duplicate table
  and the same storage as a server that applies all operations from the beginning, although
  decoding only merges the snapshot into its maps.
\<close>

theorem snapshot_recovery:
  assumes "list_all typed_op ops" and "k \<le> j" and "i \<le> j"
    and "kv_ok source" and "kv_view source = foldl kv_exec (Map.empty, Map.empty) (take j ops)"
    and "kv_ok kv" and "kv_view kv = foldl kv_exec (Map.empty, Map.empty) (take i ops)"
    and "kvdead kv \<noteq> 1" and "index \<le> eIndex (getLastLogUnLock (kvrf kv))"
    and "applyChan (kvrf kv) = msgs" and "list_all2 delivers msgs (drop k ops)"
  shows "\<exists>kv'. kv_loop (length msgs) receiver len
      (updateFromSnapshot kv index (snapshot_data source)) = Inr kv' \<and>
    kv_view kv' = foldl kv_exec (Map.empty, Map.empty) ops"
proof -
  let ?s0 = "(Map.empty, Map.empty)" and ?kv1 = "updateFromSnapshot kv index (snapshot_data source)"
  have "take j ops = take i ops @ take (j - i) (drop i ops)"
    using assms(3) by (metis le_add_diff_inverse take_add)
  then have src: "kv_view source = foldl kv_exec (kv_view kv) (take (j - i) (drop i ops))"
    using assms(5,7) by simp
  have "kv_view ?kv1 = (fst (kv_view kv) ++ fst (kv_view source), snd (kv_view kv) ++ snd (kv_view source))"
    by (simp add: updateFromSnapshot_def snapshot_data_def kv_view_def Let_def)
  then have view1: "kv_view ?kv1 = foldl kv_exec ?s0 (take j ops)"
    using kv_run_dom [of "kv_view kv" "take (j - i) (drop i ops)"] src assms(5)
    by (simp add: map_add_dominated)
  have "kv_ok ?kv1" "kvdead ?kv1 \<noteq> 1" "applyChan (kvrf ?kv1) = msgs @ []"
    using assms(6,8-10) by (simp_all add: updateFromSnapshot_def snapshot_data_def Let_def kv_ok_def)
  from kv_loop_delivers [OF this(1,2) assms(11) this(3), of receiver len]
  show ?thesis using view1 kv.replay_overlap [OF assms(2), of ?s0 ops] by auto
qed

theorem snapshot_recovery_witness:
  "\<exists>kv'. kv_loop 3 (\<lambda>_. False) (\<lambda>_. 0)
       (updateFromSnapshot (example_server (drop 2 example_ops)) 0
          (snapshot_data ((example_server [])\<lparr>ClientMsgId := [9 \<mapsto> 2], KvStorage := [''k'' \<mapsto> ''ab'']\<rparr>)))
     = Inr kv' \<and> kv_view kv' = foldl kv_exec (Map.empty, Map.empty) example_ops"
proof -
  let ?src = "(example_server [])\<lparr>ClientMsgId := [9 \<mapsto> 2], KvStorage := [''k'' \<mapsto> ''ab'']\<rparr>"
  have ty: "list_all typed_op example_ops" "list_all typed_op (drop 2 example_ops)" by code_simp+
  have last: "0 \<le> lastIndex (kvrf (example_server (drop 2 example_ops)))"
    using example_server_ok [of "drop 2 example_ops"] by (simp add: kv_ok_def)
  have src: "kv_ok ?src" using example_server_ok [of "[]"] by (simp add: kv_ok_def)
  have view: "kv_view ?src = foldl kv_exec (Map.empty, Map.empty) (take 3 example_ops)"
    by (auto simp: kv_view_def example_ops_def example_op_def kv_exec_def seen_def kv_store_def
        numeral_3_eq_3 fun_upd_def)
  have kv: "kv_view (example_server (drop 2 example_ops)) =
      foldl kv_exec (Map.empty, Map.empty) (take 0 example_ops)" by (simp add: kv_view_def)
  have len: "length (drop 2 example_ops) = 3" by (simp add: example_ops_def)
  from snapshot_recovery [OF ty(1) _ _ src view example_server_ok kv _ last
      example_channel [unfolded append_Nil2] example_delivers [OF ty(2)], of "\<lambda>_. False" "\<lambda>_. 0"]
  show ?thesis by (simp del: kv_loop.simps length_drop add: len)
qed

text \<open>
  C13: From the Raft log to the storage. When a peer has committed entries up to an index inside its
  log and they carry well-typed operations, \<^verbatim>\<open>raft.apply\<close> and then the server's apply loop return
  without a panic, and the server's two maps are the result of executing exactly the entries after
  the last applied one up to the commit index, in log order.
\<close>

theorem committed_entries_reach_storage:
  assumes "kv_ok kv" and "kvdead kv \<noteq> 1" and "applyChan (kvrf kv) = []"
    and "sIndex (snapshot (kvrf kv)) \<le> lastApplied (kvrf kv)"
    and "lastApplied (kvrf kv) \<le> commitIndex (kvrf kv)"
    and "commitIndex (kvrf kv) \<le> eIndex (getLastLogUnLock (kvrf kv))"
    and "ops = map (\<lambda>e. the (eLog e))
           (take (nat (commitIndex (kvrf kv) - lastApplied (kvrf kv)))
             (drop (nat (lastApplied (kvrf kv) + 1 - sIndex (snapshot (kvrf kv)))) (Log (kvrf kv))))"
    and "\<forall>e \<in> set (tl (Log (kvrf kv))). \<exists>op. eLog e = Some op \<and> typed_op op"
  shows "\<exists>rf' kv'. raft_apply (kvrf kv) = Inr rf' \<and>
    kv_loop (length ops) receiver len (kv\<lparr>kvrf := rf'\<rparr>) = Inr kv' \<and>
    kv_view kv' = foldl kv_exec (kv_view kv) ops"
proof -
  let ?rf = "kvrf kv"
  let ?n = "nat (commitIndex ?rf - lastApplied ?rf)"
  have wf: "wf_log ?rf" using assms(1) by (simp add: kv_ok_def)
  from raft_apply_sends [OF wf] assms(4-6)
  obtain rf' where r: "raft_apply ?rf = Inr rf'"
    and ch: "applyChan rf' = applyMsgs ?rf (lastApplied ?rf + 1) ?n" using assms(3) by auto
  have len: "nat (lastApplied ?rf + 1 - snapIndex ?rf) + ?n \<le> length (Log ?rf)"
    using wf_lastIndex [OF wf] assms(4-6) by linarith
  have msgs: "list_all2 delivers (applyMsgs ?rf (lastApplied ?rf + 1) ?n) ops"
  proof (rule list_all2_all_nthI)
    show "length (applyMsgs ?rf (lastApplied ?rf + 1) ?n) = length ops"
      using len by (simp add: applyMsgs_def assms(7))
  next
    fix k assume k: "k < length (applyMsgs ?rf (lastApplied ?rf + 1) ?n)"
    let ?i = "nat (lastApplied ?rf + 1 + int k - snapIndex ?rf)"
    have i: "0 < ?i" "?i < length (Log ?rf)" using k len assms(4) by (auto simp: applyMsgs_def)
    then have "Log ?rf ! ?i \<in> set (tl (Log ?rf))" by (cases "Log ?rf") (auto simp: nth_Cons')
    then obtain op where "eLog (Log ?rf ! ?i) = Some op" "typed_op op" using assms(8) by blast
    moreover have "nat (lastApplied ?rf + 1 - snapIndex ?rf) + k = ?i" using assms(4) by linarith
    then have "ops ! k = the (eLog (Log ?rf ! ?i))"
      using k len by (simp add: applyMsgs_def assms(7))
    ultimately show "delivers (applyMsgs ?rf (lastApplied ?rf + 1) ?n ! k) (ops ! k)"
      using k by (simp add: applyMsgs_def delivers_def commandOf_def)
  qed
  have "kv_ok (kv\<lparr>kvrf := rf'\<rparr>)"
    using raft_apply_frame [OF r] assms(1)
    by (auto simp: kv_ok_def wf_log_def getLastLogUnLock_def snapshotEntry_def)
  from kv_loop_delivers [OF this _ msgs, of "[]" receiver len] ch assms(2) r
  show ?thesis using list_all2_lengthD [OF msgs] by (auto simp: kv_view_def)
qed

definition example_committed :: KVServer where
  "example_committed =
     (example_server [])\<lparr>kvrf := (kvrf (example_server []))\<lparr>commitIndex := 2,
        Log := [\<lparr>eIndex = 0, eTerm = 0, eLog = None\<rparr>,
                \<lparr>eIndex = 1, eTerm = 1, eLog = Some (example_op ''Put'' 1 ''a'')\<rparr>,
                \<lparr>eIndex = 2, eTerm = 1, eLog = Some (example_op ''Append'' 2 ''b'')\<rparr>,
                \<lparr>eIndex = 3, eTerm = 1, eLog = Some (example_op ''Append'' 3 ''c'')\<rparr>]\<rparr>\<rparr>"

theorem committed_entries_reach_storage_witness:
  "\<exists>rf' kv'. raft_apply (kvrf example_committed) = Inr rf' \<and>
     kv_loop 2 (\<lambda>_. False) (\<lambda>_. 0) (example_committed\<lparr>kvrf := rf'\<rparr>) = Inr kv' \<and>
     KvStorage kv' ''k'' = Some ''ab''"
proof -
  let ?rf = "kvrf example_committed"
  have f: "kvdead example_committed \<noteq> 1" "applyChan ?rf = []" "snapIndex ?rf \<le> lastApplied ?rf"
    "lastApplied ?rf \<le> commitIndex ?rf" "commitIndex ?rf \<le> lastIndex ?rf" by code_simp+
  have "wf_log ?rf \<and> lastLogIndex example_committed \<le> lastIndex ?rf" by code_simp
  then have ok: "kv_ok example_committed" by (simp add: kv_ok_def)
  define ops where "ops = map (\<lambda>e. the (eLog e)) (take (nat (commitIndex ?rf - lastApplied ?rf))
             (drop (nat (lastApplied ?rf + 1 - snapIndex ?rf)) (Log ?rf)))"
  have ops: "ops = [example_op ''Put'' 1 ''a'', example_op ''Append'' 2 ''b'']"
    unfolding ops_def by code_simp
  have tl: "\<forall>e \<in> set (tl (Log ?rf)). \<exists>op. eLog e = Some op \<and> typed_op op"
    by (simp add: example_committed_def typed_op_def example_op_def)
  obtain rf' kv' where r: "raft_apply ?rf = Inr rf'"
    "kv_loop (length ops) (\<lambda>_. False) (\<lambda>_. 0) (example_committed\<lparr>kvrf := rf'\<rparr>) = Inr kv'"
    and v: "kv_view kv' = foldl kv_exec (kv_view example_committed) ops"
    using committed_entries_reach_storage [OF ok f ops_def tl, of "\<lambda>_. False" "\<lambda>_. 0"] by blast
  have "snd (foldl kv_exec (kv_view example_committed) ops) ''k'' = Some ''ab''"
    unfolding ops by code_simp
  then have "snd (kv_view kv') ''k'' = Some ''ab''" by (simp only: v)
  then have "KvStorage kv' ''k'' = Some ''ab''" by (simp add: kv_view_def)
  moreover have "length ops = 2" by (simp add: ops)
  ultimately show ?thesis using r by metis
qed

end
