(* ===== verification/Kv_Replicas.thy ===== *)
theory Kv_Replicas
  imports Kv_Dedup Raft_Safety
begin

text \<open>
  The replicated key/value service: every server of a cluster runs the apply loop of \<open>Kv_Server\<close> on the channel
  of its own Raft peer. State machine safety of the cluster and the refinement of the apply loop give that all
  replicas execute one sequence of operations.
\<close>

section \<open>A server on its peer's channel\<close>

text \<open>A server started without snapshots that reads the messages its peer has sent since it was made.\<close>

definition server_on :: "(Op, kvgob) Raft \<Rightarrow> (Op, kvgob) ApplyMsg list \<Rightarrow> KVServer" where
  "server_on rf ms = (StartKVServer 0 0 (peers rf) (me rf) MakePersister (- 1))\<lparr>kvrf := rf\<lparr>applyChan := ms\<rparr>\<rparr>"

text \<open>
  Encoding an operation, for the disk or for another server, drops its channel, so that the server that made
  an operation receives it with the channel and the others without. What the cluster carries is therefore the
  operation without its channel, and a server may receive it with any.
\<close>

definition without_channel :: "Op \<Rightarrow> Op" where
  "without_channel op = op\<lparr>NotifyChan := None\<rparr>"

fun same_content :: "(Op, kvgob) iface \<Rightarrow> (Op, kvgob) iface \<Rightarrow> bool" where
  "same_content (CommandIface op) (CommandIface op') \<longleftrightarrow> without_channel op = without_channel op'"
| "same_content c c' \<longleftrightarrow> c = c'"

definition same_message :: "(Op, kvgob) ApplyMsg \<Rightarrow> (Op, kvgob) ApplyMsg \<Rightarrow> bool" where
  "same_message m m' \<longleftrightarrow> CommandValid m = CommandValid m' \<and> CommandIndex m = CommandIndex m' \<and>
     same_content (Command m) (Command m')"

definition typed_msg :: "(Op, kvgob) ApplyMsg \<Rightarrow> bool" where
  "typed_msg m \<longleftrightarrow> CommandValid m \<longrightarrow> (case Command m of CommandIface op \<Rightarrow> typed_op op | _ \<Rightarrow> False)"

definition sent_ops :: "(Op, kvgob) ApplyMsg list \<Rightarrow> Op list" where
  "sent_ops ms = concat (map (\<lambda>m. case Command m of CommandIface op \<Rightarrow> [without_channel op] | _ \<Rightarrow> []) (filter CommandValid ms))"

lemma sent_ops_simps [simp]:
  "sent_ops [] = []" "\<not> CommandValid m \<Longrightarrow> sent_ops (m # ms) = sent_ops ms"
  "CommandValid m \<Longrightarrow> Command m = CommandIface op \<Longrightarrow> sent_ops (m # ms) = without_channel op # sent_ops ms"
  by (simp_all add: sent_ops_def)

lemma sent_ops_append [simp]: "sent_ops (ms @ ms') = sent_ops ms @ sent_ops ms'"
  by (simp add: sent_ops_def)

lemma sent_ops_prefix:
  assumes "prefix (filter CommandValid ms) (filter CommandValid ms')"
  shows "prefix (sent_ops ms) (sent_ops ms')"
  using assms by (auto simp: sent_ops_def prefix_def)

lemma kv_exec_without_channel [simp]: "kv_exec t (without_channel op) = kv_exec t op"
  by (simp add: kv_exec_def without_channel_def split: op_command.splits)

lemma typed_without_channel: "without_channel op = without_channel op' \<Longrightarrow> typed_op op = typed_op op'"
proof -
  assume "without_channel op = without_channel op'"
  then have "opCommand (without_channel op) = opCommand (without_channel op')" "OpType (without_channel op) = OpType (without_channel op')"
    by simp_all
  then show ?thesis by (simp add: without_channel_def typed_op_def split: op_command.splits)
qed

lemma same_message_facts:
  assumes "same_message m m'"
  shows "typed_msg m = typed_msg m'" and "sent_ops [m] = sent_ops [m']" and "(Command m = NilIface) = (Command m' = NilIface)"
    and "CommandValid m = CommandValid m'"
  using assms
  by (cases "Command m"; cases "Command m'"; auto simp: same_message_def typed_msg_def sent_ops_def dest: typed_without_channel)+

lemma same_messages_ops:
  assumes "list_all2 same_message ms ms'"
  shows "sent_ops (take k ms) = sent_ops (take k ms')"
  using assms
proof (induction k arbitrary: ms ms')
  case (Suc k)
  then show ?case
  proof (cases ms)
    case (Cons m rest)
    then obtain m' rest' where "ms' = m' # rest'" "same_message m m'" "list_all2 same_message rest rest'"
      using Suc.prems by (auto simp: list_all2_Cons1)
    then show ?thesis
      using Suc.IH [of rest rest'] Cons same_message_facts(2) [of m m'] sent_ops_append [of "[m]" "take k rest"]
        sent_ops_append [of "[m']" "take k rest'"] by simp
  qed simp
qed simp

text \<open>One message: an operation, or a note without content.\<close>

lemma kv_applyLoop_message:
  assumes live: "kvdead kv \<noteq> 1" and max: "maxraftstate kv = - 1" and ch: "applyChan (kvrf kv) = m # rest"
    and m: "typed_msg m" "CommandValid m \<or> Command m = NilIface"
  shows "\<exists>kv' ns. kv_applyLoop receiver len kv = Inr (Some (kv', ns)) \<and> kvdead kv' \<noteq> 1 \<and> maxraftstate kv' = - 1 \<and>
    applyChan (kvrf kv') = rest \<and> kv_view kv' = foldl kv_exec (kv_view kv) (sent_ops [m])"
proof (cases "CommandValid m")
  case True
  then obtain op where op: "Command m = CommandIface op" "typed_op op" using m(1) by (auto simp: typed_msg_def split: iface.splits)
  let ?kv1 = "kv\<lparr>kvrf := (kvrf kv)\<lparr>applyChan := rest\<rparr>\<rparr>"
  have m': "m = \<lparr>CommandValid = True, Command = CommandIface op, CommandIndex = CommandIndex m\<rparr>"
    using True op by (cases m) simp
  have "ifSnapshot len (kv_effect ?kv1 op) = Inr (kv_effect ?kv1 op)" using max by (simp add: ifSnapshot_def kv_effect_def)
  then have "\<exists>ns. kv_apply receiver len ?kv1 m = Inr (kv_effect ?kv1 op, ns)"
    by (subst m') (simp add: kv_apply_effect [OF op(2)])
  then have "\<exists>ns. kv_applyLoop receiver len kv = Inr (Some (kv_effect ?kv1 op, ns))"
    using live ch True by (auto simp: kv_applyLoop_def kv_killed_def Let_def)
  moreover have "kv_view ?kv1 = kv_view kv" by (simp add: kv_view_def)
  moreover have "kvdead (kv_effect ?kv1 op) = kvdead kv" "maxraftstate (kv_effect ?kv1 op) = maxraftstate kv"
    by (simp_all add: kv_effect_def)
  ultimately show ?thesis using True op live max by auto
next
  case False
  then show ?thesis using m live max ch
    by (auto simp: kv_applyLoop_def kv_killed_def ifSnapshot_def Let_def kv_view_def)
qed

lemma kv_loop_messages:
  assumes "kvdead kv \<noteq> 1" "maxraftstate kv = - 1" "list_all typed_msg (applyChan (kvrf kv))"
    and "list_all (\<lambda>m. CommandValid m \<or> Command m = NilIface) (applyChan (kvrf kv))" "k \<le> length (applyChan (kvrf kv))"
  shows "\<exists>kv'. kv_loop k receiver len kv = Inr kv' \<and>
    kv_view kv' = foldl kv_exec (kv_view kv) (sent_ops (take k (applyChan (kvrf kv))))"
  using assms
proof (induction k arbitrary: kv)
  case (Suc k)
  then obtain m rest where ch: "applyChan (kvrf kv) = m # rest" by (cases "applyChan (kvrf kv)") auto
  obtain kv1 ns where 1: "kv_applyLoop receiver len kv = Inr (Some (kv1, ns))" "kvdead kv1 \<noteq> 1" "maxraftstate kv1 = - 1"
    "applyChan (kvrf kv1) = rest" "kv_view kv1 = foldl kv_exec (kv_view kv) (sent_ops [m])"
    using kv_applyLoop_message [OF Suc.prems(1,2) ch] Suc.prems(3,4) ch by fastforce
  have "list_all typed_msg rest" "list_all (\<lambda>m. CommandValid m \<or> Command m = NilIface) rest" "k \<le> length rest"
    using Suc.prems(3-5) ch by simp_all
  then obtain kv' where "kv_loop k receiver len kv1 = Inr kv'"
    "kv_view kv' = foldl kv_exec (kv_view kv1) (sent_ops (take k rest))" using Suc.IH [OF 1(2,3)] 1(4) by auto
  moreover have "sent_ops (m # take k rest) = sent_ops [m] @ sent_ops (take k rest)"
    using sent_ops_append [of "[m]" "take k rest"] by simp
  ultimately show ?case using 1(1,5) ch by simp
qed simp

text \<open>Without snapshots the channel of a peer carries commands and empty notes.\<close>

lemma channel_messages:
  assumes "sim n s a" "i < n"
  shows "list_all (\<lambda>m. CommandValid m \<or> Command m = NilIface) (applyChan (peer s i))"
  using simD(4) [OF assms] by (auto simp: peer_sim_def service_ok_def list_all_iff applied_ok_def for_service_def)

lemma server_runs:
  assumes "sim n s a" "i < n" "list_all2 same_message ms (applyChan (peer s i))" "list_all typed_msg (applyChan (peer s i))"
    "k \<le> length ms"
  shows "\<exists>kv. kv_loop k receiver len (server_on (peer s i) ms) = Inr kv \<and>
    kv_view kv = foldl kv_exec (Map.empty, Map.empty) (sent_ops (take k (applyChan (peer s i))))"
proof -
  have "list_all typed_msg ms \<and> list_all (\<lambda>m. CommandValid m \<or> Command m = NilIface) ms"
    using assms(3,4) channel_messages [OF assms(1,2)]
    by (induction rule: list_all2_induct) (auto simp: same_message_facts)
  then show ?thesis
    using kv_loop_messages [of "server_on (peer s i) ms" k receiver len] assms(5) same_messages_ops [OF assms(3), of k]
    by (simp add: server_on_def StartKVServer_def kv_view_def)
qed

section \<open>Replicas agree\<close>

text \<open>
  C5: Replicas agree. Take a cluster of key/value servers that keep no snapshots and whose log entries carry
  well-typed operations, under any steady schedule (one in which no vote and no success that comes late is
  counted, as for state machine safety). Let one server read any number of the messages of its peer,
  and another read any number of the messages of its own at that or a later moment, each receiving an operation
  with or without the channel that its maker put into it. Both loops return without a panic, each server's tables
  are the result of executing the operations it has read from empty tables, and one of the two sequences of
  operations, channels aside, is a prefix of the other.
\<close>

theorem replicas_agree:
  assumes "run_from steady_step (init_system n) s" and "run_from steady_step s s'" and "i < n" and "j < n"
    and "list_all2 same_message ms (applyChan (peer s i))" and "list_all2 same_message ms' (applyChan (peer s' j))"
    and "list_all typed_msg (applyChan (peer s i))" and "list_all typed_msg (applyChan (peer s' j))"
    and "k \<le> length ms" and "k' \<le> length ms'" and "ops = sent_ops (take k ms)" and "ops' = sent_ops (take k' ms')"
  shows "\<exists>kv kv'. kv_loop k receiver len (server_on (peer s i) ms) = Inr kv \<and>
    kv_loop k' receiver' len' (server_on (peer s' j) ms') = Inr kv' \<and>
    (ClientMsgId kv, KvStorage kv) = foldl kv_exec (Map.empty, Map.empty) ops \<and>
    (ClientMsgId kv', KvStorage kv') = foldl kv_exec (Map.empty, Map.empty) ops' \<and>
    (prefix ops ops' \<or> prefix ops' ops)"
proof -
  obtain a a' where a: "sim n s a" "sim n s' a'" "grown a a'" by (rule run_sim_later [OF assms(1,2)])
  have ops: "ops = sent_ops (take k (applyChan (peer s i)))" "ops' = sent_ops (take k' (applyChan (peer s' j)))"
    using assms(11,12) same_messages_ops [OF assms(5)] same_messages_ops [OF assms(6)] by simp_all
  have "prefix (sent_ops (applyChan (peer s i))) (sent_ops (applyChan (peer s' j))) \<or>
    prefix (sent_ops (applyChan (peer s' j))) (sent_ops (applyChan (peer s i)))"
    using services_prefix [OF a assms(3,4)] sent_ops_prefix
    unfolding service_commands [OF a(1) assms(3)] service_commands [OF a(2) assms(4)] by blast
  moreover have "prefix ops (sent_ops (applyChan (peer s i)))" "prefix ops' (sent_ops (applyChan (peer s' j)))"
    unfolding ops by (metis append_take_drop_id prefixI sent_ops_append)+
  ultimately have "prefix ops ops' \<or> prefix ops' ops" by (meson prefix_order.trans prefix_same_cases)
  then show ?thesis
    using server_runs [OF a(1) assms(3,5,7,9)] server_runs [OF a(2) assms(4,6,8,10)] ops unfolding kv_view_def by blast
qed

text \<open>In the example the first server has made the first operation and receives it with a channel.\<close>

definition with_notify :: "nat \<Rightarrow> (Op, kvgob) ApplyMsg \<Rightarrow> (Op, kvgob) ApplyMsg" where
  "with_notify ch m =
     (case Command m of CommandIface op \<Rightarrow> m\<lparr>Command := CommandIface (op\<lparr>NotifyChan := Some ch\<rparr>)\<rparr> | _ \<Rightarrow> m)"

lemma same_with_notify: "same_message (with_notify ch m) m"
  by (cases "Command m") (simp_all add: same_message_def with_notify_def without_channel_def)

lemma same_message_refl: "same_message m m"
  by (cases "Command m") (simp_all add: same_message_def)

theorem replicas_agree_witness:
  "\<exists>s s' kv kv'. run_events (init_system 3) (example_commit (example_op ''Put'' 1 ''a'')) = Some s \<and>
     run_events s (example_takeover (example_op ''Append'' 2 ''b'')) = Some s' \<and>
     kv_loop (length (applyChan (peer s 0))) (\<lambda>ch. ch = 4) (\<lambda>_. 0)
       (server_on (peer s 0) (map (with_notify 4) (applyChan (peer s 0)))) = Inr kv \<and>
     kv_loop (length (applyChan (peer s' 1))) (\<lambda>_. False) (\<lambda>_. 0) (server_on (peer s' 1) (applyChan (peer s' 1))) = Inr kv' \<and>
     KvStorage kv ''k'' = Some ''a'' \<and> KvStorage kv' ''k'' = Some ''ab''"
proof -
  let ?x = "example_op ''Put'' 1 ''a''" and ?y = "example_op ''Append'' 2 ''b''"
  have "steady_then (init_system 3) (example_commit ?x) (example_takeover ?y) (\<lambda>s s'.
    list_all typed_msg (applyChan (peer s 0)) \<and> list_all typed_msg (applyChan (peer s' 1)) \<and>
    sent_ops (applyChan (peer s 0)) = [?x] \<and> sent_ops (applyChan (peer s' 1)) = [?x, ?y])" by code_simp
  then obtain s s' where r: "run_events (init_system 3) (example_commit ?x) = Some s"
    "run_events s (example_takeover ?y) = Some s'"
    "run_from steady_step (init_system 3) s" "run_from steady_step s s'"
    and t: "list_all typed_msg (applyChan (peer s 0))" "list_all typed_msg (applyChan (peer s' 1))"
    and o: "sent_ops (applyChan (peer s 0)) = [?x]" "sent_ops (applyChan (peer s' 1)) = [?x, ?y]"
    by (elim steady_thenE) auto
  let ?ms = "map (with_notify 4) (applyChan (peer s 0))" and ?ms' = "applyChan (peer s' 1)"
  have same: "list_all2 same_message ?ms (applyChan (peer s 0))" "list_all2 same_message ?ms' ?ms'"
    by (simp_all add: list_all2_map1 list_all2_same same_with_notify same_message_refl)
  have o': "sent_ops ?ms = [?x]" using same_messages_ops [OF same(1), of "length ?ms"] o(1) by simp
  obtain kv kv' where k: "kv_loop (length (applyChan (peer s 0))) (\<lambda>ch. ch = 4) (\<lambda>_. 0) (server_on (peer s 0) ?ms) = Inr kv"
    "kv_loop (length ?ms') (\<lambda>_. False) (\<lambda>_. 0) (server_on (peer s' 1) ?ms') = Inr kv'"
    "(ClientMsgId kv, KvStorage kv) = foldl kv_exec (Map.empty, Map.empty) [?x]"
    "(ClientMsgId kv', KvStorage kv') = foldl kv_exec (Map.empty, Map.empty) [?x, ?y]"
    using replicas_agree [OF r(3,4) _ _ same t, of "length (applyChan (peer s 0))" "length ?ms'"
        "[?x]" "[?x, ?y]" "\<lambda>ch. ch = 4" "\<lambda>_. 0" "\<lambda>_. False" "\<lambda>_. 0"] o' o by auto
  have "snd (foldl kv_exec (Map.empty, Map.empty) [?x]) ''k'' = Some ''a''"
    "snd (foldl kv_exec (Map.empty, Map.empty) [?x, ?y]) ''k'' = Some ''ab''" by code_simp+
  then have "KvStorage kv ''k'' = Some ''a''" "KvStorage kv' ''k'' = Some ''ab''" by (simp_all only: k(3,4) [symmetric] snd_conv)
  with r(1,2) k(1,2) show ?thesis by (intro exI conjI)
qed

end
