(* ===== verification/Kv_Serving.thy ===== *)
theory Kv_Serving
  imports Kv_Dedup "HOL-Library.Sublist"
begin

text \<open>
  A key/value server at work: the apply loop and any number of \<^verbatim>\<open>Get\<close> and \<^verbatim>\<open>PutAppend\<close> handlers of
  \<^verbatim>\<open>kvraft/server.go\<close>, interleaved between every two locked regions. In particular a handler may look at the
  duplicate table after the loop has updated it and before the loop has written the storage. The theorems say
  what an answer tells about the operations that the server has taken from its channel.
\<close>

section \<open>The goroutines of a server\<close>

text \<open>
  Where the apply loop stands: waiting for a message, with a message in hand, between the duplicate table and the
  storage, before the notification, before the snapshot; or the process has panicked.
\<close>

datatype loop_pc =
    Listening
  | Received "(Op, kvgob) ApplyMsg"
  | Storing Op PutAppendArgs
  | Notifying Op
  | Saving
  | Panicked

text \<open>
  Where a handler stands. A call makes its own channel, and the channel's number is the number of the call.
\<close>

datatype handler_call =
    Arrived op_command
  | Checked op_command
  | Started op_command int
  | Awaiting op_command int
  | Woken op_command int
  | Answered op_command bool
  | Replied GetArgs GetReply

text \<open>\<open>sv_taken\<close> is what the loop has executed, or a snapshot stands for; it has no counterpart in the code.\<close>

record serving =
  sv_kv :: KVServer
  sv_pc :: loop_pc
  sv_calls :: "handler_call list"
  sv_taken :: "Op list"

text \<open>The arguments that \<^verbatim>\<open>Get\<close> and \<^verbatim>\<open>PutAppend\<close> give to \<^verbatim>\<open>requestRaft\<close>.\<close>

fun request_client :: "op_command \<Rightarrow> int" where
  "request_client (CmdPutAppend args) = ClientId args"
| "request_client (CmdGet args) = -1"

fun request_msg :: "op_command \<Rightarrow> int" where
  "request_msg (CmdPutAppend args) = MsgId args"
| "request_msg (CmdGet args) = -1"

fun request_type :: "op_command \<Rightarrow> string" where
  "request_type (CmdPutAppend args) = paOp args"
| "request_type (CmdGet args) = ''Get''"

fun submitted :: "handler_call \<Rightarrow> op_command option" where
  "submitted (Started cmd index) = Some cmd"
| "submitted (Awaiting cmd index) = Some cmd"
| "submitted (Woken cmd index) = Some cmd"
| "submitted (Answered cmd b) = Some cmd"
| "submitted (Replied g r) = Some (CmdGet g)"
| "submitted (Arrived cmd) = None"
| "submitted (Checked cmd) = None"

fun receiving :: "handler_call list \<Rightarrow> nat \<Rightarrow> bool" where
  "receiving calls ch \<longleftrightarrow> ch < length calls \<and> (case calls ! ch of Awaiting cmd index \<Rightarrow> True | _ \<Rightarrow> False)"

fun wake :: "handler_call \<Rightarrow> handler_call" where
  "wake (Awaiting cmd index) = Woken cmd index"
| "wake c = c"

fun wake_all :: "nat list \<Rightarrow> handler_call list \<Rightarrow> handler_call list" where
  "wake_all [] calls = calls"
| "wake_all (ch # chs) calls = wake_all chs (calls[ch := wake (calls ! ch)])"

text \<open>
  What the server knows of the messages of its peer: an operation with a channel is one that the call with that
  channel gave to \<^verbatim>\<open>Start\<close>, because channels do not survive encoding.
\<close>

definition own_channel :: "handler_call list \<Rightarrow> Op \<Rightarrow> bool" where
  "own_channel calls op \<longleftrightarrow>
     (\<forall>ch. NotifyChan op = Some ch \<longrightarrow> ch < length calls \<and> submitted (calls ! ch) = Some (opCommand op))"

definition own_message :: "handler_call list \<Rightarrow> (Op, kvgob) ApplyMsg \<Rightarrow> bool" where
  "own_message calls m \<longleftrightarrow> (case Command m of CommandIface op \<Rightarrow> own_channel calls op | _ \<Rightarrow> True)"

text \<open>
  One step. The peer's goroutines may change the peer in any way and append to its channel; the state that
  \<^verbatim>\<open>Start\<close> reads first may be any. A snapshot that the loop takes over holds the tables after some sequence of
  operations that goes on from the sequence taken so far, which is what the peer's channel promises.
\<close>

inductive serve :: "(Op gobval list \<Rightarrow> int) \<Rightarrow> serving \<Rightarrow> serving \<Rightarrow> bool" for len where
  arrive: "serve len s (s\<lparr>sv_calls := sv_calls s @ [Arrived cmd]\<rparr>)"
| check: "i < length (sv_calls s) \<Longrightarrow> sv_calls s ! i = Arrived cmd \<Longrightarrow>
     serve len s (s\<lparr>sv_calls := (sv_calls s)[i :=
       if requestRaft_check (sv_kv s) (request_client cmd) (request_msg cmd) then Answered cmd True else Checked cmd]\<rparr>)"
| refuse: "i < length (sv_calls s) \<Longrightarrow> sv_calls s ! i = Checked cmd \<Longrightarrow>
     requestRaft_start now rfG i (sv_kv s) cmd (request_type cmd) = (kv, Returned b) \<Longrightarrow>
     serve len s (s\<lparr>sv_kv := kv, sv_calls := (sv_calls s)[i := Answered cmd b]\<rparr>)"
| start: "i < length (sv_calls s) \<Longrightarrow> sv_calls s ! i = Checked cmd \<Longrightarrow>
     requestRaft_start now rfG i (sv_kv s) cmd (request_type cmd) = (kv, Waiting ch index) \<Longrightarrow>
     serve len s (s\<lparr>sv_kv := kv, sv_calls := (sv_calls s)[i := Started cmd index]\<rparr>)"
| await: "i < length (sv_calls s) \<Longrightarrow> sv_calls s ! i = Started cmd index \<Longrightarrow>
     serve len s (s\<lparr>sv_calls := (sv_calls s)[i := Awaiting cmd index]\<rparr>)"
| notified: "i < length (sv_calls s) \<Longrightarrow> sv_calls s ! i = Woken cmd index \<Longrightarrow>
     requestRaft_notified (sv_kv s) index = (kv, b) \<Longrightarrow>
     serve len s (s\<lparr>sv_kv := kv, sv_calls := (sv_calls s)[i := Answered cmd b]\<rparr>)"
| timeout: "i < length (sv_calls s) \<Longrightarrow> sv_calls s ! i = Awaiting cmd index \<Longrightarrow>
     requestRaft_timeout (sv_kv s) = (kv, b) \<Longrightarrow>
     serve len s (s\<lparr>sv_kv := kv, sv_calls := (sv_calls s)[i := Answered cmd b]\<rparr>)"
| reply: "i < length (sv_calls s) \<Longrightarrow> sv_calls s ! i = Answered (CmdGet args) b \<Longrightarrow>
     serve len s (s\<lparr>sv_calls := (sv_calls s)[i := Replied args (kv_Get_reply (sv_kv s) args b)]\<rparr>)"
| receive: "sv_pc s = Listening \<Longrightarrow> \<not> kv_killed (sv_kv s) \<Longrightarrow> applyChan (kvrf (sv_kv s)) = m # rest \<Longrightarrow>
     serve len s (s\<lparr>sv_kv := (sv_kv s)\<lparr>kvrf := (kvrf (sv_kv s))\<lparr>applyChan := rest\<rparr>\<rparr>, sv_pc := Received m\<rparr>)"
| apply_begin: "sv_pc s = Received m \<Longrightarrow> CommandValid m \<Longrightarrow> Command m = CommandIface op \<Longrightarrow>
     kv_apply_check (sv_kv s) op = Inr (kv, todo) \<Longrightarrow>
     serve len s (s\<lparr>sv_kv := kv, sv_taken := sv_taken s @ [op],
       sv_pc := (case todo of Some command \<Rightarrow> Storing op command | None \<Rightarrow> Notifying op)\<rparr>)"
| apply_panic: "sv_pc s = Received m \<Longrightarrow> CommandValid m \<Longrightarrow>
     (case Command m of CommandIface op \<Rightarrow> kv_apply_check (sv_kv s) op = Inl e | _ \<Rightarrow> True) \<Longrightarrow>
     serve len s (s\<lparr>sv_pc := Panicked\<rparr>)"
| apply_store: "sv_pc s = Storing op command \<Longrightarrow>
     serve len s (s\<lparr>sv_kv := kv_apply_store (sv_kv s) op command, sv_pc := Notifying op\<rparr>)"
| apply_notify: "sv_pc s = Notifying op \<Longrightarrow>
     serve len s (s\<lparr>sv_calls := wake_all (kv_apply_notify (receiving (sv_calls s)) op) (sv_calls s), sv_pc := Saving\<rparr>)"
| skip: "sv_pc s = Received m \<Longrightarrow> \<not> CommandValid m \<Longrightarrow> \<forall>sn. Command m \<noteq> SnapshotIface sn \<Longrightarrow>
     serve len s (s\<lparr>sv_pc := Saving\<rparr>)"
| install: "sv_pc s = Received m \<Longrightarrow> \<not> CommandValid m \<Longrightarrow> Command m = SnapshotIface sn \<Longrightarrow>
     Storage sn = [GobMsgIds ids, GobStorage st] \<Longrightarrow> (ids, st) = foldl kv_exec (Map.empty, Map.empty) ops \<Longrightarrow>
     prefix (sv_taken s) ops \<Longrightarrow>
     serve len s (s\<lparr>sv_kv := updateFromSnapshot (sv_kv s) (sIndex sn) (Storage sn), sv_taken := ops, sv_pc := Saving\<rparr>)"
| save: "sv_pc s = Saving \<Longrightarrow> ifSnapshot len (sv_kv s) = Inr kv \<Longrightarrow> serve len s (s\<lparr>sv_kv := kv, sv_pc := Listening\<rparr>)"
| save_panic: "sv_pc s = Saving \<Longrightarrow> ifSnapshot len (sv_kv s) = Inl e \<Longrightarrow> serve len s (s\<lparr>sv_pc := Panicked\<rparr>)"
| peer: "applyChan rf = applyChan (kvrf (sv_kv s)) @ ms \<Longrightarrow> list_all (own_message (sv_calls s)) ms \<Longrightarrow>
     serve len s (s\<lparr>sv_kv := (sv_kv s)\<lparr>kvrf := rf\<rparr>\<rparr>)"
| kill: "serve len s (s\<lparr>sv_kv := kv_Kill (sv_kv s)\<rparr>)"

definition serve_step :: "(Op gobval list \<Rightarrow> int) \<Rightarrow> serving \<Rightarrow> serving \<Rightarrow> bool" where
  "serve_step len s s' \<longleftrightarrow> sv_pc s \<noteq> Panicked \<and> serve len s s'"

definition start_serving :: "KVServer \<Rightarrow> serving" where
  "start_serving kv = \<lparr>sv_kv = kv, sv_pc = Listening, sv_calls = [], sv_taken = []\<rparr>"

section \<open>The invariant\<close>

abbreviation no_tables :: kv_state where "no_tables \<equiv> (Map.empty, Map.empty)"

text \<open>The tables are those of the operations taken, except that the last store may be outstanding.\<close>

fun tables_ok :: "loop_pc \<Rightarrow> KVServer \<Rightarrow> Op list \<Rightarrow> bool" where
  "tables_ok (Storing op c) kv taken \<longleftrightarrow> (\<exists>xs. taken = xs @ [op] \<and> opCommand op = CmdPutAppend c \<and>
     \<not> seen (fst (foldl kv_exec no_tables xs)) c \<and>
     kv_view kv = (fst (foldl kv_exec no_tables taken), snd (foldl kv_exec no_tables xs)))"
| "tables_ok pc kv taken \<longleftrightarrow> kv_view kv = foldl kv_exec no_tables taken"

fun in_hand :: "handler_call list \<Rightarrow> Op list \<Rightarrow> loop_pc \<Rightarrow> bool" where
  "in_hand calls taken (Received m) \<longleftrightarrow> own_message calls m"
| "in_hand calls taken (Storing op c) \<longleftrightarrow> own_channel calls op \<and> op \<in> set taken"
| "in_hand calls taken (Notifying op) \<longleftrightarrow> own_channel calls op \<and> op \<in> set taken"
| "in_hand calls taken pc \<longleftrightarrow> True"

text \<open>The operation of the call with number \<open>i\<close> is among those taken.\<close>

definition in_taken :: "nat \<Rightarrow> op_command \<Rightarrow> Op list \<Rightarrow> bool" where
  "in_taken i cmd taken \<longleftrightarrow> (\<exists>op \<in> set taken. opCommand op = cmd \<and> NotifyChan op = Some i)"

fun success :: "nat \<Rightarrow> op_command \<Rightarrow> Op list \<Rightarrow> bool" where
  "success i (CmdPutAppend args) taken \<longleftrightarrow> seen (fst (foldl kv_exec no_tables taken)) args"
| "success i (CmdGet g) taken \<longleftrightarrow> in_taken i (CmdGet g) taken"

definition read_ok :: "nat \<Rightarrow> GetArgs \<Rightarrow> GetReply \<Rightarrow> Op list \<Rightarrow> bool" where
  "read_ok i g r taken \<longleftrightarrow> gErr r = ''NotLeaderError'' \<or>
     (\<exists>xs. prefix xs taken \<and> in_taken i (CmdGet g) xs \<and>
        r = (case snd (foldl kv_exec no_tables xs) (gKey g) of
               Some value \<Rightarrow> \<lparr>gErr = [], gValue = value\<rparr> | None \<Rightarrow> \<lparr>gErr = ''NotFoundError'', gValue = []\<rparr>))"

fun answer_ok :: "nat \<Rightarrow> Op list \<Rightarrow> handler_call \<Rightarrow> bool" where
  "answer_ok i taken (Woken cmd index) \<longleftrightarrow> in_taken i cmd taken"
| "answer_ok i taken (Answered cmd b) \<longleftrightarrow> (b \<longrightarrow> success i cmd taken)"
| "answer_ok i taken (Replied g r) \<longleftrightarrow> read_ok i g r taken"
| "answer_ok i taken c \<longleftrightarrow> True"

definition answers_ok :: "Op list \<Rightarrow> handler_call list \<Rightarrow> bool" where
  "answers_ok taken calls \<longleftrightarrow> (\<forall>i < length calls. answer_ok i taken (calls ! i))"

definition serving_ok :: "serving \<Rightarrow> bool" where
  "serving_ok s \<longleftrightarrow> tables_ok (sv_pc s) (sv_kv s) (sv_taken s) \<and> in_hand (sv_calls s) (sv_taken s) (sv_pc s) \<and>
     list_all (own_message (sv_calls s)) (applyChan (kvrf (sv_kv s))) \<and> answers_ok (sv_taken s) (sv_calls s)"

lemma tables_ok_view: "kv_view kv' = kv_view kv \<Longrightarrow> tables_ok pc kv' taken = tables_ok pc kv taken"
  by (cases pc) simp_all

lemma tables_ok_idle:
  assumes "\<And>op c. pc \<noteq> Storing op c"
  shows "tables_ok pc kv taken \<longleftrightarrow> kv_view kv = foldl kv_exec no_tables taken"
  using assms by (cases pc) auto

text \<open>Calls only go forward, so what is said of the channels stays true.\<close>

definition calls_grow :: "handler_call list \<Rightarrow> handler_call list \<Rightarrow> bool" where
  "calls_grow calls calls' \<longleftrightarrow> length calls \<le> length calls' \<and>
     (\<forall>i < length calls. submitted (calls ! i) = None \<or> submitted (calls' ! i) = submitted (calls ! i))"

lemma own_message_grow: "calls_grow calls calls' \<Longrightarrow> own_message calls m \<Longrightarrow> own_message calls' m"
  by (fastforce simp: own_message_def own_channel_def calls_grow_def split: iface.splits)

lemma own_channel_grow: "calls_grow calls calls' \<Longrightarrow> own_channel calls op \<Longrightarrow> own_channel calls' op"
  by (fastforce simp: own_channel_def calls_grow_def)

lemma in_hand_grow: "calls_grow calls calls' \<Longrightarrow> in_hand calls taken pc \<Longrightarrow> in_hand calls' taken pc"
  by (cases pc) (auto intro: own_message_grow own_channel_grow)

lemma calls_grow_update:
  assumes "submitted (calls ! i) = None \<or> submitted c = submitted (calls ! i)"
  shows "calls_grow calls (calls[i := c])"
proof -
  have "submitted (calls ! k) = None \<or> submitted (calls[i := c] ! k) = submitted (calls ! k)" if "k < length calls" for k
    using assms that by (cases "k = i") auto
  then show ?thesis by (simp add: calls_grow_def)
qed

text \<open>What an answer says of the operations taken stays true when more are taken.\<close>

lemma seen_recorded: "seen (fst t) args \<longleftrightarrow> kv_recorded t \<lparr>opCommand = CmdPutAppend args, NotifyChan = None, OpType = []\<rparr>"
  by (simp add: kv_recorded_def)

lemma seen_later: "seen (fst (foldl kv_exec t xs)) args \<Longrightarrow> seen (fst (foldl kv_exec t (xs @ ys))) args"
  unfolding seen_recorded foldl_append by (rule kv.recorded_run_mono)

lemma in_taken_later: "in_taken i cmd xs \<Longrightarrow> in_taken i cmd (xs @ ys)"
  by (auto simp: in_taken_def)

lemma success_later: "success i cmd xs \<Longrightarrow> success i cmd (xs @ ys)"
  by (cases cmd) (auto intro: in_taken_later simp del: foldl_append dest: seen_later)

lemma answer_ok_later:
  assumes "answer_ok i xs c" "prefix xs ys"
  shows "answer_ok i ys c"
proof -
  obtain zs where ys: "ys = xs @ zs" using assms(2) by (auto simp: prefix_def)
  show ?thesis
  proof (cases c)
    case (Woken cmd index)
    then show ?thesis using assms ys in_taken_later by simp
  next
    case (Answered cmd b)
    then show ?thesis using assms(1) success_later by (simp add: ys)
  next
    case (Replied g r)
    then show ?thesis using assms by (auto simp: read_ok_def intro: prefix_order.trans)
  qed simp_all
qed

text \<open>An operation that was taken succeeds.\<close>

lemma taken_success: "in_taken i cmd taken \<Longrightarrow> success i cmd taken"
proof (cases cmd)
  case (CmdPutAppend args)
  assume "in_taken i cmd taken"
  then obtain op where "op \<in> set taken" "opCommand op = CmdPutAppend args" using CmdPutAppend by (auto simp: in_taken_def)
  from kv.run_records [OF this(1), of no_tables] this(2) show ?thesis using CmdPutAppend by (simp add: kv_recorded_def)
qed simp

section \<open>Steps keep the invariant\<close>

text \<open>Saving the state of the peer may put an empty note on the channel, and nothing else.\<close>

definition noted :: "('c, 'd) Raft \<Rightarrow> ('c, 'd) Raft \<Rightarrow> bool" where
  "noted rf rf' \<longleftrightarrow> (\<exists>ms. applyChan rf' = applyChan rf @ ms \<and> list_all (\<lambda>m. Command m = NilIface) ms)"

lemma noted_refl [simp]: "noted rf rf"
  by (simp add: noted_def)

lemma persist_noted: "applyChan rf = applyChan rf0 \<Longrightarrow> noted rf0 (persist rf)"
  by (auto simp: noted_def persist_def send_apply_def Let_def)

lemma Start_noted: "Start now rfG rf op = (rf', r) \<Longrightarrow> noted rf rf'"
  using persist_noted [of "rf\<lparr>Log := Log rf @ [e]\<rparr>" rf for e]
  by (auto simp: Start_def Start_append_def Let_def noted_def split: prod.splits if_splits)

lemma SaveSnapshot_noted: "SaveSnapshot rf index st = Inr rf' \<Longrightarrow> noted rf rf'"
  by (auto simp: SaveSnapshot_def Let_def bindG_eq_Inr_iff intro!: persist_noted split: if_splits)

lemma ifSnapshot_keeps:
  assumes "ifSnapshot len kv = Inr kv'"
  shows "kv_view kv' = kv_view kv" and "noted (kvrf kv) (kvrf kv')"
  using assms by (auto simp: ifSnapshot_def mapG_eq_Inr_iff kv_view_def dest: SaveSnapshot_noted split: if_splits)

lemma answers_ok_update: "answers_ok taken calls \<Longrightarrow> answer_ok i taken c \<Longrightarrow> answers_ok taken (calls[i := c])"
  by (metis answers_ok_def length_list_update nth_list_update_eq nth_list_update_neq)

lemma noted_own:
  assumes "noted rf rf'" "list_all (own_message calls) (applyChan rf)"
  shows "list_all (own_message calls) (applyChan rf')"
  using assms by (auto simp: noted_def own_message_def list_all_iff)

lemma serving_call:
  assumes ok: "serving_ok s" and c: "answer_ok i (sv_taken s) c"
    and sub: "submitted (sv_calls s ! i) = None \<or> submitted c = submitted (sv_calls s ! i)"
    and kv: "kv_view kv = kv_view (sv_kv s)" "noted (kvrf (sv_kv s)) (kvrf kv)"
  shows "serving_ok (s\<lparr>sv_kv := kv, sv_calls := (sv_calls s)[i := c]\<rparr>)"
proof -
  note g = calls_grow_update [OF sub]
  have "answers_ok (sv_taken s) ((sv_calls s)[i := c])" using ok c by (simp add: serving_ok_def answers_ok_update)
  moreover have "list_all (own_message ((sv_calls s)[i := c])) (applyChan (kvrf kv))"
    using noted_own [OF kv(2)] ok own_message_grow [OF g] by (auto simp: serving_ok_def list_all_iff)
  ultimately show ?thesis using ok in_hand_grow [OF g] by (simp add: serving_ok_def tables_ok_view [OF kv(1)])
qed

lemma serving_loop:
  assumes ok: "serving_ok s" and "tables_ok pc kv taken" "in_hand calls taken pc" "calls_grow (sv_calls s) calls"
    and "noted (kvrf (sv_kv s)) (kvrf kv)" "prefix (sv_taken s) taken" "answers_ok (sv_taken s) calls"
  shows "serving_ok \<lparr>sv_kv = kv, sv_pc = pc, sv_calls = calls, sv_taken = taken\<rparr>"
proof -
  have "list_all (own_message calls) (applyChan (kvrf kv))"
    using noted_own [OF assms(5)] ok own_message_grow [OF assms(4)] by (auto simp: serving_ok_def list_all_iff)
  moreover have "answers_ok taken calls" using assms(6,7) by (auto simp: answers_ok_def intro: answer_ok_later)
  ultimately show ?thesis using assms(2,3) by (simp add: serving_ok_def)
qed

lemma serving_server:
  assumes "serving_ok s" "kv_view kv = kv_view (sv_kv s)" "list_all (own_message (sv_calls s)) (applyChan (kvrf kv))"
  shows "serving_ok (s\<lparr>sv_kv := kv\<rparr>)"
  using assms(1,3) by (simp add: serving_ok_def tables_ok_view [OF assms(2)])

lemma requestRaft_start_keeps:
  assumes "requestRaft_start now rfG ch kv cmd ty = (kv', r)"
  shows "kv_view kv' = kv_view kv" and "noted (kvrf kv) (kvrf kv')" and "r = Returned b \<Longrightarrow> \<not> b"
proof -
  let ?op = "\<lparr>opCommand = cmd, NotifyChan = Some ch, OpType = ty\<rparr>"
  obtain rf index tm isLeader gs where st: "Start now rfG (kvrf kv) ?op = (rf, index, tm, isLeader, gs)"
    using prod_cases5 by blast
  with assms have "kv' = kv\<lparr>kvrf := rf\<rparr> \<and> r = (if isLeader then Waiting ch index else Returned False)"
    by (auto simp: requestRaft_start_def Let_def split: if_splits)
  then show "kv_view kv' = kv_view kv" "noted (kvrf kv) (kvrf kv')" "r = Returned b \<Longrightarrow> \<not> b"
    using Start_noted [OF st] by (auto simp: kv_view_def split: if_splits)
qed

lemma checked_success:
  assumes ok: "serving_ok s" and r: "requestRaft_check (sv_kv s) (request_client cmd) (request_msg cmd)"
  shows "success i cmd (sv_taken s)"
proof (cases cmd)
  case (CmdPutAppend args)
  have "fst (kv_view (sv_kv s)) = fst (foldl kv_exec no_tables (sv_taken s))"
    using ok by (cases "sv_pc s") (auto simp: serving_ok_def)
  then show ?thesis using r CmdPutAppend
    by (auto simp: requestRaft_check_def isRepeated_def seen_def kv_view_def split: option.splits)
qed (use r in \<open>simp add: requestRaft_check_def\<close>)

text \<open>A reader that finds the last store outstanding sees the state before that operation.\<close>

lemma reply_reads:
  assumes ok: "serving_ok s" and b: "b \<longrightarrow> in_taken i (CmdGet g) (sv_taken s)"
  shows "read_ok i g (kv_Get_reply (sv_kv s) g b) (sv_taken s)"
proof (cases b)
  case True
  have "\<exists>xs. prefix xs (sv_taken s) \<and> in_taken i (CmdGet g) xs \<and> KvStorage (sv_kv s) = snd (foldl kv_exec no_tables xs)"
  proof (cases "\<exists>op c. sv_pc s = Storing op c")
    case False
    then have "kv_view (sv_kv s) = foldl kv_exec no_tables (sv_taken s)"
      using ok tables_ok_idle by (auto simp: serving_ok_def)
    then have "KvStorage (sv_kv s) = snd (foldl kv_exec no_tables (sv_taken s))" by (metis kv_view_def snd_conv)
    then show ?thesis using b True by blast
  next
    case True
    then obtain op c xs where xs: "sv_taken s = xs @ [op]" "opCommand op = CmdPutAppend c"
      "kv_view (sv_kv s) = (fst (foldl kv_exec no_tables (sv_taken s)), snd (foldl kv_exec no_tables xs))"
      using ok by (auto simp: serving_ok_def)
    then show ?thesis using b \<open>b\<close> by (intro exI [of _ xs]) (auto simp: kv_view_def in_taken_def)
  qed
  then show ?thesis using True by (auto simp: read_ok_def kv_Get_reply_def)
qed (simp add: read_ok_def kv_Get_reply_def)

lemma check_tables:
  assumes "kv_apply_check kv op = Inr (kv', todo)" "kv_view kv = foldl kv_exec no_tables taken"
  shows "tables_ok (case todo of Some command \<Rightarrow> Storing op command | None \<Rightarrow> Notifying op) kv' (taken @ [op])"
    and "kvrf kv' = kvrf kv"
proof -
  let ?t = "foldl kv_exec no_tables taken"
  have v: "fst ?t = ClientMsgId kv" "snd ?t = KvStorage kv" unfolding assms(2) [symmetric] by (simp_all add: kv_view_def)
  have "tables_ok (case todo of Some command \<Rightarrow> Storing op command | None \<Rightarrow> Notifying op) kv' (taken @ [op]) \<and> kvrf kv' = kvrf kv"
  proof (cases "opCommand op")
    case (CmdGet g)
    then show ?thesis using assms by (auto simp: kv_apply_check_def kv_exec_def split: if_splits)
  next
    case (CmdPutAppend c)
    have r: "isRepeated kv (ClientId c) (MsgId c) True =
        (if seen (ClientMsgId kv) c then kv else kv\<lparr>ClientMsgId := (ClientMsgId kv)(ClientId c \<mapsto> MsgId c)\<rparr>, seen (ClientMsgId kv) c)"
      by (simp add: isRepeated_def seen_def Let_def split: option.splits)
    show ?thesis
    proof (cases "seen (ClientMsgId kv) c")
      case True
      then have "kv' = kv" "todo = None" using assms(1) CmdPutAppend r by (auto simp: kv_apply_check_def split: if_splits)
      then show ?thesis using True CmdPutAppend v assms(2) by (simp add: kv_exec_def)
    next
      case False
      then have "kv' = kv\<lparr>ClientMsgId := (ClientMsgId kv)(ClientId c \<mapsto> MsgId c)\<rparr>" "todo = Some c"
        using assms(1) CmdPutAppend r by (auto simp: kv_apply_check_def split: if_splits)
      then show ?thesis using False CmdPutAppend v by (simp add: kv_exec_def kv_view_def)
    qed
  qed
  then show "tables_ok (case todo of Some command \<Rightarrow> Storing op command | None \<Rightarrow> Notifying op) kv' (taken @ [op])"
    "kvrf kv' = kvrf kv" by blast+
qed

lemma store_tables:
  assumes "tables_ok (Storing op command) kv taken"
  shows "kv_view (kv_apply_store kv op command) = foldl kv_exec no_tables taken"
  using assms by (auto simp: kv_apply_store_def kv_view_def kv_exec_def)

lemma install_tables:
  assumes "kv_view kv = foldl kv_exec no_tables taken" "prefix taken ops" "(ids, st) = foldl kv_exec no_tables ops"
  shows "kv_view (updateFromSnapshot kv index [GobMsgIds ids, GobStorage st]) = foldl kv_exec no_tables ops"
proof -
  obtain zs where "ops = taken @ zs" using assms(2) by (auto simp: prefix_def)
  then have "(ids, st) = foldl kv_exec (kv_view kv) zs" using assms(1,3) by simp
  then have "dom (ClientMsgId kv) \<subseteq> dom ids" "dom (KvStorage kv) \<subseteq> dom st"
    using kv_run_dom [of "kv_view kv" zs] by (metis fst_conv kv_view_def, metis snd_conv kv_view_def)
  then show ?thesis using assms(3) by (simp add: updateFromSnapshot_def kv_view_def map_add_dominated Let_def)
qed

lemma woken:
  assumes "own_channel calls op" "op \<in> set taken" "answers_ok taken calls"
    and "calls' = wake_all (kv_apply_notify (receiving calls) op) calls"
  shows "calls_grow calls calls' \<and> answers_ok taken calls'"
proof (cases "\<exists>ch. NotifyChan op = Some ch \<and> receiving calls ch")
  case True
  then obtain ch where "NotifyChan op = Some ch" "ch < length calls" "receiving calls ch" by auto
  then obtain cmd index where ch: "NotifyChan op = Some ch" "ch < length calls" "calls ! ch = Awaiting cmd index"
    by (cases "calls ! ch") auto
  have "opCommand op = cmd" using assms(1) ch by (auto simp: own_channel_def)
  then have "answer_ok ch taken (Woken cmd index)" using assms(2) ch(1) by (auto simp: in_taken_def)
  moreover have "calls' = calls[ch := Woken cmd index]" using assms(4) ch by (simp add: kv_apply_notify_def)
  ultimately show ?thesis using assms(3) calls_grow_update [of calls ch "Woken cmd index"] ch(3)
    by (simp add: answers_ok_update)
next
  case False
  then have "calls' = calls" using assms(4) by (auto simp: kv_apply_notify_def split: option.splits)
  then show ?thesis using assms(3) by (simp add: calls_grow_def)
qed

text \<open>The steps of the handlers.\<close>

lemma serving_ok_answers: "serving_ok s \<Longrightarrow> i < length (sv_calls s) \<Longrightarrow> answer_ok i (sv_taken s) (sv_calls s ! i)"
  by (simp add: serving_ok_def answers_ok_def)

lemma serve_calls:
  assumes ok: "serving_ok s" and i: "i < length (sv_calls s)"
  shows "sv_calls s ! i = Arrived cmd \<Longrightarrow> serving_ok (s\<lparr>sv_calls := (sv_calls s)[i :=
       if requestRaft_check (sv_kv s) (request_client cmd) (request_msg cmd) then Answered cmd True else Checked cmd]\<rparr>)"
    and "sv_calls s ! i = Started cmd index \<Longrightarrow> serving_ok (s\<lparr>sv_calls := (sv_calls s)[i := Awaiting cmd index]\<rparr>)"
    and "sv_calls s ! i = Answered (CmdGet args) b \<Longrightarrow>
      serving_ok (s\<lparr>sv_calls := (sv_calls s)[i := Replied args (kv_Get_reply (sv_kv s) args b)]\<rparr>)"
proof -
  have call: "serving_ok (s\<lparr>sv_calls := (sv_calls s)[i := c]\<rparr>)"
    if "answer_ok i (sv_taken s) c" "submitted (sv_calls s ! i) = None \<or> submitted c = submitted (sv_calls s ! i)" for c
    using serving_call [OF ok that, of "sv_kv s"] by simp
  show "sv_calls s ! i = Arrived cmd \<Longrightarrow> serving_ok (s\<lparr>sv_calls := (sv_calls s)[i :=
       if requestRaft_check (sv_kv s) (request_client cmd) (request_msg cmd) then Answered cmd True else Checked cmd]\<rparr>)"
    by (rule call) (use checked_success [OF ok] in auto)
  show "sv_calls s ! i = Started cmd index \<Longrightarrow> serving_ok (s\<lparr>sv_calls := (sv_calls s)[i := Awaiting cmd index]\<rparr>)"
    by (rule call) auto
  show "sv_calls s ! i = Answered (CmdGet args) b \<Longrightarrow>
      serving_ok (s\<lparr>sv_calls := (sv_calls s)[i := Replied args (kv_Get_reply (sv_kv s) args b)]\<rparr>)"
    by (rule call) (use reply_reads [OF ok] serving_ok_answers [OF ok i] in auto)
qed

lemma serve_keeps:
  assumes ok: "serving_ok s" and "serve len s s'"
  shows "serving_ok s'"
  using assms(2)
proof (cases rule: serve.cases)
  case (arrive cmd)
  have "calls_grow (sv_calls s) (sv_calls s @ [Arrived cmd])" by (simp add: calls_grow_def nth_append)
  then show ?thesis using ok unfolding arrive
    by (auto simp: serving_ok_def list_all_iff answers_ok_def nth_append less_Suc_eq intro: in_hand_grow own_message_grow)
next
  case (check i cmd)
  then show ?thesis using serve_calls(1) [OF ok] by simp
next
  case (refuse i cmd now rfG kv b)
  note k = requestRaft_start_keeps [OF refuse(4)]
  show ?thesis unfolding refuse(1) by (rule serving_call [OF ok _ _ k(1,2)]) (use refuse k(3) in auto)
next
  case (start i cmd now rfG kv ch index)
  note k = requestRaft_start_keeps [OF start(4)]
  show ?thesis unfolding start(1) by (rule serving_call [OF ok _ _ k(1,2)]) (use start in auto)
next
  case (await i cmd index)
  then show ?thesis using serve_calls(2) [OF ok] by simp
next
  case (notified i cmd index kv b)
  have "success i cmd (sv_taken s)" using serving_ok_answers [OF ok notified(2)] notified(3) taken_success by simp
  then show ?thesis unfolding notified(1)
    by (intro serving_call [OF ok]) (use notified in \<open>auto simp: requestRaft_notified_def kv_view_def\<close>)
next
  case (timeout i cmd index kv b)
  then show ?thesis unfolding timeout(1) by (intro serving_call [OF ok]) (auto simp: requestRaft_timeout_def)
next
  case (reply i args b)
  then show ?thesis using serve_calls(3) [OF ok] by simp
next
  case (receive m rest)
  have "kv_view (sv_kv s\<lparr>kvrf := (kvrf (sv_kv s))\<lparr>applyChan := rest\<rparr>\<rparr>) = kv_view (sv_kv s)" by (simp add: kv_view_def)
  then show ?thesis using ok receive by (auto simp: serving_ok_def)
next
  case (apply_begin m op kv todo)
  have own: "own_channel (sv_calls s) op" and v: "kv_view (sv_kv s) = foldl kv_exec no_tables (sv_taken s)"
    using ok apply_begin(2,4) by (auto simp: serving_ok_def own_message_def)
  note t = check_tables [OF apply_begin(5) v]
  have "serving_ok \<lparr>sv_kv = kv, sv_pc = (case todo of Some command \<Rightarrow> Storing op command | None \<Rightarrow> Notifying op),
      sv_calls = sv_calls s, sv_taken = sv_taken s @ [op]\<rparr>"
    by (rule serving_loop [OF ok t(1)]) (use ok own t(2) in \<open>auto simp: serving_ok_def calls_grow_def split: option.splits\<close>)
  then show ?thesis unfolding apply_begin(1) by (cases s) simp
next
  case (apply_panic m e)
  then show ?thesis using ok by (auto simp: serving_ok_def)
next
  case (apply_store op command)
  note t = store_tables [of op command "sv_kv s" "sv_taken s"]
  have "kvrf (kv_apply_store (sv_kv s) op command) = kvrf (sv_kv s)" by (simp add: kv_apply_store_def)
  then show ?thesis using ok apply_store t by (simp add: serving_ok_def)
next
  case (apply_notify op)
  have "own_channel (sv_calls s) op" "op \<in> set (sv_taken s)" "answers_ok (sv_taken s) (sv_calls s)"
    using ok apply_notify(2) by (auto simp: serving_ok_def)
  from woken [OF this refl] have "serving_ok \<lparr>sv_kv = sv_kv s, sv_pc = Saving,
      sv_calls = wake_all (kv_apply_notify (receiving (sv_calls s)) op) (sv_calls s), sv_taken = sv_taken s\<rparr>"
    by (intro serving_loop [OF ok]) (use ok apply_notify in \<open>auto simp: serving_ok_def\<close>)
  then show ?thesis unfolding apply_notify(1) by (cases s) simp
next
  case (skip m)
  then show ?thesis using ok by (auto simp: serving_ok_def)
next
  case (install m sn ids st ops)
  have v: "kv_view (sv_kv s) = foldl kv_exec no_tables (sv_taken s)" using ok install(2) by (auto simp: serving_ok_def)
  have "kvrf (updateFromSnapshot (sv_kv s) (sIndex sn) (Storage sn)) = kvrf (sv_kv s)"
    by (simp add: updateFromSnapshot_def install(5) Let_def)
  then have "serving_ok \<lparr>sv_kv = updateFromSnapshot (sv_kv s) (sIndex sn) (Storage sn), sv_pc = Saving, sv_calls = sv_calls s, sv_taken = ops\<rparr>"
    by (intro serving_loop [OF ok])
      (use ok install_tables [OF v install(7,6), of "sIndex sn"] install(5,7) in \<open>auto simp: serving_ok_def calls_grow_def\<close>)
  then show ?thesis unfolding install(1) by (cases s) simp
next
  case (save kv)
  note k = ifSnapshot_keeps [OF save(3)]
  have "serving_ok \<lparr>sv_kv = kv, sv_pc = Listening, sv_calls = sv_calls s, sv_taken = sv_taken s\<rparr>"
    by (rule serving_loop [OF ok _ _ _ k(2)]) (use ok save(2) k(1) in \<open>auto simp: serving_ok_def calls_grow_def\<close>)
  then show ?thesis unfolding save(1) by (cases s) simp
next
  case (save_panic e)
  then show ?thesis using ok by (auto simp: serving_ok_def)
next
  case (peer rf ms)
  show ?thesis unfolding peer(1)
    by (rule serving_server [OF ok]) (use ok peer in \<open>auto simp: serving_ok_def kv_view_def list_all_iff\<close>)
next
  case kill
  show ?thesis unfolding kill
    by (rule serving_server [OF ok]) (use ok in \<open>auto simp: serving_ok_def kv_view_def kv_Kill_def raft_Kill_def\<close>)
qed

text \<open>A new server may find a snapshot of its own on the channel, and nothing else.\<close>

lemma decodeState_channel: "applyChan (decodeState rf data) = applyChan rf"
  by (auto simp: decodeState_def Let_def split: option.splits prod.splits)

lemma Make_own: "list_all (own_message []) (applyChan (Make now rnd servers i persister))"
  by (simp add: Make_def readPersist_def decodeState_channel resetElectionTimer_def send_apply_def own_message_def Let_def)

interpretation serving: inductive_invariant "\<lambda>s. \<exists>now rnd servers i persister maxstate.
  s = start_serving (StartKVServer now rnd servers i persister maxstate)" "serve_step len" serving_ok for len
proof
  fix s assume "\<exists>now rnd servers i persister maxstate. s = start_serving (StartKVServer now rnd servers i persister maxstate)"
  then obtain now rnd servers i persister maxstate
    where s: "s = start_serving (StartKVServer now rnd servers i persister maxstate)" by blast
  have "list_all (own_message []) (applyChan (Make now rnd servers i persister))" by (rule Make_own)
  then show "serving_ok s" by (simp add: s start_serving_def serving_ok_def StartKVServer_def kv_view_def answers_ok_def)
qed (auto simp: serve_step_def intro: serve_keeps)

section \<open>What answers tell\<close>

lemma seen_source:
  assumes "seen (fst (foldl kv_exec no_tables xs)) args"
  shows "\<exists>op c. op \<in> set xs \<and> opCommand op = CmdPutAppend c \<and> ClientId c = ClientId args \<and> MsgId args \<le> MsgId c"
  using assms
proof (induction xs rule: rev_induct)
  case (snoc op xs)
  let ?t = "foldl kv_exec no_tables xs"
  show ?case
  proof (cases "seen (fst ?t) args")
    case True
    then show ?thesis using snoc.IH by auto
  next
    case False
    have "seen (fst (kv_exec ?t op)) args" using snoc.prems by simp
    with False obtain c where c: "opCommand op = CmdPutAppend c" "seen ((fst ?t)(ClientId c \<mapsto> MsgId c)) args"
      by (cases "opCommand op") (auto simp: kv_exec_def [of ?t op] split: if_splits)
    then have "ClientId c = ClientId args \<and> MsgId args \<le> MsgId c"
      using False by (auto simp: seen_def split: if_splits)
    with c(1) show ?thesis by auto
  qed
qed (simp add: seen_def)

text \<open>
  C14: An acknowledged write has been applied. Consider a server from its start, its apply loop and any number of
  handlers, interleaved at every point where the lock is free, with snapshots saved and taken over (each holding
  the tables after a sequence of operations that goes on from the one taken so far). Whenever a \<^verbatim>\<open>PutAppend\<close>
  handler has reported success, at once or because the loop has sent on its channel, the server has taken from the
  log a write of that client with that number or a later one, a further copy of the request changes nothing, and
  the duplicate table and the storage are those of executing the operations taken, in order; the one exception
  is the moment between the table and the storage of the last of them, in which the handler of a copy may already
  report success: then the storage is what that store will make it.
\<close>

theorem acknowledged_is_applied:
  assumes "run_from (serve_step len) (start_serving (StartKVServer now rnd servers i persister maxstate)) s"
    and "k < length (sv_calls s)" and "sv_calls s ! k = Answered (CmdPutAppend args) True"
  shows "(\<exists>op c. op \<in> set (sv_taken s) \<and> opCommand op = CmdPutAppend c \<and> ClientId c = ClientId args \<and> MsgId args \<le> MsgId c) \<and>
    kv_exec (foldl kv_exec (Map.empty, Map.empty) (sv_taken s)) \<lparr>opCommand = CmdPutAppend args, NotifyChan = nc, OpType = ty\<rparr>
      = foldl kv_exec (Map.empty, Map.empty) (sv_taken s) \<and>
    (ClientMsgId (sv_kv s),
     case sv_pc s of Storing op c \<Rightarrow> kv_store (OpType op) c (KvStorage (sv_kv s)) | _ \<Rightarrow> KvStorage (sv_kv s))
      = foldl kv_exec (Map.empty, Map.empty) (sv_taken s)"
proof (intro conjI)
  have ok: "serving_ok s" by (rule serving.inv_run [OF _ assms(1)]) blast
  have sn: "seen (fst (foldl kv_exec no_tables (sv_taken s))) args" using serving_ok_answers [OF ok assms(2)] assms(3) by simp
  show "\<exists>op c. op \<in> set (sv_taken s) \<and> opCommand op = CmdPutAppend c \<and> ClientId c = ClientId args \<and> MsgId args \<le> MsgId c"
    by (rule seen_source [OF sn])
  show "kv_exec (foldl kv_exec no_tables (sv_taken s)) \<lparr>opCommand = CmdPutAppend args, NotifyChan = nc, OpType = ty\<rparr>
      = foldl kv_exec no_tables (sv_taken s)"
    by (rule kv.exec_recorded) (simp add: kv_recorded_def sn)
  have t: "tables_ok (sv_pc s) (sv_kv s) (sv_taken s)" using ok by (simp add: serving_ok_def)
  show "(ClientMsgId (sv_kv s),
     case sv_pc s of Storing op c \<Rightarrow> kv_store (OpType op) c (KvStorage (sv_kv s)) | _ \<Rightarrow> KvStorage (sv_kv s))
      = foldl kv_exec no_tables (sv_taken s)"
  proof (cases "sv_pc s")
    case (Storing op c)
    with t show ?thesis using store_tables [of op c "sv_kv s" "sv_taken s"] by (simp add: kv_view_def kv_apply_store_def)
  qed (use t in \<open>simp_all add: kv_view_def\<close>)
qed

text \<open>The handler of a copy reports success between the table and the storage.\<close>

definition example_kv :: KVServer where
  "example_kv = StartKVServer 0 0 3 0 MakePersister (-1)"

definition example_write :: "Op" where
  "example_write = example_op ''Put'' 1 ''a''"

definition with_channel :: "(Op, kvgob) ApplyMsg list \<Rightarrow> KVServer \<Rightarrow> KVServer" where
  "with_channel ms kv = kv\<lparr>kvrf := (kvrf kv)\<lparr>applyChan := ms\<rparr>\<rparr>"

definition deliver :: "Op \<Rightarrow> (Op, kvgob) ApplyMsg" where
  "deliver op = \<lparr>CommandValid = True, Command = CommandIface op, CommandIndex = 1\<rparr>"

lemma serve_run:
  "run_from (serve_step len) s0 s \<Longrightarrow> serve len s s' \<Longrightarrow> sv_pc s \<noteq> Panicked \<Longrightarrow> run_from (serve_step len) s0 s'"
  by (rule run_step) (simp_all add: serve_step_def)

lemma example_race:
  "\<exists>kv. run_from (serve_step len) (start_serving example_kv)
     \<lparr>sv_kv = kv, sv_pc = Storing example_write \<lparr>paKey = ''k'', Value = ''a'', paOp = ''Put'', ClientId = 9, MsgId = 1\<rparr>,
      sv_calls = [Answered (opCommand example_write) True], sv_taken = [example_write]\<rparr> \<and> KvStorage kv ''k'' = None"
proof -
  let ?c = "\<lparr>paKey = ''k'', Value = ''a'', paOp = ''Put'', ClientId = 9, MsgId = 1\<rparr>" and ?m = "deliver example_write"
  let ?kv1 = "with_channel [?m] example_kv" let ?kv2 = "with_channel [] example_kv"
  let ?kv3 = "?kv2\<lparr>ClientMsgId := [9 \<mapsto> 1]\<rparr>" let ?at = "\<lambda>pc calls taken kv. \<lparr>sv_kv = kv, sv_pc = pc, sv_calls = calls, sv_taken = taken\<rparr>"
  have cmd: "opCommand example_write = CmdPutAppend ?c" "OpType example_write = ''Put''" "NotifyChan example_write = None"
    by (simp_all add: example_write_def example_op_def)
  have ch: "applyChan (kvrf example_kv) = []" by code_simp
  have "serve len (start_serving example_kv) (?at Listening [] [] ?kv1)"
    using serve.peer [of "kvrf ?kv1" "start_serving example_kv" "[?m]" len] ch cmd
    by (simp add: start_serving_def with_channel_def own_message_def own_channel_def deliver_def)
  then have "run_from (serve_step len) (start_serving example_kv) (?at Listening [] [] ?kv1)"
    by (intro run_from_single) (simp add: serve_step_def start_serving_def)
  moreover have "serve len (?at Listening [] [] ?kv1) (?at (Received ?m) [] [] ?kv2)"
    using serve.receive [of "?at Listening [] [] ?kv1" ?m "[]" len]
    by (simp add: with_channel_def kv_killed_def example_kv_def StartKVServer_def)
  ultimately have "run_from (serve_step len) (start_serving example_kv) (?at (Received ?m) [] [] ?kv2)"
    by (rule serve_run) simp
  moreover have "kv_apply_check ?kv2 example_write = Inr (?kv3, Some ?c)"
    by (simp add: kv_apply_check_def cmd isRepeated_def with_channel_def example_kv_def StartKVServer_def)
  then have "serve len (?at (Received ?m) [] [] ?kv2) (?at (Storing example_write ?c) [] [example_write] ?kv3)"
    using serve.apply_begin [of "?at (Received ?m) [] [] ?kv2" ?m example_write ?kv3 "Some ?c" len] by (simp add: deliver_def)
  ultimately have "run_from (serve_step len) (start_serving example_kv) (?at (Storing example_write ?c) [] [example_write] ?kv3)"
    by (rule serve_run) simp
  moreover have "serve len (?at (Storing example_write ?c) [] [example_write] ?kv3)
      (?at (Storing example_write ?c) [Arrived (CmdPutAppend ?c)] [example_write] ?kv3)"
    using serve.arrive [of len "?at (Storing example_write ?c) [] [example_write] ?kv3"] by simp
  ultimately have "run_from (serve_step len) (start_serving example_kv)
      (?at (Storing example_write ?c) [Arrived (CmdPutAppend ?c)] [example_write] ?kv3)"
    by (rule serve_run) simp
  moreover have "requestRaft_check ?kv3 9 1" by (simp add: requestRaft_check_def isRepeated_def)
  then have "serve len (?at (Storing example_write ?c) [Arrived (CmdPutAppend ?c)] [example_write] ?kv3)
      (?at (Storing example_write ?c) [Answered (CmdPutAppend ?c) True] [example_write] ?kv3)"
    using serve.check [of 0 "?at (Storing example_write ?c) [Arrived (CmdPutAppend ?c)] [example_write] ?kv3" "CmdPutAppend ?c" len]
    by simp
  ultimately have "run_from (serve_step len) (start_serving example_kv)
      (?at (Storing example_write ?c) [Answered (CmdPutAppend ?c) True] [example_write] ?kv3)"
    by (rule serve_run) simp
  then show ?thesis using cmd by (intro exI [of _ ?kv3]) (simp add: with_channel_def example_kv_def StartKVServer_def)
qed

theorem acknowledged_is_applied_witness:
  "\<exists>s. run_from (serve_step (\<lambda>_. 0)) (start_serving example_kv) s \<and>
     sv_calls s = [Answered (opCommand example_write) True] \<and> KvStorage (sv_kv s) ''k'' = None \<and>
     (\<exists>op c. op \<in> set (sv_taken s) \<and> opCommand op = CmdPutAppend c \<and> ClientId c = 9 \<and> 1 \<le> MsgId c)"
proof -
  let ?c = "\<lparr>paKey = ''k'', Value = ''a'', paOp = ''Put'', ClientId = 9, MsgId = 1\<rparr>"
  obtain s where s: "run_from (serve_step (\<lambda>_. 0)) (start_serving example_kv) s"
    "sv_calls s = [Answered (opCommand example_write) True]" "KvStorage (sv_kv s) ''k'' = None"
    using example_race [of "\<lambda>_. 0"] by fastforce
  moreover have "opCommand example_write = CmdPutAppend ?c" by (simp add: example_write_def example_op_def)
  ultimately show ?thesis
    using acknowledged_is_applied [OF s(1) [unfolded example_kv_def], of 0 ?c None "[]"] by auto
qed

text \<open>
  C15: What a read returns. In the same interleaving, a \<^verbatim>\<open>Get\<close> handler that does not report \<^verbatim>\<open>NotLeaderError\<close>
  returns the value, or \<^verbatim>\<open>NotFoundError\<close>, that its key has after executing, in order, some first part of the
  operations the server has taken from the log, and that part contains the handler's own operation: everything
  that was ordered before the read is seen by it, and a write of which only the duplicate table is updated is not.
\<close>

theorem Get_reads_own_prefix:
  assumes "run_from (serve_step len) (start_serving (StartKVServer now rnd servers i persister maxstate)) s"
    and "k < length (sv_calls s)" and "sv_calls s ! k = Replied g r" and "gErr r \<noteq> ''NotLeaderError''"
  shows "\<exists>xs. prefix xs (sv_taken s) \<and> (\<exists>op \<in> set xs. opCommand op = CmdGet g \<and> NotifyChan op = Some k) \<and>
    r = (case snd (foldl kv_exec (Map.empty, Map.empty) xs) (gKey g) of
           Some value \<Rightarrow> \<lparr>gErr = [], gValue = value\<rparr> | None \<Rightarrow> \<lparr>gErr = ''NotFoundError'', gValue = []\<rparr>)"
proof -
  have ok: "serving_ok s" by (rule serving.inv_run [OF _ assms(1)]) blast
  from serving_ok_answers [OF ok assms(2)] assms(3,4) show ?thesis by (simp add: read_ok_def in_taken_def)
qed

text \<open>The way of a read: to the log, back through the channel, and to the storage.\<close>

lemma loop_notes:
  assumes r: "run_from (serve_step len) s0 \<lparr>sv_kv = kv, sv_pc = Listening, sv_calls = calls, sv_taken = taken\<rparr>"
    and "\<not> kv_killed kv" "applyChan (kvrf kv) = m # rest" "\<not> CommandValid m" "Command m = NilIface" "maxraftstate kv = -1"
  shows "run_from (serve_step len) s0 \<lparr>sv_kv = with_channel rest kv, sv_pc = Listening, sv_calls = calls, sv_taken = taken\<rparr>"
proof -
  let ?at = "\<lambda>pc kv. \<lparr>sv_kv = kv, sv_pc = pc, sv_calls = calls, sv_taken = taken\<rparr>"
  have "serve len (?at Listening kv) (?at (Received m) (with_channel rest kv))"
    using serve.receive [of "?at Listening kv" m rest len] assms by (simp add: with_channel_def)
  from serve_run [OF r this] have "run_from (serve_step len) s0 (?at (Received m) (with_channel rest kv))" by simp
  moreover have "serve len (?at (Received m) (with_channel rest kv)) (?at Saving (with_channel rest kv))"
    using serve.skip [of "?at (Received m) (with_channel rest kv)" m len] assms by simp
  ultimately have "run_from (serve_step len) s0 (?at Saving (with_channel rest kv))" by (rule serve_run) simp
  moreover have "serve len (?at Saving (with_channel rest kv)) (?at Listening (with_channel rest kv))"
    using serve.save [of "?at Saving (with_channel rest kv)" len "with_channel rest kv"] assms
    by (simp add: ifSnapshot_def with_channel_def)
  ultimately show ?thesis by (rule serve_run) simp
qed

lemma loop_gets:
  assumes r: "run_from (serve_step len) s0 \<lparr>sv_kv = kv, sv_pc = Listening, sv_calls = [Awaiting (CmdGet g) index], sv_taken = taken\<rparr>"
    and "\<not> kv_killed kv" "applyChan (kvrf kv) = deliver op # rest" "opCommand op = CmdGet g" "OpType op = ''Get''" "NotifyChan op = Some 0"
  shows "run_from (serve_step len) s0 \<lparr>sv_kv = (with_channel rest kv)\<lparr>lastLogIndex := index\<rparr>, sv_pc = Saving,
    sv_calls = [Answered (CmdGet g) True], sv_taken = taken @ [op]\<rparr>"
proof -
  let ?at = "\<lambda>pc c t kv. \<lparr>sv_kv = kv, sv_pc = pc, sv_calls = [c], sv_taken = t\<rparr>"
  let ?w = "Awaiting (CmdGet g) index" let ?kv = "with_channel rest kv"
  have "serve len (?at Listening ?w taken kv) (?at (Received (deliver op)) ?w taken ?kv)"
    using serve.receive [of "?at Listening ?w taken kv" "deliver op" rest len] assms by (simp add: with_channel_def)
  from serve_run [OF r this] have "run_from (serve_step len) s0 (?at (Received (deliver op)) ?w taken ?kv)" by simp
  moreover have "serve len (?at (Received (deliver op)) ?w taken ?kv) (?at (Notifying op) ?w (taken @ [op]) ?kv)"
    using serve.apply_begin [of "?at (Received (deliver op)) ?w taken ?kv" "deliver op" op ?kv None len] assms
    by (simp add: kv_apply_check_def deliver_def)
  ultimately have "run_from (serve_step len) s0 (?at (Notifying op) ?w (taken @ [op]) ?kv)" by (rule serve_run) simp
  moreover have "serve len (?at (Notifying op) ?w (taken @ [op]) ?kv) (?at Saving (Woken (CmdGet g) index) (taken @ [op]) ?kv)"
    using serve.apply_notify [of "?at (Notifying op) ?w (taken @ [op]) ?kv" op len] assms by (simp add: kv_apply_notify_def)
  ultimately have "run_from (serve_step len) s0 (?at Saving (Woken (CmdGet g) index) (taken @ [op]) ?kv)" by (rule serve_run) simp
  moreover have "serve len (?at Saving (Woken (CmdGet g) index) (taken @ [op]) ?kv)
      (?at Saving (Answered (CmdGet g) True) (taken @ [op]) (?kv\<lparr>lastLogIndex := index\<rparr>))"
    using serve.notified [of 0 "?at Saving (Woken (CmdGet g) index) (taken @ [op]) ?kv" "CmdGet g" index _ _ len]
    by (simp add: requestRaft_notified_def)
  ultimately show ?thesis by (rule serve_run) simp
qed

definition example_leading :: KVServer where
  "example_leading = example_kv\<lparr>kvrf := (kvrf example_kv)\<lparr>state := Leader\<rparr>\<rparr>"

definition example_read :: GetArgs where
  "example_read = \<lparr>gKey = ''k''\<rparr>"

definition example_submitted :: KVServer where
  "example_submitted = fst (requestRaft_start 0 (kvrf example_leading) 0 example_leading (CmdGet example_read) ''Get'')"

lemma example_awaits:
  "run_from (serve_step len) (start_serving example_kv)
     \<lparr>sv_kv = example_submitted, sv_pc = Listening, sv_calls = [Awaiting (CmdGet example_read) 1], sv_taken = []\<rparr>"
proof -
  let ?at = "\<lambda>calls kv. \<lparr>sv_kv = kv, sv_pc = Listening, sv_calls = calls, sv_taken = []\<rparr>" let ?g = "CmdGet example_read"
  have "applyChan (kvrf example_leading) = applyChan (kvrf example_kv) @ []" by (simp add: example_leading_def)
  then have "serve len (start_serving example_kv) (?at [] example_leading)"
    using serve.peer [of "kvrf example_leading" "start_serving example_kv" "[]" len] by (simp add: start_serving_def example_leading_def)
  then have "run_from (serve_step len) (start_serving example_kv) (?at [] example_leading)"
    by (intro run_from_single) (simp add: serve_step_def start_serving_def)
  moreover have "serve len (?at [] example_leading) (?at [Arrived ?g] example_leading)"
    using serve.arrive [of len "?at [] example_leading"] by simp
  ultimately have "run_from (serve_step len) (start_serving example_kv) (?at [Arrived ?g] example_leading)" by (rule serve_run) simp
  moreover have "serve len (?at [Arrived ?g] example_leading) (?at [Checked ?g] example_leading)"
    using serve.check [of 0 "?at [Arrived ?g] example_leading" ?g len] by (simp add: requestRaft_check_def)
  ultimately have "run_from (serve_step len) (start_serving example_kv) (?at [Checked ?g] example_leading)" by (rule serve_run) simp
  moreover have "snd (requestRaft_start 0 (kvrf example_leading) 0 example_leading ?g ''Get'') = Waiting 0 1" by code_simp
  then have "requestRaft_start 0 (kvrf example_leading) 0 example_leading ?g ''Get'' = (example_submitted, Waiting 0 1)"
    by (simp add: example_submitted_def prod_eq_iff)
  then have "serve len (?at [Checked ?g] example_leading) (?at [Started ?g 1] example_submitted)"
    using serve.start [of 0 "?at [Checked ?g] example_leading" ?g 0 "kvrf example_leading" example_submitted 0 1 len] by simp
  ultimately have "run_from (serve_step len) (start_serving example_kv) (?at [Started ?g 1] example_submitted)" by (rule serve_run) simp
  moreover have "serve len (?at [Started ?g 1] example_submitted) (?at [Awaiting ?g 1] example_submitted)"
    using serve.await [of 0 "?at [Started ?g 1] example_submitted" ?g 1 len] by simp
  ultimately show ?thesis by (rule serve_run) simp
qed

theorem Get_reads_own_prefix_witness:
  "\<exists>s. run_from (serve_step (\<lambda>_. 0)) (start_serving example_kv) s \<and>
     sv_calls s = [Replied example_read \<lparr>gErr = ''NotFoundError'', gValue = []\<rparr>] \<and>
     (\<exists>xs. prefix xs (sv_taken s) \<and> (\<exists>op \<in> set xs. opCommand op = CmdGet example_read \<and> NotifyChan op = Some 0))"
proof -
  let ?len = "\<lambda>_. 0 :: int" let ?run = "run_from (serve_step ?len) (start_serving example_kv)" let ?g = "CmdGet example_read"
  let ?op = "\<lparr>opCommand = ?g, NotifyChan = Some 0, OpType = ''Get''\<rparr>" let ?r = "\<lparr>gErr = ''NotFoundError'', gValue = []\<rparr>"
  let ?note = "\<lparr>CommandValid = False, Command = NilIface, CommandIndex = 0\<rparr>" let ?kv = "with_channel [deliver ?op] example_submitted"
  let ?kv2 = "(with_channel [] ?kv)\<lparr>lastLogIndex := 1\<rparr>" let ?kv1 = "with_channel [?note, deliver ?op] example_submitted"
  let ?at = "\<lambda>pc c t kv. \<lparr>sv_kv = kv, sv_pc = pc, sv_calls = [c], sv_taken = t\<rparr>"
  have "map CommandIndex (applyChan (kvrf example_submitted)) = [0] \<and> map CommandValid (applyChan (kvrf example_submitted)) = [False] \<and>
      map (case_iface True (\<lambda>_. False) (\<lambda>_. False) \<circ> Command) (applyChan (kvrf example_submitted)) = [True]" by code_simp
  then have "applyChan (kvrf example_submitted) = [?note]"
    by (cases "applyChan (kvrf example_submitted)") (auto split: iface.splits)
  moreover have "maxraftstate example_submitted = -1" "kvdead example_submitted = 0"
    "KvStorage example_submitted ''k'' = None" by code_simp+
  ultimately have kv: "applyChan (kvrf example_submitted) = [?note]" "maxraftstate example_submitted = -1" "kvdead example_submitted = 0"
    "KvStorage example_submitted ''k'' = None" by blast+
  have "serve ?len (?at Listening (Awaiting ?g 1) [] example_submitted) (?at Listening (Awaiting ?g 1) [] ?kv1)"
    using serve.peer [of "kvrf ?kv1" "?at Listening (Awaiting ?g 1) [] example_submitted" "[deliver ?op]" ?len] kv
    by (simp add: with_channel_def own_message_def own_channel_def deliver_def)
  from serve_run [OF example_awaits this] have "?run (?at Listening (Awaiting ?g 1) [] ?kv1)" by simp
  from loop_notes [OF this, of ?note "[deliver ?op]"] kv
  have "?run (?at Listening (Awaiting ?g 1) [] ?kv)" by (simp add: with_channel_def kv_killed_def)
  from loop_gets [OF this, of ?op "[]"] kv have "?run (?at Saving (Answered ?g True) [?op] ?kv2)"
    by (simp add: with_channel_def kv_killed_def)
  moreover have "kv_Get_reply ?kv2 example_read True = ?r"
    using kv by (simp add: kv_Get_reply_def with_channel_def example_read_def)
  then have "serve ?len (?at Saving (Answered ?g True) [?op] ?kv2) (?at Saving (Replied example_read ?r) [?op] ?kv2)"
    using serve.reply [of 0 "?at Saving (Answered ?g True) [?op] ?kv2" example_read True ?len] by simp
  ultimately have "?run (?at Saving (Replied example_read ?r) [?op] ?kv2)" by (rule serve_run) simp
  with Get_reads_own_prefix [OF this [unfolded example_kv_def], of 0 example_read ?r] show ?thesis
    by (intro exI [of _ "?at Saving (Replied example_read ?r) [?op] ?kv2"]) auto
qed

end
