(* ===== verification/Kv_Clerk.thy ===== *)
theory Kv_Clerk
  imports Kv_Server
begin

text \<open>
  The client of the key/value service, \<^verbatim>\<open>kvraft/client.go\<close>. The network and the servers are an
  argument: \<open>call i s\<close> is the outcome of the \<open>i\<close>-th attempt when it goes to server \<open>s\<close>, \<open>None\<close> when
  \<^verbatim>\<open>Call\<close> returns false. The theorems hold for every such function.
\<close>

section \<open>The clerk\<close>

record Clerk =
  servers :: nat
  leaderId :: int
  ckme :: int
  globalId :: int

definition MakeClerk :: "nat \<Rightarrow> int \<Rightarrow> Clerk" where
  "MakeClerk n nrand = \<lparr>servers = n, leaderId = 0, ckme = nrand, globalId = 0\<rparr>"

definition next_server :: "Clerk \<Rightarrow> Clerk" where
  "next_server ck = ck\<lparr>leaderId := (leaderId ck + 1) mod int (servers ck)\<rparr>"

definition server_exists :: "Clerk \<Rightarrow> bool" where
  "server_exists ck \<longleftrightarrow> 0 \<le> leaderId ck \<and> leaderId ck < int (servers ck)"

text \<open>
  The two retry loops; \<open>n\<close> is the number of attempts that are left and \<open>i\<close> the loop counter. The
  result is the clerk and the value that is returned.
\<close>

fun Get_loop :: "nat \<Rightarrow> nat \<Rightarrow> (nat \<Rightarrow> int \<Rightarrow> GetReply option) \<Rightarrow> Clerk \<Rightarrow> (Clerk \<times> string) go" where
  "Get_loop 0 i call ck = Inr (ck, [])"
| "Get_loop (Suc n) i call ck =
     (if \<not> server_exists ck then Inl IndexOutOfRange
      else case call i (leaderId ck) of
             None \<Rightarrow> Get_loop n (Suc i) call (next_server ck)
           | Some reply \<Rightarrow>
               if gErr reply = ''NotLeaderError'' then Get_loop n (Suc i) call (next_server ck)
               else Inr (ck, gValue reply))"

definition clerk_Get ::
  "(GetArgs \<Rightarrow> nat \<Rightarrow> int \<Rightarrow> GetReply option) \<Rightarrow> Clerk \<Rightarrow> string \<Rightarrow> (Clerk \<times> string) go" where
  "clerk_Get call ck key = Get_loop 8000 0 (call \<lparr>gKey = key\<rparr>) ck"

fun PutAppend_loop ::
  "nat \<Rightarrow> nat \<Rightarrow> (nat \<Rightarrow> int \<Rightarrow> PutAppendReply option) \<Rightarrow> Clerk \<Rightarrow> Clerk go" where
  "PutAppend_loop 0 i call ck = Inr ck"
| "PutAppend_loop (Suc n) i call ck =
     (if \<not> server_exists ck then Inl IndexOutOfRange
      else case call i (leaderId ck) of
             None \<Rightarrow> PutAppend_loop n (Suc i) call (next_server ck)
           | Some reply \<Rightarrow>
               if paErr reply = ''NotLeaderError'' then PutAppend_loop n (Suc i) call (next_server ck)
               else Inr ck)"

definition clerk_PutAppend ::
  "(PutAppendArgs \<Rightarrow> nat \<Rightarrow> int \<Rightarrow> PutAppendReply option) \<Rightarrow> Clerk \<Rightarrow> string \<Rightarrow> string \<Rightarrow> string \<Rightarrow>
   Clerk go" where
  "clerk_PutAppend call ck key value op =
     (let ck1 = ck\<lparr>globalId := globalId ck + 1\<rparr>;
          args = \<lparr>paKey = key, Value = value, paOp = op, ClientId = ckme ck1, MsgId = globalId ck1\<rparr>
      in PutAppend_loop 8000 0 (call args) ck1)"

definition clerk_Put ::
  "(PutAppendArgs \<Rightarrow> nat \<Rightarrow> int \<Rightarrow> PutAppendReply option) \<Rightarrow> Clerk \<Rightarrow> string \<Rightarrow> string \<Rightarrow> Clerk go" where
  "clerk_Put call ck key value = clerk_PutAppend call ck key value ''Put''"

definition clerk_Append ::
  "(PutAppendArgs \<Rightarrow> nat \<Rightarrow> int \<Rightarrow> PutAppendReply option) \<Rightarrow> Clerk \<Rightarrow> string \<Rightarrow> string \<Rightarrow> Clerk go" where
  "clerk_Append call ck key value = clerk_PutAppend call ck key value ''Append''"

section \<open>The retry loop\<close>

text \<open>
  Both loops try the servers in turn. The contract of such a loop: it ends at the first attempt
  that is accepted, and runs out otherwise.
\<close>

definition tried :: "Clerk \<Rightarrow> nat \<Rightarrow> int" where
  "tried ck k = (leaderId ck + int k) mod int (servers ck)"

lemma server_exists_next [simp]:
  "server_exists ck \<Longrightarrow> server_exists (next_server ck)"
  by (simp add: server_exists_def next_server_def)

lemma tried_0 [simp]: "server_exists ck \<Longrightarrow> tried ck 0 = leaderId ck"
  by (simp add: tried_def server_exists_def)

lemma tried_next [simp]: "tried (next_server ck) k = tried ck (Suc k)"
  by (simp add: tried_def next_server_def mod_simps algebra_simps)

locale retry_loop =
  fixes loop :: "nat \<Rightarrow> nat \<Rightarrow> (nat \<Rightarrow> int \<Rightarrow> 'r option) \<Rightarrow> Clerk \<Rightarrow> 'a go"
    and refused :: "'r \<Rightarrow> bool"
    and finish :: "Clerk \<Rightarrow> 'r \<Rightarrow> 'a"
    and give_up :: "Clerk \<Rightarrow> 'a"
  assumes loop_0: "loop 0 i call ck = Inr (give_up ck)"
    and loop_retry: "server_exists ck \<Longrightarrow> (\<And>r. call i (leaderId ck) = Some r \<Longrightarrow> refused r) \<Longrightarrow>
          loop (Suc n) i call ck = loop n (Suc i) call (next_server ck)"
    and loop_done: "server_exists ck \<Longrightarrow> call i (leaderId ck) = Some r \<Longrightarrow> \<not> refused r \<Longrightarrow>
          loop (Suc n) i call ck = Inr (finish ck r)"
begin

text \<open>Rejected attempts only move the clerk on.\<close>

lemma loop_skip:
  assumes "server_exists ck" "k \<le> n"
    and "\<And>m r. m < k \<Longrightarrow> call (i + m) (tried ck m) = Some r \<Longrightarrow> refused r"
  shows "loop n i call ck = loop (n - k) (i + k) call ((next_server ^^ k) ck)"
  using assms
proof (induction k arbitrary: n i ck)
  case (Suc k)
  from Suc.prems obtain n' where n: "n = Suc n'" by (cases n) auto
  have "refused r" if "call i (leaderId ck) = Some r" for r
    using Suc.prems(3) [of 0 r] that Suc.prems(1) by simp
  then have "loop n i call ck = loop n' (Suc i) call (next_server ck)"
    unfolding n using Suc.prems(1) by (intro loop_retry)
  also have "\<dots> = loop (n' - k) (Suc i + k) call ((next_server ^^ k) (next_server ck))"
  proof (rule Suc.IH)
    show "refused r" if "m < k" "call (Suc i + m) (tried (next_server ck) m) = Some r" for m r
      using Suc.prems(3) [of "Suc m" r] that by simp
  qed (use Suc.prems n in simp_all)
  finally show ?case using n by (simp add: funpow_swap1)
qed simp

lemma leaderId_funpow:
  "server_exists ck \<Longrightarrow> server_exists ((next_server ^^ k) ck) \<and> leaderId ((next_server ^^ k) ck) = tried ck k"
proof (induction k arbitrary: ck)
  case (Suc k)
  then show ?case using Suc.IH [of "next_server ck"] by (simp add: funpow_swap1)
qed simp

lemma loop_accepts:
  assumes "server_exists ck" "k < n"
    and "\<And>m r. m < k \<Longrightarrow> call (i + m) (tried ck m) = Some r \<Longrightarrow> refused r"
    and "call (i + k) (tried ck k) = Some r" "\<not> refused r"
  shows "loop n i call ck = Inr (finish ((next_server ^^ k) ck) r)"
proof -
  obtain n' where n': "n - k = Suc n'" using assms(2) by (cases "n - k") auto
  have "loop n i call ck = loop (n - k) (i + k) call ((next_server ^^ k) ck)"
    by (rule loop_skip) (use assms in auto)
  also have "\<dots> = Inr (finish ((next_server ^^ k) ck) r)"
    unfolding n' using leaderId_funpow [OF assms(1)] assms(4,5) by (intro loop_done) auto
  finally show ?thesis .
qed

lemma loop_exhausted:
  assumes "server_exists ck"
    and "\<And>m r. m < n \<Longrightarrow> call (i + m) (tried ck m) = Some r \<Longrightarrow> refused r"
  shows "loop n i call ck = Inr (give_up ((next_server ^^ n) ck))"
  using loop_skip [OF assms(1) order_refl, of n call i] assms(2) by (simp add: loop_0)

text \<open>The loop ends at the first accepted attempt, if there is one in range.\<close>

definition accepted :: "nat \<Rightarrow> (nat \<Rightarrow> int \<Rightarrow> 'r option) \<Rightarrow> Clerk \<Rightarrow> nat \<Rightarrow> bool" where
  "accepted i call ck k \<longleftrightarrow> (\<exists>r. call (i + k) (tried ck k) = Some r \<and> \<not> refused r)"

lemma loop_first:
  assumes e: "server_exists ck" and k0: "k0 < n" "accepted i call ck k0"
  shows "\<exists>k r. k \<le> k0 \<and> call (i + k) (tried ck k) = Some r \<and> \<not> refused r \<and>
    loop n i call ck = Inr (finish ((next_server ^^ k) ck) r) \<and> leaderId ((next_server ^^ k) ck) = tried ck k \<and>
    (\<forall>m < k. \<forall>r'. call (i + m) (tried ck m) = Some r' \<longrightarrow> refused r')"
proof -
  define k where "k = (LEAST k. accepted i call ck k)"
  have "accepted i call ck k" unfolding k_def by (rule LeastI [of "accepted i call ck", OF k0(2)])
  then obtain r where r: "call (i + k) (tried ck k) = Some r" "\<not> refused r" by (auto simp: accepted_def)
  have k: "k \<le> k0" unfolding k_def by (rule Least_le [of "accepted i call ck", OF k0(2)])
  have low: "refused r'" if "m < k" "call (i + m) (tried ck m) = Some r'" for m r'
    using not_less_Least [of m "accepted i call ck"] that unfolding k_def accepted_def by blast
  have "loop n i call ck = Inr (finish ((next_server ^^ k) ck) r)"
    by (rule loop_accepts [where k = k]) (use e k k0(1) low r in auto)
  with k r low leaderId_funpow [OF e, of k] show ?thesis by blast
qed

lemma loop_ends:
  assumes e: "server_exists ck"
  shows "(\<exists>k r. k < n \<and> call (i + k) (tried ck k) = Some r \<and> \<not> refused r \<and>
      loop n i call ck = Inr (finish ((next_server ^^ k) ck) r) \<and>
      leaderId ((next_server ^^ k) ck) = tried ck k \<and>
      (\<forall>m < k. \<forall>r'. call (i + m) (tried ck m) = Some r' \<longrightarrow> refused r')) \<or>
    (\<forall>m < n. \<forall>r'. call (i + m) (tried ck m) = Some r' \<longrightarrow> refused r') \<and>
      loop n i call ck = Inr (give_up ((next_server ^^ n) ck))"
proof (cases "\<exists>k < n. accepted i call ck k")
  case True
  then obtain k0 where "k0 < n" "accepted i call ck k0" by blast
  from loop_first [OF e this] \<open>k0 < n\<close> show ?thesis by (meson order_le_less_trans)
next
  case False
  then have no: "refused r'" if "m < n" "call (i + m) (tried ck m) = Some r'" for m r'
    using that by (auto simp: accepted_def)
  with loop_exhausted [OF e, of n call i] show ?thesis by blast
qed

end

interpretation get: retry_loop Get_loop "\<lambda>r. gErr r = ''NotLeaderError''"
  "\<lambda>ck r. (ck, gValue r)" "\<lambda>ck. (ck, [])"
  by unfold_locales (auto split: option.splits)

interpretation put: retry_loop PutAppend_loop "\<lambda>r. paErr r = ''NotLeaderError''" "\<lambda>ck r. ck" "\<lambda>ck. ck"
  by unfold_locales (auto split: option.splits)

section \<open>Properties\<close>

text \<open>
  A \<^verbatim>\<open>Get\<close> of the clerk tries the servers in turn and returns the value of the first reply that
  is not a refusal, remembering that server for the next call; when none of its 8000 attempts is
  answered it returns the empty string, as for a key that does not exist.
\<close>

lemma clerk_Get_first_answer:
  assumes "0 < servers ck" and "0 \<le> leaderId ck" and "leaderId ck < int (servers ck)"
  shows "(\<exists>k r ck'. k < 8000 \<and> call \<lparr>gKey = key\<rparr> k (tried ck k) = Some r \<and>
            gErr r \<noteq> ''NotLeaderError'' \<and> clerk_Get call ck key = Inr (ck', gValue r) \<and>
            leaderId ck' = tried ck k \<and>
            (\<forall>m < k. \<forall>r'. call \<lparr>gKey = key\<rparr> m (tried ck m) = Some r' \<longrightarrow> gErr r' = ''NotLeaderError''))
       \<or> (\<forall>m < 8000. \<forall>r'. call \<lparr>gKey = key\<rparr> m (tried ck m) = Some r' \<longrightarrow> gErr r' = ''NotLeaderError'')
         \<and> (\<exists>ck'. clerk_Get call ck key = Inr (ck', []))"
proof -
  have "server_exists ck" using assms by (simp add: server_exists_def)
  from get.loop_ends [OF this, of 8000 "call \<lparr>gKey = key\<rparr>" 0] show ?thesis
    unfolding clerk_Get_def add_0 by blast
qed

definition example_call :: "GetArgs \<Rightarrow> nat \<Rightarrow> int \<Rightarrow> GetReply option" where
  "example_call args i s =
     (if s = 0 then None
      else if s = 1 then Some \<lparr>gErr = ''NotLeaderError'', gValue = []\<rparr>
      else Some \<lparr>gErr = [], gValue = ''v''\<rparr>)"

lemma clerk_Get_first_answer_witness:
  "\<exists>ck'. clerk_Get example_call (MakeClerk 3 7) ''k'' = Inr (ck', ''v'') \<and> leaderId ck' = 2"
proof -
  let ?ck = "MakeClerk 3 7"
  have t: "tried ?ck m = int m mod 3" for m by (simp add: tried_def MakeClerk_def)
  have "0 < servers ?ck" "0 \<le> leaderId ?ck" "leaderId ?ck < int (servers ?ck)"
    by (simp_all add: MakeClerk_def)
  from clerk_Get_first_answer [OF this, of example_call "''k''"] show ?thesis
  proof (elim disjE exE conjE)
    fix k r ck'
    assume k: "example_call \<lparr>gKey = ''k''\<rparr> k (tried ?ck k) = Some r" "gErr r \<noteq> ''NotLeaderError''"
      and r: "clerk_Get example_call ?ck ''k'' = Inr (ck', gValue r)" "leaderId ck' = tried ?ck k"
    from k have "tried ?ck k \<noteq> 0" "tried ?ck k \<noteq> 1" "gValue r = ''v''"
      by (auto simp: example_call_def split: if_splits)
    moreover have "0 \<le> tried ?ck k" "tried ?ck k < 3" by (simp_all add: t)
    ultimately show ?thesis using r by auto
  next
    assume "\<forall>m < 8000. \<forall>r'. example_call \<lparr>gKey = ''k''\<rparr> m (tried ?ck m) = Some r' \<longrightarrow>
        gErr r' = ''NotLeaderError''"
    from spec [OF this, of 2] show ?thesis by (simp add: example_call_def t)
  qed
qed

text \<open>
  A clerk finds the leader in one round. When some server accepts every request that reaches
  it, and there are at most 8000 servers, the clerk's \<^verbatim>\<open>Get\<close> returns an accepted value within as
  many attempts as there are servers.
\<close>

lemma clerk_finds_leader:
  assumes "0 \<le> leaderId ck" and "leaderId ck < int (servers ck)" and "servers ck \<le> 8000"
    and "0 \<le> l" and "l < int (servers ck)"
    and "\<forall>i. \<exists>r. call \<lparr>gKey = key\<rparr> i l = Some r \<and> gErr r \<noteq> ''NotLeaderError''"
  shows "\<exists>k r ck'. k < servers ck \<and> call \<lparr>gKey = key\<rparr> k (leaderId ck') = Some r \<and>
    gErr r \<noteq> ''NotLeaderError'' \<and> clerk_Get call ck key = Inr (ck', gValue r)"
proof -
  let ?call = "call \<lparr>gKey = key\<rparr>" and ?k0 = "nat ((l - leaderId ck) mod int (servers ck))"
  have e: "server_exists ck" using assms by (simp add: server_exists_def)
  have k0: "?k0 < servers ck" using assms(1,2) by (simp add: nat_less_iff)
  have "tried ck ?k0 = l" using assms by (simp add: tried_def mod_simps)
  then have "get.accepted 0 ?call ck ?k0" using assms(6) by (simp add: get.accepted_def)
  moreover have "?k0 < 8000" using k0 assms(3) by linarith
  ultimately obtain k r where "k \<le> ?k0" "?call k (tried ck k) = Some r"
      "gErr r \<noteq> ''NotLeaderError''" "clerk_Get call ck key = Inr ((next_server ^^ k) ck, gValue r)"
      "leaderId ((next_server ^^ k) ck) = tried ck k"
    using get.loop_first [OF e, of ?k0 8000 0 ?call] unfolding clerk_Get_def add_0 by blast
  with k0 show ?thesis
    by (intro exI [of _ k] exI [of _ r] exI [of _ "(next_server ^^ k) ck"]) simp
qed

lemma clerk_finds_leader_witness:
  "\<exists>k r ck'. k < 3 \<and> example_call \<lparr>gKey = ''k''\<rparr> k (leaderId ck') = Some r \<and>
     gErr r \<noteq> ''NotLeaderError'' \<and> clerk_Get example_call (MakeClerk 3 7) ''k'' = Inr (ck', gValue r)"
  using clerk_finds_leader [of "MakeClerk 3 7" 2 example_call "''k''"]
  by (simp add: MakeClerk_def example_call_def)

text \<open>
  C29: Request numbers. Every \<^verbatim>\<open>PutAppend\<close> of a clerk uses a new number, one above the previous one,
  and sends nothing but copies of that one numbered request: its result depends on the servers'
  answers to that request only. It always returns, and leaves a clerk that points at a server.
\<close>

theorem clerk_PutAppend_numbers:
  assumes "0 \<le> leaderId ck" and "leaderId ck < int (servers ck)"
    and "args = \<lparr>paKey = key, Value = value, paOp = op, ClientId = ckme ck, MsgId = globalId ck + 1\<rparr>"
  shows "\<exists>ck'. clerk_PutAppend call ck key value op = Inr ck' \<and>
    globalId ck' = globalId ck + 1 \<and> ckme ck' = ckme ck \<and>
    0 \<le> leaderId ck' \<and> leaderId ck' < int (servers ck') \<and>
    (\<forall>call'. call' args = call args \<longrightarrow> clerk_PutAppend call' ck key value op = Inr ck')"
proof -
  let ?ck1 = "ck\<lparr>globalId := globalId ck + 1\<rparr>"
  have e: "server_exists ?ck1" using assms by (simp add: server_exists_def)
  have keep: "globalId ((next_server ^^ k) ck0) = globalId ck0 \<and> ckme ((next_server ^^ k) ck0) = ckme ck0"
    for k and ck0 :: Clerk by (induction k arbitrary: ck0) (simp_all add: next_server_def)
  have only: "clerk_PutAppend c ck key value op = PutAppend_loop 8000 0 (c args) ?ck1" for c
    using assms(3) by (simp add: clerk_PutAppend_def)
  obtain k where k: "PutAppend_loop 8000 0 (call args) ?ck1 = Inr ((next_server ^^ k) ?ck1)"
    using put.loop_ends [OF e, of 8000 "call args" 0] by blast
  let ?ck' = "(next_server ^^ k) ?ck1"
  have "server_exists ?ck'" using put.leaderId_funpow [OF e] by blast
  then have r: "0 \<le> leaderId ?ck'" "leaderId ?ck' < int (servers ?ck')"
    by (simp_all add: server_exists_def)
  show ?thesis
  proof (intro exI [of _ ?ck'] conjI allI impI)
    show "clerk_PutAppend c ck key value op = Inr ?ck'" if "c args = call args" for c
      using k that by (simp only: only)
  qed (use k keep [of k ?ck1] r in \<open>simp_all add: only\<close>)
qed

theorem clerk_PutAppend_numbers_witness:
  "\<exists>ck'. clerk_PutAppend (\<lambda>_ _ _. None) (MakeClerk 3 7) ''k'' ''v'' ''Put'' = Inr ck' \<and> globalId ck' = 1"
  using clerk_PutAppend_numbers [of "MakeClerk 3 7" _ "''k''" "''v''" "''Put''" "\<lambda>_ _ _. None"]
  by (auto simp: MakeClerk_def)

end
