(* ===== verification/Mr_Master.thy ===== *)
theory Mr_Master
  imports Prelude "HOL-Library.AList"
begin

text \<open>
  The MapReduce master, \<^verbatim>\<open>mr/master.go\<close> and \<^verbatim>\<open>mr/rpc.go\<close>. Every handler runs under the master's
  mutex, so it is one definition; the goroutine that an assignment starts is a \<open>timer\<close>, and what
  it does after its ten seconds is \<open>fire\<close>. The map \<^verbatim>\<open>Worker2task\<close> is an association list without
  repeated keys. The second half runs a master with its workers and timers and proves what the
  job's end means.
\<close>

section \<open>Data\<close>

record Task =
  taskNum :: int
  taskFile :: "string list"

record Master =
  NReduce :: int
  Files :: "string list"
  MTask :: int
  RTask :: "int list"
  Worker2task :: "(int \<times> Task) list"
  phase :: int
  workerNum :: int
  ValidTask :: "int list"

record TaskRequest =
  WorkerId :: int
  RequestType :: int

record TaskReply =
  replyWorkerId :: int
  replyTask :: int
  TaskNum :: int
  File :: "string list"
  replyNReduce :: int

text \<open>Which of the two goroutines a timer is, the worker and the task number it was started for.\<close>

datatype timer = MapTimer int int | ReduceTimer int int

section \<open>Decimal numbers\<close>

definition digit :: "nat \<Rightarrow> char" where
  "digit d = char_of (48 + d)"

fun itoa_nat :: "nat \<Rightarrow> string" where
  "itoa_nat n = (if n < 10 then [digit n] else itoa_nat (n div 10) @ [digit (n mod 10)])"

declare itoa_nat.simps [simp del]

text \<open>\<^verbatim>\<open>strconv.Itoa\<close>\<close>

definition Itoa :: "int \<Rightarrow> string" where
  "Itoa i = (if i < 0 then ''-'' @ itoa_nat (nat (- i)) else itoa_nat (nat i))"

definition mr_file :: "int \<Rightarrow> int \<Rightarrow> string" where
  "mr_file t r = ''mr-'' @ Itoa t @ ''-'' @ Itoa r"

section \<open>Handlers\<close>

definition no_reply :: TaskReply where
  "no_reply = \<lparr>replyWorkerId = 0, replyTask = 0, TaskNum = 0, File = [], replyNReduce = 0\<rparr>"

text \<open>\<^verbatim>\<open>Schedule\<close> by phase and request type. A read of a missing key gives the zero \<^verbatim>\<open>Task\<close>.\<close>

definition Schedule_map_request :: "Master \<Rightarrow> int \<Rightarrow> Master \<times> TaskReply \<times> timer list" where
  "Schedule_map_request m w =
     (if Files m \<noteq> []
      then (let reply = no_reply\<lparr>File := [last (Files m)], replyTask := 0, TaskNum := MTask m,
                                 replyNReduce := NReduce m\<rparr>
            in (m\<lparr>Files := butlast (Files m),
                  Worker2task := AList.update w \<lparr>taskNum = MTask m, taskFile = File reply\<rparr> (Worker2task m),
                  MTask := MTask m + 1\<rparr>,
                reply, [MapTimer w (TaskNum reply)]))
      else if length (Worker2task m) > 0 then (m, no_reply\<lparr>replyTask := 2\<rparr>, [])
      else (m, no_reply, []))"

definition lookup_task :: "(int \<times> Task) list \<Rightarrow> int \<Rightarrow> Task" where
  "lookup_task ws w = (case map_of ws w of Some t \<Rightarrow> t | None \<Rightarrow> \<lparr>taskNum = 0, taskFile = []\<rparr>)"

definition Schedule_map_finish :: "Master \<Rightarrow> int \<Rightarrow> Master" where
  "Schedule_map_finish m w =
     (let m1 = m\<lparr>ValidTask := ValidTask m @ [taskNum (lookup_task (Worker2task m) w)],
                 Worker2task := AList.delete w (Worker2task m)\<rparr>
      in if Files m1 = [] \<and> length (Worker2task m1) = 0 then m1\<lparr>phase := 1\<rparr> else m1)"

definition Schedule_reduce_request :: "Master \<Rightarrow> int \<Rightarrow> Master \<times> TaskReply \<times> timer list" where
  "Schedule_reduce_request m w =
     (if RTask m \<noteq> []
      then (let r = last (RTask m);
                reply = no_reply\<lparr>replyTask := 1, TaskNum := r, File := map (\<lambda>t. mr_file t r) (ValidTask m)\<rparr>
            in (m\<lparr>Worker2task := AList.update w \<lparr>taskNum = r, taskFile = File reply\<rparr> (Worker2task m),
                  RTask := butlast (RTask m)\<rparr>,
                reply, [ReduceTimer w r]))
      else (m, no_reply\<lparr>replyTask := 2\<rparr>, []))"

definition Schedule_reduce_finish :: "Master \<Rightarrow> int \<Rightarrow> Master" where
  "Schedule_reduce_finish m w =
     (let m1 = m\<lparr>Worker2task := AList.delete w (Worker2task m)\<rparr>
      in if RTask m1 = [] \<and> length (Worker2task m1) = 0 then m1\<lparr>phase := 2\<rparr> else m1)"

definition Schedule :: "Master \<Rightarrow> TaskRequest \<Rightarrow> Master \<times> TaskReply \<times> timer list" where
  "Schedule m args =
     (if phase m = 0 then
        (if RequestType args = 0 then Schedule_map_request m (WorkerId args)
         else if RequestType args = 1 then (Schedule_map_finish m (WorkerId args), no_reply, [])
         else (m, no_reply, []))
      else if phase m = 1 then
        (if RequestType args = 0 then Schedule_reduce_request m (WorkerId args)
         else if RequestType args = 1 then (Schedule_reduce_finish m (WorkerId args), no_reply, [])
         else (m, no_reply, []))
      else if phase m = 2 then (m, no_reply\<lparr>replyTask := 2\<rparr>, [])
      else (m, no_reply, []))"

text \<open>What the goroutine of an assignment does when its time is up.\<close>

fun fire :: "Master \<Rightarrow> timer \<Rightarrow> Master" where
  "fire m (MapTimer w n) =
     (case map_of (Worker2task m) w of
        Some t \<Rightarrow> if taskNum t = n
                  then m\<lparr>Files := Files m @ taskFile t, Worker2task := AList.delete w (Worker2task m)\<rparr>
                  else m
      | None \<Rightarrow> m)"
| "fire m (ReduceTimer w n) =
     (case map_of (Worker2task m) w of
        Some t \<Rightarrow> if taskNum t = n
                  then m\<lparr>RTask := RTask m @ [taskNum t], Worker2task := AList.delete w (Worker2task m)\<rparr>
                  else m
      | None \<Rightarrow> m)"

definition Register :: "Master \<Rightarrow> Master \<times> int" where
  "Register m = (m\<lparr>workerNum := workerNum m + 1\<rparr>, workerNum m)"

definition Done :: "Master \<Rightarrow> bool" where
  "Done m \<longleftrightarrow> phase m = 2"

definition MakeMaster :: "string list \<Rightarrow> int \<Rightarrow> Master" where
  "MakeMaster files nReduce =
     \<lparr>NReduce = nReduce, Files = files, MTask = 0, RTask = map int [0..<nat nReduce],
      Worker2task = [], phase = 0, workerNum = 0, ValidTask = []\<rparr>"

section \<open>A job\<close>

text \<open>
  A master with the timers that have not fired. \<open>doneMap\<close> and \<open>doneReduce\<close> are history: the tasks
  whose worker reported them while they were assigned to it.
\<close>

record job =
  master :: Master
  timers :: "timer list"
  doneMap :: "Task list"
  doneReduce :: "int list"

datatype job_action = ARegister | ARequest int | AFinish int | AFire nat

definition start_job :: "string list \<Rightarrow> int \<Rightarrow> job" where
  "start_job files nReduce =
     \<lparr>master = MakeMaster files nReduce, timers = [], doneMap = [], doneReduce = []\<rparr>"

definition assigned :: "job \<Rightarrow> int \<Rightarrow> Task option" where
  "assigned j w = map_of (Worker2task (master j)) w"

definition record_finish :: "job \<Rightarrow> int \<Rightarrow> job" where
  "record_finish j w =
     (case assigned j w of
        None \<Rightarrow> j
      | Some t \<Rightarrow> if phase (master j) = 0 then j\<lparr>doneMap := doneMap j @ [t]\<rparr>
                  else if phase (master j) = 1 then j\<lparr>doneReduce := doneReduce j @ [taskNum t]\<rparr>
                  else j)"

fun job_act :: "job \<Rightarrow> job_action \<Rightarrow> job" where
  "job_act j ARegister = j\<lparr>master := fst (Register (master j))\<rparr>"
| "job_act j (ARequest w) =
     (let (m, reply, ts) = Schedule (master j) \<lparr>WorkerId = w, RequestType = 0\<rparr>
      in j\<lparr>master := m, timers := timers j @ ts\<rparr>)"
| "job_act j (AFinish w) =
     (let (m, reply, ts) = Schedule (master j) \<lparr>WorkerId = w, RequestType = 1\<rparr>
      in (record_finish j w)\<lparr>master := m\<rparr>)"
| "job_act j (AFire k) =
     (if k < length (timers j)
      then j\<lparr>master := fire (master j) (timers j ! k), timers := take k (timers j) @ drop (Suc k) (timers j)\<rparr>
      else j)"

text \<open>
  What the theorems assume of a run: a worker asks for a task only when the master has none assigned
  to it (it asks again only after its report), and the timer of a map task does not find the worker
  with a reduce task of the same number.
\<close>

fun orderly :: "job \<Rightarrow> job_action \<Rightarrow> bool" where
  "orderly j (ARequest w) = (assigned j w = None)"
| "orderly j (AFire k) =
     (k < length (timers j) \<longrightarrow>
      (case timers j ! k of
         MapTimer w n \<Rightarrow> phase (master j) = 0 \<or> map_option taskNum (assigned j w) \<noteq> Some n
       | ReduceTimer w n \<Rightarrow> True))"
| "orderly j _ = True"

inductive job_step :: "job \<Rightarrow> job \<Rightarrow> bool" where
  job_stepI: "orderly j a \<Longrightarrow> job_step j (job_act j a)"

inductive_cases job_stepE: "job_step j j'"

section \<open>Nothing is lost\<close>

abbreviation tasks :: "Master \<Rightarrow> Task list" where
  "tasks m \<equiv> map snd (Worker2task m)"

abbreviation files_of :: "Task list \<Rightarrow> string multiset" where
  "files_of ts \<equiv> (\<Sum>t\<in>#mset ts. mset (taskFile t))"

definition map_side :: "string list \<Rightarrow> job \<Rightarrow> bool" where
  "map_side files j \<longleftrightarrow>
     (if phase (master j) = 0
      then mset (Files (master j)) + files_of (tasks (master j)) + files_of (doneMap j) = mset files
      else files_of (doneMap j) = mset files) \<and>
     taskNum ` set (doneMap j) \<subseteq> set (ValidTask (master j))"

definition reduce_side :: "int \<Rightarrow> job \<Rightarrow> bool" where
  "reduce_side n j \<longleftrightarrow>
     mset (RTask (master j)) + mset (doneReduce j) +
       (if phase (master j) = 0 then {#} else mset (map taskNum (tasks (master j))))
     = mset (map int [0..<nat n])"

definition job_inv :: "string list \<Rightarrow> int \<Rightarrow> job \<Rightarrow> bool" where
  "job_inv files n j \<longleftrightarrow>
     distinct (map fst (Worker2task (master j))) \<and>
     phase (master j) \<in> {0, 1, 2} \<and>
     (phase (master j) = 0 \<longrightarrow> doneReduce j = [] \<and> (\<forall>w k. ReduceTimer w k \<notin> set (timers j))) \<and>
     (phase (master j) = 2 \<longrightarrow> RTask (master j) = [] \<and> Worker2task (master j) = []) \<and>
     map_side files j \<and> reduce_side n j"

lemma update_new: "map_of ws w = None \<Longrightarrow> AList.update w t ws = ws @ [(w, t)]"
  by (induction ws) (auto split: if_splits)

lemma delete_mset:
  "distinct (map fst ws) \<Longrightarrow> map_of ws w = Some t \<Longrightarrow>
   mset (map snd ws) = add_mset t (mset (map snd (AList.delete w ws)))"
proof (induction ws)
  case (Cons a ws)
  show ?case
  proof (cases "fst a = w")
    case True
    then have "AList.delete w ws = ws" using Cons.prems(1) by (intro delete_id) auto
    then show ?thesis using Cons.prems(2) True by (cases a) simp
  next
    case False
    then show ?thesis using Cons by (cases a) simp
  qed
qed simp

lemma files_of_delete:
  assumes "distinct (map fst ws)" "map_of ws w = Some t"
  shows "files_of (map snd ws) = mset (taskFile t) + files_of (map snd (AList.delete w ws))"
  using arg_cong [OF delete_mset [OF assms], of "\<lambda>M. \<Sum>t\<in>#M. mset (taskFile t)"] by simp

lemma nums_delete:
  assumes "distinct (map fst ws)" "map_of ws w = Some t"
  shows "mset (map taskNum (map snd ws)) =
    add_mset (taskNum t) (mset (map taskNum (map snd (AList.delete w ws))))"
  by (simp only: mset_map [of taskNum] delete_mset [OF assms] image_mset_add_mset)

lemma delete_none: "map_of ws w = None \<Longrightarrow> AList.delete w ws = ws"
  by (rule delete_id) (simp add: map_of_eq_None_iff)

lemma mset_butlast_last: "xs \<noteq> [] \<Longrightarrow> mset xs = add_mset (last xs) (mset (butlast xs))"
  by (induction xs) auto

text \<open>Each kind of action keeps the invariant.\<close>

lemma inv_request:
  assumes inv: "job_inv files n j" and free: "assigned j w = None"
  shows "job_inv files n (job_act j (ARequest w))"
proof -
  let ?m = "master j"
  have d: "distinct (map fst (Worker2task ?m))" and ph: "phase ?m = 0 \<or> phase ?m = 1 \<or> phase ?m = 2"
    using inv by (auto simp: job_inv_def)
  have up: "AList.update w t (Worker2task ?m) = Worker2task ?m @ [(w, t)]" for t
    using free by (simp add: update_new assigned_def)
  have d': "distinct (map fst (Worker2task ?m @ [(w, t)]))" for t
    using distinct_update [OF d, of w t] by (simp only: up)
  note f = mset_butlast_last [of "Files ?m"] mset_butlast_last [of "RTask ?m"]
  from ph show ?thesis
  proof (elim disjE)
    assume "phase ?m = 0"
    then show ?thesis using inv d' f
      by (auto simp: job_inv_def map_side_def reduce_side_def Schedule_def Schedule_map_request_def
          Let_def up no_reply_def)
  next
    assume "phase ?m = 1"
    then show ?thesis using inv d' f
      by (auto simp: job_inv_def map_side_def reduce_side_def Schedule_def Schedule_reduce_request_def
          Let_def up no_reply_def)
  next
    assume "phase ?m = 2"
    then show ?thesis using inv by (auto simp: job_inv_def map_side_def reduce_side_def Schedule_def Let_def)
  qed
qed

lemma inv_finish:
  assumes inv: "job_inv files n j"
  shows "job_inv files n (job_act j (AFinish w))"
proof -
  let ?m = "master j" let ?ws = "Worker2task ?m"
  have d: "distinct (map fst ?ws)" and ph: "phase ?m = 0 \<or> phase ?m = 1 \<or> phase ?m = 2"
    using inv by (auto simp: job_inv_def)
  note d' = distinct_delete [OF d, of w]
  show ?thesis
  proof (cases "map_of ?ws w")
    case None
    from ph show ?thesis
      by (elim disjE) (use inv None in \<open>auto simp: job_inv_def map_side_def reduce_side_def Schedule_def
          Schedule_map_finish_def Schedule_reduce_finish_def Let_def delete_none record_finish_def
          assigned_def\<close>)
  next
    case (Some t)
    note del = files_of_delete [OF d Some] nums_delete [OF d Some]
    from ph show ?thesis
    proof (elim disjE)
      assume "phase ?m = 0"
      then show ?thesis using inv Some d' del
        by (auto simp: job_inv_def map_side_def reduce_side_def Schedule_def Schedule_map_finish_def
            Let_def record_finish_def assigned_def lookup_task_def ac_simps)
    next
      assume "phase ?m = 1"
      then show ?thesis using inv Some d' del
        by (auto simp: job_inv_def map_side_def reduce_side_def Schedule_def Schedule_reduce_finish_def
            Let_def record_finish_def assigned_def ac_simps)
    next
      assume "phase ?m = 2"
      then show ?thesis using inv Some by (simp add: job_inv_def)
    qed
  qed
qed

lemma inv_fire:
  assumes inv: "job_inv files n j" and o: "orderly j (AFire k)"
  shows "job_inv files n (job_act j (AFire k))"
proof (cases "k < length (timers j)")
  case True
  let ?m = "master j" let ?ws = "Worker2task ?m" and ?ts = "take k (timers j) @ drop (Suc k) (timers j)"
  have d: "distinct (map fst ?ws)" using inv by (simp add: job_inv_def)
  have ts: "set ?ts \<subseteq> set (timers j)" using set_take_subset set_drop_subset by fastforce
  have rest: "job_inv files n (j\<lparr>timers := ?ts\<rparr>)"
    using inv ts by (auto simp: job_inv_def map_side_def reduce_side_def)
  have act: "job_act j (AFire k) = j\<lparr>master := fire ?m (timers j ! k), timers := ?ts\<rparr>"
    using True by simp
  show ?thesis
  proof (cases "fire ?m (timers j ! k) = ?m")
    case True
    with rest show ?thesis by (simp only: act) simp
  next
    case False
    obtain w num where tm: "timers j ! k = MapTimer w num \<or> timers j ! k = ReduceTimer w num"
      by (cases "timers j ! k") auto
    from False obtain t where t: "map_of ?ws w = Some t" "taskNum t = num"
      using tm by (auto split: option.splits if_splits)
    note del = files_of_delete [OF d t(1)] nums_delete [OF d t(1)]
    note d' = distinct_delete [OF d, of w]
    have mem: "timers j ! k \<in> set (timers j)" using \<open>k < _\<close> by simp
    from tm show ?thesis
    proof
      assume map: "timers j ! k = MapTimer w num"
      then have "phase ?m = 0" using o \<open>k < _\<close> t by (simp add: assigned_def)
      then show ?thesis unfolding act using rest map t del d'
        by (auto simp: job_inv_def map_side_def reduce_side_def ac_simps)
    next
      assume red: "timers j ! k = ReduceTimer w num"
      then have "phase ?m \<noteq> 0" using inv mem by (auto simp: job_inv_def)
      moreover have "phase ?m \<noteq> 2" using inv t by (auto simp: job_inv_def)
      ultimately have "phase ?m = 1" using inv by (auto simp: job_inv_def)
      then show ?thesis unfolding act using rest red t del d'
        by (auto simp: job_inv_def map_side_def reduce_side_def ac_simps)
    qed
  qed
qed (use inv in simp)

interpretation jobs: inductive_invariant "\<lambda>j. j = start_job files n" job_step "job_inv files n" for files n
proof
  fix j assume "j = start_job files n"
  then show "job_inv files n j"
    by (simp add: start_job_def MakeMaster_def job_inv_def map_side_def reduce_side_def)
next
  fix j j' assume inv: "job_inv files n j" and "job_step j j'"
  from \<open>job_step j j'\<close> obtain a where a: "orderly j a" "j' = job_act j a" by (rule job_stepE)
  show "job_inv files n j'"
  proof (cases a)
    case ARegister
    then show ?thesis using inv a by (auto simp: Register_def job_inv_def map_side_def reduce_side_def)
  next
    case (ARequest w)
    then show ?thesis using inv a inv_request by simp
  next
    case (AFinish w)
    then show ?thesis using inv a inv_finish by blast
  next
    case (AFire k)
    then show ?thesis using inv a inv_fire by blast
  qed
qed

section \<open>Properties\<close>

fun job_acts :: "job \<Rightarrow> job_action list \<Rightarrow> job" where
  "job_acts j [] = j"
| "job_acts j (a # as) = job_acts (job_act j a) as"

fun orderly_acts :: "job \<Rightarrow> job_action list \<Rightarrow> bool" where
  "orderly_acts j [] = True"
| "orderly_acts j (a # as) = (orderly j a \<and> orderly_acts (job_act j a) as)"

lemma orderly_acts_run: "orderly_acts j as \<Longrightarrow> run_from job_step j (job_acts j as)"
proof (induction as arbitrary: j)
  case (Cons a as)
  then have "job_step j (job_act j a)" "run_from job_step (job_act j a) (job_acts (job_act j a) as)"
    by (auto intro: job_stepI)
  then show ?case using run_from_trans [OF run_from_single] by simp
qed (simp add: run_refl)

text \<open>
  C20: A finished job is complete. In every orderly run (a worker asks for a task only when the master has none
  assigned to it, and no map timer finds its worker with a reduce task of the same number), whatever workers crash,
  report late or are given up by their other timers, when \<^verbatim>\<open>Done\<close> holds the map tasks that were reported while assigned
  cover every input file exactly as often as it was given, every reduce task from 0 to
  \<^verbatim>\<open>nReduce\<close> - 1 was reported exactly once, and the reduce tasks were told to read the output of
  each of those map tasks.
\<close>

theorem finished_job_complete:
  assumes "run_from job_step (start_job files n) j" and "Done (master j)"
  shows "mset (concat (map taskFile (doneMap j))) = mset files \<and>
    mset (doneReduce j) = mset (map int [0..<nat n]) \<and>
    (\<forall>t \<in> set (doneMap j). taskNum t \<in> set (ValidTask (master j)))"
proof -
  have "job_inv files n j" using jobs.inv_run [OF refl assms(1)] .
  moreover have "files_of ts = mset (concat (map taskFile ts))" for ts
    by (induction ts) simp_all
  ultimately show ?thesis using assms(2)
    by (auto simp: job_inv_def map_side_def reduce_side_def Done_def)
qed

definition example_job :: "job_action list" where
  "example_job = [ARegister, ARequest 0, ARequest 1, AFire 1, AFinish 0, ARequest 0, AFinish 0, ARequest 0,
     ARequest 2, AFinish 2, AFinish 0]"

theorem finished_job_complete_witness:
  "Done (master (job_acts (start_job [''a'', ''b''] 2) example_job)) \<and>
   mset (concat (map taskFile (doneMap (job_acts (start_job [''a'', ''b''] 2) example_job)))) =
     {#''a'', ''b''#} \<and>
   mset (doneReduce (job_acts (start_job [''a'', ''b''] 2) example_job)) = {#0, 1#}"
proof -
  let ?j = "job_acts (start_job [''a'', ''b''] 2) example_job"
  have "orderly_acts (start_job [''a'', ''b''] 2) example_job" and d: "Done (master ?j)" by code_simp+
  from finished_job_complete [OF orderly_acts_run [OF this(1)] d] d show ?thesis
    by (simp add: numeral_2_eq_2)
qed

text \<open>
  C21: Reduce reads every map output. In every orderly run, once the master hands out reduce tasks
  every input file has been mapped by a reported task, and each reduce assignment names the
  intermediate file of every one of those tasks for its own partition.
\<close>

theorem reduce_reads_every_map_output:
  assumes "run_from job_step (start_job files n) j"
    and "Schedule (master j) \<lparr>WorkerId = w, RequestType = 0\<rparr> = (m', reply, ts)"
    and "replyTask reply = 1"
  shows "mset (concat (map taskFile (doneMap j))) = mset files \<and>
    (\<forall>t \<in> set (doneMap j). mr_file (taskNum t) (TaskNum reply) \<in> set (File reply))"
proof -
  have inv: "job_inv files n j" using jobs.inv_run [OF refl assms(1)] .
  have f: "files_of ts = mset (concat (map taskFile ts))" for ts by (induction ts) simp_all
  have p: "phase (master j) = 1"
    using assms(2,3) inv
    by (auto simp: Schedule_def Schedule_map_request_def no_reply_def Let_def job_inv_def split: if_splits)
  then have "File reply = map (\<lambda>t. mr_file t (TaskNum reply)) (ValidTask (master j))"
    using assms(2,3)
    by (auto simp: Schedule_def Schedule_reduce_request_def no_reply_def Let_def split: if_splits)
  with inv p f show ?thesis by (auto simp: job_inv_def map_side_def)
qed

definition example_mapped :: job where
  "example_mapped = job_acts (start_job [''a''] 2) [ARequest 0, AFinish 0]"

theorem reduce_reads_every_map_output_witness:
  "''mr-0-1'' \<in>
   set (File (fst (snd (Schedule (master example_mapped) \<lparr>WorkerId = 0, RequestType = 0\<rparr>))))"
proof -
  have "orderly_acts (start_job [''a''] 2) [ARequest 0, AFinish 0]" by code_simp
  then have run: "run_from job_step (start_job [''a''] 2) example_mapped"
    unfolding example_mapped_def by (rule orderly_acts_run)
  obtain m' reply ts where s: "Schedule (master example_mapped) \<lparr>WorkerId = 0, RequestType = 0\<rparr> = (m', reply, ts)"
    by (metis prod_cases3)
  have "replyTask (fst (snd (Schedule (master example_mapped) \<lparr>WorkerId = 0, RequestType = 0\<rparr>))) = 1"
    "TaskNum (fst (snd (Schedule (master example_mapped) \<lparr>WorkerId = 0, RequestType = 0\<rparr>))) = 1"
    by code_simp+
  then have r: "replyTask reply = 1" "TaskNum reply = 1" by (simp_all add: s)
  have "doneMap example_mapped = [\<lparr>taskNum = 0, taskFile = [''a'']\<rparr>]" "mr_file 0 1 = ''mr-0-1''"
    by code_simp+
  with reduce_reads_every_map_output [OF run s r(1)] r(2) s show ?thesis by simp
qed

text \<open>
  A late report repeats task 0. A worker whose map task was given up by its timer and then
  reports it has no entry any more, and the master records the number of the zero task: the output
  of map task 0 is then listed twice for every reduce task, so its pairs are counted twice.
\<close>

lemma late_report_repeats_task_zero:
  "let j = job_acts (start_job [''a'', ''b''] 1)
             [ARequest 0, ARequest 1, AFinish 0, AFire 1, ARequest 2, AFinish 1, AFinish 2]
   in orderly_acts (start_job [''a'', ''b''] 1)
        [ARequest 0, ARequest 1, AFinish 0, AFire 1, ARequest 2, AFinish 1, AFinish 2] \<and>
      phase (master j) = 1 \<and> ValidTask (master j) = [0, 0, 2] \<and>
      File (fst (snd (Schedule (master j) \<lparr>WorkerId = 0, RequestType = 0\<rparr>))) =
        [''mr-0-0'', ''mr-0-0'', ''mr-2-0'']"
  by code_simp

text \<open>
  The timers compare the task number only, and map and reduce tasks are both numbered from 0. A reduce task that
  is neither waiting, nor assigned, nor reported stays so for ever.
\<close>

definition unassigned :: "int \<Rightarrow> (int \<times> Task) list \<Rightarrow> bool" where
  "unassigned r ws \<longleftrightarrow> list_all (\<lambda>(w, t). taskNum t \<noteq> r) ws"

definition lost :: "int \<Rightarrow> job \<Rightarrow> bool" where
  "lost r j \<longleftrightarrow> phase (master j) \<noteq> 0 \<and> r \<notin> set (RTask (master j)) \<and> unassigned r (Worker2task (master j)) \<and>
     r \<notin> set (doneReduce j)"

lemma unassigned_Nil: "unassigned r []"
  by (simp add: unassigned_def)

lemma unassigned_map_of: "unassigned r ws \<Longrightarrow> map_of ws w = Some t \<Longrightarrow> taskNum t \<noteq> r"
  by (auto simp: unassigned_def list_all_iff dest: map_of_SomeD)

lemma unassigned_update: "unassigned r ws \<Longrightarrow> taskNum t \<noteq> r \<Longrightarrow> unassigned r (AList.update w t ws)"
  by (induction ws) (auto simp: unassigned_def)

lemma unassigned_delete: "unassigned r ws \<Longrightarrow> unassigned r (AList.delete w ws)"
  by (induction ws) (auto simp: unassigned_def)

lemma lost_request:
  assumes "lost r j"
  shows "lost r (job_act j (ARequest w))"
proof (cases "phase (master j) = 1 \<and> RTask (master j) \<noteq> []")
  case True
  have "last (RTask (master j)) \<noteq> r" "r \<notin> set (butlast (RTask (master j)))"
    using assms True by (auto simp: lost_def dest: in_set_butlastD)
  then show ?thesis using assms True unassigned_update
    by (simp add: lost_def Schedule_def Schedule_reduce_request_def no_reply_def Let_def)
next
  case False
  then show ?thesis using assms by (simp add: lost_def Schedule_def Schedule_reduce_request_def Let_def)
qed

lemma lost_finish:
  assumes "lost r j"
  shows "lost r (job_act j (AFinish w))"
proof -
  have "taskNum t \<noteq> r" if "assigned j w = Some t" for t
    using assms that unassigned_map_of by (fastforce simp: lost_def assigned_def)
  then have "assigned j w = Some t \<Longrightarrow> r \<noteq> taskNum t" for t by blast
  then show ?thesis using assms
    by (auto simp: unassigned_delete unassigned_Nil lost_def Schedule_def Schedule_reduce_finish_def record_finish_def Let_def split: option.split)
qed

lemma lost_fire: "lost r j \<Longrightarrow> lost r (job_act j (AFire k))"
  by (cases "timers j ! k") (auto simp: lost_def unassigned_delete dest: unassigned_map_of split: option.splits)

lemma lost_act: "lost r j \<Longrightarrow> lost r (job_act j a)"
  by (cases a) (auto simp: lost_request lost_finish lost_fire simp del: job_act.simps, simp add: lost_def Register_def)

lemma lost_acts: "lost r j \<Longrightarrow> lost r (job_acts j as)"
  by (induction as arbitrary: j) (auto intro: lost_act simp del: job_act.simps)

text \<open>
  C40: A map timer loses a reduce task. Take any point of an orderly run in the reduce phase at which a worker that
  was given a map task holds a reduce task of the same number and the timer of the map task has not fired (it has
  reported the map task within ten seconds, and all others were reported). When that timer fires, the reduce task is lost: whatever happens afterwards, orderly or not,
  no worker is ever given it and no report of it is ever recorded. If it was the last one outstanding, every
  request is told to wait, and a report of any worker, whatever it did, makes \<^verbatim>\<open>Done\<close> hold.
\<close>

theorem map_timer_loses_reduce_task:
  assumes "run_from job_step (start_job files n) j" and "phase (master j) = 1"
    and "k < length (timers j)" and "timers j ! k = MapTimer w r"
    and "assigned j w = Some t" and "taskNum t = r"
  shows "(\<forall>as. let j' = job_acts (job_act j (AFire k)) as
      in r \<notin> set (doneReduce j') \<and> r \<notin> set (RTask (master j')) \<and> (\<forall>w' t'. assigned j' w' = Some t' \<longrightarrow> taskNum t' \<noteq> r)) \<and>
    (RTask (master j) = [] \<and> Worker2task (master j) = [(w, t)] \<longrightarrow>
      (\<forall>w'. fst (snd (Schedule (master (job_act j (AFire k))) \<lparr>WorkerId = w', RequestType = 0\<rparr>)) = no_reply\<lparr>replyTask := 2\<rparr> \<and>
        Done (master (job_act (job_act j (AFire k)) (AFinish w')))))"
proof -
  let ?j = "job_act j (AFire k)" let ?ws = "Worker2task (master j)"
  have inv: "job_inv files n j" using jobs.inv_run [OF refl assms(1)] .
  have at: "map_of ?ws w = Some t" using assms(5) by (simp add: assigned_def)
  have d: "distinct (map fst ?ws)" using inv by (simp add: job_inv_def)
  have eq: "mset (RTask (master j)) + mset (doneReduce j) + add_mset r (mset (map taskNum (map snd (AList.delete w ?ws))))
      = mset (map int [0..<nat n])"
    using inv assms(2) nums_delete [OF d at] assms(6) by (simp add: job_inv_def reduce_side_def)
  have "distinct (map int [0..<nat n])" by (simp add: distinct_map)
  then have "count (mset (map int [0..<nat n])) r \<le> 1" unfolding distinct_count_atmost_1 by (metis le_refl zero_le_one)
  then have "count (mset (RTask (master j))) r + count (mset (doneReduce j)) r +
      count (mset (map taskNum (map snd (AList.delete w ?ws)))) r = 0"
    unfolding eq [symmetric] count_union count_add_mset by simp
  then have z: "r \<notin> set (RTask (master j))" "r \<notin> set (doneReduce j)" "r \<notin> set (map taskNum (map snd (AList.delete w ?ws)))"
    by (simp_all only: add_is_0 count_eq_zero_iff set_mset_mset not_False_eq_True)
  have "unassigned r (AList.delete w ?ws)" using z(3) by (force simp: unassigned_def list_all_iff)
  with z have l: "lost r ?j" using assms(2-4,6) at by (simp add: lost_def)
  have "r \<notin> set (doneReduce j')" "r \<notin> set (RTask (master j'))" "\<forall>w' t'. assigned j' w' = Some t' \<longrightarrow> taskNum t' \<noteq> r"
    if "j' = job_acts ?j as" for as j'
    using lost_acts [OF l, of as] that unassigned_map_of [of r "Worker2task (master j')"]
    by (simp_all add: lost_def assigned_def del: job_act.simps)
  moreover have "fst (snd (Schedule (master ?j) \<lparr>WorkerId = w', RequestType = 0\<rparr>)) = no_reply\<lparr>replyTask := 2\<rparr> \<and>
      Done (master (job_act ?j (AFinish w')))" if "RTask (master j) = []" "?ws = [(w, t)]" for w'
    using that assms(2-4,6) by (simp add: Schedule_def Schedule_reduce_request_def Schedule_reduce_finish_def Done_def Let_def)
  ultimately show ?thesis by (simp add: Let_def del: job_act.simps)
qed

text \<open>One input file, one partition: the worker that has mapped the file gets the reduce task before the timer fires.\<close>

theorem map_timer_loses_reduce_task_witness:
  "let j = job_acts (start_job [''a''] 1) [ARequest 0, AFinish 0, ARequest 0, AFire 0]
   in 0 \<notin> set (doneReduce j) \<and> Done (master (job_act j (AFinish 1)))"
proof -
  let ?as = "[ARequest 0, AFinish 0, ARequest 0]" let ?j = "job_acts (start_job [''a''] 1) ?as"
  have "orderly_acts (start_job [''a''] 1) ?as" by code_simp
  then have run: "run_from job_step (start_job [''a''] 1) ?j" by (rule orderly_acts_run)
  have s: "phase (master ?j) = 1" "0 < length (timers ?j)" "timers ?j ! 0 = MapTimer 0 0" "RTask (master ?j) = []"
    "Worker2task (master ?j) = [(0, \<lparr>taskNum = 0, taskFile = [''mr-0-0'']\<rparr>)]"
    "assigned ?j 0 = Some \<lparr>taskNum = 0, taskFile = [''mr-0-0'']\<rparr>" by code_simp+
  have step: "job_acts (start_job [''a''] 1) [ARequest 0, AFinish 0, ARequest 0, AFire 0] = job_act ?j (AFire 0)"
    by (simp del: job_act.simps)
  from map_timer_loses_reduce_task [OF run s(1-3,6)] s(4,5)
  have "\<forall>as. 0 \<notin> set (doneReduce (job_acts (job_act ?j (AFire 0)) as))" "Done (master (job_act (job_act ?j (AFire 0)) (AFinish 1)))"
    by (simp_all add: Let_def del: job_act.simps job_acts.simps)
  from this(1) [THEN spec, of "[]"] this(2) show ?thesis unfolding step by (simp add: Let_def del: job_act.simps)
qed

end
