(* ===== verification/Mr_Worker.thy ===== *)
theory Mr_Worker
  imports Mr_Master "HOL-Library.Word"
begin

unbundle bit_operations_syntax

text \<open>
  The MapReduce worker, \<^verbatim>\<open>mr/worker.go\<close>: the hash that picks a partition, the map task, the reduce
  task and one iteration of the worker's loop. The file system is a record of three maps: plain
  input files, intermediate files as the sequence of values their JSON stream decodes to, and
  output files as lines. Strings are byte strings, as in Go, and going through \<^verbatim>\<open>encoding/json\<close> changes a
  string that is not valid UTF-8: \<open>json_string\<close> says how. The temporary file of a task becomes visible under its final name only
  by the rename at the end, so a task writes final names only. Go iterates over a map in an
  arbitrary order: that order is an argument of the reduce task.
\<close>

section \<open>Data\<close>

record KeyValue =
  kvKey :: string
  kvValue :: string

type_synonym mapf = "string \<Rightarrow> string \<Rightarrow> KeyValue list"
type_synonym reducef = "string \<Rightarrow> string list \<Rightarrow> string"

record FileSys =
  plain :: "string \<rightharpoonup> string"
  pairs :: "string \<rightharpoonup> KeyValue list"
  outlines :: "string \<rightharpoonup> string list"

record WorkerServer =
  workerId :: int
  FailureCount :: int

section \<open>Partitioning\<close>

text \<open>\<^verbatim>\<open>fnv.New32a\<close>: 32-bit FNV-1a.\<close>

definition fnv32a :: "string \<Rightarrow> 32 word" where
  "fnv32a key = foldl (\<lambda>h c. (h XOR of_nat (of_char c)) * 16777619) 2166136261 key"

definition ihash :: "string \<Rightarrow> int" where
  "ihash key = uint (fnv32a key AND 0x7fffffff)"

section \<open>Through JSON\<close>

text \<open>
  \<^verbatim>\<open>utf8.DecodeRune\<close>: the length of the encoded character at the start of a string, 0 if there is none.
\<close>

definition between :: "nat \<Rightarrow> nat \<Rightarrow> char \<Rightarrow> bool" where
  "between lo hi c \<longleftrightarrow> lo \<le> of_char c \<and> of_char c \<le> hi"

definition rune_len :: "string \<Rightarrow> nat" where
  "rune_len s =
     (case s of
        [] \<Rightarrow> 0
      | c # cs \<Rightarrow>
          if between 0 127 c then 1
          else case cs of
                 [] \<Rightarrow> 0
               | d # ds \<Rightarrow>
                   if between 194 223 c then (if between 128 191 d then 2 else 0)
                   else let third = (ds \<noteq> [] \<and> between 128 191 (hd ds));
                            fourth = (third \<and> tl ds \<noteq> [] \<and> between 128 191 (hd (tl ds)))
                        in if between 224 239 c
                           then (let lo = (if of_char c = (224 :: nat) then 160 else 128);
                                     hi = (if of_char c = (237 :: nat) then 159 else 191)
                                 in if between lo hi d \<and> third then 3 else 0)
                           else if between 240 244 c
                                then (let lo = (if of_char c = (240 :: nat) then 144 else 128);
                                          hi = (if of_char c = (244 :: nat) then 143 else 191)
                                      in if between lo hi d \<and> fourth then 4 else 0)
                                else 0)"

text \<open>
  Encoding a string and decoding it again: a byte that does not belong to an encoded character comes back as the
  replacement character.
\<close>

definition replacement :: string where
  "replacement = [char_of (239::nat), char_of (191::nat), char_of (189::nat)]"

function json_string :: "string \<Rightarrow> string" where
  "json_string [] = []"
| "json_string (c # cs) =
     (let n = rune_len (c # cs)
      in if n = 0 then replacement @ json_string cs else take n (c # cs) @ json_string (drop n (c # cs)))"
  by pat_completeness auto
termination
  by (relation "measure length") auto

definition json_pair :: "KeyValue \<Rightarrow> KeyValue" where
  "json_pair kv = \<lparr>kvKey = json_string (kvKey kv), kvValue = json_string (kvValue kv)\<rparr>"

function valid_utf8 :: "string \<Rightarrow> bool" where
  "valid_utf8 [] \<longleftrightarrow> True"
| "valid_utf8 (c # cs) \<longleftrightarrow> (let n = rune_len (c # cs) in if n = 0 then False else valid_utf8 (drop n (c # cs)))"
  by pat_completeness auto
termination
  by (relation "measure length") auto

definition utf8_pair :: "KeyValue \<Rightarrow> bool" where
  "utf8_pair kv \<longleftrightarrow> valid_utf8 (kvKey kv) \<and> valid_utf8 (kvValue kv)"

declare json_string.simps(2) [simp del] valid_utf8.simps(2) [simp del]

text \<open>Valid strings come back as they were, and nothing else does.\<close>

lemma json_string_length: "length s \<le> length (json_string s)"
proof (induction s rule: json_string.induct)
  case (2 c cs)
  show ?case
  proof (cases "rune_len (c # cs) = 0")
    case True
    with 2(1) [OF refl] show ?thesis by (simp add: json_string.simps(2) replacement_def Let_def)
  next
    case False
    with 2(2) [OF refl] show ?thesis by (simp add: json_string.simps(2) Let_def)
  qed
qed simp

lemma json_string_id: "json_string s = s \<longleftrightarrow> valid_utf8 s"
proof (induction s rule: json_string.induct)
  case (2 c cs)
  let ?n = "rune_len (c # cs)"
  show ?case
  proof (cases "?n = 0")
    case True
    have "length (c # cs) < length (json_string (c # cs))"
      using json_string_length [of cs] True by (simp add: json_string.simps(2) replacement_def Let_def)
    then have "json_string (c # cs) \<noteq> c # cs" by (metis less_irrefl)
    then show ?thesis using True by (simp add: valid_utf8.simps(2))
  next
    case False
    then have "json_string (c # cs) = take ?n (c # cs) @ json_string (drop ?n (c # cs))" by (simp add: json_string.simps(2) Let_def)
    then have "json_string (c # cs) = c # cs \<longleftrightarrow> json_string (drop ?n (c # cs)) = drop ?n (c # cs)"
      by (metis append_take_drop_id same_append_eq)
    with 2(2) [OF refl False] False show ?thesis by (simp add: valid_utf8.simps(2) Let_def)
  qed
qed simp

lemma json_pair_id: "utf8_pair kv \<Longrightarrow> json_pair kv = kv"
  by (simp add: json_pair_def utf8_pair_def json_string_id)

lemma json_pairs_id: "list_all utf8_pair kvs \<Longrightarrow> map json_pair kvs = kvs"
  by (induction kvs) (simp_all add: json_pair_id)

section \<open>Map tasks\<close>

definition emit :: "int \<Rightarrow> KeyValue list list \<Rightarrow> KeyValue \<Rightarrow> KeyValue list list go" where
  "emit nReduce buckets kv =
     (if nReduce = 0 then Inl DivideByZero
      else let i = ihash (kvKey kv) mod nReduce
           in bindG (go_index buckets i) (\<lambda>b. go_update buckets i (b @ [json_pair kv])))"

fun emit_all :: "int \<Rightarrow> KeyValue list list \<Rightarrow> KeyValue list \<Rightarrow> KeyValue list list go" where
  "emit_all nReduce buckets [] = Inr buckets"
| "emit_all nReduce buckets (kv # kvs) =
     bindG (emit nReduce buckets kv) (\<lambda>bs. emit_all nReduce bs kvs)"

fun map_files ::
  "mapf \<Rightarrow> (string \<rightharpoonup> string) \<Rightarrow> int \<Rightarrow> KeyValue list list \<Rightarrow> string list \<Rightarrow> KeyValue list list go" where
  "map_files f input nReduce buckets [] = Inr buckets"
| "map_files f input nReduce buckets (filename # rest) =
     (case input filename of
        None \<Rightarrow> Inl LogFatal
      | Some content \<Rightarrow>
          bindG (emit_all nReduce buckets (f filename content)) (\<lambda>bs. map_files f input nReduce bs rest))"

fun rename_all ::
  "int \<Rightarrow> nat \<Rightarrow> KeyValue list list \<Rightarrow> (string \<rightharpoonup> KeyValue list) \<Rightarrow> (string \<rightharpoonup> KeyValue list)" where
  "rename_all t i [] m = m"
| "rename_all t i (b # bs) m = rename_all t (Suc i) bs (m(mr_file t (int i) \<mapsto> b))"

definition map_task :: "mapf \<Rightarrow> FileSys \<Rightarrow> TaskReply \<Rightarrow> FileSys go" where
  "map_task f fs reply =
     bindG (map_files f (plain fs) (replyNReduce reply) (replicate (nat (replyNReduce reply)) []) (File reply))
       (\<lambda>bs. Inr (fs\<lparr>pairs := rename_all (TaskNum reply) 0 bs (pairs fs)\<rparr>))"

section \<open>Reduce tasks\<close>

definition group_insert :: "(string \<times> string list) list \<Rightarrow> KeyValue \<Rightarrow> (string \<times> string list) list" where
  "group_insert kva kv =
     AList.update (kvKey kv)
       ((case map_of kva (kvKey kv) of None \<Rightarrow> [] | Some vs \<Rightarrow> vs) @ [kvValue kv]) kva"

fun read_files ::
  "(string \<rightharpoonup> KeyValue list) \<Rightarrow> (string \<times> string list) list \<Rightarrow> string list \<Rightarrow> (string \<times> string list) list" where
  "read_files m kva [] = kva"
| "read_files m kva (filename # rest) =
     (case m filename of
        None \<Rightarrow> read_files m kva rest
      | Some kvs \<Rightarrow> read_files m (foldl group_insert kva kvs) rest)"

definition out_line :: "string \<Rightarrow> string \<Rightarrow> string" where
  "out_line key v = key @ '' '' @ v @ [char_of (10::nat)]"

definition out_file :: "int \<Rightarrow> string" where
  "out_file r = ''mr-out-'' @ Itoa r"

definition reduce_task ::
  "reducef \<Rightarrow> ((string \<times> string list) list \<Rightarrow> (string \<times> string list) list) \<Rightarrow> FileSys \<Rightarrow> TaskReply \<Rightarrow> FileSys" where
  "reduce_task f mapOrder fs reply =
     (let kva = read_files (pairs fs) [] (File reply)
      in fs\<lparr>outlines := (outlines fs)(out_file (TaskNum reply) \<mapsto>
             map (\<lambda>(key, vs). out_line key (f key vs)) (mapOrder kva))\<rparr>)"

section \<open>The worker's loop\<close>

text \<open>
  One iteration, from the answer of \<^verbatim>\<open>Schedule\<close> on: the worker stops, or it goes on and either
  works, after which it reports to the master, or sleeps, or asks again at once. After a first failed call the loop goes
  on with the zero reply.
\<close>

datatype worker_move = WStop | WReport | WSleep | WAgain

definition worker_step ::
  "mapf \<Rightarrow> reducef \<Rightarrow> ((string \<times> string list) list \<Rightarrow> (string \<times> string list) list) \<Rightarrow>
   WorkerServer \<Rightarrow> FileSys \<Rightarrow> TaskReply option \<Rightarrow> (WorkerServer \<times> FileSys \<times> worker_move) go" where
  "worker_step mapf reducef mapOrder wk fs answer =
     (if answer = None \<and> FailureCount wk \<ge> 1 then Inr (wk, fs, WStop)
      else (let wk1 = (if answer = None then wk\<lparr>FailureCount := FailureCount wk + 1\<rparr> else wk);
                reply = (case answer of Some r \<Rightarrow> r | None \<Rightarrow> no_reply)
            in if replyTask reply = 0 then mapG (\<lambda>fs1. (wk1, fs1, WReport)) (map_task mapf fs reply)
               else if replyTask reply = 1 then Inr (wk1, reduce_task reducef mapOrder fs reply, WReport)
               else if replyTask reply = 2 then Inr (wk1, fs, WSleep)
               else Inr (wk1, fs, WAgain)))"

section \<open>Numbers in file names\<close>

definition undigit :: "char \<Rightarrow> nat" where
  "undigit c = of_char c - 48"

definition atoi :: "string \<Rightarrow> nat" where
  "atoi s = foldl (\<lambda>a c. 10 * a + undigit c) 0 s"

lemma of_char_digit: "d < 10 \<Longrightarrow> (of_char (digit d) :: nat) = 48 + d"
  by (simp add: digit_def)

lemma undigit_digit: "d < 10 \<Longrightarrow> undigit (digit d) = d"
  by (simp add: undigit_def digit_def)

lemma atoi_snoc: "atoi (s @ [c]) = 10 * atoi s + undigit c"
  by (simp add: atoi_def)

lemma atoi_itoa: "atoi (itoa_nat n) = n"
proof (induction n rule: itoa_nat.induct)
  case (1 n)
  show ?case
  proof (cases "n < 10")
    case True
    then show ?thesis
      by (subst itoa_nat.simps) (simp add: atoi_snoc [of "[]", simplified] undigit_digit atoi_def)
  next
    case False
    then show ?thesis using 1
      by (subst itoa_nat.simps) (simp add: atoi_snoc undigit_digit)
  qed
qed

lemma itoa_nat_no_dash: "CHR ''-'' \<notin> set (itoa_nat n)"
proof (induction n rule: itoa_nat.induct)
  case (1 n)
  have nd: "digit d \<noteq> CHR ''-''" if "d < 10" for d
  proof
    assume "digit d = CHR ''-''"
    then have "48 + d = (of_char CHR ''-'' :: nat)" using of_char_digit [OF that] by simp
    then show False by simp
  qed
  show ?case using 1 nd [of n, symmetric] nd [of "n mod 10", symmetric]
    by (subst itoa_nat.simps) auto
qed

lemma Itoa_inj: "0 \<le> i \<Longrightarrow> 0 \<le> j \<Longrightarrow> Itoa i = Itoa j \<Longrightarrow> i = j"
  by (metis Itoa_def atoi_itoa eq_nat_nat_iff not_le)

lemma split_at_dash:
  assumes "CHR ''-'' \<notin> set xs" "CHR ''-'' \<notin> set xs'" "xs @ CHR ''-'' # ys = xs' @ CHR ''-'' # ys'"
  shows "xs = xs' \<and> ys = ys'"
  using assms
proof (induction xs arbitrary: xs')
  case Nil
  then show ?case by (cases xs') auto
next
  case (Cons x xs)
  then show ?case by (cases xs') auto
qed

text \<open>Different tasks or partitions have different intermediate files.\<close>

lemma mr_file_inj:
  assumes "0 \<le> t" "0 \<le> t'" "0 \<le> r" "0 \<le> r'" "mr_file t r = mr_file t' r'"
  shows "t = t' \<and> r = r'"
proof -
  have "Itoa t @ CHR ''-'' # Itoa r = Itoa t' @ CHR ''-'' # Itoa r'"
    using assms(5) by (simp add: mr_file_def)
  moreover have "CHR ''-'' \<notin> set (Itoa t)" "CHR ''-'' \<notin> set (Itoa t')"
    using assms by (simp_all add: Itoa_def itoa_nat_no_dash)
  ultimately show ?thesis using split_at_dash Itoa_inj assms by metis
qed

section \<open>The partition function\<close>

lemma ihash_take_bit: "ihash key = take_bit 31 (uint (fnv32a key))"
proof -
  have "(0x7fffffff :: 32 word) = mask 31" by (simp add: mask_eq_exp_minus_1)
  then have "fnv32a key AND 0x7fffffff = take_bit 31 (fnv32a key)" by (simp add: take_bit_eq_mask)
  then show ?thesis by (simp add: ihash_def unsigned_take_bit_eq)
qed

lemma ihash_bounds: "0 \<le> ihash key" "ihash key < 2 ^ 31"
  using take_bit_int_less_exp [of 31 "uint (fnv32a key)"] by (simp_all add: ihash_take_bit)

definition bucket :: "int \<Rightarrow> string \<Rightarrow> nat" where
  "bucket nReduce key = nat (ihash key mod nReduce)"

lemma bucket_less: "0 < n \<Longrightarrow> bucket n key < nat n"
  by (simp add: bucket_def)

lemma emit_ok:
  assumes "0 < n" "length bs = nat n"
  shows "emit n bs kv = Inr (bs[bucket n (kvKey kv) := bs ! bucket n (kvKey kv) @ [json_pair kv]])"
proof -
  let ?i = "ihash (kvKey kv) mod n"
  have "0 \<le> ?i" "?i < int (length bs)" using assms by simp_all
  then show ?thesis using assms by (simp add: emit_def go_update_def bucket_def Let_def)
qed

lemma emit_all_ok:
  assumes "0 < n" "length bs = nat n"
  shows "emit_all n bs kvs =
    Inr (map (\<lambda>i. bs ! i @ map json_pair (filter (\<lambda>kv. bucket n (kvKey kv) = i) kvs)) [0..<nat n])"
  using assms(2)
proof (induction kvs arbitrary: bs)
  case Nil
  then show ?case by (simp add: map_nth [of bs, simplified Nil])
next
  case (Cons kv kvs)
  let ?b = "bucket n (kvKey kv)" let ?bs = "bs[?b := bs ! ?b @ [json_pair kv]]"
  have "emit_all n bs (kv # kvs) = emit_all n ?bs kvs" using emit_ok [OF assms(1) Cons.prems] by simp
  also have "\<dots> = Inr (map (\<lambda>i. ?bs ! i @ map json_pair (filter (\<lambda>kv. bucket n (kvKey kv) = i) kvs)) [0..<nat n])"
    using Cons.prems by (intro Cons.IH) simp
  also have "\<dots> = Inr (map (\<lambda>i. bs ! i @ map json_pair (filter (\<lambda>kv. bucket n (kvKey kv) = i) (kv # kvs))) [0..<nat n])"
    using Cons.prems by (auto simp: nth_list_update)
  finally show ?case .
qed

text \<open>All pairs that the map function emits for some files, in order.\<close>

definition emitted :: "mapf \<Rightarrow> (string \<rightharpoonup> string) \<Rightarrow> string list \<Rightarrow> KeyValue list" where
  "emitted f input files = concat (map (\<lambda>x. f x (the (input x))) files)"

lemma map_files_ok:
  assumes "0 < n" "length bs = nat n" "set files \<subseteq> dom input"
  shows "map_files f input n bs files =
    Inr (map (\<lambda>i. bs ! i @ map json_pair (filter (\<lambda>kv. bucket n (kvKey kv) = i) (emitted f input files))) [0..<nat n])"
  using assms(2,3)
proof (induction files arbitrary: bs)
  case Nil
  then show ?case by (simp add: emitted_def map_nth [of bs, simplified Nil])
next
  case (Cons x files)
  then obtain c where c: "input x = Some c" by auto
  let ?bs = "map (\<lambda>i. bs ! i @ map json_pair (filter (\<lambda>kv. bucket n (kvKey kv) = i) (f x c))) [0..<nat n]"
  have "map_files f input n bs (x # files) = map_files f input n ?bs files"
    using c emit_all_ok [OF assms(1) Cons.prems(1)] by simp
  also have "\<dots> = Inr (map (\<lambda>i. ?bs ! i @ map json_pair (filter (\<lambda>kv. bucket n (kvKey kv) = i)
      (emitted f input files))) [0..<nat n])"
    using Cons.prems by (intro Cons.IH) simp_all
  finally show ?case using c by (auto simp: emitted_def)
qed


lemma rename_all_other:
  "(\<And>k. k < length bs \<Longrightarrow> name \<noteq> mr_file t (int (i + k))) \<Longrightarrow> rename_all t i bs m name = m name"
proof (induction bs arbitrary: i m)
  case (Cons b bs)
  have "name \<noteq> mr_file t (int i)" using Cons.prems [of 0] by simp
  moreover have "rename_all t (Suc i) bs m' name = m' name" for m'
    using Cons.prems [of "Suc _"] by (intro Cons.IH) auto
  ultimately show ?case by simp
qed simp

lemma rename_all_own:
  assumes "0 \<le> t" "k < length bs"
  shows "rename_all t i bs m (mr_file t (int (i + k))) = Some (bs ! k)"
  using assms(2)
proof (induction bs arbitrary: i k m)
  case (Cons b bs)
  show ?case
  proof (cases k)
    case 0
    have "mr_file t (int i) \<noteq> mr_file t (int (Suc i + k'))" for k'
      using mr_file_inj [of t t "int i" "int (Suc i + k')"] assms(1) by auto
    then show ?thesis using 0 rename_all_other [of bs "mr_file t (int i)" t "Suc i"] by simp
  next
    case (Suc k')
    then show ?thesis using Cons.IH [of k' "Suc i"] Cons.prems by simp
  qed
qed simp

text \<open>
  A map task writes, for every partition, the pairs of its files that hash to it, as they come out of JSON, and
  touches no other file.
\<close>

lemma map_task_ok:
  assumes "0 < replyNReduce reply" "0 \<le> TaskNum reply" "set (File reply) \<subseteq> dom (plain fs)"
  shows "\<exists>fs'. map_task f fs reply = Inr fs' \<and> plain fs' = plain fs \<and> outlines fs' = outlines fs \<and>
    (\<forall>r. 0 \<le> r \<and> r < replyNReduce reply \<longrightarrow>
       pairs fs' (mr_file (TaskNum reply) r) =
         Some (map json_pair (filter (\<lambda>kv. int (bucket (replyNReduce reply) (kvKey kv)) = r) (emitted f (plain fs) (File reply))))) \<and>
    (\<forall>t r. 0 \<le> t \<and> 0 \<le> r \<and> t \<noteq> TaskNum reply \<longrightarrow> pairs fs' (mr_file t r) = pairs fs (mr_file t r))"
proof -
  let ?n = "replyNReduce reply" and ?t = "TaskNum reply"
  define bs where "bs = map (\<lambda>i. map json_pair (filter (\<lambda>kv. bucket ?n (kvKey kv) = i)
      (emitted f (plain fs) (File reply)))) [0..<nat ?n]"
  have b: "map_files f (plain fs) ?n (replicate (nat ?n) []) (File reply) = Inr bs"
    using map_files_ok [OF assms(1) _ assms(3), of "replicate (nat ?n) []" f]
    by (simp add: bs_def cong: map_cong)
  let ?fs = "fs\<lparr>pairs := rename_all ?t 0 bs (pairs fs)\<rparr>"
  have "pairs ?fs (mr_file ?t r) =
      Some (map json_pair (filter (\<lambda>kv. int (bucket ?n (kvKey kv)) = r) (emitted f (plain fs) (File reply))))"
    if r: "0 \<le> r" "r < ?n" for r
  proof -
    have "pairs ?fs (mr_file ?t (int (0 + nat r))) = Some (bs ! nat r)"
      using r rename_all_own [OF assms(2), of "nat r" bs 0] by (simp add: bs_def)
    moreover have e: "(bucket ?n k = nat r) = (int (bucket ?n k) = r)" for k using r(1) by auto
    have "bs ! nat r = map json_pair (filter (\<lambda>kv. int (bucket ?n (kvKey kv)) = r) (emitted f (plain fs) (File reply)))"
      using r by (simp add: bs_def flip: e)
    ultimately show ?thesis using r by simp
  qed
  moreover have "pairs ?fs (mr_file t r) = pairs fs (mr_file t r)" if "0 \<le> t" "0 \<le> r" "t \<noteq> ?t" for t r
  proof -
    have "mr_file t r \<noteq> mr_file ?t (int (0 + k))" for k
      using that mr_file_inj [of t ?t r "int (0 + k)"] assms(2) by auto
    then show ?thesis by (simp add: rename_all_other)
  qed
  ultimately show ?thesis using b by (simp add: map_task_def)
qed

text \<open>Grouping collects the values of every key, each key once.\<close>

lemma group_insert_lookup:
  "map_of (group_insert kva kv) k =
     (if k = kvKey kv then Some ((case map_of kva k of None \<Rightarrow> [] | Some vs \<Rightarrow> vs) @ [kvValue kv])
      else map_of kva k)"
  by (simp add: group_insert_def update_conv')

lemma group_insert_distinct: "distinct (map fst kva) \<Longrightarrow> distinct (map fst (group_insert kva kv))"
  by (simp add: group_insert_def distinct_update)

definition values_of :: "string \<Rightarrow> KeyValue list \<Rightarrow> string list" where
  "values_of k kvs = map kvValue (filter (\<lambda>kv. kvKey kv = k) kvs)"

lemma group_fold:
  "map_of (foldl group_insert kva kvs) k =
     (if map_of kva k = None \<and> values_of k kvs = [] then None
      else Some ((case map_of kva k of None \<Rightarrow> [] | Some vs \<Rightarrow> vs) @ values_of k kvs))"
proof (induction kvs arbitrary: kva)
  case Nil
  then show ?case by (auto simp: values_of_def split: option.splits)
next
  case (Cons kv kvs)
  show ?case using Cons.IH [of "group_insert kva kv"]
    by (auto simp: group_insert_lookup values_of_def)
qed

lemma group_fold_distinct: "distinct (map fst kva) \<Longrightarrow> distinct (map fst (foldl group_insert kva kvs))"
  by (induction kvs arbitrary: kva) (simp_all add: group_insert_distinct)

lemma read_files_fold:
  "read_files m kva files =
   foldl group_insert kva (concat (map (\<lambda>x. case m x of None \<Rightarrow> [] | Some kvs \<Rightarrow> kvs) files))"
  by (induction files arbitrary: kva) (auto split: option.splits)

section \<open>Properties\<close>

definition fnv_step :: "int \<Rightarrow> char \<Rightarrow> int" where
  "fnv_step h c = ((h XOR int (of_char c)) * 16777619) mod 2 ^ 32"

lemma fnv_word_step: "uint ((h XOR of_nat (of_char c)) * 16777619 :: 32 word) = fnv_step (uint h) c"
proof -
  have "(of_char c :: nat) < 2 ^ 32" by (rule less_trans [OF nat_of_char_less_256]) simp
  then have "uint (of_nat (of_char c) :: 32 word) = int (of_char c)"
    by (simp add: unsigned_of_nat take_bit_nat_eq_self)
  then show ?thesis by (simp add: fnv_step_def uint_word_ariths unsigned_xor_eq)
qed

text \<open>
  C30: The partition function is FNV-1a with 32-bit wrap-around: \<^verbatim>\<open>ihash\<close> folds the bytes of the key
  modulo 2^32 and drops the sign bit, so its value lies in [0, 2^31), and taking it modulo a
  positive \<^verbatim>\<open>NReduce\<close> always picks one of the \<^verbatim>\<open>NReduce\<close> intermediate files: emitting a pair never
  panics and appends it, as it comes out of JSON, to exactly that file.
\<close>

theorem ihash_partitions:
  "ihash key = foldl fnv_step 2166136261 key mod 2 ^ 31 \<and> 0 \<le> ihash key \<and> ihash key < 2 ^ 31 \<and>
   (0 < n \<and> length buckets = nat n \<and> kvKey kv = key \<longrightarrow>
      emit n buckets kv = Inr (buckets[nat (ihash key mod n) := buckets ! nat (ihash key mod n) @ [json_pair kv]]))"
proof -
  have "uint (foldl (\<lambda>h c. (h XOR of_nat (of_char c)) * 16777619) (w :: 32 word) s) = foldl fnv_step (uint w) s" for w s
    by (induction s arbitrary: w) (simp_all add: fnv_word_step)
  then have "uint (fnv32a key) = foldl fnv_step 2166136261 key" by (simp add: fnv32a_def)
  moreover have "ihash key = uint (fnv32a key) mod 2 ^ 31"
    by (simp add: ihash_take_bit take_bit_eq_mod)
  ultimately show ?thesis using ihash_bounds [of key] emit_ok [of n buckets kv] by (simp add: bucket_def)
qed

theorem ihash_partitions_witness:
  "emit 10 (replicate 10 []) \<lparr>kvKey = ''a'', kvValue = ''1''\<rparr> =
     Inr ((replicate 10 [])[nat (ihash ''a'' mod 10) := [\<lparr>kvKey = ''a'', kvValue = ''1''\<rparr>]])"
proof -
  have "nat (ihash ''a'' mod 10) < 10" by (simp add: nat_less_iff)
  moreover have "json_pair \<lparr>kvKey = ''a'', kvValue = ''1''\<rparr> = \<lparr>kvKey = ''a'', kvValue = ''1''\<rparr>" by code_simp
  ultimately show ?thesis
    using ihash_partitions [of "''a''" 10 "replicate 10 []" "\<lparr>kvKey = ''a'', kvValue = ''1''\<rparr>"] by simp
qed

end
