(* ===== verification/Mr_Sequential.thy ===== *)
theory Mr_Sequential
  imports Mr_Worker "HOL-Library.List_Lexorder" "HOL-Library.Char_ord"
begin

text \<open>
  The sequential reference \<^verbatim>\<open>main/mrsequential.go\<close>, the applications under \<^verbatim>\<open>mrapps\<close>, and the theorem
  that the distributed tasks compute what the reference computes. Sorting is Go's, so the sort of
  the reference is an argument that is only known to sort by key and to permute.
\<close>

section \<open>The sequential program\<close>

fun read_input :: "mapf \<Rightarrow> (string \<rightharpoonup> string) \<Rightarrow> KeyValue list \<Rightarrow> string list \<Rightarrow> KeyValue list go" where
  "read_input f input acc [] = Inr acc"
| "read_input f input acc (filename # rest) =
     (case input filename of
        None \<Rightarrow> Inl LogFatal
      | Some content \<Rightarrow> read_input f input (acc @ f filename content) rest)"

text \<open>The loop over the sorted pairs: \<open>j\<close> runs to the end of the group that starts at \<open>i\<close>.\<close>

function group_loop :: "reducef \<Rightarrow> KeyValue list \<Rightarrow> string list" where
  "group_loop f [] = []"
| "group_loop f (kv # kvs) =
     (let same = takeWhile (\<lambda>x. kvKey x = kvKey kv) kvs;
          rest = dropWhile (\<lambda>x. kvKey x = kvKey kv) kvs
      in out_line (kvKey kv) (f (kvKey kv) (kvValue kv # map kvValue same)) # group_loop f rest)"
  by pat_completeness auto
termination
  by (relation "measure (\<lambda>(f, kvs). length kvs)") (auto simp: length_dropWhile_le less_Suc_eq_le)

declare group_loop.simps [simp del]

definition mrsequential ::
  "(KeyValue list \<Rightarrow> KeyValue list) \<Rightarrow> mapf \<Rightarrow> reducef \<Rightarrow> FileSys \<Rightarrow> string list \<Rightarrow> FileSys go" where
  "mrsequential sortByKey mapf reducef fs files =
     bindG (read_input mapf (plain fs) [] files) (\<lambda>intermediate.
       Inr (fs\<lparr>outlines := (outlines fs)(''mr-out-0'' \<mapsto> group_loop reducef (sortByKey intermediate))\<rparr>))"

section \<open>Applications\<close>

text \<open>
  \<^verbatim>\<open>strings.FieldsFunc\<close> cuts at every run of separators; what a letter is, \<^verbatim>\<open>unicode.IsLetter\<close>, is an
  argument.
\<close>

function FieldsFunc :: "(char \<Rightarrow> bool) \<Rightarrow> string \<Rightarrow> string list" where
  "FieldsFunc sep s =
     (case dropWhile sep s of
        [] \<Rightarrow> []
      | c # cs \<Rightarrow> (c # takeWhile (\<lambda>x. \<not> sep x) cs) # FieldsFunc sep (dropWhile (\<lambda>x. \<not> sep x) cs))"
  by pat_completeness auto
termination
proof (relation "measure (\<lambda>(sep, s). length s)")
  fix sep :: "char \<Rightarrow> bool" and s c cs assume "dropWhile sep s = c # cs"
  then have "length (c # cs) \<le> length s" by (metis length_dropWhile_le)
  moreover have "length (dropWhile (\<lambda>x. \<not> sep x) cs) \<le> length cs" by (rule length_dropWhile_le)
  ultimately show "((sep, dropWhile (\<lambda>x. \<not> sep x) cs), sep, s) \<in> measure (\<lambda>(sep, s). length s)" by simp
qed simp

declare FieldsFunc.simps [simp del]

definition wc_Map :: "(char \<Rightarrow> bool) \<Rightarrow> mapf" where
  "wc_Map isLetter filename contents =
     map (\<lambda>w. \<lparr>kvKey = w, kvValue = ''1''\<rparr>) (FieldsFunc (\<lambda>r. \<not> isLetter r) contents)"

definition wc_Reduce :: reducef where
  "wc_Reduce key vs = Itoa (int (length vs))"

fun Join :: "string list \<Rightarrow> string \<Rightarrow> string" where
  "Join [] sep = []"
| "Join [x] sep = x"
| "Join (x # y # zs) sep = x @ sep @ Join (y # zs) sep"

text \<open>The indexer visits its set of words in Go's arbitrary order, an argument again.\<close>

definition indexer_Map :: "(char \<Rightarrow> bool) \<Rightarrow> (string list \<Rightarrow> string list) \<Rightarrow> mapf" where
  "indexer_Map isLetter mapOrder document contents =
     map (\<lambda>w. \<lparr>kvKey = w, kvValue = document\<rparr>)
       (mapOrder (remdups (FieldsFunc (\<lambda>r. \<not> isLetter r) contents)))"

definition indexer_Reduce :: reducef where
  "indexer_Reduce key vs = Itoa (int (length vs)) @ '' '' @ Join (sort vs) '',''"

definition nocrash_Map :: mapf where
  "nocrash_Map filename contents =
     [\<lparr>kvKey = ''a'', kvValue = filename\<rparr>,
      \<lparr>kvKey = ''b'', kvValue = Itoa (int (length filename))\<rparr>,
      \<lparr>kvKey = ''c'', kvValue = Itoa (int (length contents))\<rparr>,
      \<lparr>kvKey = ''d'', kvValue = ''xyzzy''\<rparr>]"

definition nocrash_Reduce :: reducef where
  "nocrash_Reduce key vs = Join (sort vs) '' ''"

section \<open>The distributed computation\<close>

text \<open>All map tasks one after the other, in any order, and the lines of one reduce task.\<close>

fun map_phase :: "mapf \<Rightarrow> int \<Rightarrow> FileSys \<Rightarrow> Task list \<Rightarrow> FileSys go" where
  "map_phase f n fs [] = Inr fs"
| "map_phase f n fs (t # ts) =
     bindG (map_task f fs \<lparr>replyWorkerId = 0, replyTask = 0, TaskNum = taskNum t, File = taskFile t, replyNReduce = n\<rparr>)
       (\<lambda>fs'. map_phase f n fs' ts)"

definition reduce_reply :: "int list \<Rightarrow> int \<Rightarrow> TaskReply" where
  "reduce_reply valid r = \<lparr>replyWorkerId = 0, replyTask = 1, TaskNum = r, File = map (\<lambda>t. mr_file t r) valid, replyNReduce = 0\<rparr>"

fun reduce_phase ::
  "reducef \<Rightarrow> ((string \<times> string list) list \<Rightarrow> (string \<times> string list) list) \<Rightarrow> int list \<Rightarrow> FileSys \<Rightarrow>
   int list \<Rightarrow> FileSys" where
  "reduce_phase f mapOrder valid fs [] = fs"
| "reduce_phase f mapOrder valid fs (r # rs) =
     reduce_phase f mapOrder valid (reduce_task f mapOrder fs (reduce_reply valid r)) rs"

section \<open>What a reduction depends on\<close>

locale order_insensitive =
  fixes reducef :: reducef
  assumes insensitive: "mset vs = mset vs' \<Longrightarrow> reducef key vs = reducef key vs'"

interpretation wc: order_insensitive wc_Reduce
  by unfold_locales (metis wc_Reduce_def size_mset)

interpretation indexer: order_insensitive indexer_Reduce
  by unfold_locales (metis indexer_Reduce_def properties_for_sort mset_sort size_mset sorted_sort)

interpretation nocrash: order_insensitive nocrash_Reduce
  by unfold_locales (metis nocrash_Reduce_def properties_for_sort mset_sort sorted_sort)

section \<open>The lines of a set of pairs\<close>

text \<open>One line per key, with all the values of the key: what every variant computes.\<close>

definition lines_of :: "reducef \<Rightarrow> KeyValue list \<Rightarrow> string multiset" where
  "lines_of f kvs =
     image_mset (\<lambda>k. out_line k (f k (values_of k kvs))) (mset_set (kvKey ` set kvs))"

lemma values_of_mset: "mset kvs = mset kvs' \<Longrightarrow> mset (values_of k kvs) = mset (values_of k kvs')"
  by (simp add: values_of_def)

lemma lines_of_perm:
  assumes "order_insensitive f" "mset kvs = mset kvs'"
  shows "lines_of f kvs = lines_of f kvs'"
proof -
  have "set kvs = set kvs'" using assms(2) by (metis set_mset_mset)
  moreover have "f k (values_of k kvs) = f k (values_of k kvs')" for k
    using values_of_mset [OF assms(2)] assms(1) order_insensitive.insensitive by blast
  ultimately show ?thesis by (simp add: lines_of_def)
qed

lemma values_of_none: "k \<notin> kvKey ` set kvs \<Longrightarrow> values_of k kvs = []"
  by (auto simp: values_of_def filter_empty_conv)

lemma values_of_append: "values_of k (xs @ ys) = values_of k xs @ values_of k ys"
  by (simp add: values_of_def)

lemma values_of_all: "(\<And>x. x \<in> set xs \<Longrightarrow> kvKey x = k) \<Longrightarrow> values_of k xs = map kvValue xs"
  by (simp add: values_of_def)

lemma dropWhile_sorted_keys:
  "sorted (k # map kvKey kvs) \<Longrightarrow> k \<notin> kvKey ` set (dropWhile (\<lambda>x. kvKey x = k) kvs)"
proof (induction kvs)
  case (Cons x xs)
  then show ?case by (cases "kvKey x = k") (fastforce simp: image_iff)+
qed simp

lemma group_loop_lines: "sorted (map kvKey kvs) \<Longrightarrow> mset (group_loop f kvs) = lines_of f kvs"
proof (induction f kvs rule: group_loop.induct)
  case (2 f kv kvs)
  let ?k = "kvKey kv"
  define same where "same = takeWhile (\<lambda>x. kvKey x = ?k) kvs"
  define rest where "rest = dropWhile (\<lambda>x. kvKey x = ?k) kvs"
  have kvs: "kvs = same @ rest" by (simp add: same_def rest_def)
  have sk: "kvKey x = ?k" if "x \<in> set same" for x using that by (auto simp: same_def dest: set_takeWhileD)
  have new: "?k \<notin> kvKey ` set rest"
    unfolding rest_def by (rule dropWhile_sorted_keys) (use 2 in simp)
  have "sorted (map kvKey rest)" using 2 kvs by (simp add: sorted_append)
  with 2 have IH: "mset (group_loop f rest) = lines_of f rest" by (simp add: same_def rest_def)
  have own: "values_of ?k (kv # kvs) = kvValue kv # map kvValue same"
    using values_of_all [of same, OF sk] values_of_none [OF new]
    by (simp add: kvs values_of_append) (simp add: values_of_def)
  have other: "values_of k (kv # kvs) = values_of k rest" if "k \<in> kvKey ` set rest" for k
  proof -
    have "k \<noteq> ?k" using that new by blast
    then have "values_of k same = []" using sk by (intro values_of_none) auto
    then show ?thesis using \<open>k \<noteq> ?k\<close> by (simp add: kvs values_of_append) (simp add: values_of_def)
  qed
  have keys: "kvKey ` set (kv # kvs) = insert ?k (kvKey ` set rest)" using sk by (auto simp: kvs)
  have "lines_of f (kv # kvs) = add_mset (out_line ?k (f ?k (kvValue kv # map kvValue same))) (lines_of f rest)"
  proof -
    have "image_mset (\<lambda>k. out_line k (f k (values_of k (kv # kvs)))) (mset_set (kvKey ` set rest)) = lines_of f rest"
      unfolding lines_of_def by (rule image_mset_cong) (use other in simp)
    moreover have "mset_set (insert ?k (kvKey ` set rest)) = add_mset ?k (mset_set (kvKey ` set rest))"
      using new by simp
    ultimately show ?thesis unfolding lines_of_def [of f "kv # kvs"] keys by (simp only: image_mset_add_mset own)
  qed
  then show ?case using IH by (simp add: group_loop.simps same_def rest_def Let_def)
qed (simp add: group_loop.simps lines_of_def)

text \<open>A reduce task writes the lines of the pairs it reads.\<close>

lemma group_fold_mset:
  "mset (foldl group_insert [] kvs) = image_mset (\<lambda>k. (k, values_of k kvs)) (mset_set (kvKey ` set kvs))"
proof -
  let ?kva = "foldl group_insert [] kvs"
  have d: "distinct (map fst ?kva)" by (rule group_fold_distinct) simp
  have look: "map_of ?kva k = (if values_of k kvs = [] then None else Some (values_of k kvs))" for k
    using group_fold [of "[]" kvs k] by simp
  have some: "values_of k kvs = [] \<longleftrightarrow> k \<notin> kvKey ` set kvs" for k
    by (auto simp: values_of_def filter_empty_conv)
  have "set ?kva = (\<lambda>k. (k, values_of k kvs)) ` kvKey ` set kvs"
    using look some by (auto simp: map_of_eq_Some_iff [OF d, symmetric] split: if_splits)
  moreover have "mset ?kva = mset_set (set ?kva)" using d by (simp add: mset_set_set distinct_map)
  ultimately show ?thesis by (simp add: image_mset_mset_set inj_on_def)
qed

lemma reduce_task_lines:
  assumes "\<And>kva. mset (mapOrder kva) = mset kva"
  shows "mset (map (\<lambda>(k, vs). out_line k (f k vs)) (mapOrder (foldl group_insert [] kvs))) = lines_of f kvs"
  using assms by (simp add: group_fold_mset lines_of_def multiset.map_comp comp_def)

text \<open>The partitions together have the lines of all pairs.\<close>

lemma mset_set_split:
  fixes g :: "'a \<Rightarrow> nat"
  assumes "finite K"
  shows "image_mset h (mset_set {k \<in> K. g k < m}) =
    (\<Sum>r\<leftarrow>[0..<m]. image_mset h (mset_set {k \<in> K. g k = r}))"
proof (induction m)
  case (Suc m)
  have "{k \<in> K. g k < Suc m} = {k \<in> K. g k < m} \<union> {k \<in> K. g k = m}" by auto
  then have "mset_set {k \<in> K. g k < Suc m} = mset_set {k \<in> K. g k < m} + mset_set {k \<in> K. g k = m}"
    using assms by (simp add: mset_set_Union disjoint_iff)
  with Suc show ?case by simp
qed simp

lemma lines_of_partition:
  assumes "\<And>k. g k < m"
  shows "lines_of f kvs = (\<Sum>r\<leftarrow>[0..<m]. lines_of f (filter (\<lambda>kv. g (kvKey kv) = r) kvs))"
proof -
  let ?h = "\<lambda>k. out_line k (f k (values_of k kvs))" and ?K = "kvKey ` set kvs"
  have part: "lines_of f (filter (\<lambda>kv. g (kvKey kv) = r) kvs) = image_mset ?h (mset_set {k \<in> ?K. g k = r})" for r
  proof -
    have keys: "kvKey ` set (filter (\<lambda>kv. g (kvKey kv) = r) kvs) = {k \<in> ?K. g k = r}" by auto
    have vals: "values_of k (filter (\<lambda>kv. g (kvKey kv) = r) kvs) = values_of k kvs" if "g k = r" for k
      using that by (auto simp: values_of_def intro!: arg_cong [of _ _ "map kvValue"] filter_cong)
    show ?thesis unfolding lines_of_def keys by (rule image_mset_cong) (simp add: vals)
  qed
  have "{k \<in> ?K. g k < m} = ?K" using assms by auto
  then show ?thesis using mset_set_split [of ?K ?h g m]
    unfolding part lines_of_def [of f kvs] by simp
qed

section \<open>The phases\<close>

lemma map_phase_ok:
  assumes "0 < n" "distinct (map taskNum ts)" "\<forall>t \<in> set ts. 0 \<le> taskNum t"
    "set (concat (map taskFile ts)) \<subseteq> dom (plain fs)"
  shows "\<exists>fs'. map_phase f n fs ts = Inr fs' \<and> plain fs' = plain fs \<and> outlines fs' = outlines fs \<and>
    (\<forall>t \<in> set ts. \<forall>r. 0 \<le> r \<and> r < n \<longrightarrow> pairs fs' (mr_file (taskNum t) r) =
       Some (map json_pair (filter (\<lambda>kv. int (bucket n (kvKey kv)) = r) (emitted f (plain fs) (taskFile t))))) \<and>
    (\<forall>t r. 0 \<le> t \<and> 0 \<le> r \<and> t \<notin> taskNum ` set ts \<longrightarrow> pairs fs' (mr_file t r) = pairs fs (mr_file t r))"
  using assms(2-4)
proof (induction ts arbitrary: fs)
  case (Cons t ts)
  let ?reply = "\<lparr>replyWorkerId = 0, replyTask = 0, TaskNum = taskNum t, File = taskFile t, replyNReduce = n\<rparr>"
  obtain fs1 where 1: "map_task f fs ?reply = Inr fs1" "plain fs1 = plain fs" "outlines fs1 = outlines fs"
    "\<forall>r. 0 \<le> r \<and> r < n \<longrightarrow> pairs fs1 (mr_file (taskNum t) r) =
       Some (map json_pair (filter (\<lambda>kv. int (bucket n (kvKey kv)) = r) (emitted f (plain fs) (taskFile t))))"
    "\<forall>t' r. 0 \<le> t' \<and> 0 \<le> r \<and> t' \<noteq> taskNum t \<longrightarrow> pairs fs1 (mr_file t' r) = pairs fs (mr_file t' r)"
    using map_task_ok [of ?reply fs f] assms(1) Cons.prems by auto
  obtain fs2 where 2: "map_phase f n fs1 ts = Inr fs2" "plain fs2 = plain fs1" "outlines fs2 = outlines fs1"
    "\<forall>t \<in> set ts. \<forall>r. 0 \<le> r \<and> r < n \<longrightarrow> pairs fs2 (mr_file (taskNum t) r) =
       Some (map json_pair (filter (\<lambda>kv. int (bucket n (kvKey kv)) = r) (emitted f (plain fs1) (taskFile t))))"
    "\<forall>t r. 0 \<le> t \<and> 0 \<le> r \<and> t \<notin> taskNum ` set ts \<longrightarrow> pairs fs2 (mr_file t r) = pairs fs1 (mr_file t r)"
    using Cons.IH [of fs1] Cons.prems 1(2) by auto
  have "taskNum t \<notin> taskNum ` set ts" "0 \<le> taskNum t" using Cons.prems by auto
  then show ?case using 1 2 by auto
qed simp

lemma out_file_inj: "0 \<le> r \<Longrightarrow> 0 \<le> r' \<Longrightarrow> out_file r = out_file r' \<Longrightarrow> r = r'"
  using Itoa_inj by (simp add: out_file_def)

lemma reduce_phase_frame:
  "pairs (reduce_phase f ord valid fs rs) = pairs fs"
  "(\<And>r. r \<in> set rs \<Longrightarrow> name \<noteq> out_file r) \<Longrightarrow> outlines (reduce_phase f ord valid fs rs) name = outlines fs name"
  by (induction rs arbitrary: fs) (auto simp: reduce_task_def reduce_reply_def Let_def)

lemma reduce_phase_out:
  assumes "distinct rs" "\<forall>r \<in> set rs. 0 \<le> r" "r \<in> set rs"
  shows "outlines (reduce_phase f ord valid fs rs) (out_file r) =
    Some (map (\<lambda>(k, vs). out_line k (f k vs))
      (ord (read_files (pairs fs) [] (map (\<lambda>t. mr_file t r) valid))))"
  using assms
proof (induction rs arbitrary: fs)
  case (Cons r' rs)
  let ?fs = "reduce_task f ord fs (reduce_reply valid r')"
  have p: "pairs ?fs = pairs fs" by (simp add: reduce_task_def Let_def)
  show ?case
  proof (cases "r = r'")
    case True
    have "out_file r' \<noteq> out_file x" if "x \<in> set rs" for x
      using that Cons.prems out_file_inj [of r' x] by auto
    then show ?thesis using True reduce_phase_frame(2) [of rs "out_file r'"]
      by (simp add: reduce_task_def reduce_reply_def Let_def)
  next
    case False
    then show ?thesis using Cons.IH [of ?fs] Cons.prems p by auto
  qed
qed simp

lemma read_input_ok:
  "set files \<subseteq> dom input \<Longrightarrow> read_input f input acc files = Inr (acc @ emitted f input files)"
  by (induction files arbitrary: acc) (auto simp: emitted_def)

lemma emitted_mset: "mset files = mset files' \<Longrightarrow> mset (emitted f input files) = mset (emitted f input files')"
proof -
  have "mset (emitted f input fs) = (\<Sum>x\<in>#mset fs. mset (f x (the (input x))))" for fs
    by (induction fs) (simp_all add: emitted_def)
  then show "mset files = mset files' \<Longrightarrow> ?thesis" by simp
qed

lemma emitted_concat: "concat (map (\<lambda>t. emitted f input (taskFile t)) ts) = emitted f input (concat (map taskFile ts))"
  by (induction ts) (simp_all add: emitted_def)

lemma mset_concat_sum: "mset (concat (map c xs)) = (\<Sum>x\<in>#mset xs. mset (c x))"
  by (induction xs) simp_all

text \<open>What a reduce task reads, from all tasks' files of its partition.\<close>

lemma partition_input:
  assumes "mset valid = mset (map taskNum ts)"
    and "\<And>t. t \<in> set ts \<Longrightarrow> m (mr_file (taskNum t) r) = Some (filter P (emitted f input (taskFile t)))"
  shows "mset (concat (map (\<lambda>x. case m x of None \<Rightarrow> [] | Some kvs \<Rightarrow> kvs) (map (\<lambda>t. mr_file t r) valid)))
       = mset (filter P (emitted f input (concat (map taskFile ts))))"
proof -
  let ?c = "\<lambda>x. case m x of None \<Rightarrow> [] | Some kvs \<Rightarrow> kvs"
  have "mset (concat (map ?c (map (\<lambda>t. mr_file t r) valid))) = (\<Sum>x\<in>#mset valid. mset (?c (mr_file x r)))"
    using mset_concat_sum [of "\<lambda>x. ?c (mr_file x r)" valid] by (simp add: comp_def)
  also have "\<dots> = (\<Sum>t\<in>#mset ts. mset (?c (mr_file (taskNum t) r)))"
    by (simp add: assms(1) multiset.map_comp comp_def)
  also have "\<dots> = (\<Sum>t\<in>#mset ts. mset (filter P (emitted f input (taskFile t))))"
    by (intro arg_cong [of _ _ sum_mset] image_mset_cong) (simp add: assms(2))
  also have "\<dots> = mset (filter P (concat (map (\<lambda>t. emitted f input (taskFile t)) ts)))"
    by (induction ts) simp_all
  finally show ?thesis by (simp add: emitted_concat)
qed

section \<open>Properties\<close>

text \<open>
  C16: The distributed computation equals the sequential one. Map tasks with different numbers that
  together cover the input files, run in any order, followed by one reduce task per partition
  that reads the outputs of each of them once, write line for line, up to order, what
  \<^verbatim>\<open>mrsequential\<close> writes, for every map function whose keys and values are valid UTF-8 on the input (the
  intermediate files are JSON, which changes other strings), every reduce function that does not depend on
  the order of its values, every number of partitions, every iteration order of Go's maps and
  every sort by key; and none of the tasks panics. That the reduce tasks are given every map task once is a
  hypothesis here: the master of \<open>Mr_Master\<close> can repeat one after a late report.
\<close>

theorem distributed_equals_sequential:
  assumes "0 < n" and "distinct (map taskNum ts)" and "\<forall>t \<in> set ts. 0 \<le> taskNum t"
    and "mset (concat (map taskFile ts)) = mset files" and "set files \<subseteq> dom (plain fs)"
    and "mset valid = mset (map taskNum ts)" and "rs = map int [0..<nat n]"
    and "order_insensitive reducef" and "\<forall>kva. mset (mapOrder kva) = mset kva"
    and "\<forall>kvs. mset (sortByKey kvs) = mset kvs \<and> sorted (map kvKey (sortByKey kvs))"
    and "list_all utf8_pair (emitted mapf (plain fs) files)"
  shows "\<exists>fs1 fs2 lines. map_phase mapf n fs ts = Inr fs1 \<and>
    mrsequential sortByKey mapf reducef fs files = Inr fs2 \<and> outlines fs2 ''mr-out-0'' = Some lines \<and>
    mset (concat (map (\<lambda>r. the (outlines (reduce_phase reducef mapOrder valid fs1 rs) (out_file r))) rs))
      = mset lines"
proof -
  let ?all = "emitted mapf (plain fs) files"
  have "set (concat (map taskFile ts)) = set files" using assms(4) by (metis set_mset_mset)
  then obtain fs1 where m: "map_phase mapf n fs ts = Inr fs1"
    and p0: "\<And>t r. t \<in> set ts \<Longrightarrow> 0 \<le> r \<Longrightarrow> r < n \<Longrightarrow> pairs fs1 (mr_file (taskNum t) r) =
       Some (map json_pair (filter (\<lambda>kv. int (bucket n (kvKey kv)) = r) (emitted mapf (plain fs) (taskFile t))))"
    using map_phase_ok [OF assms(1-3), of fs mapf] assms(5) by blast
  have "list_all utf8_pair (emitted mapf (plain fs) (taskFile t))" if "t \<in> set ts" for t
  proof -
    have "set (emitted mapf (plain fs) (taskFile t)) \<subseteq> set (emitted mapf (plain fs) files)"
      using that \<open>set (concat (map taskFile ts)) = set files\<close> unfolding emitted_def by (fastforce simp del: set_concat simp: set_concat)
    then show ?thesis using assms(11) by (auto simp: list_all_iff)
  qed
  then have p: "pairs fs1 (mr_file (taskNum t) r) =
       Some (filter (\<lambda>kv. int (bucket n (kvKey kv)) = r) (emitted mapf (plain fs) (taskFile t)))"
    if "t \<in> set ts" "0 \<le> r" "r < n" for t r
    using p0 [OF that] that(1) by (simp add: json_pairs_id list_all_iff)
  have part: "mset (the (outlines (reduce_phase reducef mapOrder valid fs1 rs) (out_file (int k)))) =
      lines_of reducef (filter (\<lambda>kv. bucket n (kvKey kv) = k) ?all)" if k: "k < nat n" for k
  proof -
    let ?P = "\<lambda>kv. int (bucket n (kvKey kv)) = int k"
    let ?in = "concat (map (\<lambda>x. case pairs fs1 x of None \<Rightarrow> [] | Some kvs \<Rightarrow> kvs)
        (map (\<lambda>t. mr_file t (int k)) valid))"
    have "mset ?in = mset (filter ?P (emitted mapf (plain fs) (concat (map taskFile ts))))"
      by (rule partition_input [OF assms(6)]) (use p k in auto)
    also have "\<dots> = mset (filter ?P ?all)" using emitted_mset [OF assms(4)] by (simp add: mset_filter)
    finally have "lines_of reducef ?in = lines_of reducef (filter ?P ?all)" by (rule lines_of_perm [OF assms(8)])
    moreover have "outlines (reduce_phase reducef mapOrder valid fs1 rs) (out_file (int k)) =
        Some (map (\<lambda>(k, vs). out_line k (reducef k vs)) (mapOrder (foldl group_insert [] ?in)))"
      using reduce_phase_out [of rs "int k" reducef mapOrder valid fs1] k assms(7)
      by (simp add: read_files_fold distinct_map)
    ultimately show ?thesis using reduce_task_lines [of mapOrder reducef ?in] assms(9) by simp
  qed
  have b: "bucket n k < nat n" for k using assms(1) by (rule bucket_less)
  have "mset (concat (map (\<lambda>r. the (outlines (reduce_phase reducef mapOrder valid fs1 rs) (out_file r))) rs)) =
      (\<Sum>k\<leftarrow>[0..<nat n]. lines_of reducef (filter (\<lambda>kv. bucket n (kvKey kv) = k) ?all))"
  proof -
    define out where "out = (\<lambda>r. the (outlines (reduce_phase reducef mapOrder valid fs1 rs) (out_file r)))"
    have "map (\<lambda>k. mset (out (int k))) [0..<nat n] =
        map (\<lambda>k. lines_of reducef (filter (\<lambda>kv. bucket n (kvKey kv) = k) ?all)) [0..<nat n]"
      using part by (simp add: out_def)
    moreover have "mset (concat (map out rs)) = sum_list (map (\<lambda>k. mset (out (int k))) [0..<nat n])"
      by (simp add: assms(7) mset_concat comp_def)
    ultimately show ?thesis unfolding out_def by (simp only:)
  qed
  also have "\<dots> = lines_of reducef ?all" by (rule lines_of_partition [OF b, symmetric])
  also have "\<dots> = mset (group_loop reducef (sortByKey ?all))"
    using assms(10) lines_of_perm [OF assms(8), of ?all "sortByKey ?all"] by (simp add: group_loop_lines)
  finally show ?thesis
    using m read_input_ok [OF assms(5), of mapf "[]"] by (simp add: mrsequential_def)
qed

definition example_fs :: FileSys where
  "example_fs = \<lparr>plain = [''f'' \<mapsto> ''ab, c'', ''g'' \<mapsto> ''c''], pairs = Map.empty, outlines = Map.empty\<rparr>"

definition example_tasks :: "Task list" where
  "example_tasks = [\<lparr>taskNum = 2, taskFile = [''g'']\<rparr>, \<lparr>taskNum = 0, taskFile = [''f'']\<rparr>]"

definition ascii_letter :: "char \<Rightarrow> bool" where
  "ascii_letter c \<longleftrightarrow> (65 \<le> (of_char c :: nat) \<and> (of_char c :: nat) \<le> 90) \<or>
     (97 \<le> (of_char c :: nat) \<and> (of_char c :: nat) \<le> 122)"

theorem distributed_equals_sequential_witness:
  "\<exists>fs1. map_phase (wc_Map ascii_letter) 2 example_fs example_tasks = Inr fs1 \<and>
     mset (concat (map (\<lambda>r. the (outlines (reduce_phase wc_Reduce (\<lambda>x. x) [0, 2] fs1 [0, 1]) (out_file r))) [0, 1]))
       = {#out_line ''ab'' ''1'', out_line ''c'' ''2''#}"
proof -
  let ?map = "wc_Map ascii_letter" and ?sort = "sort_key kvKey"
  have h: "distinct (map taskNum example_tasks)" "\<forall>t \<in> set example_tasks. 0 \<le> taskNum t"
    "mset (concat (map taskFile example_tasks)) = mset [''f'', ''g'']"
    "set [''f'', ''g''] \<subseteq> dom (plain example_fs)" "mset [0, 2] = mset (map taskNum example_tasks)"
    "[0, 1] = map int [0..<nat 2]"
    by (simp_all add: example_tasks_def example_fs_def numeral_2_eq_2)
  have u: "list_all utf8_pair (emitted ?map (plain example_fs) [''f'', ''g''])" by code_simp
  have s: "\<forall>kvs. mset (?sort kvs) = mset kvs \<and> sorted (map kvKey (?sort kvs))" by simp
  obtain fs1 fs2 l where r: "map_phase ?map 2 example_fs example_tasks = Inr fs1"
    "mrsequential ?sort ?map wc_Reduce example_fs [''f'', ''g''] = Inr fs2" "outlines fs2 ''mr-out-0'' = Some l"
    "mset (concat (map (\<lambda>r. the (outlines (reduce_phase wc_Reduce (\<lambda>x. x) [0, 2] fs1 [0, 1]) (out_file r))) [0, 1]))
       = mset l"
    using distributed_equals_sequential [OF _ h wc.order_insensitive_axioms _ s u, of "\<lambda>x. x"]
    by auto
  have "mapG (\<lambda>fs. the (outlines fs ''mr-out-0'')) (mrsequential ?sort ?map wc_Reduce example_fs [''f'', ''g''])
      = Inr [out_line ''ab'' ''1'', out_line ''c'' ''2'']"
    by code_simp
  with r(2,3) have "l = [out_line ''ab'' ''1'', out_line ''c'' ''2'']" by simp
  with r(1,4) show ?thesis by simp
qed

lemma FieldsFunc_words:
  "concat (FieldsFunc sep s) = filter (\<lambda>c. \<not> sep c) s \<and> (\<forall>w \<in> set (FieldsFunc sep s). w \<noteq> [] \<and> (\<forall>c \<in> set w. \<not> sep c))"
proof (induction sep s rule: FieldsFunc.induct)
  case (1 sep s)
  show ?case
  proof (cases "dropWhile sep s")
    case Nil
    have "FieldsFunc sep s = []" by (subst FieldsFunc.simps) (simp add: Nil)
    then show ?thesis using Nil by (simp add: dropWhile_eq_Nil_conv filter_empty_conv)
  next
    case (Cons c cs)
    let ?w = "takeWhile (\<lambda>x. \<not> sep x) cs" and ?r = "dropWhile (\<lambda>x. \<not> sep x) cs"
    have ff: "FieldsFunc sep s = (c # ?w) # FieldsFunc sep ?r" by (subst FieldsFunc.simps) (simp add: Cons)
    have c: "\<not> sep c" using Cons hd_dropWhile [of sep s] by auto
    have "filter (\<lambda>x. \<not> sep x) (takeWhile sep s) = []" by (auto simp: filter_empty_conv dest: set_takeWhileD)
    then have "filter (\<lambda>x. \<not> sep x) s = filter (\<lambda>x. \<not> sep x) (dropWhile sep s)"
      using filter_append [of "\<lambda>x. \<not> sep x" "takeWhile sep s" "dropWhile sep s"] by simp
    also have "\<dots> = c # filter (\<lambda>x. \<not> sep x) (?w @ ?r)" using Cons c by simp
    also have "\<dots> = c # ?w @ filter (\<lambda>x. \<not> sep x) ?r"
    proof -
      have "filter (\<lambda>x. \<not> sep x) ?w = ?w" by (auto simp: filter_id_conv dest: set_takeWhileD)
      then show ?thesis by (simp only: filter_append)
    qed
    finally have letters: "filter (\<lambda>x. \<not> sep x) s = c # ?w @ filter (\<lambda>x. \<not> sep x) ?r" .
    have w: "\<forall>x \<in> set (c # ?w). \<not> sep x" using c by (auto dest: set_takeWhileD)
    have IH: "concat (FieldsFunc sep ?r) = filter (\<lambda>x. \<not> sep x) ?r"
      "\<forall>v \<in> set (FieldsFunc sep ?r). v \<noteq> [] \<and> (\<forall>x \<in> set v. \<not> sep x)"
      using 1 [OF Cons] by blast+
    show ?thesis unfolding ff letters
    proof
      show "concat ((c # ?w) # FieldsFunc sep ?r) = c # ?w @ filter (\<lambda>x. \<not> sep x) ?r"
        by (simp only: concat.simps IH(1) append_Cons)
      show "\<forall>v \<in> set ((c # ?w) # FieldsFunc sep ?r). v \<noteq> [] \<and> (\<forall>x \<in> set v. \<not> sep x)"
      proof
        fix v assume "v \<in> set ((c # ?w) # FieldsFunc sep ?r)"
        then have "v = c # ?w \<or> v \<in> set (FieldsFunc sep ?r)" by (rule set_ConsD)
        then show "v \<noteq> [] \<and> (\<forall>x \<in> set v. \<not> sep x)"
        proof
          assume v: "v = c # ?w"
          show ?thesis unfolding v using w by (rule conjI [OF list.distinct(2)])
        qed (rule bspec [OF IH(2)])
      qed
    qed
  qed
qed

text \<open>
  The word count's map function emits the words and nothing else: the keys, joined, are the
  letters of the contents in order, every key is a word of one or more letters, and every value
  is the string 1.
\<close>

lemma wc_Map_words:
  "concat (map kvKey (wc_Map isLetter filename contents)) = filter isLetter contents \<and>
   (\<forall>kv \<in> set (wc_Map isLetter filename contents).
      kvKey kv \<noteq> [] \<and> (\<forall>c \<in> set (kvKey kv). isLetter c) \<and> kvValue kv = ''1'')"
  using FieldsFunc_words [of "\<lambda>r. \<not> isLetter r" contents] by (auto simp: wc_Map_def comp_def)

lemma wc_Map_words_witness:
  "concat (map kvKey (wc_Map ascii_letter ''f'' ''ab, c'')) = ''abc'' \<and>
   kvValue (hd (wc_Map ascii_letter ''f'' ''ab, c'')) = ''1''"
proof -
  have "filter ascii_letter ''ab, c'' = ''abc''" by code_simp
  moreover have "wc_Map ascii_letter ''f'' ''ab, c'' \<noteq> []" by code_simp
  ultimately show ?thesis using wc_Map_words [of ascii_letter "''f''" "''ab, c''"] by (metis hd_in_set)
qed

end
