(* ===== verification/Lin_Bitset.thy ===== *)
theory Lin_Bitset
  imports Prelude "HOL-Library.Word"
begin

unbundle bit_operations_syntax

text \<open>
  The bit set of the linearizability checker, \<^verbatim>\<open>linearizability/bitset.go\<close>: a slice of 64-bit
  words. A position is a natural number; a position outside the slice panics, as the index
  expression of the source does. The population count is the source's, with its masks, shifts and
  its wrapping multiplication, and is proved equal to counting bits.
\<close>

section \<open>Operations\<close>

type_synonym bitset = "64 word list"

definition newBitset :: "nat \<Rightarrow> bitset" where
  "newBitset bits =
     (let extra = (if bits mod 64 \<noteq> 0 then 1 else 0); chunks = bits div 64 + extra
      in replicate chunks 0)"

definition bitset_clone :: "bitset \<Rightarrow> bitset" where
  "bitset_clone b = b"

definition bitsetIndex :: "nat \<Rightarrow> nat \<times> nat" where
  "bitsetIndex pos = (pos div 64, pos mod 64)"

definition bitset_set :: "bitset \<Rightarrow> nat \<Rightarrow> bitset go" where
  "bitset_set b pos =
     (let (major, minor) = bitsetIndex pos
      in bindG (go_index b (int major)) (\<lambda>v. go_update b (int major) (v OR push_bit minor 1)))"

definition bitset_clear :: "bitset \<Rightarrow> nat \<Rightarrow> bitset go" where
  "bitset_clear b pos =
     (let (major, minor) = bitsetIndex pos
      in bindG (go_index b (int major)) (\<lambda>v. go_update b (int major) (v AND NOT (push_bit minor 1))))"

definition bitset_get :: "bitset \<Rightarrow> nat \<Rightarrow> bool go" where
  "bitset_get b pos =
     (let (major, minor) = bitsetIndex pos
      in mapG (\<lambda>v. v AND push_bit minor 1 \<noteq> 0) (go_index b (int major)))"

definition popcnt_word :: "64 word \<Rightarrow> 64 word" where
  "popcnt_word v0 =
     (let v1 = (v0 AND 0x5555555555555555) + drop_bit 1 (v0 AND 0xAAAAAAAAAAAAAAAA);
          v2 = (v1 AND 0x3333333333333333) + drop_bit 2 (v1 AND 0xCCCCCCCCCCCCCCCC);
          v3 = (v2 AND 0x0F0F0F0F0F0F0F0F) + drop_bit 4 (v2 AND 0xF0F0F0F0F0F0F0F0);
          v4 = v3 * 0x0101010101010101
      in drop_bit 56 v4 AND 0xFF)"

definition popcnt :: "bitset \<Rightarrow> 64 word" where
  "popcnt b = foldl (\<lambda>total v. total + popcnt_word v) 0 b"

definition bitset_hash :: "bitset \<Rightarrow> 64 word" where
  "bitset_hash b = foldl (\<lambda>h v. h XOR v) (popcnt b) b"

fun equals_from :: "nat \<Rightarrow> bitset \<Rightarrow> bitset \<Rightarrow> bool" where
  "equals_from i [] b2 = True"
| "equals_from i (v # vs) b2 = (if v \<noteq> b2 ! i then False else equals_from (Suc i) vs b2)"

definition bitset_equals :: "bitset \<Rightarrow> bitset \<Rightarrow> bool" where
  "bitset_equals b b2 = (if length b \<noteq> length b2 then False else equals_from 0 b b2)"

section \<open>A bit set is a set\<close>

definition bits_of :: "bitset \<Rightarrow> nat set" where
  "bits_of b = {p. p div 64 < length b \<and> bit (b ! (p div 64)) (p mod 64)}"

lemma newBitset_covers: "p < n \<Longrightarrow> p div 64 < length (newBitset n)"
proof -
  assume "p < n"
  moreover have "n = 64 * (n div 64) + n mod 64" "p = 64 * (p div 64) + p mod 64" by simp_all
  ultimately show ?thesis by (cases "n mod 64 = 0") (simp_all add: newBitset_def Let_def less_Suc_eq_le div_le_mono)
qed

lemma newBitset_empty: "bits_of (newBitset n) = {}"
  by (auto simp: bits_of_def newBitset_def Let_def)

lemma bit_pow: "bit (2 ^ k :: 64 word) j \<longleftrightarrow> j = k \<and> k < 64"
  by (auto simp: bit_exp_iff possible_bit_word)

lemma bitset_set_ok:
  assumes "p div 64 < length b"
  shows "\<exists>b'. bitset_set b p = Inr b' \<and> length b' = length b \<and> bits_of b' = insert p (bits_of b)"
proof -
  let ?b = "b[p div 64 := b ! (p div 64) OR push_bit (p mod 64) 1]"
  have "bitset_set b p = Inr ?b"
    using assms by (simp add: bitset_set_def bitsetIndex_def go_update_def)
  moreover have "q \<in> bits_of ?b \<longleftrightarrow> q \<in> insert p (bits_of b)" for q
  proof (cases "q div 64 = p div 64")
    case True
    have "(q mod 64 = p mod 64) = (q = p)" using True by (metis div_mult_mod_eq)
    then show ?thesis using True assms by (auto simp: bits_of_def bit_or_iff bit_pow)
  qed (auto simp: bits_of_def)
  ultimately show ?thesis by auto
qed

lemma bitset_clear_ok:
  assumes "p div 64 < length b"
  shows "\<exists>b'. bitset_clear b p = Inr b' \<and> length b' = length b \<and> bits_of b' = bits_of b - {p}"
proof -
  let ?b = "b[p div 64 := b ! (p div 64) AND NOT (push_bit (p mod 64) 1)]"
  have "bitset_clear b p = Inr ?b"
    using assms by (simp add: bitset_clear_def bitsetIndex_def go_update_def)
  moreover have "q \<in> bits_of ?b \<longleftrightarrow> q \<in> bits_of b - {p}" for q
  proof (cases "q div 64 = p div 64")
    case True
    have "(q mod 64 = p mod 64) = (q = p)" using True by (metis div_mult_mod_eq)
    then show ?thesis using True assms
      by (auto simp: bits_of_def bit_and_iff bit_not_iff bit_pow possible_bit_word)
  qed (auto simp: bits_of_def)
  ultimately show ?thesis by auto
qed

lemma and_pow: "v AND 2 ^ k \<noteq> 0 \<longleftrightarrow> bit v k" if "k < 64" for v :: "64 word"
proof -
  have "v AND 2 ^ k = 0 \<longleftrightarrow> (\<forall>j < 64. \<not> (bit v j \<and> bit (2 ^ k :: 64 word) j))"
    by (subst bit_eq_iff) (auto simp: bit_and_iff possible_bit_word)
  then show ?thesis using that by (auto simp: bit_pow)
qed

lemma bitset_get_ok:
  "p div 64 < length b \<Longrightarrow> bitset_get b p = Inr (p \<in> bits_of b)"
  by (simp add: bitset_get_def bitsetIndex_def and_pow bits_of_def)

lemma equals_from_drop:
  "i + length vs = length b2 \<Longrightarrow> equals_from i vs b2 \<longleftrightarrow> vs = drop i b2"
proof (induction vs arbitrary: i)
  case (Cons v vs)
  then have "drop i b2 = b2 ! i # drop (Suc i) b2" by (simp add: Cons_nth_drop_Suc)
  then show ?case using Cons by auto
qed simp

lemma bitset_equals_iff: "bitset_equals b b2 \<longleftrightarrow> b = b2"
  using equals_from_drop [of 0 b b2] by (auto simp: bitset_equals_def)

text \<open>Two bit sets of one length with the same members are equal.\<close>

lemma bits_of_inj:
  assumes "length b = length b'" "bits_of b = bits_of b'"
  shows "b = b'"
proof (rule nth_equalityI)
  fix i assume i: "i < length b"
  show "b ! i = b' ! i"
  proof (rule bit_word_eqI)
    fix k assume "k < LENGTH(64)"
    then have k: "(64 * i + k) div 64 = i" "(64 * i + k) mod 64 = k" by simp_all
    have "64 * i + k \<in> bits_of b \<longleftrightarrow> 64 * i + k \<in> bits_of b'" using assms(2) by simp
    then show "bit (b ! i) k \<longleftrightarrow> bit (b' ! i) k" using i assms(1) k by (simp add: bits_of_def)
  qed
qed (use assms in simp)

section \<open>Counting bits\<close>

text \<open>
  A word as a list of fields of \<open>w\<close> bits, least significant first. One line of the source adds
  neighbouring fields: it maps a list of fields to the list of the sums of its pairs, in fields
  of twice the width.
\<close>

fun val :: "nat \<Rightarrow> int list \<Rightarrow> int" where
  "val w [] = 0"
| "val w (x # xs) = x + 2 ^ w * val w xs"

fun pair_sums :: "int list \<Rightarrow> int list" where
  "pair_sums (x # y # zs) = (x + y) # pair_sums zs"
| "pair_sums xs = xs"

fun low_mask :: "nat \<Rightarrow> nat \<Rightarrow> int" where
  "low_mask w 0 = 0"
| "low_mask w (Suc k) = (2 ^ w - 1) + 2 ^ (2 * w) * low_mask w k"

definition add_fields :: "nat \<Rightarrow> int \<Rightarrow> int \<Rightarrow> int" where
  "add_fields w m v = (v AND m) + drop_bit w (v AND (2 ^ w * m))"

lemma and_split:
  fixes a b c d :: int
  assumes "0 \<le> a" "a < 2 ^ w" "0 \<le> c" "c < 2 ^ w"
  shows "(a + 2 ^ w * b) AND (c + 2 ^ w * d) = (a AND c) + 2 ^ w * (b AND d)"
proof -
  let ?x = "a + 2 ^ w * b" and ?y = "c + 2 ^ w * d"
  have t: "take_bit w ?x = a" "take_bit w ?y = c" using assms by (simp_all add: take_bit_eq_mod)
  have e: "drop_bit w ?x = b" "drop_bit w ?y = d" using assms by (simp_all add: drop_bit_eq_div)
  have "?x AND ?y = push_bit w (drop_bit w (?x AND ?y)) + take_bit w (?x AND ?y)" by (simp only: bits_ident)
  also have "\<dots> = push_bit w (b AND d) + (a AND c)" by (simp only: drop_bit_and take_bit_and t e)
  finally show ?thesis by (simp add: push_bit_eq_mult)
qed

lemma and_low: "0 \<le> a \<Longrightarrow> a < 2 ^ w \<Longrightarrow> (a AND (2 ^ w - 1)) = (a :: int)"
  by (simp flip: mask_eq_exp_minus_1 take_bit_eq_mask add: take_bit_int_eq_self)

lemma and_multiple:
  fixes v m :: int
  shows "v AND (2 ^ w * m) = 2 ^ w * (drop_bit w v AND m)"
proof -
  have "v AND (2 ^ w * m) = (take_bit w v + 2 ^ w * drop_bit w v) AND (0 + 2 ^ w * m)"
    using bits_ident [of w v] by (simp add: push_bit_eq_mult mult.commute add.commute)
  also have "\<dots> = 2 ^ w * (drop_bit w v AND m)" by (subst and_split) simp_all
  finally show ?thesis .
qed

lemma add_fields_alt: "add_fields w m v = (v AND m) + (drop_bit w v AND m)"
  by (simp add: add_fields_def and_multiple drop_bit_eq_div)

lemma add_fields_step:
  assumes "0 \<le> x" "x < 2 ^ w" "0 \<le> y" "y < 2 ^ w"
  shows "add_fields w ((2 ^ w - 1) + 2 ^ (2 * w) * m) (x + 2 ^ w * (y + 2 ^ w * v)) =
    (x + y) + 2 ^ (2 * w) * add_fields w m v"
proof -
  let ?m = "(2 ^ w - 1) + 2 ^ (2 * w) * m"
  have m: "?m = (2 ^ w - 1) + 2 ^ w * (0 + 2 ^ w * m)"
    by (simp add: mult_2 power_add mult.assoc)
  have 1: "(x + 2 ^ w * (y + 2 ^ w * v)) AND ?m = x + 2 ^ w * (2 ^ w * (v AND m))"
    unfolding m using assms by (simp only: and_split and_low) simp
  have d: "drop_bit w (x + 2 ^ w * (y + 2 ^ w * v)) = y + 2 ^ w * v"
    using assms by (simp add: drop_bit_eq_div)
  have v: "v = take_bit w v + 2 ^ w * drop_bit w v"
    using bits_ident [of w v] by (simp add: push_bit_eq_mult mult.commute add.commute)
  have 2: "(y + 2 ^ w * v) AND ?m = y + 2 ^ w * (2 ^ w * (drop_bit w v AND m))"
    unfolding m using assms by (simp only: and_split and_low) (simp only: add_0 and_multiple)
  show ?thesis unfolding add_fields_alt [of w ?m] 1 d 2
    by (simp add: add_fields_alt mult_2 power_add distrib_left mult.assoc)
qed

text \<open>The fields of a list are small enough for one more addition.\<close>

lemma add_fields_val:
  assumes "length xs = 2 * k" "\<forall>x \<in> set xs. 0 \<le> x \<and> x < 2 ^ w"
  shows "add_fields w (low_mask w k) (val w xs) = val (2 * w) (pair_sums xs)"
  using assms
proof (induction k arbitrary: xs)
  case 0
  then show ?case by (simp add: add_fields_def)
next
  case (Suc k)
  then obtain x y zs where xs: "xs = x # y # zs" by (metis length_Suc_conv mult_Suc_right add_2_eq_Suc)
  then show ?case using Suc add_fields_step [of x w y "low_mask w k" "val w zs"] by simp
qed

lemma pair_sums_length: "length xs = 2 * k \<Longrightarrow> length (pair_sums xs) = k"
proof (induction k arbitrary: xs)
  case (Suc k)
  then obtain x y zs where xs: "xs = x # y # zs" by (metis length_Suc_conv mult_Suc_right add_2_eq_Suc)
  then show ?case using Suc by simp
qed simp

lemma pair_sums_sum: "sum_list (pair_sums xs) = sum_list xs"
  by (induction xs rule: pair_sums.induct) simp_all

lemma pair_sums_bound:
  "length xs = 2 * k \<Longrightarrow> \<forall>x \<in> set xs. 0 \<le> x \<and> x \<le> c \<Longrightarrow>
   \<forall>x \<in> set (pair_sums xs). 0 \<le> x \<and> x \<le> 2 * c"
proof (induction k arbitrary: xs)
  case (Suc k)
  then obtain x y zs where xs: "xs = x # y # zs" by (metis length_Suc_conv mult_Suc_right add_2_eq_Suc)
  then show ?case using Suc by simp
qed simp

lemma val_bound:
  "\<forall>x \<in> set xs. 0 \<le> x \<and> x < 2 ^ w \<Longrightarrow> 0 \<le> val w xs \<and> val w xs < 2 ^ (w * length xs)"
proof (induction xs)
  case (Cons x xs)
  then have IH: "0 \<le> val w xs" "val w xs + 1 \<le> 2 ^ (w * length xs)" and x: "0 \<le> x" "x < 2 ^ w" by simp_all
  have "x + 2 ^ w * val w xs < 2 ^ w + 2 ^ w * val w xs" using x by simp
  also have "\<dots> = 2 ^ w * (val w xs + 1)" by (simp add: algebra_simps)
  also have "\<dots> \<le> 2 ^ w * 2 ^ (w * length xs)" using IH(2) by simp
  finally show ?case using IH(1) x by (simp add: power_add)
qed simp

definition word_bits :: "64 word \<Rightarrow> int list" where
  "word_bits v = map (\<lambda>i. of_bool (bit v i)) [0..<64]"

lemma take_64 [simp]: "take_bit 64 (uint (v :: 64 word)) = uint v"
  using uint_bounded [of v] by (intro take_bit_int_eq_self) simp_all

lemma word_bits_val: "uint v = val 1 (word_bits v)"
proof -
  have h: "val 1 (map (\<lambda>i. of_bool (P i)) is) = horner_sum of_bool 2 (map P is)" for P and "is" :: "nat list"
    by (induction "is") simp_all
  have "val 1 (word_bits v) = horner_sum of_bool 2 (map (bit v) [0..<64])" unfolding word_bits_def by (rule h)
  also have "map (bit v) [0..<64] = map (bit (uint v)) [0..<64]" by (simp add: bit_uint_iff)
  also have "horner_sum of_bool 2 \<dots> = take_bit 64 (uint v)" by (rule horner_sum_bit_eq_take_bit)
  finally show ?thesis by simp
qed

text \<open>One line of the source on a word whose fields are small.\<close>

lemma add_fields_word:
  fixes v m m' :: "64 word"
  assumes v: "uint v = val w xs" and len: "length xs = 2 * k" "2 * w * k = 64"
    and c: "\<forall>x \<in> set xs. 0 \<le> x \<and> x \<le> c" "2 * c < 2 ^ (2 * w)" "c < 2 ^ w"
    and m: "uint m = low_mask w k" "uint m' = 2 ^ w * low_mask w k"
  shows "uint ((v AND m) + drop_bit w (v AND m')) = val (2 * w) (pair_sums xs)"
proof -
  have b: "\<forall>x \<in> set xs. 0 \<le> x \<and> x < 2 ^ w" using c by auto
  have "\<forall>x \<in> set (pair_sums xs). 0 \<le> x \<and> x < 2 ^ (2 * w)"
    using pair_sums_bound [OF len(1) c(1)] c(2) by fastforce
  from val_bound [OF this] have r: "0 \<le> val (2 * w) (pair_sums xs)" "val (2 * w) (pair_sums xs) < 2 ^ 64"
    using pair_sums_length [OF len(1)] len(2) by simp_all
  have "uint (drop_bit w (v AND m')) = drop_bit w (uint v AND uint m')"
    by (simp add: unsigned_drop_bit_eq unsigned_and_eq)
  then have "uint ((v AND m) + drop_bit w (v AND m')) =
      (add_fields w (low_mask w k) (uint v)) mod 2 ^ 64"
    by (simp add: uint_word_ariths unsigned_and_eq add_fields_def m)
  also have "\<dots> = val (2 * w) (pair_sums xs)"
    using add_fields_val [OF len(1) b] r by (simp add: v)
  finally show ?thesis .
qed

text \<open>The multiplication adds the eight bytes up in the top one.\<close>

lemma sum_bytes:
  assumes "length xs = 8" "\<forall>x \<in> set xs. 0 \<le> x \<and> x \<le> 8"
  shows "(val 8 xs * 0x0101010101010101) mod 2 ^ 64 div 2 ^ 56 = sum_list xs"
proof -
  obtain a b c d e f g h where xs: "xs = [a, b, c, d, e, f, g, h]"
    using assms(1) by (auto simp: length_Suc_conv numeral_eq_Suc)
  have r: "0 \<le> a" "a \<le> 8" "0 \<le> b" "b \<le> 8" "0 \<le> c" "c \<le> 8" "0 \<le> d" "d \<le> 8"
    "0 \<le> e" "e \<le> 8" "0 \<le> f" "f \<le> 8" "0 \<le> g" "g \<le> 8" "0 \<le> h" "h \<le> 8"
    using assms(2) by (simp_all add: xs)
  define low where "low = a + 2^8 * (a + b) + 2^16 * (a + b + c) + 2^24 * (a + b + c + d)
    + 2^32 * (a + b + c + d + e) + 2^40 * (a + b + c + d + e + f) + 2^48 * (a + b + c + d + e + f + g)"
  define high where "high = (b + c + d + e + f + g + h) + 2^8 * (c + d + e + f + g + h)
    + 2^16 * (d + e + f + g + h) + 2^24 * (e + f + g + h) + 2^32 * (f + g + h) + 2^40 * (g + h) + 2^48 * h"
  let ?s = "a + b + c + d + e + f + g + h"
  have "val 8 xs * 0x0101010101010101 = (low + 2 ^ 56 * ?s) + 2 ^ 64 * high"
    by (simp add: xs low_def high_def)
  moreover have "0 \<le> low" "low < 2 ^ 56" using r by (simp_all add: low_def)
  moreover have "0 \<le> ?s" "?s \<le> 64" using r by simp_all
  ultimately have "(val 8 xs * 0x0101010101010101) mod 2 ^ 64 = low + 2 ^ 56 * ?s" by simp
  then show ?thesis using \<open>0 \<le> low\<close> \<open>low < 2 ^ 56\<close> by (simp add: xs)
qed

lemma word_bits_card: "sum_list (word_bits v) = int (card {i. i < 64 \<and> bit v i})"
proof -
  have "sum_list (word_bits v) = (\<Sum>i \<in> {0..<64}. of_bool (bit v i))"
    by (simp add: word_bits_def interv_sum_list_conv_sum_set_nat)
  also have "\<dots> = int (card ({0..<64} \<inter> {i. bit v i}))" by (simp add: sum_of_bool_eq)
  also have "{0..<64} \<inter> {i. bit v i} = {i. i < 64 \<and> bit v i}" by auto
  finally show ?thesis .
qed

lemma uint_drop_bit: "uint (drop_bit n (w :: 64 word)) = uint w div 2 ^ n"
  by (simp add: unsigned_drop_bit_eq drop_bit_eq_div [symmetric] take_bit_drop_bit)

lemma popcnt_word_sum: "uint (popcnt_word v) = sum_list (word_bits v)"
proof -
  define v1 where "v1 = (v AND 0x5555555555555555) + drop_bit 1 (v AND 0xAAAAAAAAAAAAAAAA)"
  define v2 where "v2 = (v1 AND 0x3333333333333333) + drop_bit 2 (v1 AND 0xCCCCCCCCCCCCCCCC)"
  define v3 where "v3 = (v2 AND 0x0F0F0F0F0F0F0F0F) + drop_bit 4 (v2 AND 0xF0F0F0F0F0F0F0F0)"
  let ?x0 = "word_bits v" let ?x1 = "pair_sums ?x0" let ?x2 = "pair_sums ?x1" let ?x3 = "pair_sums ?x2"
  have l: "length ?x0 = 2 * 32" by (simp add: word_bits_def)
  have l1: "length ?x1 = 2 * 16" using pair_sums_length [OF l] by simp
  have l2: "length ?x2 = 2 * 8" using pair_sums_length [OF l1] by simp
  have l3: "length ?x3 = 8" using pair_sums_length [OF l2] by simp
  have b: "\<forall>x \<in> set ?x0. 0 \<le> x \<and> x \<le> 1" by (auto simp: word_bits_def)
  have b1: "\<forall>x \<in> set ?x1. 0 \<le> x \<and> x \<le> 2" using pair_sums_bound [OF l b] by simp
  have b2: "\<forall>x \<in> set ?x2. 0 \<le> x \<and> x \<le> 4" using pair_sums_bound [OF l1 b1] by simp
  have b3: "\<forall>x \<in> set ?x3. 0 \<le> x \<and> x \<le> 8" using pair_sums_bound [OF l2 b2] by simp
  have m1: "low_mask 1 32 = 0x5555555555555555" and m2: "low_mask 2 16 = 0x3333333333333333"
    and m3: "low_mask 4 8 = 0x0F0F0F0F0F0F0F0F" by code_simp+
  have 1: "uint v1 = val 2 ?x1"
    unfolding v1_def using add_fields_word [OF word_bits_val l _ b, of "0x5555555555555555" "0xAAAAAAAAAAAAAAAA"]
    by (simp add: m1 [unfolded One_nat_def])
  have 2: "uint v2 = val 4 ?x2"
    unfolding v2_def using add_fields_word [OF 1 l1 _ b1, of "0x3333333333333333" "0xCCCCCCCCCCCCCCCC"]
    by (simp add: m2)
  have 3: "uint v3 = val 8 ?x3"
    unfolding v3_def using add_fields_word [OF 2 l2 _ b2, of "0x0F0F0F0F0F0F0F0F" "0xF0F0F0F0F0F0F0F0"]
    by (simp add: m3)
  have sum: "sum_list ?x3 = sum_list ?x0" by (simp add: pair_sums_sum)
  have "uint (drop_bit 56 (v3 * 0x0101010101010101)) = uint (v3 * 0x0101010101010101) div 2 ^ 56"
    by (rule uint_drop_bit)
  also have "\<dots> = (val 8 ?x3 * 0x0101010101010101) mod 2 ^ 64 div 2 ^ 56"
    by (simp only: uint_word_ariths) (simp add: 3)
  also have "\<dots> = sum_list ?x0" using sum_bytes [OF l3 b3] sum by simp
  finally have t: "uint (drop_bit 56 (v3 * 0x0101010101010101)) = sum_list ?x0" .
  have "card {i. i < 64 \<and> bit v i} \<le> card {..<64 :: nat}" by (rule card_mono) auto
  then have "0 \<le> sum_list ?x0" "sum_list ?x0 \<le> 64" by (simp_all add: word_bits_card)
  then have "uint (drop_bit 56 (v3 * 0x0101010101010101) AND 0xFF) = sum_list ?x0"
    using and_low [of "sum_list ?x0" 8] by (simp add: unsigned_and_eq t)
  then show ?thesis by (simp add: popcnt_word_def Let_def v1_def v2_def v3_def)
qed

lemma bits_of_snoc: "bits_of (b @ [v]) = bits_of b \<union> (\<lambda>i. 64 * length b + i) ` {i. i < 64 \<and> bit v i}"
proof -
  have "p \<in> bits_of (b @ [v]) \<longleftrightarrow> p \<in> bits_of b \<or> p \<in> (\<lambda>i. 64 * length b + i) ` {i. i < 64 \<and> bit v i}" for p
  proof (cases "p div 64 = length b")
    case True
    then have "p = 64 * length b + p mod 64" by (metis mult_div_mod_eq)
    then show ?thesis using True by (auto simp: bits_of_def nth_append intro!: image_eqI [of _ _ "p mod 64"])
  next
    case False
    then have "p \<notin> (\<lambda>i. 64 * length b + i) ` {i. i < 64 \<and> bit v i}" by auto
    then show ?thesis using False by (auto simp: bits_of_def nth_append less_Suc_eq)
  qed
  then show ?thesis by blast
qed

lemma bits_of_less: "p \<in> bits_of b \<Longrightarrow> p < 64 * length b"
  by (auto simp: bits_of_def less_mult_imp_div_less dest: div_less_iff_less_mult [THEN iffD1, rotated])

lemma finite_bits_of: "finite (bits_of b)"
  using bits_of_less by (meson finite_nat_set_iff_bounded)

lemma popcnt_card: "uint (popcnt b) = int (card (bits_of b)) mod 2 ^ 64"
proof (induction b rule: rev_induct)
  case Nil
  then show ?case by (simp add: popcnt_def bits_of_def)
next
  case (snoc v b)
  let ?new = "(\<lambda>i. 64 * length b + i) ` {i. i < 64 \<and> bit v i}"
  have "card (bits_of (b @ [v])) = card (bits_of b) + card ?new"
    unfolding bits_of_snoc by (rule card_Un_disjoint) (auto simp: finite_bits_of dest: bits_of_less)
  also have "card ?new = card {i. i < 64 \<and> bit v i}" by (rule card_image) (simp add: inj_on_def)
  finally have c: "int (card (bits_of (b @ [v]))) = int (card (bits_of b)) + sum_list (word_bits v)"
    by (simp add: word_bits_card)
  have "popcnt (b @ [v]) = popcnt b + popcnt_word v" by (simp add: popcnt_def)
  then show ?case by (simp add: uint_word_ariths snoc popcnt_word_sum c mod_simps)
qed

section \<open>The interface of the checker\<close>

text \<open>
  What the checker relies on: inside a width, adding and removing positions never panics and acts
  on the set of members as on a set; and equality is equality of the sets.
\<close>

locale position_set =
  fixes add :: "'s \<Rightarrow> nat \<Rightarrow> 's go"
    and remove :: "'s \<Rightarrow> nat \<Rightarrow> 's go"
    and same :: "'s \<Rightarrow> 's \<Rightarrow> bool"
    and members :: "'s \<Rightarrow> nat set"
    and fits :: "nat \<Rightarrow> 's \<Rightarrow> bool"
  assumes add_ok: "fits n s \<Longrightarrow> p < n \<Longrightarrow> \<exists>s'. add s p = Inr s' \<and> fits n s' \<and> members s' = insert p (members s)"
    and remove_ok: "fits n s \<Longrightarrow> p < n \<Longrightarrow> \<exists>s'. remove s p = Inr s' \<and> fits n s' \<and> members s' = members s - {p}"
    and same_iff: "fits n s \<Longrightarrow> fits n s' \<Longrightarrow> same s s' \<longleftrightarrow> members s = members s'"
begin

lemma add_remove:
  assumes "fits n s" "p < n" "p \<notin> members s"
  shows "\<exists>s' s''. add s p = Inr s' \<and> remove s' p = Inr s'' \<and> same s'' s"
proof -
  obtain s' where s': "add s p = Inr s'" "fits n s'" "members s' = insert p (members s)"
    using add_ok assms by blast
  obtain s'' where "remove s' p = Inr s''" "fits n s''" "members s'' = members s' - {p}"
    using remove_ok s'(2) assms(2) by blast
  with s' assms show ?thesis using same_iff by auto
qed

end

definition bitset_fits :: "nat \<Rightarrow> bitset \<Rightarrow> bool" where
  "bitset_fits n b \<longleftrightarrow> length b = length (newBitset n)"

interpretation bitset: position_set bitset_set bitset_clear bitset_equals bits_of bitset_fits
proof
  fix n b p assume "bitset_fits n b" "p < n"
  then have "p div 64 < length b" using newBitset_covers by (simp add: bitset_fits_def)
  from bitset_set_ok [OF this] bitset_clear_ok [OF this] \<open>bitset_fits n b\<close>
  show "\<exists>b'. bitset_set b p = Inr b' \<and> bitset_fits n b' \<and> bits_of b' = insert p (bits_of b)"
    "\<exists>b'. bitset_clear b p = Inr b' \<and> bitset_fits n b' \<and> bits_of b' = bits_of b - {p}"
    by (auto simp: bitset_fits_def)
next
  fix n b b' assume "bitset_fits n b" "bitset_fits n b'"
  then show "bitset_equals b b' \<longleftrightarrow> bits_of b = bits_of b'"
    using bits_of_inj by (auto simp: bitset_equals_iff bitset_fits_def)
qed

section \<open>Properties\<close>

text \<open>
  The population count counts. The masks, shifts and the wrapping multiplication of \<^verbatim>\<open>popcnt\<close>
  compute, for every word, the number of its bits that are set, and for a whole bit set the number
  of its members modulo 2^64.
\<close>

lemma popcnt_counts:
  "uint (popcnt_word v) = int (card {i. i < 64 \<and> bit v i}) \<and>
   uint (popcnt b) = int (card (bits_of b)) mod 2 ^ 64"
  by (simp add: popcnt_word_sum word_bits_card popcnt_card)

text \<open>
  C34: A bit set behaves as a set. In a bit set made for \<open>n\<close> positions, setting and clearing a position
  below \<open>n\<close> never panics and adds or removes exactly that position, reading one tells whether it is a
  member, and \<^verbatim>\<open>equals\<close> holds exactly for bit sets with the same members.
\<close>

theorem bitset_is_a_set:
  assumes "bitset_fits n b" and "bitset_fits n b2" and "p < n"
  shows "(\<exists>b'. bitset_set b p = Inr b' \<and> bitset_fits n b' \<and> bits_of b' = insert p (bits_of b)) \<and>
    (\<exists>b'. bitset_clear b p = Inr b' \<and> bitset_fits n b' \<and> bits_of b' = bits_of b - {p}) \<and>
    bitset_get b p = Inr (p \<in> bits_of b) \<and>
    (bitset_equals b b2 \<longleftrightarrow> bits_of b = bits_of b2) \<and> bits_of (newBitset n) = {}"
proof -
  have "p div 64 < length b" using newBitset_covers [OF assms(3)] assms(1) by (simp add: bitset_fits_def)
  then show ?thesis
    using bitset.add_ok [OF assms(1,3)] bitset.remove_ok [OF assms(1,3)] bitset.same_iff [OF assms(1,2)]
    by (simp add: bitset_get_ok newBitset_empty)
qed

theorem bitset_is_a_set_witness:
  "bitset_get (newBitset 70) 65 = Inr False \<and>
   (\<exists>b'. bitset_set (newBitset 70) 65 = Inr b' \<and> bits_of b' = {65})"
proof -
  have "bitset_fits 70 (newBitset 70)" by (simp add: bitset_fits_def)
  from bitset_is_a_set [OF this this, of 65] show ?thesis by auto
qed

end
