(* ===== verification/Lin_Model.thy ===== *)
theory Lin_Model
  imports Prelude "HOL-Library.Word"
begin

text \<open>
  The vocabulary of the linearizability checker, \<^verbatim>\<open>linearizability/model.go\<close> and
  \<^verbatim>\<open>linearizability/models.go\<close>: operations, events, the record of functions that specify a
  system, and the specification of one key of the key/value store. A value of type
  \<^verbatim>\<open>interface{}\<close> is an optional value, \<open>None\<close> being \<^verbatim>\<open>nil\<close>; states are values of a type variable;
  a function field that may be \<^verbatim>\<open>nil\<close> is optional.
\<close>

section \<open>model.go\<close>

type_synonym 'v iface = "'v option"

record 'v Operation =
  Input :: "'v iface"
  Call :: int
  Output :: "'v iface"
  Return :: int

datatype EventKind = CallEvent | ReturnEvent

record 'v Event =
  Kind :: EventKind
  Value :: "'v iface"
  Id :: nat

record ('v, 's) Model =
  Partition :: "('v Operation list \<Rightarrow> 'v Operation list list go) option"
  PartitionEvent :: "('v Event list \<Rightarrow> 'v Event list list go) option"
  Init :: 's
  Step :: "'s \<Rightarrow> 'v iface \<Rightarrow> 'v iface \<Rightarrow> (bool \<times> 's) go"
  Equal :: "('s \<Rightarrow> 's \<Rightarrow> bool) option"

definition NoPartition :: "'v Operation list \<Rightarrow> 'v Operation list list go" where
  "NoPartition history = Inr [history]"

definition NoPartitionEvent :: "'v Event list \<Rightarrow> 'v Event list list go" where
  "NoPartitionEvent history = Inr [history]"

definition ShallowEqual :: "'s \<Rightarrow> 's \<Rightarrow> bool" where
  "ShallowEqual state1 state2 \<longleftrightarrow> state1 = state2"

text \<open>\<^verbatim>\<open>fillDefault\<close> of \<^verbatim>\<open>linearizability.go\<close> replaces the missing functions.\<close>

definition fillDefault :: "('v, 's) Model \<Rightarrow> ('v, 's) Model" where
  "fillDefault model =
     model\<lparr>Partition := (case Partition model of None \<Rightarrow> Some NoPartition | Some f \<Rightarrow> Some f),
           PartitionEvent := (case PartitionEvent model of None \<Rightarrow> Some NoPartitionEvent | Some f \<Rightarrow> Some f),
           Equal := (case Equal model of None \<Rightarrow> Some ShallowEqual | Some f \<Rightarrow> Some f)\<rparr>"

section \<open>models.go: one key of the store\<close>

record KvInput =
  kvOp :: "8 word"
  kvKey :: string
  kvValue :: string

record KvOutput =
  outValue :: string

text \<open>The two dynamic types that the key/value model asserts.\<close>

datatype kv_value = KvIn KvInput | KvOut KvOutput

fun asKvInput :: "kv_value iface \<Rightarrow> KvInput go" where
  "asKvInput (Some (KvIn i)) = Inr i"
| "asKvInput _ = Inl TypeAssertion"

fun asKvOutput :: "kv_value iface \<Rightarrow> KvOutput go" where
  "asKvOutput (Some (KvOut r)) = Inr r"
| "asKvOutput _ = Inl TypeAssertion"

text \<open>
  The map from keys to the operations on them, as an association list; Go iterates over it in an
  order of its own, which is the argument \<open>order\<close>.
\<close>

fun add_to_key :: "string \<Rightarrow> 'a \<Rightarrow> (string \<times> 'a list) list \<Rightarrow> (string \<times> 'a list) list" where
  "add_to_key key v [] = [(key, [v])]"
| "add_to_key key v ((k, vs) # m) = (if k = key then (k, vs @ [v]) # m else (k, vs) # add_to_key key v m)"

fun kv_partition_loop ::
  "(string \<times> kv_value Operation list) list \<Rightarrow> kv_value Operation list
   \<Rightarrow> (string \<times> kv_value Operation list) list go" where
  "kv_partition_loop m [] = Inr m"
| "kv_partition_loop m (v # history) =
     bindG (asKvInput (Input v)) (\<lambda>i. kv_partition_loop (add_to_key (kvKey i) v m) history)"

definition kv_Partition ::
  "((string \<times> kv_value Operation list) list \<Rightarrow> (string \<times> kv_value Operation list) list)
   \<Rightarrow> kv_value Operation list \<Rightarrow> kv_value Operation list list go" where
  "kv_Partition order history = mapG (\<lambda>m. map snd (order m)) (kv_partition_loop [] history)"

definition kv_Step :: "string \<Rightarrow> kv_value iface \<Rightarrow> kv_value iface \<Rightarrow> (bool \<times> string) go" where
  "kv_Step st input output =
     bindG (asKvInput input) (\<lambda>inp.
     bindG (asKvOutput output) (\<lambda>out.
       if kvOp inp = 0 then Inr (outValue out = st, st)
       else if kvOp inp = 1 then Inr (True, kvValue inp)
       else Inr (True, st @ kvValue inp)))"

definition KvModel ::
  "((string \<times> kv_value Operation list) list \<Rightarrow> (string \<times> kv_value Operation list) list)
   \<Rightarrow> (kv_value, string) Model" where
  "KvModel order =
     \<lparr>Partition = Some (kv_Partition order), PartitionEvent = None, Init = '''',
      Step = kv_Step, Equal = Some ShallowEqual\<rparr>"

end
