(* ===== verification/Lin_List.thy ===== *)
theory Lin_List
  imports Lin_Model
begin

text \<open>
  Entries and the doubly linked list of \<^verbatim>\<open>linearizability/linearizability.go\<close>. Nodes live in a heap,
  a list of nodes indexed by address that allocation extends; a pointer is an optional address and
  dereferencing \<^verbatim>\<open>nil\<close> panics. \<open>dll\<close> says which addresses a heap links in which order. Removing an
  operation from the list (\<^verbatim>\<open>lift\<close>) keeps the pointers of the removed nodes, and \<^verbatim>\<open>unlift\<close> gives back
  the very heap there was before.
\<close>

section \<open>Entries\<close>

datatype entryKind = callEntry | returnEntry

record 'v entry =
  ekind :: entryKind
  evalue :: "'v iface"
  eid :: nat
  etime :: int

definition byTime_Less :: "'v entry list \<Rightarrow> nat \<Rightarrow> nat \<Rightarrow> bool" where
  "byTime_Less a i j \<longleftrightarrow> etime (a ! i) < etime (a ! j)"

definition byTime_Swap :: "'v entry list \<Rightarrow> nat \<Rightarrow> nat \<Rightarrow> 'v entry list" where
  "byTime_Swap a i j = a[i := a ! j, j := a ! i]"

text \<open>
  \<^verbatim>\<open>sort.Sort\<close> leaves equal elements in any order, so sorting is an argument: some function that
  permutes the entries and leaves no element \<^verbatim>\<open>Less\<close> than one before it.
\<close>

fun entries_from :: "nat \<Rightarrow> 'v Operation list \<Rightarrow> 'v entry list" where
  "entries_from i [] = []"
| "entries_from i (elem # history) =
     \<lparr>ekind = callEntry, evalue = Input elem, eid = i, etime = Call elem\<rparr> #
     \<lparr>ekind = returnEntry, evalue = Output elem, eid = i, etime = Return elem\<rparr> #
     entries_from (Suc i) history"

definition makeEntries :: "('v entry list \<Rightarrow> 'v entry list) \<Rightarrow> 'v Operation list \<Rightarrow> 'v entry list" where
  "makeEntries sort_Sort history = sort_Sort (entries_from 0 history)"

definition sorts :: "('v entry list \<Rightarrow> 'v entry list) \<Rightarrow> bool" where
  "sorts f \<longleftrightarrow> (\<forall>xs. mset (f xs) = mset xs \<and>
     (\<forall>i j. i < j \<longrightarrow> j < length (f xs) \<longrightarrow> \<not> byTime_Less (f xs) j i))"

fun renumber_from :: "(nat \<rightharpoonup> nat) \<Rightarrow> nat \<Rightarrow> 'v Event list \<Rightarrow> 'v Event list" where
  "renumber_from m i [] = []"
| "renumber_from m i (v # events) =
     (case m (Id v) of
        Some r \<Rightarrow> v\<lparr>Id := r\<rparr> # renumber_from m i events
      | None \<Rightarrow> v\<lparr>Id := i\<rparr> # renumber_from (m(Id v \<mapsto> i)) (Suc i) events)"

definition renumber :: "'v Event list \<Rightarrow> 'v Event list" where
  "renumber events = renumber_from Map.empty 0 events"

definition convertEntries :: "'v Event list \<Rightarrow> 'v entry list" where
  "convertEntries events =
     map (\<lambda>elem. \<lparr>ekind = (if Kind elem = ReturnEvent then returnEntry else callEntry),
                   evalue = Value elem, eid = Id elem, etime = -1\<rparr>) events"

section \<open>The heap of nodes\<close>

type_synonym ptr = "nat option"

record 'v node =
  nvalue :: "'v iface"
  nmatch :: ptr
  nid :: nat
  nnext :: ptr
  nprev :: ptr

type_synonym 'v heap = "'v node list"

fun deref :: "'v heap \<Rightarrow> ptr \<Rightarrow> 'v node go" where
  "deref h None = Inl NilDereference"
| "deref h (Some a) = (if a < length h then Inr (h ! a) else Inl NilDereference)"

fun assign :: "'v heap \<Rightarrow> ptr \<Rightarrow> ('v node \<Rightarrow> 'v node) \<Rightarrow> 'v heap go" where
  "assign h None f = Inl NilDereference"
| "assign h (Some a) f = (if a < length h then Inr (h[a := f (h ! a)]) else Inl NilDereference)"

definition insertBefore :: "'v heap \<Rightarrow> nat \<Rightarrow> ptr \<Rightarrow> 'v heap go" where
  "insertBefore h n mark =
     (if mark \<noteq> None then
        bindG (deref h mark) (\<lambda>mk.
        let beforeMark = nprev mk in
        bindG (assign h mark (nprev_update (\<lambda>_. Some n))) (\<lambda>h.
        bindG (assign h (Some n) (nnext_update (\<lambda>_. mark))) (\<lambda>h.
        if beforeMark \<noteq> None then
          bindG (assign h (Some n) (nprev_update (\<lambda>_. beforeMark))) (\<lambda>h.
          assign h beforeMark (nnext_update (\<lambda>_. Some n)))
        else Inr h)))
      else Inr h)"

partial_function (option) length_loop :: "'v heap \<Rightarrow> ptr \<Rightarrow> nat \<Rightarrow> nat go option" where
  "length_loop h n l =
     (if n = None then Some (Inr l)
      else case deref h n of Inl e \<Rightarrow> Some (Inl e) | Inr nd \<Rightarrow> length_loop h (nnext nd) (Suc l))"

definition node_length :: "'v heap \<Rightarrow> ptr \<Rightarrow> nat go option" where
  "node_length h n = length_loop h n 0"

definition new_node :: "'v entry \<Rightarrow> ptr \<Rightarrow> 'v node" where
  "new_node elem m = \<lparr>nvalue = evalue elem, nmatch = m, nid = eid elem, nnext = None, nprev = None\<rparr>"

fun linked_loop :: "'v entry list \<Rightarrow> 'v heap \<Rightarrow> ptr \<Rightarrow> (nat \<Rightarrow> ptr) \<Rightarrow> ('v heap \<times> ptr) go" where
  "linked_loop [] h root match = Inr (h, root)"
| "linked_loop (elem # before) h root match =
     (let entry = length h in
      if ekind elem = returnEntry then
        bindG (insertBefore (h @ [new_node elem None]) entry root)
          (\<lambda>h. linked_loop before h (Some entry) (match(eid elem := Some entry)))
      else
        bindG (insertBefore (h @ [new_node elem (match (eid elem))]) entry root)
          (\<lambda>h. linked_loop before h (Some entry) match))"

text \<open>The loop of \<^verbatim>\<open>makeLinkedEntries\<close> runs from the last entry to the first.\<close>

definition makeLinkedEntries :: "'v entry list \<Rightarrow> ('v heap \<times> ptr) go" where
  "makeLinkedEntries entries = linked_loop (rev entries) [] None (\<lambda>_. None)"

definition lift :: "'v heap \<Rightarrow> ptr \<Rightarrow> 'v heap go" where
  "lift h entry =
     bindG (deref h entry) (\<lambda>e.
     bindG (assign h (nprev e) (nnext_update (\<lambda>_. nnext e))) (\<lambda>h.
     bindG (deref h entry) (\<lambda>e.
     bindG (assign h (nnext e) (nprev_update (\<lambda>_. nprev e))) (\<lambda>h.
     bindG (deref h entry) (\<lambda>e.
     let match = nmatch e in
     bindG (deref h match) (\<lambda>m.
     bindG (assign h (nprev m) (nnext_update (\<lambda>_. nnext m))) (\<lambda>h.
     bindG (deref h match) (\<lambda>m.
       if nnext m \<noteq> None then assign h (nnext m) (nprev_update (\<lambda>_. nprev m)) else Inr h))))))))"

definition unlift :: "'v heap \<Rightarrow> ptr \<Rightarrow> 'v heap go" where
  "unlift h entry =
     bindG (deref h entry) (\<lambda>e.
     let match = nmatch e in
     bindG (deref h match) (\<lambda>m.
     bindG (assign h (nprev m) (nnext_update (\<lambda>_. match))) (\<lambda>h.
     bindG (deref h match) (\<lambda>m.
     bindG (if nnext m \<noteq> None then assign h (nnext m) (nprev_update (\<lambda>_. match)) else Inr h) (\<lambda>h.
     bindG (deref h entry) (\<lambda>e.
     bindG (assign h (nprev e) (nnext_update (\<lambda>_. entry))) (\<lambda>h.
     bindG (deref h entry) (\<lambda>e.
     assign h (nnext e) (nprev_update (\<lambda>_. entry))))))))))"

section \<open>Which list a heap holds\<close>

definition first :: "nat list \<Rightarrow> ptr \<Rightarrow> ptr" where
  "first as q = (case as of [] \<Rightarrow> q | a # _ \<Rightarrow> Some a)"

definition final :: "ptr \<Rightarrow> nat list \<Rightarrow> ptr" where
  "final p as = (if as = [] then p else Some (last as))"

lemma first_simps [simp]:
  "first [] q = q" "first (a # as) q = Some a" "first (as @ bs) q = first as (first bs q)"
  by (simp_all add: first_def split: list.split)

lemma final_simps [simp]:
  "final p [] = p" "final p (a # as) = final (Some a) as" "final p (as @ bs) = final (final p as) bs"
  by (simp_all add: final_def)

fun dll :: "'v heap \<Rightarrow> ptr \<Rightarrow> nat list \<Rightarrow> ptr \<Rightarrow> bool" where
  "dll h p [] q = True"
| "dll h p (a # as) q \<longleftrightarrow>
     a < length h \<and> nprev (h ! a) = p \<and> nnext (h ! a) = first as q \<and> dll h (Some a) as q"

lemma dll_append [simp]:
  "dll h p (as @ bs) q \<longleftrightarrow> dll h p as (first bs q) \<and> dll h (final p as) bs q"
  by (induction as arbitrary: p) auto

lemma dll_frame [simp]: "a \<notin> set as \<Longrightarrow> dll (h[a := nd]) p as q = dll h p as q"
  by (induction as arbitrary: p) auto

lemma dll_extend: "dll h p as q \<Longrightarrow> dll (h @ hs) p as q"
  by (induction as arbitrary: p) (auto simp: nth_append)

lemma dll_bound: "dll h p as q \<Longrightarrow> \<forall>a \<in> set as. a < length h"
  by (induction as arbitrary: p) auto

text \<open>The fields that linking never changes.\<close>

definition same_payload :: "'v heap \<Rightarrow> 'v heap \<Rightarrow> bool" where
  "same_payload h h' \<longleftrightarrow> length h' = length h \<and>
     (\<forall>a. nvalue (h' ! a) = nvalue (h ! a) \<and> nmatch (h' ! a) = nmatch (h ! a) \<and> nid (h' ! a) = nid (h ! a))"

lemma same_payload_refl [simp]: "same_payload h h"
  by (simp add: same_payload_def)

lemma same_payload_trans [trans]: "same_payload h h' \<Longrightarrow> same_payload h' h'' \<Longrightarrow> same_payload h h''"
  by (simp add: same_payload_def)

lemma same_payload_update:
  "nvalue nd = nvalue (h ! a) \<Longrightarrow> nmatch nd = nmatch (h ! a) \<Longrightarrow> nid nd = nid (h ! a) \<Longrightarrow>
   same_payload h (h[a := nd])"
  by (cases "a < length h") (auto simp: same_payload_def nth_list_update list_update_beyond)

section \<open>Unlinking one node\<close>

text \<open>\<open>lift\<close> unlinks two nodes and \<open>unlift\<close> links them again in the opposite order.\<close>

definition unlink :: "'v heap \<Rightarrow> nat \<Rightarrow> 'v heap go" where
  "unlink h a =
     bindG (assign h (nprev (h ! a)) (nnext_update (\<lambda>_. nnext (h ! a)))) (\<lambda>h.
       if nnext (h ! a) \<noteq> None then assign h (nnext (h ! a)) (nprev_update (\<lambda>_. nprev (h ! a))) else Inr h)"

definition relink :: "'v heap \<Rightarrow> nat \<Rightarrow> 'v heap go" where
  "relink h a =
     bindG (assign h (nprev (h ! a)) (nnext_update (\<lambda>_. Some a))) (\<lambda>h.
       if nnext (h ! a) \<noteq> None then assign h (nnext (h ! a)) (nprev_update (\<lambda>_. Some a)) else Inr h)"

lemma update_next_same: "nnext nd = q \<Longrightarrow> nd\<lparr>nnext := q\<rparr> = nd"
  by (cases nd) simp

lemma update_prev_same: "nprev nd = q \<Longrightarrow> nd\<lparr>nprev := q\<rparr> = nd"
  by (cases nd) simp

lemma relink_unlink:
  assumes "dll h p (us @ u # a # ws) q" and "distinct (us @ u # a # ws)" and "q = None"
  shows "\<exists>h'. unlink h a = Inr h' \<and> dll h' p (us @ u # ws) q \<and> same_payload h h' \<and>
    (\<forall>x. x \<notin> set (us @ u # ws) \<longrightarrow> h' ! x = h ! x) \<and> relink h' a = Inr h"
proof (cases ws)
  case Nil
  have u: "u < length h" "nnext (h ! u) = Some a" and a: "a < length h" "nprev (h ! a) = Some u" "nnext (h ! a) = None"
    using assms(1,3) by (simp_all add: Nil)
  let ?h = "h[u := (h ! u)\<lparr>nnext := None\<rparr>]"
  have ne: "u \<noteq> a" using assms(2) by simp
  have "unlink h a = Inr ?h" using u a ne by (simp add: unlink_def)
  moreover have "dll ?h p (us @ u # ws) q" using assms by (simp add: Nil)
  moreover have "same_payload h ?h" by (rule same_payload_update) simp_all
  moreover have "relink ?h a = Inr h" using u a ne by (simp add: relink_def update_next_same)
  ultimately show ?thesis by (auto simp: Nil)
next
  case (Cons w vs)
  have u: "u < length h" "nnext (h ! u) = Some a" and a: "a < length h" "nprev (h ! a) = Some u" "nnext (h ! a) = Some w"
    and w: "w < length h" "nprev (h ! w) = Some a"
    using assms(1,3) by (simp_all add: Cons)
  let ?g = "h[u := (h ! u)\<lparr>nnext := Some w\<rparr>]"
  let ?h = "?g[w := (h ! w)\<lparr>nprev := Some u\<rparr>]"
  have ne: "u \<noteq> a" "w \<noteq> a" "u \<noteq> w" "w \<noteq> u" using assms(2) by (auto simp: Cons)
  have "unlink h a = Inr ?h" using u a w ne by (simp add: unlink_def)
  moreover have "dll ?h p (us @ u # ws) q" using assms ne by (simp add: Cons)
  moreover have "same_payload h ?h"
    by (rule same_payload_trans [OF same_payload_update same_payload_update]) (simp_all add: ne)
  moreover have "relink ?h a = Inr h"
    using u a w ne by (simp add: relink_def update_next_same update_prev_same list_update_swap [of u w])
  ultimately show ?thesis by (auto simp: Cons)
qed

lemma assign_eq_InrE:
  assumes "assign h p f = Inr h'"
  obtains a where "p = Some a" "a < length h" "h' = h[a := f (h ! a)]"
  using assms by (cases p) (auto split: if_splits)

lemma lift_unlinks:
  assumes e: "e < length h" "nprev (h ! e) = Some u" "nnext (h ! e) = Some w" "nmatch (h ! e) = Some m"
    and ne: "u \<noteq> e" "w \<noteq> e" and m: "m < length h" "nprev (h1 ! m) \<noteq> Some m"
    and un: "unlink h e = Inr h1"
  shows "lift h (Some e) = unlink h1 m"
proof -
  have u: "u < length h" and w: "w < length h"
    using un e by (auto simp: unlink_def bindG_eq_Inr_iff ne elim!: assign_eq_InrE split: if_splits)
  let ?g = "h[u := (h ! u)\<lparr>nnext := Some w\<rparr>]"
  have h1: "h1 = ?g[w := (?g ! w)\<lparr>nprev := Some u\<rparr>]"
    using un e ne u w by (simp add: unlink_def)
  have "lift h (Some e) = bindG (deref h1 (Some m)) (\<lambda>n.
     bindG (assign h1 (nprev n) (nnext_update (\<lambda>_. nnext n))) (\<lambda>h.
     bindG (deref h (Some m)) (\<lambda>n.
       if nnext n \<noteq> None then assign h (nnext n) (nprev_update (\<lambda>_. nprev n)) else Inr h)))"
    using e ne u w by (simp add: lift_def h1 del: nth_list_update)
  also have "\<dots> = unlink h1 m"
    using m by (cases "nprev (h1 ! m)") (simp_all add: h1 unlink_def)
  finally show ?thesis .
qed

lemma unlift_relinks:
  assumes e: "e < length h" "nmatch (h ! e) = Some m" "m < length h" "nprev (h ! m) \<noteq> Some m"
    and re: "relink h m = Inr h1" and e1: "h1 ! e = h ! e" "nnext (h1 ! e) = Some w" "nprev (h1 ! e) \<noteq> Some e"
  shows "unlift h (Some e) = relink h1 e"
proof -
  obtain u where u: "nprev (h ! m) = Some u" "u < length h" "u \<noteq> m"
    using re e by (auto simp: relink_def bindG_eq_Inr_iff elim!: assign_eq_InrE)
  have l: "length h1 = length h"
    using re u by (auto simp: relink_def elim!: assign_eq_InrE split: if_splits)
  have "unlift h (Some e) = bindG (relink h m) (\<lambda>h.
     bindG (deref h (Some e)) (\<lambda>e'.
     bindG (assign h (nprev e') (nnext_update (\<lambda>_. Some e))) (\<lambda>h.
     bindG (deref h (Some e)) (\<lambda>e'.
     assign h (nnext e') (nprev_update (\<lambda>_. Some e))))))"
    using e u by (simp add: unlift_def relink_def Let_def)
  also have "\<dots> = relink h1 e"
    using e l e1 unfolding re bindG_simps relink_def [of h1 e]
    by (cases "nprev (h1 ! e)") simp_all
  finally show ?thesis .
qed

text \<open>Lifting a call that is followed by its return, and back.\<close>

lemma lift_ok:
  assumes dll: "dll h p (us @ u # e # vs @ m # ws) None" and dist: "distinct (us @ u # e # vs @ m # ws)"
    and m: "nmatch (h ! e) = Some m"
  shows "\<exists>h'. lift h (Some e) = Inr h' \<and> dll h' p (us @ u # vs @ ws) None \<and> same_payload h h' \<and>
    h' ! e = h ! e \<and> unlift h' (Some e) = Inr h"
proof -
  obtain h1 where 1: "unlink h e = Inr h1" "dll h1 p (us @ u # vs @ m # ws) None" "same_payload h h1"
    "h1 ! e = h ! e" "relink h1 e = Inr h"
    using relink_unlink [of h p us u e "vs @ m # ws" None] dll dist by fastforce
  obtain us' u' where s: "us @ u # vs = us' @ [u']" by (metis append_is_Nil_conv list.distinct(1) rev_exhaust)
  then have s': "us @ u # vs @ m # ws = us' @ u' # m # ws" "us @ u # vs @ ws = us' @ u' # ws"
    by (metis append.assoc append_Cons append_Nil)+
  have d1: "distinct (us' @ u' # m # ws)" using dist by (simp flip: s'(1))
  obtain h2 where 2: "unlink h1 m = Inr h2" "dll h2 p (us' @ u' # ws) None" "same_payload h1 h2"
    "\<forall>x. x \<notin> set (us' @ u' # ws) \<longrightarrow> h2 ! x = h1 ! x" "relink h2 m = Inr h1"
    using relink_unlink [of h1 p us' u' m ws None] 1(2) d1 by (auto simp: s')
  have len: "length h1 = length h" "length h2 = length h" using 1(3) 2(3) by (simp_all add: same_payload_def)
  have e: "e < length h" "nprev (h ! e) = Some u" "m < length h" using dll by auto
  obtain w where w: "nnext (h ! e) = Some w" "w \<noteq> e" using dll dist by (cases vs) auto
  have pm: "nprev (h1 ! m) = Some u'" "u' \<noteq> m" using 1(2) d1 by (auto simp: s')
  have "lift h (Some e) = Inr h2"
    using lift_unlinks [of e h u w m h1] e w m 1(1) pm dist 2(1) by auto
  moreover have e2: "h2 ! e = h ! e"
    using 2(4) 1(4) dist by (simp flip: s'(2))
  moreover have "unlift h2 (Some e) = relink h1 e"
  proof (rule unlift_relinks [of e h2 m h1 w])
    have "h2 ! m = h1 ! m" using 2(4) d1 by simp
    then show "nprev (h2 ! m) \<noteq> Some m" using pm by simp
  qed (use e w m 1(4) 2(5) len dist e2 in auto)
  ultimately show ?thesis using 1 2 same_payload_trans [OF 1(3) 2(3)] by (auto simp: s')
qed

section \<open>Building the list\<close>

lemma length_loop_dll: "dll h p as None \<Longrightarrow> length_loop h (first as None) l = Some (Inr (l + length as))"
proof (induction as arbitrary: p l)
  case Nil
  then show ?case by (simp add: length_loop.simps [of h None])
next
  case (Cons a as)
  then show ?case using Cons.IH [of "Some a" "Suc l"] by (simp add: length_loop.simps [of h "Some a"])
qed

lemma node_length_dll: "dll h p as None \<Longrightarrow> node_length h (first as None) = Some (Inr (length as))"
  using length_loop_dll [of h p as 0] by (simp add: node_length_def)

text \<open>A fresh node goes in front of a list; the payload of the old nodes stays.\<close>

lemma insertBefore_front:
  assumes "dll h None as None" "distinct as" "nprev nd = None" "nnext nd = None"
  shows "\<exists>h'. insertBefore (h @ [nd]) (length h) (first as None) = Inr h' \<and>
    dll h' None (length h # as) None \<and> same_payload (h @ [nd]) h'"
proof (cases as)
  case Nil
  then show ?thesis using assms by (simp add: insertBefore_def)
next
  case (Cons a bs)
  let ?h = "(h @ [nd])[a := (h ! a)\<lparr>nprev := Some (length h)\<rparr>]"
  let ?h' = "?h[length h := nd\<lparr>nnext := Some a\<rparr>]"
  have a: "a < length h" "nprev (h ! a) = None" "nnext (h ! a) = first bs None" "a \<notin> set bs"
    using assms Cons by auto
  have bs: "length h \<notin> set bs" using dll_bound [OF assms(1)] Cons by auto
  have "dll (h @ [nd]) (Some a) bs None" using assms(1) by (simp add: Cons dll_extend)
  then have "dll ?h' None (length h # as) None" using a bs assms(3) by (simp add: Cons)
  moreover have "insertBefore (h @ [nd]) (length h) (first as None) = Inr ?h'"
    using a by (simp add: insertBefore_def Cons nth_append)
  moreover have "same_payload (h @ [nd]) ?h"
    using a by (intro same_payload_update) (simp_all add: nth_append)
  moreover have "same_payload ?h ?h'"
    using a by (intro same_payload_update) (simp_all add: nth_append)
  ultimately show ?thesis using same_payload_trans by blast
qed

text \<open>
  What \<open>makeLinkedEntries\<close> builds: the entry with \<open>k\<close> entries behind it is at address \<open>k\<close>, and a
  call points to the next return of its number.
\<close>

fun match_of :: "'v entry list \<Rightarrow> nat \<Rightarrow> ptr" where
  "match_of [] i = None"
| "match_of (e # es) i = (if ekind e = returnEntry \<and> eid e = i then Some (length es) else match_of es i)"

fun holds :: "'v heap \<Rightarrow> 'v entry list \<Rightarrow> bool" where
  "holds h [] = True"
| "holds h (e # es) \<longleftrightarrow>
     nvalue (h ! length es) = evalue e \<and> nid (h ! length es) = eid e \<and>
     nmatch (h ! length es) = (if ekind e = returnEntry then None else match_of es (eid e)) \<and> holds h es"

lemma holds_same_payload: "same_payload h h' \<Longrightarrow> holds h' es = holds h es"
  by (induction es) (simp_all add: same_payload_def)

lemma holds_extend: "length es \<le> length h \<Longrightarrow> holds (h @ hs) es = holds h es"
  by (induction es) (simp_all add: nth_append)

definition addresses :: "nat \<Rightarrow> nat list" where
  "addresses n = rev [0..<n]"

lemma addresses_Suc: "addresses (Suc n) = n # addresses n"
  by (simp add: addresses_def)

lemma addresses_simps [simp]: "length (addresses n) = n" "set (addresses n) = {..<n}" "distinct (addresses n)"
  by (auto simp: addresses_def)

definition linked :: "'v heap \<Rightarrow> 'v entry list \<Rightarrow> bool" where
  "linked h es \<longleftrightarrow> length h = length es \<and> dll h None (addresses (length es)) None \<and> holds h es"

lemma linked_insert:
  assumes "linked h es" and "nvalue nd = evalue e" "nid nd = eid e"
    "nmatch nd = (if ekind e = returnEntry then None else match_of es (eid e))"
    "nprev nd = None" "nnext nd = None"
  shows "\<exists>h'. insertBefore (h @ [nd]) (length h) (first (addresses (length es)) None) = Inr h' \<and> linked h' (e # es)"
proof -
  have l: "length h = length es" using assms(1) by (simp add: linked_def)
  obtain h' where h': "insertBefore (h @ [nd]) (length h) (first (addresses (length es)) None) = Inr h'"
    "dll h' None (length h # addresses (length es)) None" "same_payload (h @ [nd]) h'"
    using insertBefore_front [of h "addresses (length es)" nd] assms by (auto simp: linked_def)
  have "holds (h @ [nd]) (e # es)"
    using assms(1-4) holds_extend [of es h "[nd]"] unfolding holds.simps l [symmetric] nth_append_length
    by (simp add: linked_def)
  then have "holds h' (e # es)" by (simp only: holds_same_payload [OF h'(3)])
  with h' l show ?thesis by (simp add: linked_def addresses_Suc same_payload_def)
qed

lemma linked_loop_ok:
  "linked h es \<Longrightarrow> \<exists>h'. linked_loop before h (first (addresses (length es)) None) (match_of es) =
     Inr (h', first (addresses (length es + length before)) None) \<and> linked h' (rev before @ es)"
proof (induction before arbitrary: h es)
  case Nil
  then show ?case by simp
next
  case (Cons e before)
  let ?nd = "new_node e (if ekind e = returnEntry then None else match_of es (eid e))"
  obtain h1 where h1: "insertBefore (h @ [?nd]) (length h) (first (addresses (length es)) None) = Inr h1"
    "linked h1 (e # es)"
    using linked_insert [OF Cons.prems, of ?nd e] by (auto simp: new_node_def)
  have m: "match_of (e # es) = (if ekind e = returnEntry then (match_of es)(eid e := Some (length h)) else match_of es)"
    using Cons.prems by (auto simp: linked_def fun_eq_iff)
  have l: "length h = length es" using Cons.prems by (simp add: linked_def)
  obtain h' where "linked_loop before h1 (Some (length h)) (match_of (e # es)) =
      Inr (h', first (addresses (length (e # es) + length before)) None)" "linked h' (rev before @ e # es)"
    using Cons.IH [OF h1(2)] by (simp only: list.size addresses_Suc first_simps l add_Suc_right add_0_right) blast
  with h1(1) show ?case unfolding m by (cases "ekind e") (auto simp: Let_def l)
qed

lemma makeLinkedEntries_ok:
  "\<exists>h. makeLinkedEntries (es :: 'a entry list) = Inr (h, first (addresses (length es)) None) \<and> linked h es"
proof -
  have "match_of ([] :: 'a entry list) = (\<lambda>_. None)" by auto
  moreover have "linked ([] :: 'a heap) []" by (simp add: linked_def addresses_def)
  ultimately show ?thesis
    using linked_loop_ok [of "[] :: 'a heap" "[]" "rev es"] by (simp add: makeLinkedEntries_def addresses_def del: match_of.simps)
qed

end
