(* ===== verification/Lin_Check.thy ===== *)
theory Lin_Check
  imports Lin_Bitset Lin_List
begin

text \<open>
  \<^verbatim>\<open>checkSingle\<close> of \<^verbatim>\<open>linearizability/linearizability.go\<close>: the search for a linearization of one
  history, with its cache of configurations and its stack of lifted calls. One iteration of the
  loop is \<open>check_iter\<close>; the loop itself may in principle run for ever, so it is a partial function
  whose value \<open>None\<close> means no result. Every iteration reads the kill flag; \<open>kill k\<close> is the value that
  the \<open>k\<close>-th iteration reads.
\<close>

section \<open>The search\<close>

record 's cacheEntry =
  ce_linearized :: bitset
  ce_state :: 's

type_synonym 's cache = "64 word \<Rightarrow> 's cacheEntry list"

fun cache_scan :: "('v, 's) Model \<Rightarrow> 's cacheEntry \<Rightarrow> 's cacheEntry list \<Rightarrow> bool go" where
  "cache_scan model entry [] = Inr False"
| "cache_scan model entry (elem # elems) =
     (if bitset_equals (ce_linearized entry) (ce_linearized elem) then
        (case Equal model of
           None \<Rightarrow> Inl NilDereference
         | Some eq \<Rightarrow> if eq (ce_state entry) (ce_state elem) then Inr True else cache_scan model entry elems)
      else cache_scan model entry elems)"

definition cacheContains :: "('v, 's) Model \<Rightarrow> 's cache \<Rightarrow> 's cacheEntry \<Rightarrow> bool go" where
  "cacheContains model cache entry = cache_scan model entry (cache (bitset_hash (ce_linearized entry)))"

record 's callsEntry =
  cl_entry :: nat
  cl_state :: 's

record ('v, 's) check =
  ck_heap :: "'v heap"
  ck_linearized :: bitset
  ck_cache :: "'s cache"
  ck_calls :: "'s callsEntry list"
  ck_state :: 's
  ck_head :: nat
  ck_entry :: ptr

datatype 'a outcome = Continue 'a | Returned bool

definition check_iter :: "('v, 's) Model \<Rightarrow> int \<Rightarrow> ('v, 's) check \<Rightarrow> ('v, 's) check outcome go" where
  "check_iter model kill st =
     bindG (deref (ck_heap st) (Some (ck_head st))) (\<lambda>headEntry.
     if nnext headEntry = None then Inr (Returned True)
     else if kill \<noteq> 0 then Inr (Returned False)
     else bindG (deref (ck_heap st) (ck_entry st)) (\<lambda>entry.
     if nmatch entry \<noteq> None then
       bindG (deref (ck_heap st) (nmatch entry)) (\<lambda>matching.
       bindG (Step model (ck_state st) (nvalue entry) (nvalue matching)) (\<lambda>(ok, newState).
       if ok then
         bindG (bitset_set (bitset_clone (ck_linearized st)) (nid entry)) (\<lambda>newLinearized.
         let newCacheEntry = \<lparr>ce_linearized = newLinearized, ce_state = newState\<rparr> in
         bindG (cacheContains model (ck_cache st) newCacheEntry) (\<lambda>known.
         if \<not> known then
           let hash = bitset_hash newLinearized in
           bindG (bitset_set (ck_linearized st) (nid entry)) (\<lambda>linearized.
           bindG (lift (ck_heap st) (ck_entry st)) (\<lambda>h.
           bindG (deref h (Some (ck_head st))) (\<lambda>headEntry.
             Inr (Continue (st\<lparr>
               ck_cache := (ck_cache st)(hash := ck_cache st hash @ [newCacheEntry]),
               ck_calls := ck_calls st @ [\<lparr>cl_entry = the (ck_entry st), cl_state = ck_state st\<rparr>],
               ck_state := newState, ck_linearized := linearized, ck_heap := h,
               ck_entry := nnext headEntry\<rparr>)))))
         else Inr (Continue (st\<lparr>ck_entry := nnext entry\<rparr>))))
       else Inr (Continue (st\<lparr>ck_entry := nnext entry\<rparr>))))
     else if ck_calls st = [] then Inr (Returned False)
     else
       let callsTop = last (ck_calls st) in
       bindG (deref (ck_heap st) (Some (cl_entry callsTop))) (\<lambda>entry.
       bindG (bitset_clear (ck_linearized st) (nid entry)) (\<lambda>linearized.
       bindG (unlift (ck_heap st) (Some (cl_entry callsTop))) (\<lambda>h.
       bindG (deref h (Some (cl_entry callsTop))) (\<lambda>entry.
         Inr (Continue (st\<lparr>ck_state := cl_state callsTop, ck_linearized := linearized,
           ck_calls := butlast (ck_calls st), ck_heap := h, ck_entry := nnext entry\<rparr>))))))))"

partial_function (option) check_loop ::
  "('v, 's) Model \<Rightarrow> (nat \<Rightarrow> int) \<Rightarrow> ('v, 's) check \<Rightarrow> bool go option" where
  "check_loop model kill st =
     (case check_iter model (kill 0) st of
        Inl e \<Rightarrow> Some (Inl e)
      | Inr (Returned b) \<Rightarrow> Some (Inr b)
      | Inr (Continue st') \<Rightarrow> check_loop model (\<lambda>k. kill (Suc k)) st')"

definition head_node :: "'v node" where
  "head_node = \<lparr>nvalue = None, nmatch = None, nid = 2 ^ 64 - 1, nnext = None, nprev = None\<rparr>"

text \<open>What \<^verbatim>\<open>checkSingle\<close> does before its loop.\<close>

definition check_start :: "('v, 's) Model \<Rightarrow> 'v heap \<Rightarrow> ptr \<Rightarrow> ('v, 's) check go option" where
  "check_start model h subhistory =
     (case node_length h subhistory of
        None \<Rightarrow> None
      | Some (Inl e) \<Rightarrow> Some (Inl e)
      | Some (Inr l) \<Rightarrow> Some (
          bindG (insertBefore (h @ [head_node]) (length h) subhistory) (\<lambda>h'.
          Inr \<lparr>ck_heap = h', ck_linearized = newBitset (l div 2), ck_cache = (\<lambda>_. []), ck_calls = [],
               ck_state = Init model, ck_head = length h, ck_entry = subhistory\<rparr>)))"

definition checkSingle :: "('v, 's) Model \<Rightarrow> 'v heap \<Rightarrow> ptr \<Rightarrow> (nat \<Rightarrow> int) \<Rightarrow> bool go option" where
  "checkSingle model h subhistory kill =
     (case check_start model h subhistory of
        None \<Rightarrow> None
      | Some (Inl e) \<Rightarrow> Some (Inl e)
      | Some (Inr st) \<Rightarrow> check_loop model kill st)"

section \<open>Linearizability\<close>

text \<open>
  The specification. A history is a list of calls and returns of numbered operations. It is
  linearizable if its operations can be put into an order in which every operation that returned
  before another was called comes first, and which the system accepts one after the other.
\<close>

datatype ev = C nat | R nat

fun ev_id :: "ev \<Rightarrow> nat" where
  "ev_id (C i) = i"
| "ev_id (R i) = i"

fun is_call :: "ev \<Rightarrow> bool" where
  "is_call (C i) = True"
| "is_call (R i) = False"

fun precedes :: "'a list \<Rightarrow> 'a \<Rightarrow> 'a \<Rightarrow> bool" where
  "precedes [] x y = False"
| "precedes (z # xs) x y \<longleftrightarrow> x = z \<and> y \<in> set xs \<or> precedes xs x y"

definition complete :: "ev list \<Rightarrow> bool" where
  "complete H \<longleftrightarrow> distinct H \<and> (\<forall>i. C i \<in> set H \<longrightarrow> R i \<in> set H) \<and>
     (\<forall>i. R i \<in> set H \<longrightarrow> precedes H (C i) (R i))"

fun run_ops :: "(nat \<Rightarrow> 's \<Rightarrow> 's option) \<Rightarrow> nat list \<Rightarrow> 's \<Rightarrow> 's option" where
  "run_ops step [] s = Some s"
| "run_ops step (i # is) s = (case step i s of None \<Rightarrow> None | Some s' \<Rightarrow> run_ops step is s')"

definition linearization :: "(nat \<Rightarrow> 's \<Rightarrow> 's option) \<Rightarrow> ev list \<Rightarrow> 's \<Rightarrow> nat list \<Rightarrow> bool" where
  "linearization step H s ord \<longleftrightarrow>
     distinct ord \<and> set ord = ev_id ` set H \<and>
     (\<forall>i j. precedes H (R i) (C j) \<longrightarrow> precedes ord i j) \<and> run_ops step ord s \<noteq> None"

definition linearizable :: "(nat \<Rightarrow> 's \<Rightarrow> 's option) \<Rightarrow> ev list \<Rightarrow> 's \<Rightarrow> bool" where
  "linearizable step H s \<longleftrightarrow> (\<exists>ord. linearization step H s ord)"

text \<open>The operations of a model: the step on the values of operation \<open>i\<close>, if it is accepted.\<close>

definition accepts :: "('v, 's) Model \<Rightarrow> (nat \<Rightarrow> 'v iface) \<Rightarrow> (nat \<Rightarrow> 'v iface) \<Rightarrow> nat \<Rightarrow> 's \<Rightarrow> 's option" where
  "accepts model inp outp i s =
     (case Step model s (inp i) (outp i) of Inr (True, s') \<Rightarrow> Some s' | _ \<Rightarrow> None)"

section \<open>The search tree\<close>

text \<open>
  The same notion by removing one operation at a time: an operation can go first if no operation
  returned before it was called.
\<close>

definition drop_op :: "nat \<Rightarrow> ev list \<Rightarrow> ev list" where
  "drop_op i H = filter (\<lambda>e. ev_id e \<noteq> i) H"

inductive lin_from :: "(nat \<Rightarrow> 's \<Rightarrow> 's option) \<Rightarrow> ev list \<Rightarrow> 's \<Rightarrow> bool" for step where
  lin_nil: "lin_from step [] s"
| lin_op: "C i \<in> set (takeWhile is_call H) \<Longrightarrow> step i s = Some s' \<Longrightarrow> lin_from step (drop_op i H) s' \<Longrightarrow>
     lin_from step H s"

inductive_cases lin_fromE: "lin_from step H s"

lemma precedes_in: "precedes xs x y \<Longrightarrow> x \<in> set xs \<and> y \<in> set xs"
  by (induction xs) auto

lemma precedes_append:
  "precedes (us @ ws) x y \<longleftrightarrow> precedes us x y \<or> precedes ws x y \<or> x \<in> set us \<and> y \<in> set ws"
  by (induction us) auto

lemma precedes_filter: "P x \<Longrightarrow> P y \<Longrightarrow> precedes (filter P xs) x y = precedes xs x y"
  by (induction xs) auto

lemma precedes_filterD: "precedes (filter P xs) x y \<Longrightarrow> precedes xs x y"
  by (induction xs) (auto split: if_splits)

lemma precedes_antisym: "distinct xs \<Longrightarrow> precedes xs x y \<Longrightarrow> \<not> precedes xs y x"
  by (induction xs) (auto dest: precedes_in)

lemma precedes_total: "x \<in> set xs \<Longrightarrow> y \<in> set xs \<Longrightarrow> x \<noteq> y \<Longrightarrow> precedes xs x y \<or> precedes xs y x"
  by (induction xs) auto

lemma ids_drop: "ev_id ` set (drop_op i H) = ev_id ` set H - {i}"
  by (auto simp: drop_op_def)

lemma ev_id_eq: "ev_id e = i \<longleftrightarrow> e = C i \<or> e = R i"
  by (cases e) auto

lemma complete_drop: "complete H \<Longrightarrow> complete (drop_op i H)"
  by (auto simp: complete_def drop_op_def precedes_filter)

lemma complete_ids: "complete H \<Longrightarrow> i \<in> ev_id ` set H \<longleftrightarrow> C i \<in> set H"
proof -
  assume c: "complete H"
  have "C (ev_id e) \<in> set H" if "e \<in> set H" for e
    using c that precedes_in [of H] by (cases e) (auto simp: complete_def)
  then show ?thesis by force
qed

text \<open>An operation is among the first calls exactly if nothing returned before its call.\<close>

lemma first_calls:
  "distinct H \<Longrightarrow> C i \<in> set (takeWhile is_call H) \<longleftrightarrow> C i \<in> set H \<and> (\<forall>k. \<not> precedes H (R k) (C i))"
proof (induction H)
  case (Cons e H)
  then show ?case by (cases e) (auto dest: precedes_in)
qed simp

lemma lin_from_linearization:
  assumes "lin_from step H s" and "complete H"
  shows "\<exists>ord. linearization step H s ord"
  using assms
proof (induction rule: lin_from.induct)
  case (lin_nil s)
  have "linearization step [] s []" by (simp add: linearization_def)
  then show ?case ..
next
  case (lin_op i H s s')
  from lin_op.IH [OF complete_drop [OF lin_op.prems]] obtain ord where ord: "linearization step (drop_op i H) s' ord" ..
  have d: "distinct H" using lin_op.prems by (simp add: complete_def)
  have i: "C i \<in> set H" "\<And>k. \<not> precedes H (R k) (C i)" using lin_op.hyps(1) first_calls [OF d] by auto
  have "precedes (i # ord) k j" if p: "precedes H (R k) (C j)" for k j
  proof (cases "k = i")
    case True
    have "j \<noteq> i" using p i(2) by auto
    with True precedes_in [OF p] ord show ?thesis by (force simp: linearization_def ids_drop)
  next
    case False
    with p i(2) have "precedes (drop_op i H) (R k) (C j)" by (cases "j = i") (auto simp: drop_op_def precedes_filter)
    with ord show ?thesis by (simp add: linearization_def)
  qed
  moreover have "set (i # ord) = ev_id ` set H" using ord i(1) by (force simp: linearization_def ids_drop)
  ultimately have "linearization step H s (i # ord)"
    using ord lin_op.hyps(2) by (simp add: linearization_def ids_drop)
  then show ?case ..
qed

lemma linearization_lin_from:
  "complete H \<Longrightarrow> linearization step H s ord \<Longrightarrow> lin_from step H s"
proof (induction ord arbitrary: H s)
  case Nil
  then have "H = []" by (simp add: linearization_def)
  then show ?case by (simp add: lin_nil)
next
  case (Cons i ord)
  have i: "C i \<in> set H" using complete_ids [OF Cons.prems(1), of i] Cons.prems(2) by (auto simp: linearization_def)
  have d: "distinct H" "distinct (i # ord)" using Cons.prems by (simp_all add: complete_def linearization_def)
  have first: "\<not> precedes H (R k) (C i)" for k
  proof
    assume "precedes H (R k) (C i)"
    then have "precedes (i # ord) k i" using Cons.prems(2) unfolding linearization_def by blast
    then show False using d(2) precedes_in [of ord k i] by auto
  qed
  obtain s' where s': "step i s = Some s'" "run_ops step ord s' \<noteq> None"
    using Cons.prems(2) by (auto simp: linearization_def split: option.splits)
  have "precedes ord k j" if "precedes (drop_op i H) (R k) (C j)" for k j
  proof -
    have "k \<noteq> i" using precedes_in [OF that] by (auto simp: drop_op_def)
    moreover have "precedes (i # ord) k j"
      using precedes_filterD [OF that [unfolded drop_op_def]] Cons.prems(2) unfolding linearization_def by blast
    ultimately show ?thesis by simp
  qed
  moreover have "set ord = ev_id ` set (drop_op i H)"
    using Cons.prems(2) d(2) by (auto simp: linearization_def ids_drop)
  ultimately have "linearization step (drop_op i H) s' ord" using s'(2) d(2) by (simp add: linearization_def)
  from Cons.IH [OF complete_drop [OF Cons.prems(1)] this] have "lin_from step (drop_op i H) s'" .
  moreover have "C i \<in> set (takeWhile is_call H)" using first_calls [OF d(1)] i first by simp
  ultimately show ?case using lin_op s'(1) by metis
qed

lemma linearizable_iff: "complete H \<Longrightarrow> linearizable step H s \<longleftrightarrow> lin_from step H s"
  unfolding linearizable_def using lin_from_linearization [of step H s] linearization_lin_from [of H step s] by metis

text \<open>A history with an operation left has a return, and dies when all its first calls are dead.\<close>

lemma complete_has_return: "complete H \<Longrightarrow> H \<noteq> [] \<Longrightarrow> \<exists>i. R i \<in> set H"
  by (cases H; cases "hd H") (auto simp: complete_def)

lemma dead_end:
  assumes "H = map C ids @ R r # vs" and "\<And>i s'. i \<in> set ids \<Longrightarrow> step i s = Some s' \<Longrightarrow> \<not> lin_from step (drop_op i H) s'"
  shows "\<not> lin_from step H s"
proof
  have "takeWhile is_call (map C ids @ R r # vs) = map C ids" by (induction ids) simp_all
  then have "set (takeWhile is_call H) = C ` set ids" by (simp add: assms(1))
  moreover assume "lin_from step H s"
  then obtain i s' where "C i \<in> set (takeWhile is_call H)" "step i s = Some s'" "lin_from step (drop_op i H) s'"
    using assms(1) by (cases rule: lin_fromE) auto
  ultimately show False using assms(2) by auto
qed

end
