(* ===== verification/Lin_Search.thy ===== *)
theory Lin_Search
  imports Lin_Check
begin

text \<open>
  Correctness of the search of \<^verbatim>\<open>checkSingle\<close>: from every configuration the loop either returns
  true and the configuration can be completed to a linearization, or it comes back to the
  configuration with nothing changed but the cache, and it cannot. The cache only prunes
  configurations that are known to be dead, and going back restores the heap exactly, so one
  induction over the remaining history gives termination, soundness and completeness together.
\<close>

section \<open>The heap of a search\<close>

text \<open>
  \<open>search_space\<close> describes the list that a search starts with: nodes of a complete history, each call
  linked to its return, numbers below \<open>n\<close>, and the values of the operations. \<open>at_config\<close> says that a
  heap holds what is left of it when the operations in the bit set have been lifted.
\<close>

definition ev_of :: "'v heap \<Rightarrow> nat \<Rightarrow> ev" where
  "ev_of h a = (if nmatch (h ! a) = None then R (nid (h ! a)) else C (nid (h ! a)))"

lemma ev_id_ev_of [simp]: "ev_id (ev_of h a) = nid (h ! a)"
  by (simp add: ev_of_def)

definition search_space ::
  "nat \<Rightarrow> (nat \<Rightarrow> 'v iface) \<Rightarrow> (nat \<Rightarrow> 'v iface) \<Rightarrow> 'v heap \<Rightarrow> nat \<Rightarrow> nat list \<Rightarrow> bool" where
  "search_space n inp outp h0 hd0 as0 \<longleftrightarrow>
     distinct (hd0 # as0) \<and> complete (map (ev_of h0) as0) \<and> (\<forall>a \<in> set as0. nid (h0 ! a) < n) \<and>
     (\<forall>a \<in> set as0. \<forall>m. nmatch (h0 ! a) = Some m \<longrightarrow>
        m \<in> set as0 \<and> ev_of h0 m = R (nid (h0 ! a)) \<and>
        nvalue (h0 ! a) = inp (nid (h0 ! a)) \<and> nvalue (h0 ! m) = outp (nid (h0 ! a)))"

definition rest :: "'v heap \<Rightarrow> nat list \<Rightarrow> nat set \<Rightarrow> nat list" where
  "rest h0 as0 L = filter (\<lambda>a. nid (h0 ! a) \<notin> L) as0"

definition rest_hist :: "'v heap \<Rightarrow> nat list \<Rightarrow> nat set \<Rightarrow> ev list" where
  "rest_hist h0 as0 L = map (ev_of h0) (rest h0 as0 L)"

definition at_config :: "nat \<Rightarrow> 'v heap \<Rightarrow> nat \<Rightarrow> nat list \<Rightarrow> 'v heap \<Rightarrow> bitset \<Rightarrow> bool" where
  "at_config n h0 hd0 as0 h b \<longleftrightarrow> same_payload h0 h \<and> bitset_fits n b \<and>
     dll h None (hd0 # rest h0 as0 (bits_of b)) None"

lemma rest_hist_filter: "rest_hist h0 as0 L = filter (\<lambda>e. ev_id e \<notin> L) (map (ev_of h0) as0)"
  by (simp add: rest_hist_def rest_def filter_map comp_def)

lemma rest_hist_insert: "rest_hist h0 as0 (insert i L) = drop_op i (rest_hist h0 as0 L)"
  by (auto simp: rest_hist_filter drop_op_def intro!: filter_cong)

lemma rest_complete: "search_space n inp outp h0 hd0 as0 \<Longrightarrow> complete (rest_hist h0 as0 L)"
  by (auto simp: search_space_def complete_def rest_hist_filter precedes_filter)

lemma rest_distinct: "search_space n inp outp h0 hd0 as0 \<Longrightarrow> distinct (hd0 # rest h0 as0 L)"
  by (auto simp: search_space_def rest_def)

text \<open>The return of a call in the list stands behind it; lifting leaves exactly the rest.\<close>

lemma precedes_split: "precedes xs x y \<Longrightarrow> \<exists>us vs ws. xs = us @ x # vs @ y # ws"
proof (induction xs)
  case (Cons z xs)
  show ?case
  proof (cases "precedes xs x y")
    case True
    with Cons.IH obtain us vs ws where "xs = us @ x # vs @ y # ws" by blast
    then have "z # xs = (z # us) @ x # vs @ y # ws" by simp
    then show ?thesis by blast
  next
    case False
    with Cons.prems have "x = z" "y \<in> set xs" by auto
    moreover from this obtain vs ws where "xs = vs @ y # ws" by (meson split_list)
    ultimately have "z # xs = [] @ x # vs @ y # ws" by simp
    then show ?thesis by blast
  qed
qed simp

lemma precedes_map: "precedes (map f xs) u v \<Longrightarrow> \<exists>x y. precedes xs x y \<and> f x = u \<and> f y = v"
  by (induction xs) auto

lemma match_behind:
  assumes sp: "search_space n inp outp h0 hd0 as0" and a: "a \<in> set (rest h0 as0 L)" and m: "nmatch (h0 ! a) = Some m"
  shows "\<exists>us vs ws. rest h0 as0 L = us @ a # vs @ m # ws \<and> rest h0 as0 (insert (nid (h0 ! a)) L) = us @ vs @ ws"
proof -
  let ?i = "nid (h0 ! a)" let ?r = "rest h0 as0 L"
  have inj: "inj_on (ev_of h0) (set as0)"
    using sp by (simp add: search_space_def complete_def distinct_map)
  have m0: "m \<in> set as0" "ev_of h0 m = R ?i" and a0: "a \<in> set as0" "ev_of h0 a = C ?i"
    using sp a m by (auto simp: search_space_def rest_def ev_of_def)
  have mi: "nid (h0 ! m) = ?i" by (metis m0(2) ev_id.simps(2) ev_id_ev_of)
  have "complete (rest_hist h0 as0 L)" by (rule rest_complete [OF sp])
  moreover have "R ?i \<in> set (rest_hist h0 as0 L)"
    using m0 mi a by (force simp: rest_hist_def rest_def)
  ultimately have "precedes (map (ev_of h0) ?r) (C ?i) (R ?i)" by (simp add: complete_def rest_hist_def)
  then obtain x y where xy: "precedes ?r x y" "ev_of h0 x = C ?i" "ev_of h0 y = R ?i"
    by (blast dest: precedes_map)
  have "x \<in> set as0" "y \<in> set as0" using precedes_in [OF xy(1)] by (auto simp: rest_def)
  then have "x = a \<and> y = m" using inj_on_eq_iff [OF inj] xy a0 m0 by metis
  with xy(1) obtain us vs ws where s: "?r = us @ a # vs @ m # ws" by (blast dest: precedes_split)
  have same: "x = a \<or> x = m" if "x \<in> set as0" "nid (h0 ! x) = ?i" for x
  proof -
    have "ev_of h0 x = C ?i \<or> ev_of h0 x = R ?i" using that(2) by (simp add: ev_of_def)
    then show ?thesis using inj_on_eq_iff [OF inj] that(1) a0 m0 by metis
  qed
  have "distinct ?r" using rest_distinct [OF sp] by simp
  have "rest h0 as0 (insert ?i L) = filter (\<lambda>x. nid (h0 ! x) \<noteq> ?i) ?r"
    by (auto simp: rest_def intro!: filter_cong)
  also have "\<dots> = filter (\<lambda>x. x \<noteq> a \<and> x \<noteq> m) ?r"
    using same mi by (intro filter_cong) (auto simp: rest_def)
  also have "\<dots> = us @ vs @ ws"
  proof -
    have "filter (\<lambda>x. x \<noteq> a \<and> x \<noteq> m) zs = zs" if "a \<notin> set zs" "m \<notin> set zs" for zs
      using that by (auto intro!: filter_True)
    then show ?thesis using \<open>distinct ?r\<close> by (simp add: s)
  qed
  finally show ?thesis using s by blast
qed

section \<open>One iteration\<close>

definition step_total :: "('v, 's) Model \<Rightarrow> nat \<Rightarrow> (nat \<Rightarrow> 'v iface) \<Rightarrow> (nat \<Rightarrow> 'v iface) \<Rightarrow> bool" where
  "step_total model n inp outp \<longleftrightarrow> (\<forall>i < n. \<forall>s. \<exists>r. Step model s (inp i) (outp i) = Inr r)"

definition equal_sound :: "('v, 's) Model \<Rightarrow> bool" where
  "equal_sound model \<longleftrightarrow> (\<exists>eq. Equal model = Some eq \<and> (\<forall>s t. eq s t \<longrightarrow> s = t))"

definition cache_ok :: "nat \<Rightarrow> (nat set \<Rightarrow> 's \<Rightarrow> bool) \<Rightarrow> (nat set \<times> 's) set \<Rightarrow> 's cache \<Rightarrow> bool" where
  "cache_ok n dead P cache \<longleftrightarrow> (\<forall>k. \<forall>e \<in> set (cache k). bitset_fits n (ce_linearized e) \<and>
     ((bits_of (ce_linearized e), ce_state e) \<in> P \<or> dead (bits_of (ce_linearized e)) (ce_state e)))"

lemma cache_scan_ok:
  assumes "equal_sound model" "bitset_fits n (ce_linearized x)" "\<forall>e \<in> set es. bitset_fits n (ce_linearized e)"
  shows "(\<exists>known. cache_scan model x es = Inr known) \<and>
    (cache_scan model x es = Inr True \<longrightarrow> (\<exists>e \<in> set es. bits_of (ce_linearized e) = bits_of (ce_linearized x) \<and> ce_state e = ce_state x))"
  using assms(3)
proof (induction es)
  case (Cons e es)
  obtain eq where eq: "Equal model = Some eq" "\<forall>s t. eq s t \<longrightarrow> s = t" using assms(1) by (auto simp: equal_sound_def)
  have same: "bitset_equals (ce_linearized x) (ce_linearized e) \<longleftrightarrow> bits_of (ce_linearized x) = bits_of (ce_linearized e)"
    using bitset.same_iff [OF assms(2)] Cons.prems by simp
  show ?case
  proof (cases "bitset_equals (ce_linearized x) (ce_linearized e) \<and> eq (ce_state x) (ce_state e)")
    case True
    then have "cache_scan model x (e # es) = Inr True" by (simp add: eq(1))
    moreover have "bits_of (ce_linearized e) = bits_of (ce_linearized x)" using True same by simp
    moreover have "ce_state e = ce_state x" using True eq(2) by metis
    ultimately show ?thesis by auto
  next
    case False
    then have "cache_scan model x (e # es) = cache_scan model x es" by (auto simp: eq(1))
    then show ?thesis using Cons by auto
  qed
qed (auto intro: exI [of Not False])

lemma cacheContains_ok:
  assumes "equal_sound model" "cache_ok n dead P cache" "bitset_fits n b"
  shows "(\<exists>known. cacheContains model cache \<lparr>ce_linearized = b, ce_state = s\<rparr> = Inr known) \<and>
    (cacheContains model cache \<lparr>ce_linearized = b, ce_state = s\<rparr> = Inr True \<longrightarrow> (bits_of b, s) \<in> P \<or> dead (bits_of b) s)"
  using cache_scan_ok [OF assms(1), of n "\<lparr>ce_linearized = b, ce_state = s\<rparr>" "cache (bitset_hash b)"] assms(2,3)
  unfolding cacheContains_def cache_ok_def by fastforce

lemma cache_ok_add:
  "cache_ok n dead P cache \<Longrightarrow> bitset_fits n b \<Longrightarrow>
   cache_ok n dead (insert (bits_of b, s) P) (cache(k := cache k @ [\<lparr>ce_linearized = b, ce_state = s\<rparr>]))"
  by (auto simp: cache_ok_def)

lemma cache_ok_dead: "cache_ok n dead (insert (L, s) P) cache \<Longrightarrow> dead L s \<Longrightarrow> cache_ok n dead P cache"
  by (auto simp: cache_ok_def)

text \<open>The configuration of a running search, with the nodes still to try.\<close>

definition searching ::
  "nat \<Rightarrow> 'v heap \<Rightarrow> nat \<Rightarrow> nat list \<Rightarrow> ('v, 's) check \<Rightarrow> nat list \<Rightarrow> nat list \<Rightarrow> bool" where
  "searching n h0 hd0 as0 st xs ys \<longleftrightarrow> at_config n h0 hd0 as0 (ck_heap st) (ck_linearized st) \<and>
     ck_head st = hd0 \<and> rest h0 as0 (bits_of (ck_linearized st)) = xs @ ys \<and> ck_entry st = first ys None"

lemma searchingD:
  assumes "searching n h0 hd0 as0 st xs ys"
  shows "rest h0 as0 (bits_of (ck_linearized st)) = xs @ ys" "ck_head st = hd0" "ck_entry st = first ys None"
    "dll (ck_heap st) None (hd0 # rest h0 as0 (bits_of (ck_linearized st))) None"
    "same_payload h0 (ck_heap st)" "bitset_fits n (ck_linearized st)"
  using assms unfolding searching_def at_config_def by blast+

lemma searching_node:
  assumes "searching n h0 hd0 as0 st xs (a # ys)"
  shows "deref (ck_heap st) (ck_entry st) = Inr (ck_heap st ! a)" "nnext (ck_heap st ! a) = first ys None"
    "deref (ck_heap st) (Some (ck_head st)) = Inr (ck_heap st ! hd0)" "nnext (ck_heap st ! hd0) \<noteq> None"
    "nmatch (ck_heap st ! a) = nmatch (h0 ! a)" "nid (ck_heap st ! a) = nid (h0 ! a)"
    "nvalue (ck_heap st ! a) = nvalue (h0 ! a)"
proof -
  let ?h = "ck_heap st"
  have eq: "rest h0 as0 (bits_of (ck_linearized st)) = xs @ a # ys"
    and d: "dll ?h None (hd0 # rest h0 as0 (bits_of (ck_linearized st))) None" and p: "same_payload h0 ?h"
    and e: "ck_head st = hd0" "ck_entry st = Some a"
    using searchingD [OF assms] unfolding first_simps by blast+
  from d e show "deref ?h (ck_entry st) = Inr (?h ! a)" "nnext (?h ! a) = first ys None"
    "deref ?h (Some (ck_head st)) = Inr (?h ! hd0)" "nnext (?h ! hd0) \<noteq> None"
    unfolding eq by (auto simp: first_def split: list.split)
  from p show "nmatch (?h ! a) = nmatch (h0 ! a)" "nid (?h ! a) = nid (h0 ! a)" "nvalue (?h ! a) = nvalue (h0 ! a)"
    by (simp_all add: same_payload_def)
qed

lemma iter_done:
  "searching n h0 hd0 as0 st [] [] \<Longrightarrow> check_iter model 0 st = Inr (Returned True)"
  by (simp add: searching_def at_config_def check_iter_def)

lemma call_values:
  assumes "search_space n inp outp h0 hd0 as0" "searching n h0 hd0 as0 st xs (a # ys)" "nmatch (h0 ! a) = Some m"
  shows "deref (ck_heap st) (Some m) = Inr (ck_heap st ! m)" "nvalue (ck_heap st ! a) = inp (nid (h0 ! a))"
    "nvalue (ck_heap st ! m) = outp (nid (h0 ! a))" "nid (h0 ! a) < n" "nid (h0 ! a) \<notin> bits_of (ck_linearized st)"
proof -
  have r: "a \<in> set (rest h0 as0 (bits_of (ck_linearized st)))" by (simp add: searchingD(1) [OF assms(2)])
  then have a: "a \<in> set as0" "nid (h0 ! a) \<notin> bits_of (ck_linearized st)" by (simp_all add: rest_def)
  have p: "same_payload h0 (ck_heap st)" and d: "dll (ck_heap st) (Some hd0) (rest h0 as0 (bits_of (ck_linearized st))) None"
    using searchingD(4,5) [OF assms(2)] unfolding dll.simps by blast+
  obtain us vs ws where "rest h0 as0 (bits_of (ck_linearized st)) = us @ a # vs @ m # ws"
    using match_behind [OF assms(1) r assms(3)] by blast
  with d show "deref (ck_heap st) (Some m) = Inr (ck_heap st ! m)" by simp
  from assms(1,3) a p show "nvalue (ck_heap st ! a) = inp (nid (h0 ! a))"
    "nvalue (ck_heap st ! m) = outp (nid (h0 ! a))" "nid (h0 ! a) < n"
    by (simp_all add: search_space_def same_payload_def)
  from a show "nid (h0 ! a) \<notin> bits_of (ck_linearized st)" by simp
qed

lemma iter_rejected:
  assumes sp: "search_space n inp outp h0 hd0 as0" and se: "searching n h0 hd0 as0 st xs (a # ys)"
    and m: "nmatch (h0 ! a) = Some m" and st: "Step model (ck_state st) (inp (nid (h0 ! a))) (outp (nid (h0 ! a))) = Inr (False, s')"
  shows "check_iter model 0 st = Inr (Continue (st\<lparr>ck_entry := first ys None\<rparr>))"
  using searching_node [OF se] call_values [OF sp se m] m st by (simp add: check_iter_def)

lemma iter_known:
  assumes sp: "search_space n inp outp h0 hd0 as0" and se: "searching n h0 hd0 as0 st xs (a # ys)"
    and m: "nmatch (h0 ! a) = Some m" and st: "Step model (ck_state st) (inp (nid (h0 ! a))) (outp (nid (h0 ! a))) = Inr (True, s')"
    and b: "bitset_set (ck_linearized st) (nid (h0 ! a)) = Inr b"
    and k: "cacheContains model (ck_cache st) \<lparr>ce_linearized = b, ce_state = s'\<rparr> = Inr True"
  shows "check_iter model 0 st = Inr (Continue (st\<lparr>ck_entry := first ys None\<rparr>))"
  using searching_node [OF se] call_values [OF sp se m] m st b k by (simp add: check_iter_def bitset_clone_def)

definition pushed :: "('v, 's) check \<Rightarrow> nat \<Rightarrow> 's \<Rightarrow> bitset \<Rightarrow> 'v heap \<Rightarrow> ptr \<Rightarrow> ('v, 's) check" where
  "pushed st a s' b h e = st\<lparr>
     ck_cache := (ck_cache st)(bitset_hash b := ck_cache st (bitset_hash b) @ [\<lparr>ce_linearized = b, ce_state = s'\<rparr>]),
     ck_calls := ck_calls st @ [\<lparr>cl_entry = a, cl_state = ck_state st\<rparr>],
     ck_state := s', ck_linearized := b, ck_heap := h, ck_entry := e\<rparr>"

lemma iter_push:
  assumes sp: "search_space n inp outp h0 hd0 as0" and se: "searching n h0 hd0 as0 st xs (a # ys)"
    and m: "nmatch (h0 ! a) = Some m" and st: "Step model (ck_state st) (inp (nid (h0 ! a))) (outp (nid (h0 ! a))) = Inr (True, s')"
    and b: "bitset_set (ck_linearized st) (nid (h0 ! a)) = Inr b" "bitset_fits n b" "bits_of b = insert (nid (h0 ! a)) (bits_of (ck_linearized st))"
    and k: "cacheContains model (ck_cache st) \<lparr>ce_linearized = b, ce_state = s'\<rparr> = Inr False"
  shows "\<exists>h e. check_iter model 0 st = Inr (Continue (pushed st a s' b h e)) \<and>
    searching n h0 hd0 as0 (pushed st a s' b h e) [] (rest h0 as0 (bits_of b)) \<and>
    h ! a = ck_heap st ! a \<and> unlift h (Some a) = Inr (ck_heap st)"
proof -
  let ?h = "ck_heap st"
  have r: "a \<in> set (rest h0 as0 (bits_of (ck_linearized st)))" by (simp add: searchingD(1) [OF se])
  obtain us vs ws where s: "rest h0 as0 (bits_of (ck_linearized st)) = us @ a # vs @ m # ws"
    "rest h0 as0 (bits_of b) = us @ vs @ ws"
    using match_behind [OF sp r m] b(3) by auto
  obtain us' u where u: "hd0 # us = us' @ [u]" by (metis rev_exhaust list.distinct(1))
  have "dll ?h None (hd0 # rest h0 as0 (bits_of (ck_linearized st))) None"
    by (rule searchingD(4) [OF se])
  then have "dll ?h None ((hd0 # us) @ a # vs @ m # ws) None" "distinct ((hd0 # us) @ a # vs @ m # ws)"
    using rest_distinct [OF sp, of "bits_of (ck_linearized st)"] unfolding s(1) by simp_all
  then obtain h where h: "lift ?h (Some a) = Inr h" "dll h None (us' @ u # vs @ ws) None" "same_payload ?h h"
    "h ! a = ?h ! a" "unlift h (Some a) = Inr ?h"
    using lift_ok [of ?h None us' u a vs m ws] searching_node(5) [OF se] m by (auto simp: u)
  have d: "dll h None (hd0 # us @ vs @ ws) None" using h(2) u by (metis append.assoc append_Cons append_Nil)
  have p: "same_payload h0 h" by (rule same_payload_trans [OF searchingD(5) [OF se] h(3)])
  let ?e = "first (us @ vs @ ws) None"
  have e: "ck_entry st = Some a" "ck_head st = hd0" using searchingD(2,3) [OF se] by simp_all
  then have "check_iter model 0 st = Inr (Continue (pushed st a s' b h ?e))"
    using searching_node [OF se] call_values [OF sp se m] m st b(1) k h(1) d e
    by (simp add: check_iter_def bitset_clone_def pushed_def Let_def)
  moreover have "searching n h0 hd0 as0 (pushed st a s' b h ?e) [] (rest h0 as0 (bits_of b))"
    using d p b(2) e by (simp add: searching_def at_config_def pushed_def s(2))
  ultimately show ?thesis using h by blast
qed

lemma iter_pop:
  assumes se: "searching n h0 hd0 as0 st xs (r # ys)" and r: "nmatch (h0 ! r) = None"
    and cs: "ck_calls st = cs @ [\<lparr>cl_entry = a, cl_state = s\<rparr>]"
    and a: "a < length (ck_heap st)" "bitset_clear (ck_linearized st) (nid (ck_heap st ! a)) = Inr b"
    and h: "unlift (ck_heap st) (Some a) = Inr h" "a < length h"
  shows "check_iter model 0 st = Inr (Continue (st\<lparr>ck_state := s, ck_linearized := b, ck_calls := cs, ck_heap := h,
    ck_entry := nnext (h ! a)\<rparr>))"
  using searching_node [OF se] r cs a h by (simp add: check_iter_def)

lemma iter_fail:
  assumes se: "searching n h0 hd0 as0 st xs (r # ys)" and r: "nmatch (h0 ! r) = None" and "ck_calls st = []"
  shows "check_iter model 0 st = Inr (Returned False)"
  using searching_node [OF se] assms by (simp add: check_iter_def)

section \<open>The whole search\<close>

abbreviation running :: "nat \<Rightarrow> int" where
  "running \<equiv> \<lambda>_. 0"

lemma loop_continue: "check_iter model 0 st = Inr (Continue st') \<Longrightarrow> check_loop model running st = check_loop model running st'"
  by (simp add: check_loop.simps [of model running st])

lemma loop_return: "check_iter model 0 st = Inr (Returned b) \<Longrightarrow> check_loop model running st = Some (Inr b)"
  by (simp add: check_loop.simps)

definition dead_config ::
  "('v, 's) Model \<Rightarrow> (nat \<Rightarrow> 'v iface) \<Rightarrow> (nat \<Rightarrow> 'v iface) \<Rightarrow> 'v heap \<Rightarrow> nat list \<Rightarrow> nat set \<Rightarrow> 's \<Rightarrow> bool" where
  "dead_config model inp outp h0 as0 L s \<longleftrightarrow> \<not> lin_from (accepts model inp outp) (rest_hist h0 as0 L) s"

definition tried ::
  "('v, 's) Model \<Rightarrow> (nat \<Rightarrow> 'v iface) \<Rightarrow> (nat \<Rightarrow> 'v iface) \<Rightarrow> 'v heap \<Rightarrow> nat list \<Rightarrow> nat set \<Rightarrow> 's \<Rightarrow> nat \<Rightarrow> bool" where
  "tried model inp outp h0 as0 L s a \<longleftrightarrow> nmatch (h0 ! a) \<noteq> None \<and>
     (\<forall>s'. accepts model inp outp (nid (h0 ! a)) s = Some s' \<longrightarrow>
        dead_config model inp outp h0 as0 (insert (nid (h0 ! a)) L) s')"

text \<open>When all calls before the first return have been tried, the configuration is dead.\<close>

lemma tried_dead:
  assumes "rest h0 as0 L = xs @ r # ys" "nmatch (h0 ! r) = None" "\<forall>a \<in> set xs. tried model inp outp h0 as0 L s a"
  shows "dead_config model inp outp h0 as0 L s"
  unfolding dead_config_def
proof (rule dead_end [where ids = "map (\<lambda>a. nid (h0 ! a)) xs" and r = "nid (h0 ! r)" and vs = "map (ev_of h0) ys"])
  show "rest_hist h0 as0 L = map C (map (\<lambda>a. nid (h0 ! a)) xs) @ R (nid (h0 ! r)) # map (ev_of h0) ys"
    using assms by (auto simp: rest_hist_def ev_of_def tried_def)
qed (use assms(3) in \<open>auto simp: tried_def dead_config_def rest_hist_insert\<close>)

text \<open>
  What the loop comes to from a configuration whose calls in \<open>xs\<close> have been tried: it returns true
  and the configuration can be completed; or it arrives, with everything but the cache as it was,
  at a return entry, and the configuration cannot.
\<close>

definition explored ::
  "('v, 's) Model \<Rightarrow> nat \<Rightarrow> (nat \<Rightarrow> 'v iface) \<Rightarrow> (nat \<Rightarrow> 'v iface) \<Rightarrow> 'v heap \<Rightarrow> nat \<Rightarrow> nat list
   \<Rightarrow> (nat set \<times> 's) set \<Rightarrow> ('v, 's) check \<Rightarrow> bool" where
  "explored model n inp outp h0 hd0 as0 P st \<longleftrightarrow>
     (check_loop model running st = Some (Inr True) \<and>
        \<not> dead_config model inp outp h0 as0 (bits_of (ck_linearized st)) (ck_state st)) \<or>
     (\<exists>cache xs r ys. check_loop model running st = check_loop model running (st\<lparr>ck_cache := cache, ck_entry := Some r\<rparr>) \<and>
        rest h0 as0 (bits_of (ck_linearized st)) = xs @ r # ys \<and> nmatch (h0 ! r) = None \<and>
        cache_ok n (dead_config model inp outp h0 as0) P cache \<and>
        dead_config model inp outp h0 as0 (bits_of (ck_linearized st)) (ck_state st))"

lemma explored_step:
  assumes "check_loop model running st = check_loop model running st'"
    and "st' = st\<lparr>ck_cache := cache, ck_entry := e\<rparr>" and "explored model n inp outp h0 hd0 as0 P st'"
  shows "explored model n inp outp h0 hd0 as0 P st"
  using assms(3) unfolding explored_def assms(1) assms(2) by simp

lemma searching_entry:
  "searching n h0 hd0 as0 st xs (a # ys) \<Longrightarrow>
   searching n h0 hd0 as0 (st\<lparr>ck_cache := cache, ck_entry := first ys None\<rparr>) (xs @ [a]) ys"
  by (simp add: searching_def)

lemma lin_from_call:
  assumes "rest h0 as0 L = xs @ a # ys" "\<forall>x \<in> set xs. nmatch (h0 ! x) \<noteq> None" "nmatch (h0 ! a) \<noteq> None"
    and "accepts model inp outp (nid (h0 ! a)) s = Some s'" "\<not> dead_config model inp outp h0 as0 (insert (nid (h0 ! a)) L) s'"
  shows "\<not> dead_config model inp outp h0 as0 L s"
proof -
  have "\<forall>e \<in> set (map (ev_of h0) xs). is_call e" using assms(2) by (auto simp: ev_of_def)
  then have "takeWhile is_call (map (ev_of h0) xs @ map (ev_of h0) (a # ys)) = map (ev_of h0) xs @ takeWhile is_call (map (ev_of h0) (a # ys))"
    by (intro takeWhile_append2) blast
  moreover have "ev_of h0 a = C (nid (h0 ! a))" using assms(3) by (simp add: ev_of_def)
  ultimately have "C (nid (h0 ! a)) \<in> set (takeWhile is_call (rest_hist h0 as0 L))"
    by (simp add: rest_hist_def assms(1))
  then show ?thesis using assms(4,5) by (auto simp: dead_config_def rest_hist_insert intro: lin_op)
qed

text \<open>Going back from a dead child restores the parent, but for the cache and the position.\<close>

lemma pop_restores:
  assumes se: "searching n h0 hd0 as0 st xs (a # ys)" and h: "h ! a = ck_heap st ! a" "unlift h (Some a) = Inr (ck_heap st)" "length h = length (ck_heap st)"
    and i: "nid (h0 ! a) < n" "nid (h0 ! a) \<notin> bits_of (ck_linearized st)"
    and b: "bitset_fits n b" "bits_of b = insert (nid (h0 ! a)) (bits_of (ck_linearized st))"
    and r: "rest h0 as0 (bits_of b) = us @ r # vs" "nmatch (h0 ! r) = None"
    and ch: "searching n h0 hd0 as0 (pushed st a s' b h e) [] (rest h0 as0 (bits_of b))"
  shows "check_iter model 0 ((pushed st a s' b h e)\<lparr>ck_cache := cache, ck_entry := Some r\<rparr>) =
    Inr (Continue (st\<lparr>ck_cache := cache, ck_entry := first ys None\<rparr>))"
proof -
  let ?st = "(pushed st a s' b h e)\<lparr>ck_cache := cache, ck_entry := Some r\<rparr>"
  have se': "searching n h0 hd0 as0 ?st us (r # vs)"
    using ch r(1) unfolding searching_def by (simp add: pushed_def)
  obtain b' where b': "bitset_clear b (nid (h0 ! a)) = Inr b'" "bitset_fits n b'" "bits_of b' = bits_of (ck_linearized st)"
    using bitset.remove_ok [OF b(1) i(1)] b(2) i(2) by auto
  have "b' = ck_linearized st"
    using b' searchingD(6) [OF se] bits_of_inj by (simp add: bitset_fits_def)
  moreover have "a < length (ck_heap st)" using searching_node(1) [OF se] searchingD(3) [OF se] by (simp split: if_splits)
  ultimately show ?thesis
    using iter_pop [OF se' r(2), of "ck_calls st" a "ck_state st" b' "ck_heap st" model] h b'(1) searching_node(2,6) [OF se]
    by (simp add: pushed_def)
qed

lemma explored_call:
  assumes sp: "search_space n inp outp h0 hd0 as0" and snd: "equal_sound model"
    and se: "searching n h0 hd0 as0 st xs (a # ys)" and m: "nmatch (h0 ! a) = Some m"
    and st: "Step model (ck_state st) (inp (nid (h0 ! a))) (outp (nid (h0 ! a))) = Inr (True, s')"
    and tr: "\<forall>x \<in> set xs. tried model inp outp h0 as0 (bits_of (ck_linearized st)) (ck_state st) x"
    and ca: "cache_ok n (dead_config model inp outp h0 as0) P (ck_cache st)"
    and P: "\<forall>p \<in> P. fst p \<subseteq> bits_of (ck_linearized st)"
    and child: "\<And>st' P'. bits_of (ck_linearized st') = insert (nid (h0 ! a)) (bits_of (ck_linearized st)) \<Longrightarrow>
      searching n h0 hd0 as0 st' [] (rest h0 as0 (bits_of (ck_linearized st'))) \<Longrightarrow>
      cache_ok n (dead_config model inp outp h0 as0) P' (ck_cache st') \<Longrightarrow>
      \<forall>p \<in> P'. fst p \<subseteq> bits_of (ck_linearized st') \<Longrightarrow> explored model n inp outp h0 hd0 as0 P' st'"
    and later: "\<And>cache. cache_ok n (dead_config model inp outp h0 as0) P cache \<Longrightarrow>
      dead_config model inp outp h0 as0 (insert (nid (h0 ! a)) (bits_of (ck_linearized st))) s' \<Longrightarrow>
      explored model n inp outp h0 hd0 as0 P (st\<lparr>ck_cache := cache, ck_entry := first ys None\<rparr>)"
  shows "explored model n inp outp h0 hd0 as0 P st"
proof -
  let ?i = "nid (h0 ! a)" let ?L = "bits_of (ck_linearized st)" let ?dead = "dead_config model inp outp h0 as0"
  note cv = call_values [OF sp se m]
  obtain b where b: "bitset_set (ck_linearized st) ?i = Inr b" "bitset_fits n b" "bits_of b = insert ?i ?L"
    using bitset.add_ok [OF searchingD(6) [OF se] cv(4)] by blast
  have new: "(bits_of b, s') \<notin> P" using P b(3) cv(5) by fastforce
  show ?thesis
  proof (cases "cacheContains model (ck_cache st) \<lparr>ce_linearized = b, ce_state = s'\<rparr> = Inr True")
    case True
    then have d: "?dead (insert ?i ?L) s'" using cacheContains_ok [OF snd ca b(2)] new b(3) by metis
    have "check_loop model running st = check_loop model running (st\<lparr>ck_cache := ck_cache st, ck_entry := first ys None\<rparr>)"
      using loop_continue [OF iter_known [OF sp se m st b(1) True]] by simp
    from explored_step [OF this refl later [OF ca d]] show ?thesis .
  next
    case False
    then have k: "cacheContains model (ck_cache st) \<lparr>ce_linearized = b, ce_state = s'\<rparr> = Inr False"
      using cacheContains_ok [OF snd ca b(2)] by (metis (full_types))
    obtain h e where push: "check_iter model 0 st = Inr (Continue (pushed st a s' b h e))"
      "searching n h0 hd0 as0 (pushed st a s' b h e) [] (rest h0 as0 (bits_of b))"
      "h ! a = ck_heap st ! a" "unlift h (Some a) = Inr (ck_heap st)"
      using iter_push [OF sp se m st b k] by blast
    let ?st = "pushed st a s' b h e"
    have "explored model n inp outp h0 hd0 as0 (insert (bits_of b, s') P) ?st"
      by (rule child) (use push(2) b(3) P cache_ok_add [OF ca b(2)] in \<open>auto simp: pushed_def\<close>)
    then consider (yes) "check_loop model running ?st = Some (Inr True)" "\<not> ?dead (insert ?i ?L) s'"
      | (no) cache us r vs where "check_loop model running ?st = check_loop model running (?st\<lparr>ck_cache := cache, ck_entry := Some r\<rparr>)"
        "rest h0 as0 (bits_of b) = us @ r # vs" "nmatch (h0 ! r) = None"
        "cache_ok n ?dead (insert (bits_of b, s') P) cache" "?dead (insert ?i ?L) s'"
      unfolding explored_def by (auto simp: pushed_def b(3))
    then show ?thesis
    proof cases
      case yes
      have "accepts model inp outp ?i (ck_state st) = Some s'" by (simp add: accepts_def st)
      then have "\<not> ?dead ?L (ck_state st)"
        using lin_from_call [OF searchingD(1) [OF se] _ _ _ yes(2)] tr m by (auto simp: tried_def)
      then show ?thesis using yes(1) loop_continue [OF push(1)] by (simp add: explored_def)
    next
      case no
      have len: "length h = length (ck_heap st)"
        using searchingD(5) [OF push(2)] searchingD(5) [OF se] by (simp add: same_payload_def pushed_def)
      have "check_loop model running st = check_loop model running (st\<lparr>ck_cache := cache, ck_entry := first ys None\<rparr>)"
        using loop_continue [OF push(1)] no(1)
          loop_continue [OF pop_restores [OF se push(3,4) len cv(4,5) b(2,3) no(2,3) push(2), where cache = cache]] by simp
      moreover have "cache_ok n ?dead P cache" using cache_ok_dead no(4,5) b(3) by metis
      ultimately show ?thesis using explored_step [OF _ refl later [OF _ no(5)]] by blast
    qed
  qed
qed

lemma explore_position:
  assumes sp: "search_space n inp outp h0 hd0 as0" and snd: "equal_sound model" and tot: "step_total model n inp outp"
    and P: "\<forall>p \<in> P. fst p \<subseteq> L"
    and child: "\<And>st' P'. length (rest h0 as0 (bits_of (ck_linearized st'))) < length (rest h0 as0 L) \<Longrightarrow>
      searching n h0 hd0 as0 st' [] (rest h0 as0 (bits_of (ck_linearized st'))) \<Longrightarrow>
      cache_ok n (dead_config model inp outp h0 as0) P' (ck_cache st') \<Longrightarrow>
      \<forall>p \<in> P'. fst p \<subseteq> bits_of (ck_linearized st') \<Longrightarrow> explored model n inp outp h0 hd0 as0 P' st'"
  shows "searching n h0 hd0 as0 st xs ys \<Longrightarrow> bits_of (ck_linearized st) = L \<Longrightarrow>
    \<forall>x \<in> set xs. tried model inp outp h0 as0 L (ck_state st) x \<Longrightarrow>
    cache_ok n (dead_config model inp outp h0 as0) P (ck_cache st) \<Longrightarrow> explored model n inp outp h0 hd0 as0 P st"
proof (induction ys arbitrary: st xs)
  case Nil
  have "xs = []"
  proof (rule ccontr)
    assume "xs \<noteq> []"
    moreover have "rest_hist h0 as0 L = map (ev_of h0) xs" using searchingD(1) [OF Nil(1)] Nil(2) by (simp add: rest_hist_def)
    ultimately obtain i where "R i \<in> ev_of h0 ` set xs"
      using complete_has_return [OF rest_complete [OF sp, of L]] by auto
    then show False using Nil(3) by (auto simp: ev_of_def tried_def split: if_splits)
  qed
  moreover have "rest_hist h0 as0 L = []" using searchingD(1) [OF Nil(1)] Nil(2) \<open>xs = []\<close> by (simp add: rest_hist_def)
  ultimately show ?case
    using loop_return [OF iter_done] Nil(1,2) by (simp add: explored_def dead_config_def lin_nil)
next
  case (Cons a ys)
  note se = Cons.prems(1)
  have r: "rest h0 as0 L = xs @ a # ys" using searchingD(1) [OF se] Cons.prems(2) by simp
  show ?case
  proof (cases "nmatch (h0 ! a)")
    case None
    have "st\<lparr>ck_cache := ck_cache st, ck_entry := Some a\<rparr> = st" using searchingD(3) [OF se] by simp
    with tried_dead [OF r None Cons.prems(3)] r None Cons.prems(2,4) show ?thesis
      unfolding explored_def by metis
  next
    case (Some m)
    note cv = call_values [OF sp se Some]
    obtain ok s' where st: "Step model (ck_state st) (inp (nid (h0 ! a))) (outp (nid (h0 ! a))) = Inr (ok, s')"
      using tot cv(4) unfolding step_total_def by (metis surj_pair)
    have later: "explored model n inp outp h0 hd0 as0 P (st\<lparr>ck_cache := cache, ck_entry := first ys None\<rparr>)"
      if "cache_ok n (dead_config model inp outp h0 as0) P cache"
        "tried model inp outp h0 as0 L (ck_state st) a" for cache
      by (rule Cons.IH [OF searching_entry [OF se]]) (use that Cons.prems in auto)
    show ?thesis
    proof (cases ok)
      case False
      then have "tried model inp outp h0 as0 L (ck_state st) a" using st Some by (simp add: tried_def accepts_def)
      moreover have "check_loop model running st = check_loop model running (st\<lparr>ck_cache := ck_cache st, ck_entry := first ys None\<rparr>)"
        using loop_continue [OF iter_rejected [OF sp se Some]] st False by simp
      ultimately show ?thesis using explored_step [OF _ refl later] Cons.prems(4) by blast
    next
      case True
      have sh: "length (rest h0 as0 (insert (nid (h0 ! a)) L)) < length (rest h0 as0 L)"
        using match_behind [OF sp _ Some, of L] by (fastforce simp: r)
      show ?thesis
      proof (rule explored_call [OF sp snd se Some])
        show "explored model n inp outp h0 hd0 as0 P (st\<lparr>ck_cache := cache, ck_entry := first ys None\<rparr>)"
          if "cache_ok n (dead_config model inp outp h0 as0) P cache"
            "dead_config model inp outp h0 as0 (insert (nid (h0 ! a)) (bits_of (ck_linearized st))) s'" for cache
          using later [OF that(1)] that(2) Cons.prems(2) st Some True by (simp add: tried_def accepts_def)
        show "explored model n inp outp h0 hd0 as0 P' st'"
          if "bits_of (ck_linearized st') = insert (nid (h0 ! a)) (bits_of (ck_linearized st))"
            "searching n h0 hd0 as0 st' [] (rest h0 as0 (bits_of (ck_linearized st')))"
            "cache_ok n (dead_config model inp outp h0 as0) P' (ck_cache st')"
            "\<forall>p \<in> P'. fst p \<subseteq> bits_of (ck_linearized st')" for st' P'
          by (rule child [OF _ that(2-4)]) (use sh that(1) Cons.prems(2) in simp)
      qed (use st True Cons.prems P in auto)
    qed
  qed
qed

lemma explore_all:
  assumes sp: "search_space n inp outp h0 hd0 as0" and snd: "equal_sound model" and tot: "step_total model n inp outp"
  shows "searching n h0 hd0 as0 st [] (rest h0 as0 (bits_of (ck_linearized st))) \<Longrightarrow>
    cache_ok n (dead_config model inp outp h0 as0) P (ck_cache st) \<Longrightarrow>
    \<forall>p \<in> P. fst p \<subseteq> bits_of (ck_linearized st) \<Longrightarrow> explored model n inp outp h0 hd0 as0 P st"
proof (induction "length (rest h0 as0 (bits_of (ck_linearized st)))" arbitrary: st P rule: less_induct)
  case less
  show ?case
    by (rule explore_position [OF sp snd tot less.prems(3) less.hyps less.prems(1) refl]) (use less.prems in auto)
qed

section \<open>From entries to the search\<close>

definition entry_ev :: "'v entry \<Rightarrow> ev" where
  "entry_ev e = (if ekind e = returnEntry then R (eid e) else C (eid e))"

text \<open>The value that a list of entries gives for a call or a return.\<close>

definition value_of :: "'v entry list \<Rightarrow> ev \<Rightarrow> 'v iface" where
  "value_of es v = (case map_of (map (\<lambda>e. (entry_ev e, evalue e)) es) v of Some x \<Rightarrow> x | None \<Rightarrow> None)"

lemma value_of_entry:
  assumes "distinct (map entry_ev es)" "e \<in> set es"
  shows "value_of es (entry_ev e) = evalue e"
proof -
  have "map_of (map (\<lambda>e. (entry_ev e, evalue e)) es) (entry_ev e) = Some (evalue e)"
    using assms by (intro map_of_is_SomeI) (auto simp: comp_def)
  then show ?thesis by (simp add: value_of_def)
qed

fun calls_match :: "'v entry list \<Rightarrow> bool" where
  "calls_match [] = True"
| "calls_match (e # es) \<longleftrightarrow> (ekind e = callEntry \<longrightarrow> R (eid e) \<in> entry_ev ` set es) \<and> calls_match es"

lemma complete_calls_match:
  "distinct (map entry_ev es) \<Longrightarrow> \<forall>e \<in> set es. ekind e = callEntry \<longrightarrow> precedes (map entry_ev es) (C (eid e)) (R (eid e)) \<Longrightarrow>
   calls_match es"
proof (induction es)
  case (Cons e es)
  have "calls_match es"
  proof (rule Cons.IH)
    show "\<forall>x \<in> set es. ekind x = callEntry \<longrightarrow> precedes (map entry_ev es) (C (eid x)) (R (eid x))"
    proof (intro ballI impI)
      fix x assume x: "x \<in> set es" "ekind x = callEntry"
      then have "entry_ev x = C (eid x)" by (simp add: entry_ev_def)
      then have "entry_ev e \<noteq> C (eid x)" using x Cons.prems(1) by (metis distinct.simps(2) image_eqI list.set_map list.simps(9))
      with x Cons.prems(2) show "precedes (map entry_ev es) (C (eid x)) (R (eid x))" by auto
    qed
  qed (use Cons.prems in simp)
  moreover have "R (eid e) \<in> entry_ev ` set es" if "ekind e = callEntry"
    using Cons.prems(2) that precedes_in [of "map entry_ev es"] by auto
  ultimately show ?case by simp
qed simp

lemma match_of_return: "R i \<in> entry_ev ` set es \<Longrightarrow> match_of es i \<noteq> None"
  by (induction es) (auto simp: entry_ev_def split: if_splits)

lemma match_of_node: "holds h es \<Longrightarrow> match_of es i = Some m \<Longrightarrow> m < length es \<and> ev_of h m = R i"
  by (induction es) (auto simp: ev_of_def split: if_splits)

lemma holds_nodes:
  "holds h es \<Longrightarrow> calls_match es \<Longrightarrow> map (ev_of h) (addresses (length es)) = map entry_ev es \<and>
     (\<forall>a < length es. \<exists>e \<in> set es. entry_ev e = ev_of h a \<and> nvalue (h ! a) = evalue e) \<and>
     (\<forall>a < length es. \<forall>m. nmatch (h ! a) = Some m \<longrightarrow> m < length es \<and> ev_of h m = R (nid (h ! a)))"
proof (induction es)
  case Nil
  then show ?case by (simp add: addresses_def)
next
  case (Cons e es)
  have holds_tail: "holds h es" and match_tail: "calls_match es" using Cons.prems by simp_all
  have ev: "ev_of h (length es) = entry_ev e"
    using Cons.prems match_of_return [of "eid e" es] by (cases "ekind e") (auto simp: ev_of_def entry_ev_def)
  have m: "m < length es \<and> ev_of h m = R (eid e)" if "nmatch (h ! length es) = Some m" for m
    using Cons.prems(1) that match_of_node [of h es "eid e" m] by (auto split: if_splits)
  note IH = Cons.IH [OF holds_tail match_tail]
  have "map (ev_of h) (addresses (length (e # es))) = map entry_ev (e # es)"
    using IH ev by (simp add: addresses_Suc)
  moreover have "\<exists>x \<in> set (e # es). entry_ev x = ev_of h a \<and> nvalue (h ! a) = evalue x" if "a < length (e # es)" for a
  proof (cases "a = length es")
    case True
    with ev Cons.prems(1) show ?thesis by simp
  next
    case False
    with that IH show ?thesis by auto
  qed
  moreover have "m < length (e # es) \<and> ev_of h m = R (nid (h ! a))"
    if "a < length (e # es)" "nmatch (h ! a) = Some m" for a m
  proof (cases "a = length es")
    case True
    with m [of m] that(2) Cons.prems(1) show ?thesis by simp
  next
    case False
    with that(1) have "a < length es" by simp
    with IH that(2) have "m < length es" "ev_of h m = R (nid (h ! a))" by blast+
    then show ?thesis by simp
  qed
  ultimately show ?case by blast
qed

lemma ev_of_same_payload: "same_payload h h' \<Longrightarrow> ev_of h' = ev_of h"
  by (auto simp: ev_of_def same_payload_def fun_eq_iff)

lemma complete_match: "complete (map entry_ev es) \<Longrightarrow> calls_match es"
proof (rule complete_calls_match)
  assume c: "complete (map entry_ev es)"
  then show "distinct (map entry_ev es)" by (simp add: complete_def)
  show "\<forall>e \<in> set es. ekind e = callEntry \<longrightarrow> precedes (map entry_ev es) (C (eid e)) (R (eid e))"
  proof (intro ballI impI)
    fix e assume e: "e \<in> set es" "ekind e = callEntry"
    then have "C (eid e) \<in> set (map entry_ev es)" by (force simp: entry_ev_def)
    with c show "precedes (map entry_ev es) (C (eid e)) (R (eid e))" by (simp add: complete_def)
  qed
qed

lemma holds_search_space:
  assumes es: "complete (map entry_ev es)" "\<forall>e \<in> set es. eid e < n" and h: "holds h es" and hd0: "length es \<le> hd0"
  shows "search_space n (\<lambda>i. value_of es (C i)) (\<lambda>i. value_of es (R i)) h hd0 (addresses (length es))"
proof -
  have d: "distinct (map entry_ev es)" using es(1) by (simp add: complete_def)
  note nodes = holds_nodes [OF h complete_match [OF es(1)]]
  have v: "nvalue (h ! a) = value_of es (ev_of h a)" if "a < length es" for a
    using nodes that value_of_entry [OF d] by metis
  have "nid (h ! a) < n" if "a < length es" for a
  proof -
    have "ev_of h a \<in> set (map entry_ev es)" using nodes that by (metis image_eqI list.set_map)
    then obtain e where "e \<in> set es" "ev_of h a = entry_ev e" by auto
    moreover from this(2) have "nid (h ! a) = eid e" by (simp add: ev_of_def entry_ev_def split: if_splits)
    ultimately show ?thesis using es(2) by simp
  qed
  moreover have "m \<in> set (addresses (length es)) \<and> ev_of h m = R (nid (h ! a)) \<and>
      nvalue (h ! a) = value_of es (C (nid (h ! a))) \<and> nvalue (h ! m) = value_of es (R (nid (h ! a)))"
    if a: "a < length es" "nmatch (h ! a) = Some m" for a m
  proof -
    have m: "m < length es" "ev_of h m = R (nid (h ! a))" using nodes a by blast+
    moreover have "ev_of h a = C (nid (h ! a))" using a(2) by (simp add: ev_of_def)
    ultimately show ?thesis using v [OF a(1)] v [OF m(1)] by simp
  qed
  ultimately show ?thesis
    using es(1) hd0 nodes by (simp add: search_space_def)
qed

lemma holds_hist:
  assumes "complete (map entry_ev es)" "holds h es"
  shows "map (ev_of h) (addresses (length es)) = map entry_ev es"
  using holds_nodes [OF assms(2) complete_match [OF assms(1)]] by blast

lemma rest_empty [simp]: "rest h as {} = as"
  by (simp add: rest_def)

text \<open>The state before the first iteration.\<close>

lemma check_start_ok:
  assumes "linked h es"
  shows "\<exists>h'. check_start model h (first (addresses (length es)) None) = Some (Inr
      \<lparr>ck_heap = h', ck_linearized = newBitset (length es div 2), ck_cache = (\<lambda>_. []), ck_calls = [],
       ck_state = Init model, ck_head = length h, ck_entry = first (addresses (length es)) None\<rparr>) \<and>
    dll h' None (length h # addresses (length es)) None \<and> holds h' es"
proof -
  have l: "length h = length es" "dll h None (addresses (length es)) None" "holds h es" using assms by (simp_all add: linked_def)
  obtain h' where h': "insertBefore (h @ [head_node]) (length h) (first (addresses (length es)) None) = Inr h'"
    "dll h' None (length h # addresses (length es)) None" "same_payload (h @ [head_node]) h'"
    using insertBefore_front [OF l(2), of head_node] by (auto simp: head_node_def)
  have "holds h' es" using holds_same_payload [OF h'(3)] holds_extend [of es h] l by simp
  then show ?thesis using h' node_length_dll [OF l(2)] by (simp add: check_start_def)
qed

lemma checkSingle_linearizable:
  assumes es: "complete (map entry_ev es)" "\<forall>e \<in> set es. eid e < length es div 2"
    and snd: "equal_sound model"
    and tot: "step_total model (length es div 2) (\<lambda>i. value_of es (C i)) (\<lambda>i. value_of es (R i))"
    and mk: "makeLinkedEntries es = Inr (h, root)"
  shows "checkSingle model h root running = Some (Inr (linearizable
    (accepts model (\<lambda>i. value_of es (C i)) (\<lambda>i. value_of es (R i))) (map entry_ev es) (Init model)))"
proof -
  let ?n = "length es div 2" let ?inp = "\<lambda>i. value_of es (C i)" let ?outp = "\<lambda>i. value_of es (R i)"
  let ?as = "addresses (length es)"
  have root: "root = first ?as None" and li: "linked h es" using makeLinkedEntries_ok [of es] mk by auto
  obtain h' where st: "check_start model h root = Some (Inr
      \<lparr>ck_heap = h', ck_linearized = newBitset ?n, ck_cache = (\<lambda>_. []), ck_calls = [],
       ck_state = Init model, ck_head = length h, ck_entry = first ?as None\<rparr>)"
    and d: "dll h' None (length h # ?as) None" and ho: "holds h' es"
    using check_start_ok [OF li, of model] root by blast
  let ?st = "\<lparr>ck_heap = h', ck_linearized = newBitset ?n, ck_cache = (\<lambda>_. []), ck_calls = [],
       ck_state = Init model, ck_head = length h, ck_entry = first ?as None\<rparr>"
  have l: "length h = length es" using li by (simp add: linked_def)
  have sp: "search_space ?n ?inp ?outp h' (length h) ?as"
    by (rule holds_search_space [OF es ho]) (simp add: l)
  have se: "searching ?n h' (length h) ?as ?st [] (rest h' ?as (bits_of (ck_linearized ?st)))"
    using d by (simp add: searching_def at_config_def newBitset_empty bitset_fits_def)
  have H: "rest_hist h' ?as {} = map entry_ev es"
    using holds_hist [OF es(1) ho] by (simp add: rest_hist_def)
  have "explored model ?n ?inp ?outp h' (length h) ?as {} ?st"
    by (rule explore_all [OF sp snd tot se]) (simp_all add: cache_ok_def)
  moreover have "linearizable (accepts model ?inp ?outp) (map entry_ev es) (Init model) \<longleftrightarrow>
      \<not> dead_config model ?inp ?outp h' ?as {} (Init model)"
    using linearizable_iff [OF es(1)] by (simp add: dead_config_def H)
  moreover have "check_loop model running (?st\<lparr>ck_cache := cache, ck_entry := Some r\<rparr>) = Some (Inr False)"
    if "?as = xs @ r # ys" "nmatch (h' ! r) = None" for cache xs r ys
  proof (rule loop_return, rule iter_fail)
    show "searching ?n h' (length h) ?as (?st\<lparr>ck_cache := cache, ck_entry := Some r\<rparr>) xs (r # ys)"
      using d that(1) by (simp add: searching_def at_config_def newBitset_empty bitset_fits_def)
  qed (use that in simp_all)
  ultimately show ?thesis
    unfolding explored_def checkSingle_def st by (auto simp: newBitset_empty)
qed

end
