(* ===== verification/Lin_Verdict.thy ===== *)
theory Lin_Verdict
  imports Lin_Search
begin

text \<open>
  The entry points of \<^verbatim>\<open>linearizability/linearizability.go\<close>: \<^verbatim>\<open>CheckOperationsTimeout\<close> and
  \<^verbatim>\<open>CheckEventsTimeout\<close> start one goroutine per partition and collect the results from a channel,
  with a flag that stops the other searches after the first failure. The goroutines and the
  collecting loop interleave freely, one iteration of a search at a time. A history of operations
  is specified by its call and return times.
\<close>

section \<open>Goroutines and the collecting loop\<close>

datatype ('v, 's) searcher =
    Spawned "'v heap" ptr
  | Searching "('v, 's) check"
  | Sending bool
  | Sent

record ('v, 's) collector =
  searchers :: "('v, 's) searcher list"
  kill :: int
  ok :: bool
  count :: nat
  returned :: "bool option"
  panicked :: "go_error option"

text \<open>The body of the goroutine, \<^verbatim>\<open>results <- checkSingle(model, l, &kill)\<close>, one iteration at a time.\<close>

fun search_iter :: "('v, 's) Model \<Rightarrow> int \<Rightarrow> ('v, 's) searcher \<Rightarrow> ('v, 's) searcher go option" where
  "search_iter model k (Spawned h l) =
     (case check_start model h l of None \<Rightarrow> None | Some r \<Rightarrow> Some (mapG Searching r))"
| "search_iter model k (Searching st) =
     Some (mapG (\<lambda>out. case out of Continue st' \<Rightarrow> Searching st' | Returned b \<Rightarrow> Sending b) (check_iter model k st))"
| "search_iter model k s = None"

definition receive :: "('v, 's) collector \<Rightarrow> nat \<Rightarrow> bool \<Rightarrow> ('v, 's) collector" where
  "receive c i result =
     (let ok' = (ok c \<and> result); c1 = c\<lparr>searchers := (searchers c)[i := Sent], ok := ok'\<rparr> in
      if \<not> ok' then c1\<lparr>kill := 1, returned := Some ok'\<rparr>
      else let c2 = c1\<lparr>count := count c1 + 1\<rparr> in
        if count c2 \<ge> length (searchers c2) then c2\<lparr>returned := Some ok'\<rparr> else c2)"

inductive collect_step :: "('v, 's) Model \<Rightarrow> int \<Rightarrow> ('v, 's) collector \<Rightarrow> ('v, 's) collector \<Rightarrow> bool"
  for model timeout where
  search: "panicked c = None \<Longrightarrow> i < length (searchers c) \<Longrightarrow>
     search_iter model (kill c) (searchers c ! i) = Some (Inr s) \<Longrightarrow>
     collect_step model timeout c (c\<lparr>searchers := (searchers c)[i := s]\<rparr>)"
| panic: "panicked c = None \<Longrightarrow> i < length (searchers c) \<Longrightarrow>
     search_iter model (kill c) (searchers c ! i) = Some (Inl e) \<Longrightarrow>
     collect_step model timeout c (c\<lparr>panicked := Some e\<rparr>)"
| result: "panicked c = None \<Longrightarrow> returned c = None \<Longrightarrow> i < length (searchers c) \<Longrightarrow> searchers c ! i = Sending b \<Longrightarrow>
     collect_step model timeout c (receive c i b)"
| timed_out: "panicked c = None \<Longrightarrow> returned c = None \<Longrightarrow> timeout > 0 \<Longrightarrow>
     collect_step model timeout c (c\<lparr>returned := Some (ok c)\<rparr>)"

inductive_cases collect_stepE: "collect_step model timeout c c'"

fun spawn_all :: "'v entry list list \<Rightarrow> ('v, 's) searcher list go" where
  "spawn_all [] = Inr []"
| "spawn_all (es # ess) =
     bindG (makeLinkedEntries es) (\<lambda>(h, l). mapG (\<lambda>ss. Spawned h l # ss) (spawn_all ess))"

definition collect_start :: "'v entry list list \<Rightarrow> ('v, 's) collector go" where
  "collect_start ess =
     mapG (\<lambda>ss. \<lparr>searchers = ss, kill = 0, ok = True, count = 0, returned = None, panicked = None\<rparr>) (spawn_all ess)"

fun call_field :: "('a \<Rightarrow> 'b go) option \<Rightarrow> 'a \<Rightarrow> 'b go" where
  "call_field None x = Inl NilDereference"
| "call_field (Some f) x = f x"

definition CheckOperations_entries ::
  "('v entry list \<Rightarrow> 'v entry list) \<Rightarrow> ('v, 's) Model \<Rightarrow> 'v Operation list \<Rightarrow> 'v entry list list go" where
  "CheckOperations_entries sort_Sort model history =
     mapG (map (makeEntries sort_Sort)) (call_field (Partition (fillDefault model)) history)"

definition CheckEvents_entries :: "('v, 's) Model \<Rightarrow> 'v Event list \<Rightarrow> 'v entry list list go" where
  "CheckEvents_entries model history =
     mapG (map (\<lambda>es. convertEntries (renumber es))) (call_field (PartitionEvent (fillDefault model)) history)"

text \<open>The possible results of the entry points; there may be none, when no run ends.\<close>

definition CheckOperationsTimeout ::
  "('v entry list \<Rightarrow> 'v entry list) \<Rightarrow> ('v, 's) Model \<Rightarrow> 'v Operation list \<Rightarrow> int \<Rightarrow> bool \<Rightarrow> bool" where
  "CheckOperationsTimeout sort_Sort model history timeout b \<longleftrightarrow>
     (\<exists>ess c0 c. CheckOperations_entries sort_Sort model history = Inr ess \<and> collect_start ess = Inr c0 \<and>
        run_from (collect_step (fillDefault model) timeout) c0 c \<and> returned c = Some b)"

definition CheckOperations ::
  "('v entry list \<Rightarrow> 'v entry list) \<Rightarrow> ('v, 's) Model \<Rightarrow> 'v Operation list \<Rightarrow> bool \<Rightarrow> bool" where
  "CheckOperations sort_Sort model history b \<longleftrightarrow> CheckOperationsTimeout sort_Sort model history 0 b"

definition CheckEventsTimeout :: "('v, 's) Model \<Rightarrow> 'v Event list \<Rightarrow> int \<Rightarrow> bool \<Rightarrow> bool" where
  "CheckEventsTimeout model history timeout b \<longleftrightarrow>
     (\<exists>ess c0 c. CheckEvents_entries model history = Inr ess \<and> collect_start ess = Inr c0 \<and>
        run_from (collect_step (fillDefault model) timeout) c0 c \<and> returned c = Some b)"

definition CheckEvents :: "('v, 's) Model \<Rightarrow> 'v Event list \<Rightarrow> bool \<Rightarrow> bool" where
  "CheckEvents model history b \<longleftrightarrow> CheckEventsTimeout model history 0 b"

section \<open>Every received result is the answer of its search\<close>

text \<open>
  The flag is raised only in the step in which the loop returns, so every result that is received
  comes from a search that ran undisturbed.
\<close>

definition answer :: "('v, 's) Model \<Rightarrow> ('v, 's) searcher \<Rightarrow> bool go option" where
  "answer model s = (case s of
      Spawned h l \<Rightarrow> checkSingle model h l running
    | Searching st \<Rightarrow> check_loop model running st
    | Sending b \<Rightarrow> Some (Inr b)
    | Sent \<Rightarrow> None)"

lemma search_iter_answer:
  "search_iter model 0 s = Some (Inr s') \<Longrightarrow> answer model s' = answer model s"
proof (cases s)
  case (Spawned h l)
  assume "search_iter model 0 s = Some (Inr s')"
  then show ?thesis by (auto simp: Spawned answer_def checkSingle_def mapG_eq_Inr_iff split: option.splits)
next
  case (Searching st)
  assume "search_iter model 0 s = Some (Inr s')"
  then obtain out where "check_iter model 0 st = Inr out"
    "s' = (case out of Continue st' \<Rightarrow> Searching st' | Returned b \<Rightarrow> Sending b)"
    by (auto simp: Searching mapG_eq_Inr_iff)
  then show ?thesis
    using loop_continue [of model st] loop_return [of model st] by (cases out) (auto simp: Searching answer_def)
qed simp_all

definition collecting :: "('v, 's) Model \<Rightarrow> bool list \<Rightarrow> int \<Rightarrow> ('v, 's) collector \<Rightarrow> bool" where
  "collecting model bs timeout c \<longleftrightarrow> length (searchers c) = length bs \<and>
     (case returned c of
        None \<Rightarrow> kill c = 0 \<and> ok c \<and> panicked c = None \<and> (bs = [] \<or> count c < length bs) \<and>
          count c = card {i. i < length bs \<and> searchers c ! i = Sent} \<and>
          (\<forall>i < length bs. if searchers c ! i = Sent then bs ! i else answer model (searchers c ! i) = Some (Inr (bs ! i)))
      | Some b \<Rightarrow> (b \<longrightarrow> timeout > 0 \<or> (\<forall>x \<in> set bs. x)) \<and> (\<not> b \<longrightarrow> (\<exists>x \<in> set bs. \<not> x)))"

lemma search_iter_not_sent:
  "search_iter model k s = Some r \<Longrightarrow> s \<noteq> Sent" "search_iter model k s = Some (Inr s') \<Longrightarrow> s' \<noteq> Sent"
  by (auto elim!: search_iter.elims simp: mapG_eq_Inr_iff mapG_def split: outcome.splits option.splits sum.splits)

lemma search_iter_panic: "search_iter model 0 s = Some (Inl e) \<Longrightarrow> answer model s = Some (Inl e)"
proof (cases s)
  case (Spawned h l)
  assume "search_iter model 0 s = Some (Inl e)"
  then show ?thesis
    by (auto simp: Spawned answer_def checkSingle_def mapG_def split: option.splits sum.splits)
next
  case (Searching st)
  assume "search_iter model 0 s = Some (Inl e)"
  then have "check_iter model 0 st = Inl e" by (simp add: Searching mapG_def split: sum.splits)
  then show ?thesis by (simp add: Searching answer_def check_loop.simps)
qed simp_all

lemma card_sent_update:
  assumes "i < length xs" "P (xs ! i) = P x"
  shows "{j. j < n \<and> P (xs[i := x] ! j)} = {j. j < n \<and> P (xs ! j)}"
proof -
  have "P (xs[i := x] ! j) = P (xs ! j)" for j using assms by (cases "j = i") simp_all
  then show ?thesis by simp
qed

lemma collecting_search:
  assumes inv: "collecting model bs timeout c" and i: "i < length (searchers c)"
    and s: "search_iter model (kill c) (searchers c ! i) = Some (Inr s)"
  shows "collecting model bs timeout (c\<lparr>searchers := (searchers c)[i := s]\<rparr>)"
proof (cases "returned c")
  case None
  then have k: "kill c = 0" using inv by (simp add: collecting_def)
  have ns: "searchers c ! i \<noteq> Sent" "s \<noteq> Sent" using search_iter_not_sent s by metis+
  have "answer model s = answer model (searchers c ! i)" using search_iter_answer s k by metis
  moreover have "{j. j < length bs \<and> (searchers c)[i := s] ! j = Sent} = {j. j < length bs \<and> searchers c ! j = Sent}"
    using card_sent_update [of i "searchers c" "\<lambda>x. x = Sent" s] i ns by simp
  ultimately show ?thesis using inv None i ns by (auto simp: collecting_def nth_list_update)
qed (use inv in \<open>auto simp: collecting_def\<close>)

lemma collecting_receive:
  assumes inv: "collecting model bs timeout c" and r: "returned c = None" and i: "i < length (searchers c)" "searchers c ! i = Sending b"
  shows "collecting model bs timeout (receive c i b)"
proof -
  let ?S = "\<lambda>xs. {j. j < length bs \<and> xs ! j = Sent}" let ?xs = "(searchers c)[i := Sent]"
  have l: "length (searchers c) = length bs" and cnt: "count c = card (?S (searchers c))" and c: "ok c" "kill c = 0" "panicked c = None"
    and a: "\<And>j. j < length bs \<Longrightarrow> if searchers c ! j = Sent then bs ! j else answer model (searchers c ! j) = Some (Inr (bs ! j))"
    using inv r by (simp_all add: collecting_def)
  have b: "bs ! i = b" using a [of i] i l by (simp add: answer_def)
  show ?thesis
  proof (cases b)
    case False
    then have "\<exists>x \<in> set bs. \<not> x" using b i l by (metis nth_mem)
    then show ?thesis using False l by (auto simp: receive_def collecting_def Let_def)
  next
    case True
    have S: "?S ?xs = insert i (?S (searchers c))" using i l by (auto simp: nth_list_update)
    then have card: "card (?S ?xs) = Suc (count c)" using cnt i by simp
    have sent: "bs ! j" if "j < length bs" "?xs ! j = Sent" for j
      using that a [of j] b True i l by (cases "j = i") auto
    show ?thesis
    proof (cases "Suc (count c) \<ge> length bs")
      case full: True
      have "?S ?xs = {..<length bs}"
        by (rule card_seteq) (use card full in auto)
      then have "bs ! j" if "j < length bs" for j using sent [OF that] that by blast
      then have "\<forall>x \<in> set bs. x" by (auto simp: in_set_conv_nth)
      then show ?thesis using full True c l by (auto simp: receive_def collecting_def Let_def)
    next
      case False
      have "if ?xs ! j = Sent then bs ! j else answer model (?xs ! j) = Some (Inr (bs ! j))" if "j < length bs" for j
        using sent [OF that] a [OF that] i(1) by (cases "j = i") (auto simp: nth_list_update split: if_splits)
      then show ?thesis using False True c l card r by (simp add: receive_def collecting_def Let_def)
    qed
  qed
qed

lemma collecting_step:
  assumes "collecting model bs timeout c" "collect_step model timeout c c'"
  shows "collecting model bs timeout c'"
  using assms(2)
proof (cases rule: collect_step.cases)
  case (search i s)
  then show ?thesis using collecting_search [OF assms(1)] by simp
next
  case (panic i e)
  have False if n: "returned c = None"
  proof -
    have "kill c = 0" "if searchers c ! i = Sent then bs ! i else answer model (searchers c ! i) = Some (Inr (bs ! i))"
      using assms(1) n panic(3) by (auto simp: collecting_def)
    with panic(4) show False
      using search_iter_panic search_iter_not_sent(1) by (metis Inl_Inr_False option.inject)
  qed
  then show ?thesis using assms(1) panic by (auto simp: collecting_def split: option.splits)
next
  case (result i b)
  then show ?thesis using collecting_receive [OF assms(1)] by simp
next
  case timed_out
  then show ?thesis using assms(1) by (auto simp: collecting_def)
qed

lemma spawn_all_ok:
  "\<exists>ss :: ('v, 's) searcher list. spawn_all ess = Inr ss \<and> length ss = length ess \<and>
     (\<forall>i < length ess. \<exists>h l. ss ! i = Spawned h l \<and> makeLinkedEntries (ess ! i) = Inr (h, l))"
proof (induction ess)
  case (Cons es ess)
  then obtain ss :: "('v, 's) searcher list" where ss: "spawn_all ess = Inr ss" "length ss = length ess"
    "\<forall>i < length ess. \<exists>h l. ss ! i = Spawned h l \<and> makeLinkedEntries (ess ! i) = Inr (h, l)" by blast
  obtain h l where "makeLinkedEntries es = Inr (h, l)" using makeLinkedEntries_ok [of es] by blast
  with ss show ?case by (auto simp: nth_Cons split: nat.split)
qed simp

text \<open>What a search of one partition answers.\<close>

definition es_ok :: "('v, 's) Model \<Rightarrow> 'v entry list \<Rightarrow> bool" where
  "es_ok model es \<longleftrightarrow> complete (map entry_ev es) \<and> (\<forall>e \<in> set es. eid e < length es div 2) \<and>
     step_total model (length es div 2) (\<lambda>i. value_of es (C i)) (\<lambda>i. value_of es (R i))"

definition es_linearizable :: "('v, 's) Model \<Rightarrow> 'v entry list \<Rightarrow> bool" where
  "es_linearizable model es = linearizable
     (accepts model (\<lambda>i. value_of es (C i)) (\<lambda>i. value_of es (R i))) (map entry_ev es) (Init model)"

lemma collecting_start:
  fixes model :: "('v, 's) Model"
  assumes "equal_sound model" "\<forall>es \<in> set ess. es_ok model es"
  shows "\<exists>c. collect_start ess = Inr c \<and> collecting model (map (es_linearizable model) ess) timeout c \<and>
    returned c = None"
proof -
  obtain ss :: "('v, 's) searcher list" where ss: "spawn_all ess = Inr ss" "length ss = length ess"
    and sp: "\<forall>i < length ess. \<exists>h l. ss ! i = Spawned h l \<and> makeLinkedEntries (ess ! i) = Inr (h, l)"
    using spawn_all_ok by blast
  have "answer model (ss ! i) = Some (Inr (es_linearizable model (ess ! i)))" "ss ! i \<noteq> Sent" if i: "i < length ess" for i
  proof -
    obtain h l where hl: "ss ! i = Spawned h l" "makeLinkedEntries (ess ! i) = Inr (h, l)" using sp i by blast
    have "es_ok model (ess ! i)" using assms(2) i by simp
    with hl show "answer model (ss ! i) = Some (Inr (es_linearizable model (ess ! i)))"
      using checkSingle_linearizable [OF _ _ assms(1) _ hl(2)] by (simp add: es_ok_def es_linearizable_def answer_def)
    show "ss ! i \<noteq> Sent" using hl by simp
  qed
  then have "collecting model (map (es_linearizable model) ess) timeout
      \<lparr>searchers = ss, kill = 0, ok = True, count = 0, returned = None, panicked = None\<rparr>"
    using ss(2) by (auto simp: collecting_def card_eq_0_iff)
  with ss show ?thesis by (simp add: collect_start_def)
qed

interpretation collector: inductive_invariant
  "\<lambda>c. collecting model bs timeout c" "collect_step model timeout" "collecting model bs timeout" for model bs timeout
  by unfold_locales (auto intro: collecting_step)

lemma verdict:
  assumes "equal_sound model" "\<forall>es \<in> set ess. es_ok model es" "collect_start ess = Inr c0"
    and "run_from (collect_step model timeout) c0 c" "returned c = Some b"
  shows "(b \<longrightarrow> timeout > 0 \<or> (\<forall>es \<in> set ess. es_linearizable model es)) \<and>
    (\<not> b \<longrightarrow> (\<exists>es \<in> set ess. \<not> es_linearizable model es))"
proof -
  have "collecting model (map (es_linearizable model) ess) timeout c0"
    using collecting_start [OF assms(1,2), of timeout] assms(3) by auto
  from collector.inv_run [OF this assms(4)] show ?thesis using assms(5) by (simp add: collecting_def)
qed

section \<open>A verdict is always reached\<close>

text \<open>A search that has an answer reaches the point where it sends it.\<close>

definition reaches_send :: "('v, 's) Model \<Rightarrow> int \<Rightarrow> ('v, 's) check \<Rightarrow> bool \<Rightarrow> bool" where
  "reaches_send model timeout st b \<longleftrightarrow> (\<forall>c i. panicked c = None \<longrightarrow> kill c = 0 \<longrightarrow> i < length (searchers c) \<longrightarrow>
     searchers c ! i = Searching st \<longrightarrow>
     run_from (collect_step model timeout) c (c\<lparr>searchers := (searchers c)[i := Sending b]\<rparr>))"

lemma reaches_sendD:
  assumes "reaches_send model timeout st b" "panicked c = None" "kill c = 0" "i < length (searchers c)"
  shows "run_from (collect_step model timeout) (c\<lparr>searchers := (searchers c)[i := Searching st]\<rparr>)
    (c\<lparr>searchers := (searchers c)[i := Sending b]\<rparr>)"
proof -
  let ?c = "c\<lparr>searchers := (searchers c)[i := Searching st]\<rparr>"
  have "panicked ?c = None" "kill ?c = 0" "i < length (searchers ?c)" "searchers ?c ! i = Searching st"
    using assms by simp_all
  then have "run_from (collect_step model timeout) ?c (?c\<lparr>searchers := (searchers ?c)[i := Sending b]\<rparr>)"
    using assms(1) unfolding reaches_send_def by blast
  then show ?thesis by simp
qed

lemma reaches_send_iter:
  assumes "check_iter model 0 st = Inr out"
    and "case out of Returned b' \<Rightarrow> b' = b | Continue st' \<Rightarrow> reaches_send model timeout st' b"
  shows "reaches_send model timeout st b"
  unfolding reaches_send_def
proof (intro allI impI)
  fix c :: "('a, 'b) collector" and i
  assume c: "panicked c = None" "kill c = 0" "i < length (searchers c)" "searchers c ! i = Searching st"
  let ?s = "case out of Continue st' \<Rightarrow> Searching st' | Returned b \<Rightarrow> Sending b"
  have 1: "collect_step model timeout c (c\<lparr>searchers := (searchers c)[i := ?s]\<rparr>)"
    by (rule collect_step.search) (use c assms(1) in simp_all)
  show "run_from (collect_step model timeout) c (c\<lparr>searchers := (searchers c)[i := Sending b]\<rparr>)"
  proof (cases out)
    case (Returned b')
    with assms(2) 1 show ?thesis by (simp add: run_from_single)
  next
    case (Continue st')
    let ?c = "c\<lparr>searchers := (searchers c)[i := Searching st']\<rparr>"
    have "reaches_send model timeout st' b" using assms(2) Continue by simp
    then have "run_from (collect_step model timeout) ?c (c\<lparr>searchers := (searchers c)[i := Sending b]\<rparr>)"
      by (rule reaches_sendD [OF _ c(1-3)])
    moreover have "collect_step model timeout c ?c" using 1 Continue by simp
    then have "run_from (collect_step model timeout) c ?c" by (rule run_from_single)
    ultimately show ?thesis by (rule run_from_trans [rotated])
  qed
qed

lemma check_loop_reaches_send:
  "check_loop model k st = Some r \<Longrightarrow> k = running \<longrightarrow> (\<forall>b. r = Inr b \<longrightarrow> reaches_send model timeout st b)"
proof (erule check_loop.raw_induct [rotated, where P = "\<lambda>model k st r. k = running \<longrightarrow>
    (\<forall>b. r = Inr b \<longrightarrow> reaches_send model timeout st b)"], intro impI allI)
  fix loop :: "('a, 'b) Model \<Rightarrow> (nat \<Rightarrow> int) \<Rightarrow> ('a, 'b) check \<Rightarrow> bool go option" and model k st r b
  assume IH: "\<And>model k st r. loop model k st = Some r \<Longrightarrow> k = running \<longrightarrow> (\<forall>b. r = Inr b \<longrightarrow> reaches_send model timeout st b)"
    and eq: "(case check_iter model (k 0) st of Inl e \<Rightarrow> Some (Inl e)
        | Inr (Continue st') \<Rightarrow> loop model (\<lambda>j. k (Suc j)) st' | Inr (Returned b) \<Rightarrow> Some (Inr b)) = Some r"
    and k: "k = running" and r: "r = Inr b"
  obtain out where out: "check_iter model 0 st = Inr out" using eq k r by (auto split: sum.splits)
  show "reaches_send model timeout st b"
  proof (rule reaches_send_iter [OF out], cases out)
    case (Continue st')
    have "loop model running st' = Some (Inr b)" using eq out Continue k r by simp
    from IH [OF this] Continue show "case out of Returned b' \<Rightarrow> b' = b | Continue st' \<Rightarrow> reaches_send model timeout st' b" by simp
  qed (use eq out k r in simp)
qed

lemma searcher_sends:
  assumes c: "panicked c = None" "kill c = 0" "i < length (searchers c)" and a: "answer model (searchers c ! i) = Some (Inr b)"
  shows "run_from (collect_step model timeout) c (c\<lparr>searchers := (searchers c)[i := Sending b]\<rparr>)"
proof (cases "searchers c ! i")
  case (Spawned h l)
  then obtain st where st: "check_start model h l = Some (Inr st)" "check_loop model running st = Some (Inr b)"
    using a by (auto simp: answer_def checkSingle_def split: option.splits sum.splits)
  let ?c = "c\<lparr>searchers := (searchers c)[i := Searching st]\<rparr>"
  have "collect_step model timeout c ?c" by (rule collect_step.search) (use c st Spawned in simp_all)
  moreover have "reaches_send model timeout st b" using check_loop_reaches_send [OF st(2)] by simp
  then have "run_from (collect_step model timeout) ?c (c\<lparr>searchers := (searchers c)[i := Sending b]\<rparr>)"
    by (rule reaches_sendD [OF _ c])
  ultimately show ?thesis by (rule run_from_trans [OF run_from_single])
next
  case (Searching st)
  then have "reaches_send model timeout st b" using a check_loop_reaches_send [of model running st "Inr b"] by (simp add: answer_def)
  with Searching c show ?thesis unfolding reaches_send_def by simp
next
  case (Sending b')
  with a have "searchers c ! i = Sending b" by (simp add: answer_def)
  then have "c\<lparr>searchers := (searchers c)[i := Sending b]\<rparr> = c" by (metis collector.surjective collector.update_convs(1) list_update_id)
  then show ?thesis by (simp add: run_refl)
qed (use a in \<open>simp add: answer_def\<close>)

text \<open>From every state of a collection of at least one result, a run leads to a verdict.\<close>

lemma verdict_reached:
  assumes "collecting model bs timeout c" "bs \<noteq> []"
  shows "\<exists>c'. run_from (collect_step model timeout) c c' \<and> returned c' \<noteq> None"
  using assms(1)
proof (induction "length bs - count c" arbitrary: c rule: less_induct)
  case less
  show ?case
  proof (cases "returned c")
    case (Some b)
    then show ?thesis using run_refl by (metis option.distinct(1))
  next
    case None
    let ?S = "{i. i < length bs \<and> searchers c ! i = Sent}"
    have c: "panicked c = None" "kill c = 0" "ok c" "count c < length bs" "count c = card ?S" and l: "length (searchers c) = length bs"
      and a: "\<And>i. i < length bs \<Longrightarrow> if searchers c ! i = Sent then bs ! i else answer model (searchers c ! i) = Some (Inr (bs ! i))"
      using less.prems None assms(2) by (simp_all add: collecting_def)
    have "?S \<noteq> {..<length bs}" using c(4,5) by force
    then obtain i where i: "i < length bs" "searchers c ! i \<noteq> Sent" by blast
    let ?c = "c\<lparr>searchers := (searchers c)[i := Sending (bs ! i)]\<rparr>" let ?d = "receive ?c i (bs ! i)"
    have r1: "run_from (collect_step model timeout) c ?c"
      using searcher_sends [OF c(1,2)] a [OF i(1)] i l by simp
    have r2: "collect_step model timeout ?c ?d"
      by (rule collect_step.result) (use c None i l in simp_all)
    have run: "run_from (collect_step model timeout) c ?d" using run_step [OF r1 r2] .
    show ?thesis
    proof (cases "returned ?d")
      case None
      then have "count ?d = Suc (count c)" by (auto simp: receive_def Let_def split: if_splits)
      then have "length bs - count ?d < length bs - count c" using c(4) by simp
      from less.hyps [OF this collector.inv_run [OF less.prems run]]
      obtain c' where "run_from (collect_step model timeout) ?d c'" "returned c' \<noteq> None" by blast
      then show ?thesis using run_from_trans [OF run] by blast
    qed (use run in blast)
  qed
qed

section \<open>Operations and their times\<close>

text \<open>
  Linearizability of a list of operations: an order of all of them that the system accepts and in
  which an operation that returned before another was called comes first.
\<close>

definition op_accepts :: "('v, 's) Model \<Rightarrow> 'v Operation list \<Rightarrow> nat \<Rightarrow> 's \<Rightarrow> 's option" where
  "op_accepts model ops = accepts model (\<lambda>i. Input (ops ! i)) (\<lambda>i. Output (ops ! i))"

definition op_order :: "'v Operation list \<Rightarrow> nat list \<Rightarrow> bool" where
  "op_order ops ord \<longleftrightarrow> distinct ord \<and> set ord = {..<length ops} \<and>
     (\<forall>i < length ops. \<forall>j < length ops. Return (ops ! i) < Call (ops ! j) \<longrightarrow> precedes ord i j)"

definition ops_linearizable :: "('v, 's) Model \<Rightarrow> 'v Operation list \<Rightarrow> bool" where
  "ops_linearizable model ops \<longleftrightarrow> (\<exists>ord. op_order ops ord \<and> run_ops (op_accepts model ops) ord (Init model) \<noteq> None)"

text \<open>
  Timestamps as the checker needs them: an operation is called before it returns, and no operation
  returns at the very time at which one is called (entries with equal times may be sorted either way).
\<close>

definition times_ok :: "'v Operation list \<Rightarrow> bool" where
  "times_ok ops \<longleftrightarrow> (\<forall>p \<in> set ops. Call p < Return p) \<and> (\<forall>p \<in> set ops. \<forall>q \<in> set ops. Return p \<noteq> Call q)"

definition step_fits :: "('v, 's) Model \<Rightarrow> 'v Operation list \<Rightarrow> bool" where
  "step_fits model ops \<longleftrightarrow> (\<forall>p \<in> set ops. \<forall>s. \<exists>r. Step model s (Input p) (Output p) = Inr r)"

definition call_of :: "'v Operation list \<Rightarrow> nat \<Rightarrow> 'v entry" where
  "call_of ops i = \<lparr>ekind = callEntry, evalue = Input (ops ! i), eid = i, etime = Call (ops ! i)\<rparr>"

definition return_of :: "'v Operation list \<Rightarrow> nat \<Rightarrow> 'v entry" where
  "return_of ops i = \<lparr>ekind = returnEntry, evalue = Output (ops ! i), eid = i, etime = Return (ops ! i)\<rparr>"

lemma entries_from_set:
  "set (entries_from k ops) = (\<lambda>i. (call_of ops i)\<lparr>eid := k + i\<rparr>) ` {..<length ops} \<union> (\<lambda>i. (return_of ops i)\<lparr>eid := k + i\<rparr>) ` {..<length ops}"
proof (induction ops arbitrary: k)
  case (Cons p ops)
  have "{..<length (p # ops)} = insert 0 (Suc ` {..<length ops})" by (simp add: lessThan_Suc_eq_insert_0)
  then show ?case by (simp add: Cons image_Un image_image call_of_def return_of_def) blast
qed simp

lemma entries_from_facts:
  "length (entries_from k ops) = 2 * length ops" "distinct (map entry_ev (entries_from k ops))"
  "\<forall>e \<in> set (entries_from k ops). k \<le> eid e"
proof (induction ops arbitrary: k)
  case (Cons p ops)
  {
    case 1
    then show ?case using Cons(1) by simp
  next
    case 2
    have "C k \<notin> entry_ev ` set (entries_from (Suc k) ops)" "R k \<notin> entry_ev ` set (entries_from (Suc k) ops)"
      using Cons(3) [of "Suc k"] by (fastforce simp: entry_ev_def split: if_splits)+
    then show ?case using Cons(2) by (simp add: entry_ev_def)
  next
    case 3
    then show ?case using Cons(3) [of "Suc k"] by fastforce
  }
qed simp_all

lemma precedes_nth: "precedes xs x y \<longleftrightarrow> (\<exists>i j. i < j \<and> j < length xs \<and> xs ! i = x \<and> xs ! j = y)"
proof (induction xs)
  case (Cons z xs)
  have "(\<exists>i j. i < j \<and> j < length (z # xs) \<and> (z # xs) ! i = x \<and> (z # xs) ! j = y) \<longleftrightarrow>
      (x = z \<and> (\<exists>j < length xs. xs ! j = y)) \<or> (\<exists>i j. i < j \<and> j < length xs \<and> xs ! i = x \<and> xs ! j = y)" (is "?L \<longleftrightarrow> ?R")
  proof
    assume ?L
    then obtain i j where "i < j" "j < length (z # xs)" "(z # xs) ! i = x" "(z # xs) ! j = y" by blast
    then show ?R by (cases i; cases j) auto
  next
    assume ?R
    then show ?L
    proof
      assume "x = z \<and> (\<exists>j < length xs. xs ! j = y)"
      then obtain j where "x = z" "j < length xs" "xs ! j = y" by blast
      then show ?L by (intro exI [of _ 0] exI [of _ "Suc j"]) simp
    next
      assume "\<exists>i j. i < j \<and> j < length xs \<and> xs ! i = x \<and> xs ! j = y"
      then obtain i j where "i < j" "j < length xs" "xs ! i = x" "xs ! j = y" by blast
      then show ?L by (intro exI [of _ "Suc i"] exI [of _ "Suc j"]) simp
    qed
  qed
  then show ?case using Cons.IH by (auto simp: in_set_conv_nth)
qed simp

lemma makeEntries_facts:
  assumes "sorts f"
  shows "length (makeEntries f ops) = 2 * length ops" "distinct (map entry_ev (makeEntries f ops))"
    "set (makeEntries f ops) = call_of ops ` {..<length ops} \<union> return_of ops ` {..<length ops}"
proof -
  have m: "mset (makeEntries f ops) = mset (entries_from 0 ops)" using assms by (simp add: sorts_def makeEntries_def)
  then have "mset (map entry_ev (makeEntries f ops)) = mset (map entry_ev (entries_from 0 ops))" by simp
  then show "distinct (map entry_ev (makeEntries f ops))"
    using entries_from_facts(2) [of 0 ops] mset_eq_imp_distinct_iff by blast
  show "length (makeEntries f ops) = 2 * length ops" using mset_eq_length [OF m] entries_from_facts(1) by simp
  show "set (makeEntries f ops) = call_of ops ` {..<length ops} \<union> return_of ops ` {..<length ops}"
    using mset_eq_setD [OF m] by (simp add: entries_from_set call_of_def return_of_def)
qed

lemma sorted_precedes:
  assumes "sorts f" and x: "x \<in> set (makeEntries f ops)" and y: "y \<in> set (makeEntries f ops)" and t: "etime x < etime y"
  shows "precedes (map entry_ev (makeEntries f ops)) (entry_ev x) (entry_ev y)"
proof -
  let ?es = "makeEntries f ops"
  have s: "\<not> etime (?es ! j) < etime (?es ! i)" if "i < j" "j < length ?es" for i j
    using assms(1) that unfolding sorts_def makeEntries_def byTime_Less_def by blast
  obtain i j where ij: "i < length ?es" "?es ! i = x" "j < length ?es" "?es ! j = y" using x y by (auto simp: in_set_conv_nth)
  have "i < j"
  proof (rule ccontr)
    assume "\<not> i < j"
    then have "j < i" using ij t by (metis less_irrefl linorder_neqE_nat)
    with s [of j i] ij t show False by simp
  qed
  with ij show ?thesis unfolding precedes_nth by (intro exI [of _ i] exI [of _ j]) simp
qed

lemma entry_ev_of [simp]: "entry_ev (call_of ops i) = C i" "entry_ev (return_of ops i) = R i"
  by (simp_all add: entry_ev_def call_of_def return_of_def)

lemma makeEntries_ev:
  assumes "sorts f" "i < length ops"
  shows "entry_ev (call_of ops i) = C i" "entry_ev (return_of ops i) = R i"
    "call_of ops i \<in> set (makeEntries f ops)" "return_of ops i \<in> set (makeEntries f ops)"
    "value_of (makeEntries f ops) (C i) = Input (ops ! i)" "value_of (makeEntries f ops) (R i) = Output (ops ! i)"
proof -
  show ev: "entry_ev (call_of ops i) = C i" "entry_ev (return_of ops i) = R i" by simp_all
  show inn: "call_of ops i \<in> set (makeEntries f ops)" "return_of ops i \<in> set (makeEntries f ops)"
    using makeEntries_facts(3) [OF assms(1), of ops] assms(2) by auto
  show "value_of (makeEntries f ops) (C i) = Input (ops ! i)" "value_of (makeEntries f ops) (R i) = Output (ops ! i)"
    using value_of_entry [OF makeEntries_facts(2) [OF assms(1)] inn(1)] value_of_entry [OF makeEntries_facts(2) [OF assms(1)] inn(2)]
    unfolding entry_ev_of by (simp_all add: call_of_def return_of_def)
qed

lemma makeEntries_events:
  assumes "sorts f"
  shows "set (map entry_ev (makeEntries f ops)) = C ` {..<length ops} \<union> R ` {..<length ops}"
  using makeEntries_facts(3) [OF assms, of ops] by (simp add: image_Un image_image)

lemma makeEntries_complete:
  assumes f: "sorts f" and t: "times_ok ops"
  shows "complete (map entry_ev (makeEntries f ops))"
proof -
  have "precedes (map entry_ev (makeEntries f ops)) (C i) (R i)" if i: "i < length ops" for i
  proof -
    have "etime (call_of ops i) < etime (return_of ops i)"
      using t i by (simp add: times_ok_def call_of_def return_of_def)
    from sorted_precedes [OF f makeEntries_ev(3,4) [OF f i] this] show ?thesis by (simp add: makeEntries_ev [OF f i])
  qed
  moreover have "i < length ops" if "R i \<in> set (map entry_ev (makeEntries f ops))" for i
    using that unfolding makeEntries_events [OF f] by auto
  moreover have "R i \<in> set (map entry_ev (makeEntries f ops))" if "C i \<in> set (map entry_ev (makeEntries f ops))" for i
    using that unfolding makeEntries_events [OF f] by auto
  ultimately show ?thesis
    unfolding complete_def using makeEntries_facts(2) [OF f] by blast
qed

lemma makeEntries_order:
  assumes f: "sorts f" and t: "times_ok ops"
  shows "precedes (map entry_ev (makeEntries f ops)) (R i) (C j) \<longleftrightarrow>
    i < length ops \<and> j < length ops \<and> Return (ops ! i) < Call (ops ! j)" (is "precedes ?H _ _ \<longleftrightarrow> _")
proof
  assume p: "precedes ?H (R i) (C j)"
  then have ij: "i < length ops" "j < length ops" using precedes_in [OF p] unfolding makeEntries_events [OF f] by auto
  have "\<not> Call (ops ! j) < Return (ops ! i)"
  proof
    assume "Call (ops ! j) < Return (ops ! i)"
    then have "precedes ?H (C j) (R i)"
      using sorted_precedes [OF f makeEntries_ev(3) [OF f ij(2)] makeEntries_ev(4) [OF f ij(1)]] makeEntries_ev(1,2) [OF f] ij
      by (simp add: call_of_def return_of_def)
    then show False using precedes_antisym [OF makeEntries_facts(2) [OF f] p] by simp
  qed
  moreover have "Return (ops ! i) \<noteq> Call (ops ! j)" using t ij by (simp add: times_ok_def)
  ultimately show "i < length ops \<and> j < length ops \<and> Return (ops ! i) < Call (ops ! j)" using ij by simp
next
  assume a: "i < length ops \<and> j < length ops \<and> Return (ops ! i) < Call (ops ! j)"
  then have ij: "i < length ops" "j < length ops" by simp_all
  from a show "precedes ?H (R i) (C j)"
    using sorted_precedes [OF f makeEntries_ev(4) [OF f ij(1)] makeEntries_ev(3) [OF f ij(2)]] makeEntries_ev(1,2) [OF f] ij
    by (simp add: call_of_def return_of_def)
qed

lemma run_ops_cong: "(\<And>i s. i \<in> set is \<Longrightarrow> step i s = step' i s) \<Longrightarrow> run_ops step is s = run_ops step' is s"
  by (induction "is" arbitrary: s) (auto split: option.split)

lemma precedes_map_inj_on:
  "inj_on g A \<Longrightarrow> set xs \<subseteq> A \<Longrightarrow> a \<in> A \<Longrightarrow> b \<in> A \<Longrightarrow> precedes (map g xs) (g a) (g b) = precedes xs a b"
proof (induction xs)
  case (Cons x xs)
  have "g a = g x \<longleftrightarrow> a = x" using inj_on_eq_iff [OF Cons.prems(1)] Cons.prems by simp
  moreover have "g b \<in> g ` set xs \<longleftrightarrow> b \<in> set xs"
    using inj_on_image_mem_iff [OF Cons.prems(1,4)] Cons.prems(2) by simp
  ultimately show ?case using Cons by simp
qed simp

lemma run_ops_map: "run_ops step (map g is) s = run_ops (\<lambda>i. step (g i)) is s"
  by (induction "is" arbitrary: s) (auto split: option.split)

lemma makeEntries_linearizable:
  assumes f: "sorts f" and t: "times_ok ops"
  shows "es_linearizable model (makeEntries f ops) = ops_linearizable model ops"
proof -
  let ?es = "makeEntries f ops"
  have ids: "ev_id ` set (map entry_ev ?es) = {..<length ops}" unfolding makeEntries_events [OF f] by (auto simp: image_Un image_image)
  let ?step = "accepts model (\<lambda>i. value_of ?es (C i)) (\<lambda>i. value_of ?es (R i))"
  have run: "run_ops ?step ord s = run_ops (op_accepts model ops) ord s" if "set ord = {..<length ops}" for ord s
    by (rule run_ops_cong) (use that makeEntries_ev(5,6) [OF f] in \<open>simp add: op_accepts_def accepts_def\<close>)
  have ordr: "(\<forall>i j. precedes (map entry_ev ?es) (R i) (C j) \<longrightarrow> precedes ord i j) \<longleftrightarrow>
      (\<forall>i < length ops. \<forall>j < length ops. Return (ops ! i) < Call (ops ! j) \<longrightarrow> precedes ord i j)" for ord
    unfolding makeEntries_order [OF f t] by blast
  have "linearization ?step (map entry_ev ?es) (Init model) ord \<longleftrightarrow>
      op_order ops ord \<and> run_ops (op_accepts model ops) ord (Init model) \<noteq> None" for ord
  proof (cases "set ord = {..<length ops}")
    case True
    show ?thesis unfolding linearization_def op_order_def ids ordr run [OF True] by (simp only: conj_assoc)
  next
    case False
    then show ?thesis unfolding linearization_def op_order_def ids by simp
  qed
  then show ?thesis unfolding es_linearizable_def ops_linearizable_def linearizable_def by (rule iff_exI)
qed

lemma makeEntries_ok:
  assumes f: "sorts f" and t: "times_ok ops" and m: "step_fits model ops"
  shows "es_ok model (makeEntries f ops)"
proof -
  have "eid e < length ops" if "e \<in> set (makeEntries f ops)" for e
    using that unfolding makeEntries_facts(3) [OF f] by (auto simp: call_of_def return_of_def)
  moreover have "\<exists>r. Step model s (Input (ops ! i)) (Output (ops ! i)) = Inr r" if "i < length ops" for i s
    using m that by (simp add: step_fits_def)
  ultimately show ?thesis
    using makeEntries_complete [OF f t] makeEntries_facts(1) [OF f, of ops] makeEntries_ev(5,6) [OF f]
    by (simp add: es_ok_def step_total_def)
qed

lemma sorts_sort_key: "sorts (sort_key etime)"
proof -
  have "etime (sort_key etime xs ! i) \<le> etime (sort_key etime xs ! j)" if "i < j" "j < length xs" for xs :: "'a entry list" and i j
    using sorted_nth_mono [OF sorted_sort_key [of etime xs], of i j] that by simp
  then show ?thesis by (auto simp: sorts_def byTime_Less_def not_less)
qed

section \<open>The key/value model in the checker\<close>

definition kv_op :: "8 word \<Rightarrow> string \<Rightarrow> string \<Rightarrow> string \<Rightarrow> int \<Rightarrow> int \<Rightarrow> kv_value Operation" where
  "kv_op opcode key v out call ret =
     \<lparr>Input = Some (KvIn \<lparr>kvOp = opcode, kvKey = key, kvValue = v\<rparr>), Call = call,
      Output = Some (KvOut \<lparr>outValue = out\<rparr>), Return = ret\<rparr>"

text \<open>Operations as the clients of the store record them.\<close>

definition is_kv_op :: "kv_value Operation \<Rightarrow> bool" where
  "is_kv_op p \<longleftrightarrow> (\<exists>i r. Input p = Some (KvIn i) \<and> Output p = Some (KvOut r))"

lemma KvModel_simps [simp]:
  "fillDefault (KvModel order) = (KvModel order)\<lparr>PartitionEvent := Some NoPartitionEvent\<rparr>"
  "Step (KvModel order) = kv_Step" "Init (KvModel order) = ''''" "Equal (KvModel order) = Some ShallowEqual"
  "Partition (KvModel order) = Some (kv_Partition order)" "PartitionEvent (KvModel order) = None"
  by (simp_all add: fillDefault_def KvModel_def)

lemma kv_Step_total: "Input p = Some (KvIn i) \<Longrightarrow> Output p = Some (KvOut r) \<Longrightarrow> \<exists>x. kv_Step s (Input p) (Output p) = Inr x"
  by (cases "kv_Step s (Input p) (Output p)") (auto simp: kv_Step_def split: if_splits)

lemma accepts_PartitionEvent [simp]: "accepts (model\<lparr>PartitionEvent := x\<rparr>) = accepts model"
  by (simp add: accepts_def fun_eq_iff)

lemma kv_equal_sound: "Equal model = Some ShallowEqual \<Longrightarrow> equal_sound model"
  by (simp add: equal_sound_def ShallowEqual_def)

lemma kv_step_fits: "Step model = kv_Step \<Longrightarrow> \<forall>p \<in> set ops. is_kv_op p \<Longrightarrow> step_fits model ops"
  using kv_Step_total by (fastforce simp: step_fits_def is_kv_op_def)

section \<open>Verdicts on operations\<close>

lemma CheckOperations_start:
  assumes "sorts f" "equal_sound (fillDefault model)" "call_field (Partition (fillDefault model)) history = Inr parts"
    and "\<forall>part \<in> set parts. times_ok part \<and> step_fits (fillDefault model) part"
  shows "CheckOperations_entries f model history = Inr (map (makeEntries f) parts)"
    "\<forall>es \<in> set (map (makeEntries f) parts). es_ok (fillDefault model) es"
    "\<forall>part \<in> set parts. es_linearizable (fillDefault model) (makeEntries f part) = ops_linearizable (fillDefault model) part"
  using assms by (auto simp: CheckOperations_entries_def makeEntries_ok [OF assms(1)] makeEntries_linearizable [OF assms(1)])

lemma CheckOperations_verdict:
  assumes ok: "sorts f" "equal_sound (fillDefault model)" "call_field (Partition (fillDefault model)) history = Inr parts"
    "\<forall>part \<in> set parts. times_ok part \<and> step_fits (fillDefault model) part"
    and b: "CheckOperationsTimeout f model history timeout b"
  shows "(b \<longrightarrow> timeout > 0 \<or> (\<forall>part \<in> set parts. ops_linearizable (fillDefault model) part)) \<and>
    (\<not> b \<longrightarrow> (\<exists>part \<in> set parts. \<not> ops_linearizable (fillDefault model) part))"
proof -
  note s = CheckOperations_start [OF ok]
  obtain c0 c where "collect_start (map (makeEntries f) parts) = Inr c0"
    "run_from (collect_step (fillDefault model) timeout) c0 c" "returned c = Some b"
    using b s(1) by (auto simp: CheckOperationsTimeout_def)
  from verdict [OF ok(2) s(2) this] s(3) show ?thesis by auto
qed

lemma CheckOperations_reaches:
  assumes ok: "sorts f" "equal_sound (fillDefault model)" "call_field (Partition (fillDefault model)) history = Inr parts"
    "\<forall>part \<in> set parts. times_ok part \<and> step_fits (fillDefault model) part" and "parts \<noteq> []"
  shows "\<exists>ess c0. CheckOperations_entries f model history = Inr ess \<and> collect_start ess = Inr c0 \<and>
    (\<forall>c. run_from (collect_step (fillDefault model) timeout) c0 c \<longrightarrow>
      (\<exists>c'. run_from (collect_step (fillDefault model) timeout) c c' \<and> returned c' \<noteq> None))"
proof -
  note s = CheckOperations_start [OF ok]
  obtain c0 where c0: "collect_start (map (makeEntries f) parts) = Inr c0"
    "collecting (fillDefault model) (map (es_linearizable (fillDefault model)) (map (makeEntries f) parts)) timeout c0"
    using collecting_start [OF ok(2) s(2)] by blast
  have "\<exists>c'. run_from (collect_step (fillDefault model) timeout) c c' \<and> returned c' \<noteq> None"
    if "run_from (collect_step (fillDefault model) timeout) c0 c" for c
    by (rule verdict_reached [OF collector.inv_run [OF c0(2) that]]) (use assms(5) in simp)
  with s(1) c0(1) show ?thesis by blast
qed

lemma CheckOperations_decides:
  assumes ok: "sorts f" "equal_sound (fillDefault model)" "call_field (Partition (fillDefault model)) history = Inr parts"
    "\<forall>part \<in> set parts. times_ok part \<and> step_fits (fillDefault model) part" and "parts \<noteq> []"
  shows "CheckOperations f model history b \<longleftrightarrow> b = (\<forall>part \<in> set parts. ops_linearizable (fillDefault model) part)"
proof
  assume "CheckOperations f model history b"
  from CheckOperations_verdict [OF ok this [unfolded CheckOperations_def]]
  show "b = (\<forall>part \<in> set parts. ops_linearizable (fillDefault model) part)" by auto
next
  assume b: "b = (\<forall>part \<in> set parts. ops_linearizable (fillDefault model) part)"
  obtain ess c0 where c0: "CheckOperations_entries f model history = Inr ess" "collect_start ess = Inr c0"
    and r: "\<And>c. run_from (collect_step (fillDefault model) 0) c0 c \<Longrightarrow>
      \<exists>c'. run_from (collect_step (fillDefault model) 0) c c' \<and> returned c' \<noteq> None"
    using CheckOperations_reaches [OF ok assms(5)] by blast
  obtain c' b' where c': "run_from (collect_step (fillDefault model) 0) c0 c'" "returned c' = Some b'"
    using r [OF run_refl] by blast
  then have *: "CheckOperationsTimeout f model history 0 b'" using c0 unfolding CheckOperationsTimeout_def by blast
  from CheckOperations_verdict [OF ok *] b have "b' = b" by auto
  with * show "CheckOperations f model history b" by (simp add: CheckOperations_def)
qed

section \<open>Properties\<close>

text \<open>
  C35: Lifting and unlifting is exact. In any doubly linked list, lifting a call that is followed by
  its return panics nowhere, takes exactly the two nodes out of the list without touching values,
  numbers or matches, and unlifting the same call afterwards gives back the very heap there was.
\<close>

theorem lift_unlift_roundtrip:
  assumes "dll h p (us @ u # e # vs @ m # ws) None" and "distinct (us @ u # e # vs @ m # ws)" and "nmatch (h ! e) = Some m"
  shows "\<exists>h'. lift h (Some e) = Inr h' \<and> dll h' p (us @ u # vs @ ws) None \<and> same_payload h h' \<and> unlift h' (Some e) = Inr h"
  using lift_ok [OF assms] by blast

definition example_list :: "nat heap" where
  "example_list =
     [\<lparr>nvalue = None, nmatch = None, nid = 9, nnext = Some 1, nprev = None\<rparr>,
      \<lparr>nvalue = Some 5, nmatch = Some 3, nid = 0, nnext = Some 2, nprev = Some 0\<rparr>,
      \<lparr>nvalue = Some 6, nmatch = Some 4, nid = 1, nnext = Some 3, nprev = Some 1\<rparr>,
      \<lparr>nvalue = None, nmatch = None, nid = 0, nnext = Some 4, nprev = Some 2\<rparr>,
      \<lparr>nvalue = None, nmatch = None, nid = 1, nnext = None, nprev = Some 3\<rparr>]"

theorem lift_unlift_roundtrip_witness:
  "\<exists>h'. lift example_list (Some 1) = Inr h' \<and> dll h' None ([] @ 0 # [2] @ [4]) None \<and> same_payload example_list h' \<and>
     unlift h' (Some 1) = Inr example_list"
  by (rule lift_unlift_roundtrip [where m = 3]) (simp_all add: example_list_def)

text \<open>
  C17: The search decides linearizability. On the linked list built from the entries of any complete
  history, \<^verbatim>\<open>checkSingle\<close> panics nowhere and terminates, and it returns true if and only if the
  operations can be ordered so that every operation that returned before another was called comes
  first and the model accepts them one after the other; the cache never changes the answer. This
  needs a model whose step function accepts the values without panicking and whose equality only
  identifies equal states.
\<close>

theorem checkSingle_decides:
  assumes "equal_sound model" and "complete (map entry_ev es)" and "\<forall>e \<in> set es. eid e < length es div 2"
    and "step_total model (length es div 2) (\<lambda>i. value_of es (C i)) (\<lambda>i. value_of es (R i))"
  shows "\<exists>h root. makeLinkedEntries es = Inr (h, root) \<and>
    checkSingle model h root (\<lambda>_. 0) = Some (Inr (\<exists>ord. linearization
      (accepts model (\<lambda>i. value_of es (C i)) (\<lambda>i. value_of es (R i))) (map entry_ev es) (Init model) ord))"
proof -
  obtain h root where "makeLinkedEntries es = Inr (h, root)" using makeLinkedEntries_ok [of es] by blast
  with checkSingle_linearizable [OF assms(2,3,1,4) this] show ?thesis by (auto simp: linearizable_def)
qed

text \<open>A put that overlaps with a get that already sees the value.\<close>

definition example_ops :: "kv_value Operation list" where
  "example_ops = [kv_op 1 ''x'' ''a'' '''' 1 4, kv_op 0 ''x'' '''' ''a'' 2 3]"

lemma example_ops_ok:
  "times_ok example_ops" "\<forall>p \<in> set example_ops. is_kv_op p" "ops_linearizable (KvModel order) example_ops"
proof -
  show "times_ok example_ops" "\<forall>p \<in> set example_ops. is_kv_op p"
    by (simp_all add: example_ops_def kv_op_def times_ok_def is_kv_op_def)
  have "op_order example_ops [0, 1]" by (auto simp: op_order_def example_ops_def kv_op_def less_Suc_eq numeral_2_eq_2)
  moreover have "run_ops (op_accepts (KvModel order) example_ops) [0, 1] '''' = Some ''a''"
    by (simp add: op_accepts_def accepts_def kv_Step_def example_ops_def kv_op_def)
  ultimately show "ops_linearizable (KvModel order) example_ops" unfolding ops_linearizable_def by auto
qed

theorem checkSingle_decides_witness:
  "\<exists>h root. makeLinkedEntries (makeEntries (sort_key etime) example_ops) = Inr (h, root) \<and>
     checkSingle (KvModel id) h root (\<lambda>_. 0) = Some (Inr True)"
proof -
  let ?es = "makeEntries (sort_key etime) example_ops"
  have ok: "es_ok (KvModel id) ?es"
    using makeEntries_ok [OF sorts_sort_key example_ops_ok(1) kv_step_fits] example_ops_ok(2) by simp
  have "es_linearizable (KvModel id) ?es"
    using makeEntries_linearizable [OF sorts_sort_key example_ops_ok(1)] example_ops_ok(3) by blast
  then show ?thesis
    using checkSingle_decides [OF kv_equal_sound, of "KvModel id" ?es] ok
    by (simp add: es_ok_def es_linearizable_def linearizable_def)
qed

text \<open>
  C19: The verdict on operations. Whatever the interleaving of the goroutines, \<^verbatim>\<open>CheckOperations\<close> on
  operations with proper timestamps that fall into at least one partition can return, and it
  returns true exactly if every partition is linearizable with respect to the recorded call and
  return times. With a timeout, a negative verdict is still right. No interleaving leads into a
  deadlock or a panic: with or without a timeout, every state that the goroutines and the collecting
  loop can get into leads on to one in which the check has returned.
\<close>

theorem CheckOperations_correct:
  assumes "sorts f" and "equal_sound (fillDefault model)"
    and "call_field (Partition (fillDefault model)) history = Inr parts"
    and "\<forall>part \<in> set parts. times_ok part \<and> step_fits (fillDefault model) part" and "parts \<noteq> []"
  shows "(CheckOperations f model history b \<longleftrightarrow> b = (\<forall>part \<in> set parts. ops_linearizable (fillDefault model) part)) \<and>
    (CheckOperationsTimeout f model history timeout False \<longrightarrow> (\<exists>part \<in> set parts. \<not> ops_linearizable (fillDefault model) part)) \<and>
    (\<exists>ess c0. CheckOperations_entries f model history = Inr ess \<and> collect_start ess = Inr c0 \<and>
      (\<forall>c. run_from (collect_step (fillDefault model) timeout) c0 c \<longrightarrow>
        (\<exists>c'. run_from (collect_step (fillDefault model) timeout) c c' \<and> returned c' \<noteq> None)))"
proof (intro conjI)
  show "CheckOperations f model history b \<longleftrightarrow> b = (\<forall>part \<in> set parts. ops_linearizable (fillDefault model) part)"
    by (rule CheckOperations_decides [OF assms])
  show "CheckOperationsTimeout f model history timeout False \<longrightarrow> (\<exists>part \<in> set parts. \<not> ops_linearizable (fillDefault model) part)"
    using CheckOperations_verdict [OF assms(1-4), of timeout False] by blast
qed (rule CheckOperations_reaches [OF assms])

lemma example_partition: "kv_Partition id example_ops = Inr [example_ops]"
  by (simp add: kv_Partition_def example_ops_def kv_op_def)

theorem CheckOperations_correct_witness:
  "CheckOperations (sort_key etime) (KvModel id) example_ops True"
proof -
  let ?m = "fillDefault (KvModel id)"
  have "call_field (Partition ?m) example_ops = Inr [example_ops]" using example_partition by simp
  moreover have "step_fits ?m example_ops" using kv_step_fits example_ops_ok(2) by simp
  moreover have "ops_linearizable ?m example_ops"
    using example_ops_ok(3) [of id] by (simp add: ops_linearizable_def op_accepts_def)
  ultimately show ?thesis
    using CheckOperations_correct [OF sorts_sort_key, of "KvModel id" example_ops "[example_ops]" True 0] kv_equal_sound [of ?m] example_ops_ok(1)
    by simp
qed

text \<open>
  C39: An empty history is never decided. The key/value model makes no partition of an empty history,
  so no result will ever arrive, and without a timeout the collecting loop waits for ever: it
  returns neither true nor false.
\<close>

theorem CheckOperations_empty_hangs:
  assumes "order [] = []"
  shows "\<not> CheckOperations f (KvModel order) [] b"
proof
  assume "CheckOperations f (KvModel order) [] b"
  then obtain c0 c where c0: "collect_start [] = Inr c0" "returned c = Some b"
    and run: "run_from (collect_step (fillDefault (KvModel order)) 0) c0 c"
    using assms by (auto simp: CheckOperations_def CheckOperationsTimeout_def CheckOperations_entries_def kv_Partition_def)
  have "searchers c0 = [] \<and> returned c0 = None" using c0(1) by (auto simp: collect_start_def)
  with run have "searchers c = [] \<and> returned c = None"
  proof (induction rule: run_from.induct)
    case (run_step s t u)
    from run_step.IH [OF run_step.prems] run_step.hyps(2) show ?case by (auto elim!: collect_stepE)
  qed
  with c0(2) show False by simp
qed

theorem CheckOperations_empty_hangs_witness: "\<not> CheckOperations (sort_key etime) (KvModel id) [] True"
  by (rule CheckOperations_empty_hangs) simp

end
