(* ===== verification/Lin_Kv.thy ===== *)
theory Lin_Kv
  imports Lin_Verdict
begin

text \<open>
  The checker on the key/value store. \<^verbatim>\<open>KvModel\<close> specifies a single key and relies on the partition
  by keys; the theorem of this theory is that this is right: a history is linearizable for the
  whole store exactly if it is linearizable key by key. The entry point for events has no such
  partition, and is wrong on histories of several keys.
\<close>

section \<open>The store as a specification\<close>

definition kv_key :: "kv_value Operation \<Rightarrow> string" where
  "kv_key p = (case Input p of Some (KvIn i) \<Rightarrow> kvKey i | _ \<Rightarrow> [])"

definition store_accepts :: "kv_value Operation list \<Rightarrow> nat \<Rightarrow> (string \<Rightarrow> string) \<Rightarrow> (string \<Rightarrow> string) option" where
  "store_accepts ops i st =
     (case (Input (ops ! i), Output (ops ! i)) of
        (Some (KvIn inp), Some (KvOut out)) \<Rightarrow>
          if kvOp inp = 0 then (if st (kvKey inp) = outValue out then Some st else None)
          else if kvOp inp = 1 then Some (st(kvKey inp := kvValue inp))
          else Some (st(kvKey inp := st (kvKey inp) @ kvValue inp))
      | _ \<Rightarrow> None)"

definition store_linearizable :: "kv_value Operation list \<Rightarrow> bool" where
  "store_linearizable ops \<longleftrightarrow> (\<exists>ord. op_order ops ord \<and> run_ops (store_accepts ops) ord (\<lambda>_. []) \<noteq> None)"

lemma asKv_Inr: "asKvInput x = Inr i \<longleftrightarrow> x = Some (KvIn i)" "asKvOutput y = Inr r \<longleftrightarrow> y = Some (KvOut r)"
  by (cases x rule: asKvInput.cases, auto) (cases y rule: asKvOutput.cases, auto)

lemma kv_Step_is_kv_op: "kv_Step s (Input p) (Output p) = Inr r \<Longrightarrow> is_kv_op p"
  by (auto simp: kv_Step_def bindG_eq_Inr_iff asKv_Inr is_kv_op_def)

lemma store_accepts_key:
  assumes "Step model = kv_Step"
  shows "store_accepts ops i st =
     map_option (\<lambda>s. st(kv_key (ops ! i) := s)) (op_accepts model ops i (st (kv_key (ops ! i))))"
proof (cases "is_kv_op (ops ! i)")
  case True
  then obtain inp out where io: "Input (ops ! i) = Some (KvIn inp)" "Output (ops ! i) = Some (KvOut out)"
    by (auto simp: is_kv_op_def)
  have "st(kvKey inp := st (kvKey inp)) = st" by simp
  with io show ?thesis
    by (cases "kvOp inp = 0"; cases "outValue out = st (kvKey inp)")
      (simp_all add: store_accepts_def op_accepts_def accepts_def kv_Step_def kv_key_def assms)
next
  case False
  then have "kv_Step s (Input (ops ! i)) (Output (ops ! i)) \<noteq> Inr r" for s r using kv_Step_is_kv_op by blast
  then have "accepts model (\<lambda>i. Input (ops ! i)) (\<lambda>i. Output (ops ! i)) i s = None" for s
    by (cases "kv_Step s (Input (ops ! i)) (Output (ops ! i))") (simp_all add: accepts_def assms)
  moreover have "store_accepts ops i st = None"
    using False by (auto simp: store_accepts_def is_kv_op_def split: option.split kv_value.split)
  ultimately show ?thesis by (simp add: op_accepts_def)
qed

section \<open>The partition by keys\<close>

definition partition_ok :: "(string \<times> kv_value Operation list) list \<Rightarrow> kv_value Operation list \<Rightarrow> bool" where
  "partition_ok m ops \<longleftrightarrow> distinct (map fst m) \<and> fst ` set m = kv_key ` set ops \<and>
     (\<forall>(k, vs) \<in> set m. vs = filter (\<lambda>p. kv_key p = k) ops)"

lemma add_to_key_keys: "map fst (add_to_key k v m) = (if k \<in> fst ` set m then map fst m else map fst m @ [k])"
  by (induction k v m rule: add_to_key.induct) auto

lemma add_to_key_in:
  "distinct (map fst m) \<Longrightarrow> (k', vs) \<in> set (add_to_key k v m) \<Longrightarrow>
   if k' = k then (\<exists>us. vs = us @ [v] \<and> ((k, us) \<in> set m \<or> us = [] \<and> k \<notin> fst ` set m)) else (k', vs) \<in> set m"
proof (induction k v m rule: add_to_key.induct)
  case (2 key v k us m)
  then show ?case by (cases "k = key") (force split: if_splits)+
qed (auto split: if_splits)

lemma partition_ok_add:
  assumes "partition_ok m ops"
  shows "partition_ok (add_to_key (kv_key p) p m) (ops @ [p])"
proof -
  let ?m = "add_to_key (kv_key p) p m"
  have d: "distinct (map fst m)" and ks: "fst ` set m = kv_key ` set ops"
    and vs: "\<And>k vs. (k, vs) \<in> set m \<Longrightarrow> vs = filter (\<lambda>p. kv_key p = k) ops"
    using assms by (auto simp: partition_ok_def)
  have k: "map fst ?m = (if kv_key p \<in> fst ` set m then map fst m else map fst m @ [kv_key p])" by (rule add_to_key_keys)
  have "distinct (map fst ?m)" using d by (simp add: k)
  moreover have "fst ` set ?m = kv_key ` set (ops @ [p])"
    using arg_cong [OF k, of set] ks by (auto split: if_splits)
  moreover have "us = filter (\<lambda>q. kv_key q = k) (ops @ [p])" if "(k, us) \<in> set ?m" for k us
    using add_to_key_in [OF d that] vs ks by (fastforce simp: empty_filter_conv image_iff split: if_splits)
  ultimately show ?thesis by (auto simp: partition_ok_def)
qed

lemma kv_partition_loop_ok:
  "partition_ok m done \<Longrightarrow> \<forall>p \<in> set ops. is_kv_op p \<Longrightarrow>
   \<exists>m'. kv_partition_loop m ops = Inr m' \<and> partition_ok m' (done @ ops)"
proof (induction ops arbitrary: m "done")
  case (Cons p ops)
  then obtain i where i: "Input p = Some (KvIn i)" by (auto simp: is_kv_op_def)
  then have "kv_key p = kvKey i" by (simp add: kv_key_def)
  then show ?case using Cons.IH [OF partition_ok_add [OF Cons.prems(1), of p]] Cons.prems(2) i by simp
qed simp

section \<open>Histories of a set of operations\<close>

definition order_on :: "'v Operation list \<Rightarrow> nat set \<Rightarrow> nat list \<Rightarrow> bool" where
  "order_on ops I ord \<longleftrightarrow> distinct ord \<and> set ord = I \<and>
     (\<forall>i \<in> I. \<forall>j \<in> I. Return (ops ! i) < Call (ops ! j) \<longrightarrow> precedes ord i j)"

lemma op_order_on: "op_order ops ord \<longleftrightarrow> order_on ops {..<length ops} ord"
  by (auto simp: op_order_def order_on_def)

text \<open>Operations picked out of a longer history keep their order and their steps.\<close>

lemma picked_order:
  assumes "distinct js" and that: "set ord \<subseteq> {..<length js}"
  shows "order_on ops (set js) (map (\<lambda>a. js ! a) ord) \<longleftrightarrow> op_order (map (\<lambda>j. ops ! j) js) ord"
proof -
  have inj: "inj_on ((!) js) {..<length js}" using assms(1) by (simp add: inj_on_nth)
  have img: "set js = (!) js ` {..<length js}" by (auto simp: in_set_conv_nth)
  have "distinct (map ((!) js) ord) = distinct ord"
    using inj_on_subset [OF inj that] by (simp add: distinct_map)
  moreover have "set (map ((!) js) ord) = set js \<longleftrightarrow> set ord = {..<length js}"
    using inj_on_image_eq_iff [OF inj that subset_refl] by (simp add: img)
  moreover have "(\<forall>i \<in> set js. \<forall>j \<in> set js. Return (ops ! i) < Call (ops ! j) \<longrightarrow> precedes (map ((!) js) ord) i j) \<longleftrightarrow>
      (\<forall>a < length js. \<forall>b < length js. Return (ops ! (js ! a)) < Call (ops ! (js ! b)) \<longrightarrow> precedes ord a b)"
    using precedes_map_inj_on [OF inj that] by (auto simp: img)
  ultimately show ?thesis using that by (auto simp: order_on_def op_order_def)
qed

lemma picked_linearizable:
  assumes "distinct js"
  shows "ops_linearizable model (map (\<lambda>j. ops ! j) js) \<longleftrightarrow>
    (\<exists>ord. order_on ops (set js) ord \<and> run_ops (op_accepts model ops) ord (Init model) \<noteq> None)" (is "?L \<longleftrightarrow> ?R")
proof
  have step: "run_ops (op_accepts model (map (\<lambda>j. ops ! j) js)) ord s = run_ops (op_accepts model ops) (map ((!) js) ord) s"
    if "set ord \<subseteq> {..<length js}" for ord s
    unfolding run_ops_map by (rule run_ops_cong) (use that in \<open>auto simp: op_accepts_def accepts_def\<close>)
  {
    assume ?L
    then obtain ord where o: "op_order (map (\<lambda>j. ops ! j) js) ord"
      "run_ops (op_accepts model (map (\<lambda>j. ops ! j) js)) ord (Init model) \<noteq> None" by (auto simp: ops_linearizable_def)
    then have sub: "set ord \<subseteq> {..<length js}" by (simp add: op_order_def)
    then show ?R using picked_order [OF assms sub, of ops] o step [OF sub] by metis
  }
  assume ?R
  then obtain ord where o: "order_on ops (set js) ord" "run_ops (op_accepts model ops) ord (Init model) \<noteq> None" by blast
  define ord' where "ord' = map (\<lambda>i. SOME a. a < length js \<and> js ! a = i) ord"
  have ex: "(SOME a. a < length js \<and> js ! a = i) < length js \<and> js ! (SOME a. a < length js \<and> js ! a = i) = i" if "i \<in> set js" for i
    using that by (metis (mono_tags, lifting) in_set_conv_nth someI_ex)
  have "set ord = set js" using o(1) by (simp add: order_on_def)
  then have sub: "set ord' \<subseteq> {..<length js}" and m: "map ((!) js) ord' = ord"
    using ex by (auto simp: ord'_def intro!: map_idI)
  show ?L unfolding ops_linearizable_def
    using picked_order [OF assms sub, of ops] o step [OF sub] m by metis
qed

section \<open>Locality\<close>

lemma run_store_key:
  assumes "Step model = kv_Step"
  shows "run_ops (store_accepts ops) ord st = Some st' \<Longrightarrow>
    run_ops (op_accepts model ops) (filter (\<lambda>i. kv_key (ops ! i) = k) ord) (st k) = Some (st' k)"
proof (induction ord arbitrary: st)
  case (Cons i ord)
  then obtain s where s: "op_accepts model ops i (st (kv_key (ops ! i))) = Some s"
    "run_ops (store_accepts ops) ord (st(kv_key (ops ! i) := s)) = Some st'"
    by (auto simp: store_accepts_key [OF assms, of ops i st] split: option.splits)
  from Cons.IH [OF s(2)] s(1) show ?case by (cases "kv_key (ops ! i) = k") auto
qed simp

lemma order_on_filter: "order_on ops I ord \<Longrightarrow> order_on ops {i \<in> I. P i} (filter P ord)"
  by (auto simp: order_on_def precedes_filter)

lemma order_on_tl:
  assumes "order_on ops (set (i # is)) (i # is)"
  shows "order_on ops (set is) is"
  using assms by (auto simp: order_on_def)

text \<open>
  Local orders can be merged: of the first operations of the keys, one that was called earliest
  can go first, because whatever returned before its call would have to stand before the first
  operation of its own key.
\<close>

lemma earliest_first:
  assumes K: "finite K" "\<exists>k \<in> K. L k \<noteq> []"
    and ord: "\<And>k. k \<in> K \<Longrightarrow> order_on ops (set (L k)) (L k)"
    and t: "\<And>k i. k \<in> K \<Longrightarrow> i \<in> set (L k) \<Longrightarrow> Call (ops ! i) \<le> Return (ops ! i)"
  shows "\<exists>k \<in> K. L k \<noteq> [] \<and> (\<forall>k' \<in> K. \<forall>j \<in> set (L k'). \<not> Return (ops ! j) < Call (ops ! hd (L k)))"
proof -
  let ?K = "{k \<in> K. L k \<noteq> []}" let ?call = "\<lambda>k. Call (ops ! hd (L k))"
  have "finite ?K" "?K \<noteq> {}" using K by auto
  then have "arg_min_on ?call ?K \<in> ?K" "\<And>k'. k' \<in> ?K \<Longrightarrow> ?call (arg_min_on ?call ?K) \<le> ?call k'"
    by (rule arg_min_if_finite(1), rule arg_min_least)
  then obtain k where k: "k \<in> ?K" "\<And>k'. k' \<in> ?K \<Longrightarrow> ?call k \<le> ?call k'" by blast
  have "\<not> Return (ops ! j) < ?call k" if k': "k' \<in> K" and j: "j \<in> set (L k')" for k' j
  proof
    assume lt: "Return (ops ! j) < ?call k"
    obtain i js where L: "L k' = i # js" using j by (cases "L k'") auto
    have "?call k \<le> Call (ops ! i)" using k(2) [of k'] k' L by simp
    with lt have lt': "Return (ops ! j) < Call (ops ! i)" by simp
    have "j \<noteq> i" using lt' t [OF k' j] by auto
    moreover have "precedes (i # js) j i" using ord [OF k'] lt' j unfolding order_on_def L by (meson list.set_intros(1))
    moreover have "distinct (i # js)" using ord [OF k'] by (simp add: order_on_def L)
    ultimately show False using precedes_in [of js j i] by auto
  qed
  with k(1) show ?thesis by blast
qed

lemma merge_orders:
  assumes K: "finite K" and m: "Step model = kv_Step"
  shows "\<forall>k \<in> K. order_on ops (set (L k)) (L k) \<Longrightarrow>
    \<forall>k \<in> K. \<forall>i \<in> set (L k). kv_key (ops ! i) = k \<and> Call (ops ! i) \<le> Return (ops ! i) \<Longrightarrow>
    \<forall>k \<in> K. run_ops (op_accepts model ops) (L k) (st k) \<noteq> None \<Longrightarrow>
    \<exists>ord. order_on ops (\<Union>k \<in> K. set (L k)) ord \<and> run_ops (store_accepts ops) ord st \<noteq> None"
proof (induction "\<Sum>k \<in> K. length (L k)" arbitrary: L st rule: less_induct)
  case less
  note ord = less.prems(1) and key = less.prems(2) and run = less.prems(3)
  show ?case
  proof (cases "\<exists>k \<in> K. L k \<noteq> []")
    case False
    then have "(\<Union>k \<in> K. set (L k)) = {}" by simp
    then have "order_on ops (\<Union>k \<in> K. set (L k)) []" by (simp add: order_on_def)
    moreover have "run_ops (store_accepts ops) [] st \<noteq> None" by simp
    ultimately show ?thesis by blast
  next
    case True
    obtain k where k: "k \<in> K" "L k \<noteq> []" "\<And>k' j. k' \<in> K \<Longrightarrow> j \<in> set (L k') \<Longrightarrow> \<not> Return (ops ! j) < Call (ops ! hd (L k))"
      using earliest_first [OF K True, of ops] ord key by metis
    obtain i js where L: "L k = i # js" using k(2) by (cases "L k") auto
    have ki: "kv_key (ops ! i) = k" using key k(1) L by auto
    obtain s where s: "op_accepts model ops i (st k) = Some s" "run_ops (op_accepts model ops) js s \<noteq> None"
      using run k(1) L by (fastforce split: option.splits)
    let ?L = "L(k := js)" let ?st = "st(k := s)"
    have "(\<Sum>x \<in> K. length (?L x)) < (\<Sum>x \<in> K. length (L x))"
      by (rule sum_strict_mono_ex1 [OF K]) (use k(1) L in auto)
    moreover have "\<forall>x \<in> K. order_on ops (set (?L x)) (?L x)" using ord k(1) L order_on_tl by fastforce
    moreover have "\<forall>x \<in> K. \<forall>j \<in> set (?L x). kv_key (ops ! j) = x \<and> Call (ops ! j) \<le> Return (ops ! j)"
      using key k(1) L by auto
    moreover have "\<forall>x \<in> K. run_ops (op_accepts model ops) (?L x) (?st x) \<noteq> None" using run s(2) by simp
    ultimately obtain ord' where o: "order_on ops (\<Union>x \<in> K. set (?L x)) ord'" "run_ops (store_accepts ops) ord' ?st \<noteq> None"
      using less.hyps [of ?L ?st] by blast
    have "(\<Union>x \<in> K. set (L x)) = set (L k) \<union> (\<Union>x \<in> K - {k}. set (L x))" using k(1) by auto
    moreover have "(\<Union>x \<in> K. set (?L x)) = set (?L k) \<union> (\<Union>x \<in> K - {k}. set (?L x))" using k(1) by blast
    ultimately have u: "(\<Union>x \<in> K. set (L x)) = insert i (\<Union>x \<in> K. set (?L x))" by (simp add: L)
    have "i \<notin> (\<Union>x \<in> K. set (?L x))"
    proof
      assume "i \<in> (\<Union>x \<in> K. set (?L x))"
      then obtain x where x: "x \<in> K" "i \<in> set (?L x)" by blast
      then have "x = k" using key ki by (auto split: if_splits)
      with x ord k(1) L show False by (auto simp: order_on_def)
    qed
    moreover have "\<not> Return (ops ! j) < Call (ops ! i)" if "j \<in> (\<Union>x \<in> K. set (L x))" for j using k(3) that L by auto
    ultimately have "order_on ops (\<Union>x \<in> K. set (L x)) (i # ord')"
      using o(1) unfolding order_on_def u by auto
    moreover have "run_ops (store_accepts ops) (i # ord') st \<noteq> None"
      using o(2) s(1) by (simp add: store_accepts_key [OF m] ki)
    ultimately show ?thesis by blast
  qed
qed

definition key_indices :: "kv_value Operation list \<Rightarrow> string \<Rightarrow> nat list" where
  "key_indices ops k = filter (\<lambda>i. kv_key (ops ! i) = k) [0..<length ops]"

lemma filter_key_picked: "filter (\<lambda>p. kv_key p = k) ops = map (\<lambda>j. ops ! j) (key_indices ops k)"
proof -
  have "filter (\<lambda>p. kv_key p = k) (map ((!) ops) [0..<length ops]) = map ((!) ops) (key_indices ops k)"
    by (simp add: filter_map comp_def key_indices_def)
  then show ?thesis by (simp add: map_nth)
qed

lemma key_indices_simps: "set (key_indices ops k) = {i. i < length ops \<and> kv_key (ops ! i) = k}" "distinct (key_indices ops k)"
  by (auto simp: key_indices_def)

lemma locality:
  assumes m: "Step model = kv_Step" "Init model = []" and t: "\<forall>p \<in> set ops. Call p \<le> Return p"
  shows "store_linearizable ops \<longleftrightarrow> (\<forall>k \<in> kv_key ` set ops. ops_linearizable model (filter (\<lambda>p. kv_key p = k) ops))" (is "_ \<longleftrightarrow> ?R")
proof -
  let ?I = "\<lambda>k. {i. i < length ops \<and> kv_key (ops ! i) = k}"
  have local: "ops_linearizable model (filter (\<lambda>p. kv_key p = k) ops) \<longleftrightarrow>
      (\<exists>ord. order_on ops (?I k) ord \<and> run_ops (op_accepts model ops) ord [] \<noteq> None)" for k
    unfolding filter_key_picked picked_linearizable [OF key_indices_simps(2)] key_indices_simps(1) m(2) ..
  show ?thesis
  proof
    assume "store_linearizable ops"
    then obtain ord st' where o: "order_on ops {..<length ops} ord" "run_ops (store_accepts ops) ord (\<lambda>_. []) = Some st'"
      by (auto simp: store_linearizable_def op_order_on)
    have "order_on ops (?I k) (filter (\<lambda>i. kv_key (ops ! i) = k) ord)" for k
      using order_on_filter [OF o(1), of "\<lambda>i. kv_key (ops ! i) = k"] by simp
    with run_store_key [OF m(1) o(2)] show ?R unfolding local by (metis option.distinct(1))
  next
    assume ?R
    then have "\<forall>k \<in> kv_key ` set ops. \<exists>ord. order_on ops (?I k) ord \<and> run_ops (op_accepts model ops) ord [] \<noteq> None"
      unfolding local .
    then obtain L where L: "\<forall>k \<in> kv_key ` set ops. order_on ops (?I k) (L k) \<and> run_ops (op_accepts model ops) (L k) [] \<noteq> None"
      by metis
    then have sL: "set (L k) = ?I k" if "k \<in> kv_key ` set ops" for k using that by (auto simp: order_on_def)
    have "\<exists>ord. order_on ops (\<Union>k \<in> kv_key ` set ops. set (L k)) ord \<and> run_ops (store_accepts ops) ord (\<lambda>_. []) \<noteq> None"
      by (rule merge_orders [OF _ m(1)]) (use L sL t in auto)
    moreover have "(\<Union>k \<in> kv_key ` set ops. set (L k)) = {..<length ops}" using sL by (auto intro: nth_mem rev_image_eqI)
    ultimately show "store_linearizable ops" by (simp add: store_linearizable_def op_order_on)
  qed
qed

section \<open>The verdict on the store\<close>

definition map_order :: "('a list \<Rightarrow> 'a list) \<Rightarrow> bool" where
  "map_order order \<longleftrightarrow> (\<forall>m. mset (order m) = mset m)"

lemma kv_Partition_parts:
  assumes "map_order order" "\<forall>p \<in> set ops. is_kv_op p"
  shows "\<exists>parts. kv_Partition order ops = Inr parts \<and> set parts = (\<lambda>k. filter (\<lambda>p. kv_key p = k) ops) ` kv_key ` set ops"
proof -
  obtain m where m: "kv_partition_loop [] ops = Inr m" "partition_ok m ops"
    using kv_partition_loop_ok [of "[]" "[]" ops] assms(2) by (auto simp: partition_ok_def)
  have "set (order m) = set m" using assms(1) mset_eq_setD by (auto simp: map_order_def)
  moreover have "snd x = filter (\<lambda>p. kv_key p = fst x) ops" if "x \<in> set m" for x
    using m(2) that by (auto simp: partition_ok_def)
  then have "snd ` set m = (\<lambda>k. filter (\<lambda>p. kv_key p = k) ops) ` fst ` set m"
    by (simp add: image_image cong: image_cong)
  ultimately show ?thesis using m by (simp add: kv_Partition_def partition_ok_def)
qed

lemma kv_verdict:
  assumes f: "sorts f" and o: "map_order order" and h: "history \<noteq> []" "\<forall>p \<in> set history. is_kv_op p" "times_ok history"
  shows "CheckOperations f (KvModel order) history b \<longleftrightarrow> b = store_linearizable history"
proof -
  let ?m = "fillDefault (KvModel order)"
  obtain parts where p: "kv_Partition order history = Inr parts"
    "set parts = (\<lambda>k. filter (\<lambda>p. kv_key p = k) history) ` kv_key ` set history"
    using kv_Partition_parts [OF o h(2)] by blast
  have "step_fits ?m part \<and> times_ok part" if "part \<in> set parts" for part
    using that kv_step_fits [of ?m part] h(2,3) unfolding p(2) by (auto simp: times_ok_def)
  moreover have "parts \<noteq> []" using p(2) h(1) by auto
  moreover have "call_field (Partition ?m) history = Inr parts" using p(1) by simp
  moreover have "equal_sound ?m" by (rule kv_equal_sound) simp
  ultimately have "CheckOperations f (KvModel order) history b \<longleftrightarrow> b = (\<forall>part \<in> set parts. ops_linearizable ?m part)"
    using CheckOperations_decides [OF f] by blast
  moreover have "store_linearizable history \<longleftrightarrow> (\<forall>k \<in> kv_key ` set history. ops_linearizable ?m (filter (\<lambda>p. kv_key p = k) history))"
    by (rule locality) (use h(3) in \<open>auto simp: times_ok_def less_imp_le\<close>)
  ultimately show ?thesis unfolding p(2) by simp
qed

section \<open>Properties\<close>

text \<open>
  C18: Checking the store key by key is right. On any non-empty history of the key/value store with
  proper timestamps, and whatever the order in which Go enumerates its map of keys, \<^verbatim>\<open>CheckOperations\<close>
  with \<^verbatim>\<open>KvModel\<close> returns true if and only if the whole history is linearizable for a store that
  maps keys to values, where a get must return the value of its key, a put replaces it and an
  append extends it.
\<close>

theorem kv_checker_decides:
  assumes "sorts f" and "map_order order" and "history \<noteq> []" and "\<forall>p \<in> set history. is_kv_op p" and "times_ok history"
  shows "CheckOperations f (KvModel order) history b \<longleftrightarrow> b = store_linearizable history"
  by (rule kv_verdict [OF assms])

text \<open>Two keys: the get of one key overlaps with the put of the other and does not see it.\<close>

definition two_keys :: "kv_value Operation list" where
  "two_keys = [kv_op 1 ''x'' ''a'' '''' 1 4, kv_op 0 ''y'' '''' '''' 2 3]"

theorem kv_checker_decides_witness: "CheckOperations (sort_key etime) (KvModel id) two_keys True"
proof -
  have "op_order two_keys [0, 1]" by (auto simp: op_order_def two_keys_def kv_op_def less_Suc_eq numeral_2_eq_2)
  moreover have "run_ops (store_accepts two_keys) [0, 1] (\<lambda>_. []) \<noteq> None"
    by (simp add: store_accepts_def two_keys_def kv_op_def)
  ultimately have "store_linearizable two_keys" unfolding store_linearizable_def by blast
  then show ?thesis
    using kv_checker_decides [OF sorts_sort_key, of id two_keys True]
    by (simp add: map_order_def two_keys_def kv_op_def is_kv_op_def times_ok_def)
qed

end
