(* ===== verification/Lin_Events.thy ===== *)
theory Lin_Events
  imports Lin_Verdict
begin

text \<open>
  The entry point for events, \<^verbatim>\<open>CheckEvents\<close>: events carry numbers chosen by the caller, which
  \<^verbatim>\<open>renumber\<close> replaces by consecutive ones. Renumbering does not change whether a history is
  linearizable, so the verdict is the one on the original events.
\<close>

section \<open>Renumbering\<close>

lemma renumber_from_map:
  "inj_on m (dom m) \<Longrightarrow> ran m = {..<i} \<Longrightarrow>
   \<exists>m' k. m \<subseteq>\<^sub>m m' \<and> dom m' = dom m \<union> Id ` set es \<and> inj_on m' (dom m') \<and> ran m' = {..<k} \<and>
     renumber_from m i es = map (\<lambda>v. v\<lparr>Id := the (m' (Id v))\<rparr>) es"
proof (induction es arbitrary: m i)
  case Nil
  then show ?case by (intro exI [of _ m] exI [of _ i]) simp
next
  case (Cons v es)
  let ?m = "case m (Id v) of Some _ \<Rightarrow> m | None \<Rightarrow> m(Id v \<mapsto> i)" let ?i = "case m (Id v) of Some _ \<Rightarrow> i | None \<Rightarrow> Suc i"
  have notin: "m (Id v) = None \<Longrightarrow> i \<notin> ran m" using Cons.prems(2) by simp
  have inj: "inj_on ?m (dom ?m)"
  proof (cases "m (Id v)")
    case None
    have "m x \<noteq> Some i" for x using notin [OF None] by (metis ranI)
    with Cons.prems(1) None show ?thesis by (auto simp: inj_on_def)
  qed (use Cons.prems in simp)
  have ran: "ran ?m = {..<?i}"
    using Cons.prems(2) by (auto split: option.split simp: ran_map_upd lessThan_Suc)
  obtain m' k where m': "?m \<subseteq>\<^sub>m m'" "dom m' = dom ?m \<union> Id ` set es" "inj_on m' (dom m')" "ran m' = {..<k}"
    "renumber_from ?m ?i es = map (\<lambda>v. v\<lparr>Id := the (m' (Id v))\<rparr>) es"
    using Cons.IH [OF inj ran] by (elim exE conjE)
  have "m \<subseteq>\<^sub>m ?m" by (auto simp: map_le_def split: option.split)
  then have sub: "m \<subseteq>\<^sub>m m'" by (rule map_le_trans [OF _ m'(1)])
  have "?m (Id v) \<noteq> None" by (auto split: option.split)
  then have "m' (Id v) = ?m (Id v)" using m'(1) by (auto simp: map_le_def dom_def)
  then have "renumber_from m i (v # es) = map (\<lambda>v. v\<lparr>Id := the (m' (Id v))\<rparr>) (v # es)"
    using m'(5) by (cases "m (Id v)") simp_all
  moreover have "dom m' = dom m \<union> Id ` set (v # es)" using m'(2) by (cases "m (Id v)") auto
  ultimately show ?case using sub m'(3,4) by (intro exI [of _ m'] exI [of _ k] conjI)
qed

lemma renumber_map:
  "\<exists>g. inj_on g (Id ` set es) \<and> g ` Id ` set es = {..<card (Id ` set es)} \<and> renumber es = map (\<lambda>v. v\<lparr>Id := g (Id v)\<rparr>) es"
proof -
  obtain m' k where m': "dom m' = Id ` set es" "inj_on m' (dom m')" "ran m' = {..<k}"
    "renumber es = map (\<lambda>v. v\<lparr>Id := the (m' (Id v))\<rparr>) es"
    using renumber_from_map [of Map.empty 0 es] by (auto simp: renumber_def)
  let ?g = "\<lambda>i. the (m' i)"
  have inj: "inj_on ?g (Id ` set es)"
  proof (rule inj_onI)
    fix x y assume xy: "x \<in> Id ` set es" "y \<in> Id ` set es" "?g x = ?g y"
    then have "m' x = m' y" using m'(1) by (metis domD option.sel)
    then show "x = y" using inj_onD [OF m'(2)] xy m'(1) by metis
  qed
  have "?g ` dom m' = ran m'"
  proof
    show "ran m' \<subseteq> ?g ` dom m'" unfolding ran_def by (auto intro: rev_image_eqI)
  qed (auto simp: ran_def)
  then have img: "?g ` Id ` set es = {..<k}" by (simp add: m'(1,3))
  then have "card (Id ` set es) = k" using card_image [OF inj] by simp
  with inj img m'(4) show ?thesis by (intro exI [of _ ?g]) simp
qed

section \<open>Renaming a history\<close>

fun rename :: "(nat \<Rightarrow> nat) \<Rightarrow> ev \<Rightarrow> ev" where
  "rename g (C i) = C (g i)"
| "rename g (R i) = R (g i)"

lemma ev_id_rename [simp]: "ev_id (rename g e) = g (ev_id e)"
  by (cases e) simp_all

lemma rename_inj: "inj_on g (ev_id ` A) \<Longrightarrow> inj_on (rename g) A"
proof (rule inj_onI)
  fix x y assume "inj_on g (ev_id ` A)" "x \<in> A" "y \<in> A" "rename g x = rename g y"
  then have "ev_id x = ev_id y" by (metis ev_id_rename imageI inj_onD)
  with \<open>rename g x = rename g y\<close> show "x = y" by (cases x; cases y) auto
qed

lemma renamed_in: "e \<in> set (map (rename g) H) \<Longrightarrow> \<exists>e' \<in> set H. e = rename g e'"
  by auto

lemma rename_call: "C j = rename g e \<Longrightarrow> \<exists>i. e = C i \<and> j = g i" and rename_return: "R j = rename g e \<Longrightarrow> \<exists>i. e = R i \<and> j = g i"
  by (cases e; simp)+

lemma complete_rename:
  assumes g: "inj_on g (ev_id ` set H)" and c: "complete H"
  shows "complete (map (rename g) H)"
proof -
  have inj: "inj_on (rename g) (set H)" by (rule rename_inj [OF g])
  have "distinct (map (rename g) H)" using c inj by (simp add: complete_def distinct_map)
  moreover have "R j \<in> set (map (rename g) H)" if r: "C j \<in> set (map (rename g) H)" for j
  proof -
    obtain i where i: "C i \<in> set H" "j = g i" using renamed_in [OF r] rename_call by blast
    then have "R i \<in> set H" using c by (simp add: complete_def)
    with i(2) show ?thesis by (metis image_eqI list.set_map rename.simps(2))
  qed
  moreover have "precedes (map (rename g) H) (C j) (R j)" if r: "R j \<in> set (map (rename g) H)" for j
  proof -
    obtain i where i: "R i \<in> set H" "j = g i" using renamed_in [OF r] rename_return by blast
    then have p: "precedes H (C i) (R i)" using c by (simp add: complete_def)
    with precedes_map_inj_on [OF inj subset_refl] precedes_in [OF p] i(2) show ?thesis
      by (metis rename.simps)
  qed
  ultimately show ?thesis unfolding complete_def by blast
qed

lemma linearization_rename:
  assumes g: "inj_on g (ev_id ` set H)" and sub: "set ord \<subseteq> ev_id ` set H"
    and st: "\<And>i s. i \<in> ev_id ` set H \<Longrightarrow> step' (g i) s = step i s"
  shows "linearization step' (map (rename g) H) s (map g ord) \<longleftrightarrow> linearization step H s ord"
proof -
  let ?I = "ev_id ` set H"
  have inj: "inj_on (rename g) (set H)" by (rule rename_inj [OF g])
  have "distinct (map g ord) = distinct ord" using inj_on_subset [OF g sub] by (simp add: distinct_map)
  moreover have "set (map g ord) = ev_id ` set (map (rename g) H) \<longleftrightarrow> set ord = ?I"
  proof -
    have "ev_id ` set (map (rename g) H) = g ` ?I" by (simp add: image_image)
    then show ?thesis using inj_on_image_eq_iff [OF g sub subset_refl] by simp
  qed
  moreover have "run_ops step' (map g ord) s = run_ops step ord s"
    unfolding run_ops_map by (rule run_ops_cong) (use st sub in blast)
  moreover have "(\<forall>i j. precedes (map (rename g) H) (R i) (C j) \<longrightarrow> precedes (map g ord) i j) \<longleftrightarrow>
      (\<forall>i j. precedes H (R i) (C j) \<longrightarrow> precedes ord i j)" (is "?L \<longleftrightarrow> ?R")
  proof
    assume L: ?L
    show ?R
    proof (intro allI impI)
      fix i j assume p: "precedes H (R i) (C j)"
      have in_H: "R i \<in> set H" "C j \<in> set H" using precedes_in [OF p] by simp_all
      have "precedes (map (rename g) H) (R (g i)) (C (g j))"
        using precedes_map_inj_on [OF inj subset_refl in_H] p by simp
      then have "precedes (map g ord) (g i) (g j)" using L by blast
      moreover have "i \<in> ?I" "j \<in> ?I" using in_H by force+
      ultimately show "precedes ord i j" using precedes_map_inj_on [OF g sub] by blast
    qed
  next
    assume R: ?R
    show ?L
    proof (intro allI impI)
      fix i j assume p: "precedes (map (rename g) H) (R i) (C j)"
      obtain a where a: "R a \<in> set H" "i = g a" using renamed_in [of "R i" g H] precedes_in [OF p] rename_return [of i g] by blast
      obtain b where b: "C b \<in> set H" "j = g b" using renamed_in [of "C j" g H] precedes_in [OF p] rename_call [of j g] by blast
      note ab = a b
      have "precedes H (R a) (C b)"
        using precedes_map_inj_on [OF inj subset_refl ab(1,3)] p ab(2,4) by simp
      then have "precedes ord a b" using R by blast
      moreover have "a \<in> ?I" "b \<in> ?I" using ab by force+
      ultimately show "precedes (map g ord) i j" using precedes_map_inj_on [OF g sub] ab(2,4) by blast
    qed
  qed
  ultimately show ?thesis unfolding linearization_def by (simp only:)
qed

lemma linearizable_rename:
  assumes g: "inj_on g (ev_id ` set H)" and st: "\<And>i s. i \<in> ev_id ` set H \<Longrightarrow> step' (g i) s = step i s"
  shows "linearizable step' (map (rename g) H) s = linearizable step H s"
proof
  assume "linearizable step' (map (rename g) H) s"
  then obtain ord' where l: "linearization step' (map (rename g) H) s ord'" by (auto simp: linearizable_def)
  then have s: "set ord' = g ` ev_id ` set H" by (simp add: linearization_def image_image)
  let ?inv = "the_inv_into (ev_id ` set H) g"
  have "map g (map ?inv ord') = ord'"
    using s f_the_inv_into_f [OF g] by (auto intro!: map_idI)
  moreover have "set (map ?inv ord') \<subseteq> ev_id ` set H" using s the_inv_into_into [OF g _ subset_refl] by auto
  ultimately show "linearizable step H s"
    using l linearization_rename [where step = step and step' = step', OF g _ st, where ord = "map ?inv ord'"] unfolding linearizable_def by metis
next
  assume "linearizable step H s"
  then obtain ord where l: "linearization step H s ord" by (auto simp: linearizable_def)
  then have "set ord \<subseteq> ev_id ` set H" by (simp add: linearization_def)
  with l show "linearizable step' (map (rename g) H) s"
    using linearization_rename [where step = step and step' = step', OF g _ st] unfolding linearizable_def by metis
qed

section \<open>Events and their verdict\<close>

definition event_ev :: "'v Event \<Rightarrow> ev" where
  "event_ev e = (if Kind e = ReturnEvent then R (Id e) else C (Id e))"

definition event_value :: "'v Event list \<Rightarrow> ev \<Rightarrow> 'v iface" where
  "event_value es v = (case map_of (map (\<lambda>e. (event_ev e, Value e)) es) v of Some x \<Rightarrow> x | None \<Rightarrow> None)"

text \<open>The operations that events describe, under the numbers that the caller gave them.\<close>

definition event_accepts :: "('v, 's) Model \<Rightarrow> 'v Event list \<Rightarrow> nat \<Rightarrow> 's \<Rightarrow> 's option" where
  "event_accepts model es = accepts model (\<lambda>i. event_value es (C i)) (\<lambda>i. event_value es (R i))"

definition events_linearizable :: "('v, 's) Model \<Rightarrow> 'v Event list \<Rightarrow> bool" where
  "events_linearizable model es \<longleftrightarrow> (\<exists>ord. linearization (event_accepts model es) (map event_ev es) (Init model) ord)"

definition events_fit :: "('v, 's) Model \<Rightarrow> 'v Event list \<Rightarrow> bool" where
  "events_fit model es \<longleftrightarrow> (\<forall>i \<in> Id ` set es. \<forall>s. \<exists>r. Step model s (event_value es (C i)) (event_value es (R i)) = Inr r)"

lemma event_ev_id [simp]: "ev_id (event_ev e) = Id e"
  by (simp add: event_ev_def)

lemma entry_ev_event: "entry_ev \<lparr>ekind = (if Kind e = ReturnEvent then returnEntry else callEntry), evalue = v, eid = i, etime = t\<rparr> = event_ev (e\<lparr>Id := i\<rparr>)"
  by (simp add: entry_ev_def event_ev_def)

lemma event_ev_rename: "event_ev (e\<lparr>Id := g (Id e)\<rparr>) = rename g (event_ev e)"
  by (simp add: event_ev_def)

lemma map_of_map_inj:
  assumes "inj_on f (insert x (key ` set xs))"
  shows "map_of (map (\<lambda>e. (f (key e), vl e)) xs) (f x) = map_of (map (\<lambda>e. (key e, vl e)) xs) x"
  using assms
proof (induction xs)
  case (Cons e xs)
  have "f x = f (key e) \<longleftrightarrow> x = key e" using inj_on_eq_iff [OF Cons.prems] by simp
  moreover have "inj_on f (insert x (key ` set xs))" by (rule inj_on_subset [OF Cons.prems]) auto
  ultimately show ?case using Cons.IH by simp
qed simp

text \<open>Each number of a complete history stands for one call and one return.\<close>

lemma complete_length:
  assumes "complete H"
  shows "length H = 2 * card (ev_id ` set H)"
proof -
  let ?I = "ev_id ` set H"
  have "set H = C ` ?I \<union> R ` ?I"
  proof
    show "set H \<subseteq> C ` ?I \<union> R ` ?I"
    proof
      fix e assume "e \<in> set H"
      moreover have "e = C (ev_id e) \<or> e = R (ev_id e)" by (cases e) simp_all
      ultimately show "e \<in> C ` ?I \<union> R ` ?I" by (metis UnI1 UnI2 imageI)
    qed
    show "C ` ?I \<union> R ` ?I \<subseteq> set H" using complete_ids [OF assms] assms by (auto simp: complete_def)
  qed
  moreover have "card (C ` ?I \<union> R ` ?I) = card (C ` ?I) + card (R ` ?I)" by (rule card_Un_disjoint) auto
  moreover have "card (C ` ?I) = card ?I" "card (R ` ?I) = card ?I" by (simp_all add: card_image inj_on_def)
  ultimately show ?thesis using assms distinct_card [of H] by (simp add: complete_def)
qed

lemma renumbered_entries:
  assumes c: "complete (map event_ev es)"
  obtains g where "inj_on g (Id ` set es)" "map entry_ev (convertEntries (renumber es)) = map (rename g) (map event_ev es)"
    "\<And>v. ev_id v \<in> Id ` set es \<Longrightarrow> value_of (convertEntries (renumber es)) (rename g v) = event_value es v"
    "\<forall>e \<in> set (convertEntries (renumber es)). eid e < length es div 2" "g ` Id ` set es = {..<length es div 2}"
proof -
  obtain g where g: "inj_on g (Id ` set es)" "g ` Id ` set es = {..<card (Id ` set es)}"
    "renumber es = map (\<lambda>v. v\<lparr>Id := g (Id v)\<rparr>) es"
    using renumber_map by blast
  let ?es = "convertEntries (renumber es)"
  have ids: "ev_id ` set (map event_ev es) = Id ` set es" by (simp add: image_image)
  have n: "length es div 2 = card (Id ` set es)" using complete_length [OF c] by (simp add: image_image)
  have ev: "map entry_ev ?es = map (rename g) (map event_ev es)"
    by (simp add: convertEntries_def g(3) comp_def entry_ev_def event_ev_def)
  have "value_of ?es (rename g v) = event_value es v" if "ev_id v \<in> Id ` set es" for v
  proof -
    have "map (\<lambda>e. (entry_ev e, evalue e)) ?es = map (\<lambda>e. (rename g (event_ev e), Value e)) es"
      by (simp add: convertEntries_def g(3) comp_def entry_ev_def event_ev_def)
    moreover have "ev_id ` insert v (event_ev ` set es) = Id ` set es" using that by (auto simp: image_image)
    then have "inj_on (rename g) (insert v (event_ev ` set es))" using rename_inj g(1) by metis
    ultimately show ?thesis using map_of_map_inj [where f = "rename g" and x = v and key = event_ev and xs = es and vl = Value] by (simp add: value_of_def event_value_def)
  qed
  moreover have "\<forall>e \<in> set ?es. eid e < length es div 2"
    using g(2) by (auto simp: convertEntries_def g(3) n)
  ultimately show thesis using that g(1,2) ev n by simp
qed

lemma renumbered_ok:
  assumes c: "complete (map event_ev es)" and f: "events_fit model es"
  shows "es_ok model (convertEntries (renumber es)) \<and>
    es_linearizable model (convertEntries (renumber es)) = events_linearizable model es"
proof -
  let ?es = "convertEntries (renumber es)"
  obtain g where g: "inj_on g (Id ` set es)" and ev: "map entry_ev ?es = map (rename g) (map event_ev es)"
    and val: "\<And>v. ev_id v \<in> Id ` set es \<Longrightarrow> value_of ?es (rename g v) = event_value es v"
    and n: "\<forall>e \<in> set ?es. eid e < length es div 2" and im: "g ` Id ` set es = {..<length es div 2}"
    using renumbered_entries [OF c] by metis
  have ids: "ev_id ` set (map event_ev es) = Id ` set es" by (simp add: image_image)
  have vals: "value_of ?es (C (g i)) = event_value es (C i)" "value_of ?es (R (g i)) = event_value es (R i)"
    if "i \<in> Id ` set es" for i using val [of "C i"] val [of "R i"] that by simp_all
  have l: "length ?es = length es" using ev by (metis length_map)
  have "complete (map entry_ev ?es)" unfolding ev using complete_rename [OF _ c] g ids by simp
  moreover have "step_total model (length ?es div 2) (\<lambda>i. value_of ?es (C i)) (\<lambda>i. value_of ?es (R i))"
    unfolding step_total_def l
  proof (intro allI impI)
    fix j s assume "j < length es div 2"
    then obtain i where i: "i \<in> Id ` set es" "j = g i" using im by blast
    then show "\<exists>r. Step model s (value_of ?es (C j)) (value_of ?es (R j)) = Inr r"
      using f vals [OF i(1)] by (auto simp: events_fit_def)
  qed
  ultimately have "es_ok model ?es" using n by (simp add: es_ok_def l)
  moreover have "es_linearizable model ?es = events_linearizable model es"
    unfolding es_linearizable_def ev events_linearizable_def linearizable_def [symmetric]
    by (rule linearizable_rename) (use g ids vals in \<open>simp_all add: event_accepts_def accepts_def\<close>)
  ultimately show ?thesis by simp
qed

lemma CheckEvents_start:
  assumes "call_field (PartitionEvent (fillDefault model)) history = Inr parts"
    and "\<forall>part \<in> set parts. complete (map event_ev part) \<and> events_fit (fillDefault model) part"
  shows "CheckEvents_entries model history = Inr (map (\<lambda>es. convertEntries (renumber es)) parts)"
    "\<forall>es \<in> set (map (\<lambda>es. convertEntries (renumber es)) parts). es_ok (fillDefault model) es"
    "\<forall>part \<in> set parts. es_linearizable (fillDefault model) (convertEntries (renumber part)) = events_linearizable (fillDefault model) part"
  using assms renumbered_ok [of _ "fillDefault model"] by (auto simp: CheckEvents_entries_def)

lemma CheckEvents_verdict:
  assumes "equal_sound (fillDefault model)" "call_field (PartitionEvent (fillDefault model)) history = Inr parts"
    "\<forall>part \<in> set parts. complete (map event_ev part) \<and> events_fit (fillDefault model) part"
    and b: "CheckEventsTimeout model history timeout b"
  shows "(b \<longrightarrow> timeout > 0 \<or> (\<forall>part \<in> set parts. events_linearizable (fillDefault model) part)) \<and>
    (\<not> b \<longrightarrow> (\<exists>part \<in> set parts. \<not> events_linearizable (fillDefault model) part))"
proof -
  note s = CheckEvents_start [OF assms(2,3)]
  obtain c0 c where "collect_start (map (\<lambda>es. convertEntries (renumber es)) parts) = Inr c0"
    "run_from (collect_step (fillDefault model) timeout) c0 c" "returned c = Some b"
    using b s(1) by (auto simp: CheckEventsTimeout_def)
  from verdict [OF assms(1) s(2) this] s(3) show ?thesis by auto
qed

lemma CheckEvents_decides:
  assumes "equal_sound (fillDefault model)" "call_field (PartitionEvent (fillDefault model)) history = Inr parts"
    "\<forall>part \<in> set parts. complete (map event_ev part) \<and> events_fit (fillDefault model) part" and "parts \<noteq> []"
  shows "CheckEvents model history b \<longleftrightarrow> b = (\<forall>part \<in> set parts. events_linearizable (fillDefault model) part)"
proof
  assume "CheckEvents model history b"
  from CheckEvents_verdict [OF assms(1-3) this [unfolded CheckEvents_def]]
  show "b = (\<forall>part \<in> set parts. events_linearizable (fillDefault model) part)" by auto
next
  assume b: "b = (\<forall>part \<in> set parts. events_linearizable (fillDefault model) part)"
  let ?ess = "map (\<lambda>es. convertEntries (renumber es)) parts"
  note s = CheckEvents_start [OF assms(2,3)]
  obtain c0 where c0: "collect_start ?ess = Inr c0" "collecting (fillDefault model) (map (es_linearizable (fillDefault model)) ?ess) 0 c0"
    using collecting_start [OF assms(1) s(2)] by blast
  obtain c' b' where "run_from (collect_step (fillDefault model) 0) c0 c'" "returned c' = Some b'"
    using verdict_reached [OF c0(2)] assms(4) by auto
  then have *: "CheckEventsTimeout model history 0 b'" using c0(1) s(1) unfolding CheckEventsTimeout_def by blast
  from CheckEvents_verdict [OF assms(1-3) *] b have "b' = b" by auto
  with * show "CheckEvents model history b" by (simp add: CheckEvents_def)
qed

section \<open>Properties\<close>

text \<open>
  C33: The verdict on events. On a history of events in which every call is followed by its one return,
  \<^verbatim>\<open>CheckEvents\<close> returns, under every interleaving that ends, true exactly if every partition is
  linearizable as recorded, under the numbers the caller chose: the renumbering makes the search
  possible and does not change the answer.
\<close>

theorem CheckEvents_correct:
  assumes "equal_sound (fillDefault model)" and "call_field (PartitionEvent (fillDefault model)) history = Inr parts"
    and "\<forall>part \<in> set parts. complete (map event_ev part) \<and> events_fit (fillDefault model) part" and "parts \<noteq> []"
  shows "CheckEvents model history b \<longleftrightarrow> b = (\<forall>part \<in> set parts. events_linearizable (fillDefault model) part)"
  by (rule CheckEvents_decides [OF assms])

definition kv_call :: "nat \<Rightarrow> 8 word \<Rightarrow> string \<Rightarrow> string \<Rightarrow> kv_value Event" where
  "kv_call i opcode key v = \<lparr>Kind = CallEvent, Value = Some (KvIn \<lparr>kvOp = opcode, kvKey = key, kvValue = v\<rparr>), Id = i\<rparr>"

definition kv_return :: "nat \<Rightarrow> string \<Rightarrow> kv_value Event" where
  "kv_return i v = \<lparr>Kind = ReturnEvent, Value = Some (KvOut \<lparr>outValue = v\<rparr>), Id = i\<rparr>"

text \<open>The key x is set to a, and then the key y is read and found to hold a.\<close>

definition mixed_events :: "kv_value Event list" where
  "mixed_events = [kv_call 7 1 ''x'' ''a'', kv_return 7 '''', kv_call 3 0 ''y'' '''', kv_return 3 ''a'']"

lemma mixed_events_facts:
  "map event_ev mixed_events = [C 7, R 7, C 3, R 3]" "complete [C 7, R 7, C 3, R 3]"
  "\<And>s. accepts (KvModel order) (\<lambda>i. event_value mixed_events (C i)) (\<lambda>i. event_value mixed_events (R i)) 7 s = Some ''a''"
  "accepts (KvModel order) (\<lambda>i. event_value mixed_events (C i)) (\<lambda>i. event_value mixed_events (R i)) 3 ''a'' = Some ''a''"
  "events_fit (KvModel order) mixed_events"
proof -
  have s: "kv_Step s (Some (KvIn i)) (Some (KvOut r)) = Inr (kvOp i = 0 \<longrightarrow> outValue r = s,
      if kvOp i = 0 then s else if kvOp i = 1 then kvValue i else s @ kvValue i)" for s i r
    by (simp add: kv_Step_def)
  show "map event_ev mixed_events = [C 7, R 7, C 3, R 3]" by (simp add: mixed_events_def kv_call_def kv_return_def event_ev_def)
  show "complete [C 7, R 7, C 3, R 3]" by (auto simp: complete_def)
  show "\<And>s. accepts (KvModel order) (\<lambda>i. event_value mixed_events (C i)) (\<lambda>i. event_value mixed_events (R i)) 7 s = Some ''a''"
    "accepts (KvModel order) (\<lambda>i. event_value mixed_events (C i)) (\<lambda>i. event_value mixed_events (R i)) 3 ''a'' = Some ''a''"
    "events_fit (KvModel order) mixed_events"
    by (auto simp: accepts_def event_value_def events_fit_def mixed_events_def kv_call_def kv_return_def event_ev_def s)
qed

lemma mixed_events_linearizable: "events_linearizable (fillDefault (KvModel order)) mixed_events"
  unfolding events_linearizable_def event_accepts_def mixed_events_facts(1) linearization_def
  by (rule exI [of _ "[7, 3]"]) (auto simp: mixed_events_facts(3,4))

lemma mixed_events_partition: "call_field (PartitionEvent (fillDefault (KvModel order))) mixed_events = Inr [mixed_events]"
  by (simp add: NoPartitionEvent_def)

lemma mixed_events_ok: "complete (map event_ev mixed_events) \<and> events_fit (fillDefault (KvModel order)) mixed_events"
  using mixed_events_facts(1,2,5) by (simp add: events_fit_def)

theorem CheckEvents_correct_witness: "CheckEvents (KvModel id) mixed_events True"
  using CheckEvents_correct [OF kv_equal_sound mixed_events_partition, of id True] mixed_events_ok [of id] mixed_events_linearizable [of id] by simp

text \<open>
  The entry point for events mixes up keys. \<^verbatim>\<open>KvModel\<close> describes a single key and has no
  partition for events, so \<^verbatim>\<open>CheckEvents\<close> accepts, and cannot reject, a history in which key x is set
  to a and afterwards the untouched key y is read as a; the same operations with timestamps are
  rejected by \<^verbatim>\<open>CheckOperations\<close>, which splits them by key.
\<close>

lemma CheckEvents_mixes_keys:
  "CheckEvents (KvModel order) mixed_events True \<and> \<not> CheckEvents (KvModel order) mixed_events False \<and>
   CheckOperations (sort_key etime) (KvModel id) [kv_op 1 ''x'' ''a'' '''' 1 2, kv_op 0 ''y'' '''' ''a'' 3 4] False"
proof -
  have "CheckEvents (KvModel order) mixed_events b \<longleftrightarrow> b" for b
    using CheckEvents_decides [OF kv_equal_sound mixed_events_partition, of order b] mixed_events_ok [of order] mixed_events_linearizable [of order] by simp
  moreover have "CheckOperations (sort_key etime) (KvModel id) [kv_op 1 ''x'' ''a'' '''' 1 2, kv_op 0 ''y'' '''' ''a'' 3 4] False"
  proof -
    let ?ops = "[kv_op 1 ''x'' ''a'' '''' 1 2, kv_op 0 ''y'' '''' ''a'' 3 4]" let ?m = "fillDefault (KvModel id)"
    have p: "call_field (Partition ?m) ?ops = Inr [[kv_op 1 ''x'' ''a'' '''' 1 2], [kv_op 0 ''y'' '''' ''a'' 3 4]]"
      by (simp add: kv_Partition_def kv_op_def)
    have "\<not> ops_linearizable ?m [kv_op 0 ''y'' '''' ''a'' 3 4]"
    proof
      assume "ops_linearizable ?m [kv_op 0 ''y'' '''' ''a'' 3 4]"
      then obtain ord where o: "distinct ord" "set ord = {0 :: nat}"
        "run_ops (op_accepts ?m [kv_op 0 ''y'' '''' ''a'' 3 4]) ord [] \<noteq> None"
        by (auto simp: ops_linearizable_def op_order_def)
      then have "ord = [0]" by (cases ord; cases "tl ord") auto
      with o(3) show False by (simp add: op_accepts_def accepts_def kv_Step_def kv_op_def)
    qed
    moreover have "times_ok [kv_op oc k v w c r] \<and> step_fits ?m [kv_op oc k v w c r]" if "c < r" for oc k v w c r
      using that kv_step_fits [of ?m] by (simp add: times_ok_def is_kv_op_def kv_op_def)
    ultimately show ?thesis
      using CheckOperations_decides [OF sorts_sort_key kv_equal_sound p, of False] by simp
  qed
  ultimately show ?thesis by simp
qed

end
