(* ===== verification/Lab_Gob.thy ===== *)
theory Lab_Gob
  imports Prelude "HOL-Library.Word"
begin

text \<open>
  The encoder's checks, \<^verbatim>\<open>labgob/labgob.go\<close>: a walk over the type of every value that is sent or
  persisted that complains about fields whose names do not start with a capital letter, and a walk
  over the variable a value is decoded into that complains about contents that are not the zero
  value. Types form a table, because they may be recursive: a type is a number, the table says what
  it is made of. Values hold addresses where Go has pointers. The encodings of \<^verbatim>\<open>encoding/gob\<close> are
  arguments. Field names are taken to start with an ASCII character.
\<close>

section \<open>Types and the state of the package\<close>

type_synonym tid = nat

datatype go_type =
    Struct string "(string \<times> tid) list"
  | Slice tid
  | Array tid
  | Ptr tid
  | MapType tid tid
  | OtherType string

type_synonym type_table = "go_type list"

record labgob =
  errorCount :: int
  checked :: "tid set"
  warnings :: "(string \<times> string) list"

definition labgob_init :: labgob where
  "labgob_init = \<lparr>errorCount = 0, checked = {}, warnings = []\<rparr>"

definition startsUpper :: "string \<Rightarrow> bool" where
  "startsUpper name = (case name of [] \<Rightarrow> False | c # _ \<Rightarrow> 65 \<le> (of_char c :: nat) \<and> (of_char c :: nat) \<le> 90)"

section \<open>The walk over a type\<close>

text \<open>
  \<open>checkType\<close> recurses through the fields of a structure in \<open>checkFields\<close>. The first argument after
  the table bounds the depth of the recursion; \<open>None\<close> says that it was too small. A type that is not
  in the table is an error of the model only, and counts as a type without parts.
\<close>

definition typeOf :: "type_table \<Rightarrow> tid \<Rightarrow> go_type" where
  "typeOf tbl t = (if t < length tbl then tbl ! t else OtherType '''')"

definition complain :: "string \<Rightarrow> string \<Rightarrow> labgob \<Rightarrow> labgob" where
  "complain fname tname g =
     g\<lparr>warnings := warnings g @ [(fname, tname)], errorCount := errorCount g + 1\<rparr>"

fun checkType :: "type_table \<Rightarrow> nat \<Rightarrow> tid \<Rightarrow> labgob \<Rightarrow> labgob option"
  and checkFields :: "type_table \<Rightarrow> nat \<Rightarrow> string \<Rightarrow> (string \<times> tid) list \<Rightarrow> labgob \<Rightarrow> labgob option" where
  "checkType tbl 0 t g = None"
| "checkType tbl (Suc n) t g =
     (if t \<in> checked g then Some g
      else let g1 = g\<lparr>checked := insert t (checked g)\<rparr> in
        (case typeOf tbl t of
           Struct tname fs \<Rightarrow> checkFields tbl n tname fs g1
         | Slice elem \<Rightarrow> checkType tbl n elem g1
         | Array elem \<Rightarrow> checkType tbl n elem g1
         | Ptr elem \<Rightarrow> checkType tbl n elem g1
         | MapType key elem \<Rightarrow>
             (case checkType tbl n elem g1 of
                None \<Rightarrow> None
              | Some g2 \<Rightarrow> checkType tbl n key g2)
         | OtherType _ \<Rightarrow> Some g1))"
| "checkFields tbl n tname [] g = Some g"
| "checkFields tbl n tname ((fname, ftype) # fs) g =
     (let g1 = (if \<not> startsUpper fname then complain fname tname g else g) in
      case checkType tbl n ftype g1 of
        None \<Rightarrow> None
      | Some g2 \<Rightarrow> checkFields tbl n tname fs g2)"

text \<open>The depth bound that is always enough: a call that recurses has marked a type of the table.\<close>

definition type_depth :: "type_table \<Rightarrow> nat" where
  "type_depth tbl = Suc (Suc (length tbl))"

section \<open>What the walk visits and counts\<close>

definition parts :: "type_table \<Rightarrow> tid \<Rightarrow> tid set" where
  "parts tbl t = (case typeOf tbl t of
     Struct _ fs \<Rightarrow> set (map snd fs)
   | Slice e \<Rightarrow> {e} | Array e \<Rightarrow> {e} | Ptr e \<Rightarrow> {e}
   | MapType k e \<Rightarrow> {k, e} | OtherType _ \<Rightarrow> {})"

definition part_rel :: "type_table \<Rightarrow> (tid \<times> tid) set" where
  "part_rel tbl = {(t, u). u \<in> parts tbl t}"

definition lower_fields :: "(string \<times> tid) list \<Rightarrow> nat" where
  "lower_fields fs = length (filter (\<lambda>(fname, _). \<not> startsUpper fname) fs)"

definition lower :: "type_table \<Rightarrow> tid \<Rightarrow> nat" where
  "lower tbl t = (case typeOf tbl t of Struct _ fs \<Rightarrow> lower_fields fs | _ \<Rightarrow> 0)"

text \<open>
  From \<open>g\<close> to \<open>g'\<close> the walk over some types \<open>roots\<close> has marked more types, the roots among them, only
  types made out of the roots, and with every new type all its parts; the counter has grown by the
  lower-case fields of the new types and by \<open>extra\<close>, with a message each time.
\<close>

definition walked :: "type_table \<Rightarrow> tid set \<Rightarrow> nat \<Rightarrow> labgob \<Rightarrow> labgob \<Rightarrow> bool" where
  "walked tbl roots extra g g' \<longleftrightarrow>
     checked g \<subseteq> checked g' \<and> roots \<subseteq> checked g' \<and>
     checked g' \<subseteq> checked g \<union> (part_rel tbl)\<^sup>* `` roots \<and>
     (\<forall>u \<in> checked g' - checked g. parts tbl u \<subseteq> checked g') \<and>
     errorCount g \<le> errorCount g' \<and>
     int (length (warnings g')) + errorCount g = int (length (warnings g)) + errorCount g' \<and>
     (finite (checked g) \<longrightarrow> finite (checked g') \<and>
        errorCount g' = errorCount g + int extra + int (\<Sum>u \<in> checked g' - checked g. lower tbl u))"

lemma walked_refl: "roots \<subseteq> checked g \<Longrightarrow> walked tbl roots 0 g g"
  by (simp add: walked_def)

lemma walked_trans:
  assumes 1: "walked tbl a m g1 g2" and 2: "walked tbl b n g2 g3"
  shows "walked tbl (a \<union> b) (m + n) g1 g3"
proof -
  have sub: "checked g1 \<subseteq> checked g2" "checked g2 \<subseteq> checked g3" using 1 2 by (simp_all add: walked_def)
  have split: "checked g3 - checked g1 = (checked g2 - checked g1) \<union> (checked g3 - checked g2)" using sub by blast
  have "(\<Sum>u \<in> checked g3 - checked g1. lower tbl u) =
      (\<Sum>u \<in> checked g2 - checked g1. lower tbl u) + (\<Sum>u \<in> checked g3 - checked g2. lower tbl u)"
    if "finite (checked g1)"
    unfolding split using 1 2 that by (intro sum.union_disjoint) (auto simp: walked_def)
  moreover
  have "\<forall>u \<in> checked g2 - checked g1. parts tbl u \<subseteq> checked g2"
    "\<forall>u \<in> checked g3 - checked g2. parts tbl u \<subseteq> checked g3" using 1 2 by (simp_all add: walked_def)
  then have "\<forall>u \<in> checked g3 - checked g1. parts tbl u \<subseteq> checked g3" using sub by blast
  moreover have "checked g3 \<subseteq> checked g1 \<union> (part_rel tbl)\<^sup>* `` (a \<union> b)"
    using 1 2 unfolding walked_def Image_Un by blast
  ultimately show ?thesis using 1 2 sub unfolding walked_def by auto
qed

lemma walked_complain:
  assumes "walked tbl a n (complain f tn g) g'"
  shows "walked tbl a (Suc n) g g'"
  using assms by (simp add: walked_def complain_def)

text \<open>Marking a type and then walking over its parts is walking over the type.\<close>

lemma walked_mark:
  assumes w: "walked tbl (parts tbl t) (lower tbl t) (g\<lparr>checked := insert t (checked g)\<rparr>) g'" and new: "t \<notin> checked g"
  shows "walked tbl {t} 0 g g'"
proof -
  let ?R = "(part_rel tbl)\<^sup>*"
  have t: "t \<in> checked g'" "checked g \<subseteq> checked g'" using w by (auto simp: walked_def)
  have diff: "checked g' - checked g = insert t (checked g' - insert t (checked g))" using t new by blast
  have "?R `` parts tbl t \<subseteq> ?R `` {t}"
    by (auto simp: part_rel_def intro: converse_rtrancl_into_rtrancl)
  moreover have "t \<in> ?R `` {t}" by simp
  moreover have "checked g' \<subseteq> insert t (checked g) \<union> ?R `` parts tbl t" using w by (simp add: walked_def)
  ultimately have "checked g' \<subseteq> checked g \<union> ?R `` {t}" by blast
  moreover have "\<forall>u \<in> checked g' - checked g. parts tbl u \<subseteq> checked g'"
    unfolding diff using w by (simp add: walked_def)
  moreover have "finite (checked g') \<and> errorCount g' = errorCount g + int (\<Sum>u \<in> checked g' - checked g. lower tbl u)"
    if "finite (checked g)" unfolding diff using w that by (simp add: walked_def)
  moreover have "errorCount g \<le> errorCount g' \<and>
      int (length (warnings g')) + errorCount g = int (length (warnings g)) + errorCount g'"
    using w by (simp add: walked_def)
  ultimately show ?thesis using t by (simp add: walked_def)
qed

lemma checkType_walked:
  "checkType tbl n t g = Some g' \<Longrightarrow> walked tbl {t} 0 g g'"
  "checkFields tbl n tname fs g = Some g' \<Longrightarrow> walked tbl (set (map snd fs)) (lower_fields fs) g g'"
proof (induction tbl n t g and tbl n tname fs g arbitrary: g' and g' rule: checkType_checkFields.induct)
  case (2 tbl n t g)
  show ?case
  proof (cases "t \<in> checked g")
    case True
    with "2.prems" show ?thesis by (simp add: walked_refl)
  next
    case new: False
    let ?g1 = "g\<lparr>checked := insert t (checked g)\<rparr>"
    have "walked tbl (parts tbl t) (lower tbl t) ?g1 g'"
    proof (cases "typeOf tbl t")
      case (MapType k e)
      with "2.prems" new obtain g2 where g2: "checkType tbl n e ?g1 = Some g2" "checkType tbl n k g2 = Some g'"
        by (auto split: option.splits)
      have "walked tbl ({e} \<union> {k}) (0 + 0) ?g1 g'"
        by (rule walked_trans [OF "2.IH"(5) [OF new refl MapType g2(1)] "2.IH"(6) [OF new refl MapType g2]])
      then show ?thesis using MapType by (simp add: parts_def lower_def insert_commute)
    qed (use "2.prems" "2.IH" new in \<open>auto simp: parts_def lower_def walked_refl\<close>)
    then show ?thesis using new by (rule walked_mark)
  qed
next
  case (4 tbl n tname fname ftype fs g)
  let ?g1 = "if \<not> startsUpper fname then complain fname tname g else g"
  from "4.prems" obtain g2 where g2: "checkType tbl n ftype ?g1 = Some g2" "checkFields tbl n tname fs g2 = Some g'"
    by (auto simp: Let_def split: option.splits)
  have "walked tbl ({ftype} \<union> set (map snd fs)) (0 + lower_fields fs) ?g1 g'"
    by (rule walked_trans [OF "4.IH"(1) [OF refl g2(1)] "4.IH"(2) [OF refl g2]])
  then show ?case by (auto simp: lower_fields_def intro: walked_complain split: if_splits)
qed (simp_all add: walked_refl lower_fields_def)

section \<open>The walk ends\<close>

text \<open>Types of a table refer to types of the table.\<close>

definition table_ok :: "type_table \<Rightarrow> bool" where
  "table_ok tbl \<longleftrightarrow> (\<forall>t < length tbl. \<forall>u \<in> parts tbl t. u < length tbl)"

lemma parts_in_table: "table_ok tbl \<Longrightarrow> u \<in> parts tbl t \<Longrightarrow> u < length tbl"
  by (cases "t < length tbl") (auto simp: table_ok_def parts_def typeOf_def)

definition unmarked :: "type_table \<Rightarrow> labgob \<Rightarrow> nat" where
  "unmarked tbl g = card ({..<length tbl} - checked g)"

lemma unmarked_mono: "checked g \<subseteq> checked g' \<Longrightarrow> unmarked tbl g' \<le> unmarked tbl g"
  unfolding unmarked_def by (rule card_mono) auto

lemma unmarked_mark:
  assumes "t < length tbl" "t \<notin> checked g"
  shows "Suc (unmarked tbl (g\<lparr>checked := insert t (checked g)\<rparr>)) = unmarked tbl g"
proof -
  have "Suc (card ({..<length tbl} - checked g - {t})) = card ({..<length tbl} - checked g)"
    by (rule card_Suc_Diff1) (use assms in auto)
  moreover have "{..<length tbl} - checked g - {t} = {..<length tbl} - insert t (checked g)" by blast
  ultimately show ?thesis by (simp only: unmarked_def) simp
qed

lemma checkType_mono: "checkType tbl n t g = Some g' \<Longrightarrow> checked g \<subseteq> checked g'"
  using checkType_walked(1) by (auto simp: walked_def)

lemma checkType_count_mono: "checkType tbl n t g = Some g' \<Longrightarrow> errorCount g \<le> errorCount g'"
  using checkType_walked(1) by (auto simp: walked_def)

lemma checkType_ends:
  "table_ok tbl \<Longrightarrow> t < length tbl \<Longrightarrow> unmarked tbl g < n \<Longrightarrow> checkType tbl n t g \<noteq> None"
  "table_ok tbl \<Longrightarrow> \<forall>f \<in> set fs. snd f < length tbl \<Longrightarrow> unmarked tbl g < n \<Longrightarrow> checkFields tbl n tname fs g \<noteq> None"
proof (induction tbl n t g and tbl n tname fs g rule: checkType_checkFields.induct)
  case (2 tbl n t g)
  show ?case
  proof (cases "t \<in> checked g")
    case new: False
    let ?g1 = "g\<lparr>checked := insert t (checked g)\<rparr>"
    have less: "unmarked tbl ?g1 < n" using unmarked_mark [OF "2.prems"(2) new] "2.prems"(3) by linarith
    have inside: "u < length tbl" if "u \<in> parts tbl t" for u using parts_in_table "2.prems"(1) that by blast
    show ?thesis
    proof (cases "typeOf tbl t")
      case (Struct tname fs)
      then have "\<forall>f \<in> set fs. snd f < length tbl" using inside by (auto simp: parts_def)
      from "2.IH"(1) [OF new refl Struct "2.prems"(1) this less] new Struct show ?thesis by simp
    next
      case (MapType k e)
      then have ke: "e < length tbl" "k < length tbl" using inside by (auto simp: parts_def)
      from "2.IH"(5) [OF new refl MapType "2.prems"(1) ke(1) less]
      obtain g2 where g2: "checkType tbl n e ?g1 = Some g2" by blast
      have "unmarked tbl g2 < n" using unmarked_mono [OF checkType_mono [OF g2], of tbl] less by linarith
      from "2.IH"(6) [OF new refl MapType g2 "2.prems"(1) ke(2) this] g2 new MapType show ?thesis by simp
    qed (use "2.IH" new less inside "2.prems"(1) in \<open>simp_all add: parts_def\<close>)
  qed simp
next
  case (4 tbl n tname fname ftype fs g)
  let ?g1 = "if \<not> startsUpper fname then complain fname tname g else g"
  have same: "unmarked tbl ?g1 = unmarked tbl g" by (simp add: unmarked_def complain_def)
  have "checkType tbl n ftype ?g1 \<noteq> None" using "4.IH"(1) [OF refl "4.prems"(1)] "4.prems"(2,3) same by simp
  then obtain g2 where g2: "checkType tbl n ftype ?g1 = Some g2" by blast
  have "unmarked tbl g2 < n" using unmarked_mono [OF checkType_mono [OF g2], of tbl] same "4.prems"(3) by linarith
  from "4.IH"(2) [OF refl g2 "4.prems"(1) _ this] "4.prems"(2) g2 show ?case by (simp add: Let_def)
qed simp_all

lemma unmarked_less_depth: "unmarked tbl g < type_depth tbl"
proof -
  have "card ({..<length tbl} - checked g) \<le> card {..<length tbl}" by (rule card_mono) auto
  then show ?thesis by (simp add: unmarked_def type_depth_def)
qed

section \<open>Values and the walk over a variable\<close>

text \<open>
  A pointer is an address into the store \<open>mem\<close>, so values may be cyclic; the depth limit of the walk
  cuts them off. Floats are 64-bit patterns: both zeros are equal to the zero value. The values of
  the other kinds (maps, slices, interfaces, channels) are not looked into.
\<close>

datatype scalar = SBool bool | SInt int | SFloat "64 word" | SString string

datatype go_value =
    VStruct "(string \<times> go_value) list"
  | VPtr "nat option"
  | VScalar string scalar
  | VOther

fun is_zero :: "scalar \<Rightarrow> bool" where
  "is_zero (SBool b) = (\<not> b)"
| "is_zero (SInt i) = (i = 0)"
| "is_zero (SFloat w) = (push_bit 1 w = 0)"
| "is_zero (SString s) = (s = '''')"

definition warn_default :: "string \<Rightarrow> string \<Rightarrow> labgob \<Rightarrow> labgob" where
  "warn_default name tname g =
     (let g1 = (if errorCount g < 1
                then g\<lparr>warnings := warnings g @ [(if name = '''' then tname else name, '''')]\<rparr> else g)
      in g1\<lparr>errorCount := errorCount g1 + 1\<rparr>)"

function checkDefault1 :: "(nat \<Rightarrow> go_value) \<Rightarrow> go_value \<Rightarrow> nat \<Rightarrow> string \<Rightarrow> labgob \<Rightarrow> labgob"
  and checkDefaultFields :: "(nat \<Rightarrow> go_value) \<Rightarrow> (string \<times> go_value) list \<Rightarrow> nat \<Rightarrow> string \<Rightarrow> labgob \<Rightarrow> labgob" where
  "checkDefault1 mem v depth name g =
     (if depth > 3 then g
      else (case v of
              VStruct fs \<Rightarrow> checkDefaultFields mem fs depth name g
            | VPtr a \<Rightarrow>
                (case a of
                   None \<Rightarrow> g
                 | Some addr \<Rightarrow> checkDefault1 mem (mem addr) (depth + 1) name g)
            | VScalar tname s \<Rightarrow> if \<not> is_zero s then warn_default name tname g else g
            | VOther \<Rightarrow> g))"
| "checkDefaultFields mem [] depth name g = g"
| "checkDefaultFields mem ((fname, v) # fs) depth name g =
     (let name1 = (if name \<noteq> '''' then name @ ''.'' @ fname else fname)
      in checkDefaultFields mem fs depth name (checkDefault1 mem v (depth + 1) name1 g))"
  by pat_completeness auto

termination
  by (relation "measures [\<lambda>x. case x of Inl (_, _, d, _, _) \<Rightarrow> 4 - d | Inr (_, _, d, _, _) \<Rightarrow> 4 - d,
      \<lambda>x. case x of Inl (_, v, _, _, _) \<Rightarrow> size v | Inr (_, fs, _, _, _) \<Rightarrow> size_list (size_prod (\<lambda>_. 0) size) fs]")
    auto

section \<open>The operations of the package\<close>

text \<open>An interface value: its dynamic type and value, or nil. \<^verbatim>\<open>TypeOf\<close> of nil has no \<^verbatim>\<open>Kind\<close>.\<close>

type_synonym iface = "(tid \<times> go_value) option"

definition checkValue :: "type_table \<Rightarrow> iface \<Rightarrow> labgob \<Rightarrow> labgob go option" where
  "checkValue tbl e g =
     (case e of
        None \<Rightarrow> Some (Inl NilDereference)
      | Some (t, _) \<Rightarrow> map_option Inr (checkType tbl (type_depth tbl) t g))"

definition checkDefault :: "(nat \<Rightarrow> go_value) \<Rightarrow> iface \<Rightarrow> labgob \<Rightarrow> labgob" where
  "checkDefault mem e g = (case e of None \<Rightarrow> g | Some (_, v) \<Rightarrow> checkDefault1 mem v 1 '''' g)"

record 'e LabEncoder =
  enc_gob :: 'e

definition NewEncoder :: "('w \<Rightarrow> 'e) \<Rightarrow> 'w \<Rightarrow> 'e LabEncoder" where
  "NewEncoder gobNewEncoder w = \<lparr>enc_gob = gobNewEncoder w\<rparr>"

definition Encode ::
  "('e \<Rightarrow> iface \<Rightarrow> 'e \<times> 'err) \<Rightarrow> type_table \<Rightarrow> 'e LabEncoder \<Rightarrow> iface \<Rightarrow> labgob \<Rightarrow> (labgob \<times> 'e LabEncoder \<times> 'err) go option" where
  "Encode gobEncode tbl enc e g =
     map_option (mapG (\<lambda>g1. let (s, err) = gobEncode (enc_gob enc) e in (g1, \<lparr>enc_gob = s\<rparr>, err))) (checkValue tbl e g)"

definition EncodeValue ::
  "('e \<Rightarrow> iface \<Rightarrow> 'e \<times> 'err) \<Rightarrow> type_table \<Rightarrow> 'e LabEncoder \<Rightarrow> iface \<Rightarrow> labgob \<Rightarrow> (labgob \<times> 'e LabEncoder \<times> 'err) go option" where
  "EncodeValue gobEncodeValue tbl enc e g =
     map_option (mapG (\<lambda>g1. let (s, err) = gobEncodeValue (enc_gob enc) e in (g1, \<lparr>enc_gob = s\<rparr>, err))) (checkValue tbl e g)"

record 'd LabDecoder =
  dec_gob :: 'd

definition NewDecoder :: "('r \<Rightarrow> 'd) \<Rightarrow> 'r \<Rightarrow> 'd LabDecoder" where
  "NewDecoder gobNewDecoder r = \<lparr>dec_gob = gobNewDecoder r\<rparr>"

definition Decode ::
  "('d \<Rightarrow> iface \<Rightarrow> (nat \<Rightarrow> go_value) \<Rightarrow> 'd \<times> (nat \<Rightarrow> go_value) \<times> 'err) \<Rightarrow> type_table \<Rightarrow> 'd LabDecoder \<Rightarrow> iface
   \<Rightarrow> (nat \<Rightarrow> go_value) \<Rightarrow> labgob \<Rightarrow> (labgob \<times> 'd LabDecoder \<times> (nat \<Rightarrow> go_value) \<times> 'err) go option" where
  "Decode gobDecode tbl dec e mem g =
     map_option (mapG (\<lambda>g1.
       let g2 = checkDefault mem e g1;
           (s, mem1, err) = gobDecode (dec_gob dec) e mem
       in (g2, \<lparr>dec_gob = s\<rparr>, mem1, err))) (checkValue tbl e g)"

definition lab_Register ::
  "(iface \<Rightarrow> 's \<Rightarrow> 's go) \<Rightarrow> type_table \<Rightarrow> iface \<Rightarrow> labgob \<Rightarrow> 's \<Rightarrow> (labgob \<times> 's) go option" where
  "lab_Register gobRegister tbl e g s =
     map_option (\<lambda>m. bindG m (\<lambda>g1. mapG (\<lambda>s1. (g1, s1)) (gobRegister e s))) (checkValue tbl e g)"

definition lab_RegisterName ::
  "(string \<Rightarrow> iface \<Rightarrow> 's \<Rightarrow> 's go) \<Rightarrow> type_table \<Rightarrow> string \<Rightarrow> iface \<Rightarrow> labgob \<Rightarrow> 's \<Rightarrow> (labgob \<times> 's) go option" where
  "lab_RegisterName gobRegisterName tbl name e g s =
     map_option (\<lambda>m. bindG m (\<lambda>g1. mapG (\<lambda>s1. (g1, s1)) (gobRegisterName name e s))) (checkValue tbl e g)"

text \<open>The checks of a sequence of values that are sent, persisted or registered one after the other.\<close>

fun checkValues :: "type_table \<Rightarrow> iface list \<Rightarrow> labgob \<Rightarrow> labgob go option" where
  "checkValues tbl [] g = Some (Inr g)"
| "checkValues tbl (e # es) g =
     (case checkValue tbl e g of
        None \<Rightarrow> None
      | Some (Inl err) \<Rightarrow> Some (Inl err)
      | Some (Inr g1) \<Rightarrow> checkValues tbl es g1)"

lemma checkValues_walked:
  assumes "table_ok tbl" "\<forall>(t, v) \<in> set vs. t < length tbl"
  shows "\<exists>g'. checkValues tbl (map Some vs) g = Some (Inr g') \<and> walked tbl (fst ` set vs) 0 g g'"
  using assms(2)
proof (induction vs arbitrary: g)
  case Nil
  then show ?case by (simp add: walked_refl)
next
  case (Cons tv vs)
  obtain t v where tv: "tv = (t, v)" by (cases tv)
  with Cons.prems have "t < length tbl" by simp
  from checkType_ends(1) [OF assms(1) this unmarked_less_depth] obtain g1
    where g1: "checkType tbl (type_depth tbl) t g = Some g1" by blast
  from Cons.IH [of g1] Cons.prems obtain g' where g': "checkValues tbl (map Some vs) g1 = Some (Inr g')" "walked tbl (fst ` set vs) 0 g1 g'"
    by auto
  from walked_trans [OF checkType_walked(1) [OF g1] g'(2)] have "walked tbl (fst ` set (tv # vs)) 0 g g'" using tv by simp
  moreover have "checkValues tbl (map Some (tv # vs)) g = Some (Inr g')" using tv g1 g'(1) by (simp add: checkValue_def)
  ultimately show ?case by blast
qed

text \<open>Marked types that contain their parts and their roots contain all that is made of the roots.\<close>

lemma walked_from_init:
  assumes "walked tbl roots 0 labgob_init g"
  shows "checked g = (part_rel tbl)\<^sup>* `` roots \<and> errorCount g = int (\<Sum>u \<in> checked g. lower tbl u) \<and>
    int (length (warnings g)) = errorCount g"
proof -
  have closed: "\<forall>u \<in> checked g. parts tbl u \<subseteq> checked g" and roots: "roots \<subseteq> checked g"
    and le: "checked g \<subseteq> (part_rel tbl)\<^sup>* `` roots"
    and count: "errorCount g = int (\<Sum>u \<in> checked g. lower tbl u) \<and> int (length (warnings g)) = errorCount g"
    using assms by (simp_all add: walked_def labgob_init_def)
  have "u \<in> checked g" if "(t, u) \<in> (part_rel tbl)\<^sup>*" "t \<in> checked g" for t u
    using that by (induction rule: rtrancl_induct) (use closed in \<open>auto simp: part_rel_def\<close>)
  with roots le count show ?thesis by blast
qed

section \<open>What the walk over a variable finds\<close>

text \<open>The scalars that a value of depth \<open>d\<close> shows to the walk.\<close>

inductive visible :: "(nat \<Rightarrow> go_value) \<Rightarrow> nat \<Rightarrow> go_value \<Rightarrow> scalar \<Rightarrow> bool" for mem where
  visible_scalar: "d \<le> 3 \<Longrightarrow> visible mem d (VScalar tname s) s"
| visible_field: "d \<le> 3 \<Longrightarrow> (fname, v) \<in> set fs \<Longrightarrow> visible mem (d + 1) v s \<Longrightarrow> visible mem d (VStruct fs) s"
| visible_target: "d \<le> 3 \<Longrightarrow> visible mem (d + 1) (mem a) s \<Longrightarrow> visible mem d (VPtr (Some a)) s"

inductive_simps visible_simps:
  "visible mem d (VScalar tname t) s"
  "visible mem d (VStruct fs) s"
  "visible mem d (VPtr a) s"
  "visible mem d VOther s"

inductive_cases visible_deep: "visible mem d v s"

lemma visible_depth: "visible mem d v s \<Longrightarrow> d \<le> 3"
  by (erule visible_deep) auto

definition dirty :: "(nat \<Rightarrow> go_value) \<Rightarrow> nat \<Rightarrow> go_value \<Rightarrow> bool" where
  "dirty mem d v \<longleftrightarrow> (\<exists>s. visible mem d v s \<and> \<not> is_zero s)"

text \<open>Nothing happens, or the counter grows and one message is printed if it was the first error.\<close>

definition reported :: "bool \<Rightarrow> labgob \<Rightarrow> labgob \<Rightarrow> bool" where
  "reported bad g g' \<longleftrightarrow>
     (if bad then errorCount g < errorCount g' \<and> checked g' = checked g \<and>
        length (warnings g') = length (warnings g) + (if errorCount g < 1 then 1 else 0)
      else g' = g)"

lemma reported_trans:
  "0 \<le> errorCount g1 \<Longrightarrow> reported a g1 g2 \<Longrightarrow> reported b g2 g3 \<Longrightarrow> reported (a \<or> b) g1 g3"
  by (auto simp: reported_def split: if_splits)

lemma reported_nonneg: "0 \<le> errorCount g \<Longrightarrow> reported a g g' \<Longrightarrow> 0 \<le> errorCount g'"
  by (auto simp: reported_def split: if_splits)

lemma checkDefault1_reported:
  "0 \<le> errorCount g \<Longrightarrow> reported (dirty mem d v) g (checkDefault1 mem v d name g)"
  "0 \<le> errorCount g \<Longrightarrow> d \<le> 3 \<Longrightarrow> reported (\<exists>(fname, v) \<in> set fs. dirty mem (d + 1) v) g (checkDefaultFields mem fs d name g)"
proof (induction mem v d name g and mem fs d name g rule: checkDefault1_checkDefaultFields.induct)
  case (1 mem v d name g)
  show ?case
  proof (cases "d > 3")
    case True
    then have "\<not> dirty mem d v" using visible_depth by (force simp: dirty_def)
    with True show ?thesis by (simp add: reported_def)
  next
    case False
    then have d: "d \<le> 3" by simp
    show ?thesis
    proof (cases v)
      case (VStruct fs)
      have "dirty mem d v \<longleftrightarrow> (\<exists>(fname, v) \<in> set fs. dirty mem (d + 1) v)"
        using d VStruct by (auto simp: dirty_def visible_simps)
      with "1.IH"(1) [OF False VStruct "1.prems" d] VStruct False show ?thesis by simp
    next
      case (VPtr a)
      then show ?thesis
      proof (cases a)
        case (Some addr)
        have "dirty mem d v \<longleftrightarrow> dirty mem (d + 1) (mem addr)" using d VPtr Some by (auto simp: dirty_def visible_simps)
        with "1.IH"(2) [OF False VPtr Some "1.prems"] VPtr Some False show ?thesis by simp
      qed (simp add: False dirty_def visible_simps reported_def)
    next
      case (VScalar tname s)
      then show ?thesis using d by (auto simp: dirty_def visible_simps reported_def warn_default_def Let_def)
    qed (simp add: False dirty_def visible_simps reported_def)
  qed
next
  case (3 mem fname v fs d name g)
  let ?name = "if name \<noteq> '''' then name @ ''.'' @ fname else fname"
  let ?g1 = "checkDefault1 mem v (d + 1) ?name g"
  have first: "reported (dirty mem (d + 1) v) g ?g1" by (rule "3.IH"(1) [OF refl "3.prems"(1)])
  have rest: "reported (\<exists>(fname, v) \<in> set fs. dirty mem (d + 1) v) ?g1 (checkDefaultFields mem fs d name ?g1)"
    by (rule "3.IH"(2) [OF refl reported_nonneg [OF "3.prems"(1) first] "3.prems"(2)])
  from reported_trans [OF "3.prems"(1) first rest] show ?case
    by (simp add: Let_def del: checkDefault1.simps)
qed (simp add: reported_def)

section \<open>The messages of the program\<close>

text \<open>
  The types that are sent, persisted or registered: those of \<^verbatim>\<open>raft.go\<close>, of the key/value server and of
  the two maps of its snapshots.
\<close>

definition message_types :: type_table where
  "message_types =
    [OtherType ''int'', OtherType ''bool'', OtherType ''interface'', OtherType ''string'', OtherType ''int64'',
     OtherType ''uint8'', OtherType ''chan'', OtherType ''Err'',
     Struct ''LogEntry'' [(''Index'', 0), (''Term'', 0), (''Log'', 2)],
     Slice 8,
     Slice 5,
     Struct ''Snapshot'' [(''Index'', 0), (''Term'', 0), (''Storage'', 10)],
     Struct ''RequestVoteArgs'' [(''Term'', 0), (''CandidateId'', 0), (''LastLogIndex'', 0), (''LastLogTerm'', 0)],
     Struct ''RequestVoteReply'' [(''Term'', 0), (''VoteGranted'', 1)],
     Struct ''AppendEntriesArgs'' [(''Term'', 0), (''LeaderId'', 0), (''PrevLogIndex'', 0), (''PrevLogTerm'', 0),
       (''Entries'', 9), (''LeaderCommit'', 0), (''LogSnapshot'', 11)],
     Struct ''AppendEntriesReply'' [(''Term'', 0), (''Success'', 1), (''ConflictIndex'', 0), (''ConflictTerm'', 0)],
     Struct ''Op'' [(''Command'', 2), (''NotifyChan'', 6), (''OpType'', 3)],
     Struct ''PutAppendArgs'' [(''Key'', 3), (''Value'', 3), (''Op'', 3), (''ClientId'', 4), (''MsgId'', 4)],
     Struct ''PutAppendReply'' [(''Err'', 7)],
     Struct ''GetArgs'' [(''Key'', 3)],
     Struct ''GetReply'' [(''Err'', 7), (''Value'', 3)],
     Ptr 12, Ptr 13, Ptr 14, Ptr 15, Ptr 17, Ptr 18, Ptr 19, Ptr 20,
     MapType 4 4, MapType 3 3]"

lemma message_types_capitals: "lower message_types t = 0"
proof (cases "t < length message_types")
  case True
  have "\<forall>t \<in> set [0..<length message_types]. lower message_types t = 0" by code_simp
  with True show ?thesis by simp
qed (simp add: lower_def typeOf_def)

lemma message_types_ok: "table_ok message_types"
proof -
  have "\<forall>t \<in> set [0..<length message_types]. \<forall>u \<in> parts message_types t. u < length message_types" by code_simp
  then show ?thesis by (simp add: table_ok_def)
qed

section \<open>Properties\<close>

text \<open>
  C37: The check of field names is complete and complains once. Whatever values are encoded, decoded into or
  registered one after the other, the walk over their types ends, recursive types included; it has
  then visited exactly the types their types are made of, and the error count and the number of
  messages are the number of fields of these types that do not start with a capital letter, each
  counted once however often the type was met.
\<close>

theorem checkValues_complain_once:
  assumes "table_ok tbl" and "\<forall>(t, v) \<in> set vs. t < length tbl"
  shows "\<exists>g. checkValues tbl (map Some vs) labgob_init = Some (Inr g) \<and>
    checked g = (part_rel tbl)\<^sup>* `` (fst ` set vs) \<and>
    errorCount g = int (\<Sum>t \<in> checked g. lower tbl t) \<and> int (length (warnings g)) = errorCount g"
  using checkValues_walked [OF assms, of labgob_init] walked_from_init by blast

text \<open>No message of the program is complained about.\<close>

theorem checkValues_complain_once_witness:
  "\<exists>g. checkValues message_types (map (\<lambda>t. Some (t, VOther)) [16, 17, 19, 0, 9, 29, 30, 21, 22, 23, 24, 25, 26, 27, 28]) labgob_init
     = Some (Inr g) \<and> errorCount g = 0 \<and> warnings g = []"
proof -
  let ?ts = "[16, 17, 19, 0, 9, 29, 30, 21, 22, 23, 24, 25, 26, 27, 28]"
  have "\<forall>(t, v) \<in> set (map (\<lambda>t. (t, VOther)) ?ts). t < length message_types" by (simp add: message_types_def)
  from checkValues_complain_once [OF message_types_ok this] show ?thesis
    by (auto simp: message_types_capitals comp_def)
qed

text \<open>
  The check of the target of a decoding. A new error is counted exactly if some scalar that is
  seen within three levels of fields and pointers is not the zero value, cyclic values included; a message is
  printed only for the first error of the program. Decoding into nil, which the
  check would let pass and \<^verbatim>\<open>encoding/gob\<close> documents as discarding the value, brings the program down before that.
\<close>

lemma Decode_checks_target:
  assumes "0 \<le> errorCount g" and "table_ok tbl" and "t < length tbl"
  shows "Decode gobDecode tbl dec None mem g = Some (Inl NilDereference) \<and>
    (\<exists>g1 g2 dec' mem' err. checkValue tbl (Some (t, v)) g = Some (Inr g1) \<and> errorCount g \<le> errorCount g1 \<and>
       Decode gobDecode tbl dec (Some (t, v)) mem g = Some (Inr (g2, dec', mem', err)) \<and>
       (errorCount g1 < errorCount g2 \<longleftrightarrow> (\<exists>s. visible mem 1 v s \<and> \<not> is_zero s)) \<and>
       length (warnings g2) = length (warnings g1) + (if errorCount g1 = 0 \<and> errorCount g1 < errorCount g2 then 1 else 0))"
proof -
  obtain g1 where g1: "checkType tbl (type_depth tbl) t g = Some g1"
    using checkType_ends(1) [OF assms(2,3) unmarked_less_depth] by blast
  have mono: "errorCount g \<le> errorCount g1" by (rule checkType_count_mono [OF g1])
  let ?g2 = "checkDefault1 mem v 1 '''' g1"
  have rep: "reported (dirty mem 1 v) g1 ?g2" using checkDefault1_reported(1) mono assms(1) by (meson order_trans)
  obtain s mem' err where "gobDecode (dec_gob dec) (Some (t, v)) mem = (s, mem', err)" by (cases "gobDecode (dec_gob dec) (Some (t, v)) mem")
  then have "Decode gobDecode tbl dec (Some (t, v)) mem g = Some (Inr (?g2, \<lparr>dec_gob = s\<rparr>, mem', err))"
    using g1 by (simp add: Decode_def checkValue_def checkDefault_def del: checkDefault1.simps)
  moreover have "checkValue tbl (Some (t, v)) g = Some (Inr g1)" using g1 by (simp add: checkValue_def)
  moreover have "errorCount g1 < errorCount ?g2 \<longleftrightarrow> (\<exists>s. visible mem 1 v s \<and> \<not> is_zero s)"
    "length (warnings ?g2) = length (warnings g1) + (if errorCount g1 = 0 \<and> errorCount g1 < errorCount ?g2 then 1 else 0)"
    using rep mono assms(1) by (auto simp: reported_def dirty_def split: if_splits simp del: checkDefault1.simps)
  moreover have "Decode gobDecode tbl dec None mem g = Some (Inl NilDereference)" by (simp add: Decode_def checkValue_def)
  ultimately show ?thesis using mono by blast
qed

definition stale_reply :: "nat \<Rightarrow> go_value" where
  "stale_reply a = VStruct [(''Term'', VScalar ''int'' (SInt 5)), (''VoteGranted'', VScalar ''bool'' (SBool False))]"

lemma stale_reply_visible: "visible stale_reply 1 (VPtr (Some 0)) (SInt 5)"
proof -
  have "visible stale_reply (2 + 1) (VScalar ''int'' (SInt 5)) (SInt 5)" by (rule visible_scalar) simp
  then have "visible stale_reply 2 (stale_reply 0) (SInt 5)"
    unfolding stale_reply_def [of 0] by (rule visible_field [rotated -1]) simp_all
  then have "visible stale_reply (1 + 1) (stale_reply 0) (SInt 5)" by (simp only: one_add_one)
  then show ?thesis by (rule visible_target [rotated]) simp
qed

lemma Decode_checks_target_witness:
  "\<exists>g1 g2 dec' mem' err. checkValue message_types (Some (22, VPtr (Some 0))) labgob_init = Some (Inr g1) \<and>
     Decode (\<lambda>s e m. (s, m, 0 :: nat)) message_types \<lparr>dec_gob = ()\<rparr> (Some (22, VPtr (Some 0))) stale_reply labgob_init
       = Some (Inr (g2, dec', mem', err)) \<and> errorCount g1 < errorCount g2"
proof -
  have bad: "\<exists>s. visible stale_reply 1 (VPtr (Some 0)) s \<and> \<not> is_zero s"
    by (rule exI [of _ "SInt 5"]) (simp add: stale_reply_visible [simplified])
  have "0 \<le> errorCount labgob_init" "22 < length message_types" by (simp_all add: labgob_init_def message_types_def)
  from Decode_checks_target [OF this(1) message_types_ok this(2), of "\<lambda>s e m. (s, m, 0 :: nat)" "\<lparr>dec_gob = ()\<rparr>" stale_reply "VPtr (Some 0)"] bad
  show ?thesis by blast
qed

end
