(* ===== verification/Shard_Master.thy ===== *)
theory Shard_Master
  imports Raft_Core
begin

text \<open>
  The shard master, \<^verbatim>\<open>shardmaster/common.go\<close>, \<^verbatim>\<open>client.go\<close> and \<^verbatim>\<open>server.go\<close>: configurations, the
  messages, the clerk's endless retry loop, and the server, whose handlers are still empty: they
  leave the reply as it was. The network is an argument: \<open>call args t s\<close> is the outcome of the
  \<open>t\<close>-th attempt when it goes to server \<open>s\<close>, \<open>None\<close> when \<^verbatim>\<open>Call\<close> returns false. A loop that never
  ends has the value \<open>None\<close>.
\<close>

section \<open>Configurations and messages\<close>

definition NShards :: nat where
  "NShards = 10"

record Config =
  Num :: int
  Shards :: "int list"
  Groups :: "int \<rightharpoonup> string list"

definition zero_Config :: Config where
  "zero_Config = \<lparr>Num = 0, Shards = replicate NShards 0, Groups = Map.empty\<rparr>"

record JoinArgs =
  ja_Servers :: "int \<rightharpoonup> string list"

record JoinReply =
  j_WrongLeader :: bool
  j_Err :: string

record LeaveArgs =
  la_GIDs :: "int list"

record LeaveReply =
  l_WrongLeader :: bool
  l_Err :: string

record MoveArgs =
  ma_Shard :: int
  ma_GID :: int

record MoveReply =
  m_WrongLeader :: bool
  m_Err :: string

record QueryArgs =
  qa_Num :: int

record QueryReply =
  q_WrongLeader :: bool
  q_Err :: string
  q_Config :: Config

section \<open>The server\<close>

record ('c, 'd) ShardMaster =
  sm_me :: int
  sm_rf :: "('c, 'd) Raft"
  configs :: "Config list"

definition sm_Join :: "('c, 'd) ShardMaster \<Rightarrow> JoinArgs \<Rightarrow> JoinReply \<Rightarrow> ('c, 'd) ShardMaster \<times> JoinReply" where
  "sm_Join sm args reply = (sm, reply)"

definition sm_Leave :: "('c, 'd) ShardMaster \<Rightarrow> LeaveArgs \<Rightarrow> LeaveReply \<Rightarrow> ('c, 'd) ShardMaster \<times> LeaveReply" where
  "sm_Leave sm args reply = (sm, reply)"

definition sm_Move :: "('c, 'd) ShardMaster \<Rightarrow> MoveArgs \<Rightarrow> MoveReply \<Rightarrow> ('c, 'd) ShardMaster \<times> MoveReply" where
  "sm_Move sm args reply = (sm, reply)"

definition sm_Query :: "('c, 'd) ShardMaster \<Rightarrow> QueryArgs \<Rightarrow> QueryReply \<Rightarrow> ('c, 'd) ShardMaster \<times> QueryReply" where
  "sm_Query sm args reply = (sm, reply)"

definition sm_Kill :: "('c, 'd) ShardMaster \<Rightarrow> ('c, 'd) ShardMaster" where
  "sm_Kill sm = sm\<lparr>sm_rf := raft_Kill (sm_rf sm)\<rparr>"

definition sm_Raft :: "('c, 'd) ShardMaster \<Rightarrow> ('c, 'd) Raft" where
  "sm_Raft sm = sm_rf sm"

definition sm_StartServer ::
  "int \<Rightarrow> int \<Rightarrow> nat \<Rightarrow> int \<Rightarrow> ('c gobval, 'd) Persister \<Rightarrow> ('c, 'd) ShardMaster" where
  "sm_StartServer now rnd servers i persister =
     \<lparr>sm_me = i, sm_rf = Make now rnd servers i persister, configs = [zero_Config]\<rparr>"

section \<open>The clerk\<close>

text \<open>One pass over the servers; the second component counts the attempts.\<close>

fun try_servers :: "('r \<Rightarrow> bool) \<Rightarrow> (nat \<Rightarrow> nat \<Rightarrow> 'r option) \<Rightarrow> nat \<Rightarrow> nat list \<Rightarrow> 'r option \<times> nat" where
  "try_servers wrongLeader call t [] = (None, t)"
| "try_servers wrongLeader call t (srv # servers) =
     (case call t srv of
        Some reply \<Rightarrow>
          if \<not> wrongLeader reply then (Some reply, Suc t) else try_servers wrongLeader call (Suc t) servers
      | None \<Rightarrow> try_servers wrongLeader call (Suc t) servers)"

partial_function (option) clerk_loop ::
  "('r \<Rightarrow> bool) \<Rightarrow> (nat \<Rightarrow> nat \<Rightarrow> 'r option) \<Rightarrow> nat list \<Rightarrow> nat \<Rightarrow> ('r \<times> nat) option" where
  "clerk_loop wrongLeader call servers t =
     (case try_servers wrongLeader call t servers of
        (Some reply, t') \<Rightarrow> Some (reply, t')
      | (None, t') \<Rightarrow> clerk_loop wrongLeader call servers t')"

record sm_Clerk =
  smck_servers :: "nat list"

definition sm_MakeClerk :: "nat list \<Rightarrow> sm_Clerk" where
  "sm_MakeClerk servers = \<lparr>smck_servers = servers\<rparr>"

definition clerk_Query ::
  "(QueryArgs \<Rightarrow> nat \<Rightarrow> nat \<Rightarrow> QueryReply option) \<Rightarrow> sm_Clerk \<Rightarrow> int \<Rightarrow> nat \<Rightarrow> (Config \<times> nat) option" where
  "clerk_Query call ck num t =
     map_option (\<lambda>(reply, t'). (q_Config reply, t')) (clerk_loop q_WrongLeader (call \<lparr>qa_Num = num\<rparr>) (smck_servers ck) t)"

definition clerk_Join ::
  "(JoinArgs \<Rightarrow> nat \<Rightarrow> nat \<Rightarrow> JoinReply option) \<Rightarrow> sm_Clerk \<Rightarrow> (int \<rightharpoonup> string list) \<Rightarrow> nat \<Rightarrow> nat option" where
  "clerk_Join call ck servers t =
     map_option snd (clerk_loop j_WrongLeader (call \<lparr>ja_Servers = servers\<rparr>) (smck_servers ck) t)"

definition clerk_Leave ::
  "(LeaveArgs \<Rightarrow> nat \<Rightarrow> nat \<Rightarrow> LeaveReply option) \<Rightarrow> sm_Clerk \<Rightarrow> int list \<Rightarrow> nat \<Rightarrow> nat option" where
  "clerk_Leave call ck gids t =
     map_option snd (clerk_loop l_WrongLeader (call \<lparr>la_GIDs = gids\<rparr>) (smck_servers ck) t)"

definition clerk_Move ::
  "(MoveArgs \<Rightarrow> nat \<Rightarrow> nat \<Rightarrow> MoveReply option) \<Rightarrow> sm_Clerk \<Rightarrow> int \<Rightarrow> int \<Rightarrow> nat \<Rightarrow> nat option" where
  "clerk_Move call ck shard gid t =
     map_option snd (clerk_loop m_WrongLeader (call \<lparr>ma_Shard = shard, ma_GID = gid\<rparr>) (smck_servers ck) t)"

section \<open>What the loop returns\<close>

text \<open>The \<open>k\<close>-th attempt goes to server \<open>k mod n\<close>; it is accepted if it is answered by a leader.\<close>

definition accepted :: "('r \<Rightarrow> bool) \<Rightarrow> (nat \<Rightarrow> nat \<Rightarrow> 'r option) \<Rightarrow> nat list \<Rightarrow> nat \<Rightarrow> nat \<Rightarrow> 'r \<Rightarrow> bool" where
  "accepted wrongLeader call servers t k r \<longleftrightarrow>
     call (t + k) (servers ! (k mod length servers)) = Some r \<and> \<not> wrongLeader r"

lemma try_servers_cases:
  "(\<exists>k r. k < length servers \<and> call (t + k) (servers ! k) = Some r \<and> \<not> wrongLeader r \<and>
      (\<forall>j < k. \<forall>r'. call (t + j) (servers ! j) = Some r' \<longrightarrow> wrongLeader r') \<and>
      try_servers wrongLeader call t servers = (Some r, t + Suc k)) \<or>
   ((\<forall>j < length servers. \<forall>r'. call (t + j) (servers ! j) = Some r' \<longrightarrow> wrongLeader r') \<and>
      try_servers wrongLeader call t servers = (None, t + length servers))"
proof (induction servers arbitrary: t)
  case (Cons srv servers)
  show ?case
  proof (cases "\<exists>r. call t srv = Some r \<and> \<not> wrongLeader r")
    case True
    then show ?thesis by (intro disjI1) (auto intro!: exI [of _ 0])
  next
    case False
    then have step: "try_servers wrongLeader call t (srv # servers) = try_servers wrongLeader call (Suc t) servers"
      by (auto split: option.split)
    have head: "\<forall>r'. call t srv = Some r' \<longrightarrow> wrongLeader r'" using False by blast
    from Cons.IH [of "Suc t"] show ?thesis
    proof (elim disjE exE conjE)
      fix k r assume "k < length servers" "call (Suc t + k) (servers ! k) = Some r" "\<not> wrongLeader r"
        "\<forall>j < k. \<forall>r'. call (Suc t + j) (servers ! j) = Some r' \<longrightarrow> wrongLeader r'"
        "try_servers wrongLeader call (Suc t) servers = (Some r, Suc t + Suc k)"
      then show ?thesis using step head
        by (intro disjI1 exI [of _ "Suc k"] exI [of _ r]) (auto simp: less_Suc_eq_0_disj simp del: try_servers.simps)
    next
      assume "\<forall>j < length servers. \<forall>r'. call (Suc t + j) (servers ! j) = Some r' \<longrightarrow> wrongLeader r'"
        "try_servers wrongLeader call (Suc t) servers = (None, Suc t + length servers)"
      then show ?thesis using step head
        by (intro disjI2) (auto simp: less_Suc_eq_0_disj simp del: try_servers.simps)
    qed
  qed
qed simp

lemma accepted_shift:
  "accepted wrongLeader call servers (t + length servers) j r \<longleftrightarrow> accepted wrongLeader call servers t (j + length servers) r"
  by (simp add: accepted_def add.commute add.left_commute)

lemma clerk_loop_first:
  assumes "servers \<noteq> []" "accepted wrongLeader call servers t k r"
    and "\<forall>j < k. \<forall>r'. \<not> accepted wrongLeader call servers t j r'"
  shows "clerk_loop wrongLeader call servers t = Some (r, t + Suc k)"
  using assms(2,3)
proof (induction k arbitrary: t rule: less_induct)
  case (less k)
  let ?n = "length servers"
  show ?case
  proof (cases "k < ?n")
    case True
    from try_servers_cases [of servers call t wrongLeader] show ?thesis
    proof (elim disjE exE conjE)
      fix k' r' assume k': "k' < ?n" "call (t + k') (servers ! k') = Some r'" "\<not> wrongLeader r'"
        "\<forall>j < k'. \<forall>r''. call (t + j) (servers ! j) = Some r'' \<longrightarrow> wrongLeader r''"
        "try_servers wrongLeader call t servers = (Some r', t + Suc k')"
      have "k = k'"
      proof (rule linorder_cases [of k k'])
        assume "k < k'"
        then show ?thesis using k'(4) less.prems(1) True by (auto simp: accepted_def)
      next
        assume "k' < k"
        then show ?thesis using k'(1,2,3) less.prems(2) by (auto simp: accepted_def)
      qed simp
      with k' less.prems(1) True have "r' = r" by (simp add: accepted_def)
      with k'(5) \<open>k = k'\<close> show ?thesis by (simp add: clerk_loop.simps [of wrongLeader call servers t])
    next
      assume "\<forall>j < ?n. \<forall>r'. call (t + j) (servers ! j) = Some r' \<longrightarrow> wrongLeader r'"
      then show ?thesis using less.prems(1) True by (auto simp: accepted_def)
    qed
  next
    case False
    have none: "\<not> (call (t + j) (servers ! j) = Some r' \<and> \<not> wrongLeader r')" if "j < ?n" for j r'
    proof -
      have "j < k" using that False by simp
      with less.prems(2) have "\<not> accepted wrongLeader call servers t j r'" by blast
      with that show ?thesis by (simp add: accepted_def)
    qed
    from try_servers_cases [of servers call t wrongLeader] none
    have t: "try_servers wrongLeader call t servers = (None, t + ?n)" by (elim disjE exE conjE) auto
    have pos: "0 < ?n" using assms(1) by simp
    have "k - ?n < k" using pos False by linarith
    then have "clerk_loop wrongLeader call servers (t + ?n) = Some (r, t + ?n + Suc (k - ?n))"
      by (rule less.IH) (use False less.prems in \<open>auto simp: accepted_shift\<close>)
    with t False show ?thesis by (simp add: clerk_loop.simps [of wrongLeader call servers t])
  qed
qed


lemma clerk_loop_accepted:
  "clerk_loop wrongLeader call servers t = Some p \<Longrightarrow> \<exists>k r. accepted wrongLeader call servers t k r"
proof (erule clerk_loop.raw_induct [rotated, where P = "\<lambda>w c s t p. \<exists>k r. accepted w c s t k r"])
  fix loop :: "('a \<Rightarrow> bool) \<Rightarrow> (nat \<Rightarrow> nat \<Rightarrow> 'a option) \<Rightarrow> nat list \<Rightarrow> nat \<Rightarrow> ('a \<times> nat) option" and w c s t p
  assume IH: "\<And>w c s t p. loop w c s t = Some p \<Longrightarrow> \<exists>k r. accepted w c s t k r"
    and eq: "(case try_servers w c t s of (Some reply, t') \<Rightarrow> Some (reply, t') | (None, t') \<Rightarrow> loop w c s t') = Some p"
  from try_servers_cases [of s c t w] show "\<exists>k r. accepted w c s t k r"
  proof (elim disjE exE conjE)
    fix k r assume "k < length s" "c (t + k) (s ! k) = Some r" "\<not> w r"
    then show ?thesis by (intro exI [of _ k] exI [of _ r]) (simp add: accepted_def)
  next
    assume "try_servers w c t s = (None, t + length s)"
    with eq have "loop w c s (t + length s) = Some p" by simp
    from IH [OF this] show ?thesis unfolding accepted_shift by blast
  qed
qed

text \<open>A loop that returns has found an accepted reply in some pass, so it has a server.\<close>

lemma clerk_loop_accepted_pass:
  "clerk_loop wrongLeader call servers t = Some p \<Longrightarrow> \<exists>t'. fst (try_servers wrongLeader call t' servers) \<noteq> None"
proof (erule clerk_loop.raw_induct [rotated, where P = "\<lambda>w c s t p. \<exists>t'. fst (try_servers w c t' s) \<noteq> None"])
  fix loop :: "('a \<Rightarrow> bool) \<Rightarrow> (nat \<Rightarrow> nat \<Rightarrow> 'a option) \<Rightarrow> nat list \<Rightarrow> nat \<Rightarrow> ('a \<times> nat) option" and w c s t p
  assume IH: "\<And>w c s t p. loop w c s t = Some p \<Longrightarrow> \<exists>t'. fst (try_servers w c t' s) \<noteq> None"
    and eq: "(case try_servers w c t s of (Some reply, t') \<Rightarrow> Some (reply, t') | (None, t') \<Rightarrow> loop w c s t') = Some p"
  obtain m t' where m: "try_servers w c t s = (m, t')" by (cases "try_servers w c t s")
  show "\<exists>t'. fst (try_servers w c t' s) \<noteq> None"
  proof (cases m)
    case None
    with eq m have "loop w c s t' = Some p" by simp
    then show ?thesis by (rule IH)
  next
    case (Some r)
    with m show ?thesis by (intro exI [of _ t]) simp
  qed
qed

text \<open>Without servers the loop spins for ever.\<close>

lemma clerk_loop_no_servers: "clerk_loop wrongLeader call [] t \<noteq> Some p"
proof
  assume "clerk_loop wrongLeader call [] t = Some p"
  from clerk_loop_accepted_pass [OF this] show False by simp
qed

lemma clerk_loop_characterised:
  assumes "servers \<noteq> []"
  shows "clerk_loop wrongLeader call servers t = Some (r, t') \<longleftrightarrow>
    (\<exists>k. t' = t + Suc k \<and> accepted wrongLeader call servers t k r \<and> (\<forall>j < k. \<forall>r'. \<not> accepted wrongLeader call servers t j r'))"
proof
  assume run: "clerk_loop wrongLeader call servers t = Some (r, t')"
  let ?P = "\<lambda>k. \<exists>r. accepted wrongLeader call servers t k r"
  have ex: "\<exists>k. ?P k" using clerk_loop_accepted [OF run] by blast
  define k where "k = (LEAST k. ?P k)"
  obtain r0 where r0: "accepted wrongLeader call servers t k r0" using LeastI_ex [OF ex] unfolding k_def by blast
  have first: "\<forall>j < k. \<forall>r'. \<not> accepted wrongLeader call servers t j r'" using not_less_Least [of _ ?P] unfolding k_def by blast
  from clerk_loop_first [OF assms r0 first] run have "r = r0" "t' = t + Suc k" by simp_all
  with r0 first show "\<exists>k. t' = t + Suc k \<and> accepted wrongLeader call servers t k r \<and> (\<forall>j < k. \<forall>r'. \<not> accepted wrongLeader call servers t j r')"
    by blast
next
  assume "\<exists>k. t' = t + Suc k \<and> accepted wrongLeader call servers t k r \<and> (\<forall>j < k. \<forall>r'. \<not> accepted wrongLeader call servers t j r')"
  then obtain k where "t' = t + Suc k" "accepted wrongLeader call servers t k r" "\<forall>j < k. \<forall>r'. \<not> accepted wrongLeader call servers t j r'"
    by (elim exE conjE)
  with clerk_loop_first [OF assms this(2,3)] show "clerk_loop wrongLeader call servers t = Some (r, t')" by simp
qed

section \<open>Properties\<close>

text \<open>
  The clerk of the shard master returns the first answer. With at least one server, \<^verbatim>\<open>Query\<close> asks the
  servers in turn and returns exactly the configuration of the first attempt that is answered by a
  leader; if no attempt ever is, it does not return.
\<close>

lemma clerk_Query_first_answer:
  assumes "smck_servers ck \<noteq> []"
  shows "(clerk_Query call ck num t = Some (cfg, t') \<longleftrightarrow>
      (\<exists>k r. t' = t + Suc k \<and> cfg = q_Config r \<and> accepted q_WrongLeader (call \<lparr>qa_Num = num\<rparr>) (smck_servers ck) t k r \<and>
        (\<forall>j < k. \<forall>r'. \<not> accepted q_WrongLeader (call \<lparr>qa_Num = num\<rparr>) (smck_servers ck) t j r'))) \<and>
    (clerk_Query call ck num t = None \<longleftrightarrow>
      (\<forall>k r. \<not> accepted q_WrongLeader (call \<lparr>qa_Num = num\<rparr>) (smck_servers ck) t k r))"
proof -
  let ?acc = "accepted q_WrongLeader (call \<lparr>qa_Num = num\<rparr>) (smck_servers ck) t"
  let ?loop = "clerk_loop q_WrongLeader (call \<lparr>qa_Num = num\<rparr>) (smck_servers ck) t"
  have "clerk_Query call ck num t = Some (cfg, t') \<longleftrightarrow> (\<exists>r. cfg = q_Config r \<and> ?loop = Some (r, t'))"
    by (auto simp: clerk_Query_def)
  moreover have "?loop = None \<longleftrightarrow> (\<forall>k r. \<not> ?acc k r)"
  proof
    assume "?loop = None"
    show "\<forall>k r. \<not> ?acc k r"
    proof (rule ccontr)
      assume "\<not> (\<forall>k r. \<not> ?acc k r)"
      then have ex: "\<exists>k r. ?acc k r" by blast
      define k where "k = (LEAST k. \<exists>r. ?acc k r)"
      obtain r where "?acc k r" using LeastI_ex [OF ex] unfolding k_def by blast
      moreover have "\<forall>j < k. \<forall>r'. \<not> ?acc j r'" using not_less_Least [of _ "\<lambda>k. \<exists>r. ?acc k r"] unfolding k_def by blast
      ultimately show False using clerk_loop_first [OF assms] \<open>?loop = None\<close> by (metis option.distinct(1))
    qed
  next
    assume "\<forall>k r. \<not> ?acc k r"
    then show "?loop = None" using clerk_loop_accepted by (metis option.exhaust)
  qed
  ultimately show ?thesis unfolding clerk_loop_characterised [OF assms] by (auto simp: clerk_Query_def)
qed

lemma clerk_Query_first_answer_witness:
  "clerk_Query (\<lambda>args t s. if s = 1 \<and> t > 2 then Some \<lparr>q_WrongLeader = False, q_Err = ''OK'', q_Config = zero_Config\<rparr> else None)
     (sm_MakeClerk [0, 1]) (-1) 0 = Some (zero_Config, 4)"
proof -
  let ?call = "\<lambda>args t s. if s = (1 :: nat) \<and> t > (2 :: nat) then Some \<lparr>q_WrongLeader = False, q_Err = ''OK'', q_Config = zero_Config\<rparr> else None"
  let ?acc = "accepted q_WrongLeader (?call \<lparr>qa_Num = -1\<rparr>) [0, 1] 0"
  let ?rep = "\<lparr>q_WrongLeader = False, q_Err = ''OK'', q_Config = zero_Config\<rparr>"
  have "?acc 3 ?rep" by (simp add: accepted_def numeral_2_eq_2 [symmetric])
  moreover have "\<forall>j < 3. \<forall>r'. \<not> ?acc j r'" by (auto simp: accepted_def)
  ultimately have "\<exists>k r. (4 :: nat) = 0 + Suc k \<and> zero_Config = q_Config r \<and> ?acc k r \<and> (\<forall>j < k. \<forall>r'. \<not> ?acc j r')"
    by (intro exI [of _ 3] exI [of _ ?rep]) simp
  moreover have "smck_servers (sm_MakeClerk [0, 1]) = [0, 1]" by (simp add: sm_MakeClerk_def)
  ultimately show ?thesis
    using clerk_Query_first_answer [of "sm_MakeClerk [0, 1]" ?call "-1" 0 zero_Config 4] by simp
qed

end
