(* ===== verification/Rpc_Network.thy ===== *)
theory Rpc_Network
  imports Prelude "HOL-Library.Word"
begin

text \<open>
  The simulated network of \<^verbatim>\<open>labrpc/labrpc.go\<close>: client ends, servers with their services, and the
  goroutines of \<^verbatim>\<open>Call\<close> and \<^verbatim>\<open>processReq\<close> as a transition system over all calls in progress, with
  the choices that the code makes by random numbers and timers left open. Names are values of a
  type variable, \<open>None\<close> being \<^verbatim>\<open>nil\<close>; servers are referred to by their address, because the code
  compares pointers. The encoding of \<^verbatim>\<open>labgob\<close> and the methods that reflection finds are arguments. A handler
  waits as long as the state of its receiver makes it wait, possibly for ever; when it returns, its effect on
  the receiver is one step, and between steps the receiver's own goroutines may change it in any way. The
  theorems say what the result of a call tells about the server, and when calls return.
\<close>

section \<open>Messages, ends, services and servers\<close>

type_synonym bytes = "8 word list"

record ('n, 't) reqMsg =
  rq_endname :: 'n
  svcMeth :: string
  argsType :: 't
  rq_args :: bytes

record replyMsg =
  rp_ok :: bool
  rp_reply :: bytes

record 'n ClientEnd =
  ce_endname :: 'n

text \<open>
  What the code uses of \<^verbatim>\<open>labgob\<close> and of reflection: encoding a value, decoding bytes, and the zero
  value of a type, which is what a failed decoding of the arguments leaves behind.
\<close>

record ('t, 'v) codec =
  encode :: "'v \<Rightarrow> bytes"
  decode :: "bytes \<Rightarrow> 'v option"
  zero_value :: "'t \<Rightarrow> 'v"

text \<open>
  A method as reflection describes it, with what calling it does to the receiver: \<open>None\<close> in a state of the
  receiver in which the method does not return.
\<close>

record ('o, 'v) Method =
  m_Name :: string
  m_PkgPath :: string
  m_NumIn :: nat
  m_In2_Ptr :: bool
  m_NumOut :: nat
  m_Func :: "'o \<Rightarrow> 'v \<Rightarrow> ('v \<times> 'o) option"

record ('o, 'v) Service =
  svc_name :: string
  svc_rcvr :: 'o
  svc_methods :: "string \<rightharpoonup> ('o, 'v) Method"

definition suitable :: "('o, 'v) Method \<Rightarrow> bool" where
  "suitable method \<longleftrightarrow>
     \<not> (m_PkgPath method \<noteq> [] \<or> m_NumIn method \<noteq> 3 \<or> \<not> m_In2_Ptr method \<or> m_NumOut method \<noteq> 0)"

fun collect_methods :: "('o, 'v) Method list \<Rightarrow> (string \<rightharpoonup> ('o, 'v) Method) \<Rightarrow> string \<rightharpoonup> ('o, 'v) Method" where
  "collect_methods [] ms = ms"
| "collect_methods (method # rest) ms =
     collect_methods rest (if suitable method then ms(m_Name method \<mapsto> method) else ms)"

definition MakeService :: "string \<Rightarrow> ('o, 'v) Method list \<Rightarrow> 'o \<Rightarrow> ('o, 'v) Service" where
  "MakeService type_name typ rcvr =
     \<lparr>svc_name = type_name, svc_rcvr = rcvr, svc_methods = collect_methods typ Map.empty\<rparr>"

definition service_dispatch ::
  "('t, 'v) codec \<Rightarrow> ('o, 'v) Service \<Rightarrow> string \<Rightarrow> ('n, 't) reqMsg \<Rightarrow> (replyMsg \<times> ('o, 'v) Service) option go" where
  "service_dispatch cd svc methname req =
     (case svc_methods svc methname of
        Some method \<Rightarrow>
          (let args = (case decode cd (rq_args req) of Some v \<Rightarrow> v | None \<Rightarrow> zero_value cd (argsType req))
           in Inr (case m_Func method (svc_rcvr svc) args of
                     None \<Rightarrow> None
                   | Some (replyv, rcvr) \<Rightarrow>
                       Some (\<lparr>rp_ok = True, rp_reply = encode cd replyv\<rparr>, svc\<lparr>svc_rcvr := rcvr\<rparr>)))
      | None \<Rightarrow> Inl LogFatal)"

record ('o, 'v) Server =
  rs_services :: "string \<rightharpoonup> ('o, 'v) Service"
  rs_count :: int

definition MakeServer :: "('o, 'v) Server" where
  "MakeServer = \<lparr>rs_services = Map.empty, rs_count = 0\<rparr>"

definition AddService :: "('o, 'v) Server \<Rightarrow> ('o, 'v) Service \<Rightarrow> ('o, 'v) Server" where
  "AddService rs svc = rs\<lparr>rs_services := (rs_services rs)(svc_name svc \<mapsto> svc)\<rparr>"

definition server_GetCount :: "('o, 'v) Server \<Rightarrow> int" where
  "server_GetCount rs = rs_count rs"

text \<open>\<^verbatim>\<open>strings.LastIndex\<close> for a one-character separator.\<close>

fun LastIndex :: "string \<Rightarrow> char \<Rightarrow> int" where
  "LastIndex [] c = -1"
| "LastIndex (x # xs) c = (let i = LastIndex xs c in if i \<ge> 0 then i + 1 else if x = c then 0 else -1)"

text \<open>\<^verbatim>\<open>Server.dispatch\<close> up to the call of the service: the request is counted and the service looked up.\<close>

definition server_dispatch ::
  "('o, 'v) Server \<Rightarrow> ('n, 't) reqMsg \<Rightarrow> (('o, 'v) Server \<times> string \<times> string) go" where
  "server_dispatch rs req =
     (let rs1 = rs\<lparr>rs_count := rs_count rs + 1\<rparr>; dot = LastIndex (svcMeth req) CHR ''.'' in
      bindG (go_slice (svcMeth req) 0 dot) (\<lambda>serviceName.
      bindG (go_slice (svcMeth req) (dot + 1) (int (length (svcMeth req)))) (\<lambda>methodName.
        case rs_services rs1 serviceName of
          Some service \<Rightarrow> Inr (rs1, serviceName, methodName)
        | None \<Rightarrow> Inl LogFatal)))"

section \<open>The network\<close>

record 'n Network =
  reliable :: bool
  longDelays :: bool
  longReordering :: bool
  ends :: "'n \<rightharpoonup> 'n ClientEnd"
  enabled :: "'n \<Rightarrow> bool"
  servers :: "'n \<Rightarrow> nat option"
  connections :: "'n \<Rightarrow> 'n option"
  net_done :: bool
  net_count :: "32 word"
  net_bytes :: "64 word"

definition MakeNetwork :: "'n Network" where
  "MakeNetwork = \<lparr>reliable = True, longDelays = False, longReordering = False, ends = Map.empty,
     enabled = (\<lambda>_. False), servers = (\<lambda>_. None), connections = (\<lambda>_. None), net_done = False,
     net_count = 0, net_bytes = 0\<rparr>"

text \<open>Closing a closed channel panics.\<close>

definition Cleanup :: "'n Network \<Rightarrow> 'n Network go" where
  "Cleanup rn = (if net_done rn then Inl ClosedChannel else Inr (rn\<lparr>net_done := True\<rparr>))"

definition Reliable :: "bool \<Rightarrow> 'n Network \<Rightarrow> 'n Network" where
  "Reliable yes rn = rn\<lparr>reliable := yes\<rparr>"

definition LongReordering :: "bool \<Rightarrow> 'n Network \<Rightarrow> 'n Network" where
  "LongReordering yes rn = rn\<lparr>longReordering := yes\<rparr>"

definition LongDelays :: "bool \<Rightarrow> 'n Network \<Rightarrow> 'n Network" where
  "LongDelays yes rn = rn\<lparr>longDelays := yes\<rparr>"

definition readEndnameInfo :: "'n Network \<Rightarrow> 'n \<Rightarrow> bool \<times> 'n option \<times> nat option \<times> bool \<times> bool" where
  "readEndnameInfo rn endname =
     (let servername = connections rn endname;
          server = (case servername of None \<Rightarrow> None | Some s \<Rightarrow> servers rn s)
      in (enabled rn endname, servername, server, reliable rn, longReordering rn))"

definition isServerDead :: "'n Network \<Rightarrow> 'n \<Rightarrow> 'n \<Rightarrow> nat \<Rightarrow> bool" where
  "isServerDead rn endname servername server \<longleftrightarrow> \<not> enabled rn endname \<or> servers rn servername \<noteq> Some server"

definition MakeEnd :: "'n \<Rightarrow> 'n Network \<Rightarrow> 'n Network go" where
  "MakeEnd endname rn =
     (if ends rn endname \<noteq> None then Inl LogFatal
      else Inr (rn\<lparr>ends := (ends rn)(endname \<mapsto> \<lparr>ce_endname = endname\<rparr>),
                   enabled := (enabled rn)(endname := False), connections := (connections rn)(endname := None)\<rparr>))"

definition AddServer :: "'n \<Rightarrow> nat \<Rightarrow> 'n Network \<Rightarrow> 'n Network" where
  "AddServer servername rs rn = rn\<lparr>servers := (servers rn)(servername := Some rs)\<rparr>"

definition DeleteServer :: "'n \<Rightarrow> 'n Network \<Rightarrow> 'n Network" where
  "DeleteServer servername rn = rn\<lparr>servers := (servers rn)(servername := None)\<rparr>"

definition Connect :: "'n \<Rightarrow> 'n \<Rightarrow> 'n Network \<Rightarrow> 'n Network" where
  "Connect endname servername rn = rn\<lparr>connections := (connections rn)(endname := Some servername)\<rparr>"

definition Enable :: "'n \<Rightarrow> bool \<Rightarrow> 'n Network \<Rightarrow> 'n Network" where
  "Enable endname yes rn = rn\<lparr>enabled := (enabled rn)(endname := yes)\<rparr>"

definition GetCount :: "('o, 'v) Server list \<Rightarrow> 'n \<Rightarrow> 'n Network \<Rightarrow> int go" where
  "GetCount heap servername rn =
     (case servers rn servername of
        None \<Rightarrow> Inl NilDereference
      | Some a \<Rightarrow> mapG server_GetCount (go_index heap (int a)))"

definition GetTotalCount :: "'n Network \<Rightarrow> int" where
  "GetTotalCount rn = sint (net_count rn)"

definition GetTotalBytes :: "'n Network \<Rightarrow> int" where
  "GetTotalBytes rn = sint (net_bytes rn)"

text \<open>The goroutine of \<^verbatim>\<open>MakeNetwork\<close> takes one request from the channel.\<close>

definition accept_req :: "('n, 't) reqMsg \<Rightarrow> 'n Network \<Rightarrow> 'n Network" where
  "accept_req xreq rn = rn\<lparr>net_count := net_count rn + 1, net_bytes := net_bytes rn + of_nat (length (rq_args xreq))\<rparr>"

section \<open>Calls\<close>

text \<open>
  The stages of a call: the request is built (\<open>Ready\<close>), taken by the network (\<open>Accepted\<close>), its
  handler is at work (\<open>Waiting\<close>, with what \<^verbatim>\<open>readEndnameInfo\<close> returned), the wait is over (\<open>Checking\<close>, with
  the reply if there is one), the reply is held back by a timer (\<open>Delayed\<close>), a reply is on the
  channel (\<open>Sending\<close>), the call has returned. The handler runs in a goroutine of its own, which may
  outlive the call: it is to be dispatched, or has been given to a method, or has returned.
\<close>

datatype ('n, 'v) phase =
    Ready
  | Accepted
  | Waiting 'n nat bool bool
  | Checking 'n nat bool bool "replyMsg option"
  | Delayed replyMsg
  | Sending replyMsg
  | Returned bool "'v option"

datatype handler = Idle | Pending nat | Entered nat string string | Finished replyMsg

record ('n, 't, 'v, 'o) call =
  c_req :: "('n, 't) reqMsg"
  c_phase :: "('n, 'v) phase"
  c_handler :: handler
  c_runs :: "('o, 'v) Server list"

definition failed_reply :: replyMsg where
  "failed_reply = \<lparr>rp_ok = False, rp_reply = []\<rparr>"

definition Call_request :: "('t, 'v) codec \<Rightarrow> 'n ClientEnd \<Rightarrow> string \<Rightarrow> 't \<Rightarrow> 'v \<Rightarrow> ('n, 't) reqMsg" where
  "Call_request cd e svc_meth typ args =
     \<lparr>rq_endname = ce_endname e, svcMeth = svc_meth, argsType = typ, rq_args = encode cd args\<rparr>"

definition Call_result :: "('t, 'v) codec \<Rightarrow> replyMsg \<Rightarrow> (bool \<times> 'v option) go" where
  "Call_result cd rep =
     (if rp_ok rep then
        (case decode cd (rp_reply rep) of None \<Rightarrow> Inl LogFatal | Some v \<Rightarrow> Inr (True, Some v))
      else Inr (False, None))"

text \<open>\<^verbatim>\<open>processReq\<close> up to the start of the handler; \<open>r\<close> is the random number it draws.\<close>

definition processReq_route :: "'n Network \<Rightarrow> ('n, 't) reqMsg \<Rightarrow> nat \<Rightarrow> ('n, 'v) phase \<times> handler" where
  "processReq_route rn req r =
     (case readEndnameInfo rn (rq_endname req) of
        (True, Some servername, Some server, rel, reorder) \<Rightarrow>
          if \<not> rel \<and> r mod 1000 < 100 then (Sending failed_reply, Idle)
          else (Waiting servername server rel reorder, Pending server)
      | _ \<Rightarrow> (Sending failed_reply, Idle))"

text \<open>\<^verbatim>\<open>processReq\<close> after its loop; \<open>r1\<close> and \<open>r2\<close> are the random numbers of the two choices.\<close>

definition processReq_finish ::
  "'n Network \<Rightarrow> ('n, 't) reqMsg \<Rightarrow> 'n \<Rightarrow> nat \<Rightarrow> bool \<Rightarrow> bool \<Rightarrow> replyMsg option \<Rightarrow> nat \<Rightarrow> nat \<Rightarrow> ('n, 'v) phase \<times> 'n Network" where
  "processReq_finish rn req servername server rel reorder reply r1 r2 =
     (let serverDead = isServerDead rn (rq_endname req) servername server in
      case reply of
        None \<Rightarrow> (Sending failed_reply, rn)
      | Some rep \<Rightarrow>
          if serverDead then (Sending failed_reply, rn)
          else if \<not> rel \<and> r1 mod 1000 < 100 then (Sending failed_reply, rn)
          else if reorder \<and> r2 mod 900 < 600 then (Delayed rep, rn)
          else (Sending rep, rn\<lparr>net_bytes := net_bytes rn + of_nat (length (rp_reply rep))\<rparr>))"

section \<open>The network at work\<close>

record ('n, 't, 'v, 'o) world =
  w_net :: "'n Network"
  w_loop :: bool
  w_heap :: "('o, 'v) Server list"
  w_calls :: "('n, 't, 'v, 'o) call list"
  w_fatal :: "go_error option"

definition set_call :: "nat \<Rightarrow> ('n, 't, 'v, 'o) call \<Rightarrow> ('n, 't, 'v, 'o) world \<Rightarrow> ('n, 't, 'v, 'o) world" where
  "set_call i c w = w\<lparr>w_calls := (w_calls w)[i := c]\<rparr>"

text \<open>What a tester may do to the network while calls are in progress.\<close>

inductive admin :: "nat \<Rightarrow> 'n Network \<Rightarrow> 'n Network \<Rightarrow> bool" for servers_made where
  "admin servers_made rn (Reliable yes rn)"
| "admin servers_made rn (LongReordering yes rn)"
| "admin servers_made rn (LongDelays yes rn)"
| "MakeEnd endname rn = Inr rn' \<Longrightarrow> admin servers_made rn rn'"
| "rs < servers_made \<Longrightarrow> admin servers_made rn (AddServer servername rs rn)"
| "admin servers_made rn (DeleteServer servername rn)"
| "admin servers_made rn (Connect endname servername rn)"
| "admin servers_made rn (Enable endname yes rn)"
| "Cleanup rn = Inr rn' \<Longrightarrow> admin servers_made rn rn'"

inductive rpc_step :: "('t, 'v) codec \<Rightarrow> ('n, 't, 'v, 'o) world \<Rightarrow> ('n, 't, 'v, 'o) world \<Rightarrow> bool" for cd where
  tester: "w_fatal w = None \<Longrightarrow> admin (length (w_heap w)) (w_net w) rn \<Longrightarrow> rpc_step cd w (w\<lparr>w_net := rn\<rparr>)"
| make_server: "w_fatal w = None \<Longrightarrow> rpc_step cd w (w\<lparr>w_heap := w_heap w @ [MakeServer]\<rparr>)"
| add_service: "w_fatal w = None \<Longrightarrow> a < length (w_heap w) \<Longrightarrow>
     rpc_step cd w (w\<lparr>w_heap := (w_heap w)[a := AddService (w_heap w ! a) svc]\<rparr>)"
| start: "w_fatal w = None \<Longrightarrow> ends (w_net w) endname = Some e \<Longrightarrow>
     rpc_step cd w (w\<lparr>w_calls := w_calls w @
       [\<lparr>c_req = Call_request cd e svc_meth typ args, c_phase = Ready, c_handler = Idle, c_runs = []\<rparr>]\<rparr>)"
| send: "w_fatal w = None \<Longrightarrow> w_loop w \<Longrightarrow> i < length (w_calls w) \<Longrightarrow> c = w_calls w ! i \<Longrightarrow> c_phase c = Ready \<Longrightarrow>
     rpc_step cd w (set_call i (c\<lparr>c_phase := Accepted\<rparr>) (w\<lparr>w_net := accept_req (c_req c) (w_net w)\<rparr>))"
| refuse: "w_fatal w = None \<Longrightarrow> net_done (w_net w) \<Longrightarrow> i < length (w_calls w) \<Longrightarrow> c = w_calls w ! i \<Longrightarrow> c_phase c = Ready \<Longrightarrow>
     rpc_step cd w (set_call i (c\<lparr>c_phase := Returned False None\<rparr>) w)"
| stop: "w_fatal w = None \<Longrightarrow> net_done (w_net w) \<Longrightarrow> rpc_step cd w (w\<lparr>w_loop := False\<rparr>)"
| route: "w_fatal w = None \<Longrightarrow> i < length (w_calls w) \<Longrightarrow> c = w_calls w ! i \<Longrightarrow> c_phase c = Accepted \<Longrightarrow>
     processReq_route (w_net w) (c_req c) r = (p, h) \<Longrightarrow>
     rpc_step cd w (set_call i (c\<lparr>c_phase := p, c_handler := h\<rparr>) w)"
| work: "w_fatal w = None \<Longrightarrow> a < length (w_heap w) \<Longrightarrow> rs_services (w_heap w ! a) sname = Some svc \<Longrightarrow>
     rpc_step cd w (w\<lparr>w_heap := (w_heap w)[a := (w_heap w ! a)\<lparr>rs_services := (rs_services (w_heap w ! a))(sname \<mapsto> svc\<lparr>svc_rcvr := rcvr\<rparr>)\<rparr>]\<rparr>)"
| enter: "w_fatal w = None \<Longrightarrow> i < length (w_calls w) \<Longrightarrow> c = w_calls w ! i \<Longrightarrow> c_handler c = Pending a \<Longrightarrow>
     server_dispatch (w_heap w ! a) (c_req c) = Inr (rs, sname, mname) \<Longrightarrow>
     rpc_step cd w (set_call i (c\<lparr>c_handler := Entered a sname mname\<rparr>) (w\<lparr>w_heap := (w_heap w)[a := rs]\<rparr>))"
| enter_fatal: "w_fatal w = None \<Longrightarrow> i < length (w_calls w) \<Longrightarrow> c = w_calls w ! i \<Longrightarrow> c_handler c = Pending a \<Longrightarrow>
     server_dispatch (w_heap w ! a) (c_req c) = Inl e \<Longrightarrow> rpc_step cd w (w\<lparr>w_fatal := Some e\<rparr>)"
| handle: "w_fatal w = None \<Longrightarrow> i < length (w_calls w) \<Longrightarrow> c = w_calls w ! i \<Longrightarrow> c_handler c = Entered a sname mname \<Longrightarrow>
     rs_services (w_heap w ! a) sname = Some svc \<Longrightarrow> service_dispatch cd svc mname (c_req c) = Inr (Some (rep, svc')) \<Longrightarrow>
     rpc_step cd w (set_call i (c\<lparr>c_handler := Finished rep, c_runs := c_runs c @ [w_heap w ! a]\<rparr>)
       (w\<lparr>w_heap := (w_heap w)[a := (w_heap w ! a)\<lparr>rs_services := (rs_services (w_heap w ! a))(sname \<mapsto> svc')\<rparr>]\<rparr>))"
| handle_fatal: "w_fatal w = None \<Longrightarrow> i < length (w_calls w) \<Longrightarrow> c = w_calls w ! i \<Longrightarrow> c_handler c = Entered a sname mname \<Longrightarrow>
     rs_services (w_heap w ! a) sname = Some svc \<Longrightarrow> service_dispatch cd svc mname (c_req c) = Inl e \<Longrightarrow>
     rpc_step cd w (w\<lparr>w_fatal := Some e\<rparr>)"
| take: "w_fatal w = None \<Longrightarrow> i < length (w_calls w) \<Longrightarrow> c = w_calls w ! i \<Longrightarrow>
     c_phase c = Waiting servername server rel reorder \<Longrightarrow> c_handler c = Finished rep \<Longrightarrow>
     rpc_step cd w (set_call i (c\<lparr>c_phase := Checking servername server rel reorder (Some rep)\<rparr>) w)"
| give_up: "w_fatal w = None \<Longrightarrow> i < length (w_calls w) \<Longrightarrow> c = w_calls w ! i \<Longrightarrow>
     c_phase c = Waiting servername server rel reorder \<Longrightarrow>
     isServerDead (w_net w) (rq_endname (c_req c)) servername server \<Longrightarrow>
     rpc_step cd w (set_call i (c\<lparr>c_phase := Checking servername server rel reorder None\<rparr>) w)"
| finish: "w_fatal w = None \<Longrightarrow> i < length (w_calls w) \<Longrightarrow> c = w_calls w ! i \<Longrightarrow>
     c_phase c = Checking servername server rel reorder reply \<Longrightarrow>
     processReq_finish (w_net w) (c_req c) servername server rel reorder reply r1 r2 = (p, rn) \<Longrightarrow>
     rpc_step cd w (set_call i (c\<lparr>c_phase := p\<rparr>) (w\<lparr>w_net := rn\<rparr>))"
| fire_delayed: "w_fatal w = None \<Longrightarrow> i < length (w_calls w) \<Longrightarrow> c = w_calls w ! i \<Longrightarrow> c_phase c = Delayed rep \<Longrightarrow>
     rpc_step cd w (set_call i (c\<lparr>c_phase := Sending rep\<rparr>)
       (w\<lparr>w_net := (w_net w)\<lparr>net_bytes := net_bytes (w_net w) + of_nat (length (rp_reply rep))\<rparr>\<rparr>))"
| deliver: "w_fatal w = None \<Longrightarrow> i < length (w_calls w) \<Longrightarrow> c = w_calls w ! i \<Longrightarrow> c_phase c = Sending rep \<Longrightarrow>
     Call_result cd rep = Inr (b, v) \<Longrightarrow>
     rpc_step cd w (set_call i (c\<lparr>c_phase := Returned b v\<rparr>) w)"
| deliver_fatal: "w_fatal w = None \<Longrightarrow> i < length (w_calls w) \<Longrightarrow> c = w_calls w ! i \<Longrightarrow> c_phase c = Sending rep \<Longrightarrow>
     Call_result cd rep = Inl e \<Longrightarrow> rpc_step cd w (w\<lparr>w_fatal := Some e\<rparr>)"

definition initial_world :: "('n, 't, 'v, 'o) world" where
  "initial_world = \<lparr>w_net = MakeNetwork, w_loop = True, w_heap = [], w_calls = [], w_fatal = None\<rparr>"

section \<open>Dispatching\<close>

lemma LastIndex_split:
  "LastIndex s c = -1 \<and> c \<notin> set s \<or>
   (\<exists>a b. s = a @ c # b \<and> c \<notin> set b \<and> LastIndex s c = int (length a))"
proof (induction s)
  case (Cons x xs)
  then show ?case
  proof
    assume "LastIndex xs c = -1 \<and> c \<notin> set xs"
    then show ?thesis by (cases "x = c") (auto intro!: exI [of _ "[]"] exI [of _ xs])
  next
    assume "\<exists>a b. xs = a @ c # b \<and> c \<notin> set b \<and> LastIndex xs c = int (length a)"
    then obtain a b where "xs = a @ c # b" "c \<notin> set b" "LastIndex xs c = int (length a)" by blast
    then have "x # xs = (x # a) @ c # b \<and> c \<notin> set b \<and> LastIndex (x # xs) c = int (length (x # a))" by simp
    then show ?thesis by blast
  qed
qed simp

text \<open>The parts of the name of a method.\<close>

definition names_method :: "('n, 't) reqMsg \<Rightarrow> string \<Rightarrow> string \<Rightarrow> bool" where
  "names_method req sname mname \<longleftrightarrow> svcMeth req = sname @ CHR ''.'' # mname \<and> CHR ''.'' \<notin> set mname"

lemma names_LastIndex:
  assumes "names_method req sname mname"
  shows "LastIndex (svcMeth req) CHR ''.'' = int (length sname)"
proof -
  have "LastIndex (sname @ CHR ''.'' # mname) CHR ''.'' = int (length sname)"
  proof (induction sname)
    case Nil
    have "LastIndex mname CHR ''.'' = -1" using LastIndex_split [of mname "CHR ''.''"] assms by (auto simp: names_method_def)
    then show ?case by simp
  qed (simp add: Let_def)
  then show ?thesis using assms by (simp add: names_method_def)
qed

lemma names_slices:
  assumes "names_method req sname mname"
  shows "go_slice (svcMeth req) 0 (LastIndex (svcMeth req) CHR ''.'') = Inr sname"
    and "go_slice (svcMeth req) (LastIndex (svcMeth req) CHR ''.'' + 1) (int (length (svcMeth req))) = Inr mname"
  using names_LastIndex [OF assms] assms by (simp_all add: names_method_def go_slice_def nat_add_distrib)

lemma server_dispatch_names:
  assumes "names_method req sname mname"
  shows "server_dispatch rs req =
    (if rs_services rs sname = None then Inl LogFatal else Inr (rs\<lparr>rs_count := rs_count rs + 1\<rparr>, sname, mname))"
  using names_slices [OF assms] by (auto simp: server_dispatch_def Let_def split: option.splits)

lemma server_dispatch_ok:
  assumes "server_dispatch rs req = Inr (rs', sname, mname)"
  shows "names_method req sname mname" and "rs' = rs\<lparr>rs_count := rs_count rs + 1\<rparr>" and "rs_services rs sname \<noteq> None"
proof -
  let ?s = "svcMeth req"
  have "LastIndex ?s CHR ''.'' \<noteq> -1" using assms by (auto simp: server_dispatch_def go_slice_def Let_def)
  then obtain a b where ab: "names_method req a b" using LastIndex_split [of ?s "CHR ''.''"] by (auto simp: names_method_def)
  from server_dispatch_names [OF this, of rs] assms
  show "names_method req sname mname" "rs' = rs\<lparr>rs_count := rs_count rs + 1\<rparr>" "rs_services rs sname \<noteq> None"
    using ab by (auto split: if_splits)
qed

lemma service_dispatch_ok:
  assumes "service_dispatch cd svc meth req = Inr (Some (rep, svc'))"
  obtains m0 replyv rcvr where "svc_methods svc meth = Some m0" and "rp_ok rep" and "rp_reply rep = encode cd replyv"
    and "m_Func m0 (svc_rcvr svc)
      (case decode cd (rq_args req) of Some v \<Rightarrow> v | None \<Rightarrow> zero_value cd (argsType req)) = Some (replyv, rcvr)"
  using assms by (fastforce simp: service_dispatch_def Let_def split: option.splits prod.splits)

section \<open>The invariant\<close>

definition ran :: "('t, 'v) codec \<Rightarrow> ('n, 't, 'v, 'o) call \<Rightarrow> replyMsg \<Rightarrow> bool" where
  "ran cd c rep \<longleftrightarrow> (\<exists>s0 sname mname svc svc'. c_runs c = [s0] \<and> names_method (c_req c) sname mname \<and>
     rs_services s0 sname = Some svc \<and> service_dispatch cd svc mname (c_req c) = Inr (Some (rep, svc')))"

fun handler_ok :: "('t, 'v) codec \<Rightarrow> nat \<Rightarrow> ('n, 't, 'v, 'o) call \<Rightarrow> handler \<Rightarrow> bool" where
  "handler_ok cd n c Idle \<longleftrightarrow> c_runs c = []"
| "handler_ok cd n c (Pending a) \<longleftrightarrow> c_runs c = [] \<and> a < n"
| "handler_ok cd n c (Entered a sname mname) \<longleftrightarrow> c_runs c = [] \<and> a < n \<and> names_method (c_req c) sname mname"
| "handler_ok cd n c (Finished rep) \<longleftrightarrow> ran cd c rep"

fun phase_ok :: "('t, 'v) codec \<Rightarrow> ('n, 't, 'v, 'o) call \<Rightarrow> ('n, 'v) phase \<Rightarrow> bool" where
  "phase_ok cd c Ready \<longleftrightarrow> c_handler c = Idle"
| "phase_ok cd c Accepted \<longleftrightarrow> c_handler c = Idle"
| "phase_ok cd c (Waiting n a rel ro) \<longleftrightarrow> c_handler c \<noteq> Idle"
| "phase_ok cd c (Checking n a rel ro rep) \<longleftrightarrow> (\<forall>r. rep = Some r \<longrightarrow> c_handler c = Finished r)"
| "phase_ok cd c (Delayed rep) \<longleftrightarrow> c_handler c = Finished rep"
| "phase_ok cd c (Sending rep) \<longleftrightarrow> rep = failed_reply \<or> c_handler c = Finished rep"
| "phase_ok cd c (Returned b v) \<longleftrightarrow> (b \<longrightarrow> v \<noteq> None \<and> (\<exists>rep. c_handler c = Finished rep \<and> v = decode cd (rp_reply rep)))"

definition call_ok :: "('t, 'v) codec \<Rightarrow> nat \<Rightarrow> ('n, 't, 'v, 'o) call \<Rightarrow> bool" where
  "call_ok cd n c \<longleftrightarrow> handler_ok cd n c (c_handler c) \<and> phase_ok cd c (c_phase c) \<and> (\<exists>args. rq_args (c_req c) = encode cd args)"

definition world_ok :: "('t, 'v) codec \<Rightarrow> ('n, 't, 'v, 'o) world \<Rightarrow> bool" where
  "world_ok cd w \<longleftrightarrow> (\<forall>c \<in> set (w_calls w). call_ok cd (length (w_heap w)) c) \<and>
     (\<forall>n a. servers (w_net w) n = Some a \<longrightarrow> a < length (w_heap w)) \<and> (\<not> w_loop w \<longrightarrow> net_done (w_net w))"

lemma handler_ok_heap: "handler_ok cd n c h \<Longrightarrow> n \<le> n' \<Longrightarrow> handler_ok cd n' c h"
  by (cases h) auto

lemma world_ok_call: "world_ok cd w \<Longrightarrow> i < length (w_calls w) \<Longrightarrow> call_ok cd (length (w_heap w)) (w_calls w ! i)"
  by (simp add: world_ok_def)

lemma world_ok_set:
  assumes "world_ok cd w" "call_ok cd (length (w_heap w')) c"
    and "w_calls w' = w_calls w" "length (w_heap w') = length (w_heap w)" "servers (w_net w') = servers (w_net w)"
    "net_done (w_net w') = net_done (w_net w)" "w_loop w' = w_loop w"
  shows "world_ok cd (set_call i c w')"
  using assms by (auto simp: world_ok_def set_call_def dest!: set_update_subset_insert [THEN subsetD])

lemma admin_ok:
  assumes "admin n rn rn'" "\<forall>m a. servers rn m = Some a \<longrightarrow> a < n"
  shows "(\<forall>m a. servers rn' m = Some a \<longrightarrow> a < n) \<and> (net_done rn \<longrightarrow> net_done rn')"
  using assms
  by (cases rule: admin.cases)
    (auto simp: Reliable_def LongReordering_def LongDelays_def MakeEnd_def AddServer_def DeleteServer_def
      Connect_def Enable_def Cleanup_def split: if_splits)

lemma route_ok:
  assumes "processReq_route rn req r = (p, h)" "\<forall>m a. servers rn m = Some a \<longrightarrow> a < n"
  shows "h = Idle \<and> p = Sending failed_reply \<or> (\<exists>m a rel ro. p = Waiting m a rel ro \<and> h = Pending a \<and> a < n)"
  using assms by (auto simp: processReq_route_def readEndnameInfo_def Let_def split: bool.splits option.splits if_splits)

lemma finish_ok:
  assumes "processReq_finish rn req m a rel ro reply r1 r2 = (p, rn')"
  shows "(p = Sending failed_reply \<or> (\<exists>rep. reply = Some rep \<and> (p = Sending rep \<or> p = Delayed rep))) \<and>
    servers rn' = servers rn \<and> net_done rn' = net_done rn"
  using assms by (auto simp: processReq_finish_def Let_def split: option.splits if_splits)

lemma Call_result_ok: "Call_result cd rep = Inr (b, v) \<Longrightarrow> b \<longrightarrow> rp_ok rep \<and> v = decode cd (rp_reply rep) \<and> v \<noteq> None"
  unfolding Call_result_def by (cases "rp_ok rep"; cases "decode cd (rp_reply rep)"; simp; metis option.distinct(1))

lemma ran_phase [simp]: "ran cd (c\<lparr>c_phase := p\<rparr>) rep = ran cd c rep"
  by (simp add: ran_def)

lemma handler_ok_phase [simp]: "handler_ok cd n (c\<lparr>c_phase := p\<rparr>) h = handler_ok cd n c h"
  by (cases h) (simp_all add: ran_def)

lemma world_ok_step:
  assumes w: "world_ok cd w" and "rpc_step cd w w'"
  shows "world_ok cd w'"
  using assms(2)
proof (cases rule: rpc_step.cases)
  case (tester rn)
  then show ?thesis using w admin_ok [OF tester(3)] by (auto simp: world_ok_def)
next
  case make_server
  then show ?thesis using w handler_ok_heap by (fastforce simp: world_ok_def call_ok_def)
next
  case (add_service a svc)
  then show ?thesis using w by (simp add: world_ok_def)
next
  case (start endname e svc_meth tp args)
  then show ?thesis using w by (auto simp: world_ok_def call_ok_def Call_request_def)
next
  case (send i c)
  show ?thesis unfolding send(1)
    by (rule world_ok_set [OF w]) (use world_ok_call [OF w send(4)] send in \<open>auto simp: call_ok_def accept_req_def\<close>)
next
  case (refuse i c)
  show ?thesis unfolding refuse(1)
    by (rule world_ok_set [OF w]) (use world_ok_call [OF w refuse(4)] refuse in \<open>auto simp: call_ok_def\<close>)
next
  case stop
  then show ?thesis using w by (simp add: world_ok_def)
next
  case (route i c r p h)
  have "\<forall>m a. servers (w_net w) m = Some a \<longrightarrow> a < length (w_heap w)" using w by (simp add: world_ok_def)
  from route_ok [OF route(6) this] world_ok_call [OF w route(3)] route(4,5)
  have "call_ok cd (length (w_heap w)) (c\<lparr>c_phase := p, c_handler := h\<rparr>)" by (auto simp: call_ok_def)
  then show ?thesis unfolding route(1) by (rule world_ok_set [OF w]) simp_all
next
  case (work a sname svc rcvr)
  then show ?thesis using w by (simp add: world_ok_def)
next
  case (enter i c a rs sname mname)
  have "call_ok cd (length (w_heap w)) (c\<lparr>c_handler := Entered a sname mname\<rparr>)"
    using world_ok_call [OF w enter(3)] enter(4,5) server_dispatch_ok(1) [OF enter(6)]
    by (cases "c_phase c") (auto simp: call_ok_def)
  then show ?thesis unfolding enter(1) by (intro world_ok_set [OF w]) simp_all
next
  case (enter_fatal i c a e)
  then show ?thesis using w by (simp add: world_ok_def)
next
  case (handle i c a sname mname svc rep svc')
  have "call_ok cd (length (w_heap w)) (c\<lparr>c_handler := Finished rep, c_runs := c_runs c @ [w_heap w ! a]\<rparr>)"
    using world_ok_call [OF w handle(3)] handle(4-7) by (cases "c_phase c") (auto simp: call_ok_def ran_def)
  then show ?thesis unfolding handle(1) by (intro world_ok_set [OF w]) simp_all
next
  case (handle_fatal i c a sname mname svc e)
  then show ?thesis using w by (simp add: world_ok_def)
next
  case (take i c servername server rel reorder rep)
  show ?thesis unfolding take(1)
    by (rule world_ok_set [OF w]) (use world_ok_call [OF w take(3)] take in \<open>auto simp: call_ok_def\<close>)
next
  case (give_up i c servername server rel reorder)
  from world_ok_call [OF w give_up(3)] give_up(4)
  have "call_ok cd (length (w_heap w)) (c\<lparr>c_phase := Checking servername server rel reorder None\<rparr>)" by (auto simp: call_ok_def)
  then show ?thesis unfolding give_up(1) by (rule world_ok_set [OF w]) simp_all
next
  case (finish i c servername server rel reorder reply r1 r2 p rn)
  from world_ok_call [OF w finish(3)] finish(4,5) finish_ok [OF finish(6)]
  have "call_ok cd (length (w_heap w)) (c\<lparr>c_phase := p\<rparr>)" by (auto simp: call_ok_def)
  then show ?thesis unfolding finish(1) using finish_ok [OF finish(6)] by (intro world_ok_set [OF w]) simp_all
next
  case (fire_delayed i c rep)
  show ?thesis unfolding fire_delayed(1)
    by (rule world_ok_set [OF w]) (use world_ok_call [OF w fire_delayed(3)] fire_delayed in \<open>auto simp: call_ok_def\<close>)
next
  case (deliver i c rep b v)
  from world_ok_call [OF w deliver(3)] deliver(4,5) Call_result_ok [OF deliver(6)]
  have "call_ok cd (length (w_heap w)) (c\<lparr>c_phase := Returned b v\<rparr>)" by (auto simp: call_ok_def failed_reply_def)
  then show ?thesis unfolding deliver(1) by (rule world_ok_set [OF w]) simp_all
next
  case (deliver_fatal i c rep e)
  then show ?thesis using w by (simp add: world_ok_def)
qed

interpretation rpc_net: inductive_invariant "\<lambda>w. w = initial_world" "rpc_step cd" "world_ok cd" for cd
proof
  show "world_ok cd w" if "w = initial_world" for w
    using that by (simp add: initial_world_def world_ok_def MakeNetwork_def)
qed (rule world_ok_step)

section \<open>When calls return\<close>

text \<open>Steps at which nobody connects, disables, adds or deletes anything.\<close>

definition unattended :: "('t, 'v) codec \<Rightarrow> ('n, 't, 'v, 'o) world \<Rightarrow> ('n, 't, 'v, 'o) world \<Rightarrow> bool" where
  "unattended cd w w' \<longleftrightarrow> rpc_step cd w w' \<and> enabled (w_net w') = enabled (w_net w) \<and>
     servers (w_net w') = servers (w_net w) \<and> connections (w_net w') = connections (w_net w)"

definition can_return :: "('t, 'v) codec \<Rightarrow> ('n, 't, 'v, 'o) world \<Rightarrow> nat \<Rightarrow> (bool \<Rightarrow> bool) \<Rightarrow> bool" where
  "can_return cd w i P \<longleftrightarrow> (\<exists>w' b v. run_from (unattended cd) w w' \<and> i < length (w_calls w') \<and>
     c_phase (w_calls w' ! i) = Returned b v \<and> P b)"

lemma can_return_now: "i < length (w_calls w) \<Longrightarrow> c_phase (w_calls w ! i) = Returned b v \<Longrightarrow> P b \<Longrightarrow> can_return cd w i P"
  using run_refl [of "unattended cd" w] unfolding can_return_def by blast

lemma can_return_step:
  assumes "rpc_step cd w w1" "can_return cd w1 i P" "enabled (w_net w1) = enabled (w_net w)"
    "servers (w_net w1) = servers (w_net w)" "connections (w_net w1) = connections (w_net w)"
  shows "can_return cd w i P"
proof -
  obtain w' b v where w': "run_from (unattended cd) w1 w'" "i < length (w_calls w')" "c_phase (w_calls w' ! i) = Returned b v" "P b"
    using assms(2) unfolding can_return_def by blast
  have "run_from (unattended cd) w w'"
    by (rule run_from_trans [OF run_from_single w'(1)]) (use assms in \<open>simp add: unattended_def\<close>)
  with w' show ?thesis unfolding can_return_def by blast
qed

lemma set_call_simps [simp]:
  "w_calls (set_call i c w) = (w_calls w)[i := c]" "w_fatal (set_call i c w) = w_fatal w" "w_heap (set_call i c w) = w_heap w"
  "w_net (set_call i c w) = w_net w" "w_loop (set_call i c w) = w_loop w"
  by (simp_all add: set_call_def)

lemma finish_wiring:
  assumes "processReq_finish rn req m a rel ro reply r1 r2 = (p, rn')"
  shows "enabled rn' = enabled rn" "servers rn' = servers rn" "connections rn' = connections rn"
  using assms by (auto simp: processReq_finish_def Let_def split: option.splits if_splits)

text \<open>From the channel back to the caller, given that replies can be decoded.\<close>

lemma failed_returns:
  assumes "w_fatal w = None" "i < length (w_calls w)" "c_phase (w_calls w ! i) = Sending failed_reply" "P False"
  shows "can_return cd w i P"
proof -
  have "Call_result cd failed_reply = Inr (False, None)" by (simp add: Call_result_def failed_reply_def)
  from rpc_step.deliver [OF assms(1,2) refl assms(3) this] show ?thesis
    by (rule can_return_step) (use assms in \<open>auto intro: can_return_now\<close>)
qed

lemma sending_returns:
  assumes "w_fatal w = None" "i < length (w_calls w)" "c_phase (w_calls w ! i) = Sending rep"
    and "rp_ok rep \<and> decode cd (rp_reply rep) \<noteq> None" "P True"
  shows "can_return cd w i P"
proof -
  obtain v where "Call_result cd rep = Inr (True, v)" using assms(4) by (auto simp: Call_result_def)
  from rpc_step.deliver [OF assms(1,2) refl assms(3) this] show ?thesis
    by (rule can_return_step) (use assms in \<open>auto intro: can_return_now\<close>)
qed

lemma delayed_returns:
  assumes "w_fatal w = None" "i < length (w_calls w)" "c_phase (w_calls w ! i) = Delayed rep"
    and "rp_ok rep \<and> decode cd (rp_reply rep) \<noteq> None" "P True"
  shows "can_return cd w i P"
  by (rule can_return_step [OF rpc_step.fire_delayed [OF assms(1,2) refl assms(3)]])
    (rule sending_returns [where rep = rep], use assms in auto)

lemma checking_none_returns:
  assumes "w_fatal w = None" "i < length (w_calls w)" "c_phase (w_calls w ! i) = Checking m a rel ro None" "P False"
  shows "can_return cd w i P"
proof -
  have f: "processReq_finish (w_net w) (c_req (w_calls w ! i)) m a rel ro None 0 0 = (Sending failed_reply, w_net w)"
    by (simp add: processReq_finish_def Let_def)
  show ?thesis
    by (rule can_return_step [OF rpc_step.finish [OF assms(1,2) refl assms(3) f]]) (use assms in \<open>auto intro: failed_returns\<close>)
qed

lemma checking_returns:
  fixes w :: "('n, 't, 'v, 'o) world"
  assumes "w_fatal w = None" "i < length (w_calls w)" "c_phase (w_calls w ! i) = Checking m a rel ro reply"
    and "\<forall>rep. reply = Some rep \<longrightarrow> rp_ok rep \<and> decode cd (rp_reply rep) \<noteq> None"
  shows "can_return cd w i (\<lambda>_. True)"
proof -
  obtain p :: "('n, 'v) phase" and rn where f: "processReq_finish (w_net w) (c_req (w_calls w ! i)) m a rel ro reply 0 0 = (p, rn)" by fastforce
  let ?w = "set_call i ((w_calls w ! i)\<lparr>c_phase := p\<rparr>) (w\<lparr>w_net := rn\<rparr>)"
  have w: "w_fatal ?w = None" "i < length (w_calls ?w)" "c_phase (w_calls ?w ! i) = p" using assms by simp_all
  from finish_ok [OF f] consider "p = Sending failed_reply" | rep where "reply = Some rep" "p = Sending rep"
    | rep where "reply = Some rep" "p = Delayed rep" by blast
  then have "can_return cd ?w i (\<lambda>_. True)"
  proof cases
    case 1
    then show ?thesis using failed_returns [OF w(1,2), where P = "\<lambda>_. True"] w(3) by simp
  next
    case 2
    then show ?thesis using sending_returns [OF w(1,2), where P = "\<lambda>_. True"] w(3) assms(4) by simp
  next
    case 3
    then show ?thesis using delayed_returns [OF w(1,2), where P = "\<lambda>_. True"] w(3) assms(4) by simp
  qed
  then show ?thesis
    by (rule can_return_step [OF rpc_step.finish [OF assms(1,2) refl assms(3) f]]) (simp_all add: finish_wiring [OF f])
qed

lemma ran_decodes:
  assumes "ran cd c rep" "\<forall>v. decode cd (encode cd v) = Some v"
  shows "rp_ok rep \<and> decode cd (rp_reply rep) \<noteq> None"
  using assms by (auto simp: ran_def elim!: service_dispatch_ok)

text \<open>The handler of a request returns on a server in its present state.\<close>

definition handler_returns :: "('t, 'v) codec \<Rightarrow> ('o, 'v) Server \<Rightarrow> ('n, 't) reqMsg \<Rightarrow> bool" where
  "handler_returns cd s req \<longleftrightarrow> (\<exists>sname mname svc r. names_method req sname mname \<and> rs_services s sname = Some svc \<and>
     service_dispatch cd svc mname req = Inr (Some r))"

lemma names_inj: "names_method req a b \<Longrightarrow> names_method req a' b' \<Longrightarrow> a = a' \<and> b = b'"
  using names_slices by (metis Inr_inject)

lemma finished_returns:
  assumes w: "world_ok cd w" "w_fatal w = None" "i < length (w_calls w)"
    "c_phase (w_calls w ! i) = Waiting m a rel ro" "c_handler (w_calls w ! i) = Finished rep"
    and cd: "\<forall>v. decode cd (encode cd v) = Some v"
  shows "can_return cd w i (\<lambda>_. True)"
proof (rule can_return_step [OF rpc_step.take [OF w(2,3) refl w(4,5)]])
  have "ran cd (w_calls w ! i) rep" using world_ok_call [OF w(1,3)] w(5) by (simp add: call_ok_def)
  from ran_decodes [OF this cd] w
  show "can_return cd (set_call i ((w_calls w ! i)\<lparr>c_phase := Checking m a rel ro (Some rep)\<rparr>) w) i (\<lambda>_. True)"
    by (intro checking_returns [where reply = "Some rep"]) auto
qed simp_all

lemma entered_returns:
  assumes w: "world_ok cd w" "w_fatal w = None" "i < length (w_calls w)" "c_phase (w_calls w ! i) = Waiting m a rel ro"
    "c_handler (w_calls w ! i) = Entered b sname mname"
    and cd: "\<forall>v. decode cd (encode cd v) = Some v"
    and d: "handler_returns cd (w_heap w ! b) (c_req (w_calls w ! i))"
  shows "can_return cd w i (\<lambda>_. True)"
proof -
  have "names_method (c_req (w_calls w ! i)) sname mname" using world_ok_call [OF w(1,3)] w(5) by (simp add: call_ok_def)
  with d obtain svc rep svc' where "rs_services (w_heap w ! b) sname = Some svc"
    "service_dispatch cd svc mname (c_req (w_calls w ! i)) = Inr (Some (rep, svc'))"
    using names_inj unfolding handler_returns_def by fastforce
  note s = rpc_step.handle [OF w(2,3) refl w(5) this]
  show ?thesis
    by (rule can_return_step [OF s], rule finished_returns [OF world_ok_step [OF w(1) s]]) (use w cd in simp_all)
qed

lemma waiting_returns:
  assumes w: "world_ok cd w" "w_fatal w = None" "i < length (w_calls w)" "c_phase (w_calls w ! i) = Waiting m a rel ro"
    and cd: "\<forall>v. decode cd (encode cd v) = Some v"
    and d: "\<forall>s \<in> set (w_heap w). handler_returns cd s (c_req (w_calls w ! i))"
  shows "can_return cd w i (\<lambda>_. True)"
proof -
  let ?c = "w_calls w ! i"
  have ok: "call_ok cd (length (w_heap w)) ?c" by (rule world_ok_call [OF w(1,3)])
  show ?thesis
  proof (cases "c_handler ?c")
    case Idle
    with ok w(4) show ?thesis by (simp add: call_ok_def)
  next
    case (Pending b)
    with ok have b: "b < length (w_heap w)" by (simp add: call_ok_def)
    then have h: "handler_returns cd (w_heap w ! b) (c_req ?c)" using d by simp
    then obtain sname mname where n: "names_method (c_req ?c) sname mname" "rs_services (w_heap w ! b) sname \<noteq> None"
      by (auto simp: handler_returns_def)
    then have e: "server_dispatch (w_heap w ! b) (c_req ?c) = Inr ((w_heap w ! b)\<lparr>rs_count := rs_count (w_heap w ! b) + 1\<rparr>, sname, mname)"
      by (simp add: server_dispatch_names)
    note s = rpc_step.enter [OF w(2,3) refl Pending e, where cd = cd]
    have "handler_returns cd ((w_heap w ! b)\<lparr>rs_count := rs_count (w_heap w ! b) + 1\<rparr>) (c_req ?c)"
      using h by (simp add: handler_returns_def)
    then show ?thesis
      by (intro can_return_step [OF s] entered_returns [OF world_ok_step [OF w(1) s], where b = b]) (use w cd b in simp_all)
  next
    case (Entered b sname mname)
    with ok have "b < length (w_heap w)" by (simp add: call_ok_def)
    then show ?thesis using entered_returns [OF w Entered cd] d by simp
  next
    case (Finished rep)
    from finished_returns [OF w this cd] show ?thesis .
  qed
qed

lemma accepted_returns:
  fixes w :: "('n, 't, 'v, 'o) world"
  assumes w: "world_ok cd w" "w_fatal w = None" "i < length (w_calls w)" "c_phase (w_calls w ! i) = Accepted"
    and cd: "\<forall>v. decode cd (encode cd v) = Some v"
    and d: "\<forall>s \<in> set (w_heap w). handler_returns cd s (c_req (w_calls w ! i))"
  shows "can_return cd w i (\<lambda>_. True)"
proof -
  obtain p :: "('n, 'v) phase" and h where r: "processReq_route (w_net w) (c_req (w_calls w ! i)) 0 = (p, h)" by fastforce
  note s = rpc_step.route [OF w(2,3) refl w(4) r]
  let ?w = "set_call i ((w_calls w ! i)\<lparr>c_phase := p, c_handler := h\<rparr>) w"
  have *: "w_fatal ?w = None" "i < length (w_calls ?w)" "c_phase (w_calls ?w ! i) = p" using w by simp_all
  have "\<forall>m a. servers (w_net w) m = Some a \<longrightarrow> a < length (w_heap w)" using w(1) by (simp add: world_ok_def)
  from route_ok [OF r this] have "can_return cd ?w i (\<lambda>_. True)"
  proof (elim disjE exE conjE)
    assume "p = Sending failed_reply"
    then show ?thesis using failed_returns [OF *(1,2), where P = "\<lambda>_. True"] *(3) by simp
  next
    fix m a rel ro assume "p = Waiting m a rel ro"
    then show ?thesis using waiting_returns [OF world_ok_step [OF w(1) s] *(1,2), of m a rel ro] *(3) cd d w(3) by simp
  qed
  then show ?thesis by (rule can_return_step [OF s]) simp_all
qed

lemma ready_returns:
  assumes w: "world_ok cd w" "w_fatal w = None" "i < length (w_calls w)" "c_phase (w_calls w ! i) = Ready"
    and cd: "\<forall>v. decode cd (encode cd v) = Some v"
    and d: "\<forall>s \<in> set (w_heap w). handler_returns cd s (c_req (w_calls w ! i))"
  shows "can_return cd w i (\<lambda>_. True)"
proof (cases "w_loop w")
  case True
  note s = rpc_step.send [OF w(2) True w(3) refl w(4), where cd = cd]
  show ?thesis
    by (rule can_return_step [OF s], rule accepted_returns [OF world_ok_step [OF w(1) s]])
      (use w cd d in \<open>simp_all add: accept_req_def\<close>)
next
  case False
  then have "net_done (w_net w)" using w(1) by (simp add: world_ok_def)
  from rpc_step.refuse [OF w(2) this w(3) refl w(4)] show ?thesis
    by (rule can_return_step) (use w in \<open>auto intro: can_return_now\<close>)
qed

lemma call_returns:
  assumes w: "world_ok cd w" "w_fatal w = None" "i < length (w_calls w)"
    and cd: "\<forall>v. decode cd (encode cd v) = Some v"
    and d: "\<forall>s \<in> set (w_heap w). handler_returns cd s (c_req (w_calls w ! i))"
  shows "can_return cd w i (\<lambda>_. True)"
proof -
  have ok: "call_ok cd (length (w_heap w)) (w_calls w ! i)" by (rule world_ok_call [OF w(1,3)])
  show ?thesis
  proof (cases "c_phase (w_calls w ! i)")
    case (Checking m a rel ro reply)
    have "rp_ok rep \<and> decode cd (rp_reply rep) \<noteq> None" if "reply = Some rep" for rep
      by (rule ran_decodes [OF _ cd, of "w_calls w ! i"]) (use ok Checking that in \<open>auto simp: call_ok_def\<close>)
    then show ?thesis by (intro checking_returns [OF w(2,3) Checking]) blast
  next
    case (Delayed rep)
    with ok have "ran cd (w_calls w ! i) rep" by (auto simp: call_ok_def)
    from ran_decodes [OF this cd] show ?thesis by (intro delayed_returns [OF w(2,3) Delayed]) simp_all
  next
    case (Sending rep)
    with ok have "rep = failed_reply \<or> ran cd (w_calls w ! i) rep" by (auto simp: call_ok_def)
    then show ?thesis
    proof
      assume "rep = failed_reply"
      then show ?thesis using failed_returns [OF w(2,3), where P = "\<lambda>_. True"] Sending by simp
    next
      assume "ran cd (w_calls w ! i) rep"
      from ran_decodes [OF this cd] show ?thesis by (intro sending_returns [OF w(2,3) Sending]) simp_all
    qed
  qed (rule ready_returns [OF w _ cd d] accepted_returns [OF w _ cd d] waiting_returns [OF w _ cd d] can_return_now [OF w(3)]; simp)+
qed

text \<open>The poll for a dead server, every 100 milliseconds, ends a call whose handler does not return.\<close>

lemma dead_returns:
  assumes "w_fatal w = None" "i < length (w_calls w)" "c_phase (w_calls w ! i) = Waiting m a rel ro"
    and "\<not> enabled (w_net w) (rq_endname (c_req (w_calls w ! i))) \<or> servers (w_net w) m \<noteq> Some a"
  shows "can_return cd w i Not"
proof -
  have "isServerDead (w_net w) (rq_endname (c_req (w_calls w ! i))) m a" using assms(4) by (simp add: isServerDead_def)
  from rpc_step.give_up [OF assms(1,2) refl assms(3) this] show ?thesis
    by (rule can_return_step) (use assms in \<open>auto intro: checking_none_returns\<close>)
qed

text \<open>Otherwise a call waits as long as its handler has not returned.\<close>

definition holding :: "'n \<Rightarrow> 'n \<Rightarrow> nat \<Rightarrow> ('n, 't, 'v, 'o) world \<Rightarrow> bool" where
  "holding e m a w \<longleftrightarrow> enabled (w_net w) e \<and> servers (w_net w) m = Some a"

definition held :: "('n, 't) reqMsg \<Rightarrow> ('n, 'v) phase \<Rightarrow> ('n, 't, 'v, 'o) call \<Rightarrow> bool" where
  "held req p c \<longleftrightarrow> c_req c = req \<and> (c_phase c = p \<and> c_handler c \<noteq> Idle \<or> (\<exists>rep. c_handler c = Finished rep))"

definition stays :: "nat \<Rightarrow> ('n, 't) reqMsg \<Rightarrow> ('n, 'v) phase \<Rightarrow> ('n, 't, 'v, 'o) world \<Rightarrow> bool" where
  "stays i req p w \<longleftrightarrow> i < length (w_calls w) \<and> held req p (w_calls w ! i)"

lemma stays_set:
  assumes "stays i req p w" "w_calls w' = w_calls w" "c = w_calls w ! k"
    and "held req p c \<Longrightarrow> held req p c'"
  shows "stays i req p (set_call k c' w')"
  using assms by (cases "k = i") (auto simp: stays_def)

lemma stays_step:
  assumes st: "stays i req (Waiting m a rel ro) w" and hold: "holding (rq_endname req) m a w" and "rpc_step cd w w'"
    and ok: "world_ok cd w"
  shows "stays i req (Waiting m a rel ro) w'"
  using assms(3)
proof (cases rule: rpc_step.cases)
  case (start endname e svc_meth tp args)
  then show ?thesis using st by (auto simp: stays_def nth_append)
next
  case (send k c)
  show ?thesis unfolding send(1) by (rule stays_set [OF st _ send(5)]) (use send in \<open>auto simp: held_def\<close>)
next
  case (refuse k c)
  show ?thesis unfolding refuse(1) by (rule stays_set [OF st _ refuse(5)]) (use refuse in \<open>auto simp: held_def\<close>)
next
  case (route k c r p h)
  have "c_handler c = Idle" using world_ok_call [OF ok route(3)] route(4,5) by (simp add: call_ok_def)
  then show ?thesis unfolding route(1) by (intro stays_set [OF st _ route(4)]) (auto simp: held_def route(5))
next
  case (enter k c b rs sname mname)
  show ?thesis unfolding enter(1) by (rule stays_set [OF st _ enter(4)]) (use enter in \<open>auto simp: held_def\<close>)
next
  case (handle k c b sname mname svc rep svc')
  show ?thesis unfolding handle(1) by (rule stays_set [OF st _ handle(4)]) (use handle in \<open>auto simp: held_def\<close>)
next
  case (take k c servername server rel' reorder rep)
  show ?thesis unfolding take(1) by (rule stays_set [OF st _ take(4)]) (use take in \<open>auto simp: held_def\<close>)
next
  case (give_up k c servername server rel' reorder)
  show ?thesis unfolding give_up(1)
    by (rule stays_set [OF st _ give_up(4)]) (use give_up hold in \<open>auto simp: held_def holding_def isServerDead_def\<close>)
next
  case (finish k c servername server rel' reorder reply r1 r2 p rn)
  show ?thesis unfolding finish(1) by (rule stays_set [OF st _ finish(4)]) (use finish in \<open>auto simp: held_def\<close>)
next
  case (fire_delayed k c rep)
  show ?thesis unfolding fire_delayed(1) by (rule stays_set [OF st _ fire_delayed(4)]) (use fire_delayed in \<open>auto simp: held_def\<close>)
next
  case (deliver k c rep b v)
  show ?thesis unfolding deliver(1) by (rule stays_set [OF st _ deliver(4)]) (use deliver in \<open>auto simp: held_def\<close>)
qed (use st in \<open>simp_all add: stays_def\<close>)

section \<open>Properties\<close>

text \<open>
  C31: What the result of a call means. Over every run of the network, with lost and delayed messages,
  disabled ends, deleted and replaced servers and concurrent calls, the handler of a request runs
  at most once; and if \<^verbatim>\<open>Call\<close> returns true, it ran exactly once, the request named a service and a
  method of the server it ran on, the handler was given the caller's arguments, and the reply the
  caller gets is the one the handler returned.
\<close>

theorem rpc_call_result:
  assumes "\<forall>v. decode cd (encode cd v) = Some v" and "run_from (rpc_step cd) initial_world w" and "i < length (w_calls w)"
  shows "length (c_runs (w_calls w ! i)) \<le> 1 \<and>
    (\<forall>v. c_phase (w_calls w ! i) = Returned True v \<longrightarrow>
      (\<exists>args s0 svc meth service method.
         c_runs (w_calls w ! i) = [s0] \<and> rq_args (c_req (w_calls w ! i)) = encode cd args \<and>
         svcMeth (c_req (w_calls w ! i)) = svc @ CHR ''.'' # meth \<and> CHR ''.'' \<notin> set meth \<and>
         rs_services s0 svc = Some service \<and> svc_methods service meth = Some method \<and>
         (\<exists>replyv rcvr. m_Func method (svc_rcvr service) args = Some (replyv, rcvr) \<and> v = Some replyv)))"
proof -
  let ?c = "w_calls w ! i"
  have ok: "call_ok cd (length (w_heap w)) ?c" by (rule world_ok_call [OF rpc_net.inv_run [OF refl assms(2)] assms(3)])
  have "length (c_runs ?c) \<le> 1" using ok by (cases "c_handler ?c") (auto simp: call_ok_def ran_def)
  moreover have "\<exists>args s0 svc meth service method.
         c_runs ?c = [s0] \<and> rq_args (c_req ?c) = encode cd args \<and> svcMeth (c_req ?c) = svc @ CHR ''.'' # meth \<and> CHR ''.'' \<notin> set meth \<and>
         rs_services s0 svc = Some service \<and> svc_methods service meth = Some method \<and>
         (\<exists>replyv rcvr. m_Func method (svc_rcvr service) args = Some (replyv, rcvr) \<and> v = Some replyv)"
    if r: "c_phase ?c = Returned True v" for v
  proof -
    obtain rep args where rep: "ran cd ?c rep" "v = decode cd (rp_reply rep)" and args: "rq_args (c_req ?c) = encode cd args"
      using ok r by (auto simp: call_ok_def)
    obtain s0 sname mname svc svc' where s: "c_runs ?c = [s0]" "names_method (c_req ?c) sname mname" "rs_services s0 sname = Some svc"
      "service_dispatch cd svc mname (c_req ?c) = Inr (Some (rep, svc'))" using rep(1) by (auto simp: ran_def)
    obtain m0 replyv rcvr where "svc_methods svc mname = Some m0" "rp_reply rep = encode cd replyv"
      "m_Func m0 (svc_rcvr svc) (case decode cd (rq_args (c_req ?c)) of Some v \<Rightarrow> v | None \<Rightarrow> zero_value cd (argsType (c_req ?c)))
        = Some (replyv, rcvr)" using s(4) by (rule service_dispatch_ok)
    then show ?thesis using s(1-3) args rep(2) assms(1) unfolding names_method_def by fastforce
  qed
  ultimately show ?thesis by blast
qed

text \<open>
  C32: When calls return. In every state that the network can reach, with no handler having brought the process
  down, and as long as nobody changes the wiring: if the handler of a call's request returns on the servers in
  their present states, the call can be brought to its return, whatever stage it is in; if the call waits and its
  end is disabled or its server was deleted or replaced, it can return false, even if its handler never returns;
  and if it waits, its end stays enabled and its server stays in place, it goes on waiting until its handler has
  returned, which is the exception that the package's documentation makes.
\<close>

theorem rpc_call_returns:
  assumes "\<forall>v. decode cd (encode cd v) = Some v" and "run_from (rpc_step cd) initial_world w" and "w_fatal w = None"
    and "i < length (w_calls w)" and "req = c_req (w_calls w ! i)"
  shows "((\<forall>s \<in> set (w_heap w). handler_returns cd s req) \<longrightarrow>
      (\<exists>w' b v. run_from (unattended cd) w w' \<and> i < length (w_calls w') \<and> c_phase (w_calls w' ! i) = Returned b v)) \<and>
    (\<forall>m a rel ro. c_phase (w_calls w ! i) = Waiting m a rel ro \<longrightarrow>
      (\<not> enabled (w_net w) (rq_endname req) \<or> servers (w_net w) m \<noteq> Some a \<longrightarrow>
        (\<exists>w' v. run_from (unattended cd) w w' \<and> i < length (w_calls w') \<and> c_phase (w_calls w' ! i) = Returned False v)) \<and>
      (\<forall>w'. run_from (\<lambda>u u'. rpc_step cd u u' \<and> enabled (w_net u) (rq_endname req) \<and> servers (w_net u) m = Some a) w w' \<longrightarrow>
        (\<forall>rep. c_handler (w_calls w' ! i) \<noteq> Finished rep) \<longrightarrow> c_phase (w_calls w' ! i) = Waiting m a rel ro))"
proof (intro conjI allI impI)
  note ok = rpc_net.inv_run [OF refl assms(2)]
  show "\<exists>w' b v. run_from (unattended cd) w w' \<and> i < length (w_calls w') \<and> c_phase (w_calls w' ! i) = Returned b v"
    if "\<forall>s \<in> set (w_heap w). handler_returns cd s req"
    using call_returns [OF ok assms(3,4,1)] that assms(5) by (auto simp: can_return_def)
  fix m a rel ro assume p: "c_phase (w_calls w ! i) = Waiting m a rel ro"
  show "\<exists>w' v. run_from (unattended cd) w w' \<and> i < length (w_calls w') \<and> c_phase (w_calls w' ! i) = Returned False v"
    if "\<not> enabled (w_net w) (rq_endname req) \<or> servers (w_net w) m \<noteq> Some a"
    using dead_returns [OF assms(3,4) p] that assms(5) by (force simp: can_return_def)
  fix w' assume r: "run_from (\<lambda>u u'. rpc_step cd u u' \<and> enabled (w_net u) (rq_endname req) \<and> servers (w_net u) m = Some a) w w'"
    and h: "\<forall>rep. c_handler (w_calls w' ! i) \<noteq> Finished rep"
  have "stays i req (Waiting m a rel ro) w" using p assms(4,5) world_ok_call [OF ok assms(4)] by (auto simp: stays_def held_def call_ok_def)
  with r ok have "stays i req (Waiting m a rel ro) w' \<and> world_ok cd w'"
    by (induction rule: run_from.induct) (auto simp: holding_def intro: stays_step world_ok_step)
  then show "c_phase (w_calls w' ! i) = Waiting m a rel ro" using h by (auto simp: stays_def held_def)
qed

definition byte_codec :: "(unit, 8 word) codec" where
  "byte_codec = \<lparr>encode = (\<lambda>v. [v]), decode = (\<lambda>bs. case bs of [v] \<Rightarrow> Some v | _ \<Rightarrow> None), zero_value = (\<lambda>_. 0)\<rparr>"

definition adder :: "(8 word, 8 word) Service" where
  "adder = MakeService ''Adder''
     [\<lparr>m_Name = ''Add'', m_PkgPath = '''', m_NumIn = 3, m_In2_Ptr = True, m_NumOut = 0, m_Func = (\<lambda>x a. if a = 0 then None else Some (x + a, x + 1))\<rparr>] 40"

lemma byte_codec_law: "\<forall>v. decode byte_codec (encode byte_codec v) = Some v"
  by (simp add: byte_codec_def)

definition adder_net :: "nat Network" where
  "adder_net = Enable 1 True (Connect 1 7 (AddServer 7 0 (MakeNetwork\<lparr>ends := [1 \<mapsto> \<lparr>ce_endname = 1\<rparr>],
     enabled := (\<lambda>_. False)(1 := False), connections := (\<lambda>_. None)(1 := None)\<rparr>)))"

definition adder_call :: "(nat, 8 word) phase \<Rightarrow> handler \<Rightarrow> (8 word, 8 word) Server list \<Rightarrow> (nat, unit, 8 word, 8 word) call" where
  "adder_call p h runs = \<lparr>c_req = Call_request byte_codec \<lparr>ce_endname = 1\<rparr> ''Adder.Add'' () 2, c_phase = p, c_handler = h, c_runs = runs\<rparr>"

definition adder_world :: "nat Network \<Rightarrow> (8 word, 8 word) Server \<Rightarrow> (nat, unit, 8 word, 8 word) call list \<Rightarrow> (nat, unit, 8 word, 8 word) world" where
  "adder_world rn rs cs = \<lparr>w_net = rn, w_loop = True, w_heap = [rs], w_calls = cs, w_fatal = None\<rparr>"

lemma adder_started:
  "run_from (rpc_step byte_codec) initial_world (adder_world adder_net (AddService MakeServer adder) [adder_call Ready Idle []])"
proof -
  let ?step = "rpc_step byte_codec" let ?rs = "AddService MakeServer adder"
  let ?n1 = "MakeNetwork\<lparr>ends := [1 \<mapsto> \<lparr>ce_endname = 1\<rparr>], enabled := (\<lambda>_. False)(1 := False), connections := (\<lambda>_. None)(1 := None)\<rparr> :: nat Network"
  let ?w1 = "initial_world\<lparr>w_heap := [MakeServer]\<rparr> :: (nat, unit, 8 word, 8 word) world"
  have "?step initial_world ?w1" using rpc_step.make_server [of initial_world byte_codec] by (simp add: initial_world_def)
  then have "run_from ?step initial_world ?w1" by (rule run_from_single)
  moreover have "?step ?w1 (adder_world MakeNetwork ?rs [])"
    using rpc_step.add_service [of ?w1 0 byte_codec adder] by (simp add: initial_world_def adder_world_def)
  ultimately have "run_from ?step initial_world (adder_world MakeNetwork ?rs [])" by (rule run_step)
  moreover have tester: "?step (adder_world rn ?rs []) (adder_world rn' ?rs [])" if "admin 1 rn rn'" for rn rn'
    using rpc_step.tester [of "adder_world rn ?rs []" rn' byte_codec] that by (simp add: adder_world_def)
  have "MakeEnd 1 MakeNetwork = Inr ?n1" by (simp add: MakeEnd_def MakeNetwork_def)
  then have "?step (adder_world MakeNetwork ?rs []) (adder_world ?n1 ?rs [])" by (intro tester admin.intros)
  ultimately have "run_from ?step initial_world (adder_world ?n1 ?rs [])" by (rule run_step)
  moreover have "?step (adder_world ?n1 ?rs []) (adder_world (AddServer 7 0 ?n1) ?rs [])" by (intro tester admin.intros) simp
  ultimately have "run_from ?step initial_world (adder_world (AddServer 7 0 ?n1) ?rs [])" by (rule run_step)
  moreover have "?step (adder_world (AddServer 7 0 ?n1) ?rs []) (adder_world (Connect 1 7 (AddServer 7 0 ?n1)) ?rs [])"
    by (intro tester admin.intros)
  ultimately have "run_from ?step initial_world (adder_world (Connect 1 7 (AddServer 7 0 ?n1)) ?rs [])" by (rule run_step)
  moreover have "?step (adder_world (Connect 1 7 (AddServer 7 0 ?n1)) ?rs []) (adder_world adder_net ?rs [])"
    unfolding adder_net_def by (intro tester admin.intros)
  ultimately have "run_from ?step initial_world (adder_world adder_net ?rs [])" by (rule run_step)
  moreover have "?step (adder_world adder_net ?rs []) (adder_world adder_net ?rs [adder_call Ready Idle []])"
    using rpc_step.start [of "adder_world adder_net ?rs []" 1 "\<lparr>ce_endname = 1\<rparr>" byte_codec "''Adder.Add''" "()" 2]
    by (simp add: adder_world_def adder_call_def adder_net_def Enable_def Connect_def AddServer_def)
  ultimately show ?thesis by (rule run_step)
qed

lemma adder_names: "names_method (c_req (adder_call p h runs)) ''Adder'' ''Add''"
  by (simp add: names_method_def adder_call_def Call_request_def)

lemma adder_dispatch:
  "server_dispatch (AddService MakeServer adder) (c_req (adder_call p h runs)) =
     Inr ((AddService MakeServer adder)\<lparr>rs_count := 1\<rparr>, ''Adder'', ''Add'')"
  by (simp add: server_dispatch_names [OF adder_names] AddService_def MakeServer_def adder_def MakeService_def)

lemma adder_installed: "rs_services (AddService MakeServer adder) ''Adder'' = Some adder"
  by (simp add: AddService_def MakeServer_def adder_def MakeService_def)

lemma adder_serves:
  "service_dispatch byte_codec adder ''Add'' (c_req (adder_call p h runs)) =
     Inr (Some (\<lparr>rp_ok = True, rp_reply = [42]\<rparr>, adder\<lparr>svc_rcvr := 41\<rparr>))"
  by (simp add: service_dispatch_def adder_def MakeService_def suitable_def adder_call_def Call_request_def byte_codec_def)

definition adder_sent :: "nat Network" where
  "adder_sent = accept_req (c_req (adder_call Ready Idle [])) adder_net"

lemma adder_waiting:
  "run_from (rpc_step byte_codec) initial_world
     (adder_world adder_sent (AddService MakeServer adder) [adder_call (Waiting 7 0 True False) (Pending 0) []])"
proof -
  let ?step = "rpc_step byte_codec" let ?rs = "AddService MakeServer adder" let ?rn = adder_sent
  note net = adder_sent_def adder_net_def Enable_def Connect_def AddServer_def accept_req_def MakeNetwork_def
  have route: "processReq_route ?rn (c_req (adder_call Accepted Idle [])) 0 = (Waiting 7 0 True False, Pending 0)"
    by (simp add: processReq_route_def readEndnameInfo_def net adder_call_def Call_request_def)
  have "?step (adder_world adder_net ?rs [adder_call Ready Idle []]) (adder_world ?rn ?rs [adder_call Accepted Idle []])"
    using rpc_step.send [of "adder_world adder_net ?rs [adder_call Ready Idle []]" 0 _ byte_codec]
    by (simp add: adder_world_def adder_sent_def adder_call_def set_call_def)
  from run_step [OF adder_started this]
  have "run_from ?step initial_world (adder_world ?rn ?rs [adder_call Accepted Idle []])" .
  moreover have "?step (adder_world ?rn ?rs [adder_call Accepted Idle []]) (adder_world ?rn ?rs [adder_call (Waiting 7 0 True False) (Pending 0) []])"
    using rpc_step.route [of "adder_world ?rn ?rs [adder_call Accepted Idle []]" 0 _ 0 "Waiting 7 0 True False" "Pending 0" byte_codec] route
    by (simp add: adder_world_def adder_call_def set_call_def)
  ultimately show ?thesis by (rule run_step)
qed

lemma adder_returned:
  "\<exists>w :: (nat, unit, 8 word, 8 word) world. run_from (rpc_step byte_codec) initial_world w \<and> 0 < length (w_calls w) \<and> c_phase (w_calls w ! 0) = Returned True (Some 42)"
proof -
  let ?step = "rpc_step byte_codec" let ?rs = "AddService MakeServer adder" let ?rep = "\<lparr>rp_ok = True, rp_reply = [42 :: 8 word]\<rparr>"
  let ?rn = adder_sent
  let ?entered = "?rs\<lparr>rs_count := 1\<rparr>"
  let ?served = "?entered\<lparr>rs_services := (rs_services ?entered)(''Adder'' \<mapsto> adder\<lparr>svc_rcvr := 41\<rparr>)\<rparr>"
  note net = adder_sent_def adder_net_def Enable_def Connect_def AddServer_def accept_req_def MakeNetwork_def
  obtain rn2 where finish: "processReq_finish ?rn (c_req (adder_call (Checking 7 0 True False (Some ?rep)) (Finished ?rep) [?entered]))
      7 0 True False (Some ?rep) 0 0 = (Sending ?rep :: (nat, 8 word) phase, rn2)"
    by (simp add: processReq_finish_def isServerDead_def net adder_call_def Call_request_def)
  note adder_waiting
  moreover have "?step (adder_world ?rn ?rs [adder_call (Waiting 7 0 True False) (Pending 0) []])
      (adder_world ?rn ?entered [adder_call (Waiting 7 0 True False) (Entered 0 ''Adder'' ''Add'') []])"
    using rpc_step.enter [of "adder_world ?rn ?rs [adder_call (Waiting 7 0 True False) (Pending 0) []]" 0 _ 0 ?entered "''Adder''" "''Add''" byte_codec]
      adder_dispatch [of "Waiting 7 0 True False" "Pending 0" "[]"]
    by (simp add: adder_world_def adder_call_def set_call_def)
  ultimately have "run_from ?step initial_world (adder_world ?rn ?entered [adder_call (Waiting 7 0 True False) (Entered 0 ''Adder'' ''Add'') []])"
    by (rule run_step)
  moreover have "?step (adder_world ?rn ?entered [adder_call (Waiting 7 0 True False) (Entered 0 ''Adder'' ''Add'') []])
      (adder_world ?rn ?served [adder_call (Waiting 7 0 True False) (Finished ?rep) [?entered]])"
    using rpc_step.handle [of "adder_world ?rn ?entered [adder_call (Waiting 7 0 True False) (Entered 0 ''Adder'' ''Add'') []]" 0 _ 0
        "''Adder''" "''Add''" adder byte_codec ?rep "adder\<lparr>svc_rcvr := 41\<rparr>"]
      adder_serves [of "Waiting 7 0 True False" "Entered 0 ''Adder'' ''Add''" "[]"] adder_installed
    by (simp add: adder_world_def adder_call_def set_call_def)
  ultimately have "run_from ?step initial_world (adder_world ?rn ?served [adder_call (Waiting 7 0 True False) (Finished ?rep) [?entered]])" by (rule run_step)
  moreover have "?step (adder_world ?rn ?served [adder_call (Waiting 7 0 True False) (Finished ?rep) [?entered]])
      (adder_world ?rn ?served [adder_call (Checking 7 0 True False (Some ?rep)) (Finished ?rep) [?entered]])"
    using rpc_step.take [of "adder_world ?rn ?served [adder_call (Waiting 7 0 True False) (Finished ?rep) [?entered]]" 0 _ 7 0 True False ?rep byte_codec]
    by (simp add: adder_world_def adder_call_def set_call_def)
  ultimately have "run_from ?step initial_world (adder_world ?rn ?served [adder_call (Checking 7 0 True False (Some ?rep)) (Finished ?rep) [?entered]])" by (rule run_step)
  moreover have "?step (adder_world ?rn ?served [adder_call (Checking 7 0 True False (Some ?rep)) (Finished ?rep) [?entered]])
      (adder_world rn2 ?served [adder_call (Sending ?rep) (Finished ?rep) [?entered]])"
    using rpc_step.finish [of "adder_world ?rn ?served [adder_call (Checking 7 0 True False (Some ?rep)) (Finished ?rep) [?entered]]" 0 _
        7 0 True False "Some ?rep" 0 0 "Sending ?rep" rn2 byte_codec] finish
    by (simp add: adder_world_def adder_call_def set_call_def)
  ultimately have "run_from ?step initial_world (adder_world rn2 ?served [adder_call (Sending ?rep) (Finished ?rep) [?entered]])" by (rule run_step)
  moreover have "?step (adder_world rn2 ?served [adder_call (Sending ?rep) (Finished ?rep) [?entered]])
      (adder_world rn2 ?served [adder_call (Returned True (Some 42)) (Finished ?rep) [?entered]])"
    using rpc_step.deliver [of "adder_world rn2 ?served [adder_call (Sending ?rep) (Finished ?rep) [?entered]]" 0 _ ?rep byte_codec True "Some 42"]
    by (simp add: adder_world_def adder_call_def set_call_def Call_result_def byte_codec_def)
  ultimately have "run_from ?step initial_world (adder_world rn2 ?served [adder_call (Returned True (Some 42)) (Finished ?rep) [?entered]])" by (rule run_step)
  moreover have "0 < length (w_calls (adder_world rn2 ?served [adder_call (Returned True (Some 42)) (Finished ?rep) [?entered]]))"
    "c_phase (w_calls (adder_world rn2 ?served [adder_call (Returned True (Some 42)) (Finished ?rep) [?entered]]) ! 0) = Returned True (Some 42)"
    by (simp_all add: adder_world_def adder_call_def)
  ultimately show ?thesis by blast
qed

theorem rpc_call_result_witness:
  "\<exists>w :: (nat, unit, 8 word, 8 word) world. run_from (rpc_step byte_codec) initial_world w \<and> c_phase (w_calls w ! 0) = Returned True (Some 42) \<and>
     (\<exists>s0. c_runs (w_calls w ! 0) = [s0])"
proof -
  obtain w :: "(nat, unit, 8 word, 8 word) world" where w: "run_from (rpc_step byte_codec) initial_world w" "0 < length (w_calls w)" "c_phase (w_calls w ! 0) = Returned True (Some 42)"
    using adder_returned by blast
  with rpc_call_result [OF byte_codec_law w(1,2)] show ?thesis by blast
qed

lemma adder_cut_off:
  "run_from (rpc_step byte_codec) initial_world
     (adder_world (Enable 1 False adder_sent) (AddService MakeServer adder) [adder_call (Waiting 7 0 True False) (Pending 0) []])"
  by (rule run_step [OF adder_waiting])
    (use rpc_step.tester [of "adder_world adder_sent (AddService MakeServer adder) [adder_call (Waiting 7 0 True False) (Pending 0) []]"
        "Enable 1 False adder_sent" byte_codec] admin.intros(8) [of 1 adder_sent 1 False] in \<open>simp add: adder_world_def\<close>)

theorem rpc_call_returns_witness:
  "(\<exists>w b v. run_from (unattended byte_codec) (adder_world adder_net (AddService MakeServer adder) [adder_call Ready Idle []]) w \<and>
     c_phase (w_calls w ! 0) = Returned b v) \<and>
   (\<exists>w v. run_from (unattended byte_codec)
       (adder_world (Enable 1 False adder_sent) (AddService MakeServer adder) [adder_call (Waiting 7 0 True False) (Pending 0) []]) w \<and>
     c_phase (w_calls w ! 0) = Returned False v)"
proof
  have "\<forall>s \<in> set [AddService MakeServer adder]. handler_returns byte_codec s (c_req (adder_call Ready Idle []))"
    using adder_names adder_installed adder_serves by (force simp: handler_returns_def)
  then show "\<exists>w b v. run_from (unattended byte_codec) (adder_world adder_net (AddService MakeServer adder) [adder_call Ready Idle []]) w \<and>
     c_phase (w_calls w ! 0) = Returned b v"
    using rpc_call_returns [OF byte_codec_law adder_started, of 0 "c_req (adder_call Ready Idle [])"] by (auto simp: adder_world_def)
  have "c_phase (adder_call (Waiting 7 0 True False) (Pending 0) []) = Waiting 7 0 True False"
    "\<not> enabled (Enable 1 False adder_sent) (rq_endname (c_req (adder_call (Waiting 7 0 True False) (Pending 0) [])))"
    by (simp_all add: adder_call_def Enable_def Call_request_def)
  then show "\<exists>w v. run_from (unattended byte_codec)
       (adder_world (Enable 1 False adder_sent) (AddService MakeServer adder) [adder_call (Waiting 7 0 True False) (Pending 0) []]) w \<and>
     c_phase (w_calls w ! 0) = Returned False v"
    using rpc_call_returns [OF byte_codec_law adder_cut_off _ _ refl, of 0] by (simp add: adder_world_def) blast
qed

end
