(* ===== verification/Harness.thy ===== *)
theory Harness
  imports Kv_Clerk Shard_Master Rpc_Network
begin

text \<open>
  The test harness of the key/value service, \<^verbatim>\<open>kvraft/config.go\<close>, and of the shard master,
  \<^verbatim>\<open>shardmaster/config.go\<close>: servers are started, shut down, connected and partitioned by naming and
  enabling ends of the simulated network. The two files are the same but for the server they start,
  so the operations are defined over any type of server and instantiated twice. Random names and
  numbers, the clock and the methods that reflection finds are arguments.

  Instances of a server stay alive when they are shut down, so the state keeps all of them; a server
  is the address of its current instance. The storage that the harness holds for a server is the
  very object that the running instance writes to (\<open>OfInstance\<close>), or one of its own (\<open>Own\<close>).
\<close>

section \<open>State\<close>

text \<open>The names that the network is given: interface values that hold a string or an int.\<close>

datatype iname = Port string | Num int

datatype ('b, 'd) saved_ref = Own "('b, 'd) Persister" | OfInstance nat

record ('s, 'b, 'd, 'v) config =
  cf_net :: "iname Network"
  cf_heap :: "(nat, 'v) Server list"
  cf_n :: nat
  cf_instances :: "'s list"
  cf_servers :: "nat option list"
  cf_saved :: "('b, 'd) saved_ref option list"
  cf_endnames :: "string list option list"
  cf_start :: int

record ('s, 'b, 'd, 'v) kv_config = "('s, 'b, 'd, 'v) config" +
  cf_clerks :: "nat \<rightharpoonup> string list"
  cf_nextClerk :: nat
  cf_nextClientId :: int
  cf_maxraftstate :: int
  cf_t0 :: int
  cf_rpcs0 :: int
  cf_ops :: "32 word"

text \<open>\<^verbatim>\<open>cfg.endnames[i][j]\<close>; a nil row has no elements.\<close>

definition endname :: "string list option list \<Rightarrow> int \<Rightarrow> int \<Rightarrow> string go" where
  "endname es i j = bindG (go_index es i) (\<lambda>row. go_index (case row of None \<Rightarrow> [] | Some r \<Rightarrow> r) j)"

definition enable_end :: "bool \<Rightarrow> string list option list \<Rightarrow> int \<Rightarrow> int \<Rightarrow> iname Network \<Rightarrow> iname Network go" where
  "enable_end yes es i j net = mapG (\<lambda>e. Enable (Port e) yes net) (endname es i j)"

section \<open>Connecting and disconnecting\<close>

definition connectUnlocked ::
  "int \<Rightarrow> int list \<Rightarrow> ('s, 'b, 'd, 'v, 'z) config_scheme \<Rightarrow> ('s, 'b, 'd, 'v, 'z) config_scheme go" where
  "connectUnlocked i to cfg =
     bindG (foldG (\<lambda>j. enable_end True (cf_endnames cfg) i j) to (cf_net cfg)) (\<lambda>net.
     mapG (\<lambda>net'. cfg\<lparr>cf_net := net'\<rparr>)
       (foldG (\<lambda>j. enable_end True (cf_endnames cfg) j i) to net))"

text \<open>
  The second loop of \<^verbatim>\<open>disconnectUnlocked\<close> tests the row at the position \<open>pos\<close> of the loop, not the row
  of the server at that position.
\<close>

fun disable_incoming :: "string list option list \<Rightarrow> int \<Rightarrow> int \<Rightarrow> int list \<Rightarrow> iname Network \<Rightarrow> iname Network go" where
  "disable_incoming es i pos [] net = Inr net"
| "disable_incoming es i pos (f # from) net =
     bindG (go_index es pos) (\<lambda>row.
     bindG (if row \<noteq> None then enable_end False es f i net else Inr net)
       (disable_incoming es i (pos + 1) from))"

definition disable_outgoing :: "string list option list \<Rightarrow> int \<Rightarrow> int \<Rightarrow> iname Network \<Rightarrow> iname Network go" where
  "disable_outgoing es i f net =
     bindG (go_index es i) (\<lambda>row. if row \<noteq> None then enable_end False es i f net else Inr net)"

definition disconnectUnlocked ::
  "int \<Rightarrow> int list \<Rightarrow> ('s, 'b, 'd, 'v, 'z) config_scheme \<Rightarrow> ('s, 'b, 'd, 'v, 'z) config_scheme go" where
  "disconnectUnlocked i from cfg =
     bindG (foldG (disable_outgoing (cf_endnames cfg) i) from (cf_net cfg)) (\<lambda>net.
     mapG (\<lambda>net'. cfg\<lparr>cf_net := net'\<rparr>) (disable_incoming (cf_endnames cfg) i 0 from net))"

definition All :: "('s, 'b, 'd, 'v, 'z) config_scheme \<Rightarrow> int list" where
  "All cfg = map int [0..<cf_n cfg]"

definition ConnectAll :: "('s, 'b, 'd, 'v, 'z) config_scheme \<Rightarrow> ('s, 'b, 'd, 'v, 'z) config_scheme go" where
  "ConnectAll cfg = foldG (\<lambda>i c. connectUnlocked i (All c) c) (All cfg) cfg"

definition partition_side ::
  "int list \<Rightarrow> int list \<Rightarrow> ('s, 'b, 'd, 'v, 'z) config_scheme \<Rightarrow> ('s, 'b, 'd, 'v, 'z) config_scheme go" where
  "partition_side p q = foldG (\<lambda>i c. bindG (disconnectUnlocked i q c) (connectUnlocked i p)) p"

definition partition ::
  "int list \<Rightarrow> int list \<Rightarrow> ('s, 'b, 'd, 'v, 'z) config_scheme \<Rightarrow> ('s, 'b, 'd, 'v, 'z) config_scheme go" where
  "partition p1 p2 cfg = bindG (partition_side p1 p2 cfg) (partition_side p2 p1)"

section \<open>Starting and shutting down\<close>

text \<open>
  \<open>pers\<close> selects the storage of an instance, \<open>kill\<close> is the \<^verbatim>\<open>Kill\<close> method of the server, \<open>start\<close> makes an
  instance on a storage, \<open>services\<close> are the services that are added for the instance at an address.
\<close>

definition saved_persister ::
  "('s \<Rightarrow> ('b, 'd) Persister) \<Rightarrow> ('s, 'b, 'd, 'v, 'z) config_scheme \<Rightarrow> ('b, 'd) saved_ref \<Rightarrow> ('b, 'd) Persister" where
  "saved_persister pers cfg r = (case r of Own p \<Rightarrow> p | OfInstance a \<Rightarrow> pers (cf_instances cfg ! a))"

definition copy_saved ::
  "('s \<Rightarrow> ('b, 'd) Persister) \<Rightarrow> int \<Rightarrow> ('s, 'b, 'd, 'v, 'z) config_scheme \<Rightarrow> ('s, 'b, 'd, 'v, 'z) config_scheme go" where
  "copy_saved pers i cfg =
     bindG (go_index (cf_saved cfg) i) (\<lambda>r.
     mapG (\<lambda>s. cfg\<lparr>cf_saved := s\<rparr>)
       (go_update (cf_saved cfg) i (map_option (\<lambda>r. Own (Copy (saved_persister pers cfg r))) r)))"

definition kill_current ::
  "('s \<Rightarrow> 's) \<Rightarrow> int \<Rightarrow> ('s, 'b, 'd, 'v, 'z) config_scheme \<Rightarrow> ('s, 'b, 'd, 'v, 'z) config_scheme go" where
  "kill_current kill i cfg =
     bindG (go_index (cf_servers cfg) i) (\<lambda>a.
       case a of
         None \<Rightarrow> Inr cfg
       | Some a \<Rightarrow>
           mapG (\<lambda>ss. cfg\<lparr>cf_instances := (cf_instances cfg)[a := kill (cf_instances cfg ! a)], cf_servers := ss\<rparr>)
             (go_update (cf_servers cfg) i None))"

definition ShutdownServer ::
  "('s \<Rightarrow> ('b, 'd) Persister) \<Rightarrow> ('s \<Rightarrow> 's) \<Rightarrow> int \<Rightarrow> ('s, 'b, 'd, 'v, 'z) config_scheme \<Rightarrow>
   ('s, 'b, 'd, 'v, 'z) config_scheme go" where
  "ShutdownServer pers kill i cfg =
     bindG (disconnectUnlocked i (All cfg) cfg) (\<lambda>c1.
     bindG (copy_saved pers i (c1\<lparr>cf_net := DeleteServer (Num i) (cf_net c1)\<rparr>)) (kill_current kill i))"

text \<open>Making and connecting the ends of one row; a name that is taken is fatal.\<close>

fun make_ends :: "string list \<Rightarrow> int \<Rightarrow> iname Network \<Rightarrow> iname Network go" where
  "make_ends [] j net = Inr net"
| "make_ends (e # es) j net =
     bindG (MakeEnd (Port e) net) (\<lambda>net'. make_ends es (j + 1) (Connect (Port e) (Num j) net'))"

definition fresh_saved ::
  "('s \<Rightarrow> ('b, 'd) Persister) \<Rightarrow> int \<Rightarrow> ('s, 'b, 'd, 'v, 'z) config_scheme \<Rightarrow> ('b, 'd) Persister go" where
  "fresh_saved pers i cfg =
     mapG (\<lambda>r. case r of None \<Rightarrow> MakePersister | Some r \<Rightarrow> Copy (saved_persister pers cfg r)) (go_index (cf_saved cfg) i)"

definition add_instance ::
  "(nat \<Rightarrow> (nat, 'v) Service list) \<Rightarrow> int \<Rightarrow> 's \<Rightarrow> ('s, 'b, 'd, 'v, 'z) config_scheme \<Rightarrow>
   ('s, 'b, 'd, 'v, 'z) config_scheme go" where
  "add_instance services i s cfg =
     (let a = length (cf_instances cfg);
          srv = fold (\<lambda>svc rs. AddService rs svc) (services a) MakeServer
      in bindG (go_update (cf_servers cfg) i (Some a)) (\<lambda>ss.
         mapG (\<lambda>sv. cfg\<lparr>cf_instances := cf_instances cfg @ [s], cf_servers := ss, cf_saved := sv,
                        cf_heap := cf_heap cfg @ [srv],
                        cf_net := AddServer (Num i) (length (cf_heap cfg)) (cf_net cfg)\<rparr>)
           (go_update (cf_saved cfg) i (Some (OfInstance a)))))"

definition StartServer ::
  "('s \<Rightarrow> ('b, 'd) Persister) \<Rightarrow> (('b, 'd) Persister \<Rightarrow> 's) \<Rightarrow> (nat \<Rightarrow> (nat, 'v) Service list) \<Rightarrow> (nat \<Rightarrow> string) \<Rightarrow>
   int \<Rightarrow> ('s, 'b, 'd, 'v, 'z) config_scheme \<Rightarrow> ('s, 'b, 'd, 'v, 'z) config_scheme go" where
  "StartServer pers start services names i cfg =
     bindG (go_update (cf_endnames cfg) i (Some (map names [0..<cf_n cfg]))) (\<lambda>es.
     bindG (make_ends (map names [0..<cf_n cfg]) 0 (cf_net cfg)) (\<lambda>net.
     bindG (fresh_saved pers i cfg) (\<lambda>p.
       add_instance services i (start p) (cfg\<lparr>cf_endnames := es, cf_net := net\<rparr>))))"

section \<open>Leaders and partitions\<close>

fun leader_loop :: "('s \<Rightarrow> ('c, 'e) Raft) \<Rightarrow> 's list \<Rightarrow> nat option list \<Rightarrow> int \<Rightarrow> (bool \<times> int) go" where
  "leader_loop rf insts [] i = Inr (False, 0)"
| "leader_loop rf insts (a # as) i =
     (case a of
        None \<Rightarrow> Inl NilDereference
      | Some a \<Rightarrow> if snd (GetState (rf (insts ! a))) then Inr (True, i) else leader_loop rf insts as (i + 1))"

definition harness_Leader :: "('s \<Rightarrow> ('c, 'e) Raft) \<Rightarrow> ('s, 'b, 'd, 'v, 'z) config_scheme \<Rightarrow> (bool \<times> int) go" where
  "harness_Leader rf cfg = leader_loop rf (cf_instances cfg) (cf_servers cfg) 0"

fun make_partition_loop :: "int \<Rightarrow> int list \<Rightarrow> int \<Rightarrow> int list \<Rightarrow> int list \<Rightarrow> (int list \<times> int list) go" where
  "make_partition_loop l [] j p1 p2 = Inr (p1, p2)"
| "make_partition_loop l (i # is) j p1 p2 =
     (if i \<noteq> l then
        (if j < int (length p1)
         then bindG (go_update p1 j i) (\<lambda>p1'. make_partition_loop l is (j + 1) p1' p2)
         else bindG (go_update p2 (j - int (length p1)) i) (\<lambda>p2'. make_partition_loop l is (j + 1) p1 p2'))
      else make_partition_loop l is j p1 p2)"

definition make_partition ::
  "('s \<Rightarrow> ('c, 'e) Raft) \<Rightarrow> ('s, 'b, 'd, 'v, 'z) config_scheme \<Rightarrow> (int list \<times> int list) go" where
  "make_partition rf cfg =
     bindG (harness_Leader rf cfg) (\<lambda>(_, l).
     bindG (make_partition_loop l (All cfg) 0 (replicate (cf_n cfg div 2 + 1) 0) (replicate (cf_n cfg div 2) 0)) (\<lambda>(p1, p2).
       mapG (\<lambda>p2'. (p1, p2')) (go_update p2 (int (length p2) - 1) l)))"

section \<open>Sizes, time and statistics\<close>

fun max_size :: "('s \<Rightarrow> ('b, 'd) Persister) \<Rightarrow> (('b, 'd) Persister \<Rightarrow> int) \<Rightarrow> ('s, 'b, 'd, 'v, 'z) config_scheme \<Rightarrow>
    ('b, 'd) saved_ref option list \<Rightarrow> int \<Rightarrow> int go" where
  "max_size pers size_of cfg [] m = Inr m"
| "max_size pers size_of cfg (r # rs) m =
     (case r of
        None \<Rightarrow> Inl NilDereference
      | Some r \<Rightarrow> let n = size_of (saved_persister pers cfg r) in max_size pers size_of cfg rs (if n > m then n else m))"

definition LogSize ::
  "('s \<Rightarrow> ('b, 'd) Persister) \<Rightarrow> ('b list \<Rightarrow> int) \<Rightarrow> ('s, 'b, 'd, 'v, 'z) config_scheme \<Rightarrow> int go" where
  "LogSize pers len cfg = max_size pers (RaftStateSize len) cfg (cf_saved cfg) 0"

definition harness_SnapshotSize ::
  "('s \<Rightarrow> ('b, 'd) Persister) \<Rightarrow> ('d list \<Rightarrow> int) \<Rightarrow> ('s, 'b, 'd, 'v, 'z) config_scheme \<Rightarrow> int go" where
  "harness_SnapshotSize pers len cfg = max_size pers (SnapshotSize len) cfg (cf_saved cfg) 0"

abbreviation (input) Second :: int where "Second \<equiv> 1000000000"

text \<open>\<open>failed\<close> is \<^verbatim>\<open>t.Failed()\<close>, \<open>now\<close> the clock in nanoseconds.\<close>

definition checkTimeout :: "bool \<Rightarrow> int \<Rightarrow> ('s, 'b, 'd, 'v, 'z) config_scheme \<Rightarrow> unit go" where
  "checkTimeout failed now cfg = (if \<not> failed \<and> now - cf_start cfg > 120 * Second then Inl TestFatal else Inr ())"

definition cleanup ::
  "('s \<Rightarrow> 's) \<Rightarrow> bool \<Rightarrow> int \<Rightarrow> ('s, 'b, 'd, 'v, 'z) config_scheme \<Rightarrow> ('s, 'b, 'd, 'v, 'z) config_scheme go" where
  "cleanup kill failed now cfg =
     (let insts = fold (\<lambda>a is. case a of None \<Rightarrow> is | Some a \<Rightarrow> is[a := kill (is ! a)]) (cf_servers cfg) (cf_instances cfg)
      in bindG (Cleanup (cf_net cfg)) (\<lambda>net.
         mapG (\<lambda>_. cfg\<lparr>cf_instances := insts, cf_net := net\<rparr>) (checkTimeout failed now cfg)))"

definition rpcTotal :: "('s, 'b, 'd, 'v, 'z) config_scheme \<Rightarrow> int" where
  "rpcTotal cfg = GetTotalCount (cf_net cfg)"

definition harness_begin :: "int \<Rightarrow> ('s, 'b, 'd, 'v) kv_config \<Rightarrow> ('s, 'b, 'd, 'v) kv_config" where
  "harness_begin now cfg = cfg\<lparr>cf_t0 := now, cf_rpcs0 := rpcTotal cfg, cf_ops := 0\<rparr>"

definition harness_op :: "('s, 'b, 'd, 'v) kv_config \<Rightarrow> ('s, 'b, 'd, 'v) kv_config" where
  "harness_op cfg = cfg\<lparr>cf_ops := cf_ops cfg + 1\<rparr>"

text \<open>The numbers that \<^verbatim>\<open>end\<close> prints: time in nanoseconds, peers, RPCs and operations.\<close>

definition harness_end :: "bool \<Rightarrow> int \<Rightarrow> ('s, 'b, 'd, 'v) kv_config \<Rightarrow> (int \<times> nat \<times> int \<times> int) option go" where
  "harness_end failed now cfg =
     mapG (\<lambda>_. if \<not> failed then Some (now - cf_t0 cfg, cf_n cfg, rpcTotal cfg - cf_rpcs0 cfg, sint (cf_ops cfg)) else None)
       (checkTimeout failed now cfg)"

section \<open>Clients\<close>

text \<open>\<open>rnd i\<close> is what \<^verbatim>\<open>rand.Intn(i + 1)\<close> draws from in turn \<open>i\<close>.\<close>

definition random_handles :: "(nat \<Rightarrow> nat) \<Rightarrow> 'a list \<Rightarrow> 'a list" where
  "random_handles rnd kvh =
     fold (\<lambda>i sa. let j = rnd i mod (i + 1) in sa[i := sa ! j, j := sa ! i]) [0..<length kvh] kvh"

definition enable_client :: "bool \<Rightarrow> string list \<Rightarrow> int list \<Rightarrow> iname Network \<Rightarrow> iname Network go" where
  "enable_client yes names to =
     foldG (\<lambda>j net. mapG (\<lambda>e. Enable (Port e) yes net) (go_index names j)) to"

definition ConnectClientUnlocked ::
  "nat \<Rightarrow> int list \<Rightarrow> ('s, 'b, 'd, 'v) kv_config \<Rightarrow> ('s, 'b, 'd, 'v) kv_config go" where
  "ConnectClientUnlocked ck to cfg =
     mapG (\<lambda>net. cfg\<lparr>cf_net := net\<rparr>)
       (enable_client True (case cf_clerks cfg ck of None \<Rightarrow> [] | Some es \<Rightarrow> es) to (cf_net cfg))"

definition DisconnectClientUnlocked ::
  "nat \<Rightarrow> int list \<Rightarrow> ('s, 'b, 'd, 'v) kv_config \<Rightarrow> ('s, 'b, 'd, 'v) kv_config go" where
  "DisconnectClientUnlocked ck from cfg =
     mapG (\<lambda>net. cfg\<lparr>cf_net := net\<rparr>)
       (enable_client False (case cf_clerks cfg ck of None \<Rightarrow> [] | Some es \<Rightarrow> es) from (cf_net cfg))"

text \<open>The result is the address of the clerk, its ends in the order it uses them, and the new state.\<close>

definition makeClient ::
  "(nat \<Rightarrow> string) \<Rightarrow> (nat \<Rightarrow> nat) \<Rightarrow> int list \<Rightarrow> ('s, 'b, 'd, 'v) kv_config \<Rightarrow>
   (nat \<times> string list \<times> ('s, 'b, 'd, 'v) kv_config) go" where
  "makeClient names rnd to cfg =
     (let es = map names [0..<cf_n cfg]; ck = cf_nextClerk cfg in
      bindG (make_ends es 0 (cf_net cfg)) (\<lambda>net.
      mapG (\<lambda>cfg'. (ck, random_handles rnd es, cfg'))
        (ConnectClientUnlocked ck to
           (cfg\<lparr>cf_net := net, cf_clerks := (cf_clerks cfg)(ck \<mapsto> es), cf_nextClerk := Suc ck,
                cf_nextClientId := cf_nextClientId cfg + 1\<rparr>))))"

text \<open>The files that \<^verbatim>\<open>os.Remove\<close> is asked to remove are not there: ends have no files.\<close>

definition deleteClient :: "nat \<Rightarrow> ('s, 'b, 'd, 'v) kv_config \<Rightarrow> ('s, 'b, 'd, 'v) kv_config" where
  "deleteClient ck cfg = cfg\<lparr>cf_clerks := (cf_clerks cfg)(ck := None)\<rparr>"

section \<open>The two harnesses\<close>

text \<open>A row of random names for every server; \<open>start i\<close> makes an instance of server \<open>i\<close> on a storage.\<close>

definition make_config ::
  "('s \<Rightarrow> ('b, 'd) Persister) \<Rightarrow> (int \<Rightarrow> ('b, 'd) Persister \<Rightarrow> 's) \<Rightarrow> (nat \<Rightarrow> (nat, 'v) Service list) \<Rightarrow>
   (int \<Rightarrow> nat \<Rightarrow> string) \<Rightarrow> int \<Rightarrow> nat \<Rightarrow> bool \<Rightarrow> int \<Rightarrow> ('s, 'b, 'd, 'v) kv_config go" where
  "make_config pers start services names now n unreliable maxstate =
     (let cfg = \<lparr>cf_net = MakeNetwork, cf_heap = [], cf_n = n, cf_instances = [], cf_servers = replicate n None,
                 cf_saved = replicate n None, cf_endnames = replicate n None, cf_start = now,
                 cf_clerks = Map.empty, cf_nextClerk = 0, cf_nextClientId = int n + 1000,
                 cf_maxraftstate = maxstate, cf_t0 = 0, cf_rpcs0 = 0, cf_ops = 0\<rparr>
      in bindG (foldG (\<lambda>i. StartServer pers (start i) services (names i) i) (map int [0..<n]) cfg) (\<lambda>cfg1.
         mapG (\<lambda>cfg2. cfg2\<lparr>cf_net := Reliable (\<not> unreliable) (cf_net cfg2)\<rparr>) (ConnectAll cfg1)))"

definition kv_persister :: "KVServer \<Rightarrow> (Op gobval, kvgob) Persister" where
  "kv_persister kv = Persister (kvrf kv)"

text \<open>The methods of the server and of its Raft peer, as reflection lists them, are arguments.\<close>

definition kv_services :: "(nat, 'v) Method list \<Rightarrow> (nat, 'v) Method list \<Rightarrow> nat \<Rightarrow> (nat, 'v) Service list" where
  "kv_services kvm rfm a = [MakeService ''KVServer'' kvm a, MakeService ''Raft'' rfm a]"

definition kv_StartServer ::
  "(nat, 'v) Method list \<Rightarrow> (nat, 'v) Method list \<Rightarrow> int \<Rightarrow> int \<Rightarrow> (nat \<Rightarrow> string) \<Rightarrow> int \<Rightarrow>
   (KVServer, Op gobval, kvgob, 'v) kv_config \<Rightarrow> (KVServer, Op gobval, kvgob, 'v) kv_config go" where
  "kv_StartServer kvm rfm now rnd names i cfg =
     StartServer kv_persister (\<lambda>p. StartKVServer now rnd (cf_n cfg) i p (cf_maxraftstate cfg)) (kv_services kvm rfm) names i cfg"

definition kv_ShutdownServer ::
  "int \<Rightarrow> (KVServer, Op gobval, kvgob, 'v) kv_config \<Rightarrow> (KVServer, Op gobval, kvgob, 'v) kv_config go" where
  "kv_ShutdownServer = ShutdownServer kv_persister kv_Kill"

definition kv_make_config ::
  "(nat, 'v) Method list \<Rightarrow> (nat, 'v) Method list \<Rightarrow> (int \<Rightarrow> int) \<Rightarrow> (int \<Rightarrow> nat \<Rightarrow> string) \<Rightarrow> int \<Rightarrow> nat \<Rightarrow> bool \<Rightarrow> int \<Rightarrow>
   (KVServer, Op gobval, kvgob, 'v) kv_config go" where
  "kv_make_config kvm rfm rnd names now n unreliable maxstate =
     make_config kv_persister (\<lambda>i p. StartKVServer now (rnd i) n i p maxstate) (kv_services kvm rfm) names now n unreliable maxstate"

definition sm_persister :: "('c, 'd) ShardMaster \<Rightarrow> ('c gobval, 'd) Persister" where
  "sm_persister sm = Persister (sm_rf sm)"

definition sm_services :: "(nat, 'v) Method list \<Rightarrow> (nat, 'v) Method list \<Rightarrow> nat \<Rightarrow> (nat, 'v) Service list" where
  "sm_services smm rfm a = [MakeService ''ShardMaster'' smm a, MakeService ''Raft'' rfm a]"

definition smcfg_StartServer ::
  "(nat, 'v) Method list \<Rightarrow> (nat, 'v) Method list \<Rightarrow> int \<Rightarrow> int \<Rightarrow> (nat \<Rightarrow> string) \<Rightarrow> int \<Rightarrow>
   (('c, 'd) ShardMaster, 'c gobval, 'd, 'v) kv_config \<Rightarrow> (('c, 'd) ShardMaster, 'c gobval, 'd, 'v) kv_config go" where
  "smcfg_StartServer smm rfm now rnd names i cfg =
     StartServer sm_persister (\<lambda>p. sm_StartServer now rnd (cf_n cfg) i p) (sm_services smm rfm) names i cfg"

definition smcfg_ShutdownServer ::
  "int \<Rightarrow> (('c, 'd) ShardMaster, 'c gobval, 'd, 'v) kv_config \<Rightarrow> (('c, 'd) ShardMaster, 'c gobval, 'd, 'v) kv_config go" where
  "smcfg_ShutdownServer = ShutdownServer sm_persister sm_Kill"

text \<open>The harness of the shard master has no limit on the size of the state; its field is not used.\<close>

definition smcfg_make_config ::
  "(nat, 'v) Method list \<Rightarrow> (nat, 'v) Method list \<Rightarrow> (int \<Rightarrow> int) \<Rightarrow> (int \<Rightarrow> nat \<Rightarrow> string) \<Rightarrow> int \<Rightarrow> nat \<Rightarrow> bool \<Rightarrow>
   (('c, 'd) ShardMaster, 'c gobval, 'd, 'v) kv_config go" where
  "smcfg_make_config smm rfm rnd names now n unreliable =
     make_config sm_persister (\<lambda>i p. sm_StartServer now (rnd i) n i p) (sm_services smm rfm) names now n unreliable (-1)"

definition smcfg_cleanup ::
  "bool \<Rightarrow> int \<Rightarrow> (('c, 'd) ShardMaster, 'c gobval, 'd, 'v) kv_config \<Rightarrow> (('c, 'd) ShardMaster, 'c gobval, 'd, 'v) kv_config go" where
  "smcfg_cleanup = cleanup sm_Kill"

definition smcfg_LogSize :: "('c gobval list \<Rightarrow> int) \<Rightarrow> (('c, 'd) ShardMaster, 'c gobval, 'd, 'v) kv_config \<Rightarrow> int go" where
  "smcfg_LogSize = LogSize sm_persister"

definition smcfg_Leader :: "(('c, 'd) ShardMaster, 'c gobval, 'd, 'v) kv_config \<Rightarrow> (bool \<times> int) go" where
  "smcfg_Leader = harness_Leader sm_rf"

definition smcfg_make_partition :: "(('c, 'd) ShardMaster, 'c gobval, 'd, 'v) kv_config \<Rightarrow> (int list \<times> int list) go" where
  "smcfg_make_partition = make_partition sm_rf"

end
