(* ===== verification/Harness_Links.thy ===== *)
theory Harness_Links
  imports Harness
begin

text \<open>
  What the harness does to the connections between its servers. Abstractly a cluster is a matrix of
  links, \<open>link cfg i j\<close> saying that server \<open>i\<close> may send to server \<open>j\<close>; connecting, disconnecting,
  partitioning, starting and shutting down are operations on that matrix, and the theorems show
  that the operations on names and ends implement them.
\<close>

section \<open>The wiring invariant\<close>

definition valid :: "('s, 'b, 'd, 'v, 'z) config_scheme \<Rightarrow> int \<Rightarrow> bool" where
  "valid cfg i \<longleftrightarrow> 0 \<le> i \<and> i < int (cf_n cfg)"

definition started :: "('s, 'b, 'd, 'v, 'z) config_scheme \<Rightarrow> int \<Rightarrow> bool" where
  "started cfg i \<longleftrightarrow> valid cfg i \<and> cf_endnames cfg ! nat i \<noteq> None"

text \<open>The name of the end from \<open>i\<close> to \<open>j\<close>.\<close>

definition port :: "('s, 'b, 'd, 'v, 'z) config_scheme \<Rightarrow> int \<Rightarrow> int \<Rightarrow> iname" where
  "port cfg i j = Port (the (cf_endnames cfg ! nat i) ! nat j)"

definition link :: "('s, 'b, 'd, 'v, 'z) config_scheme \<Rightarrow> int \<Rightarrow> int \<Rightarrow> bool" where
  "link cfg i j = enabled (cf_net cfg) (port cfg i j)"

text \<open>All services of a server object belong to the instance at an address.\<close>

definition serves :: "('o, 'v) Server \<Rightarrow> 'o \<Rightarrow> bool" where
  "serves rs a \<longleftrightarrow> (\<forall>svc \<in> Map.ran (rs_services rs). svc_rcvr svc = a)"

text \<open>
  Every end in use exists, leads to its server, and has a name of its own; the lists have an entry
  for every server.
\<close>

definition wired :: "('s, 'b, 'd, 'v, 'z) config_scheme \<Rightarrow> bool" where
  "wired cfg \<longleftrightarrow>
     length (cf_endnames cfg) = cf_n cfg \<and> length (cf_servers cfg) = cf_n cfg \<and> length (cf_saved cfg) = cf_n cfg \<and>
     (\<forall>i. started cfg i \<longrightarrow> length (the (cf_endnames cfg ! nat i)) = cf_n cfg) \<and>
     (\<forall>i j. started cfg i \<longrightarrow> valid cfg j \<longrightarrow>
        ends (cf_net cfg) (port cfg i j) \<noteq> None \<and> connections (cf_net cfg) (port cfg i j) = Some (Num j)) \<and>
     (\<forall>i j i' j'. started cfg i \<longrightarrow> valid cfg j \<longrightarrow> started cfg i' \<longrightarrow> valid cfg j' \<longrightarrow>
        port cfg i j = port cfg i' j' \<longrightarrow> i = i' \<and> j = j')"

lemma endname_started:
  assumes "wired cfg" "started cfg i" "valid cfg j"
  shows "endname (cf_endnames cfg) i j = Inr (the (cf_endnames cfg ! nat i) ! nat j)"
proof -
  obtain row where "cf_endnames cfg ! nat i = Some row" using assms(2) by (auto simp: started_def)
  with assms show ?thesis by (auto simp: endname_def wired_def started_def valid_def go_index_def)
qed

lemma enable_end_started:
  assumes "wired cfg" "started cfg i" "valid cfg j"
  shows "enable_end yes (cf_endnames cfg) i j net = Inr (Enable (port cfg i j) yes net)"
  by (simp add: enable_end_def endname_started [OF assms] port_def)

text \<open>Enabling or disabling a set of ends.\<close>

definition enable_set :: "bool \<Rightarrow> iname set \<Rightarrow> iname Network \<Rightarrow> iname Network" where
  "enable_set yes A net = net\<lparr>enabled := (\<lambda>e. if e \<in> A then yes else enabled net e)\<rparr>"

lemma enable_set_simps [simp]:
  "enable_set yes {} net = net"
  "enable_set yes B (Enable e yes net) = enable_set yes (insert e B) net"
  "enable_set yes B (enable_set yes C net) = enable_set yes (B \<union> C) net"
  "enabled (enable_set yes B net) e = (if e \<in> B then yes else enabled net e)"
  "ends (enable_set yes B net) = ends net" "connections (enable_set yes B net) = connections net"
  by (auto simp: enable_set_def Enable_def fun_eq_iff)

lemma foldG_enable:
  assumes "\<And>j net. j \<in> set js \<Longrightarrow> f j net = Inr (Enable (g j) yes net)"
  shows "foldG f js net = Inr (enable_set yes (g ` set js) net)"
  using assms by (induction js arbitrary: net) simp_all

lemma disable_incoming_started:
  assumes w: "wired cfg" and "\<forall>f \<in> set from. started cfg f" and "valid cfg i"
    and "\<forall>k. valid cfg k \<longrightarrow> started cfg k" and "0 \<le> pos" "pos + int (length from) \<le> int (cf_n cfg)"
  shows "disable_incoming (cf_endnames cfg) i pos from net =
    Inr (enable_set False ((\<lambda>f. port cfg f i) ` set from) net)"
  using assms(2,5,6)
proof (induction "from" arbitrary: pos net)
  case (Cons f "from")
  have "started cfg pos" using Cons.prems assms(4) by (simp add: valid_def)
  then have "go_index (cf_endnames cfg) pos = Inr (cf_endnames cfg ! nat pos)" "cf_endnames cfg ! nat pos \<noteq> None"
    using w Cons.prems by (auto simp: wired_def started_def)
  then show ?case using Cons enable_end_started [OF w, of f i] assms(3) by simp
qed simp

section \<open>Connecting and disconnecting\<close>

text \<open>The two operations change nothing but the links they are asked to change.\<close>

definition set_links :: "bool \<Rightarrow> int \<Rightarrow> int list \<Rightarrow> ('s, 'b, 'd, 'v, 'z) config_scheme \<Rightarrow> ('s, 'b, 'd, 'v, 'z) config_scheme" where
  "set_links yes i js cfg =
     cfg\<lparr>cf_net := enable_set yes (port cfg i ` set js \<union> (\<lambda>j. port cfg j i) ` set js) (cf_net cfg)\<rparr>"

lemma set_links_simps [simp]:
  "port (set_links yes i js cfg) = port cfg" "started (set_links yes i js cfg) = started cfg"
  "valid (set_links yes i js cfg) = valid cfg" "cf_n (set_links yes i js cfg) = cf_n cfg"
  "cf_endnames (set_links yes i js cfg) = cf_endnames cfg" "cf_saved (set_links yes i js cfg) = cf_saved cfg"
  "cf_servers (set_links yes i js cfg) = cf_servers cfg" "cf_instances (set_links yes i js cfg) = cf_instances cfg"
  "cf_net (set_links yes i js cfg) = enable_set yes (port cfg i ` set js \<union> (\<lambda>j. port cfg j i) ` set js) (cf_net cfg)"
  "wired (set_links yes i js cfg) = wired cfg"
  by (simp_all add: set_links_def fun_eq_iff port_def started_def valid_def wired_def)

lemma set_links_link:
  assumes "wired cfg" "started cfg i" "\<forall>j \<in> set js. started cfg j" "started cfg a" "valid cfg b"
  shows "link (set_links yes i js cfg) a b \<longleftrightarrow>
    (if a = i \<and> b \<in> set js \<or> b = i \<and> a \<in> set js then yes else link cfg a b)"
proof -
  have v: "valid cfg k" if "started cfg k" for k using that by (simp add: started_def)
  have inj: "port cfg a b = port cfg a' b' \<longleftrightarrow> a = a' \<and> b = b'" if "started cfg a'" "valid cfg b'" for a' b'
    using assms(1,4,5) that by (auto simp: wired_def)
  have "port cfg a b \<in> port cfg i ` set js \<longleftrightarrow> a = i \<and> b \<in> set js"
    using inj [OF assms(2)] assms(3) v by (auto simp: image_iff)
  moreover have "port cfg a b \<in> (\<lambda>j. port cfg j i) ` set js \<longleftrightarrow> b = i \<and> a \<in> set js"
    using inj assms(3) v [OF assms(2)] by (auto simp: image_iff)
  ultimately show ?thesis by (simp add: link_def Un_iff)
qed

lemma connectUnlocked_links:
  assumes "wired cfg" "started cfg i" "\<forall>j \<in> set to. started cfg j"
  shows "connectUnlocked i to cfg = Inr (set_links True i to cfg)"
proof -
  have v: "valid cfg k" if "started cfg k" for k using that by (simp add: started_def)
  have "foldG (\<lambda>j. enable_end True (cf_endnames cfg) i j) to net = Inr (enable_set True (port cfg i ` set to) net)" for net
    by (rule foldG_enable) (use assms v in \<open>simp add: enable_end_started\<close>)
  moreover have "foldG (\<lambda>j. enable_end True (cf_endnames cfg) j i) to net = Inr (enable_set True ((\<lambda>j. port cfg j i) ` set to) net)" for net
    by (rule foldG_enable) (use assms v in \<open>simp add: enable_end_started\<close>)
  ultimately show ?thesis
    by (simp add: connectUnlocked_def set_links_def Un_commute)
qed

lemma disconnectUnlocked_links:
  assumes "wired cfg" "valid cfg i" "\<forall>k. valid cfg k \<longrightarrow> started cfg k" "\<forall>j \<in> set from. valid cfg j"
    and "length from \<le> cf_n cfg"
  shows "disconnectUnlocked i from cfg = Inr (set_links False i from cfg)"
proof -
  have row: "go_index (cf_endnames cfg) i = Inr (cf_endnames cfg ! nat i)" "cf_endnames cfg ! nat i \<noteq> None"
    using assms(1-3) by (auto simp: wired_def valid_def started_def)
  have "foldG (disable_outgoing (cf_endnames cfg) i) from net = Inr (enable_set False (port cfg i ` set from) net)" for net
    by (rule foldG_enable) (use assms row in \<open>simp add: disable_outgoing_def enable_end_started\<close>)
  moreover have "disable_incoming (cf_endnames cfg) i 0 from net = Inr (enable_set False ((\<lambda>f. port cfg f i) ` set from) net)" for net
    using assms by (intro disable_incoming_started) auto
  ultimately show ?thesis
    by (simp add: disconnectUnlocked_def set_links_def Un_commute)
qed

section \<open>Partitions\<close>

text \<open>A configuration that differs in the enabled ends only.\<close>

definition relinked :: "('s, 'b, 'd, 'v, 'z) config_scheme \<Rightarrow> ('s, 'b, 'd, 'v, 'z) config_scheme \<Rightarrow> bool" where
  "relinked cfg cfg' \<longleftrightarrow> (\<exists>en. cfg' = cfg\<lparr>cf_net := (cf_net cfg)\<lparr>enabled := en\<rparr>\<rparr>)"

lemma relinked_refl: "relinked cfg cfg"
  unfolding relinked_def by (rule exI [of _ "enabled (cf_net cfg)"]) simp

lemma relinked_trans: "relinked a b \<Longrightarrow> relinked b c \<Longrightarrow> relinked a c"
  by (auto simp: relinked_def)

lemma relinked_set_links: "relinked cfg (set_links yes i js cfg)"
  by (auto simp: relinked_def set_links_def enable_set_def)

lemma relinkedD:
  assumes "relinked cfg cfg'"
  shows "port cfg' = port cfg" "started cfg' = started cfg" "valid cfg' = valid cfg" "wired cfg' = wired cfg"
    "cf_n cfg' = cf_n cfg" "cf_instances cfg' = cf_instances cfg" "cf_servers cfg' = cf_servers cfg"
    "cf_saved cfg' = cf_saved cfg" "cf_endnames cfg' = cf_endnames cfg" "All cfg' = All cfg"
proof -
  obtain en where "cfg' = cfg\<lparr>cf_net := (cf_net cfg)\<lparr>enabled := en\<rparr>\<rparr>" using assms by (auto simp: relinked_def)
  then show "port cfg' = port cfg" "started cfg' = started cfg" "valid cfg' = valid cfg" "wired cfg' = wired cfg"
    "cf_n cfg' = cf_n cfg" "cf_instances cfg' = cf_instances cfg" "cf_servers cfg' = cf_servers cfg"
    "cf_saved cfg' = cf_saved cfg" "cf_endnames cfg' = cf_endnames cfg" "All cfg' = All cfg"
    by (simp_all add: fun_eq_iff port_def started_def valid_def wired_def All_def)
qed

lemma partition_turns:
  assumes w: "wired cfg" and all: "\<forall>k. valid cfg k \<longrightarrow> started cfg k"
    and p: "\<forall>i \<in> set p. valid cfg i" and q: "\<forall>i \<in> set q. valid cfg i" "length q \<le> cf_n cfg"
    and disj: "set p \<inter> set q = {}" and "set ps \<subseteq> set p"
  shows "\<exists>cfg'. foldG (\<lambda>i c. bindG (disconnectUnlocked i q c) (connectUnlocked i p)) ps cfg = Inr cfg' \<and> relinked cfg cfg' \<and>
    (\<forall>a b. valid cfg a \<longrightarrow> valid cfg b \<longrightarrow>
      (link cfg' a b \<longleftrightarrow> a \<in> set ps \<and> b \<in> set p \<or> b \<in> set ps \<and> a \<in> set p \<or>
        link cfg a b \<and> \<not> (a \<in> set ps \<and> b \<in> set q) \<and> \<not> (b \<in> set ps \<and> a \<in> set q)))"
  using assms
proof (induction ps arbitrary: cfg)
  case Nil
  then show ?case by (auto intro: relinked_refl)
next
  case (Cons i ps)
  let ?c1 = "set_links False i q cfg" and ?c2 = "set_links True i p (set_links False i q cfg)"
  have i: "valid cfg i" "started cfg i" "i \<in> set p" using Cons.prems by auto
  have st: "\<forall>j \<in> set p. started cfg j" "\<forall>j \<in> set q. started cfg j" using Cons.prems by auto
  have "disconnectUnlocked i q cfg = Inr ?c1" using Cons.prems i by (intro disconnectUnlocked_links) auto
  moreover have "connectUnlocked i p ?c1 = Inr ?c2" using Cons.prems i st by (intro connectUnlocked_links) auto
  moreover have "relinked cfg ?c2" by (rule relinked_trans [OF relinked_set_links relinked_set_links])
  moreover obtain cfg' where c': "foldG (\<lambda>i c. bindG (disconnectUnlocked i q c) (connectUnlocked i p)) ps ?c2 = Inr cfg'" "relinked ?c2 cfg'"
    "\<forall>a b. valid cfg a \<longrightarrow> valid cfg b \<longrightarrow>
      (link cfg' a b \<longleftrightarrow> a \<in> set ps \<and> b \<in> set p \<or> b \<in> set ps \<and> a \<in> set p \<or>
        link ?c2 a b \<and> \<not> (a \<in> set ps \<and> b \<in> set q) \<and> \<not> (b \<in> set ps \<and> a \<in> set q))"
    using Cons.IH [of ?c2] Cons.prems by auto
  moreover have "link cfg' a b \<longleftrightarrow> a \<in> set (i # ps) \<and> b \<in> set p \<or> b \<in> set (i # ps) \<and> a \<in> set p \<or>
      link cfg a b \<and> \<not> (a \<in> set (i # ps) \<and> b \<in> set q) \<and> \<not> (b \<in> set (i # ps) \<and> a \<in> set q)"
    if v: "valid cfg a" "valid cfg b" for a b
  proof -
    have ab: "started cfg a" "started cfg b" using Cons.prems(2) v by auto
    have "link ?c1 a b \<longleftrightarrow> link cfg a b \<and> \<not> (a = i \<and> b \<in> set q) \<and> \<not> (b = i \<and> a \<in> set q)"
      using set_links_link [OF Cons.prems(1) i(2) st(2) ab(1) v(2), of False] by auto
    moreover have "link ?c2 a b \<longleftrightarrow> a = i \<and> b \<in> set p \<or> b = i \<and> a \<in> set p \<or> link ?c1 a b"
      using set_links_link [of ?c1 i p a b True] Cons.prems(1) i(2) st(1) ab(1) v(2) by auto
    ultimately show ?thesis using c'(3) v disj i(3) Cons.prems(7) by (simp only: set_simps insert_iff) blast
  qed
  ultimately show ?case by (intro exI [of _ cfg']) (simp add: relinked_trans)
qed

lemma partition_links:
  assumes w: "wired cfg" and all: "\<forall>k. valid cfg k \<longrightarrow> started cfg k"
    and p: "\<forall>i \<in> set p1 \<union> set p2. valid cfg i" "length p1 \<le> cf_n cfg" "length p2 \<le> cf_n cfg"
    and disj: "set p1 \<inter> set p2 = {}"
  shows "\<exists>cfg'. partition p1 p2 cfg = Inr cfg' \<and> relinked cfg cfg' \<and>
    (\<forall>a b. valid cfg a \<longrightarrow> valid cfg b \<longrightarrow>
      (link cfg' a b \<longleftrightarrow> a \<in> set p1 \<and> b \<in> set p1 \<or> a \<in> set p2 \<and> b \<in> set p2 \<or>
        link cfg a b \<and> \<not> (a \<in> set p1 \<and> b \<in> set p2) \<and> \<not> (a \<in> set p2 \<and> b \<in> set p1)))"
proof -
  have p1: "\<forall>i \<in> set p1. valid cfg i" and p2: "\<forall>i \<in> set p2. valid cfg i" using p(1) by auto
  from partition_turns [OF w all p1 p2 p(3) disj subset_refl] obtain c1
    where c1: "partition_side p1 p2 cfg = Inr c1" "relinked cfg c1"
      "\<And>a b. valid cfg a \<Longrightarrow> valid cfg b \<Longrightarrow> link c1 a b \<longleftrightarrow> a \<in> set p1 \<and> b \<in> set p1 \<or>
        link cfg a b \<and> \<not> (a \<in> set p1 \<and> b \<in> set p2) \<and> \<not> (b \<in> set p1 \<and> a \<in> set p2)"
    unfolding partition_side_def by blast
  note same = relinkedD [OF c1(2)]
  have w1: "wired c1" and all1: "\<forall>k. valid c1 k \<longrightarrow> started c1 k" using w all by (simp_all add: same)
  have p2': "\<forall>i \<in> set p2. valid c1 i" and p1': "\<forall>i \<in> set p1. valid c1 i" using p1 p2 by (simp_all add: same)
  have disj': "set p2 \<inter> set p1 = {}" using disj by blast
  from partition_turns [OF w1 all1 p2' p1' _ disj' subset_refl] p(2) obtain c2
    where c2: "partition_side p2 p1 c1 = Inr c2" "relinked c1 c2"
      "\<And>a b. valid cfg a \<Longrightarrow> valid cfg b \<Longrightarrow> link c2 a b \<longleftrightarrow> a \<in> set p2 \<and> b \<in> set p2 \<or>
        link c1 a b \<and> \<not> (a \<in> set p2 \<and> b \<in> set p1) \<and> \<not> (b \<in> set p2 \<and> a \<in> set p1)"
    unfolding partition_side_def by (auto simp: same)
  have "partition p1 p2 cfg = Inr c2" using c1(1) c2(1) by (simp add: partition_def)
  moreover have "relinked cfg c2" by (rule relinked_trans [OF c1(2) c2(2)])
  ultimately show ?thesis using c1(3) c2(3) disj by (intro exI [of _ c2]) blast
qed

section \<open>Making partitions\<close>

text \<open>The two arrays together are filled with the other servers in order.\<close>

lemma make_partition_loop_fills:
  assumes "length (filter (\<lambda>i. i \<noteq> l) is) + j \<le> length p1 + length p2"
  shows "\<exists>q1 q2. make_partition_loop l is (int j) p1 p2 = Inr (q1, q2) \<and> length q1 = length p1 \<and>
    q1 @ q2 = take j (p1 @ p2) @ filter (\<lambda>i. i \<noteq> l) is @ drop (j + length (filter (\<lambda>i. i \<noteq> l) is)) (p1 @ p2)"
  using assms
proof (induction "is" arbitrary: j p1 p2)
  case (Cons i "is")
  show ?case
  proof (cases "i = l")
    case False
    let ?o = "filter (\<lambda>i. i \<noteq> l) is"
    have j: "j < length (p1 @ p2)" using Cons.prems False by simp
    have upd: "take (Suc j) (as[j := i]) = take j as @ [i]" if "j < length as" for as :: "int list"
      using that by (simp add: take_Suc_conv_app_nth)
    show ?thesis
    proof (cases "j < length p1")
      case True
      from Cons.IH [of "Suc j" "p1[j := i]" p2] Cons.prems False obtain q1 q2 where
        "make_partition_loop l is (int (Suc j)) (p1[j := i]) p2 = Inr (q1, q2)" "length q1 = length p1"
        "q1 @ q2 = take (Suc j) (p1[j := i] @ p2) @ ?o @ drop (Suc j + length ?o) (p1[j := i] @ p2)" by auto
      moreover have "p1[j := i] @ p2 = (p1 @ p2)[j := i]" using True by (simp add: list_update_append)
      ultimately show ?thesis using True False upd [OF j] by (simp add: add.commute)
    next
      case high: False
      from Cons.IH [of "Suc j" p1 "p2[j - length p1 := i]"] Cons.prems False obtain q1 q2 where
        "make_partition_loop l is (int (Suc j)) p1 (p2[j - length p1 := i]) = Inr (q1, q2)" "length q1 = length p1"
        "q1 @ q2 = take (Suc j) (p1 @ p2[j - length p1 := i]) @ ?o @ drop (Suc j + length ?o) (p1 @ p2[j - length p1 := i])" by auto
      moreover have "p1 @ p2[j - length p1 := i] = (p1 @ p2)[j := i]" using high by (simp add: list_update_append)
      moreover have "go_update p2 (int j - int (length p1)) i = Inr (p2[j - length p1 := i])"
        using high j go_update_int [of "j - length p1" p2 i] by (simp add: of_nat_diff)
      ultimately show ?thesis using high False upd [OF j] by (simp add: add.commute)
    qed
  qed (use Cons in simp)
qed (simp del: take_append drop_append)

lemma filter_others: "l < n \<Longrightarrow> length (filter (\<lambda>i. i \<noteq> int l) (map int [0..<n])) = n - 1"
proof -
  assume "l < n"
  have "length (filter (\<lambda>i. i \<noteq> int l) (map int [0..<n])) = card (int ` {0..<n} - {int l})"
    by (subst distinct_card [symmetric]) (auto simp: distinct_map intro: arg_cong [where f = card])
  also have "\<dots> = n - 1" using \<open>l < n\<close> by (simp add: card_image)
  finally show ?thesis .
qed

lemma set_All: "set (All cfg) = {i. valid cfg i}"
proof -
  have "i \<in> int ` {0..<cf_n cfg}" if "0 \<le> i" "i < int (cf_n cfg)" for i
    using that by (intro image_eqI [of _ _ "nat i"]) auto
  then show ?thesis by (auto simp: All_def valid_def)
qed

lemma leader_loop_valid:
  "leader_loop rf insts as i = Inr (True, l) \<Longrightarrow> i \<le> l \<and> l < i + int (length as)"
proof (induction "as" arbitrary: i)
  case (Cons a "as")
  show ?case
  proof (cases a)
    case (Some k)
    with Cons.prems Cons.IH [of "i + 1"] show ?thesis by (auto split: if_splits)
  qed (use Cons.prems in simp)
qed simp

lemma make_partition_splits:
  assumes n: "odd (cf_n cfg)" "3 \<le> cf_n cfg" and l: "harness_Leader rf cfg = Inr (b, l)" "valid cfg l"
  shows "\<exists>p1 p2. make_partition rf cfg = Inr (p1, p2) \<and> distinct (p1 @ p2) \<and> set p1 \<union> set p2 = {i. valid cfg i} \<and>
    length p1 = cf_n cfg div 2 + 1 \<and> length p2 = cf_n cfg div 2 \<and> l \<in> set p2"
proof -
  let ?n = "cf_n cfg" and ?a1 = "replicate (cf_n cfg div 2 + 1) (0 :: int)" and ?a2 = "replicate (cf_n cfg div 2) (0 :: int)"
  let ?o = "filter (\<lambda>i. i \<noteq> l) (All cfg)"
  obtain m where m: "?n = 2 * m + 1" using n(1) by (elim oddE)
  obtain l' where l': "l = int l'" "l' < ?n" using l(2) by (metis valid_def nonneg_int_cases of_nat_less_iff)
  have len: "length ?o = 2 * m" using filter_others [OF l'(2)] l'(1) m by (simp add: All_def)
  obtain q1 q2 where q: "make_partition_loop l (All cfg) 0 ?a1 ?a2 = Inr (q1, q2)" "length q1 = m + 1"
    "q1 @ q2 = ?o @ drop (2 * m) (?a1 @ ?a2)"
    using make_partition_loop_fills [of l "All cfg" 0 ?a1 ?a2] len m by auto
  have q2: "length q2 = m" using arg_cong [OF q(3), of length] q(2) len m by simp
  have "?n div 2 + 1 + ?n div 2 = Suc (2 * m)" using m by simp
  then have "?a1 @ ?a2 = replicate (Suc (2 * m)) 0" by (simp only: replicate_add [symmetric])
  then have "drop (2 * m) (?a1 @ ?a2) = [0]" by (simp only: drop_replicate) simp
  with q(3) have cat: "q1 @ q2 = ?o @ [0]" by (simp only:)
  have pos: "0 < m" using m n(2) by linarith
  have "butlast (q1 @ q2) = ?o" using cat by simp
  moreover have ne: "q2 \<noteq> []" using q2 pos by auto
  ultimately have o: "?o = q1 @ butlast q2" by (simp add: butlast_append)
  have "q2[length q2 - 1 := l] = butlast q2 @ [l]"
    using ne by (metis append_butlast_last_id length_butlast list_update_length)
  then have upd: "go_update q2 (int (length q2) - 1) l = Inr (butlast q2 @ [l])"
    using go_update_int [of "length q2 - 1" q2 l] ne pos q2 by (simp add: of_nat_diff)
  have "make_partition rf cfg = Inr (q1, butlast q2 @ [l])"
    using l(1) q(1) upd by (simp add: make_partition_def)
  moreover have "distinct ?o" by (simp add: All_def distinct_map)
  then have "distinct (q1 @ butlast q2 @ [l])" unfolding append_assoc [symmetric] o [symmetric] by simp
  moreover have "set q1 \<union> set (butlast q2 @ [l]) = {i. valid cfg i}"
  proof -
    have "set ?o = set (q1 @ butlast q2)" using o by (rule arg_cong)
    then have "set q1 \<union> set (butlast q2 @ [l]) = insert l (set ?o)" by auto
    also have "\<dots> = {i. valid cfg i}" using l(2) set_All [of cfg] by auto
    finally show ?thesis .
  qed
  moreover have "length q1 = ?n div 2 + 1" "length (butlast q2 @ [l]) = ?n div 2" using q(2) q2 pos m by simp_all
  ultimately show ?thesis by (intro exI [of _ q1] exI [of _ "butlast q2 @ [l]"]) simp
qed

section \<open>Starting and shutting down\<close>

lemma make_ends_ok:
  assumes "make_ends es j net = Inr net'"
  shows "distinct es" and "\<forall>e \<in> set es. ends net (Port e) = None"
    and "\<forall>e \<in> set es. ends net' (Port e) \<noteq> None \<and> \<not> enabled net' (Port e)"
    and "\<forall>k < length es. connections net' (Port (es ! k)) = Some (Num (j + int k))"
    and "\<forall>x. x \<notin> Port ` set es \<longrightarrow> ends net' x = ends net x \<and> connections net' x = connections net x \<and> enabled net' x = enabled net x"
    and "Network.servers net' = Network.servers net"
proof -
  have "distinct es \<and> (\<forall>e \<in> set es. ends net (Port e) = None) \<and>
    (\<forall>e \<in> set es. ends net' (Port e) \<noteq> None \<and> \<not> enabled net' (Port e)) \<and>
    (\<forall>k < length es. connections net' (Port (es ! k)) = Some (Num (j + int k))) \<and>
    (\<forall>x. x \<notin> Port ` set es \<longrightarrow> ends net' x = ends net x \<and> connections net' x = connections net x \<and> enabled net' x = enabled net x) \<and>
    Network.servers net' = Network.servers net"
    using assms
  proof (induction es arbitrary: j net)
    case (Cons e es)
    let ?net1 = "Connect (Port e) (Num j) (net\<lparr>ends := (ends net)(Port e \<mapsto> \<lparr>ce_endname = Port e\<rparr>),
        enabled := (enabled net)(Port e := False), connections := (connections net)(Port e := None)\<rparr>)"
    from Cons.prems have new: "ends net (Port e) = None" and run: "make_ends es (j + 1) ?net1 = Inr net'"
      by (auto simp: MakeEnd_def split: if_splits)
    note IH = Cons.IH [OF run]
    have "e \<notin> set es" using IH by (auto simp: Connect_def)
    then have notin: "Port e \<notin> Port ` set es" by auto
    have conn: "connections net' (Port ((e # es) ! k)) = Some (Num (j + int k))" if "k < length (e # es)" for k
      using that IH notin by (cases k) (auto simp: Connect_def add.assoc)
    have old: "ends net (Port x) = None" if "x \<in> set es" for x
    proof -
      have "ends ?net1 (Port x) = None" using IH that by blast
      then show ?thesis by (simp add: Connect_def split: if_splits)
    qed
    show ?case using IH notin new conn old \<open>e \<notin> set es\<close> by (auto simp: Connect_def)
  qed simp
  then show "distinct es" and "\<forall>e \<in> set es. ends net (Port e) = None"
    and "\<forall>e \<in> set es. ends net' (Port e) \<noteq> None \<and> \<not> enabled net' (Port e)"
    and "\<forall>k < length es. connections net' (Port (es ! k)) = Some (Num (j + int k))"
    and "\<forall>x. x \<notin> Port ` set es \<longrightarrow> ends net' x = ends net x \<and> connections net' x = connections net x \<and> enabled net' x = enabled net x"
    and "Network.servers net' = Network.servers net" by blast+
qed

lemma enable_end_relinks: "enable_end yes es i j net = Inr net' \<Longrightarrow> \<exists>en. net' = net\<lparr>enabled := en\<rparr>"
  by (auto simp: enable_end_def mapG_eq_Inr_iff Enable_def)

lemma enable_if_relinks:
  "(if c then enable_end yes es i j net else Inr net) = Inr net' \<Longrightarrow> \<exists>en. net' = net\<lparr>enabled := en\<rparr>"
  by (cases c) (auto dest: enable_end_relinks intro: exI [of _ "enabled net"])

lemma foldG_relinks:
  assumes "foldG f xs net = Inr net'" and "\<And>x net net'. f x net = Inr net' \<Longrightarrow> \<exists>en. net' = net\<lparr>enabled := en\<rparr>"
  shows "\<exists>en. net' = net\<lparr>enabled := en\<rparr>"
  using assms(1)
proof (induction xs arbitrary: net)
  case Nil
  then show ?case by (intro exI [of _ "enabled net"]) simp
next
  case (Cons x xs)
  then obtain net1 where "f x net = Inr net1" "foldG f xs net1 = Inr net'" by (auto simp: bindG_eq_Inr_iff)
  with assms(2) Cons.IH show ?case by fastforce
qed

lemma disable_incoming_relinks: "disable_incoming es i pos fs net = Inr net' \<Longrightarrow> \<exists>en. net' = net\<lparr>enabled := en\<rparr>"
proof (induction fs arbitrary: pos net)
  case Nil
  then show ?case by (intro exI [of _ "enabled net"]) simp
next
  case (Cons f fs)
  from Cons.prems [unfolded disable_incoming.simps bindG_eq_Inr_iff] obtain row :: "string list option" and net1
    where 1: "(if row \<noteq> None then enable_end False es f i net else Inr net) = Inr net1"
      "disable_incoming es i (pos + 1) fs net1 = Inr net'" by (elim exE conjE)
  from enable_if_relinks [OF 1(1)] have "\<exists>en. net1 = net\<lparr>enabled := en\<rparr>" .
  with Cons.IH [OF 1(2)] show ?case by fastforce
qed

lemma connectUnlocked_relinks:
  assumes "connectUnlocked i to cfg = Inr cfg'"
  shows "relinked cfg cfg'"
proof -
  from assms obtain net1 net2 where "foldG (\<lambda>j. enable_end True (cf_endnames cfg) i j) to (cf_net cfg) = Inr net1"
    "foldG (\<lambda>j. enable_end True (cf_endnames cfg) j i) to net1 = Inr net2" "cfg' = cfg\<lparr>cf_net := net2\<rparr>"
    by (auto simp: connectUnlocked_def bindG_eq_Inr_iff mapG_eq_Inr_iff)
  with foldG_relinks [OF this(1)] foldG_relinks [OF this(2)] enable_end_relinks show ?thesis
    unfolding relinked_def by fastforce
qed

lemma disconnectUnlocked_relinks:
  assumes "disconnectUnlocked i from cfg = Inr cfg'"
  shows "relinked cfg cfg'"
proof -
  from assms obtain net1 net2 where r: "foldG (disable_outgoing (cf_endnames cfg) i) from (cf_net cfg) = Inr net1"
    "disable_incoming (cf_endnames cfg) i 0 from net1 = Inr net2" "cfg' = cfg\<lparr>cf_net := net2\<rparr>"
    by (auto simp: disconnectUnlocked_def bindG_eq_Inr_iff mapG_eq_Inr_iff)
  have "\<exists>en. net' = net\<lparr>enabled := en\<rparr>" if "disable_outgoing (cf_endnames cfg) i f net = Inr net'" for f net net'
    using that unfolding disable_outgoing_def bindG_eq_Inr_iff by (blast dest: enable_if_relinks)
  from foldG_relinks [OF r(1) this] disable_incoming_relinks [OF r(2)] r(3) show ?thesis
    unfolding relinked_def by fastforce
qed

lemma foldG_relinked:
  assumes "foldG f xs cfg = Inr cfg'" and "\<And>x c c'. f x c = Inr c' \<Longrightarrow> relinked c c'"
  shows "relinked cfg cfg'"
  using assms(1)
proof (induction xs arbitrary: cfg)
  case (Cons x xs)
  then obtain c where "f x cfg = Inr c" "foldG f xs c = Inr cfg'" by (auto simp: bindG_eq_Inr_iff)
  with assms(2) Cons.IH show ?case by (blast intro: relinked_trans)
qed (simp add: relinked_refl)

lemma partition_relinks: "partition p1 p2 cfg = Inr cfg' \<Longrightarrow> relinked cfg cfg'"
  unfolding partition_def partition_side_def bindG_eq_Inr_iff
  by (elim exE conjE, rule relinked_trans)
    (erule foldG_relinked, auto simp: bindG_eq_Inr_iff intro: relinked_trans connectUnlocked_relinks disconnectUnlocked_relinks)+

lemma ConnectAll_relinks: "ConnectAll cfg = Inr cfg' \<Longrightarrow> relinked cfg cfg'"
  unfolding ConnectAll_def by (erule foldG_relinked) (rule connectUnlocked_relinks)

lemma wired_cong:
  assumes "wired cfg" "cf_endnames cfg' = cf_endnames cfg" "cf_n cfg' = cf_n cfg"
    "length (cf_servers cfg') = length (cf_servers cfg)" "length (cf_saved cfg') = length (cf_saved cfg)"
    and "\<And>x. ends (cf_net cfg) x \<noteq> None \<Longrightarrow> ends (cf_net cfg') x \<noteq> None \<and> connections (cf_net cfg') x = connections (cf_net cfg) x"
  shows "wired cfg'" and "started cfg' = started cfg"
proof -
  have same: "port cfg' = port cfg" "started cfg' = started cfg" "valid cfg' = valid cfg"
    using assms(2,3) by (auto simp: fun_eq_iff port_def started_def valid_def)
  show "wired cfg'" using assms unfolding wired_def same by auto
  show "started cfg' = started cfg" by (rule same)
qed

lemma ShutdownServer_wired:
  assumes "wired cfg" "ShutdownServer pers kill i cfg = Inr cfg'"
  shows "wired cfg'" "started cfg' = started cfg"
    and "cf_n cfg' = cf_n cfg"
proof -
  from assms(2) obtain c1 where c1: "disconnectUnlocked i (All cfg) cfg = Inr c1"
    and eq: "cf_endnames cfg' = cf_endnames c1" "cf_n cfg' = cf_n c1" "length (cf_servers cfg') = length (cf_servers c1)"
      "length (cf_saved cfg') = length (cf_saved c1)" "cf_net cfg' = DeleteServer (Num i) (cf_net c1)"
    by (auto simp: ShutdownServer_def copy_saved_def kill_current_def bindG_eq_Inr_iff mapG_eq_Inr_iff
        go_update_eq_Inr_iff split: option.splits)
  note r = relinkedD [OF disconnectUnlocked_relinks [OF c1]]
  have "wired c1" using assms(1) by (simp add: r)
  from wired_cong [OF this eq(1-4)] eq(5) show "wired cfg'" "started cfg' = started cfg"
    by (simp_all add: DeleteServer_def r)
  show "cf_n cfg' = cf_n cfg" using eq(2) by (simp add: r)
qed

lemma StartServer_frame:
  assumes "StartServer pers start services names i cfg = Inr cfg'"
  obtains net where "make_ends (map names [0..<cf_n cfg]) 0 (cf_net cfg) = Inr net"
    and "0 \<le> i" "i < int (length (cf_endnames cfg))"
    and "cf_endnames cfg' = (cf_endnames cfg)[nat i := Some (map names [0..<cf_n cfg])]" "cf_n cfg' = cf_n cfg"
    and "length (cf_servers cfg') = length (cf_servers cfg)" "length (cf_saved cfg') = length (cf_saved cfg)"
    and "ends (cf_net cfg') = ends net" "connections (cf_net cfg') = connections net" "enabled (cf_net cfg') = enabled net"
  using assms
  by (auto simp: StartServer_def fresh_saved_def add_instance_def bindG_eq_Inr_iff mapG_eq_Inr_iff
      go_update_eq_Inr_iff AddServer_def Let_def)

lemma StartServer_wired:
  assumes w: "wired cfg" and s: "StartServer pers start services names i cfg = Inr cfg'"
  shows "wired cfg'" "valid cfg i" "started cfg' = (started cfg)(i := True)" "cf_n cfg' = cf_n cfg"
proof -
  from s obtain net where f: "make_ends (map names [0..<cf_n cfg]) 0 (cf_net cfg) = Inr net"
    "0 \<le> i" "i < int (length (cf_endnames cfg))"
    "cf_endnames cfg' = (cf_endnames cfg)[nat i := Some (map names [0..<cf_n cfg])]" "cf_n cfg' = cf_n cfg"
    "length (cf_servers cfg') = length (cf_servers cfg)" "length (cf_saved cfg') = length (cf_saved cfg)"
    "ends (cf_net cfg') = ends net" "connections (cf_net cfg') = connections net"
    by (rule StartServer_frame)
  note e = make_ends_ok [OF f(1)]
  have len: "length (cf_endnames cfg) = cf_n cfg" using w by (simp add: wired_def)
  show vi: "valid cfg i" using f(2,3) len by (simp add: valid_def)
  show n: "cf_n cfg' = cf_n cfg" by (rule f(5))
  have v: "valid cfg' = valid cfg" using n by (simp add: fun_eq_iff valid_def)
  show st: "started cfg' = (started cfg)(i := True)"
    using vi f(2,3) by (auto simp: fun_eq_iff started_def v f(4) nth_list_update valid_def)
  have port_new: "port cfg' i j = Port (names (nat j))" if "valid cfg j" for j
    using that f(2,3) by (simp add: port_def f(4) valid_def nat_less_iff)
  have port_old: "port cfg' k j = port cfg k j" if "valid cfg k" "k \<noteq> i" for k j
    using that f(2) by (simp add: port_def f(4) valid_def eq_nat_nat_iff)
  have old: "started cfg k" "ends (cf_net cfg) (port cfg k j) \<noteq> None" "port cfg k j \<notin> Port ` names ` {0..<cf_n cfg}"
    "connections (cf_net cfg) (port cfg k j) = Some (Num j)"
    if "started cfg' k" "k \<noteq> i" "valid cfg j" for k j
  proof -
    show k: "started cfg k" using that st by (simp add: fun_eq_iff)
    with w that(3) show en: "ends (cf_net cfg) (port cfg k j) \<noteq> None" "connections (cf_net cfg) (port cfg k j) = Some (Num j)"
      by (simp_all add: wired_def)
    show "port cfg k j \<notin> Port ` names ` {0..<cf_n cfg}" using en(1) e(2) by auto
  qed
  have new: "port cfg' i j \<in> Port ` names ` {0..<cf_n cfg}" if "valid cfg j" for j
    using that by (auto simp: port_new valid_def nat_less_iff)
  have name_inj: "nat j = nat j'" if "valid cfg j" "valid cfg j'" "names (nat j) = names (nat j')" for j j'
  proof -
    have "inj_on names {0..<cf_n cfg}" using e(1) by (simp add: distinct_map)
    moreover have "nat j \<in> {0..<cf_n cfg}" "nat j' \<in> {0..<cf_n cfg}" using that(1,2) by (auto simp: valid_def nat_less_iff)
    ultimately show ?thesis using that(3) by (simp only: inj_on_eq_iff)
  qed
  show "wired cfg'" unfolding wired_def
  proof (intro conjI allI impI)
    show "length (cf_endnames cfg') = cf_n cfg'" "length (cf_servers cfg') = cf_n cfg'" "length (cf_saved cfg') = cf_n cfg'"
      using w f by (simp_all add: wired_def)
    fix k assume k: "started cfg' k"
    then have vk: "valid cfg k" using v by (simp add: started_def)
    show "length (the (cf_endnames cfg' ! nat k)) = cf_n cfg'"
    proof (cases "k = i")
      case True
      then show ?thesis using f(2,3) by (simp add: f(4,5))
    next
      case False
      moreover have "started cfg k" using k False st by (simp add: fun_eq_iff)
      ultimately show ?thesis using w vk f(2) by (simp add: wired_def f(4,5) valid_def eq_nat_nat_iff)
    qed
    fix j assume "valid cfg' j"
    then have j: "valid cfg j" using v by simp
    have "ends net (port cfg' k j) \<noteq> None \<and> connections net (port cfg' k j) = Some (Num j)"
    proof (cases "k = i")
      case True
      have "nat j < cf_n cfg" "int (nat j) = j" using j by (auto simp: valid_def)
      then show ?thesis using e(3,4) True by (auto simp: port_new [OF j])
    next
      case False
      from old [OF k False j] e(5) show ?thesis by (simp add: port_old [OF vk False])
    qed
    then show "ends (cf_net cfg') (port cfg' k j) \<noteq> None" "connections (cf_net cfg') (port cfg' k j) = Some (Num j)"
      by (simp_all add: f(8,9))
    fix k' j' assume k': "started cfg' k'" and "valid cfg' j'" and eq: "port cfg' k j = port cfg' k' j'"
    then have j': "valid cfg j'" and vk': "valid cfg k'" using v by (simp_all add: started_def)
    have "k = k' \<and> j = j'"
    proof (cases "k = i"; cases "k' = i")
      assume "k = i" "k' = i"
      with eq name_inj [OF j j'] j j' show ?thesis by (simp add: port_new valid_def eq_nat_nat_iff)
    next
      assume "k = i" "k' \<noteq> i"
      with new [OF j] old(3) [OF k' _ j'] eq show ?thesis by (simp add: port_old [OF vk'])
    next
      assume "k \<noteq> i" "k' = i"
      with new [OF j'] old(3) [OF k _ j] eq show ?thesis by (simp add: port_old [OF vk])
    next
      assume "k \<noteq> i" "k' \<noteq> i"
      with w eq old(1) [OF k _ j] old(1) [OF k' _ j'] j j' show ?thesis
        by (auto simp: port_old [OF vk] port_old [OF vk'] wired_def)
    qed
    then show "k = k'" "j = j'" by simp_all
  qed
qed

section \<open>A harness at work\<close>

text \<open>
  What tests do with a cluster: connect, disconnect and partition, shut servers down and start them
  again, make and delete clients; meanwhile the servers work, and the network carries calls.
\<close>

inductive kv_step ::
  "(nat, 'v) Method list \<Rightarrow> (nat, 'v) Method list \<Rightarrow> (KVServer, Op gobval, kvgob, 'v) kv_config \<Rightarrow>
   (KVServer, Op gobval, kvgob, 'v) kv_config \<Rightarrow> bool" for kvm and rfm where
  ks_connect: "connectUnlocked i to cfg = Inr cfg' \<Longrightarrow> kv_step kvm rfm cfg cfg'"
| ks_disconnect: "disconnectUnlocked i from cfg = Inr cfg' \<Longrightarrow> kv_step kvm rfm cfg cfg'"
| ks_connect_all: "ConnectAll cfg = Inr cfg' \<Longrightarrow> kv_step kvm rfm cfg cfg'"
| ks_partition: "partition p1 p2 cfg = Inr cfg' \<Longrightarrow> kv_step kvm rfm cfg cfg'"
| ks_shutdown: "kv_ShutdownServer i cfg = Inr cfg' \<Longrightarrow> kv_step kvm rfm cfg cfg'"
| ks_start: "kv_StartServer kvm rfm now rnd names i cfg = Inr cfg' \<Longrightarrow> kv_step kvm rfm cfg cfg'"
| ks_client: "makeClient names shuffle to cfg = Inr (ck, es, cfg') \<Longrightarrow> kv_step kvm rfm cfg cfg'"
| ks_client_on: "ConnectClientUnlocked ck to cfg = Inr cfg' \<Longrightarrow> kv_step kvm rfm cfg cfg'"
| ks_client_off: "DisconnectClientUnlocked ck to cfg = Inr cfg' \<Longrightarrow> kv_step kvm rfm cfg cfg'"
| ks_delete: "kv_step kvm rfm cfg (deleteClient ck cfg)"
| ks_run: "length is = length (cf_instances cfg) \<Longrightarrow> kv_step kvm rfm cfg (cfg\<lparr>cf_instances := is\<rparr>)"
| ks_call: "kv_step kvm rfm cfg (cfg\<lparr>cf_net := accept_req (req :: (iname, string) reqMsg) (cf_net cfg)\<rparr>)"

definition kv_wired :: "nat \<Rightarrow> (KVServer, Op gobval, kvgob, 'v) kv_config \<Rightarrow> bool" where
  "kv_wired n cfg \<longleftrightarrow> wired cfg \<and> cf_n cfg = n \<and> (\<forall>k. valid cfg k \<longrightarrow> started cfg k)"

lemma relinked_kv_wired: "relinked cfg cfg' \<Longrightarrow> kv_wired n cfg \<Longrightarrow> kv_wired n cfg'"
  by (simp add: kv_wired_def relinkedD)

lemma kv_wired_cong:
  assumes "kv_wired n cfg" "cf_endnames cfg' = cf_endnames cfg" "cf_n cfg' = cf_n cfg"
    "length (cf_servers cfg') = length (cf_servers cfg)" "length (cf_saved cfg') = length (cf_saved cfg)"
    and "\<And>x. ends (cf_net cfg) x \<noteq> None \<Longrightarrow> ends (cf_net cfg') x \<noteq> None \<and> connections (cf_net cfg') x = connections (cf_net cfg) x"
  shows "kv_wired n cfg'"
  using wired_cong [of cfg cfg'] assms by (simp add: kv_wired_def) (simp add: valid_def)

lemma enable_client_relinks: "enable_client yes names to net = Inr net' \<Longrightarrow> \<exists>en. net' = net\<lparr>enabled := en\<rparr>"
  unfolding enable_client_def by (erule foldG_relinks) (auto simp: mapG_eq_Inr_iff Enable_def)

lemma client_relinks:
  "ConnectClientUnlocked ck to cfg = Inr cfg' \<Longrightarrow> relinked cfg cfg'"
  "DisconnectClientUnlocked ck to cfg = Inr cfg' \<Longrightarrow> relinked cfg cfg'"
  by (auto simp: ConnectClientUnlocked_def DisconnectClientUnlocked_def mapG_eq_Inr_iff relinked_def
      dest!: enable_client_relinks)

lemma makeClient_wired:
  assumes "kv_wired n cfg" "makeClient names shuffle to cfg = Inr (ck, es, cfg')"
  shows "kv_wired n cfg'"
proof -
  let ?row = "map names [0..<cf_n cfg]"
  let ?c = "\<lambda>net. cfg\<lparr>cf_net := net, cf_clerks := (cf_clerks cfg)(cf_nextClerk cfg \<mapsto> ?row),
      cf_nextClerk := Suc (cf_nextClerk cfg), cf_nextClientId := cf_nextClientId cfg + 1\<rparr>"
  from assms(2) obtain net where net: "make_ends ?row 0 (cf_net cfg) = Inr net"
    and on: "ConnectClientUnlocked (cf_nextClerk cfg) to (?c net) = Inr cfg'"
    by (auto simp: makeClient_def Let_def bindG_eq_Inr_iff mapG_eq_Inr_iff)
  note e = make_ends_ok [OF net]
  have "ends net x \<noteq> None \<and> connections net x = connections (cf_net cfg) x" if "ends (cf_net cfg) x \<noteq> None" for x
  proof -
    have "x \<notin> Port ` set ?row" using that e(2) by auto
    with e(5) that show ?thesis by simp
  qed
  then have "kv_wired n (?c net)" by (intro kv_wired_cong [OF assms(1)]) auto
  then show ?thesis by (rule relinked_kv_wired [OF client_relinks(1) [OF on]])
qed

lemma kv_step_wired:
  assumes "kv_wired n cfg" "kv_step kvm rfm cfg cfg'"
  shows "kv_wired n cfg'"
  using assms(2,1)
proof cases
  case (ks_shutdown i)
  with assms(1) show ?thesis
    using ShutdownServer_wired [of cfg kv_persister kv_Kill i cfg'] by (simp add: kv_wired_def kv_ShutdownServer_def) (simp add: valid_def)
next
  case (ks_start now rnd names i)
  from assms(1) have "wired cfg" by (simp add: kv_wired_def)
  from StartServer_wired [OF this ks_start [unfolded kv_StartServer_def]] assms(1) show ?thesis
    by (auto simp: kv_wired_def valid_def)
next
  case ks_client
  with assms(1) show ?thesis by (blast intro: makeClient_wired)
next
  case (ks_delete ck)
  then show ?thesis by (intro kv_wired_cong [OF assms(1)]) (auto simp: deleteClient_def)
next
  case ks_run
  then show ?thesis by (intro kv_wired_cong [OF assms(1)]) auto
next
  case ks_call
  then show ?thesis by (intro kv_wired_cong [OF assms(1)]) (auto simp: accept_req_def)
qed (use assms(1) in \<open>blast intro: relinked_kv_wired connectUnlocked_relinks disconnectUnlocked_relinks ConnectAll_relinks
    partition_relinks client_relinks\<close>)+

text \<open>\<^verbatim>\<open>make_config\<close> starts all servers, one after the other.\<close>

lemma start_all_wired:
  assumes "foldG (\<lambda>i. StartServer pers (start i) services (names i) i) js cfg = Inr cfg'" "wired cfg"
  shows "wired cfg' \<and> cf_n cfg' = cf_n cfg \<and> (\<forall>k. started cfg' k \<longleftrightarrow> started cfg k \<or> k \<in> set js)"
  using assms
proof (induction js arbitrary: cfg)
  case (Cons j js)
  then obtain c1 where c1: "StartServer pers (start j) services (names j) j cfg = Inr c1"
    "foldG (\<lambda>i. StartServer pers (start i) services (names i) i) js c1 = Inr cfg'" by (auto simp: bindG_eq_Inr_iff)
  note s = StartServer_wired [OF Cons.prems(2) c1(1)]
  from Cons.IH [OF c1(2) s(1)] s(3,4) show ?case by auto
qed simp

lemma wired_unstarted:
  assumes "cf_endnames cfg = replicate (cf_n cfg) None" "length (cf_servers cfg) = cf_n cfg" "length (cf_saved cfg) = cf_n cfg"
  shows "wired cfg"
proof -
  have "\<not> started cfg k" for k using assms(1) by (auto simp: started_def valid_def nat_less_iff)
  then show ?thesis using assms unfolding wired_def by simp
qed

lemma make_config_wired:
  assumes "make_config pers start services names now n unreliable maxstate = Inr cfg"
  shows "wired cfg" "cf_n cfg = n" "\<forall>k. valid cfg k \<longrightarrow> started cfg k"
proof -
  from assms obtain init c1 c2 where i: "cf_endnames init = replicate n None" "cf_n init = n"
      "cf_servers init = replicate n None" "cf_saved init = replicate n None"
    and c1: "foldG (\<lambda>i. StartServer pers (start i) services (names i) i) (map int [0..<n]) init = Inr c1"
    and c2: "ConnectAll c1 = Inr c2" and c: "cfg = c2\<lparr>cf_net := Reliable (\<not> unreliable) (cf_net c2)\<rparr>"
    unfolding make_config_def Let_def bindG_eq_Inr_iff mapG_eq_Inr_iff by force
  have "wired init" by (rule wired_unstarted) (simp_all add: i)
  from start_all_wired [OF c1 this] i(2) have s: "wired c1" "cf_n c1 = n" "\<forall>k. k \<in> set (All c1) \<longrightarrow> started c1 k"
    by (simp_all add: All_def)
  note r = relinkedD [OF ConnectAll_relinks [OF c2]]
  have w2: "wired c2" using s(1) by (simp add: r)
  have "wired cfg" "started cfg = started c2" unfolding c by (rule wired_cong [OF w2]; simp add: Reliable_def)+
  moreover show "cf_n cfg = n" using s(2) by (simp add: c r)
  moreover have "valid cfg k \<Longrightarrow> k \<in> set (All c1)" for k using \<open>cf_n cfg = n\<close> s(2) by (simp add: set_All valid_def)
  ultimately show "wired cfg" "\<forall>k. valid cfg k \<longrightarrow> started cfg k" using s(3) by (auto simp: r)
qed

interpretation kv_harness: inductive_invariant
  "\<lambda>cfg. \<exists>rnd names now unreliable maxstate. kv_make_config kvm rfm rnd names now n unreliable maxstate = Inr cfg"
  "kv_step kvm rfm" "kv_wired n" for kvm rfm n
proof
  fix cfg
  assume "\<exists>rnd names now unreliable maxstate. kv_make_config kvm rfm rnd names now n unreliable maxstate = Inr cfg"
  then obtain rnd names now unreliable maxstate
    where "kv_make_config kvm rfm rnd names now n unreliable maxstate = Inr cfg" by (elim exE)
  from make_config_wired [OF this [unfolded kv_make_config_def]] show "kv_wired n cfg" by (simp add: kv_wired_def)
qed (rule kv_step_wired)

section \<open>Shuffled handles\<close>

lemma random_handles_mset: "mset (random_handles rnd kvh) = mset kvh"
proof -
  have "mset (fold (\<lambda>i sa. let j = rnd i mod (i + 1) in sa[i := sa ! j, j := sa ! i]) is sa) = mset sa"
    if "\<forall>i \<in> set is. i < length sa" for "is" and sa :: "'a list"
    using that
  proof (induction "is" arbitrary: sa)
    case (Cons i "is")
    let ?j = "rnd i mod (i + 1)"
    have i: "i < length sa" using Cons.prems by simp
    then have j: "?j < length sa" using mod_less_divisor [of "i + 1" "rnd i"] by linarith
    have "mset (sa[i := sa ! ?j, ?j := sa ! i]) = mset sa" by (rule mset_swap [OF j i])
    moreover have "\<forall>k \<in> set is. k < length (sa[i := sa ! ?j, ?j := sa ! i])" using Cons.prems by simp
    ultimately show ?case using Cons.IH by (simp add: Let_def)
  qed simp
  then show ?thesis by (simp add: random_handles_def)
qed

text \<open>A cluster whose servers are all wired can be divided around its leader.\<close>

lemma leader_isolated:
  assumes w: "wired cfg" "cf_n cfg = n" "\<forall>k. valid cfg k \<longrightarrow> started cfg k"
    and n: "odd n" "3 \<le> n" and led: "harness_Leader rf cfg = Inr (True, l)"
  shows "\<exists>p1 p2 cfg'. make_partition rf cfg = Inr (p1, p2) \<and> partition p1 p2 cfg = Inr cfg' \<and>
    set p1 \<inter> set p2 = {} \<and> set p1 \<union> set p2 = {0..<int n} \<and> 2 * card (set p1) > n \<and> l \<in> set p2 \<and>
    (\<forall>a \<in> {0..<int n}. \<forall>b \<in> {0..<int n}. link cfg' a b \<longleftrightarrow> (a \<in> set p1 \<longleftrightarrow> b \<in> set p1))"
proof -
  have v: "valid cfg k \<longleftrightarrow> k \<in> {0..<int n}" for k using w(2) by (auto simp: valid_def)
  have "valid cfg l" using leader_loop_valid [OF led [unfolded harness_Leader_def]] w(1,2)
    by (simp add: valid_def wired_def)
  from make_partition_splits [OF _ _ led this] n w(2) obtain p1 p2
    where p: "make_partition rf cfg = Inr (p1, p2)" "distinct (p1 @ p2)" "set p1 \<union> set p2 = {i. valid cfg i}"
      "length p1 = n div 2 + 1" "length p2 = n div 2" "l \<in> set p2" by auto
  have disj: "set p1 \<inter> set p2 = {}" using p(2) by simp
  have len: "length p1 \<le> cf_n cfg" "length p2 \<le> cf_n cfg" using p(4,5) n(2) w(2) by linarith+
  have in_range: "\<forall>i \<in> set p1 \<union> set p2. valid cfg i" using p(3) by simp
  from partition_links [OF w(1,3) in_range len disj] obtain cfg' where c': "partition p1 p2 cfg = Inr cfg'"
    "\<forall>a b. valid cfg a \<longrightarrow> valid cfg b \<longrightarrow>
      (link cfg' a b \<longleftrightarrow> a \<in> set p1 \<and> b \<in> set p1 \<or> a \<in> set p2 \<and> b \<in> set p2 \<or>
        link cfg a b \<and> \<not> (a \<in> set p1 \<and> b \<in> set p2) \<and> \<not> (a \<in> set p2 \<and> b \<in> set p1))"
    by (elim exE conjE)
  have same_side: "\<forall>a \<in> {0..<int n}. \<forall>b \<in> {0..<int n}. link cfg' a b \<longleftrightarrow> (a \<in> set p1 \<longleftrightarrow> b \<in> set p1)"
  proof (intro ballI)
    fix a b assume "a \<in> {0..<int n}" "b \<in> {0..<int n}"
    then have ab: "valid cfg a" "valid cfg b" by (simp_all only: v)
    then have "a \<in> set p1 \<or> a \<in> set p2" "b \<in> set p1 \<or> b \<in> set p2" using p(3) by auto
    moreover note c'(2) [rule_format, OF ab]
    moreover have "a \<in> set p1 \<Longrightarrow> a \<notin> set p2" "b \<in> set p1 \<Longrightarrow> b \<notin> set p2" using disj by auto
    ultimately show "link cfg' a b \<longleftrightarrow> (a \<in> set p1 \<longleftrightarrow> b \<in> set p1)" by argo
  qed
  have majority: "2 * card (set p1) > n" using p(2,4) by (simp add: distinct_card)
  have cover: "set p1 \<union> set p2 = {0..<int n}" unfolding p(3) by (auto simp: v)
  show ?thesis
    by (intro exI [of _ p1] exI [of _ p2] exI [of _ cfg'] conjI) (fact p(1) c'(1) disj cover majority p(6) same_side)+
qed

text \<open>The harness of the shard master divides its servers in the same way, whatever they have done since the start.\<close>

lemma smcfg_partition_isolates_leader:
  assumes "smcfg_make_config smm rfm rnd names now n unreliable = Inr cfg0" and "cfg = cfg0\<lparr>cf_instances := is\<rparr>"
    and "odd n" "3 \<le> n" and "smcfg_Leader cfg = Inr (True, l)"
  shows "\<exists>p1 p2 cfg'. smcfg_make_partition cfg = Inr (p1, p2) \<and> partition p1 p2 cfg = Inr cfg' \<and>
    set p1 \<inter> set p2 = {} \<and> set p1 \<union> set p2 = {0..<int n} \<and> 2 * card (set p1) > n \<and> l \<in> set p2 \<and>
    (\<forall>a \<in> {0..<int n}. \<forall>b \<in> {0..<int n}. link cfg' a b \<longleftrightarrow> (a \<in> set p1 \<longleftrightarrow> b \<in> set p1))"
proof -
  note w = make_config_wired [OF assms(1) [unfolded smcfg_make_config_def]]
  have "wired cfg" "started cfg = started cfg0" unfolding assms(2) by (rule wired_cong [OF w(1)]; simp)+
  moreover have "valid cfg = valid cfg0" by (simp add: fun_eq_iff valid_def assms(2))
  ultimately show ?thesis unfolding smcfg_make_partition_def
    by (intro leader_isolated) (use w assms(2-5) in \<open>simp_all add: smcfg_Leader_def\<close>)
qed

section \<open>Properties\<close>

text \<open>
  C26: The harness puts the leader into the minority. In a cluster of an odd number of servers, at least
  three, at any point of a test at which no server is shut down and some server takes itself for the leader,
  \<^verbatim>\<open>make_partition\<close> divides the servers into a majority and a minority with that leader, and
  \<^verbatim>\<open>partition\<close> then connects exactly the servers of the same side, whatever was connected before.
\<close>

theorem partition_isolates_leader:
  assumes "kv_make_config kvm rfm rnd names now n unreliable maxstate = Inr cfg0"
    and "run_from (kv_step kvm rfm) cfg0 cfg"
    and "odd n" and "3 \<le> n" and "harness_Leader kvrf cfg = Inr (True, l)"
  shows "\<exists>p1 p2 cfg'. make_partition kvrf cfg = Inr (p1, p2) \<and> partition p1 p2 cfg = Inr cfg' \<and>
    set p1 \<inter> set p2 = {} \<and> set p1 \<union> set p2 = {0..<int n} \<and> 2 * card (set p1) > n \<and> l \<in> set p2 \<and>
    (\<forall>a \<in> {0..<int n}. \<forall>b \<in> {0..<int n}. link cfg' a b \<longleftrightarrow> (a \<in> set p1 \<longleftrightarrow> b \<in> set p1))"
proof -
  have "kv_wired n cfg" by (rule kv_harness.inv_run [OF _ assms(2)]) (use assms(1) in blast)
  then show ?thesis unfolding kv_wired_def by (elim conjE) (rule leader_isolated [OF _ _ _ assms(3-5)])
qed

definition example_names :: "int \<Rightarrow> nat \<Rightarrow> string" where
  "example_names i j = replicate (4 * nat i + j) CHR ''x''"

definition elect ::
  "nat \<Rightarrow> (KVServer, Op gobval, kvgob, unit) kv_config \<Rightarrow> (KVServer, Op gobval, kvgob, unit) kv_config" where
  "elect a cfg = cfg\<lparr>cf_instances := (cf_instances cfg)[a := (cf_instances cfg ! a)\<lparr>kvrf := (kvrf (cf_instances cfg ! a))\<lparr>state := 0\<rparr>\<rparr>]\<rparr>"

lemma example_cluster:
  "case kv_make_config [] [] (\<lambda>_. 0) example_names 0 3 False (-1) of
     Inl _ \<Rightarrow> False | Inr cfg \<Rightarrow> harness_Leader kvrf (elect 0 cfg) = Inr (True, 0)"
  by code_simp

theorem partition_isolates_leader_witness:
  "\<exists>cfg p1 p2 cfg'. kv_make_config [] [] (\<lambda>_. 0) example_names 0 3 False (-1) = Inr cfg \<and>
     partition p1 p2 (elect 0 cfg) = Inr cfg' \<and> 0 \<in> set p2 \<and> (\<forall>a \<in> set p1. \<not> link cfg' 0 a)"
proof -
  from example_cluster obtain cfg where c: "kv_make_config [] [] (\<lambda>_. 0) example_names 0 3 False (-1) = Inr cfg"
    and l: "harness_Leader kvrf (elect 0 cfg) = Inr (True, 0)" by (auto split: sum.splits)
  have "kv_step [] [] cfg (elect 0 cfg)" unfolding elect_def by (rule ks_run) simp
  then have "run_from (kv_step [] []) cfg (elect 0 cfg)" by (rule run_from_single)
  from partition_isolates_leader [OF c this _ _ l] obtain p1 p2 cfg' where p: "partition p1 p2 (elect 0 cfg) = Inr cfg'"
    "set p1 \<inter> set p2 = {}" "set p1 \<union> set p2 = {0..<3}" "0 \<in> set p2"
    "\<forall>a \<in> {0..<3}. \<forall>b \<in> {0..<3}. link cfg' a b \<longleftrightarrow> (a \<in> set p1 \<longleftrightarrow> b \<in> set p1)" by auto
  have "\<not> link cfg' 0 a" if "a \<in> set p1" for a
  proof -
    have "a \<in> {0..<3}" "0 \<notin> set p1" using that p(2,3,4) by auto
    with p(5) that show ?thesis by simp
  qed
  with c p(1,4) show ?thesis by blast
qed

text \<open>
  With an even number of servers the two sides overlap. When a cluster of at least four servers has an
  even number of them, and the leader is not server 0, \<^verbatim>\<open>make_partition\<close> returns two lists that both
  contain server 0: the second array has one place more than there are servers left, which keeps its zero.
\<close>

lemma make_partition_even_overlaps:
  assumes "even (cf_n cfg)" and "4 \<le> cf_n cfg" and "harness_Leader rf cfg = Inr (True, l)"
    and "0 < l" and "l < int (cf_n cfg)"
  shows "\<exists>p1 p2. make_partition rf cfg = Inr (p1, p2) \<and> 0 \<in> set p1 \<and> 0 \<in> set p2"
proof -
  let ?n = "cf_n cfg" and ?a1 = "replicate (cf_n cfg div 2 + 1) (0 :: int)" and ?a2 = "replicate (cf_n cfg div 2) (0 :: int)"
  let ?o = "filter (\<lambda>i. i \<noteq> l) (All cfg)"
  obtain m where m: "?n = 2 * m" "2 \<le> m" using assms(1,2) by (auto elim!: evenE)
  obtain l' where l': "l = int l'" "l' < ?n" using assms(4,5) by (metis nonneg_int_cases of_nat_less_iff less_imp_le)
  have len: "length ?o = 2 * m - 1" using filter_others [OF l'(2)] l'(1) m by (simp add: All_def)
  then have fits: "length ?o + 0 \<le> length ?a1 + length ?a2" using m by simp
  obtain q1 q2 where q: "make_partition_loop l (All cfg) 0 ?a1 ?a2 = Inr (q1, q2)" "length q1 = m + 1"
    "q1 @ q2 = ?o @ drop (2 * m - 1) (?a1 @ ?a2)"
    using make_partition_loop_fills [OF fits] len m by auto
  have "?n div 2 + 1 + ?n div 2 = Suc (2 * m)" using m by simp
  then have "?a1 @ ?a2 = replicate (Suc (2 * m)) 0" by (simp only: replicate_add [symmetric])
  then have "drop (2 * m - 1) (?a1 @ ?a2) = replicate (Suc (2 * m) - (2 * m - 1)) 0" by (simp only: drop_replicate)
  also have "Suc (2 * m) - (2 * m - 1) = 2" using m by simp
  finally have cat: "q1 @ q2 = ?o @ [0, 0]" using q(3) by (simp add: numeral_2_eq_2)
  have q2: "length q2 = m" using arg_cong [OF cat, of length] q(2) len m by simp
  have "0 \<in> set q1"
  proof -
    have "All cfg = 0 # map int [1..<?n]" using m by (simp add: All_def upt_conv_Cons)
    then have "(?o @ [0, 0]) ! 0 = 0" using assms(4) by simp
    then have "(q1 @ q2) ! 0 = 0" using cat by simp
    then have "q1 ! 0 = 0" using q(2) by (simp add: nth_append)
    then show ?thesis using q(2) by (metis nth_mem zero_less_Suc Suc_eq_plus1)
  qed
  moreover have "0 \<in> set (q2[m - 1 := l])"
  proof -
    have "q2 ! (m - 2) = (q1 @ q2) ! (length q1 + (m - 2))" by (simp only: nth_append_length_plus)
    also have "length q1 + (m - 2) = length ?o" using q(2) len m(2) by simp
    also have "(q1 @ q2) ! length ?o = 0" unfolding cat by (simp only: nth_append_length)
    finally have "q2 ! (m - 2) = 0" .
    then have "q2[m - 1 := l] ! (m - 2) = 0" using m(2) by simp
    then show ?thesis using q2 m(2) by (metis nth_mem length_list_update diff_less zero_less_numeral less_le_trans)
  qed
  moreover have "go_update q2 (int (length q2) - 1) l = Inr (q2[m - 1 := l])"
    using go_update_int [of "m - 1" q2 l] q2 m(2) by (simp add: of_nat_diff)
  ultimately show ?thesis using assms(3) q(1) by (simp add: make_partition_def)
qed

definition four_servers :: "(KVServer, Op gobval, kvgob, unit) kv_config" where
  "four_servers = \<lparr>cf_net = MakeNetwork, cf_heap = [], cf_n = 4,
     cf_instances = map (\<lambda>i. StartKVServer 0 0 4 i MakePersister (-1)) [0, 1, 2, 3],
     cf_servers = map Some [0, 1, 2, 3], cf_saved = map (\<lambda>a. Some (OfInstance a)) [0, 1, 2, 3],
     cf_endnames = replicate 4 None, cf_start = 0, cf_clerks = Map.empty, cf_nextClerk = 0, cf_nextClientId = 1004,
     cf_maxraftstate = -1, cf_t0 = 0, cf_rpcs0 = 0, cf_ops = 0\<rparr>"

lemma make_partition_even_overlaps_witness:
  "\<exists>p1 p2. make_partition kvrf (elect 1 four_servers) = Inr (p1, p2) \<and> 0 \<in> set p1 \<and> 0 \<in> set p2"
proof -
  have l: "harness_Leader kvrf (elect 1 four_servers) = Inr (True, 1)" by code_simp
  have "even (cf_n (elect 1 four_servers))" "4 \<le> cf_n (elect 1 four_servers)" "(1 :: int) < int (cf_n (elect 1 four_servers))"
    by (simp_all add: elect_def four_servers_def)
  from make_partition_even_overlaps [OF this(1,2) l _ this(3)] show ?thesis by simp
qed

end
