(* ===== verification/Harness_Raft.thy ===== *)
theory Harness_Raft
  imports Harness_Links Raft_Election
begin

text \<open>
  The test harness of Raft, \<^verbatim>\<open>raft/config.go\<close>: starting, crashing, connecting and disconnecting peers,
  the goroutines that read what each peer applies, and the checks on leaders, terms and committed
  entries. The checks read the peers and the logs at different moments, so they take a list with
  what is seen at each of them. Time enters as the number of rounds that a loop makes.
\<close>

section \<open>State\<close>

record ('c, 'd, 'v) raft_config = "(('c, 'd) Raft, 'c gobval, 'd, 'v) config" +
  rc_applyErr :: "string list"
  rc_connected :: "bool list"
  rc_logs :: "(int \<rightharpoonup> ('c, 'd) iface) list"
  rc_t0 :: int
  rc_rpcs0 :: int
  rc_cmds0 :: int
  rc_bytes0 :: int
  rc_maxIndex :: int
  rc_maxIndex0 :: int

section \<open>Connecting, crashing and starting\<close>

definition enable_connected ::
  "bool list \<Rightarrow> (int \<Rightarrow> iname Network \<Rightarrow> iname Network go) \<Rightarrow> int \<Rightarrow> iname Network \<Rightarrow> iname Network go" where
  "enable_connected cn enable j net = bindG (go_index cn j) (\<lambda>c. if c then enable j net else Inr net)"

definition raft_connect :: "int \<Rightarrow> ('c, 'd, 'v) raft_config \<Rightarrow> ('c, 'd, 'v) raft_config go" where
  "raft_connect i cfg =
     bindG (go_update (rc_connected cfg) i True) (\<lambda>cn.
     bindG (foldG (enable_connected cn (\<lambda>j. enable_end True (cf_endnames cfg) i j)) (All cfg) (cf_net cfg)) (\<lambda>net.
     mapG (\<lambda>net'. cfg\<lparr>rc_connected := cn, cf_net := net'\<rparr>)
       (foldG (enable_connected cn (\<lambda>j. enable_end True (cf_endnames cfg) j i)) (All cfg) net)))"

text \<open>Disabling the end from \<open>i\<close> to \<open>j\<close>, if \<open>i\<close> has ends.\<close>

definition disable_if_named :: "string list option list \<Rightarrow> int \<Rightarrow> int \<Rightarrow> iname Network \<Rightarrow> iname Network go" where
  "disable_if_named es i j net =
     bindG (go_index es i) (\<lambda>row. if row \<noteq> None then enable_end False es i j net else Inr net)"

definition raft_disconnect :: "int \<Rightarrow> ('c, 'd, 'v) raft_config \<Rightarrow> ('c, 'd, 'v) raft_config go" where
  "raft_disconnect i cfg =
     bindG (go_update (rc_connected cfg) i False) (\<lambda>cn.
     bindG (foldG (\<lambda>j. disable_if_named (cf_endnames cfg) i j) (All cfg) (cf_net cfg)) (\<lambda>net.
     mapG (\<lambda>net'. cfg\<lparr>rc_connected := cn, cf_net := net'\<rparr>)
       (foldG (\<lambda>j. disable_if_named (cf_endnames cfg) j i) (All cfg) net)))"

text \<open>The last part of \<^verbatim>\<open>crash1\<close>: the storage is replaced by one with the Raft state only.\<close>

definition keep_raft_state :: "int \<Rightarrow> ('c, 'd, 'v) raft_config \<Rightarrow> ('c, 'd, 'v) raft_config go" where
  "keep_raft_state i cfg =
     bindG (go_index (cf_saved cfg) i) (\<lambda>r.
     mapG (\<lambda>s. cfg\<lparr>cf_saved := s\<rparr>)
       (go_update (cf_saved cfg) i
          (map_option (\<lambda>r. Own (SaveRaftState MakePersister (ReadRaftState (saved_persister Persister cfg r)))) r)))"

definition crash1 :: "int \<Rightarrow> ('c, 'd, 'v) raft_config \<Rightarrow> ('c, 'd, 'v) raft_config go" where
  "crash1 i cfg =
     bindG (raft_disconnect i cfg) (\<lambda>c1.
     bindG (copy_saved Persister i (c1\<lparr>cf_net := DeleteServer (Num i) (cf_net c1)\<rparr>)) (\<lambda>c2.
     bindG (kill_current raft_Kill i c2) (keep_raft_state i)))"

definition start1 ::
  "(nat, 'v) Method list \<Rightarrow> int \<Rightarrow> int \<Rightarrow> (nat \<Rightarrow> string) \<Rightarrow> int \<Rightarrow> ('c, 'd, 'v) raft_config \<Rightarrow> ('c, 'd, 'v) raft_config go" where
  "start1 rfm now rnd names i cfg =
     bindG (crash1 i cfg)
       (StartServer Persister (\<lambda>p. Make now rnd (cf_n cfg) i p) (\<lambda>a. [MakeService ''Raft'' rfm a]) names i)"

definition raft_make_config ::
  "(nat, 'v) Method list \<Rightarrow> int \<Rightarrow> (int \<Rightarrow> int) \<Rightarrow> (int \<Rightarrow> nat \<Rightarrow> string) \<Rightarrow> nat \<Rightarrow> bool \<Rightarrow> ('c, 'd, 'v) raft_config go" where
  "raft_make_config rfm now rnd names n unreliable =
     (let cfg = \<lparr>cf_net = LongDelays True (Reliable (\<not> unreliable) MakeNetwork), cf_heap = [], cf_n = n, cf_instances = [],
                 cf_servers = replicate n None, cf_saved = replicate n None, cf_endnames = replicate n None, cf_start = now,
                 rc_applyErr = replicate n '''', rc_connected = replicate n False, rc_logs = replicate n Map.empty,
                 rc_t0 = 0, rc_rpcs0 = 0, rc_cmds0 = 0, rc_bytes0 = 0, rc_maxIndex = 0, rc_maxIndex0 = 0\<rparr>
      in bindG (foldG (\<lambda>i. start1 rfm now (rnd i) (names i) i) (map int [0..<n]) cfg)
           (foldG raft_connect (map int [0..<n])))"

section \<open>Reading what is applied\<close>

datatype apply_error = NoError | DifferentValue | OutOfOrder

definition apply_error_of :: "('c, 'd) ApplyMsg \<Rightarrow> (int \<rightharpoonup> ('c, 'd) iface) list \<Rightarrow> (int \<rightharpoonup> ('c, 'd) iface) \<Rightarrow> apply_error" where
  "apply_error_of m logs own =
     (let err = (if \<exists>log \<in> set logs. case log (CommandIndex m) of None \<Rightarrow> False | Some old \<Rightarrow> old \<noteq> Command m
                 then DifferentValue else NoError)
      in if CommandIndex m > 1 \<and> own (CommandIndex m - 1) = None then OutOfOrder else err)"

text \<open>One turn of the goroutine that reads the channel of server \<open>i\<close>; an error ends the program.\<close>

definition apply_msg :: "int \<Rightarrow> ('c, 'd) ApplyMsg \<Rightarrow> ('c, 'd, 'v) raft_config \<Rightarrow> ('c, 'd, 'v) raft_config go" where
  "apply_msg i m cfg =
     (if \<not> CommandValid m then Inr cfg
      else bindG (go_index (rc_logs cfg) i) (\<lambda>own.
           bindG (go_update (rc_logs cfg) i (own(CommandIndex m \<mapsto> Command m))) (\<lambda>logs'.
             if apply_error_of m (rc_logs cfg) own \<noteq> NoError then Inl LogFatal
             else Inr (cfg\<lparr>rc_logs := logs',
                           rc_maxIndex := (if CommandIndex m > rc_maxIndex cfg then CommandIndex m else rc_maxIndex cfg)\<rparr>))))"

section \<open>Checks on leaders and terms\<close>

text \<open>
  What a loop over the servers sees: for each server whether it is connected and, if it has an
  instance, the state of the peer at the moment it is asked.
\<close>

type_synonym ('c, 'd) sight = "(bool \<times> ('c, 'd) Raft option) list"

fun add_leader :: "int \<Rightarrow> nat \<Rightarrow> (int \<times> nat list) list \<Rightarrow> (int \<times> nat list) list" where
  "add_leader t i [] = [(t, [i])]"
| "add_leader t i ((u, is) # ls) = (if t = u then (u, is @ [i]) # ls else (u, is) # add_leader t i ls)"

fun collect_leaders :: "nat \<Rightarrow> ('c, 'd) sight \<Rightarrow> (int \<times> nat list) list \<Rightarrow> (int \<times> nat list) list go" where
  "collect_leaders i [] ls = Inr ls"
| "collect_leaders i ((connected, rf) # rest) ls =
     (if connected then
        (case rf of
           None \<Rightarrow> Inl NilDereference
         | Some rf \<Rightarrow>
             let (term, leader) = GetState rf
             in collect_leaders (Suc i) rest (if leader then add_leader term i ls else ls))
      else collect_leaders (Suc i) rest ls)"

definition lastTermWithLeader :: "(int \<times> nat list) list \<Rightarrow> int" where
  "lastTermWithLeader ls = fold (\<lambda>(term, _) m. if term > m then term else m) ls (-1)"

definition one_leader_turn :: "('c, 'd) sight \<Rightarrow> nat option go" where
  "one_leader_turn sight =
     bindG (collect_leaders 0 sight []) (\<lambda>leaders.
       if \<exists>(term, is) \<in> set leaders. length is > 1 then Inl TestFatal
       else if leaders \<noteq> []
            then mapG Some (go_index (case map_of leaders (lastTermWithLeader leaders) of None \<Rightarrow> [] | Some is \<Rightarrow> is) 0)
            else Inr None)"

fun one_leader_loop :: "('c, 'd) sight list \<Rightarrow> nat go" where
  "one_leader_loop [] = Inl TestFatal"
| "one_leader_loop (sight # rest) =
     bindG (one_leader_turn sight) (\<lambda>r. case r of Some l \<Rightarrow> Inr l | None \<Rightarrow> one_leader_loop rest)"

text \<open>The argument holds what is seen in each of the rounds, of which there are at most ten.\<close>

definition checkOneLeader :: "('c, 'd) sight list \<Rightarrow> nat go" where
  "checkOneLeader sights = one_leader_loop (take 10 sights)"

fun checkTerms_loop :: "('c, 'd) sight \<Rightarrow> int \<Rightarrow> int go" where
  "checkTerms_loop [] term = Inr term"
| "checkTerms_loop ((connected, rf) # rest) term =
     (if connected then
        (case rf of
           None \<Rightarrow> Inl NilDereference
         | Some rf \<Rightarrow>
             let xterm = fst (GetState rf)
             in if term = -1 then checkTerms_loop rest xterm
                else if term \<noteq> xterm then Inl TestFatal else checkTerms_loop rest term)
      else checkTerms_loop rest term)"

definition checkTerms :: "('c, 'd) sight \<Rightarrow> int go" where
  "checkTerms sight = checkTerms_loop sight (-1)"

fun checkNoLeader :: "('c, 'd) sight \<Rightarrow> unit go" where
  "checkNoLeader [] = Inr ()"
| "checkNoLeader ((connected, rf) # rest) =
     (if connected then
        (case rf of
           None \<Rightarrow> Inl NilDereference
         | Some rf \<Rightarrow> if snd (GetState rf) then Inl TestFatal else checkNoLeader rest)
      else checkNoLeader rest)"

section \<open>Checks on committed entries\<close>

text \<open>\<open>cfgs\<close> holds the configuration at the moment each server is looked at.\<close>

fun nCommitted_loop :: "int \<Rightarrow> int \<Rightarrow> ('c, 'd, 'v) raft_config list \<Rightarrow> int \<Rightarrow> ('c, 'd) iface \<Rightarrow> (int \<times> ('c, 'd) iface) go" where
  "nCommitted_loop index i [] cnt cmd = Inr (cnt, cmd)"
| "nCommitted_loop index i (cfg # cfgs) cnt cmd =
     bindG (go_index (rc_applyErr cfg) i) (\<lambda>err.
       if err \<noteq> '''' then Inl TestFatal
       else bindG (go_index (rc_logs cfg) i) (\<lambda>log.
         case log index of
           None \<Rightarrow> nCommitted_loop index (i + 1) cfgs cnt cmd
         | Some cmd1 \<Rightarrow>
             if cnt > 0 \<and> cmd \<noteq> cmd1 then Inl TestFatal
             else nCommitted_loop index (i + 1) cfgs (cnt + 1) cmd1))"

definition nCommitted :: "('c, 'd, 'v) raft_config list \<Rightarrow> int \<Rightarrow> (int \<times> ('c, 'd) iface) go" where
  "nCommitted cfgs index = nCommitted_loop index 0 cfgs 0 NilIface"

text \<open>
  A turn of \<^verbatim>\<open>wait\<close> sees the logs and, if it goes on, the peers. The result \<open>None\<close> stands for the \<^verbatim>\<open>-1\<close>
  that says that the term has moved on.
\<close>

fun moved_on :: "int \<Rightarrow> ('c, 'd) Raft option list \<Rightarrow> bool go" where
  "moved_on startTerm [] = Inr False"
| "moved_on startTerm (r # rs) =
     (case r of
        None \<Rightarrow> Inl NilDereference
      | Some rf \<Rightarrow> if fst (GetState rf) > startTerm then Inr True else moved_on startTerm rs)"

definition wait_end :: "('c, 'd, 'v) raft_config list \<Rightarrow> int \<Rightarrow> int \<Rightarrow> ('c, 'd) iface option go" where
  "wait_end cfgs index n = bindG (nCommitted cfgs index) (\<lambda>(nd, cmd). if nd < n then Inl TestFatal else Inr (Some cmd))"

fun wait_loop ::
  "int \<Rightarrow> int \<Rightarrow> int \<Rightarrow> (('c, 'd, 'v) raft_config list \<times> ('c, 'd) Raft option list) list \<Rightarrow> ('c, 'd, 'v) raft_config list \<Rightarrow>
   ('c, 'd) iface option go" where
  "wait_loop index n startTerm [] final = wait_end final index n"
| "wait_loop index n startTerm ((cfgs, rfs) # rest) final =
     bindG (nCommitted cfgs index) (\<lambda>(nd, _).
       if nd \<ge> n then wait_end final index n
       else if startTerm > -1
            then bindG (moved_on startTerm rfs) (\<lambda>b. if b then Inr None else wait_loop index n startTerm rest final)
            else wait_loop index n startTerm rest final)"

definition wait :: "int \<Rightarrow> int \<Rightarrow> int \<Rightarrow> (('c, 'd, 'v) raft_config list \<times> ('c, 'd) Raft option list) list \<Rightarrow>
    ('c, 'd, 'v) raft_config list \<Rightarrow> ('c, 'd) iface option go" where
  "wait index n startTerm turns final = wait_loop index n startTerm (take 30 turns) final"

text \<open>
  The inner loop of \<^verbatim>\<open>one\<close> asks the servers in turn, beginning after \<open>starts\<close>, to start agreement on \<open>cmd\<close>;
  \<open>asks\<close> holds what is seen of each server that is asked: whether it is connected, and its peer at the two moments
  at which \<^verbatim>\<open>Start\<close> takes the lock, to read the role and to append. The result has the index, the server that
  was asked last, and for every call of \<^verbatim>\<open>Start\<close> the server, the state in which it read the role and the state that
  it left.
\<close>

type_synonym ('c, 'd) asks = "(bool \<times> (('c, 'd) Raft \<times> ('c, 'd) Raft) option) list"

type_synonym ('c, 'd) start_calls = "(int \<times> ('c, 'd) Raft \<times> ('c, 'd) Raft) list"

fun ask_loop ::
  "int \<Rightarrow> 'c \<Rightarrow> int \<Rightarrow> int \<Rightarrow> ('c, 'd) asks \<Rightarrow> int \<times> int \<times> ('c, 'd) start_calls" where
  "ask_loop now cmd n starts [] = (-1, starts, [])"
| "ask_loop now cmd n starts ((connected, rf) # asks) =
     (let starts = (starts + 1) mod n in
      case (if connected then rf else None) of
        None \<Rightarrow> ask_loop now cmd n starts asks
      | Some (rf0, rf) \<Rightarrow>
          let (rf', index1, _, ok1, _) = Start now rf0 rf cmd
          in if ok1 then (index1, starts, [(starts, rf0, rf')])
             else let (index, starts', calls) = ask_loop now cmd n starts asks in (index, starts', (starts, rf0, rf') # calls))"

fun poll_loop :: "int \<Rightarrow> 'c \<Rightarrow> int \<Rightarrow> ('c, 'd, 'v) raft_config list list \<Rightarrow> bool go" where
  "poll_loop index cmd expected [] = Inr False"
| "poll_loop index cmd expected (cfgs # rest) =
     bindG (nCommitted cfgs index) (\<lambda>(nd, cmd1).
       if nd > 0 \<and> nd \<ge> expected \<and> cmd1 = CommandIface cmd then Inr True else poll_loop index cmd expected rest)"

text \<open>
  A round of \<^verbatim>\<open>one\<close>: the clock and the servers that are asked, and what is seen of the logs in the two
  seconds that follow. The loop ends after ten seconds, when there are no more rounds.
\<close>

record ('c, 'd, 'v) one_round =
  or_now :: int
  or_asks :: "('c, 'd) asks"
  or_polls :: "('c, 'd, 'v) raft_config list list"

fun one_loop :: "'c \<Rightarrow> int \<Rightarrow> bool \<Rightarrow> int \<Rightarrow> int \<Rightarrow> ('c, 'd, 'v) one_round list \<Rightarrow> ('c, 'd) start_calls \<times> int go" where
  "one_loop cmd expected retry n starts [] = ([], Inl TestFatal)"
| "one_loop cmd expected retry n starts (r # rs) =
     (let (index, starts', calls) = ask_loop (or_now r) cmd n starts (or_asks r);
          more = one_loop cmd expected retry n starts' rs
      in if index \<noteq> -1
         then (case poll_loop index cmd expected (or_polls r) of
                 Inl e \<Rightarrow> (calls, Inl e)
               | Inr True \<Rightarrow> (calls, Inr index)
               | Inr False \<Rightarrow> if \<not> retry then (calls, Inl TestFatal) else (calls @ fst more, snd more))
         else (calls @ fst more, snd more))"

definition one :: "'c \<Rightarrow> int \<Rightarrow> bool \<Rightarrow> int \<Rightarrow> ('c, 'd, 'v) one_round list \<Rightarrow> ('c, 'd) start_calls \<times> int go" where
  "one cmd expected retry n rs = one_loop cmd expected retry n 0 rs"

section \<open>Cleaning up and statistics\<close>

definition rpcCount :: "int \<Rightarrow> ('c, 'd, 'v) raft_config \<Rightarrow> int go" where
  "rpcCount server cfg = GetCount (cf_heap cfg) (Num server) (cf_net cfg)"

definition bytesTotal :: "('c, 'd, 'v) raft_config \<Rightarrow> int" where
  "bytesTotal cfg = GetTotalBytes (cf_net cfg)"

definition setunreliable :: "bool \<Rightarrow> ('c, 'd, 'v) raft_config \<Rightarrow> ('c, 'd, 'v) raft_config" where
  "setunreliable unrel cfg = cfg\<lparr>cf_net := Reliable (\<not> unrel) (cf_net cfg)\<rparr>"

definition setlongreordering :: "bool \<Rightarrow> ('c, 'd, 'v) raft_config \<Rightarrow> ('c, 'd, 'v) raft_config" where
  "setlongreordering longrel cfg = cfg\<lparr>cf_net := LongReordering longrel (cf_net cfg)\<rparr>"

definition raft_cleanup :: "bool \<Rightarrow> int \<Rightarrow> ('c, 'd, 'v) raft_config \<Rightarrow> ('c, 'd, 'v) raft_config go" where
  "raft_cleanup = cleanup raft_Kill"

definition raft_begin :: "int \<Rightarrow> ('c, 'd, 'v) raft_config \<Rightarrow> ('c, 'd, 'v) raft_config" where
  "raft_begin now cfg =
     cfg\<lparr>rc_t0 := now, rc_rpcs0 := rpcTotal cfg, rc_bytes0 := bytesTotal cfg, rc_cmds0 := 0, rc_maxIndex0 := rc_maxIndex cfg\<rparr>"

text \<open>The numbers that \<^verbatim>\<open>end\<close> prints: time, peers, RPCs, bytes and agreements.\<close>

definition raft_end :: "bool \<Rightarrow> int \<Rightarrow> ('c, 'd, 'v) raft_config \<Rightarrow> (int \<times> nat \<times> int \<times> int \<times> int) option go" where
  "raft_end failed now cfg =
     mapG (\<lambda>_. if \<not> failed
               then Some (now - rc_t0 cfg, cf_n cfg, rpcTotal cfg - rc_rpcs0 cfg, bytesTotal cfg - rc_bytes0 cfg,
                          rc_maxIndex cfg - rc_maxIndex0 cfg) else None)
       (checkTimeout failed now cfg)"

end
