(* ===== verification/Harness_Isolation.thy ===== *)
theory Harness_Isolation
  imports Harness_Raft
begin

text \<open>
  What the harness of Raft promises its tests: requests travel only between servers that are
  connected, to the instance that was started last, on ends that were made for it; an instance that
  has been replaced can neither send nor receive nor write the storage of its successor; and the
  records of what was applied agree, so that counting how many servers have committed an entry is
  well defined.
\<close>

section \<open>The invariant\<close>

definition connected :: "('c, 'd, 'v) raft_config \<Rightarrow> int \<Rightarrow> bool" where
  "connected cfg i \<longleftrightarrow> valid cfg i \<and> rc_connected cfg ! nat i"

definition links_ok :: "('c, 'd, 'v) raft_config \<Rightarrow> bool" where
  "links_ok cfg \<longleftrightarrow>
     length (rc_connected cfg) = cf_n cfg \<and> (\<forall>i. connected cfg i \<longrightarrow> started cfg i) \<and>
     (\<forall>x. enabled (cf_net cfg) x \<longleftrightarrow> (\<exists>i j. connected cfg i \<and> connected cfg j \<and> x = port cfg i j))"

text \<open>The current instances, the server objects that the network knows, and the storage.\<close>

definition instances_ok :: "('c, 'd, 'v) raft_config \<Rightarrow> bool" where
  "instances_ok cfg \<longleftrightarrow>
     (\<forall>i a. valid cfg i \<longrightarrow> cf_servers cfg ! nat i = Some a \<longrightarrow>
        a < length (cf_instances cfg) \<and> (\<exists>h. Network.servers (cf_net cfg) (Num i) = Some h)) \<and>
     (\<forall>i j a. valid cfg i \<longrightarrow> valid cfg j \<longrightarrow> cf_servers cfg ! nat i = Some a \<longrightarrow> cf_servers cfg ! nat j = Some a \<longrightarrow> i = j) \<and>
     (\<forall>i h. valid cfg i \<longrightarrow> Network.servers (cf_net cfg) (Num i) = Some h \<longrightarrow>
        h < length (cf_heap cfg) \<and> (\<exists>a. cf_servers cfg ! nat i = Some a \<and> serves (cf_heap cfg ! h) a)) \<and>
     (\<forall>i a. valid cfg i \<longrightarrow> cf_saved cfg ! nat i = Some (OfInstance a) \<longrightarrow> cf_servers cfg ! nat i = Some a)"

definition logs_ok :: "('c, 'd, 'v) raft_config \<Rightarrow> bool" where
  "logs_ok cfg \<longleftrightarrow>
     length (rc_logs cfg) = cf_n cfg \<and> rc_applyErr cfg = replicate (cf_n cfg) '''' \<and>
     (\<forall>l \<in> set (rc_logs cfg). \<forall>l' \<in> set (rc_logs cfg). \<forall>k v v'. l k = Some v \<longrightarrow> l' k = Some v' \<longrightarrow> v = v') \<and>
     (\<forall>l \<in> set (rc_logs cfg). \<forall>k v. l k = Some v \<longrightarrow> k \<le> rc_maxIndex cfg \<and> (1 < k \<longrightarrow> l (k - 1) \<noteq> None))"

definition raft_ok :: "('c, 'd, 'v) raft_config \<Rightarrow> bool" where
  "raft_ok cfg \<longleftrightarrow> wired cfg \<and> links_ok cfg \<and> instances_ok cfg \<and> logs_ok cfg"

lemmas raft_parts = raft_ok_def links_ok_def instances_ok_def logs_ok_def

text \<open>A change of other parts of the state.\<close>

lemma raft_ok_cong:
  assumes "raft_ok cfg" "cf_endnames cfg' = cf_endnames cfg" "cf_n cfg' = cf_n cfg" "cf_servers cfg' = cf_servers cfg"
    "cf_saved cfg' = cf_saved cfg" "length (cf_instances cfg') = length (cf_instances cfg)"
    "ends (cf_net cfg') = ends (cf_net cfg)" "connections (cf_net cfg') = connections (cf_net cfg)"
    "enabled (cf_net cfg') = enabled (cf_net cfg)" "Network.servers (cf_net cfg') = Network.servers (cf_net cfg)"
    "length (cf_heap cfg') = length (cf_heap cfg)"
    "\<And>h a. h < length (cf_heap cfg) \<Longrightarrow> serves (cf_heap cfg ! h) a \<Longrightarrow> serves (cf_heap cfg' ! h) a"
    "rc_connected cfg' = rc_connected cfg" "rc_logs cfg' = rc_logs cfg" "rc_applyErr cfg' = rc_applyErr cfg"
    "rc_maxIndex cfg' = rc_maxIndex cfg"
  shows "raft_ok cfg'"
proof -
  have same: "port cfg' = port cfg" "started cfg' = started cfg" "valid cfg' = valid cfg" "connected cfg' = connected cfg"
    using assms(2,3,13) by (auto simp: fun_eq_iff port_def started_def valid_def connected_def)
  have "wired cfg'" by (rule wired_cong [of cfg]) (use assms in \<open>auto simp: raft_ok_def\<close>)
  moreover have "links_ok cfg'" using assms unfolding raft_ok_def links_ok_def same by simp
  moreover have "instances_ok cfg'" using assms(1,4-6,10-12) unfolding raft_ok_def instances_ok_def same by simp blast
  moreover have "logs_ok cfg'" using assms unfolding raft_ok_def logs_ok_def by simp
  ultimately show ?thesis by (simp add: raft_ok_def)
qed

section \<open>Connecting and disconnecting\<close>

lemma foldG_enable_if:
  assumes "\<And>j net. j \<in> set js \<Longrightarrow> f j net = Inr (if c j then Enable (g j) yes net else net)"
  shows "foldG f js net = Inr (enable_set yes (g ` {j \<in> set js. c j}) net)"
  using assms
proof (induction js arbitrary: net)
  case (Cons j js)
  have "{k \<in> set (j # js). c k} = (if c j then insert j {k \<in> set js. c k} else {k \<in> set js. c k})" by auto
  with Cons show ?case by simp
qed simp

text \<open>The configuration with \<open>i\<close> connected or not, and exactly the links between connected servers.\<close>

definition relink :: "bool \<Rightarrow> int \<Rightarrow> ('c, 'd, 'v) raft_config \<Rightarrow> ('c, 'd, 'v) raft_config" where
  "relink yes i cfg =
     (let cn = (rc_connected cfg)[nat i := yes];
          js = {j. valid cfg j \<and> (if yes then cn ! nat j else started cfg j)}
      in cfg\<lparr>rc_connected := cn, cf_net := enable_set yes
           ((if started cfg i then port cfg i ` {j. valid cfg j \<and> (yes \<longrightarrow> cn ! nat j)} else {}) \<union> (\<lambda>j. port cfg j i) ` js) (cf_net cfg)\<rparr>)"

lemma relink_simps [simp]:
  "port (relink yes i cfg) = port cfg" "started (relink yes i cfg) = started cfg" "valid (relink yes i cfg) = valid cfg"
  "cf_n (relink yes i cfg) = cf_n cfg" "cf_endnames (relink yes i cfg) = cf_endnames cfg" "cf_saved (relink yes i cfg) = cf_saved cfg"
  "cf_servers (relink yes i cfg) = cf_servers cfg" "cf_instances (relink yes i cfg) = cf_instances cfg"
  "cf_heap (relink yes i cfg) = cf_heap cfg" "rc_logs (relink yes i cfg) = rc_logs cfg"
  "rc_applyErr (relink yes i cfg) = rc_applyErr cfg" "rc_maxIndex (relink yes i cfg) = rc_maxIndex cfg"
  "rc_connected (relink yes i cfg) = (rc_connected cfg)[nat i := yes]"
  "ends (cf_net (relink yes i cfg)) = ends (cf_net cfg)" "connections (cf_net (relink yes i cfg)) = connections (cf_net cfg)"
  "Network.servers (cf_net (relink yes i cfg)) = Network.servers (cf_net cfg)" "wired (relink yes i cfg) = wired cfg"
  by (simp_all add: relink_def Let_def fun_eq_iff port_def started_def valid_def wired_def enable_set_def)

lemma relink_connected:
  assumes "valid cfg i" "length (rc_connected cfg) = cf_n cfg"
  shows "connected (relink yes i cfg) = (connected cfg)(i := yes)"
proof
  fix k
  show "connected (relink yes i cfg) k = ((connected cfg)(i := yes)) k"
    using assms by (auto simp: connected_def nth_list_update valid_def eq_nat_nat_iff)
qed

lemma raft_disconnect_relink:
  assumes w: "wired cfg" and l: "length (rc_connected cfg) = cf_n cfg" and i: "valid cfg i"
  shows "raft_disconnect i cfg = Inr (relink False i cfg)"
proof -
  have row: "go_index (cf_endnames cfg) k = Inr (cf_endnames cfg ! nat k)" if "valid cfg k" for k
    using w that by (simp add: wired_def valid_def)
  have eq: "disable_if_named (cf_endnames cfg) a b net = Inr (if started cfg a then Enable (port cfg a b) False net else net)"
    if "valid cfg a" "valid cfg b" for a b net
    using row [OF that(1)] enable_end_started [OF w _ that(2), of a] that
    by (simp add: disable_if_named_def) (auto simp: started_def)
  have "foldG (\<lambda>j. disable_if_named (cf_endnames cfg) i j) (All cfg) net =
      Inr (enable_set False (port cfg i ` {j \<in> set (All cfg). started cfg i}) net)" for net
    by (rule foldG_enable_if) (use eq i in \<open>simp add: set_All\<close>)
  moreover have "foldG (\<lambda>j. disable_if_named (cf_endnames cfg) j i) (All cfg) net =
      Inr (enable_set False ((\<lambda>j. port cfg j i) ` {j \<in> set (All cfg). started cfg j}) net)" for net
    by (rule foldG_enable_if) (use eq i in \<open>simp add: set_All\<close>)
  moreover have "go_update (rc_connected cfg) i False = Inr ((rc_connected cfg)[nat i := False])"
    using l i by (simp add: go_update_eq_Inr_iff valid_def)
  ultimately show ?thesis
    by (simp add: raft_disconnect_def relink_def Let_def set_All Un_commute)
qed

lemma raft_connect_relink:
  assumes w: "wired cfg" and l: "length (rc_connected cfg) = cf_n cfg" and i: "started cfg i"
    and c: "\<forall>k. connected cfg k \<longrightarrow> started cfg k"
  shows "raft_connect i cfg = Inr (relink True i cfg)"
proof -
  let ?cn = "(rc_connected cfg)[nat i := True]"
  have vi: "valid cfg i" using i by (simp add: started_def)
  have cn: "go_index ?cn k = Inr (?cn ! nat k)" if "valid cfg k" for k
    using l that by (simp add: valid_def)
  have st: "started cfg k" if "valid cfg k" "?cn ! nat k" for k
    using that c i vi l by (cases "k = i") (auto simp: connected_def nth_list_update valid_def eq_nat_nat_iff split: if_splits)
  have "foldG (enable_connected ?cn (\<lambda>j. enable_end True (cf_endnames cfg) i j)) (All cfg) net =
      Inr (enable_set True (port cfg i ` {j \<in> set (All cfg). ?cn ! nat j}) net)" for net
    by (rule foldG_enable_if) (use cn i in \<open>simp add: set_All enable_connected_def enable_end_started [OF w]\<close>)
  moreover have "foldG (enable_connected ?cn (\<lambda>j. enable_end True (cf_endnames cfg) j i)) (All cfg) net =
      Inr (enable_set True ((\<lambda>j. port cfg j i) ` {j \<in> set (All cfg). ?cn ! nat j}) net)" for net
    by (rule foldG_enable_if) (use cn vi st in \<open>simp add: set_All enable_connected_def enable_end_started [OF w]\<close>)
  moreover have "go_update (rc_connected cfg) i True = Inr ?cn"
    using l vi by (simp add: go_update_eq_Inr_iff valid_def)
  ultimately show ?thesis using i
    by (simp add: raft_connect_def relink_def Let_def set_All Un_commute)
qed

lemma port_eq:
  assumes "wired cfg" "started cfg a" "valid cfg b" "started cfg a'" "valid cfg b'"
  shows "port cfg a b = port cfg a' b' \<longleftrightarrow> a = a' \<and> b = b'"
  using assms by (auto simp: wired_def)

lemma relink_raft_ok:
  assumes ok: "raft_ok cfg" and i: "valid cfg i" and s: "yes \<Longrightarrow> started cfg i"
  shows "raft_ok (relink yes i cfg)"
proof -
  have w: "wired cfg" and l: "length (rc_connected cfg) = cf_n cfg" and c: "\<And>k. connected cfg k \<Longrightarrow> started cfg k \<and> valid cfg k"
    and e: "\<And>x. enabled (cf_net cfg) x \<longleftrightarrow> (\<exists>a b. connected cfg a \<and> connected cfg b \<and> x = port cfg a b)"
    using ok by (auto simp: raft_ok_def links_ok_def connected_def)
  let ?c' = "(connected cfg)(i := yes)"
  note cn = relink_connected [OF i l, of yes]
  have "enabled (cf_net (relink yes i cfg)) x \<longleftrightarrow> (\<exists>a b. ?c' a \<and> ?c' b \<and> x = port cfg a b)" for x
  proof (cases yes)
    case True
    have "{j. valid cfg j \<and> (rc_connected cfg)[nat i := True] ! nat j} = {j. ?c' j}"
      using cn True by (auto simp: connected_def fun_eq_iff)
    then have 1: "enabled (cf_net (relink yes i cfg)) x \<longleftrightarrow>
        (\<exists>j. ?c' j \<and> (x = port cfg i j \<or> x = port cfg j i)) \<or> enabled (cf_net cfg) x"
      using s True by (auto simp: relink_def Let_def)
    have "?c' = (\<lambda>k. k = i \<or> connected cfg k)" using True by (auto simp: fun_eq_iff)
    then show ?thesis unfolding 1 e by (simp only:) blast
  next
    case False
    have "enabled (cf_net (relink yes i cfg)) x \<longleftrightarrow> enabled (cf_net cfg) x \<and>
        \<not> (started cfg i \<and> (\<exists>j. valid cfg j \<and> x = port cfg i j)) \<and> \<not> (\<exists>j. started cfg j \<and> x = port cfg j i)"
      using False by (auto simp: relink_def Let_def started_def)
    also have "\<dots> \<longleftrightarrow> (\<exists>a b. connected cfg a \<and> connected cfg b \<and> x = port cfg a b \<and> a \<noteq> i \<and> b \<noteq> i)"
    proof -
      define Q where "Q \<longleftrightarrow> \<not> (started cfg i \<and> (\<exists>j. valid cfg j \<and> x = port cfg i j)) \<and> \<not> (\<exists>j. started cfg j \<and> x = port cfg j i)"
      have "Q \<longleftrightarrow> a \<noteq> i \<and> b \<noteq> i" if "connected cfg a" "connected cfg b" "x = port cfg a b" for a b
        using port_eq [OF w, of a b] c [OF that(1)] c [OF that(2)] i that(3) by (auto simp: Q_def)
      then show ?thesis unfolding e Q_def [symmetric] by blast
    qed
    also have "\<dots> \<longleftrightarrow> (\<exists>a b. ?c' a \<and> ?c' b \<and> x = port cfg a b)"
    proof -
      have "?c' = (\<lambda>k. connected cfg k \<and> k \<noteq> i)" using False by (auto simp: fun_eq_iff)
      then show ?thesis by (simp only:) blast
    qed
    finally show ?thesis .
  qed
  then have "links_ok (relink yes i cfg)" using ok s c by (auto simp: raft_ok_def links_ok_def cn)
  then show ?thesis using ok by (simp add: raft_ok_def instances_ok_def logs_ok_def)
qed

section \<open>Crashing and starting\<close>

text \<open>The storage that \<^verbatim>\<open>crash1\<close> leaves behind: the Raft state of the old one, and no snapshot.\<close>

definition crash_copy :: "('c gobval, 'd) Persister \<Rightarrow> ('c gobval, 'd) Persister" where
  "crash_copy p = SaveRaftState MakePersister (ReadRaftState p)"

definition crashed_saved :: "int \<Rightarrow> ('c, 'd, 'v) raft_config \<Rightarrow> ('c gobval, 'd) saved_ref option" where
  "crashed_saved i cfg = map_option (\<lambda>r. Own (crash_copy (saved_persister Persister cfg r))) (cf_saved cfg ! nat i)"

lemma go_update_in_range: "0 \<le> i \<Longrightarrow> i < int (length xs) \<Longrightarrow> go_update xs i x = Inr (xs[nat i := x])"
  by (simp add: go_update_eq_Inr_iff)

lemma crash1_frame:
  assumes "crash1 i cfg = Inr cfg'" "raft_ok cfg"
  obtains insts where "valid cfg i" "length insts = length (cf_instances cfg)"
    and "\<forall>k < length insts. insts ! k = cf_instances cfg ! k \<or> insts ! k = raft_Kill (cf_instances cfg ! k)"
    and "cfg' = (relink False i cfg)\<lparr>cf_net := DeleteServer (Num i) (cf_net (relink False i cfg)),
           cf_instances := insts, cf_servers := (cf_servers cfg)[nat i := None],
           cf_saved := (cf_saved cfg)[nat i := crashed_saved i cfg]\<rparr>"
proof -
  let ?r = "relink False i cfg"
  have w: "wired cfg" "length (rc_connected cfg) = cf_n cfg" using assms(2) by (auto simp: raft_ok_def links_ok_def)
  from assms(1) obtain c1 where c1: "raft_disconnect i cfg = Inr c1" by (auto simp: crash1_def bindG_eq_Inr_iff)
  then have i: "valid cfg i" using w(2)
    by (auto simp: raft_disconnect_def bindG_eq_Inr_iff go_update_eq_Inr_iff valid_def)
  then have r: "raft_disconnect i cfg = Inr ?r" using raft_disconnect_relink [OF w] by simp
  have len: "nat i < length (cf_servers cfg)" "nat i < length (cf_saved cfg)"
    using w i by (auto simp: wired_def valid_def nat_less_iff)
  have i': "0 \<le> i" "i < int (length (cf_servers cfg))" "i < int (length (cf_saved cfg))"
    using w i by (auto simp: wired_def valid_def)
  let ?net = "DeleteServer (Num i) (cf_net ?r)"
  let ?copied = "map_option (\<lambda>r. Own (Copy (saved_persister Persister cfg r))) (cf_saved cfg ! nat i)"
  let ?c2 = "?r\<lparr>cf_net := ?net, cf_saved := (cf_saved cfg)[nat i := ?copied]\<rparr>"
  have 2: "copy_saved Persister i (?r\<lparr>cf_net := ?net\<rparr>) = Inr ?c2"
    using i' by (simp add: copy_saved_def go_update_in_range saved_persister_def [abs_def])
  obtain insts where 3: "kill_current raft_Kill i ?c2 = Inr (?c2\<lparr>cf_instances := insts, cf_servers := (cf_servers cfg)[nat i := None]\<rparr>)"
    "length insts = length (cf_instances cfg)"
    "\<forall>k < length insts. insts ! k = cf_instances cfg ! k \<or> insts ! k = raft_Kill (cf_instances cfg ! k)"
  proof (cases "cf_servers cfg ! nat i")
    case None
    then have "(cf_servers cfg)[nat i := None] = cf_servers cfg" by (metis list_update_id)
    with None i' show ?thesis by (intro that [of "cf_instances cfg"]) (simp_all add: kill_current_def go_update_in_range)
  next
    case (Some a)
    let ?insts = "(cf_instances cfg)[a := raft_Kill (cf_instances cfg ! a)]"
    have "?insts ! k = cf_instances cfg ! k \<or> ?insts ! k = raft_Kill (cf_instances cfg ! k)" if "k < length ?insts" for k
      using that by (cases "k = a") simp_all
    with i' Some show ?thesis by (intro that [of ?insts]) (simp_all add: kill_current_def go_update_in_range)
  qed
  let ?c3 = "?c2\<lparr>cf_instances := insts, cf_servers := (cf_servers cfg)[nat i := None]\<rparr>"
  have "keep_raft_state i ?c3 = Inr (?c3\<lparr>cf_saved := (cf_saved cfg)[nat i := crashed_saved i cfg]\<rparr>)"
    using i' len by (simp add: keep_raft_state_def go_update_in_range crashed_saved_def crash_copy_def option.map_comp comp_def saved_persister_def
        persister.state_copy)
  with assms(1) r 2 3(1) have "cfg' = ?c3\<lparr>cf_saved := (cf_saved cfg)[nat i := crashed_saved i cfg]\<rparr>"
    by (simp add: crash1_def)
  then show thesis using that [OF i 3(2,3)] by simp
qed

lemma crash1_raft_ok:
  assumes "crash1 i cfg = Inr cfg'" "raft_ok cfg"
  shows "raft_ok cfg'" "valid cfg i" "connected cfg' = (connected cfg)(i := False)" "started cfg' = started cfg"
    "cf_n cfg' = cf_n cfg" "cf_servers cfg' ! nat i = None" "Network.servers (cf_net cfg') (Num i) = None"
    "rc_logs cfg' = rc_logs cfg"
proof -
  let ?r = "relink False i cfg"
  let ?sv = "(cf_saved cfg)[nat i := crashed_saved i cfg]"
  obtain insts where f: "valid cfg i" "length insts = length (cf_instances cfg)"
    and c': "cfg' = ?r\<lparr>cf_net := DeleteServer (Num i) (cf_net ?r), cf_instances := insts,
      cf_servers := (cf_servers cfg)[nat i := None], cf_saved := ?sv\<rparr>" by (rule crash1_frame [OF assms])
  note r = relink_raft_ok [OF assms(2) f(1), of False, simplified]
  have len: "nat i < length (cf_servers cfg)" "length (rc_connected cfg) = cf_n cfg" "nat i < length (cf_saved cfg)"
    using f(1) assms(2) by (auto simp: raft_ok_def wired_def links_ok_def valid_def nat_less_iff)
  have same: "port cfg' = port ?r" "started cfg' = started ?r" "valid cfg' = valid ?r" "connected cfg' = connected ?r"
    by (auto simp: fun_eq_iff c' port_def started_def valid_def connected_def)
  have "wired cfg'" by (rule wired_cong [of ?r]) (use r f in \<open>auto simp: c' raft_ok_def DeleteServer_def\<close>)
  moreover have "links_ok cfg'" using r unfolding raft_ok_def links_ok_def same by (simp add: c' DeleteServer_def)
  moreover have "logs_ok cfg'" using r unfolding raft_ok_def logs_ok_def by (simp add: c')
  moreover have "instances_ok cfg'"
  proof -
    have ne: "nat k \<noteq> nat i" if "valid cfg k" "k \<noteq> i" for k using that f(1) by (auto simp: valid_def)
    have sv: "cf_servers cfg' ! nat k = (if k = i then None else cf_servers cfg ! nat k)"
      "cf_saved cfg' ! nat k = (if k = i then crashed_saved i cfg else cf_saved cfg ! nat k)"
      "Network.servers (cf_net cfg') (Num k) = (if k = i then None else Network.servers (cf_net cfg) (Num k))"
      if "valid cfg k" for k
      using ne [OF that] len by (auto simp: c' DeleteServer_def)
    have "crashed_saved i cfg \<noteq> Some (OfInstance a)" for a by (auto simp: crashed_saved_def)
    moreover    have "cf_heap cfg' = cf_heap cfg" "length (cf_instances cfg') = length (cf_instances cfg)" using f(2) by (simp_all add: c')
    ultimately show ?thesis using assms(2) unfolding raft_ok_def instances_ok_def same
      by (simp add: sv split: if_split_asm)
  qed
  ultimately show "raft_ok cfg'" by (simp add: raft_ok_def)
  show "connected cfg' = (connected cfg)(i := False)" using same(4) relink_connected [OF f(1) len(2)] by simp
  show "started cfg' = started cfg" using same(2) by simp
  show "valid cfg i" by (rule f(1))
  show "cf_n cfg' = cf_n cfg" "cf_servers cfg' ! nat i = None" "Network.servers (cf_net cfg') (Num i) = None"
    "rc_logs cfg' = rc_logs cfg" using len(1) by (simp_all add: c' DeleteServer_def)
qed

lemma StartServer_result:
  assumes "StartServer pers start services names i cfg = Inr cfg'"
  obtains net p where "make_ends (map names [0..<cf_n cfg]) 0 (cf_net cfg) = Inr net" "fresh_saved pers i cfg = Inr p"
    and "cfg' = cfg\<lparr>cf_endnames := (cf_endnames cfg)[nat i := Some (map names [0..<cf_n cfg])],
           cf_net := AddServer (Num i) (length (cf_heap cfg)) net, cf_instances := cf_instances cfg @ [start p],
           cf_servers := (cf_servers cfg)[nat i := Some (length (cf_instances cfg))],
           cf_saved := (cf_saved cfg)[nat i := Some (OfInstance (length (cf_instances cfg)))],
           cf_heap := cf_heap cfg @ [fold (\<lambda>svc rs. AddService rs svc) (services (length (cf_instances cfg))) MakeServer]\<rparr>"
  using assms
  by (auto simp: StartServer_def add_instance_def bindG_eq_Inr_iff mapG_eq_Inr_iff go_update_eq_Inr_iff Let_def)

text \<open>A new instance in the place of a server.\<close>

lemma new_instance_ok:
  assumes I: "instances_ok c" and w: "wired c" "valid c i" and e: "Network.servers net = Network.servers (cf_net c)"
    and c': "cfg' = c\<lparr>cf_endnames := es, cf_net := AddServer (Num i) (length (cf_heap c)) net,
           cf_instances := cf_instances c @ [inst], cf_servers := (cf_servers c)[nat i := Some (length (cf_instances c))],
           cf_saved := (cf_saved c)[nat i := Some (OfInstance (length (cf_instances c)))],
           cf_heap := cf_heap c @ [fold (\<lambda>svc rs. AddService rs svc) [MakeService ''Raft'' rfm (length (cf_instances c))] MakeServer]\<rparr>"
  shows "instances_ok cfg'"
proof -
  let ?a = "length (cf_instances c)"
  have len: "nat i < length (cf_servers c)" "nat i < length (cf_saved c)"
    using w by (auto simp: wired_def valid_def nat_less_iff)
  have ne: "nat k \<noteq> nat i" if "valid c k" "k \<noteq> i" for k using that w(2) by (auto simp: valid_def)
  have sv: "cf_servers cfg' ! nat k = (if k = i then Some ?a else cf_servers c ! nat k)"
    "cf_saved cfg' ! nat k = (if k = i then Some (OfInstance ?a) else cf_saved c ! nat k)"
    "Network.servers (cf_net cfg') (Num k) = (if k = i then Some (length (cf_heap c)) else Network.servers (cf_net c) (Num k))"
    if "valid c k" for k
    using ne [OF that] len e by (auto simp: c' AddServer_def)
  have hp: "length (cf_heap cfg') = Suc (length (cf_heap c))" "length (cf_instances cfg') = Suc ?a"
    "\<And>h. h < length (cf_heap c) \<Longrightarrow> cf_heap cfg' ! h = cf_heap c ! h"
    "serves (cf_heap cfg' ! length (cf_heap c)) ?a"
    by (simp_all add: c' nth_append serves_def AddService_def MakeServer_def MakeService_def)
  have below: "a < ?a" if "cf_servers c ! nat k = Some a" "valid c k" for k a using I that by (simp add: instances_ok_def)
  have one: "k = k'" if "cf_servers c ! nat k = Some a" "cf_servers c ! nat k' = Some a" "valid c k" "valid c k'" for k k' a
    using I that by (simp add: instances_ok_def)
  have v: "valid cfg' = valid c" by (simp add: fun_eq_iff valid_def c')
  show ?thesis unfolding instances_ok_def v
  proof (intro conjI allI impI)
    fix j a assume j: "valid c j" and "cf_servers cfg' ! nat j = Some a"
    with I hp(2) show "a < length (cf_instances cfg')" "\<exists>h. Network.servers (cf_net cfg') (Num j) = Some h"
      by (auto simp: sv instances_ok_def less_SucI split: if_splits)
    fix j' assume "valid c j'" "cf_servers cfg' ! nat j' = Some a"
    with j \<open>cf_servers cfg' ! nat j = Some a\<close> show "j = j'"
      by (cases "j = i"; cases "j' = i") (auto simp: sv dest: below one)
  next
    fix j h assume "valid c j" "Network.servers (cf_net cfg') (Num j) = Some h"
    with I hp show "h < length (cf_heap cfg')" "\<exists>a. cf_servers cfg' ! nat j = Some a \<and> serves (cf_heap cfg' ! h) a"
      by (auto simp: sv instances_ok_def less_SucI split: if_splits)
  next
    fix j a assume "valid c j" "cf_saved cfg' ! nat j = Some (OfInstance a)"
    with I show "cf_servers cfg' ! nat j = Some a" by (auto simp: sv instances_ok_def split: if_splits)
  qed
qed

lemma start1_raft_ok:
  assumes "start1 rfm now rnd names i cfg = Inr cfg'" "raft_ok cfg"
  shows "raft_ok cfg'" "started cfg' = (started cfg)(i := True)" "cf_n cfg' = cf_n cfg" "rc_logs cfg' = rc_logs cfg"
proof -
  from assms(1) obtain c where c: "crash1 i cfg = Inr c"
    and s: "StartServer Persister (\<lambda>p. Make now rnd (cf_n cfg) i p) (\<lambda>a. [MakeService ''Raft'' rfm a]) names i c = Inr cfg'"
    by (auto simp: start1_def bindG_eq_Inr_iff)
  note k = crash1_raft_ok [OF c assms(2)]
  have w: "wired c" using k(1) by (simp add: raft_ok_def)
  let ?row = "map names [0..<cf_n c]" and ?a = "length (cf_instances c)"
  obtain net p where net: "make_ends ?row 0 (cf_net c) = Inr net"
    and c': "cfg' = c\<lparr>cf_endnames := (cf_endnames c)[nat i := Some ?row],
           cf_net := AddServer (Num i) (length (cf_heap c)) net,
           cf_instances := cf_instances c @ [Make now rnd (cf_n cfg) i p],
           cf_servers := (cf_servers c)[nat i := Some ?a], cf_saved := (cf_saved c)[nat i := Some (OfInstance ?a)],
           cf_heap := cf_heap c @ [fold (\<lambda>svc rs. AddService rs svc) [MakeService ''Raft'' rfm ?a] MakeServer]\<rparr>"
    by (rule StartServer_result [OF s])
  note w' = StartServer_wired [OF w s]
  note e = make_ends_ok [OF net]
  show st: "started cfg' = (started cfg)(i := True)" using w'(3) k(4) by simp
  show n: "cf_n cfg' = cf_n cfg" using w'(4) k(5) by simp
  show lg: "rc_logs cfg' = rc_logs cfg" using k(8) by (simp add: c')
  have v: "valid cfg' = valid c" by (simp add: fun_eq_iff valid_def c')
  have cn: "connected cfg' = connected c" by (simp add: fun_eq_iff connected_def v) (simp add: c')
  have ni: "\<not> connected c i" using k(3) by simp
  have old: "port cfg' a b = port c a b" if "connected c a" for a b
  proof -
    have "nat a \<noteq> nat i" using that ni w'(2) by (auto simp: connected_def valid_def)
    then show ?thesis by (simp add: port_def c')
  qed
  have "enabled (cf_net cfg') x \<longleftrightarrow> enabled (cf_net c) x" for x
  proof (cases "x \<in> Port ` set ?row")
    case True
    then have "\<not> enabled net x" "ends (cf_net c) x = None" using e(2,3) by auto
    moreover have "\<not> enabled (cf_net c) x"
    proof
      assume "enabled (cf_net c) x"
      then obtain a b where "connected c a" "connected c b" "x = port c a b" using k(1) by (auto simp: raft_ok_def links_ok_def)
      then have "ends (cf_net c) x \<noteq> None" using k(1) by (auto simp: raft_ok_def links_ok_def wired_def connected_def)
      with \<open>ends (cf_net c) x = None\<close> show False by simp
    qed
    ultimately show ?thesis by (simp add: c' AddServer_def)
  qed (use e(5) in \<open>simp add: c' AddServer_def\<close>)
  moreover have "(\<exists>a b. connected c a \<and> connected c b \<and> x = port cfg' a b) \<longleftrightarrow>
      (\<exists>a b. connected c a \<and> connected c b \<and> x = port c a b)" for x
    by (simp add: old cong: conj_cong)
  ultimately have "links_ok cfg'" using k(1) w'(3) unfolding raft_ok_def links_ok_def cn by (simp add: c')
  moreover have "instances_ok cfg'"
    by (rule new_instance_ok [OF _ w w'(2) e(6) c']) (use k(1) in \<open>simp add: raft_ok_def\<close>)
  moreover have "logs_ok cfg'" using k(1) unfolding raft_ok_def logs_ok_def by (simp add: c')
  ultimately show "raft_ok cfg'" using w'(1) by (simp add: raft_ok_def)
qed

section \<open>Storage\<close>

text \<open>
  Every instance could be restarted from its storage; the storage of a server is that of its current
  instance; and what \<^verbatim>\<open>crash1\<close> has put aside can be restarted from.
\<close>

definition storage_ok :: "('c, 'd, 'v) raft_config \<Rightarrow> bool" where
  "storage_ok cfg \<longleftrightarrow>
     (\<forall>rf \<in> set (cf_instances cfg). durable rf) \<and>
     (\<forall>i a. valid cfg i \<longrightarrow> cf_servers cfg ! nat i = Some a \<longrightarrow> cf_saved cfg ! nat i = Some (OfInstance a) \<and>
        me (cf_instances cfg ! a) = i \<and> peers (cf_instances cfg ! a) = cf_n cfg) \<and>
     (\<forall>i p. valid cfg i \<longrightarrow> cf_saved cfg ! nat i = Some (Own p) \<longrightarrow> Log (Make 0 0 (cf_n cfg) i p) \<noteq> [])"

lemma durable_Kill [intro]: "durable rf \<Longrightarrow> durable (raft_Kill rf)"
  by (rule durable_cong) (simp_all add: raft_Kill_def)

lemma Copy_id: "Copy p = p"
  by (cases p) (simp add: Copy_def MakePersister_def)

lemma durable_Make: "Log (Make now rnd n i p) \<noteq> [] \<Longrightarrow> durable (Make now rnd n i p)"
  using Make_timer_irrelevant [of now rnd n i p 0 0]
  by (simp add: durable_def recovered_def Make_frame Copy_id)

text \<open>Term, vote and log come from the Raft state alone.\<close>

lemma Make_crash_copy:
  "CurrentTerm (Make now rnd n i (crash_copy p)) = CurrentTerm (Make now rnd n i p)"
  "VotedFor (Make now rnd n i (crash_copy p)) = VotedFor (Make now rnd n i p)"
  "Log (Make now rnd n i (crash_copy p)) = Log (Make now rnd n i p)"
  "Storage (snapshot (Make now rnd n i (crash_copy p))) = []"
  by (auto simp: Make_def Let_def crash_copy_def SaveRaftState_def MakePersister_def ReadRaftState_def ReadSnapshot_def
      readPersist_def decodeState_def snapshotEntry_def resetElectionTimer_def split: option.splits)

lemma durable_Log:
  assumes "durable rf"
  shows "CurrentTerm (Make now rnd (peers rf) (me rf) (Persister rf)) = CurrentTerm rf"
    "VotedFor (Make now rnd (peers rf) (me rf) (Persister rf)) = VotedFor rf"
    "Log (Make now rnd (peers rf) (me rf) (Persister rf)) = Log rf" "Log rf \<noteq> []"
  using assms Make_timer_irrelevant [of now rnd "peers rf" "me rf" "Persister rf" 0 0]
  by (simp_all add: durable_def recovered_def Copy_id)

lemma crashed_storage:
  assumes ok: "raft_ok cfg" "storage_ok cfg" and i: "valid cfg i" and p: "crashed_saved i cfg = Some (Own p)"
  shows "Log (Make 0 0 (cf_n cfg) i p) \<noteq> []"
proof -
  from p obtain r where r: "cf_saved cfg ! nat i = Some r" "p = crash_copy (saved_persister Persister cfg r)"
    by (auto simp: crashed_saved_def)
  have "Log (Make 0 0 (cf_n cfg) i (saved_persister Persister cfg r)) \<noteq> []"
  proof (cases r)
    case (Own q)
    with ok(2) i r(1) show ?thesis by (simp add: storage_ok_def saved_persister_def)
  next
    case (OfInstance a)
    then have a: "cf_servers cfg ! nat i = Some a" "a < length (cf_instances cfg)"
      using ok(1) i r(1) by (auto simp: raft_ok_def instances_ok_def)
    then have d: "durable (cf_instances cfg ! a)" and m: "me (cf_instances cfg ! a) = i" "peers (cf_instances cfg ! a) = cf_n cfg"
      using ok(2) i by (auto simp: storage_ok_def)
    from durable_Log(3) [OF d, of 0 0, unfolded m] durable_Log(4) [OF d] OfInstance show ?thesis by (simp add: saved_persister_def)
  qed
  then show ?thesis by (simp add: r(2) Make_crash_copy)
qed

lemma crash1_storage_ok:
  assumes "crash1 i cfg = Inr cfg'" "raft_ok cfg" "storage_ok cfg"
  shows "storage_ok cfg'" "cf_saved cfg' ! nat i = crashed_saved i cfg"
proof -
  let ?r = "relink False i cfg"
  obtain insts where i: "valid cfg i" and l: "length insts = length (cf_instances cfg)"
    and k: "\<forall>k < length insts. insts ! k = cf_instances cfg ! k \<or> insts ! k = raft_Kill (cf_instances cfg ! k)"
    and c': "cfg' = ?r\<lparr>cf_net := DeleteServer (Num i) (cf_net ?r), cf_instances := insts,
      cf_servers := (cf_servers cfg)[nat i := None], cf_saved := (cf_saved cfg)[nat i := crashed_saved i cfg]\<rparr>"
    by (rule crash1_frame [OF assms(1,2)])
  have len: "nat i < length (cf_servers cfg)" "nat i < length (cf_saved cfg)"
    using i assms(2) by (auto simp: raft_ok_def wired_def valid_def nat_less_iff)
  show sv: "cf_saved cfg' ! nat i = crashed_saved i cfg" using len by (simp add: c')
  have v: "valid cfg' = valid cfg" by (simp add: fun_eq_iff valid_def c')
  have ne: "nat k \<noteq> nat i" if "valid cfg k" "k \<noteq> i" for k using that i by (auto simp: valid_def)
  have same: "me (insts ! k) = me (cf_instances cfg ! k)" "peers (insts ! k) = peers (cf_instances cfg ! k)" if "k < length insts" for k
    using k that by (auto simp: raft_Kill_def dest!: spec)
  show "storage_ok cfg'" unfolding storage_ok_def v
  proof (intro conjI ballI allI impI)
    fix rf assume "rf \<in> set (cf_instances cfg')"
    then obtain k' where k': "k' < length insts" "rf = insts ! k'" by (auto simp: c' in_set_conv_nth)
    then have "durable (cf_instances cfg ! k')" using assms(3) l by (simp add: storage_ok_def)
    with k k' durable_Kill show "durable rf" by metis
  next
    fix j a assume j: "valid cfg j" and a: "cf_servers cfg' ! nat j = Some a"
    then have ji: "j \<noteq> i" using len by (auto simp: c')
    with a ne [OF j] have a0: "cf_servers cfg ! nat j = Some a" by (simp add: c')
    with j assms(2) have "a < length insts" by (simp add: raft_ok_def instances_ok_def l)
    with same a0 j ji ne [OF j] assms(3) show "cf_saved cfg' ! nat j = Some (OfInstance a)"
      "me (cf_instances cfg' ! a) = j" "peers (cf_instances cfg' ! a) = cf_n cfg'"
      by (auto simp: c' storage_ok_def)
  next
    fix j p assume j: "valid cfg j" and p: "cf_saved cfg' ! nat j = Some (Own p)"
    show "Log (Make 0 0 (cf_n cfg') j p) \<noteq> []"
    proof (cases "j = i")
      case True
      with crashed_storage [OF assms(2,3) i] p sv show ?thesis by (simp add: c')
    next
      case False
      with p ne [OF j] j assms(3) show ?thesis by (simp add: c' storage_ok_def)
    qed
  qed
qed

lemma start1_storage_ok:
  assumes "start1 rfm now rnd names i cfg = Inr cfg'" "raft_ok cfg" "storage_ok cfg"
  shows "storage_ok cfg'"
    and "\<exists>a. cf_servers cfg' ! nat i = Some a \<and> cf_instances cfg' ! a = Make now rnd (cf_n cfg) i
      (case cf_saved cfg ! nat i of None \<Rightarrow> MakePersister | Some r \<Rightarrow> crash_copy (saved_persister Persister cfg r))"
proof -
  from assms(1) obtain c where c: "crash1 i cfg = Inr c"
    and s: "StartServer Persister (\<lambda>p. Make now rnd (cf_n cfg) i p) (\<lambda>a. [MakeService ''Raft'' rfm a]) names i c = Inr cfg'"
    by (auto simp: start1_def bindG_eq_Inr_iff)
  note k = crash1_raft_ok [OF c assms(2)] and st = crash1_storage_ok [OF c assms(2,3)]
  let ?row = "map names [0..<cf_n c]" and ?a = "length (cf_instances c)"
  obtain net p where p: "fresh_saved Persister i c = Inr p"
    and c': "cfg' = c\<lparr>cf_endnames := (cf_endnames c)[nat i := Some ?row],
           cf_net := AddServer (Num i) (length (cf_heap c)) net,
           cf_instances := cf_instances c @ [Make now rnd (cf_n cfg) i p],
           cf_servers := (cf_servers c)[nat i := Some ?a], cf_saved := (cf_saved c)[nat i := Some (OfInstance ?a)],
           cf_heap := cf_heap c @ [fold (\<lambda>svc rs. AddService rs svc) [MakeService ''Raft'' rfm ?a] MakeServer]\<rparr>"
    by (rule StartServer_result [OF s])
  have w: "wired c" using k(1) by (simp add: raft_ok_def)
  have v: "valid cfg' = valid c" "valid c = valid cfg" using k(5) by (simp_all add: fun_eq_iff valid_def c')
  have len: "nat i < length (cf_servers c)" "nat i < length (cf_saved c)" "0 \<le> i" "i < int (length (cf_saved c))"
    using w k(2,5) by (auto simp: wired_def valid_def nat_less_iff)
  have p_is: "p = (case cf_saved cfg ! nat i of None \<Rightarrow> MakePersister | Some r \<Rightarrow> crash_copy (saved_persister Persister cfg r))"
    using p len(3,4) st(2) by (auto simp: fresh_saved_def crashed_saved_def Copy_id saved_persister_def split: option.splits)
  then show "\<exists>a. cf_servers cfg' ! nat i = Some a \<and> cf_instances cfg' ! a = Make now rnd (cf_n cfg) i
      (case cf_saved cfg ! nat i of None \<Rightarrow> MakePersister | Some r \<Rightarrow> crash_copy (saved_persister Persister cfg r))"
    using len(1) by (intro exI [of _ ?a]) (simp add: c')
  have "durable (Make now rnd (cf_n cfg) i p)"
  proof (cases "cf_saved cfg ! nat i")
    case None
    then show ?thesis by (simp add: p_is durable_Make_fresh)
  next
    case (Some r)
    then have "crashed_saved i cfg = Some (Own p)" by (simp add: crashed_saved_def p_is)
    from crashed_storage [OF assms(2,3) k(2) this] Make_timer_irrelevant(3) [of now rnd "cf_n cfg" i p 0 0]
    show ?thesis by (intro durable_Make) simp
  qed
  moreover have "nat i = nat j \<longleftrightarrow> i = j" if "valid c j" for j using that k(2) v(2) by (auto simp: valid_def)
  moreover have "a < ?a" if "valid c j" "cf_servers c ! nat j = Some a" for j a
    using that k(1) by (simp add: raft_ok_def instances_ok_def)
  ultimately show "storage_ok cfg'" unfolding storage_ok_def v(1)
    using st(1) len(1,2) k(5)
    by (auto simp: c' storage_ok_def nth_append nth_list_update Make_frame split: if_splits)
qed

section \<open>What was applied\<close>

lemma apply_msg_result:
  assumes "apply_msg i m cfg = Inr cfg'" "CommandValid m"
  obtains "nat i < length (rc_logs cfg)"
    and "\<forall>l \<in> set (rc_logs cfg). \<forall>old. l (CommandIndex m) = Some old \<longrightarrow> old = Command m"
    and "1 < CommandIndex m \<longrightarrow> (rc_logs cfg ! nat i) (CommandIndex m - 1) \<noteq> None"
    and "cfg' = cfg\<lparr>rc_logs := (rc_logs cfg)[nat i := (rc_logs cfg ! nat i)(CommandIndex m \<mapsto> Command m)],
           rc_maxIndex := max (CommandIndex m) (rc_maxIndex cfg)\<rparr>"
proof -
  from assms have "0 \<le> i" "i < int (length (rc_logs cfg))" "apply_error_of m (rc_logs cfg) (rc_logs cfg ! nat i) = NoError"
    "cfg' = cfg\<lparr>rc_logs := (rc_logs cfg)[nat i := (rc_logs cfg ! nat i)(CommandIndex m \<mapsto> Command m)],
           rc_maxIndex := max (CommandIndex m) (rc_maxIndex cfg)\<rparr>"
    by (auto simp: apply_msg_def bindG_eq_Inr_iff go_index_def go_update_eq_Inr_iff max_def split: if_splits)
  then show thesis by (intro that) (auto simp: apply_error_of_def valid_def Let_def split: if_splits)
qed

lemma logs_update_cases:
  "l \<in> set (ls[k := f]) \<Longrightarrow> l = f \<or> l \<in> set ls"
  using set_update_subset_insert [of ls k f] by auto

lemma apply_msg_raft_ok:
  assumes "apply_msg i m cfg = Inr cfg'" "raft_ok cfg"
  shows "raft_ok cfg'"
proof (cases "CommandValid m")
  case True
  let ?k = "CommandIndex m" and ?own = "rc_logs cfg ! nat i"
  let ?new = "?own(?k \<mapsto> Command m)"
  obtain len: "nat i < length (rc_logs cfg)"
    and same: "\<forall>l \<in> set (rc_logs cfg). \<forall>old. l ?k = Some old \<longrightarrow> old = Command m"
    and prev: "1 < ?k \<longrightarrow> ?own (?k - 1) \<noteq> None"
    and c': "cfg' = cfg\<lparr>rc_logs := (rc_logs cfg)[nat i := ?new], rc_maxIndex := max ?k (rc_maxIndex cfg)\<rparr>"
    by (rule apply_msg_result [OF assms(1) True])
  have own: "?own \<in> set (rc_logs cfg)" using len by simp
  have L: "logs_ok cfg" using assms(2) by (simp add: raft_ok_def)
  have value_of: "v = (if k = ?k then Command m else v)" "\<exists>l0 \<in> set (rc_logs cfg). k \<noteq> ?k \<longrightarrow> l0 k = Some v"
    if "l \<in> set (rc_logs cfg')" "l k = Some v" for l k v
    using that same own by (auto simp: c' dest!: logs_update_cases split: if_splits)
  have "logs_ok cfg'" unfolding logs_ok_def
  proof (intro conjI ballI allI impI)
    show "length (rc_logs cfg') = cf_n cfg'" "rc_applyErr cfg' = replicate (cf_n cfg') ''''"
      using L by (simp_all add: c' logs_ok_def)
    fix l l' k v v' assume "l \<in> set (rc_logs cfg')" "l' \<in> set (rc_logs cfg')" "l k = Some v" "l' k = Some v'"
    then show "v = v'"
    proof (cases "k = ?k")
      case False
      with value_of(2) [OF \<open>l \<in> _\<close> \<open>l k = Some v\<close>] value_of(2) [OF \<open>l' \<in> _\<close> \<open>l' k = Some v'\<close>] L
      show ?thesis unfolding logs_ok_def by blast
    qed (use value_of(1) in metis)
  next
    fix l k v assume l: "l \<in> set (rc_logs cfg')" "l k = Some v"
    then have l_cases: "l = ?new \<or> l \<in> set (rc_logs cfg)" by (auto simp: c' dest: logs_update_cases)
    have bound: "k \<le> rc_maxIndex cfg" "1 < k \<longrightarrow> l0 (k - 1) \<noteq> None"
      if "l0 \<in> set (rc_logs cfg)" "l0 k = Some v" for l0
      using L that by (auto simp: logs_ok_def)
    from l_cases have "k \<le> rc_maxIndex cfg' \<and> (1 < k \<longrightarrow> l (k - 1) \<noteq> None)"
    proof
      assume l_new: "l = ?new"
      show ?thesis
      proof (cases "k = ?k")
        case False
        then have "?own k = Some v" using l(2) l_new by simp
        with bound [OF own] show ?thesis by (auto simp: c' l_new)
      qed (use prev in \<open>auto simp: c' l_new\<close>)
    qed (use bound l(2) in \<open>auto simp: c' max.coboundedI2\<close>)
    then show "k \<le> rc_maxIndex cfg'" "1 < k \<Longrightarrow> l (k - 1) \<noteq> None" by auto
  qed
  moreover have "port cfg' = port cfg" "started cfg' = started cfg" "valid cfg' = valid cfg" "connected cfg' = connected cfg"
    by (auto simp: fun_eq_iff c' port_def started_def valid_def connected_def)
  ultimately show ?thesis using assms(2) unfolding raft_ok_def links_ok_def instances_ok_def wired_def by (simp add: c')
qed (use assms in \<open>simp add: apply_msg_def\<close>)

text \<open>What is recorded as applied stays recorded.\<close>

definition logs_grow :: "('c, 'd, 'v) raft_config \<Rightarrow> ('c, 'd, 'v) raft_config \<Rightarrow> bool" where
  "logs_grow cfg cfg' \<longleftrightarrow>
     length (rc_logs cfg') = length (rc_logs cfg) \<and> (\<forall>k < length (rc_logs cfg). rc_logs cfg ! k \<subseteq>\<^sub>m rc_logs cfg' ! k)"

lemma logs_grow_refl: "rc_logs cfg' = rc_logs cfg \<Longrightarrow> logs_grow cfg cfg'"
  by (simp add: logs_grow_def)

lemma logs_grow_trans: "logs_grow a b \<Longrightarrow> logs_grow b c \<Longrightarrow> logs_grow a c"
  unfolding logs_grow_def by (metis map_le_trans)

lemma apply_msg_logs_grow:
  assumes "apply_msg i m cfg = Inr cfg'"
  shows "logs_grow cfg cfg'"
proof (cases "CommandValid m")
  case True
  then show ?thesis
    by (rule apply_msg_result [OF assms]) (auto simp: logs_grow_def nth_list_update map_le_def dest: nth_mem)
qed (use assms in \<open>simp add: apply_msg_def logs_grow_refl\<close>)

section \<open>A harness at work\<close>

text \<open>
  What happens in a test: servers are connected, disconnected, crashed and started; the peers, also
  those that have been replaced, work and report what they apply; the network carries requests and
  replies.
\<close>

inductive raft_step ::
  "(nat, 'v) Method list \<Rightarrow> ('c, 'd, 'v) raft_config \<Rightarrow> ('c, 'd, 'v) raft_config \<Rightarrow> bool" for rfm where
  rs_connect: "raft_connect i cfg = Inr cfg' \<Longrightarrow> raft_step rfm cfg cfg'"
| rs_disconnect: "raft_disconnect i cfg = Inr cfg' \<Longrightarrow> raft_step rfm cfg cfg'"
| rs_crash: "crash1 i cfg = Inr cfg' \<Longrightarrow> raft_step rfm cfg cfg'"
| rs_start: "start1 rfm now rnd names i cfg = Inr cfg' \<Longrightarrow> raft_step rfm cfg cfg'"
| rs_apply: "apply_msg i m cfg = Inr cfg' \<Longrightarrow> raft_step rfm cfg cfg'"
| rs_run: "a < length (cf_instances cfg) \<Longrightarrow> peer_step (cf_instances cfg ! a) rf \<Longrightarrow>
    raft_step rfm cfg (cfg\<lparr>cf_instances := (cf_instances cfg)[a := rf]\<rparr>)"
| rs_call: "raft_step rfm cfg (cfg\<lparr>cf_net := accept_req (req :: (iname, string) reqMsg) (cf_net cfg)\<rparr>)"
| rs_handle: "h < length (cf_heap cfg) \<Longrightarrow>
    raft_step rfm cfg (cfg\<lparr>cf_heap := (cf_heap cfg)[h := (cf_heap cfg ! h)\<lparr>rs_count := rs_count (cf_heap cfg ! h) + 1\<rparr>]\<rparr>)"
| rs_reply: "raft_step rfm cfg (cfg\<lparr>cf_net := (cf_net cfg)\<lparr>net_bytes := b\<rparr>\<rparr>)"
| rs_unreliable: "raft_step rfm cfg (setunreliable yes cfg)"
| rs_reordering: "raft_step rfm cfg (setlongreordering yes cfg)"
| rs_begin: "raft_step rfm cfg (raft_begin now cfg)"

definition raft_running :: "nat \<Rightarrow> ('c, 'd, 'v) raft_config \<Rightarrow> bool" where
  "raft_running n cfg \<longleftrightarrow> raft_ok cfg \<and> cf_n cfg = n \<and> (\<forall>k. valid cfg k \<longrightarrow> started cfg k)"

lemma raft_running_cong:
  assumes "raft_running n cfg" "raft_ok cfg'" "cf_n cfg' = cf_n cfg" "\<And>k. started cfg k \<Longrightarrow> started cfg' k"
  shows "raft_running n cfg'"
proof -
  have "valid cfg' = valid cfg" using assms(3) by (simp add: fun_eq_iff valid_def)
  with assms show ?thesis by (simp add: raft_running_def)
qed

lemma raft_connect_running:
  assumes "raft_running n cfg" "raft_connect i cfg = Inr cfg'"
  shows "raft_running n cfg'" "rc_logs cfg' = rc_logs cfg" "connected cfg' = (connected cfg)(i := True)"
proof -
  have ok: "raft_ok cfg" "wired cfg" "length (rc_connected cfg) = cf_n cfg" "\<forall>k. connected cfg k \<longrightarrow> started cfg k"
    using assms(1) by (auto simp: raft_running_def raft_ok_def links_ok_def)
  have vi: "valid cfg i" using assms(2) ok(3)
    by (auto simp: raft_connect_def bindG_eq_Inr_iff go_update_eq_Inr_iff valid_def)
  then have i: "started cfg i" using assms(1) by (simp add: raft_running_def)
  have c': "cfg' = relink True i cfg" using raft_connect_relink [OF ok(2,3) i ok(4)] assms(2) by simp
  show "raft_running n cfg'" using raft_running_cong [OF assms(1) relink_raft_ok [OF ok(1) vi]] i by (simp add: c')
  show "rc_logs cfg' = rc_logs cfg" by (simp add: c')
  show "connected cfg' = (connected cfg)(i := True)" unfolding c' by (rule relink_connected [OF vi ok(3)])
qed

lemma raft_disconnect_running:
  assumes "raft_running n cfg" "raft_disconnect i cfg = Inr cfg'"
  shows "raft_running n cfg'" "rc_logs cfg' = rc_logs cfg"
proof -
  have ok: "raft_ok cfg" "wired cfg" "length (rc_connected cfg) = cf_n cfg"
    using assms(1) by (auto simp: raft_running_def raft_ok_def links_ok_def)
  have vi: "valid cfg i" using assms(2) ok(3)
    by (auto simp: raft_disconnect_def bindG_eq_Inr_iff go_update_eq_Inr_iff valid_def)
  have c': "cfg' = relink False i cfg" using raft_disconnect_relink [OF ok(2,3) vi] assms(2) by simp
  show "raft_running n cfg'" using raft_running_cong [OF assms(1) relink_raft_ok [OF ok(1) vi]] by (simp add: c')
  show "rc_logs cfg' = rc_logs cfg" by (simp add: c')
qed

lemma serves_count: "serves (rs\<lparr>rs_count := c\<rparr>) a = serves rs a"
  by (simp add: serves_def)

lemma raft_step_running:
  assumes "raft_step rfm cfg cfg'" "raft_running n cfg"
  shows "raft_running n cfg' \<and> logs_grow cfg cfg'"
  using assms(1)
proof cases
  case (rs_connect i)
  with raft_connect_running [OF assms(2)] show ?thesis by (blast intro: logs_grow_refl)
next
  case (rs_disconnect i)
  with raft_disconnect_running [OF assms(2)] show ?thesis by (blast intro: logs_grow_refl)
next
  case (rs_crash i)
  have ok: "raft_ok cfg" using assms(2) by (simp add: raft_running_def)
  note k = crash1_raft_ok [OF rs_crash ok]
  from raft_running_cong [OF assms(2) k(1,5)] k(4) k(8) show ?thesis by (simp add: logs_grow_refl)
next
  case (rs_start now rnd names i)
  have ok: "raft_ok cfg" using assms(2) by (simp add: raft_running_def)
  note k = start1_raft_ok [OF rs_start ok]
  from raft_running_cong [OF assms(2) k(1,3)] k(2) k(4) show ?thesis by (simp add: logs_grow_refl)
next
  case (rs_apply i m)
  have ok: "raft_ok cfg" using assms(2) by (simp add: raft_running_def)
  have "cf_n cfg' = cf_n cfg" "started cfg' = started cfg"
    using rs_apply by (auto simp: apply_msg_def bindG_eq_Inr_iff started_def valid_def fun_eq_iff split: if_splits)
  with raft_running_cong [OF assms(2) apply_msg_raft_ok [OF rs_apply ok]] apply_msg_logs_grow [OF rs_apply]
  show ?thesis by simp
qed (use assms(2) in \<open>auto simp: raft_running_def accept_req_def setunreliable_def setlongreordering_def raft_begin_def
      Reliable_def LongReordering_def nth_list_update serves_count started_def valid_def intro!: logs_grow_refl elim!: raft_ok_cong\<close>)

lemma storage_ok_cong:
  assumes "storage_ok cfg" "cf_instances cfg' = cf_instances cfg" "cf_n cfg' = cf_n cfg" "cf_servers cfg' = cf_servers cfg"
    "cf_saved cfg' = cf_saved cfg"
  shows "storage_ok cfg'"
  using assms by (simp add: storage_ok_def valid_def)

lemma raft_step_storage:
  assumes "raft_step rfm cfg cfg'" "raft_running n cfg" "storage_ok cfg"
  shows "storage_ok cfg'"
  using assms(1)
proof cases
  case (rs_crash i)
  with assms show ?thesis by (auto simp: raft_running_def intro: crash1_storage_ok)
next
  case (rs_start now rnd names i)
  with assms show ?thesis by (auto simp: raft_running_def intro: start1_storage_ok)
next
  case (rs_run a rf)
  have d: "durable (cf_instances cfg ! a)" using assms(3) rs_run(2) by (simp add: storage_ok_def)
  have "durable rf" by (rule peer.region_durable [OF rs_run(3) d])
  moreover have "peer_mono (cf_instances cfg ! a) rf" by (rule peer.region_mono [OF rs_run(3) d])
  ultimately show ?thesis using assms(3) rs_run(2) unfolding rs_run(1)
    by (auto simp: storage_ok_def valid_def nth_list_update peer_mono_def dest!: logs_update_cases)
qed (use assms(3) in \<open>auto simp: raft_connect_def raft_disconnect_def apply_msg_def bindG_eq_Inr_iff mapG_eq_Inr_iff setunreliable_def
      setlongreordering_def raft_begin_def elim!: storage_ok_cong split: if_splits\<close>)

lemma start_all_raft_ok:
  assumes "foldG (\<lambda>i. start1 rfm now (rnd i) (names i) i) js cfg = Inr cfg'" "raft_ok cfg" "storage_ok cfg"
  shows "raft_ok cfg' \<and> storage_ok cfg' \<and> cf_n cfg' = cf_n cfg \<and> (\<forall>k. started cfg' k \<longleftrightarrow> started cfg k \<or> k \<in> set js)"
  using assms
proof (induction js arbitrary: cfg)
  case (Cons j js)
  then obtain c1 where c1: "start1 rfm now (rnd j) (names j) j cfg = Inr c1"
    "foldG (\<lambda>i. start1 rfm now (rnd i) (names i) i) js c1 = Inr cfg'" by (auto simp: bindG_eq_Inr_iff)
  note s = start1_raft_ok [OF c1(1) Cons.prems(2)]
  from Cons.IH [OF c1(2) s(1) start1_storage_ok(1) [OF c1(1) Cons.prems(2,3)]] s(2,3) show ?case by auto
qed simp

lemma connect_all_running:
  assumes "foldG raft_connect js cfg = Inr cfg'" "raft_running n cfg"
  shows "run_from (raft_step rfm) cfg cfg'"
  using assms(1)
proof (induction js arbitrary: cfg)
  case (Cons j js)
  then obtain c1 where c1: "raft_connect j cfg = Inr c1" "foldG raft_connect js c1 = Inr cfg'" by (auto simp: bindG_eq_Inr_iff)
  from run_from_trans [OF run_from_single [of "raft_step rfm", OF rs_connect [OF c1(1)]] Cons.IH [OF c1(2)]] show ?case .
qed (simp add: run_refl)

definition raft_inv :: "nat \<Rightarrow> ('c, 'd, 'v) raft_config \<Rightarrow> bool" where
  "raft_inv n cfg \<longleftrightarrow> raft_running n cfg \<and> storage_ok cfg"

lemma raft_inv_step: "raft_inv n cfg \<Longrightarrow> raft_step rfm cfg cfg' \<Longrightarrow> raft_inv n cfg'"
  unfolding raft_inv_def using raft_step_running raft_step_storage by blast

lemma raft_inv_run: "run_from (raft_step rfm) cfg cfg' \<Longrightarrow> raft_inv n cfg \<Longrightarrow> raft_inv n cfg'"
  by (induction rule: run_from.induct) (auto intro: raft_inv_step)

lemma raft_make_config_inv:
  assumes "raft_make_config rfm now rnd names n unreliable = Inr (cfg :: ('c, 'd, 'v) raft_config)"
  shows "raft_inv n cfg"
proof -
  from assms obtain init :: "('c, 'd, 'v) raft_config" and c1 where i: "cf_endnames init = replicate n None" "cf_n init = n"
      "cf_servers init = replicate n None" "cf_saved init = replicate n None" "cf_instances init = []"
      "rc_connected init = replicate n False" "rc_logs init = replicate n Map.empty" "rc_applyErr init = replicate n ''''"
      "cf_net init = LongDelays True (Reliable (\<not> unreliable) MakeNetwork)"
    and c1: "foldG (\<lambda>i. start1 rfm now (rnd i) (names i) i) (map int [0..<n]) init = Inr c1"
    and c: "foldG raft_connect (map int [0..<n]) c1 = Inr cfg"
    unfolding raft_make_config_def Let_def bindG_eq_Inr_iff by force
  have v: "nat k < n" if "valid init k" for k using that i(2) by (auto simp: valid_def nat_less_iff)
  have "wired init" by (rule wired_unstarted) (simp_all add: i)
  moreover have "links_ok init" using v by (auto simp: links_ok_def connected_def i LongDelays_def Reliable_def MakeNetwork_def)
  moreover have "instances_ok init" using v by (auto simp: instances_ok_def i LongDelays_def Reliable_def MakeNetwork_def)
  moreover have "logs_ok init" by (auto simp: logs_ok_def i)
  ultimately have "raft_ok init" by (simp add: raft_ok_def)
  moreover have "storage_ok init" using v by (auto simp: storage_ok_def i)
  ultimately have s: "raft_ok c1" "storage_ok c1" "cf_n c1 = n" "\<forall>k. k \<in> set (map int [0..<n]) \<longrightarrow> started c1 k"
    using start_all_raft_ok [OF c1] i(2) by auto
  have "k \<in> set (map int [0..<n])" if "valid c1 k" for k using that set_All [of c1] s(3) by (simp add: All_def)
  with s have r: "raft_running n c1" by (simp add: raft_running_def)
  from raft_inv_run [OF connect_all_running [OF c r]] r s(2) show ?thesis by (simp add: raft_inv_def)
qed

interpretation raft_harness: inductive_invariant
  "\<lambda>cfg. \<exists>now rnd names unreliable. raft_make_config rfm now rnd names n unreliable = Inr cfg" "raft_step rfm" "raft_inv n" for rfm n
  by unfold_locales (auto intro: raft_inv_step raft_make_config_inv)

text \<open>An instance that has been replaced does not change what any server would be started from.\<close>

lemma replaced_instance_storage:
  assumes "raft_inv n cfg" "\<forall>i. valid cfg i \<longrightarrow> cf_servers cfg ! nat i \<noteq> Some a"
    and "valid cfg i" "cf_saved cfg ! nat i = Some r"
  shows "saved_persister Persister (cfg\<lparr>cf_instances := (cf_instances cfg)[a := rf]\<rparr>) r = saved_persister Persister cfg r"
proof (cases r)
  case (OfInstance b)
  then have "cf_servers cfg ! nat i = Some b"
    using assms by (simp add: raft_inv_def raft_running_def raft_ok_def instances_ok_def)
  with assms(2,3) OfInstance show ?thesis by (auto simp: saved_persister_def)
qed (simp add: saved_persister_def)

section \<open>Properties\<close>

text \<open>
  C22: The harness of Raft isolates what it says it isolates. At any point of a test, however servers were
  connected, disconnected, crashed and restarted before, a request is given to a handler only if the end it
  was sent on is the current end from one connected server to another and the other one is running, and the
  handler is then a method of its current instance; in every other case, and if an unreliable network drops
  it, the request fails at once. In particular an instance that was replaced neither reaches a server nor is
  reached.
\<close>

theorem requests_between_connected:
  assumes "raft_make_config rfm now rnd names n unreliable = Inr cfg0" and "run_from (raft_step rfm) cfg0 cfg"
  shows "case (processReq_route (cf_net cfg) req r :: (iname, 'w) phase \<times> handler) of
      (Waiting sn h rel reorder, hnd) \<Rightarrow>
        (\<exists>i j a. connected cfg i \<and> connected cfg j \<and> rq_endname req = port cfg i j \<and> sn = Num j \<and> hnd = Pending h \<and>
           cf_servers cfg ! nat j = Some a \<and> serves (cf_heap cfg ! h) a)
    | (ph, hnd) \<Rightarrow> ph = Sending failed_reply \<and> hnd = Idle \<and>
        (\<not> reliable (cf_net cfg) \<and> r mod 1000 < 100 \<or>
         (\<forall>i j. connected cfg i \<longrightarrow> connected cfg j \<longrightarrow> rq_endname req = port cfg i j \<longrightarrow> cf_servers cfg ! nat j = None))"
proof -
  have "raft_inv n cfg" by (rule raft_harness.inv_run [OF _ assms(2)]) (use assms(1) in blast)
  then have ok: "wired cfg" "links_ok cfg" "instances_ok cfg" by (simp_all add: raft_inv_def raft_running_def raft_ok_def)
  let ?e = "rq_endname req" and ?net = "cf_net cfg"
  let ?route = "processReq_route (cf_net cfg) req r :: (iname, 'w) phase \<times> handler"
  have on: "enabled ?net ?e \<longleftrightarrow> (\<exists>i j. connected cfg i \<and> connected cfg j \<and> ?e = port cfg i j)"
    using ok(2) by (simp add: links_ok_def)
  have to: "connections ?net (port cfg i j) = Some (Num j)" "valid cfg j" if "connected cfg i" "connected cfg j" for i j
    using that ok(1,2) by (auto simp: wired_def links_ok_def connected_def)
  show ?thesis
  proof (cases "enabled ?net ?e")
    case True
    then obtain i j where ij: "connected cfg i" "connected cfg j" "?e = port cfg i j" using on by blast
    show ?thesis
    proof (cases "Network.servers ?net (Num j)")
      case None
      have dead: "cf_servers cfg ! nat j' = None" if "connected cfg i'" "connected cfg j'" "?e = port cfg i' j'" for i' j'
      proof -
        have "j' = j" using to(1) [OF ij(1,2)] to(1) [OF that(1,2)] ij(3) that(3) by simp
        with None ok(3) to(2) [OF ij(1,2)] show ?thesis by (cases "cf_servers cfg ! nat j") (auto simp: instances_ok_def)
      qed
      from None True to(1) [OF ij(1,2)] ij(3) have "?route = (Sending failed_reply, Idle)"
        by (simp add: processReq_route_def readEndnameInfo_def)
      with dead show ?thesis by simp
    next
      case (Some h)
      with ok(3) to(2) [OF ij(1,2)] obtain a where a: "cf_servers cfg ! nat j = Some a" "serves (cf_heap cfg ! h) a"
        unfolding instances_ok_def by blast
      from Some True to(1) [OF ij(1,2)] ij(3) have "?route =
          (if \<not> reliable ?net \<and> r mod 1000 < 100 then (Sending failed_reply, Idle)
           else (Waiting (Num j) h (reliable ?net) (longReordering ?net), Pending h))"
        by (simp add: processReq_route_def readEndnameInfo_def)
      with a ij show ?thesis by (cases "\<not> reliable ?net \<and> r mod 1000 < 100") auto
    qed
  next
    case False
    then have "?route = (Sending failed_reply, Idle)"
      by (simp add: processReq_route_def readEndnameInfo_def Let_def)
    with False on show ?thesis by auto
  qed
qed

lemma example_raft_cluster:
  "case raft_make_config [] 0 (\<lambda>_. 0) example_names 2 False of
     Inl _ \<Rightarrow> False
   | Inr (cfg :: (nat, nat, unit) raft_config) \<Rightarrow>
       enabled (cf_net cfg) (port cfg 0 1) \<and> connections (cf_net cfg) (port cfg 0 1) = Some (Num 1) \<and>
       Network.servers (cf_net cfg) (Num 1) = Some 1 \<and> reliable (cf_net cfg)"
  by code_simp

theorem requests_between_connected_witness:
  "\<exists>(cfg :: (nat, nat, unit) raft_config) i a. raft_make_config [] 0 (\<lambda>_. 0) example_names 2 False = Inr cfg \<and>
     connected cfg i \<and> connected cfg 1 \<and> port cfg 0 1 = port cfg i 1 \<and> cf_servers cfg ! 1 = Some a \<and> serves (cf_heap cfg ! 1) a"
proof -
  from example_raft_cluster obtain cfg :: "(nat, nat, unit) raft_config"
    where c: "raft_make_config [] 0 (\<lambda>_. 0) example_names 2 False = Inr cfg"
      and e: "enabled (cf_net cfg) (port cfg 0 1)" "connections (cf_net cfg) (port cfg 0 1) = Some (Num 1)"
        "Network.servers (cf_net cfg) (Num 1) = Some 1" "reliable (cf_net cfg)" by (auto split: sum.splits)
  let ?req = "\<lparr>rq_endname = port cfg 0 1, svcMeth = ''Raft.RequestVote'', argsType = (), rq_args = []\<rparr>"
  have "(processReq_route (cf_net cfg) ?req 0 :: (iname, unit) phase \<times> handler) = (Waiting (Num 1) 1 True (longReordering (cf_net cfg)), Pending 1)"
    using e by (simp add: processReq_route_def readEndnameInfo_def)
  with requests_between_connected [OF c run_refl, where req = ?req and r = 0 and 'w = unit] c show ?thesis by auto
qed

text \<open>
  C23: Crashing and restarting a peer. At any point of a test, \<^verbatim>\<open>start1\<close> on a server that is running replaces its
  instance by a new one with the same term, the same vote and the same log, whatever replaced instances of it
  still do; but the snapshot that the old instance had stored is gone.
\<close>

theorem restart_keeps_raft_state:
  assumes "raft_make_config rfm now rnd names n unreliable = Inr cfg0" and "run_from (raft_step rfm) cfg0 cfg"
    and "valid cfg i" and "cf_servers cfg ! nat i = Some a" and "start1 rfm now' rnd' names' i cfg = Inr cfg'"
  shows "\<exists>a'. cf_servers cfg' ! nat i = Some a' \<and>
    (let rf = cf_instances cfg ! a; rf' = cf_instances cfg' ! a'
     in CurrentTerm rf' = CurrentTerm rf \<and> VotedFor rf' = VotedFor rf \<and> Log rf' = Log rf \<and> Storage (snapshot rf') = [])"
proof -
  have "raft_inv n cfg" by (rule raft_harness.inv_run [OF _ assms(2)]) (use assms(1) in blast)
  then have ok: "raft_ok cfg" "storage_ok cfg" by (simp_all add: raft_inv_def raft_running_def)
  let ?rf = "cf_instances cfg ! a"
  have a: "a < length (cf_instances cfg)" using ok(1) assms(3,4) by (simp add: raft_ok_def instances_ok_def)
  then have st: "cf_saved cfg ! nat i = Some (OfInstance a)" "me ?rf = i" "peers ?rf = cf_n cfg" and d: "durable ?rf"
    using ok(2) assms(3,4) by (simp_all add: storage_ok_def)
  from start1_storage_ok(2) [OF assms(5) ok] st(1) obtain a' where a': "cf_servers cfg' ! nat i = Some a'"
    "cf_instances cfg' ! a' = Make now' rnd' (cf_n cfg) i (crash_copy (Persister ?rf))"
    by (auto simp: saved_persister_def)
  then show ?thesis using durable_Log(1-3) [OF d, of now' rnd', unfolded st(2,3)] by (auto simp: Make_crash_copy Let_def)
qed

definition example_campaign :: "(nat, nat, unit) raft_config \<Rightarrow> (nat, nat, unit) raft_config" where
  "example_campaign cfg = cfg\<lparr>cf_instances := (cf_instances cfg)[1 := startOneElection 0 0 (cf_instances cfg ! 1)]\<rparr>"

lemma example_restart:
  "case raft_make_config [] 0 (\<lambda>_. 0) example_names 2 False of
     Inl _ \<Rightarrow> False
   | Inr cfg \<Rightarrow>
       cf_servers cfg ! 1 = Some 1 \<and> length (cf_instances cfg) = 2 \<and> cf_n cfg = 2 \<and>
       CurrentTerm (startOneElection 0 0 (cf_instances cfg ! 1)) = 1 \<and>
       (case start1 [] 0 0 (example_names 2) 1 (example_campaign cfg) of Inl _ \<Rightarrow> False | Inr _ \<Rightarrow> True)"
  by code_simp

theorem restart_keeps_raft_state_witness:
  "\<exists>cfg cfg' a'. raft_make_config [] 0 (\<lambda>_. 0) example_names 2 False = Inr cfg \<and>
     start1 [] 0 0 (example_names 2) 1 (example_campaign cfg) = Inr cfg' \<and> cf_servers cfg' ! 1 = Some a' \<and>
     CurrentTerm (cf_instances cfg' ! a') = 1"
proof -
  from example_restart obtain cfg cfg' where c: "raft_make_config [] 0 (\<lambda>_. 0) example_names 2 False = Inr cfg"
    and e: "cf_servers cfg ! 1 = Some 1" "length (cf_instances cfg) = 2" "cf_n cfg = 2"
      "CurrentTerm (startOneElection 0 0 (cf_instances cfg ! 1)) = 1"
    and s: "start1 [] 0 0 (example_names 2) 1 (example_campaign cfg) = Inr cfg'" by (auto split: sum.splits)
  have "raft_step [] cfg (example_campaign cfg)" unfolding example_campaign_def
    by (rule rs_run [OF _ ps_region [OF ps_elect]]) (simp add: e)
  then have run: "run_from (raft_step []) cfg (example_campaign cfg)" by (rule run_from_single)
  have v: "valid (example_campaign cfg) 1" "cf_servers (example_campaign cfg) ! nat 1 = Some 1"
    "CurrentTerm (cf_instances (example_campaign cfg) ! 1) = 1"
    using e by (simp_all add: example_campaign_def valid_def)
  from restart_keeps_raft_state [OF c run v(1,2) s] v(3) c s show ?thesis by (auto simp: Let_def)
qed

end
