(* ===== verification/Harness_Checks.thy ===== *)
theory Harness_Checks
  imports Harness_Isolation
begin

text \<open>
  The checks of the Raft harness look at one server after the other while the cluster goes on. These
  theorems say what their verdicts mean: which observations a check accepts, that it does not reject a
  run of the modelled cluster by mistake, and what holds when it returns.
\<close>

section \<open>Observations along a run\<close>

text \<open>States that are seen one after the other, with any number of steps in between.\<close>

fun observed :: "('s \<Rightarrow> 's \<Rightarrow> bool) \<Rightarrow> 's \<Rightarrow> 's list \<Rightarrow> bool" where
  "observed step s [] = True"
| "observed step s (t # ts) = (run_from step s t \<and> observed step t ts)"

lemma observed_append: "observed step s (xs @ ys) \<longleftrightarrow> observed step s xs \<and> observed step (last (s # xs)) ys"
  by (induction xs arbitrary: s) auto

lemma observed_mem: "observed step s ts \<Longrightarrow> t \<in> set ts \<Longrightarrow> run_from step s t"
  by (induction ts arbitrary: s) (auto intro: run_from_trans)

text \<open>Of two states that are seen, one can be reached from the other.\<close>

lemma observed_ordered:
  assumes "observed step s ts" "t \<in> set ts" "u \<in> set ts"
  shows "run_from step t u \<or> run_from step u t"
  using assms
proof (induction ts arbitrary: s)
  case (Cons x xs)
  then show ?case by (auto dest: observed_mem intro: run_refl)
qed simp

section \<open>Counting commits\<close>

lemma raft_run_logs_grow:
  assumes "run_from (raft_step rfm) cfg cfg'" "raft_inv n cfg"
  shows "raft_inv n cfg' \<and> logs_grow cfg cfg'"
  using assms
proof (induction rule: run_from.induct)
  case (run_step s t u)
  then have t: "raft_inv n t" "logs_grow s t" by simp_all
  then have "logs_grow t u" using raft_step_running [OF run_step.hyps(2)] unfolding raft_inv_def by blast
  with raft_inv_step [OF t(1) run_step.hyps(2)] logs_grow_trans [OF t(2)] show ?case by blast
qed (simp add: logs_grow_refl)

text \<open>Whatever is seen of two logs, at whatever times, agrees.\<close>

lemma observed_logs_agree:
  assumes inv: "raft_inv n cfg0" and obs: "observed (raft_step rfm) cfg0 cfgs" and c: "c \<in> set cfgs" "c' \<in> set cfgs"
    and i: "i < n" "i' < n" and v: "(rc_logs c ! i) k = Some v" "(rc_logs c' ! i') k = Some v'"
  shows "v = v'"
proof -
  have later: "v = v'" if r: "run_from (raft_step rfm) c c'" and i: "i < n" "i' < n" and inv: "raft_inv n c"
    and v: "(rc_logs c ! i) k = Some v" "(rc_logs c' ! i') k = Some v'" for c c' i i' v v'
  proof -
    from raft_run_logs_grow [OF r inv] have g: "raft_inv n c'" "logs_grow c c'" by simp_all
    then have L: "logs_ok c'" "cf_n c' = n" by (simp_all add: raft_inv_def raft_running_def raft_ok_def)
    then have len: "length (rc_logs c') = n" by (simp add: logs_ok_def)
    with g(2) i(1) have "rc_logs c ! i \<subseteq>\<^sub>m rc_logs c' ! i" by (simp add: logs_grow_def)
    with v(1) have "(rc_logs c' ! i) k = Some v" by (auto simp: map_le_def dom_def)
    moreover have "rc_logs c' ! i \<in> set (rc_logs c')" "rc_logs c' ! i' \<in> set (rc_logs c')" using i len by auto
    ultimately show ?thesis using L(1) v(2) unfolding logs_ok_def by blast
  qed
  have "raft_inv n c" "raft_inv n c'" using observed_mem [OF obs] c raft_run_logs_grow [OF _ inv] by blast+
  with observed_ordered [OF obs c] later i v show ?thesis by metis
qed

lemma card_shift:
  "int (card {k. k < Suc m \<and> P k}) = (if P 0 then 1 else 0) + int (card {k. k < m \<and> P (Suc k)})"
proof -
  have "{k. k < Suc m \<and> P k} = (if P 0 then {0} else {}) \<union> Suc ` {k. k < m \<and> P (Suc k)}"
    by (auto simp: image_iff less_Suc_eq_0_disj)
  moreover have "card ({0} \<union> Suc ` {k. k < m \<and> P (Suc k)}) = Suc (card {k. k < m \<and> P (Suc k)})"
    by (subst card_Un_disjoint) (auto simp: card_image)
  ultimately show ?thesis by (simp add: card_image)
qed

lemma nCommitted_loop_counts:
  assumes "\<forall>k < length cfgs. i + k < length (rc_logs (cfgs ! k)) \<and> i + k < length (rc_applyErr (cfgs ! k)) \<and> rc_applyErr (cfgs ! k) ! (i + k) = ''''"
    and "\<forall>k < length cfgs. \<forall>v. (rc_logs (cfgs ! k) ! (i + k)) index = Some v \<longrightarrow> v = w" and "0 \<le> cnt" "0 < cnt \<longrightarrow> cmd = w"
  shows "\<exists>cmd'. nCommitted_loop index (int i) cfgs cnt cmd =
      Inr (cnt + int (card {k. k < length cfgs \<and> (rc_logs (cfgs ! k) ! (i + k)) index \<noteq> None}), cmd') \<and>
      (cmd' = w \<or> cmd' = cmd \<and> (\<forall>k < length cfgs. (rc_logs (cfgs ! k) ! (i + k)) index = None))"
  using assms
proof (induction cfgs arbitrary: i cnt cmd)
  case (Cons c cs)
  let ?l = "rc_logs c ! i"
  have head: "i < length (rc_logs c)" "i < length (rc_applyErr c)" "rc_applyErr c ! i = ''''" "\<And>v. ?l index = Some v \<Longrightarrow> v = w"
    using Cons.prems(1,2) by force+
  have tail: "\<forall>k < length cs. Suc i + k < length (rc_logs (cs ! k)) \<and> Suc i + k < length (rc_applyErr (cs ! k)) \<and> rc_applyErr (cs ! k) ! (Suc i + k) = ''''"
    "\<forall>k < length cs. \<forall>v. (rc_logs (cs ! k) ! (Suc i + k)) index = Some v \<longrightarrow> v = w"
    using Cons.prems(1,2) by force+
  note card = card_shift [of "length cs" "\<lambda>k. (rc_logs ((c # cs) ! k) ! (i + k)) index \<noteq> None", simplified]
  show ?case
  proof (cases "?l index")
    case None
    with head have step: "nCommitted_loop index (int i) (c # cs) cnt cmd = nCommitted_loop index (int (Suc i)) cs cnt cmd"
      by (simp add: go_index_int add.commute)
    from Cons.IH [OF tail Cons.prems(3,4)] show ?thesis unfolding step using None card
      by (auto simp: less_Suc_eq_0_disj)
  next
    case (Some v)
    with head Cons.prems(4) have v: "v = w"
      and step: "nCommitted_loop index (int i) (c # cs) cnt cmd = nCommitted_loop index (int (Suc i)) cs (cnt + 1) w"
      by (auto simp: go_index_int add.commute)
    from Cons.IH [OF tail, of "cnt + 1" w] Cons.prems(3) show ?thesis unfolding step using Some card by auto
  qed
qed simp

lemma nCommitted_counts:
  assumes inv: "raft_inv n cfg0" and obs: "observed (raft_step rfm) cfg0 cfgs" and n: "length cfgs = n"
  shows "\<exists>cmd. nCommitted cfgs index = Inr (int (card {i. i < n \<and> (rc_logs (cfgs ! i) ! i) index \<noteq> None}), cmd) \<and>
    (\<forall>i < n. \<forall>v. (rc_logs (cfgs ! i) ! i) index = Some v \<longrightarrow> v = cmd)"
proof -
  have "logs_ok c \<and> cf_n c = n" if "c \<in> set cfgs" for c
    using raft_run_logs_grow [OF observed_mem [OF obs that] inv] by (simp add: raft_inv_def raft_running_def raft_ok_def)
  then have ok: "\<forall>k < length cfgs. 0 + k < length (rc_logs (cfgs ! k)) \<and> 0 + k < length (rc_applyErr (cfgs ! k)) \<and> rc_applyErr (cfgs ! k) ! (0 + k) = ''''"
    using n by (auto simp: logs_ok_def)
  define w where "w = (SOME v. \<exists>i < n. (rc_logs (cfgs ! i) ! i) index = Some v)"
  have w: "v = w" if "i < n" "(rc_logs (cfgs ! i) ! i) index = Some v" for i v
  proof -
    have "\<exists>i < n. (rc_logs (cfgs ! i) ! i) index = Some w" unfolding w_def by (rule someI [of _ v]) (use that in blast)
    then obtain j where "j < n" "(rc_logs (cfgs ! j) ! j) index = Some w" by blast
    with observed_logs_agree [OF inv obs] that n show ?thesis by (metis nth_mem)
  qed
  then have "\<forall>k < length cfgs. \<forall>v. (rc_logs (cfgs ! k) ! (0 + k)) index = Some v \<longrightarrow> v = w" using n by simp
  from nCommitted_loop_counts [OF ok this, of 0 NilIface] show ?thesis using w n by (auto simp: nCommitted_def)
qed

section \<open>Agreements\<close>

text \<open>
  The peer that accepted a command has it at the end of its log, at the index that was returned. It was the leader
  when \<^verbatim>\<open>Start\<close> looked at the role; it need not be when the command is appended.
\<close>

definition holds_command :: "'c \<Rightarrow> int \<Rightarrow> ('c, 'd) Raft \<Rightarrow> bool" where
  "holds_command cmd index rf \<longleftrightarrow>
     Log rf \<noteq> [] \<and> eIndex (last (Log rf)) = index \<and> eLog (last (Log rf)) = Some cmd"

lemma Start_accepted:
  assumes "Start now rf0 rf cmd = (rf', index, term, True, gs)"
  shows "state rf0 = Leader" and "holds_command cmd index rf'"
proof -
  obtain rf1 index1 gs1 where a: "Start_append now rf cmd = (rf1, index1, gs1)" by (metis prod_cases3)
  with assms show "state rf0 = Leader" by (auto simp: Start_def GetState_def split: if_splits)
  from a assms have eq: "rf' = rf1" "index = index1" by (auto simp: Start_def GetState_def split: if_splits)
  from a show "holds_command cmd index rf'" unfolding eq by (auto simp: Start_append_def Let_def holds_command_def)
qed

lemma ask_loop_accepted:
  assumes "ask_loop now cmd n starts asks = (index, starts', calls)" "index \<noteq> -1"
  shows "\<exists>(j, rf0, rf) \<in> set calls. state rf0 = Leader \<and> holds_command cmd index rf"
  using assms
proof (induction asks arbitrary: starts calls)
  case (Cons a asks)
  obtain cn rf where a: "a = (cn, rf)" by (cases a)
  show ?case
  proof (cases "if cn then rf else None")
    case None
    with Cons show ?thesis by (auto simp: a Let_def)
  next
    case (Some states)
    obtain rf0 rf1 where st: "states = (rf0, rf1)" by (cases states)
    obtain rf' index1 t ok1 gs where s: "Start now rf0 rf1 cmd = (rf', index1, t, ok1, gs)" by (metis prod_cases5)
    show ?thesis
    proof (cases ok1)
      case True
      with Cons.prems Some s st Start_accepted [of now rf0 rf1 cmd rf' index1 t gs] show ?thesis by (auto simp: a Let_def)
    next
      case False
      with Cons.prems(1) Some s st obtain calls0
        where "ask_loop now cmd n ((starts + 1) mod n) asks = (index, starts', calls0)" "calls = ((starts + 1) mod n, rf0, rf') # calls0"
        by (auto simp: a Let_def split: prod.splits)
      with Cons.IH [OF this(1) Cons.prems(2)] show ?thesis by auto
    qed
  qed
qed simp

lemma poll_loop_True:
  "poll_loop index cmd expected cs = Inr True \<Longrightarrow>
    \<exists>cfgs \<in> set cs. \<exists>nd. nCommitted cfgs index = Inr (nd, CommandIface cmd) \<and> 0 < nd \<and> expected \<le> nd"
  by (induction cs) (auto simp: bindG_eq_Inr_iff split: if_splits)

lemma one_loop_agrees:
  assumes "snd (one_loop cmd expected retry n starts rs) = Inr index"
  shows "\<exists>r \<in> set rs. poll_loop index cmd expected (or_polls r) = Inr True"
    and "\<exists>(j, rf0, rf) \<in> set (fst (one_loop cmd expected retry n starts rs)). state rf0 = Leader \<and> holds_command cmd index rf"
proof -
  have "(\<exists>r \<in> set rs. poll_loop index cmd expected (or_polls r) = Inr True) \<and>
    (\<exists>(j, rf0, rf) \<in> set (fst (one_loop cmd expected retry n starts rs)). state rf0 = Leader \<and> holds_command cmd index rf)"
    using assms
  proof (induction rs arbitrary: starts)
    case (Cons r rs)
    obtain index1 starts' calls where a: "ask_loop (or_now r) cmd n starts (or_asks r) = (index1, starts', calls)"
      by (metis prod_cases3)
    note IH = Cons.IH [of starts']
    show ?case
    proof (cases "index1 = -1")
      case True
      with Cons.prems a IH show ?thesis by (auto simp: Let_def)
    next
      case False
      show ?thesis
      proof (cases "poll_loop index1 cmd expected (or_polls r)")
        case (Inl e)
        with Cons.prems a False show ?thesis by (simp add: Let_def)
      next
        case (Inr b)
        show ?thesis
        proof (cases b)
          case True
          with Cons.prems a False Inr have "index = index1" by (simp add: Let_def)
          with True Inr a False ask_loop_accepted [OF a] show ?thesis by (auto simp: Let_def)
        next
          case no: False
          with Cons.prems a False Inr have retry and more: "snd (one_loop cmd expected retry n starts' rs) = Inr index"
            by (auto simp: Let_def split: if_splits)
          with IH [OF more] no a False Inr show ?thesis by (auto simp: Let_def)
        qed
      qed
    qed
  qed simp
  then show "\<exists>r \<in> set rs. poll_loop index cmd expected (or_polls r) = Inr True"
    and "\<exists>(j, rf0, rf) \<in> set (fst (one_loop cmd expected retry n starts rs)). state rf0 = Leader \<and> holds_command cmd index rf" by blast+
qed

lemma logs_prefix:
  assumes "logs_ok cfg" "l \<in> set (rc_logs cfg)" "l index \<noteq> None" "1 \<le> k" "k \<le> index"
  shows "l k \<noteq> None"
  using assms(5,4)
proof (induction k rule: int_le_induct)
  case (step k)
  then obtain v where "l k = Some v" by auto
  then have "l (k - 1) \<noteq> None" using assms(1,2) step.prems unfolding logs_ok_def by force
  then show ?case .
qed (use assms(3) in simp)

section \<open>Leaders\<close>

text \<open>What is seen of a cluster, server \<open>i\<close> in the \<open>i\<close>-th of the states \<open>ss\<close>.\<close>

definition look :: "bool list \<Rightarrow> ('c, 'd) cluster list \<Rightarrow> ('c, 'd) sight" where
  "look cn ss = map (\<lambda>i. (cn ! i, Some (srv (ss ! i) ! i))) [0..<length ss]"

text \<open>The connected servers that take themselves for leaders, with their terms.\<close>

fun leaders_seen :: "nat \<Rightarrow> ('c, 'd) sight \<Rightarrow> (int \<times> nat) list" where
  "leaders_seen i [] = []"
| "leaders_seen i ((cn, rf) # rest) =
     (case rf of
        Some rf \<Rightarrow> if cn \<and> state rf = Leader then [(CurrentTerm rf, i)] else []
      | None \<Rightarrow> []) @ leaders_seen (Suc i) rest"

lemma add_leader_fresh: "t \<notin> fst ` set ls \<Longrightarrow> add_leader t i ls = ls @ [(t, [i])]"
  by (induction ls) auto

lemma collect_leaders_distinct:
  assumes "\<forall>x \<in> set sight. snd x \<noteq> None" "distinct (map fst ls @ map fst (leaders_seen i sight))"
  shows "collect_leaders i sight ls = Inr (ls @ map (\<lambda>(t, i). (t, [i])) (leaders_seen i sight))"
  using assms
proof (induction sight arbitrary: i ls)
  case (Cons x sight)
  obtain cn rf where x: "x = (cn, Some rf)" using Cons.prems(1) by (cases x) auto
  show ?case
  proof (cases "cn \<and> state rf = Leader")
    case True
    then have "add_leader (CurrentTerm rf) i ls = ls @ [(CurrentTerm rf, [i])]"
      using Cons.prems(2) by (intro add_leader_fresh) (auto simp: x image_iff)
    with Cons True show ?thesis by (simp add: x GetState_def)
  qed (use Cons in \<open>auto simp: x GetState_def\<close>)
qed simp

lemma lastTerm_max: "\<forall>t \<in> fst ` set ls. -1 < t \<Longrightarrow> ls \<noteq> [] \<Longrightarrow> lastTermWithLeader ls = Max (fst ` set ls)"
proof -
  have "fold (\<lambda>(t, _) m. if t > m then t else m) ls m = fold max (map fst ls) m" for m :: int
    by (induction ls arbitrary: m) (auto simp: max_def)
  then have "fold (\<lambda>(t, _) m. if t > m then t else m) ls m = Max (insert m (fst ` set ls))" for m :: int
    using Max.set_eq_fold [of m "map fst ls"] by simp
  moreover assume pos: "\<forall>t \<in> fst ` set ls. -1 < t" "ls \<noteq> []"
  then have "Max (fst ` set ls) \<in> fst ` set ls" by (intro Max_in) auto
  with pos(1) have "-1 < Max (fst ` set ls)" by blast
  ultimately show ?thesis using pos(2) by (simp add: lastTermWithLeader_def)
qed

text \<open>One round, if the leaders that are seen have different terms.\<close>

lemma one_leader_turn_distinct:
  assumes all: "\<forall>x \<in> set sight. snd x \<noteq> None" and d: "distinct (map fst (leaders_seen 0 sight))"
    and pos: "\<forall>(t, i) \<in> set (leaders_seen 0 sight). -1 < t"
  shows "case one_leader_turn sight of
      Inl _ \<Rightarrow> False
    | Inr None \<Rightarrow> leaders_seen 0 sight = []
    | Inr (Some l) \<Rightarrow> \<exists>t. (t, l) \<in> set (leaders_seen 0 sight) \<and> (\<forall>(t', l') \<in> set (leaders_seen 0 sight). t' \<le> t)"
proof -
  let ?L = "leaders_seen 0 sight"
  let ?ls = "map (\<lambda>(t, i). (t, [i])) ?L"
  have c: "collect_leaders 0 sight [] = Inr ?ls" using collect_leaders_distinct [OF all, of "[]" 0] d by simp
  have few: "\<not> (\<exists>(t, is) \<in> set ?ls. length is > 1)" by auto
  show ?thesis
  proof (cases "?L = []")
    case True
    with c few show ?thesis by (simp add: one_leader_turn_def)
  next
    case False
    have fsts: "fst ` set ?ls = fst ` set ?L" by force
    have m: "lastTermWithLeader ?ls = Max (fst ` set ?L)"
      using lastTerm_max [of ?ls] False pos fsts by (auto simp: case_prod_unfold)
    have "Max (fst ` set ?L) \<in> fst ` set ?L" using False by simp
    then obtain l where l: "(Max (fst ` set ?L), l) \<in> set ?L" by force
    have "map fst ?ls = map fst ?L" by auto
    with d have "distinct (map fst ?ls)" by (simp only:)
    moreover have "(Max (fst ` set ?L), [l]) \<in> set ?ls" using l by force
    ultimately have "map_of ?ls (Max (fst ` set ?L)) = Some [l]" by (rule map_of_is_SomeI)
    then have "one_leader_turn sight = Inr (Some l)" using c few m False
      by (simp add: one_leader_turn_def go_index_def)
    moreover have "t' \<le> Max (fst ` set ?L)" if "(t', l') \<in> set ?L" for t' l' using that by (force intro: Max_ge)
    ultimately show ?thesis using l by auto
  qed
qed

section \<open>Leaders over time\<close>

text \<open>Votes are never forgotten, and terms do not decrease.\<close>

definition progress :: "('c, 'd) cluster \<Rightarrow> ('c, 'd) cluster \<Rightarrow> bool" where
  "progress s t \<longleftrightarrow> votes s \<subseteq> votes t \<and> length (srv t) = length (srv s) \<and>
     (\<forall>i < length (srv s). CurrentTerm (srv s ! i) \<le> CurrentTerm (srv t ! i))"

lemma progress_refl: "srv t = srv s \<Longrightarrow> votes t = votes s \<Longrightarrow> progress s t"
  by (simp add: progress_def)

lemma progress_set_srv:
  assumes "peer_mono (srv s ! i) rf" "srv t = (srv s)[i := rf]" "votes s \<subseteq> votes t"
  shows "progress s t"
proof -
  have "CurrentTerm (srv s ! k) \<le> CurrentTerm ((srv s)[i := rf] ! k)" if "k < length (srv s)" for k
    using assms(1) that by (cases "k = i") (simp_all add: peer_mono_def)
  with assms(2,3) show ?thesis by (simp add: progress_def)
qed

lemma handle_reply_progress: "progress s (handle_reply k i reply s)"
proof (cases "VoteGranted reply")
  case True
  obtain rf' v' gs where g: "startOneElection_granted (srv s ! cand_of s k) (count (elections s ! k)) = (rf', v', gs)"
    by (metis prod_cases3)
  with granted_effect [OF g] True show ?thesis
    by (intro progress_set_srv [of s "cand_of s k" rf']) (auto simp: handle_reply_def Let_def set_rpc_def set_srv_def peer_mono_def)
next
  case False
  then show ?thesis
    by (intro progress_set_srv [of s "cand_of s k" "startOneElection_refused (srv s ! cand_of s k) reply"])
      (auto simp: handle_reply_def Let_def set_rpc_def set_srv_def refused_effect)
qed

lemma calm_step_progress:
  assumes "cluster_inv n s" "calm_step s t"
  shows "progress s t"
proof -
  from assms(2) obtain a where a: "calm s a" "act s a = Some t" by cases
  show ?thesis
  proof (cases a)
    case (Elect c now rnd)
    with a(2) show ?thesis
      by (intro progress_set_srv [of s c "startOneElection now rnd (srv s ! c)"])
        (auto simp: Let_def set_srv_def peer_mono_def startOneElection_effect split: if_splits)
  next
    case (Deliver k i now rnd)
    with a(2) obtain args where "rpc_of s k i = Sent args" by (auto split: if_splits rpc.splits)
    with a(2) Deliver show ?thesis
      by (intro progress_set_srv [OF RequestVote_mono [of "srv s ! i" now rnd args]])
        (auto simp: Let_def set_srv_def set_rpc_def split: if_splits prod.splits)
  next
    case (Local i r)
    with a(2) obtain rf where i: "i < length (srv s)" "run_region r (srv s ! i) = Some rf" "t = set_srv i rf s"
      by (auto split: if_splits)
    have "peer_step (srv s ! i) rf" using i(2) a(1) [unfolded Local] by (rule run_region_peer_step) simp
    moreover have "durable (srv s ! i)" using assms(1) i(1) by (simp add: cluster_inv_def servers_ok_def)
    ultimately have "peer_mono (srv s ! i) rf" by (rule peer.region_mono)
    then show ?thesis by (rule progress_set_srv) (simp_all add: i(3) set_srv_def)
  next
    case (Handle k i)
    with a(2) obtain reply where "t = handle_reply k i reply s" by (auto split: if_splits rpc.splits)
    then show ?thesis by (simp add: handle_reply_progress)
  qed (use a(2) in \<open>auto simp: set_rpc_def intro!: progress_refl split: if_splits rpc.splits\<close>)
qed

lemma run_progress:
  assumes "run_from calm_step s t" "cluster_inv n s"
  shows "cluster_inv n t \<and> progress s t"
  using assms
proof (induction rule: run_from.induct)
  case (run_step s t u)
  then have t: "cluster_inv n t" "progress s t" by simp_all
  moreover have "cluster_inv n u" by (rule elections.inv_step [OF t(1) run_step.hyps(2)])
  moreover have "progress t u" by (rule calm_step_progress [OF t(1) run_step.hyps(2)])
  ultimately show ?case by (auto simp: progress_def intro: order_trans)
qed (simp add: progress_refl)

text \<open>A term has one leader, whenever one looks.\<close>

lemma one_leader_over_time:
  assumes "cluster_inv n s" "run_from calm_step s t" "leader_in_term s i x" "leader_in_term t j x"
  shows "i = j"
proof -
  from run_progress [OF assms(2,1)] have t: "cluster_inv n t" "votes s \<subseteq> votes t" by (simp_all add: progress_def)
  have "vote_quorum n (voters (votes s) x (int i))" "vote_quorum n (voters (votes t) x (int j))"
    using assms(1,3,4) t(1) by (auto simp: cluster_inv_def leaders_ok_def leader_in_term_def)
  moreover have "voters (votes s) x (int i) \<subseteq> voters (votes t) x (int i)" using t(2) by (auto simp: voters_def)
  moreover have vok: "votes_ok (srv t) (votes t)" using t(1) by (simp add: cluster_inv_def)
  moreover have "length (srv t) = n" using t(1) by (simp add: cluster_inv_def servers_ok_def)
  ultimately have "vote_quorum n (voters (votes t) x (int i))" "vote_quorum n (voters (votes t) x (int j))"
    using vote_quorum_mono voters_bounded [OF vok] by blast+
  then obtain v where "v \<in> voters (votes t) x (int i)" "v \<in> voters (votes t) x (int j)" by (rule votes.common_member)
  with votes_okD(5) [OF vok] show ?thesis by (fastforce simp: voters_def)
qed

lemma leaders_seen_look:
  assumes "length cn = length ss"
  shows "(t, i) \<in> set (leaders_seen 0 (look cn ss)) \<longleftrightarrow>
    i < length ss \<and> cn ! i \<and> state (srv (ss ! i) ! i) = Leader \<and> CurrentTerm (srv (ss ! i) ! i) = t"
proof -
  have "(t, i) \<in> set (leaders_seen k sight) \<longleftrightarrow>
      k \<le> i \<and> i < k + length sight \<and> (\<exists>rf. sight ! (i - k) = (True, Some rf) \<and> state rf = Leader \<and> CurrentTerm rf = t)"
    for k and sight :: "('c, 'd) sight"
  proof (induction sight arbitrary: k)
    case (Cons x sight)
    obtain c rf where x: "x = (c, rf)" by (cases x)
    show ?case
    proof (cases "k = i")
      case True
      then show ?thesis using Cons [of "Suc k"] by (auto simp: x split: option.splits)
    next
      case False
      then have "(x # sight) ! (i - k) = sight ! (i - Suc k)" if "k \<le> i" using that by (simp add: nth_Cons')
      with False Cons [of "Suc k"] show ?thesis by (auto simp: x split: option.splits if_splits)
    qed
  qed simp
  from this [of 0 "look cn ss"] show ?thesis by (auto simp: look_def)
qed

lemma look_distinct:
  assumes inv: "cluster_inv n s" and obs: "observed calm_step s ss" and n: "length ss = n" "length cn = n"
  shows "distinct (map fst (leaders_seen 0 (look cn ss)))"
proof -
  have dist: "distinct (map snd (leaders_seen k sight)) \<and> (\<forall>i \<in> snd ` set (leaders_seen k sight). k \<le> i)"
    for k and sight :: "('c, 'd) sight"
  proof (induction sight arbitrary: k)
    case (Cons x sight)
    obtain c rf where x: "x = (c, rf)" by (cases x)
    from Cons [of "Suc k"] show ?case by (fastforce simp: x split: option.splits)
  qed simp
  have "i = j" if L: "(t, i) \<in> set (leaders_seen 0 (look cn ss))" "(t, j) \<in> set (leaders_seen 0 (look cn ss))" for t i j
  proof -
    have ij: "i < n" "j < n" "state (srv (ss ! i) ! i) = Leader" "CurrentTerm (srv (ss ! i) ! i) = t"
      "state (srv (ss ! j) ! j) = Leader" "CurrentTerm (srv (ss ! j) ! j) = t"
      using L leaders_seen_look [of cn ss] n by auto
    have inv': "cluster_inv n (ss ! k)" if "k < n" for k
      using run_progress [OF observed_mem [OF obs] inv] that n by simp
    then have "leader_in_term (ss ! i) i t" "leader_in_term (ss ! j) j t"
      using ij by (simp_all add: leader_in_term_def cluster_inv_def servers_ok_def)
    with observed_ordered [OF obs, of "ss ! i" "ss ! j"] ij(1,2) n(1) inv' one_leader_over_time show ?thesis
      by (metis nth_mem)
  qed
  then have "inj_on fst (set (leaders_seen 0 (look cn ss)))" by (auto simp: inj_on_def)
  moreover have "distinct (leaders_seen 0 (look cn ss))" using dist [of 0 "look cn ss"] by (simp add: distinct_map)
  ultimately show ?thesis by (simp add: distinct_map)
qed

lemma observed_last: "observed step s xs \<Longrightarrow> run_from step s (last (s # xs))"
  by (induction xs arbitrary: s) (auto intro: run_from_trans run_refl)

lemma observed_concat:
  assumes "observed step s (concat xss)" "xs \<in> set xss"
  shows "\<exists>t. run_from step s t \<and> observed step t xs"
  using assms
proof (induction xss arbitrary: s)
  case (Cons ys xss)
  then have o: "observed step s ys" "observed step (last (s # ys)) (concat xss)" by (simp_all add: observed_append)
  show ?case
  proof (cases "xs = ys")
    case True
    with o(1) show ?thesis by (blast intro: run_refl)
  next
    case False
    with Cons.IH [OF o(2)] Cons.prems(2) observed_last [OF o(1)] show ?thesis by (auto intro: run_from_trans)
  qed
qed simp

lemma one_leader_loop_verdict:
  assumes "\<forall>sight \<in> set sights. case one_leader_turn sight of
      Inl _ \<Rightarrow> False
    | Inr None \<Rightarrow> leaders_seen 0 sight = []
    | Inr (Some l) \<Rightarrow> \<exists>t. (t, l) \<in> set (leaders_seen 0 sight) \<and> (\<forall>(t', l') \<in> set (leaders_seen 0 sight). t' \<le> t)"
  shows "case one_leader_loop sights of
      Inl _ \<Rightarrow> \<forall>sight \<in> set sights. leaders_seen 0 sight = []
    | Inr l \<Rightarrow> \<exists>sight \<in> set sights. \<exists>t. (t, l) \<in> set (leaders_seen 0 sight) \<and> (\<forall>(t', l') \<in> set (leaders_seen 0 sight). t' \<le> t)"
  using assms
proof (induction sights)
  case (Cons sight sights)
  from Cons.prems show ?case
  proof (cases "one_leader_turn sight")
    case (Inr r)
    with Cons show ?thesis by (cases r) (auto split: sum.splits)
  qed simp
qed simp

lemma calm_term_nonneg:
  assumes "run_from calm_step (init_cluster n) s" "i < n"
  shows "0 \<le> CurrentTerm (srv s ! i)"
proof -
  have "progress (init_cluster n) s" using run_progress [OF assms(1) inv_init] by simp
  moreover have "CurrentTerm (srv (init_cluster n) ! i) = 0" "length (srv (init_cluster n)) = n"
    using assms(2) by (simp_all add: init_cluster_def Make_def Let_def MakePersister_def ReadRaftState_def readPersist_def resetElectionTimer_def)
  ultimately show ?thesis using assms(2) unfolding progress_def by metis
qed

lemma calm_round_verdict:
  assumes obs: "observed calm_step (init_cluster n) (concat sss)" and ss: "ss \<in> set sss" "length ss = n" and cn: "length cn = n"
  shows "distinct (map fst (leaders_seen 0 (look cn ss)))"
    and "\<forall>(t, i) \<in> set (leaders_seen 0 (look cn ss)). -1 < t" and "\<forall>x \<in> set (look cn ss). snd x \<noteq> None"
proof -
  from observed_concat [OF obs ss(1)] obtain s where s: "run_from calm_step (init_cluster n) s" "observed calm_step s ss" by blast
  then have "cluster_inv n s" using run_progress [OF _ inv_init] by blast
  from look_distinct [OF this s(2) ss(2) cn] show "distinct (map fst (leaders_seen 0 (look cn ss)))" .
  have "0 \<le> CurrentTerm (srv (ss ! i) ! i)" if "i < n" for i
    using calm_term_nonneg [OF run_from_trans [OF s(1) observed_mem [OF s(2)]] that] that ss(2) by simp
  then show "\<forall>(t, i) \<in> set (leaders_seen 0 (look cn ss)). -1 < t"
    using leaders_seen_look [of cn ss] ss(2) cn by force
  show "\<forall>x \<in> set (look cn ss). snd x \<noteq> None" by (auto simp: look_def)
qed

section \<open>Properties\<close>

text \<open>
  Counting commits is well defined. However the logs grow while \<^verbatim>\<open>nCommitted\<close> looks at one server after the other,
  it never stops the test: it returns the number of servers that had an entry at the index when they were
  looked at, and all of these entries are equal to the command it returns.
\<close>

lemma nCommitted_never_fatal:
  assumes "raft_make_config rfm now rnd names n unreliable = Inr cfg0"
    and "observed (raft_step rfm) cfg0 cfgs" and "length cfgs = n"
  shows "\<exists>cmd. nCommitted cfgs index = Inr (int (card {i. i < n \<and> (rc_logs (cfgs ! i) ! i) index \<noteq> None}), cmd) \<and>
    (\<forall>i < n. \<forall>v. (rc_logs (cfgs ! i) ! i) index = Some v \<longrightarrow> v = cmd)"
  using nCommitted_counts [OF raft_make_config_inv [OF assms(1)] assms(2,3)] .

definition example_applied :: "(nat, nat) ApplyMsg" where
  "example_applied = \<lparr>CommandValid = True, Command = CommandIface 7, CommandIndex = 1\<rparr>"

lemma example_apply:
  "case raft_make_config [] 0 (\<lambda>_. 0) example_names 2 False of
     Inl _ \<Rightarrow> False
   | Inr (cfg :: (nat, nat, unit) raft_config) \<Rightarrow>
       (case apply_msg 1 example_applied cfg of Inl _ \<Rightarrow> False | Inr cfg' \<Rightarrow>
          (rc_logs cfg' ! 1) 1 = Some (CommandIface 7) \<and> (rc_logs cfg' ! 0) 1 = None)"
  by code_simp

lemma nCommitted_never_fatal_witness:
  "\<exists>(cfg :: (nat, nat, unit) raft_config) cfg' nd. raft_make_config [] 0 (\<lambda>_. 0) example_names 2 False = Inr cfg \<and>
     apply_msg 1 example_applied cfg = Inr cfg' \<and> nCommitted [cfg, cfg'] 1 = Inr (nd, CommandIface 7)"
proof -
  from example_apply obtain cfg cfg' :: "(nat, nat, unit) raft_config"
    where c: "raft_make_config [] 0 (\<lambda>_. 0) example_names 2 False = Inr cfg" "apply_msg 1 example_applied cfg = Inr cfg'"
      "(rc_logs cfg' ! 1) 1 = Some (CommandIface 7)" by (auto split: sum.splits)
  have "observed (raft_step []) cfg [cfg, cfg']" using run_from_single [of "raft_step []", OF rs_apply [OF c(2)]] by (simp add: run_refl)
  from nCommitted_never_fatal [OF c(1) this, of 1] c show ?thesis by (fastforce simp: numeral_2_eq_2)
qed

text \<open>
  C25: What an agreement is. When \<^verbatim>\<open>one\<close> returns an index, a server that was the leader when \<^verbatim>\<open>Start\<close> looked at its
  role has appended the command at that index in answer to one of the calls (it may have lost the lead in between:
  each call sees its peer at two moments, with anything happening in between), and in one look at the logs at least one server, and at least as many as expected, had
  applied the command at the index, and every entry before it.
\<close>

theorem one_returns_agreement:
  assumes "raft_make_config rfm now rnd names n unreliable = Inr cfg0"
    and "\<forall>r \<in> set rs. \<forall>cfgs \<in> set (or_polls r). observed (raft_step rfm) cfg0 cfgs \<and> length cfgs = n"
    and "one cmd expected retry (int n) rs = (calls, Inr index)"
  shows "(\<exists>(j, rf0, rf) \<in> set calls. state rf0 = Leader \<and> holds_command cmd index rf) \<and>
    (\<exists>r \<in> set rs. \<exists>cfgs \<in> set (or_polls r).
       let S = {i. i < n \<and> (rc_logs (cfgs ! i) ! i) index = Some (CommandIface cmd)}
       in S \<noteq> {} \<and> expected \<le> int (card S) \<and> (\<forall>i \<in> S. \<forall>k. 1 \<le> k \<and> k \<le> index \<longrightarrow> (rc_logs (cfgs ! i) ! i) k \<noteq> None))"
proof -
  note inv = raft_make_config_inv [OF assms(1)]
  have one: "snd (one_loop cmd expected retry (int n) 0 rs) = Inr index" "fst (one_loop cmd expected retry (int n) 0 rs) = calls"
    using assms(3) by (simp_all add: one_def)
  from one_loop_agrees(1) [OF one(1)] obtain r where r0: "r \<in> set rs" "poll_loop index cmd expected (or_polls r) = Inr True"
    by (elim bexE)
  from poll_loop_True [OF r0(2)] obtain cfgs nd where r: "r \<in> set rs" "cfgs \<in> set (or_polls r)"
    and nd: "nCommitted cfgs index = Inr (nd, CommandIface cmd)" "0 < nd" "expected \<le> nd"
    using r0(1) by (elim bexE exE conjE)
  have obs: "observed (raft_step rfm) cfg0 cfgs" "length cfgs = n" using assms(2) r by blast+
  let ?S = "{i. i < n \<and> (rc_logs (cfgs ! i) ! i) index = Some (CommandIface cmd)}"
  from nCommitted_counts [OF inv obs, of index] nd(1)
  have c: "nd = int (card {i. i < n \<and> (rc_logs (cfgs ! i) ! i) index \<noteq> None})"
    "\<forall>i < n. \<forall>v. (rc_logs (cfgs ! i) ! i) index = Some v \<longrightarrow> v = CommandIface cmd" by auto
  then have S: "?S = {i. i < n \<and> (rc_logs (cfgs ! i) ! i) index \<noteq> None}" by auto
  have "0 < card ?S" using c(1) nd(2) S by simp
  then have "?S \<noteq> {}" using card_gt_0_iff by blast
  moreover have "expected \<le> int (card ?S)" using c(1) nd(3) S by simp
  moreover have "(rc_logs (cfgs ! i) ! i) k \<noteq> None" if "i \<in> ?S" "1 \<le> k \<and> k \<le> index" for i k
  proof -
    have "logs_ok (cfgs ! i)" "i < length (rc_logs (cfgs ! i))"
      using raft_run_logs_grow [OF observed_mem [OF obs(1)] inv, of "cfgs ! i"] that(1) obs(2)
      by (auto simp: raft_inv_def raft_running_def raft_ok_def logs_ok_def)
    with logs_prefix [of "cfgs ! i" "rc_logs (cfgs ! i) ! i" index k] that show ?thesis by auto
  qed
  ultimately have "let S = ?S in S \<noteq> {} \<and> expected \<le> int (card S) \<and>
      (\<forall>i \<in> S. \<forall>k. 1 \<le> k \<and> k \<le> index \<longrightarrow> (rc_logs (cfgs ! i) ! i) k \<noteq> None)"
    unfolding Let_def by blast
  with r one_loop_agrees(2) [OF one(1), unfolded one(2)] show ?thesis by blast
qed

text \<open>Server 1 is the leader of two, loses the lead while it is asked, and applies the command that it is given.\<close>

definition example_round :: "(nat, nat, unit) raft_config \<Rightarrow> (nat, nat, unit) raft_config \<Rightarrow> (nat, nat, unit) one_round" where
  "example_round cfg cfg' =
     \<lparr>or_now = 0, or_asks = [(True, Some ((cf_instances cfg ! 1)\<lparr>state := 0\<rparr>, cf_instances cfg ! 1))], or_polls = [[cfg, cfg']]\<rparr>"

lemma example_one:
  "case raft_make_config [] 0 (\<lambda>_. 0) example_names 2 False of
     Inl _ \<Rightarrow> False
   | Inr (cfg :: (nat, nat, unit) raft_config) \<Rightarrow>
       (case apply_msg 1 example_applied cfg of Inl _ \<Rightarrow> False
        | Inr cfg' \<Rightarrow> snd (one 7 1 False (int 2) [example_round cfg cfg']) = Inr 1)"
  by code_simp

theorem one_returns_agreement_witness:
  "\<exists>cfg cfg' calls. raft_make_config [] 0 (\<lambda>_. 0) example_names 2 False = Inr cfg \<and>
     one 7 1 False 2 [example_round cfg cfg'] = (calls, Inr 1) \<and> (\<exists>(j, rf0, rf) \<in> set calls. holds_command 7 1 rf)"
proof -
  from example_one obtain cfg cfg'
    where c: "raft_make_config [] 0 (\<lambda>_. 0) example_names 2 False = Inr cfg" "apply_msg 1 example_applied cfg = Inr cfg'"
      and "snd (one 7 1 False (int 2) [example_round cfg cfg']) = Inr 1"
    by (auto split: sum.split_asm)
  then obtain calls where o: "one 7 1 False (int 2) [example_round cfg cfg'] = (calls, Inr 1)" by (metis prod.collapse)
  have "observed (raft_step []) cfg [cfg, cfg']" using run_from_single [of "raft_step []", OF rs_apply [OF c(2)]] by (simp add: run_refl)
  then have "\<forall>r \<in> set [example_round cfg cfg']. \<forall>cfgs \<in> set (or_polls r). observed (raft_step []) cfg cfgs \<and> length cfgs = 2"
    by (simp add: example_round_def)
  from one_returns_agreement [OF c(1) this o] c(1) o show ?thesis by fastforce
qed

text \<open>Giving up is the only error of a loop whose rounds see no two leaders of a term.\<close>

lemma one_leader_loop_fatal:
  "one_leader_loop sights = Inl e \<Longrightarrow> \<forall>sight \<in> set sights. \<exists>r. one_leader_turn sight = Inr r \<Longrightarrow> e = TestFatal"
  by (induction sights) (auto split: option.splits)

lemma latest_strict:
  assumes "distinct (map fst xs)" "(t, l) \<in> set xs" "\<forall>(t', l') \<in> set xs. t' \<le> t" "(u, j) \<in> set xs" "j \<noteq> l"
  shows "u < (t :: int)"
proof -
  have "u \<noteq> t" using assms(1,2,4,5) inj_onD [of fst "set xs" "(u, j)" "(t, l)"] by (auto simp: distinct_map)
  moreover have "u \<le> t" using assms(3,4) by auto
  ultimately show ?thesis by simp
qed

text \<open>
  C24: \<^verbatim>\<open>checkOneLeader\<close> judges rightly. Let its rounds look at the servers of a cluster one after the other, in any run in which
  elections are safe, and at any moments. If it returns a server, then in one round this server was connected
  and a leader, of a later term than any other leader of that round; it never complains of two leaders of a term,
  and gives up only if no connected server was a leader in any of its ten rounds.
\<close>

theorem checkOneLeader_verdict:
  assumes "observed calm_step (init_cluster n) (concat sss)" and "\<forall>ss \<in> set sss. length ss = n"
    and "length cns = length sss" and "\<forall>cn \<in> set cns. length cn = n"
  shows "case checkOneLeader (map2 look cns sss) of
      Inr l \<Rightarrow> \<exists>(cn, ss) \<in> set (zip cns sss). l < n \<and> cn ! l \<and> state (srv (ss ! l) ! l) = Leader \<and>
        (\<forall>j < n. j \<noteq> l \<longrightarrow> cn ! j \<longrightarrow> state (srv (ss ! j) ! j) = Leader \<longrightarrow> CurrentTerm (srv (ss ! j) ! j) < CurrentTerm (srv (ss ! l) ! l))
    | Inl e \<Rightarrow> e = TestFatal \<and> (\<forall>(cn, ss) \<in> set (take 10 (zip cns sss)). \<forall>j < n. cn ! j \<longrightarrow> state (srv (ss ! j) ! j) \<noteq> Leader)"
proof -
  let ?sights = "take 10 (map2 look cns sss)"
  have ok: "distinct (map fst (leaders_seen 0 (look cn ss)))" "\<forall>(t, i) \<in> set (leaders_seen 0 (look cn ss)). -1 < t"
    "\<forall>x \<in> set (look cn ss). snd x \<noteq> None" "length cn = n" "length ss = n" if "(cn, ss) \<in> set (zip cns sss)" for cn ss
    using calm_round_verdict [OF assms(1), of ss cn] assms(2,4) set_zip_leftD [OF that] set_zip_rightD [OF that] by auto
  have sights: "\<exists>(cn, ss) \<in> set (take 10 (zip cns sss)). sight = look cn ss" if "sight \<in> set ?sights" for sight
    using that by (auto simp: take_map)
  have turn: "case one_leader_turn sight of
      Inl _ \<Rightarrow> False
    | Inr None \<Rightarrow> leaders_seen 0 sight = []
    | Inr (Some l) \<Rightarrow> \<exists>t. (t, l) \<in> set (leaders_seen 0 sight) \<and> (\<forall>(t', l') \<in> set (leaders_seen 0 sight). t' \<le> t)"
    if in_sights: "sight \<in> set ?sights" for sight
    using sights [OF in_sights] one_leader_turn_distinct [OF ok(3,1,2) [OF in_set_takeD]] by fast
  have verdict: "case one_leader_loop ?sights of
      Inl _ \<Rightarrow> \<forall>sight \<in> set ?sights. leaders_seen 0 sight = []
    | Inr l \<Rightarrow> \<exists>sight \<in> set ?sights. \<exists>t. (t, l) \<in> set (leaders_seen 0 sight) \<and>
        (\<forall>(t', l') \<in> set (leaders_seen 0 sight). t' \<le> t)"
    by (rule one_leader_loop_verdict) (use turn in blast)
  have seen: "(t, i) \<in> set (leaders_seen 0 (look cn ss)) \<longleftrightarrow>
      i < n \<and> cn ! i \<and> state (srv (ss ! i) ! i) = Leader \<and> CurrentTerm (srv (ss ! i) ! i) = t"
    if "(cn, ss) \<in> set (zip cns sss)" for t i cn ss
    using leaders_seen_look [of cn ss] ok(4,5) [OF that] by simp
  show ?thesis
  proof (cases "checkOneLeader (map2 look cns sss)")
    case (Inl e)
    then have none: "\<forall>sight \<in> set ?sights. leaders_seen 0 sight = []" using verdict by (simp add: checkOneLeader_def)
    have "state (srv (ss ! j) ! j) \<noteq> Leader" if c: "(cn, ss) \<in> set (take 10 (zip cns sss))" "j < n" "cn ! j" for cn ss j
      using none c seen [OF in_set_takeD [OF c(1)], of "CurrentTerm (srv (ss ! j) ! j)" j] by (force simp: take_map)
    moreover have "\<exists>r. one_leader_turn sight = Inr r" if "sight \<in> set ?sights" for sight
      using turn [OF that] by (cases "one_leader_turn sight") auto
    then have "e = TestFatal" using one_leader_loop_fatal [of ?sights e] Inl by (auto simp: checkOneLeader_def)
    ultimately show ?thesis using Inl by auto
  next
    case (Inr l)
    with verdict obtain sight t where l: "sight \<in> set ?sights" "(t, l) \<in> set (leaders_seen 0 sight)"
      "\<forall>(t', l') \<in> set (leaders_seen 0 sight). t' \<le> t" by (auto simp: checkOneLeader_def)
    then obtain cn ss where c: "(cn, ss) \<in> set (zip cns sss)" "sight = look cn ss" using sights in_set_takeD by fast
    have "CurrentTerm (srv (ss ! j) ! j) < t" if "j < n" "j \<noteq> l" "cn ! j" "state (srv (ss ! j) ! j) = Leader" for j
      using latest_strict [OF ok(1) [OF c(1)] l(2,3) [unfolded c(2)]] seen [OF c(1)] that by blast
    with l(2) c seen [OF c(1), of t l] Inr show ?thesis by (auto intro!: bexI [of _ "(cn, ss)"])
  qed
qed

theorem checkOneLeader_verdict_witness:
  "\<exists>s. acts (init_cluster 3) (take 5 example_election) = Some s \<and> checkOneLeader [look [True, True, True] [s, s, s]] = Inr 0 \<and>
     state (srv s ! 0) = Leader"
proof -
  have e: "calm_acts (init_cluster 3) (take 5 example_election) \<and>
    (case acts (init_cluster 3) (take 5 example_election) of None \<Rightarrow> False
     | Some s \<Rightarrow> checkOneLeader [look [True, True, True] [s, s, s]] = Inr 0)" by code_simp
  then obtain s where s: "acts (init_cluster 3) (take 5 example_election) = Some s"
    "checkOneLeader [look [True, True, True] [s, s, s]] = Inr 0" by (auto split: option.splits)
  with e have "run_from calm_step (init_cluster 3) s" using calm_acts_run by blast
  then have "observed calm_step (init_cluster 3) (concat [[s, s, s]])" by (simp add: run_refl)
  from checkOneLeader_verdict [OF this, of "[[True, True, True]]"] s show ?thesis by simp
qed

end
