(* ===== verification/Shard_Kv.thy ===== *)
theory Shard_Kv
  imports Shard_Master
begin

text \<open>
  The sharded key/value service, \<^verbatim>\<open>shardkv/common.go\<close>, \<^verbatim>\<open>client.go\<close> and \<^verbatim>\<open>server.go\<close>: the clerk that
  looks up the group of a key's shard in its configuration, asks the servers of the group, and
  fetches a new configuration from the shard master when that fails; and the server, whose handlers
  are still empty. A server of a group is named by a string, as in the configuration; \<open>call args t s\<close>
  and \<open>mcall args t s\<close> are the outcomes of the \<open>t\<close>-th attempt at a group server and at a master.
\<close>

section \<open>Messages\<close>

record skv_PutAppendArgs =
  spa_Key :: string
  spa_Value :: string
  spa_Op :: string

record skv_PutAppendReply =
  spa_Err :: string

record skv_GetArgs =
  sg_Key :: string

record skv_GetReply =
  sg_Err :: string
  sg_Value :: string

text \<open>The reply a clerk passes to \<^verbatim>\<open>Call\<close> is a zero value.\<close>

definition zero_QueryReply :: QueryReply where
  "zero_QueryReply = \<lparr>q_WrongLeader = False, q_Err = '''', q_Config = zero_Config\<rparr>"

section \<open>The server\<close>

record ('c, 'd) ShardKV =
  skv_me :: int
  skv_rf :: "('c, 'd) Raft"
  skv_gid :: int
  skv_masters :: "nat list"
  skv_maxraftstate :: int

definition skv_Get :: "('c, 'd) ShardKV \<Rightarrow> skv_GetArgs \<Rightarrow> skv_GetReply \<Rightarrow> ('c, 'd) ShardKV \<times> skv_GetReply" where
  "skv_Get kv args reply = (kv, reply)"

definition skv_PutAppend ::
  "('c, 'd) ShardKV \<Rightarrow> skv_PutAppendArgs \<Rightarrow> skv_PutAppendReply \<Rightarrow> ('c, 'd) ShardKV \<times> skv_PutAppendReply" where
  "skv_PutAppend kv args reply = (kv, reply)"

definition skv_Kill :: "('c, 'd) ShardKV \<Rightarrow> ('c, 'd) ShardKV" where
  "skv_Kill kv = kv\<lparr>skv_rf := raft_Kill (skv_rf kv)\<rparr>"

definition skv_StartServer ::
  "int \<Rightarrow> int \<Rightarrow> nat \<Rightarrow> int \<Rightarrow> ('c gobval, 'd) Persister \<Rightarrow> int \<Rightarrow> int \<Rightarrow> nat list \<Rightarrow> ('c, 'd) ShardKV" where
  "skv_StartServer now rnd servers i persister maxstate gid masters =
     \<lparr>skv_me = i, skv_rf = Make now rnd servers i persister, skv_gid = gid, skv_masters = masters, skv_maxraftstate = maxstate\<rparr>"

section \<open>The clerk\<close>

definition key2shard :: "string \<Rightarrow> int" where
  "key2shard key = (let shard = (if length key > 0 then of_char (key ! 0) else 0) in shard mod int NShards)"

record skv_Clerk =
  sck_sm :: sm_Clerk
  sck_config :: Config

definition skv_MakeClerk :: "nat list \<Rightarrow> skv_Clerk" where
  "skv_MakeClerk masters = \<lparr>sck_sm = sm_MakeClerk masters, sck_config = zero_Config\<rparr>"

text \<open>
  One pass over the servers of a group: \<open>answers\<close> picks the replies that end the operation,
  \<open>wrong_group\<close> those that end the pass. The second component counts the attempts.
\<close>

fun try_group ::
  "('r \<Rightarrow> bool) \<Rightarrow> ('r \<Rightarrow> bool) \<Rightarrow> (nat \<Rightarrow> string \<Rightarrow> 'r option) \<Rightarrow> nat \<Rightarrow> string list \<Rightarrow> 'r option \<times> nat" where
  "try_group answers wrong_group call t [] = (None, t)"
| "try_group answers wrong_group call t (srv # servers) =
     (case call t srv of
        Some reply \<Rightarrow>
          if answers reply then (Some reply, Suc t)
          else if wrong_group reply then (None, Suc t)
          else try_group answers wrong_group call (Suc t) servers
      | None \<Rightarrow> try_group answers wrong_group call (Suc t) servers)"

partial_function (option) shard_loop ::
  "('r \<Rightarrow> bool) \<Rightarrow> ('r \<Rightarrow> bool) \<Rightarrow> (nat \<Rightarrow> string \<Rightarrow> 'r option) \<Rightarrow> (QueryArgs \<Rightarrow> nat \<Rightarrow> nat \<Rightarrow> QueryReply option)
   \<Rightarrow> string \<Rightarrow> skv_Clerk \<Rightarrow> nat \<Rightarrow> (skv_Clerk \<times> 'r) go option" where
  "shard_loop answers wrong_group call mcall key ck t =
     (case go_index (Shards (sck_config ck)) (key2shard key) of
        Inl e \<Rightarrow> Some (Inl e)
      | Inr gid \<Rightarrow>
          (case (case Groups (sck_config ck) gid of
                   None \<Rightarrow> (None, t)
                 | Some servers \<Rightarrow> try_group answers wrong_group call t servers) of
             (Some reply, t') \<Rightarrow> Some (Inr (ck, reply))
           | (None, t') \<Rightarrow>
               (case clerk_Query mcall (sck_sm ck) (-1) t' of
                  None \<Rightarrow> None
                | Some (config, t'') \<Rightarrow>
                    shard_loop answers wrong_group call mcall key (ck\<lparr>sck_config := config\<rparr>) t'')))"

definition shard_clerk_Get ::
  "(skv_GetArgs \<Rightarrow> nat \<Rightarrow> string \<Rightarrow> skv_GetReply option) \<Rightarrow> (QueryArgs \<Rightarrow> nat \<Rightarrow> nat \<Rightarrow> QueryReply option)
   \<Rightarrow> skv_Clerk \<Rightarrow> string \<Rightarrow> nat \<Rightarrow> (skv_Clerk \<times> string) go option" where
  "shard_clerk_Get call mcall ck key t =
     map_option (mapG (\<lambda>(ck, reply). (ck, sg_Value reply)))
       (shard_loop (\<lambda>r. sg_Err r = ''OK'' \<or> sg_Err r = ''ErrNoKey'') (\<lambda>r. sg_Err r = ''ErrWrongGroup'')
          (call \<lparr>sg_Key = key\<rparr>) mcall key ck t)"

definition shard_clerk_PutAppend ::
  "(skv_PutAppendArgs \<Rightarrow> nat \<Rightarrow> string \<Rightarrow> skv_PutAppendReply option) \<Rightarrow> (QueryArgs \<Rightarrow> nat \<Rightarrow> nat \<Rightarrow> QueryReply option)
   \<Rightarrow> skv_Clerk \<Rightarrow> string \<Rightarrow> string \<Rightarrow> string \<Rightarrow> nat \<Rightarrow> skv_Clerk go option" where
  "shard_clerk_PutAppend call mcall ck key v op t =
     map_option (mapG fst)
       (shard_loop (\<lambda>r. spa_Err r = ''OK'') (\<lambda>r. spa_Err r = ''ErrWrongGroup'')
          (call \<lparr>spa_Key = key, spa_Value = v, spa_Op = op\<rparr>) mcall key ck t)"

definition shard_clerk_Put ::
  "(skv_PutAppendArgs \<Rightarrow> nat \<Rightarrow> string \<Rightarrow> skv_PutAppendReply option) \<Rightarrow> (QueryArgs \<Rightarrow> nat \<Rightarrow> nat \<Rightarrow> QueryReply option)
   \<Rightarrow> skv_Clerk \<Rightarrow> string \<Rightarrow> string \<Rightarrow> nat \<Rightarrow> skv_Clerk go option" where
  "shard_clerk_Put call mcall ck key v t = shard_clerk_PutAppend call mcall ck key v ''Put'' t"

definition shard_clerk_Append ::
  "(skv_PutAppendArgs \<Rightarrow> nat \<Rightarrow> string \<Rightarrow> skv_PutAppendReply option) \<Rightarrow> (QueryArgs \<Rightarrow> nat \<Rightarrow> nat \<Rightarrow> QueryReply option)
   \<Rightarrow> skv_Clerk \<Rightarrow> string \<Rightarrow> string \<Rightarrow> nat \<Rightarrow> skv_Clerk go option" where
  "shard_clerk_Append call mcall ck key v t = shard_clerk_PutAppend call mcall ck key v ''Append'' t"

section \<open>What the loop returns\<close>

lemma key2shard_range: "0 \<le> key2shard key \<and> key2shard key < int NShards"
  by (simp add: key2shard_def NShards_def)

lemma try_group_answer:
  "try_group answers wrong call t servers = (Some r, t') \<Longrightarrow>
   answers r \<and> (\<exists>k s. s \<in> set servers \<and> call k s = Some r)"
proof (induction servers arbitrary: t)
  case (Cons srv servers)
  show ?case
  proof (cases "call t srv")
    case None
    with Cons.prems have "try_group answers wrong call (Suc t) servers = (Some r, t')" by simp
    from Cons.IH [OF this] show ?thesis by auto
  next
    case (Some reply)
    show ?thesis
    proof (cases "answers reply \<or> wrong reply")
      case True
      with Some Cons.prems show ?thesis by (auto split: if_splits)
    next
      case False
      with Some Cons.prems have "try_group answers wrong call (Suc t) servers = (Some r, t')" by simp
      from Cons.IH [OF this] show ?thesis by auto
    qed
  qed
qed simp

text \<open>
  A configuration the clerk may have: the one it starts with, or one a master that takes itself for
  the leader has sent. All of them assign a group to each shard.
\<close>

definition known_config :: "(QueryArgs \<Rightarrow> nat \<Rightarrow> nat \<Rightarrow> QueryReply option) \<Rightarrow> skv_Clerk \<Rightarrow> Config \<Rightarrow> bool" where
  "known_config mcall ck c \<longleftrightarrow> c = sck_config ck \<or>
     (\<exists>t s r. s \<in> set (smck_servers (sck_sm ck)) \<and> mcall \<lparr>qa_Num = -1\<rparr> t s = Some r \<and> \<not> q_WrongLeader r \<and> c = q_Config r)"

lemma clerk_Query_from_master:
  assumes "clerk_Query mcall sm num t = Some (c, t')"
  shows "\<exists>k s r. s \<in> set (smck_servers sm) \<and> mcall \<lparr>qa_Num = num\<rparr> k s = Some r \<and> \<not> q_WrongLeader r \<and> c = q_Config r"
proof -
  obtain r where r: "clerk_loop q_WrongLeader (mcall \<lparr>qa_Num = num\<rparr>) (smck_servers sm) t = Some (r, t')" "c = q_Config r"
    using assms by (auto simp: clerk_Query_def)
  show ?thesis
  proof (cases "smck_servers sm = []")
    case True
    have "\<exists>k r. accepted q_WrongLeader (mcall \<lparr>qa_Num = num\<rparr>) (smck_servers sm) t k r" by (rule clerk_loop_accepted [OF r(1)])
    moreover have "clerk_loop q_WrongLeader (mcall \<lparr>qa_Num = num\<rparr>) [] t \<noteq> Some p" for p
      by (rule clerk_loop_no_servers)
    ultimately show ?thesis using r(1) True by simp
  next
    case False
    then obtain k where "accepted q_WrongLeader (mcall \<lparr>qa_Num = num\<rparr>) (smck_servers sm) t k r"
      using r(1) clerk_loop_characterised by metis
    moreover have "smck_servers sm ! (k mod length (smck_servers sm)) \<in> set (smck_servers sm)" using False by simp
    ultimately show ?thesis using r(2) unfolding accepted_def by blast
  qed
qed

definition group_answer ::
  "('r \<Rightarrow> bool) \<Rightarrow> (nat \<Rightarrow> string \<Rightarrow> 'r option) \<Rightarrow> string \<Rightarrow> Config \<Rightarrow> 'r \<Rightarrow> bool" where
  "group_answer answers call key c r \<longleftrightarrow> answers r \<and>
     (\<exists>servers s k. Groups c (Shards c ! nat (key2shard key)) = Some servers \<and> s \<in> set servers \<and> call k s = Some r)"

lemma known_config_update:
  assumes "clerk_Query mcall (sck_sm ck) (-1) t = Some (c, t')"
    and "known_config mcall (ck\<lparr>sck_config := c\<rparr>) c'"
  shows "known_config mcall ck c'"
  using clerk_Query_from_master [OF assms(1)] assms(2) unfolding known_config_def by auto

text \<open>The four ways one turn of the loop can end.\<close>

lemma shard_turn_cases:
  assumes eq: "(case go_index (Shards (sck_config ck)) (key2shard key) of
        Inl e \<Rightarrow> Some (Inl e)
      | Inr gid \<Rightarrow>
          (case (case Groups (sck_config ck) gid of
                   None \<Rightarrow> (None, t)
                 | Some servers \<Rightarrow> try_group answers wrong_group call t servers) of
             (Some reply, t') \<Rightarrow> Some (Inr (ck, reply))
           | (None, t') \<Rightarrow>
               (case clerk_Query mcall (sck_sm ck) (-1) t' of
                  None \<Rightarrow> None
                | Some (config, t'') \<Rightarrow> loop (ck\<lparr>sck_config := config\<rparr>) t''))) = Some p"
  obtains (panic) e where "p = Inl e" "int (length (Shards (sck_config ck))) \<le> key2shard key"
  | (answer) r where "p = Inr (ck, r)" "group_answer answers call key (sck_config ck) r"
  | (again) c t' t'' where "clerk_Query mcall (sck_sm ck) (-1) t' = Some (c, t'')" "loop (ck\<lparr>sck_config := c\<rparr>) t'' = Some p"
proof (cases "go_index (Shards (sck_config ck)) (key2shard key)")
  case (Inl e)
  then have "int (length (Shards (sck_config ck))) \<le> key2shard key"
    using key2shard_range [of key] by (auto simp: go_index_def split: if_splits)
  moreover have "p = Inl e" using eq Inl by simp
  ultimately show ?thesis by (rule panic [rotated])
next
  case (Inr gid)
  let ?pass = "case Groups (sck_config ck) gid of None \<Rightarrow> (None, t) | Some servers \<Rightarrow> try_group answers wrong_group call t servers"
  have gid: "gid = Shards (sck_config ck) ! nat (key2shard key)" using Inr by (simp add: go_index_eq_Inr_iff)
  obtain m t' where m: "?pass = (m, t')" by (cases ?pass)
  show ?thesis
  proof (cases m)
    case None
    with eq Inr m obtain c t'' where "clerk_Query mcall (sck_sm ck) (-1) t' = Some (c, t'')" "loop (ck\<lparr>sck_config := c\<rparr>) t'' = Some p"
      by (auto split: option.splits)
    then show ?thesis by (rule again)
  next
    case (Some r)
    with m obtain servers where servers: "Groups (sck_config ck) gid = Some servers" "try_group answers wrong_group call t servers = (Some r, t')"
      by (auto split: option.splits)
    have "group_answer answers call key (sck_config ck) r"
      using try_group_answer [OF servers(2)] servers(1) gid unfolding group_answer_def by blast
    moreover have "p = Inr (ck, r)" using eq Inr m Some by simp
    ultimately show ?thesis by (rule answer [rotated])
  qed
qed

text \<open>
  What every result of the loop satisfies: a panic needs a configuration with too few shards, and a
  reply comes from the group of the key's shard in the configuration the clerk has then.
\<close>

definition loop_result ::
  "('r \<Rightarrow> bool) \<Rightarrow> (nat \<Rightarrow> string \<Rightarrow> 'r option) \<Rightarrow> (QueryArgs \<Rightarrow> nat \<Rightarrow> nat \<Rightarrow> QueryReply option)
   \<Rightarrow> string \<Rightarrow> skv_Clerk \<Rightarrow> (skv_Clerk \<times> 'r) go \<Rightarrow> bool" where
  "loop_result answers call mcall key ck p =
     (case p of
        Inl e \<Rightarrow> \<exists>c. known_config mcall ck c \<and> length (Shards c) < NShards
      | Inr (ck', r) \<Rightarrow> sck_sm ck' = sck_sm ck \<and> known_config mcall ck (sck_config ck') \<and>
          group_answer answers call key (sck_config ck') r)"

lemma loop_result_again:
  assumes "clerk_Query mcall (sck_sm ck) (-1) t = Some (c, t')" "loop_result answers call mcall key (ck\<lparr>sck_config := c\<rparr>) p"
  shows "loop_result answers call mcall key ck p"
  using assms(2) known_config_update [OF assms(1)] unfolding loop_result_def by (auto split: sum.splits)

lemma shard_loop_result:
  "shard_loop answers wrong_group call mcall key ck t = Some p \<Longrightarrow> loop_result answers call mcall key ck p"
proof (erule shard_loop.raw_induct [rotated, where P = "\<lambda>a w c m key ck t p. loop_result a c m key ck p"])
  fix loop :: "('a \<Rightarrow> bool) \<Rightarrow> ('a \<Rightarrow> bool) \<Rightarrow> (nat \<Rightarrow> string \<Rightarrow> 'a option) \<Rightarrow> (QueryArgs \<Rightarrow> nat \<Rightarrow> nat \<Rightarrow> QueryReply option)
      \<Rightarrow> string \<Rightarrow> skv_Clerk \<Rightarrow> nat \<Rightarrow> (skv_Clerk \<times> 'a) go option" and a w c m key ck t p
  assume IH: "\<And>a w c m key ck t p. loop a w c m key ck t = Some p \<Longrightarrow> loop_result a c m key ck p"
    and eq: "(case go_index (Shards (sck_config ck)) (key2shard key) of
        Inl e \<Rightarrow> Some (Inl e)
      | Inr gid \<Rightarrow>
          (case (case Groups (sck_config ck) gid of None \<Rightarrow> (None, t) | Some servers \<Rightarrow> try_group a w c t servers) of
             (Some reply, t') \<Rightarrow> Some (Inr (ck, reply))
           | (None, t') \<Rightarrow>
               (case clerk_Query m (sck_sm ck) (-1) t' of
                  None \<Rightarrow> None
                | Some (config, t'') \<Rightarrow> loop a w c m key (ck\<lparr>sck_config := config\<rparr>) t''))) = Some p"
  from eq show "loop_result a c m key ck p"
  proof (cases rule: shard_turn_cases)
    case (panic e)
    then have "length (Shards (sck_config ck)) < NShards" using key2shard_range [of key] by linarith
    with panic show ?thesis by (auto simp: loop_result_def known_config_def)
  next
    case (answer r)
    then show ?thesis by (simp add: loop_result_def known_config_def)
  next
    case (again config t' t'')
    from loop_result_again [OF again(1) IH [OF again(2)]] show ?thesis .
  qed
qed

section \<open>Properties\<close>

text \<open>
  C36: A value read from the sharded service comes from the group that owns the key. When every
  configuration the clerk has or is sent names a group for each shard, \<^verbatim>\<open>Get\<close> never panics, and a
  value it returns is the value of a reply \<^verbatim>\<open>OK\<close> or \<^verbatim>\<open>ErrNoKey\<close> to a request for that key by a server of the
  group to which the clerk's configuration at that moment assigns the key's shard; that
  configuration is the one the clerk had or one that a master sent as a leader.
\<close>

theorem shard_Get_asks_owner:
  assumes "\<forall>c. known_config mcall ck c \<longrightarrow> length (Shards c) = NShards"
    and "shard_clerk_Get call mcall ck key t = Some res"
  shows "\<exists>ck' r servers s k. res = Inr (ck', sg_Value r) \<and> sg_Err r \<in> {''OK'', ''ErrNoKey''} \<and>
    known_config mcall ck (sck_config ck') \<and>
    Groups (sck_config ck') (Shards (sck_config ck') ! nat (key2shard key)) = Some servers \<and>
    s \<in> set servers \<and> call \<lparr>sg_Key = key\<rparr> k s = Some r"
proof -
  let ?a = "\<lambda>r. sg_Err r = ''OK'' \<or> sg_Err r = ''ErrNoKey''"
  obtain p where p: "shard_loop ?a (\<lambda>r. sg_Err r = ''ErrWrongGroup'') (call \<lparr>sg_Key = key\<rparr>) mcall key ck t = Some p"
    "res = mapG (\<lambda>(ck, reply). (ck, sg_Value reply)) p"
    using assms(2) unfolding shard_clerk_Get_def by blast
  have l: "loop_result ?a (call \<lparr>sg_Key = key\<rparr>) mcall key ck p" by (rule shard_loop_result [OF p(1)])
  show ?thesis
  proof (cases p)
    case (Inl e)
    with l assms(1) show ?thesis by (auto simp: loop_result_def)
  next
    case (Inr q)
    obtain ck' r where q: "q = (ck', r)" by (cases q)
    with l Inr have "known_config mcall ck (sck_config ck')" "group_answer ?a (call \<lparr>sg_Key = key\<rparr>) key (sck_config ck') r"
      by (simp_all add: loop_result_def)
    with p(2) Inr q show ?thesis unfolding group_answer_def by auto
  qed
qed

definition example_config :: Config where
  "example_config = \<lparr>Num = 1, Shards = replicate NShards 1, Groups = [1 \<mapsto> [''server-1-0'', ''server-1-1'']]\<rparr>"

definition example_master :: "QueryArgs \<Rightarrow> nat \<Rightarrow> nat \<Rightarrow> QueryReply option" where
  "example_master args t s =
     (if s = 1 then Some \<lparr>q_WrongLeader = False, q_Err = ''OK'', q_Config = example_config\<rparr> else None)"

definition example_group :: "skv_GetArgs \<Rightarrow> nat \<Rightarrow> string \<Rightarrow> skv_GetReply option" where
  "example_group args t s =
     (if s = ''server-1-1'' then Some \<lparr>sg_Err = ''OK'', sg_Value = ''v''\<rparr> else Some \<lparr>sg_Err = ''ErrWrongLeader'', sg_Value = ''''\<rparr>)"

lemma example_Get:
  "shard_clerk_Get example_group example_master (skv_MakeClerk [0, 1]) ''k'' 0 =
     Some (Inr ((skv_MakeClerk [0, 1])\<lparr>sck_config := example_config\<rparr>, ''v''))"
proof -
  have query: "clerk_Query example_master (sm_MakeClerk [0, 1]) (-1) 0 = Some (example_config, 2)"
    by (simp add: clerk_Query_def clerk_loop.simps sm_MakeClerk_def example_master_def)
  have shard: "key2shard ''k'' = 7" by (simp add: key2shard_def NShards_def)
  let ?loop = "shard_loop (\<lambda>r. sg_Err r = ''OK'' \<or> sg_Err r = ''ErrNoKey'') (\<lambda>r. sg_Err r = ''ErrWrongGroup'')
    (example_group \<lparr>sg_Key = ''k''\<rparr>) example_master ''k''"
  let ?ck = "skv_MakeClerk [0, 1]" and ?ck' = "(skv_MakeClerk [0, 1])\<lparr>sck_config := example_config\<rparr>"
  have "?loop ?ck 0 = ?loop ?ck' 2"
    by (subst shard_loop.simps) (simp add: query [simplified] shard skv_MakeClerk_def zero_Config_def NShards_def)
  also have "\<dots> = Some (Inr (?ck', \<lparr>sg_Err = ''OK'', sg_Value = ''v''\<rparr>))"
    by (subst shard_loop.simps) (simp add: shard skv_MakeClerk_def example_config_def NShards_def example_group_def)
  finally show ?thesis by (simp add: shard_clerk_Get_def)
qed

theorem shard_Get_asks_owner_witness:
  "\<exists>r servers s k. sg_Value r = ''v'' \<and> Groups example_config 1 = Some servers \<and> s \<in> set servers \<and>
     example_group \<lparr>sg_Key = ''k''\<rparr> k s = Some r"
proof -
  have "\<forall>c. known_config example_master (skv_MakeClerk [0, 1]) c \<longrightarrow> length (Shards c) = NShards"
    by (auto simp: known_config_def skv_MakeClerk_def example_master_def zero_Config_def example_config_def split: if_splits)
  from shard_Get_asks_owner [OF this example_Get] obtain r servers s k
    where "sg_Value r = ''v''" "Groups example_config (Shards example_config ! nat (key2shard ''k'')) = Some servers"
      "s \<in> set servers" "example_group \<lparr>sg_Key = ''k''\<rparr> k s = Some r" by auto
  moreover have "Shards example_config ! nat (key2shard ''k'') = 1" by (simp add: example_config_def key2shard_def NShards_def)
  ultimately show ?thesis by auto
qed

text \<open>When every known configuration is the empty one, no turn of the loop is the last.\<close>

lemma shard_loop_empty_config:
  assumes "\<And>c. known_config mcall ck c \<Longrightarrow> c = zero_Config"
  shows "shard_loop answers wrong_group call mcall key ck t = None"
proof (rule ccontr)
  assume "shard_loop answers wrong_group call mcall key ck t \<noteq> None"
  then obtain p where "loop_result answers call mcall key ck p" using shard_loop_result by blast
  then show False
    by (auto simp: loop_result_def group_answer_def zero_Config_def dest!: assms split: sum.splits)
qed

text \<open>
  C38: The service as it stands never answers. The masters' \<^verbatim>\<open>Query\<close> leaves the reply as the clerk's
  call made it, so every configuration a new clerk gets is the empty one; whatever the groups'
  servers would reply and however the calls are delayed or lost, \<^verbatim>\<open>Get\<close> and \<^verbatim>\<open>PutAppend\<close> of a new clerk
  never return.
\<close>

theorem skeleton_never_answers:
  assumes "\<forall>args t s r. mcall args t s = Some r \<longrightarrow> r = snd (sm_Query (masterAt t s) args zero_QueryReply)"
  shows "shard_clerk_Get gcall mcall (skv_MakeClerk masters) key t = None \<and>
    shard_clerk_PutAppend pcall mcall (skv_MakeClerk masters) key v op t = None"
proof -
  have sent: "q_Config r = zero_Config" if "mcall args t s = Some r" for args t s r
  proof -
    have "r = snd (sm_Query (masterAt t s) args zero_QueryReply)" using assms that by blast
    then show ?thesis by (simp add: sm_Query_def zero_QueryReply_def)
  qed
  have "c = zero_Config" if "known_config mcall (skv_MakeClerk masters) c" for c
    using that sent by (auto simp: known_config_def skv_MakeClerk_def)
  then show ?thesis by (simp add: shard_clerk_Get_def shard_clerk_PutAppend_def shard_loop_empty_config)
qed

theorem skeleton_never_answers_witness:
  "shard_clerk_Get example_group
     (\<lambda>args t s. if s = 1 then Some (snd (sm_Query (sm_StartServer 0 0 2 1 (MakePersister :: (nat gobval, nat) Persister)) args zero_QueryReply)) else None)
     (skv_MakeClerk [0, 1]) ''k'' 0 = None"
  using skeleton_never_answers
    [of "\<lambda>args t s. if s = 1 then Some (snd (sm_Query (sm_StartServer 0 0 2 1 (MakePersister :: (nat gobval, nat) Persister)) args zero_QueryReply)) else None"
        "\<lambda>t s. sm_StartServer 0 0 2 1 (MakePersister :: (nat gobval, nat) Persister)"] by simp

end
