(* ===== verification/Harness_Shard.thy ===== *)
theory Harness_Shard
  imports Harness_Links Shard_Kv Mr_Worker
begin

text \<open>
  The test harness of the sharded key/value service, \<^verbatim>\<open>shardkv/config.go\<close>: three shard masters, three
  groups of servers, and clerks. Here servers are known to the network by name, and whoever wants to
  talk to one makes an end for its name. The theorems say that a name always leads to the
  current instance of the server it stands for, and that the harness works for groups of three
  servers only.
\<close>

section \<open>State\<close>

text \<open>The receiver of a service: an instance of a group's server, or a shard master.\<close>

datatype receiver = InstanceOf nat | Master nat

record ('b, 'd) group =
  g_gid :: int
  g_servers :: "nat option list"
  g_saved :: "('b, 'd) saved_ref option list"
  g_endnames :: "string list option list"
  g_mendnames :: "string list option list"

text \<open>
  The clerk of the shard masters calls its servers by position; \<open>sc_mends\<close> are the ends behind the
  positions. Instances of servers are kept when they are shut down.
\<close>

record ('c, 'd, 'v) shard_config =
  sc_net :: "string Network"
  sc_heap :: "(receiver, 'v) Server list"
  sc_instances :: "('c, 'd) ShardKV list"
  sc_start :: int
  sc_nmasters :: nat
  sc_masterservers :: "('c, 'd) ShardMaster option list"
  sc_mck :: sm_Clerk
  sc_mends :: "string list"
  sc_ngroups :: nat
  sc_n :: nat
  sc_groups :: "('c gobval, 'd) group list"
  sc_clerks :: "nat \<rightharpoonup> string list"
  sc_nextClerk :: nat
  sc_nextClientId :: int
  sc_maxraftstate :: int

definition mastername :: "nat \<Rightarrow> string" where
  "mastername i = ''master'' @ Itoa (int i)"

definition servername :: "int \<Rightarrow> nat \<Rightarrow> string" where
  "servername gid i = ''server-'' @ Itoa gid @ ''-'' @ Itoa (int i)"

section \<open>Ends and clients\<close>

text \<open>\<^verbatim>\<open>MakeEnd\<close>, \<^verbatim>\<open>Connect\<close> and \<^verbatim>\<open>Enable\<close> for an end and the server it leads to.\<close>

definition make_end :: "string \<Rightarrow> string \<Rightarrow> string Network \<Rightarrow> string Network go" where
  "make_end name to net = mapG (\<lambda>net'. Enable name True (Connect name to net')) (MakeEnd name net)"

definition make_all_ends :: "(nat \<Rightarrow> string) \<Rightarrow> (nat \<Rightarrow> string) \<Rightarrow> nat \<Rightarrow> string Network \<Rightarrow> string Network go" where
  "make_all_ends names to m = foldG (\<lambda>j. make_end (names j) (to j)) [0..<m]"

text \<open>
  The array for the names of a client's ends has a place for every server of a group, the loop runs
  over the shard masters.
\<close>

definition client_end ::
  "(nat \<Rightarrow> string) \<Rightarrow> nat \<Rightarrow> string list \<times> string Network \<Rightarrow> (string list \<times> string Network) go" where
  "client_end names j s =
     bindG (go_update (fst s) (int j) (names j)) (\<lambda>es. mapG (\<lambda>net. (es, net)) (make_end (names j) (mastername j) (snd s)))"

definition shard_makeClient ::
  "(nat \<Rightarrow> string) \<Rightarrow> ('c, 'd, 'v) shard_config \<Rightarrow> (nat \<times> skv_Clerk \<times> ('c, 'd, 'v) shard_config) go" where
  "shard_makeClient names cfg =
     mapG (\<lambda>(es, net). (sc_nextClerk cfg, skv_MakeClerk [0..<sc_nmasters cfg],
         cfg\<lparr>sc_net := net, sc_clerks := (sc_clerks cfg)(sc_nextClerk cfg \<mapsto> es), sc_nextClerk := Suc (sc_nextClerk cfg),
             sc_nextClientId := sc_nextClientId cfg + 1\<rparr>))
       (foldG (client_end names) [0..<sc_nmasters cfg] (replicate (sc_n cfg) '''', sc_net cfg))"

definition shard_deleteClient :: "nat \<Rightarrow> ('c, 'd, 'v) shard_config \<Rightarrow> ('c, 'd, 'v) shard_config" where
  "shard_deleteClient ck cfg = cfg\<lparr>sc_clerks := (sc_clerks cfg)(ck := None)\<rparr>"

section \<open>Shutting down and starting\<close>

definition skv_persister :: "('c, 'd) ShardKV \<Rightarrow> ('c gobval, 'd) Persister" where
  "skv_persister kv = Persister (skv_rf kv)"

definition group_persister ::
  "('c, 'd, 'v) shard_config \<Rightarrow> ('c gobval, 'd) saved_ref \<Rightarrow> ('c gobval, 'd) Persister" where
  "group_persister cfg r = (case r of Own p \<Rightarrow> p | OfInstance a \<Rightarrow> skv_persister (sc_instances cfg ! a))"

definition disable_ends :: "('c gobval, 'd) group \<Rightarrow> int \<Rightarrow> string Network \<Rightarrow> string Network go" where
  "disable_ends gg i net =
     bindG (foldG (\<lambda>j net. mapG (\<lambda>e. Enable e False net) (endname (g_endnames gg) i (int j))) [0..<length (g_servers gg)] net) (\<lambda>net1.
     mapG (\<lambda>row. fold (\<lambda>e. Enable e False) (case row of None \<Rightarrow> [] | Some es \<Rightarrow> es) net1) (go_index (g_mendnames gg) i))"

definition shard_ShutdownServer :: "int \<Rightarrow> nat \<Rightarrow> ('c, 'd, 'v) shard_config \<Rightarrow> ('c, 'd, 'v) shard_config go" where
  "shard_ShutdownServer gi i cfg =
     bindG (go_index (sc_groups cfg) gi) (\<lambda>gg.
     bindG (disable_ends gg (int i) (sc_net cfg)) (\<lambda>net.
     bindG (go_index (g_saved gg) (int i)) (\<lambda>r.
     bindG (go_update (g_saved gg) (int i) (map_option (\<lambda>r. Own (Copy (group_persister cfg r))) r)) (\<lambda>sv.
     bindG (go_index (g_servers gg) (int i)) (\<lambda>a.
     mapG (\<lambda>ss. cfg\<lparr>sc_net := DeleteServer (servername (g_gid gg) i) net,
           sc_instances := (case a of None \<Rightarrow> sc_instances cfg | Some a \<Rightarrow> (sc_instances cfg)[a := skv_Kill (sc_instances cfg ! a)]),
           sc_groups := (sc_groups cfg)[nat gi := gg\<lparr>g_saved := sv, g_servers := ss\<rparr>]\<rparr>)
       (go_update (g_servers gg) (int i) None))))))"

definition ShutdownGroup :: "int \<Rightarrow> ('c, 'd, 'v) shard_config \<Rightarrow> ('c, 'd, 'v) shard_config go" where
  "ShutdownGroup gi cfg = foldG (shard_ShutdownServer gi) [0..<sc_n cfg] cfg"

text \<open>\<open>kvm\<close> and \<open>rfm\<close> are the methods of the server and of its peer.\<close>

definition server_object ::
  "string \<Rightarrow> (receiver, 'v) Method list \<Rightarrow> (receiver, 'v) Method list \<Rightarrow> receiver \<Rightarrow> (receiver, 'v) Server" where
  "server_object kind kvm rfm r = AddService (AddService MakeServer (MakeService kind kvm r)) (MakeService ''Raft'' rfm r)"

definition shard_StartServer ::
  "(receiver, 'v) Method list \<Rightarrow> (receiver, 'v) Method list \<Rightarrow> int \<Rightarrow> int \<Rightarrow> (nat \<Rightarrow> string) \<Rightarrow> (nat \<Rightarrow> string) \<Rightarrow>
   int \<Rightarrow> nat \<Rightarrow> ('c, 'd, 'v) shard_config \<Rightarrow> ('c, 'd, 'v) shard_config go" where
  "shard_StartServer kvm rfm now rnd names mnames gi i cfg =
     bindG (go_index (sc_groups cfg) gi) (\<lambda>gg.
     bindG (go_update (g_endnames gg) (int i) (Some (map names [0..<sc_n cfg]))) (\<lambda>es.
     bindG (make_all_ends names (servername (g_gid gg)) (sc_n cfg) (sc_net cfg)) (\<lambda>net1.
     bindG (go_update (g_mendnames gg) (int i) (Some (map mnames [0..<sc_nmasters cfg]))) (\<lambda>ms.
     bindG (make_all_ends mnames mastername (sc_nmasters cfg) net1) (\<lambda>net2.
     bindG (go_index (g_saved gg) (int i)) (\<lambda>r.
     (let p = (case r of None \<Rightarrow> MakePersister | Some r \<Rightarrow> Copy (group_persister cfg r));
          a = length (sc_instances cfg);
          kv = skv_StartServer now rnd (sc_n cfg) (int i) p (sc_maxraftstate cfg) (g_gid gg) [0..<sc_nmasters cfg]
      in bindG (go_update (g_saved gg) (int i) (Some (OfInstance a))) (\<lambda>sv.
         mapG (\<lambda>ss. cfg\<lparr>sc_net := AddServer (servername (g_gid gg) i) (length (sc_heap cfg)) net2,
               sc_heap := sc_heap cfg @ [server_object ''ShardKV'' kvm rfm (InstanceOf a)],
               sc_instances := sc_instances cfg @ [kv],
               sc_groups := (sc_groups cfg)[nat gi := gg\<lparr>g_servers := ss, g_saved := sv, g_endnames := es, g_mendnames := ms\<rparr>]\<rparr>)
           (go_update (g_servers gg) (int i) (Some a))))))))))"

definition StartGroup ::
  "(receiver, 'v) Method list \<Rightarrow> (receiver, 'v) Method list \<Rightarrow> int \<Rightarrow> (nat \<Rightarrow> int) \<Rightarrow> (nat \<Rightarrow> nat \<Rightarrow> string) \<Rightarrow> (nat \<Rightarrow> nat \<Rightarrow> string) \<Rightarrow>
   int \<Rightarrow> ('c, 'd, 'v) shard_config \<Rightarrow> ('c, 'd, 'v) shard_config go" where
  "StartGroup kvm rfm now rnd names mnames gi cfg =
     foldG (\<lambda>i. shard_StartServer kvm rfm now (rnd i) (names i) (mnames i) gi i) [0..<sc_n cfg] cfg"

definition StartMasterServer ::
  "(receiver, 'v) Method list \<Rightarrow> (receiver, 'v) Method list \<Rightarrow> int \<Rightarrow> int \<Rightarrow> (nat \<Rightarrow> string) \<Rightarrow>
   nat \<Rightarrow> ('c, 'd, 'v) shard_config \<Rightarrow> ('c, 'd, 'v) shard_config go" where
  "StartMasterServer smm rfm now rnd names i cfg =
     bindG (make_all_ends names mastername (sc_nmasters cfg) (sc_net cfg)) (\<lambda>net.
     mapG (\<lambda>ms. cfg\<lparr>sc_net := AddServer (mastername i) (length (sc_heap cfg)) net,
           sc_heap := sc_heap cfg @ [server_object ''ShardMaster'' smm rfm (Master i)], sc_masterservers := ms\<rparr>)
       (go_update (sc_masterservers cfg) (int i) (Some (sm_StartServer now rnd (sc_nmasters cfg) (int i) MakePersister))))"

definition shardclerk ::
  "(nat \<Rightarrow> string) \<Rightarrow> ('c, 'd, 'v) shard_config \<Rightarrow> (sm_Clerk \<times> string list \<times> ('c, 'd, 'v) shard_config) go" where
  "shardclerk names cfg =
     mapG (\<lambda>net. (sm_MakeClerk [0..<sc_nmasters cfg], map names [0..<sc_nmasters cfg], cfg\<lparr>sc_net := net\<rparr>))
       (make_all_ends names mastername (sc_nmasters cfg) (sc_net cfg))"

section \<open>Joining and leaving\<close>

text \<open>
  \<open>call\<close> performs the clerk's requests; \<open>None\<close> says that the call of the clerk does not return.
\<close>

definition joinm ::
  "(JoinArgs \<Rightarrow> nat \<Rightarrow> nat \<Rightarrow> JoinReply option) \<Rightarrow> int list \<Rightarrow> nat \<Rightarrow> ('c, 'd, 'v) shard_config \<Rightarrow> nat option go" where
  "joinm call gis t cfg =
     mapG (\<lambda>m. clerk_Join call (sc_mck cfg) m t)
       (foldG (\<lambda>g m. mapG (\<lambda>gg. m(g_gid gg \<mapsto> map (servername (g_gid gg)) [0..<sc_n cfg])) (go_index (sc_groups cfg) g)) gis Map.empty)"

definition join :: "(JoinArgs \<Rightarrow> nat \<Rightarrow> nat \<Rightarrow> JoinReply option) \<Rightarrow> int \<Rightarrow> nat \<Rightarrow> ('c, 'd, 'v) shard_config \<Rightarrow> nat option go" where
  "join call gi = joinm call [gi]"

definition leavem ::
  "(LeaveArgs \<Rightarrow> nat \<Rightarrow> nat \<Rightarrow> LeaveReply option) \<Rightarrow> int list \<Rightarrow> nat \<Rightarrow> ('c, 'd, 'v) shard_config \<Rightarrow> nat option go" where
  "leavem call gis t cfg =
     mapG (\<lambda>gids. clerk_Leave call (sc_mck cfg) gids t)
       (foldG (\<lambda>g gids. mapG (\<lambda>gg. gids @ [g_gid gg]) (go_index (sc_groups cfg) g)) gis [])"

definition leave :: "(LeaveArgs \<Rightarrow> nat \<Rightarrow> nat \<Rightarrow> LeaveReply option) \<Rightarrow> int \<Rightarrow> nat \<Rightarrow> ('c, 'd, 'v) shard_config \<Rightarrow> nat option go" where
  "leave call gi = leavem call [gi]"

section \<open>The checks and the configuration\<close>

text \<open>\<open>len\<close> and \<open>slen\<close> are the lengths of the encoded state and snapshot.\<close>

definition checklog :: "('c gobval list \<Rightarrow> int) \<Rightarrow> ('d list \<Rightarrow> int) \<Rightarrow> ('c, 'd, 'v) shard_config \<Rightarrow> nat \<times> nat \<Rightarrow> unit \<Rightarrow> unit go" where
  "checklog len slen cfg gi_i u =
     bindG (go_index (sc_groups cfg) (int (fst gi_i))) (\<lambda>gg.
     bindG (go_index (g_saved gg) (int (snd gi_i))) (\<lambda>r.
       case r of
         None \<Rightarrow> Inl NilDereference
       | Some r \<Rightarrow>
           (let raft = RaftStateSize len (group_persister cfg r); snap = slen (ReadSnapshot (group_persister cfg r))
            in if sc_maxraftstate cfg \<ge> 0 \<and> raft > 2 * sc_maxraftstate cfg then Inl TestFatal
               else if sc_maxraftstate cfg < 0 \<and> snap > 0 then Inl TestFatal else Inr ())))"

definition checklogs :: "('c gobval list \<Rightarrow> int) \<Rightarrow> ('d list \<Rightarrow> int) \<Rightarrow> ('c, 'd, 'v) shard_config \<Rightarrow> unit go" where
  "checklogs len slen cfg = foldG (checklog len slen cfg) (List.product [0..<sc_ngroups cfg] [0..<sc_n cfg]) ()"

definition shard_checkTimeout :: "bool \<Rightarrow> int \<Rightarrow> ('c, 'd, 'v) shard_config \<Rightarrow> unit go" where
  "shard_checkTimeout failed now cfg = (if \<not> failed \<and> now - sc_start cfg > 120 * Second then Inl TestFatal else Inr ())"

definition shard_cleanup :: "bool \<Rightarrow> int \<Rightarrow> ('c, 'd, 'v) shard_config \<Rightarrow> ('c, 'd, 'v) shard_config go" where
  "shard_cleanup failed now cfg =
     bindG (foldG (\<lambda>gi. ShutdownGroup (int gi)) [0..<sc_ngroups cfg] cfg) (\<lambda>cfg1.
     bindG (Cleanup (sc_net cfg1)) (\<lambda>net. mapG (\<lambda>_. cfg1\<lparr>sc_net := net\<rparr>) (shard_checkTimeout failed now cfg1)))"

definition new_group :: "nat \<Rightarrow> nat \<Rightarrow> nat \<Rightarrow> ('b, 'd) group" where
  "new_group n nmasters gi =
     \<lparr>g_gid = 100 + int gi, g_servers = replicate n None, g_saved = replicate n None, g_endnames = replicate n None,
      g_mendnames = replicate nmasters None\<rparr>"

text \<open>The random numbers and names of each server: \<open>names gi i j\<close> is the name of the end from server \<open>i\<close> of group \<open>gi\<close> to server \<open>j\<close>.\<close>

record shard_random =
  sr_rnd :: "nat \<Rightarrow> nat \<Rightarrow> int"
  sr_master :: "nat \<Rightarrow> nat \<Rightarrow> string"
  sr_clerk :: "nat \<Rightarrow> string"
  sr_names :: "nat \<Rightarrow> nat \<Rightarrow> nat \<Rightarrow> string"
  sr_mnames :: "nat \<Rightarrow> nat \<Rightarrow> nat \<Rightarrow> string"

definition start_new_group ::
  "(receiver, 'v) Method list \<Rightarrow> (receiver, 'v) Method list \<Rightarrow> int \<Rightarrow> shard_random \<Rightarrow> nat \<Rightarrow>
   ('c, 'd, 'v) shard_config \<Rightarrow> ('c, 'd, 'v) shard_config go" where
  "start_new_group kvm rfm now sr gi cfg =
     StartGroup kvm rfm now (sr_rnd sr gi) (sr_names sr gi) (sr_mnames sr gi) (int gi)
       (cfg\<lparr>sc_groups := sc_groups cfg @ [new_group (sc_n cfg) (sc_nmasters cfg) gi]\<rparr>)"

definition shard_make_config ::
  "(receiver, 'v) Method list \<Rightarrow> (receiver, 'v) Method list \<Rightarrow> (receiver, 'v) Method list \<Rightarrow> int \<Rightarrow> shard_random \<Rightarrow>
   nat \<Rightarrow> bool \<Rightarrow> int \<Rightarrow> ('c, 'd, 'v) shard_config go" where
  "shard_make_config kvm smm rfm now sr n unreliable maxstate =
     (let cfg = \<lparr>sc_net = MakeNetwork, sc_heap = [], sc_instances = [], sc_start = now, sc_nmasters = 3,
                 sc_masterservers = replicate 3 None, sc_mck = sm_MakeClerk [], sc_mends = [], sc_ngroups = 0, sc_n = 0, sc_groups = [],
                 sc_clerks = Map.empty, sc_nextClerk = 0, sc_nextClientId = 0, sc_maxraftstate = maxstate\<rparr>
      in bindG (foldG (\<lambda>i. StartMasterServer smm rfm now (sr_rnd sr 3 i) (sr_master sr i) i) [0..<3] cfg) (\<lambda>cfg1.
         bindG (shardclerk (sr_clerk sr) cfg1) (\<lambda>(ck, mends, cfg2).
         mapG (\<lambda>cfg3. cfg3\<lparr>sc_clerks := Map.empty, sc_nextClientId := int n + 1000, sc_net := Reliable (\<not> unreliable) (sc_net cfg3)\<rparr>)
           (foldG (start_new_group kvm rfm now sr) [0..<3] (cfg2\<lparr>sc_mck := ck, sc_mends := mends, sc_ngroups := 3, sc_n := n\<rparr>)))))"


section \<open>Names\<close>

lemma servername_inj:
  assumes "0 \<le> gid" "0 \<le> gid'" "servername gid i = servername gid' i'"
  shows "gid = gid' \<and> i = i'"
proof -
  have "Itoa gid @ CHR ''-'' # Itoa (int i) = Itoa gid' @ CHR ''-'' # Itoa (int i')"
    using assms(3) by (simp add: servername_def)
  moreover have "CHR ''-'' \<notin> set (Itoa gid)" "CHR ''-'' \<notin> set (Itoa gid')"
    using assms by (simp_all add: Itoa_def itoa_nat_no_dash)
  ultimately have "Itoa gid = Itoa gid'" "Itoa (int i) = Itoa (int i')" using split_at_dash by blast+
  with Itoa_inj [OF assms(1,2)] Itoa_inj [of "int i" "int i'"] show ?thesis by simp
qed

abbreviation group_name :: "nat \<Rightarrow> nat \<Rightarrow> string" where
  "group_name gi \<equiv> servername (100 + int gi)"

lemma group_name_eq [simp]: "group_name gi i = group_name gi' i' \<longleftrightarrow> gi = gi' \<and> i = i'"
  using servername_inj [of "100 + int gi" "100 + int gi'" i i'] by auto

lemma mastername_servername [simp]: "mastername i \<noteq> servername gid j" "servername gid j \<noteq> mastername i"
  by (simp_all add: mastername_def servername_def)

section \<open>The invariant\<close>

lemma foldG_servers:
  assumes "foldG f xs net = Inr net'" and "\<And>x net net'. f x net = Inr net' \<Longrightarrow> Network.servers net' = Network.servers net"
  shows "Network.servers net' = Network.servers net"
  using foldG_invariant [where P = "\<lambda>_ n. Network.servers n = Network.servers net", OF assms(1)] assms(2) by auto

lemma make_end_servers: "make_end name to net = Inr net' \<Longrightarrow> Network.servers net' = Network.servers net"
  by (auto simp: make_end_def mapG_eq_Inr_iff MakeEnd_def Connect_def Enable_def split: if_splits)

lemma make_all_ends_servers: "make_all_ends names to m net = Inr net' \<Longrightarrow> Network.servers net' = Network.servers net"
  unfolding make_all_ends_def by (erule foldG_servers) (rule make_end_servers)

lemma disable_ends_servers:
  assumes "disable_ends gg i net = Inr net'"
  shows "Network.servers net' = Network.servers net"
proof -
  from assms obtain net1 row where
    1: "foldG (\<lambda>j net. mapG (\<lambda>e. Enable e False net) (endname (g_endnames gg) i (int j))) [0..<length (g_servers gg)] net = Inr net1"
    and 2: "net' = fold (\<lambda>e. Enable e False) row net1"
    by (auto simp: disable_ends_def bindG_eq_Inr_iff mapG_eq_Inr_iff)
  have "Network.servers (fold (\<lambda>e. Enable e False) es n) = Network.servers n" for es and n :: "string Network"
    by (induction es arbitrary: n) (simp_all add: Enable_def)
  moreover have "Network.servers net1 = Network.servers net"
    by (rule foldG_servers [OF 1]) (auto simp: mapG_eq_Inr_iff Enable_def)
  ultimately show ?thesis by (simp add: 2)
qed

text \<open>What the network knows under the name of a server is the object of its current instance.\<close>

definition named_ok :: "('c, 'd, 'v) shard_config \<Rightarrow> string \<Rightarrow> nat option \<Rightarrow> bool" where
  "named_ok cfg name s \<longleftrightarrow>
     (case s of
        None \<Rightarrow> Network.servers (sc_net cfg) name = None
      | Some a \<Rightarrow> \<exists>h < length (sc_heap cfg). Network.servers (sc_net cfg) name = Some h \<and> serves (sc_heap cfg ! h) (InstanceOf a))"

definition groups_ok :: "('c, 'd, 'v) shard_config \<Rightarrow> bool" where
  "groups_ok cfg \<longleftrightarrow>
     (\<forall>gi < length (sc_groups cfg). let gg = sc_groups cfg ! gi in
        g_gid gg = 100 + int gi \<and> length (g_servers gg) = sc_n cfg \<and> length (g_mendnames gg) = 3 \<and>
        length (g_saved gg) = sc_n cfg \<and> length (g_endnames gg) = sc_n cfg \<and>
        (\<forall>i < sc_n cfg. named_ok cfg (group_name gi i) (g_servers gg ! i))) \<and>
     (\<forall>gi \<ge> length (sc_groups cfg). \<forall>i. named_ok cfg (group_name gi i) None)"

lemma groups_okD:
  assumes "groups_ok cfg" "gi < length (sc_groups cfg)"
  shows "g_gid (sc_groups cfg ! gi) = 100 + int gi" "length (g_servers (sc_groups cfg ! gi)) = sc_n cfg"
    "length (g_mendnames (sc_groups cfg ! gi)) = 3" "length (g_saved (sc_groups cfg ! gi)) = sc_n cfg"
    "length (g_endnames (sc_groups cfg ! gi)) = sc_n cfg"
    "i < sc_n cfg \<Longrightarrow> named_ok cfg (group_name gi i) (g_servers (sc_groups cfg ! gi) ! i)"
  using assms by (simp_all add: groups_ok_def Let_def)

text \<open>A change of the server under one name, and of the entry that belongs to it.\<close>

lemma groups_ok_update:
  assumes ok: "groups_ok cfg" and gi: "gi < length (sc_groups cfg)" and i: "i < sc_n cfg"
    and g: "g_gid gg = 100 + int gi" "g_servers gg = (g_servers (sc_groups cfg ! gi))[i := s]" "length (g_mendnames gg) = 3"
      "length (g_saved gg) = sc_n cfg" "length (g_endnames gg) = sc_n cfg"
    and c: "sc_groups cfg' = (sc_groups cfg)[gi := gg]" "sc_n cfg' = sc_n cfg"
    and new: "named_ok cfg' (group_name gi i) s"
    and others: "\<And>name t. name \<noteq> group_name gi i \<Longrightarrow> named_ok cfg name t \<Longrightarrow> named_ok cfg' name t"
  shows "groups_ok cfg'"
  unfolding groups_ok_def
proof (intro conjI allI impI)
  fix gj assume gj: "gj < length (sc_groups cfg')"
  note D = groups_okD [OF ok, of gj]
  have "named_ok cfg' (group_name gj k) (g_servers (sc_groups cfg' ! gj) ! k)" if "k < sc_n cfg" for k
    using D(6) [of k] new others [of "group_name gj k"] that gj g(2) groups_okD(2) [OF ok gi] i
    by (cases "gj = gi"; cases "k = i") (auto simp: c)
  with D(1-5) gj g groups_okD(2) [OF ok gi] show "let gg = sc_groups cfg' ! gj in g_gid gg = 100 + int gj \<and>
      length (g_servers gg) = sc_n cfg' \<and> length (g_mendnames gg) = 3 \<and> length (g_saved gg) = sc_n cfg' \<and>
      length (g_endnames gg) = sc_n cfg' \<and>
      (\<forall>k < sc_n cfg'. named_ok cfg' (group_name gj k) (g_servers gg ! k))"
    by (cases "gj = gi") (auto simp: c Let_def)
next
  fix gj k assume "length (sc_groups cfg') \<le> gj"
  then have "length (sc_groups cfg) \<le> gj" by (simp add: c)
  with ok have "named_ok cfg (group_name gj k) None" by (simp add: groups_ok_def)
  moreover have "group_name gj k \<noteq> group_name gi i" using \<open>length (sc_groups cfg) \<le> gj\<close> gi by auto
  ultimately show "named_ok cfg' (group_name gj k) None" using others by blast
qed

lemma groups_ok_cong:
  assumes "groups_ok cfg" "sc_groups cfg' = sc_groups cfg" "sc_n cfg' = sc_n cfg"
    and "Network.servers (sc_net cfg') = Network.servers (sc_net cfg)" "length (sc_heap cfg') = length (sc_heap cfg)"
    and "\<And>h a. h < length (sc_heap cfg) \<Longrightarrow> serves (sc_heap cfg ! h) (InstanceOf a) \<Longrightarrow> serves (sc_heap cfg' ! h) (InstanceOf a)"
  shows "groups_ok cfg'"
proof -
  have "named_ok cfg' name s" if "named_ok cfg name s" for name s
    using that assms(4-6) by (cases s) (auto simp: named_ok_def)
  with assms(1-3) show ?thesis by (simp add: groups_ok_def Let_def)
qed

lemma shard_ShutdownServer_ok:
  assumes "shard_ShutdownServer gi i cfg = Inr cfg'" "groups_ok cfg"
  shows "groups_ok cfg'" "sc_n cfg' = sc_n cfg" "length (sc_groups cfg') = length (sc_groups cfg)"
proof -
  let ?gg = "sc_groups cfg ! nat gi"
  from assms(1) obtain net sv insts where gi: "0 \<le> gi" "gi < int (length (sc_groups cfg))" and i: "i < length (g_servers ?gg)"
    and net: "disable_ends ?gg (int i) (sc_net cfg) = Inr net"
    and c: "cfg' = cfg\<lparr>sc_net := DeleteServer (servername (g_gid ?gg) i) net, sc_instances := insts,
      sc_groups := (sc_groups cfg)[nat gi := ?gg\<lparr>g_saved := sv, g_servers := (g_servers ?gg)[i := None]\<rparr>]\<rparr>"
    and sl: "length sv = length (g_saved ?gg)"
    by (auto simp: shard_ShutdownServer_def bindG_eq_Inr_iff mapG_eq_Inr_iff go_index_def go_update_eq_Inr_iff split: if_splits)
  have g: "nat gi < length (sc_groups cfg)" using gi by auto
  note D = groups_okD [OF assms(2) g]
  have sv: "Network.servers (sc_net cfg') name = (if name = group_name (nat gi) i then None else Network.servers (sc_net cfg) name)" for name
    using disable_ends_servers [OF net] D(1) by (simp add: c DeleteServer_def)
  show "groups_ok cfg'"
  proof (rule groups_ok_update [OF assms(2) g])
    show "named_ok cfg' (group_name (nat gi) i) None" by (simp add: named_ok_def sv)
    fix name t assume "name \<noteq> group_name (nat gi) i" "named_ok cfg name t"
    moreover have "sc_heap cfg' = sc_heap cfg" by (simp add: c)
    ultimately show "named_ok cfg' name t" by (simp add: named_ok_def sv split: option.splits)
  qed (use D(1-5) i sl in \<open>simp_all add: c\<close>)
qed (use assms(1) in \<open>auto simp: shard_ShutdownServer_def bindG_eq_Inr_iff mapG_eq_Inr_iff\<close>)

lemma serves_server_object: "serves (server_object kind kvm rfm r) r"
  by (auto simp: serves_def server_object_def AddService_def MakeServer_def MakeService_def Map.ran_def split: if_splits)

lemma shard_StartServer_ok:
  assumes "shard_StartServer kvm rfm now rnd names mnames gi i cfg = Inr cfg'" "groups_ok cfg"
  shows "groups_ok cfg'" "i < 3" "sc_n cfg' = sc_n cfg" "length (sc_groups cfg') = length (sc_groups cfg)"
    "sc_nmasters cfg' = sc_nmasters cfg"
proof -
  let ?gg = "sc_groups cfg ! nat gi" and ?a = "length (sc_instances cfg)"
  from assms(1) obtain net1 net2 sv es ms kv where gi: "0 \<le> gi" "gi < int (length (sc_groups cfg))" and i: "i < length (g_servers ?gg)"
    and net: "make_all_ends names (servername (g_gid ?gg)) (sc_n cfg) (sc_net cfg) = Inr net1"
      "make_all_ends mnames mastername (sc_nmasters cfg) net1 = Inr net2"
    and ms: "i < length (g_mendnames ?gg)" "ms = (g_mendnames ?gg)[i := Some (map mnames [0..<sc_nmasters cfg])]"
    and c: "cfg' = cfg\<lparr>sc_net := AddServer (servername (g_gid ?gg) i) (length (sc_heap cfg)) net2,
      sc_heap := sc_heap cfg @ [server_object ''ShardKV'' kvm rfm (InstanceOf ?a)], sc_instances := sc_instances cfg @ [kv],
      sc_groups := (sc_groups cfg)[nat gi := ?gg\<lparr>g_servers := (g_servers ?gg)[i := Some ?a], g_saved := sv, g_endnames := es, g_mendnames := ms\<rparr>]\<rparr>"
    and sl: "length sv = length (g_saved ?gg)" "length es = length (g_endnames ?gg)"
    by (auto simp: shard_StartServer_def Let_def bindG_eq_Inr_iff mapG_eq_Inr_iff go_index_def go_update_eq_Inr_iff split: if_splits)
  have g: "nat gi < length (sc_groups cfg)" using gi by auto
  note D = groups_okD [OF assms(2) g]
  show "i < 3" using ms(1) D(3) by simp
  have sv: "Network.servers (sc_net cfg') name =
      (if name = group_name (nat gi) i then Some (length (sc_heap cfg)) else Network.servers (sc_net cfg) name)" for name
    using make_all_ends_servers [OF net(1)] make_all_ends_servers [OF net(2)] D(1) by (simp add: c AddServer_def)
  have heap: "length (sc_heap cfg') = Suc (length (sc_heap cfg))" "sc_heap cfg' ! length (sc_heap cfg) = server_object ''ShardKV'' kvm rfm (InstanceOf ?a)"
    "\<And>h. h < length (sc_heap cfg) \<Longrightarrow> sc_heap cfg' ! h = sc_heap cfg ! h" by (simp_all add: c nth_append)
  show "groups_ok cfg'"
  proof (rule groups_ok_update [OF assms(2) g])
    show "named_ok cfg' (group_name (nat gi) i) (Some ?a)" by (simp add: named_ok_def sv heap serves_server_object)
    fix name t assume "name \<noteq> group_name (nat gi) i" "named_ok cfg name t"
    then show "named_ok cfg' name t" by (auto simp: named_ok_def sv heap less_SucI split: option.splits)
  qed (use D(1-5) i ms sl in \<open>simp_all add: c\<close>)
  show "sc_n cfg' = sc_n cfg" "length (sc_groups cfg') = length (sc_groups cfg)" "sc_nmasters cfg' = sc_nmasters cfg" by (simp_all add: c)
qed

section \<open>A harness at work\<close>

inductive shard_step ::
  "(receiver, 'v) Method list \<Rightarrow> (receiver, 'v) Method list \<Rightarrow> ('c, 'd, 'v) shard_config \<Rightarrow> ('c, 'd, 'v) shard_config \<Rightarrow> bool" for kvm rfm where
  ss_shutdown: "shard_ShutdownServer gi i cfg = Inr cfg' \<Longrightarrow> shard_step kvm rfm cfg cfg'"
| ss_start: "shard_StartServer kvm rfm now rnd names mnames gi i cfg = Inr cfg' \<Longrightarrow> shard_step kvm rfm cfg cfg'"
| ss_client: "shard_makeClient names cfg = Inr (ck, clerk, cfg') \<Longrightarrow> shard_step kvm rfm cfg cfg'"
| ss_delete: "shard_step kvm rfm cfg (shard_deleteClient ck cfg)"
| ss_end: "make_end name to (sc_net cfg) = Inr net \<Longrightarrow> shard_step kvm rfm cfg (cfg\<lparr>sc_net := net\<rparr>)"
| ss_run: "length kvs = length (sc_instances cfg) \<Longrightarrow> shard_step kvm rfm cfg (cfg\<lparr>sc_instances := kvs, sc_masterservers := sms\<rparr>)"
| ss_call: "shard_step kvm rfm cfg (cfg\<lparr>sc_net := accept_req (req :: (string, string) reqMsg) (sc_net cfg)\<rparr>)"
| ss_handle: "h < length (sc_heap cfg) \<Longrightarrow>
    shard_step kvm rfm cfg (cfg\<lparr>sc_heap := (sc_heap cfg)[h := (sc_heap cfg ! h)\<lparr>rs_count := rs_count (sc_heap cfg ! h) + 1\<rparr>]\<rparr>)"
| ss_reply: "shard_step kvm rfm cfg (cfg\<lparr>sc_net := (sc_net cfg)\<lparr>net_bytes := b\<rparr>\<rparr>)"
| ss_reliable: "shard_step kvm rfm cfg (cfg\<lparr>sc_net := Reliable yes (sc_net cfg)\<rparr>)"

definition shard_inv :: "nat \<Rightarrow> ('c, 'd, 'v) shard_config \<Rightarrow> bool" where
  "shard_inv n cfg \<longleftrightarrow> groups_ok cfg \<and> sc_n cfg = n \<and> length (sc_groups cfg) = 3 \<and> sc_nmasters cfg = 3"

lemma serves_counted: "serves (rs\<lparr>rs_count := c\<rparr>) a = serves rs a"
  by (simp add: serves_def)

lemma client_end_servers: "client_end names j s = Inr s' \<Longrightarrow> Network.servers (snd s') = Network.servers (snd s)"
  by (auto simp: client_end_def bindG_eq_Inr_iff mapG_eq_Inr_iff dest: make_end_servers)

lemma shard_makeClient_frame:
  assumes "shard_makeClient names cfg = Inr (ck, clerk, cfg')"
  shows "Network.servers (sc_net cfg') = Network.servers (sc_net cfg)" "sc_groups cfg' = sc_groups cfg" "sc_n cfg' = sc_n cfg"
    "sc_heap cfg' = sc_heap cfg" "sc_nmasters cfg' = sc_nmasters cfg"
proof -
  from assms obtain es net where f: "foldG (client_end names) [0..<sc_nmasters cfg] (replicate (sc_n cfg) '''', sc_net cfg) = Inr (es, net)"
    and c: "cfg' = cfg\<lparr>sc_net := net, sc_clerks := (sc_clerks cfg)(sc_nextClerk cfg \<mapsto> es), sc_nextClerk := Suc (sc_nextClerk cfg),
             sc_nextClientId := sc_nextClientId cfg + 1\<rparr>"
    by (auto simp: shard_makeClient_def mapG_eq_Inr_iff)
  have "Network.servers (snd (es, net)) = Network.servers (sc_net cfg)"
    by (rule foldG_invariant [where P = "\<lambda>_ s. Network.servers (snd s) = Network.servers (sc_net cfg)", OF f])
      (simp_all add: client_end_servers)
  then show "Network.servers (sc_net cfg') = Network.servers (sc_net cfg)" "sc_groups cfg' = sc_groups cfg" "sc_n cfg' = sc_n cfg"
    "sc_heap cfg' = sc_heap cfg" "sc_nmasters cfg' = sc_nmasters cfg" by (simp_all add: c)
qed

lemma shard_step_inv:
  assumes "shard_inv n cfg" "shard_step kvm rfm cfg cfg'"
  shows "shard_inv n cfg'"
  using assms(2)
proof cases
  case (ss_shutdown gi i)
  have "groups_ok cfg" "sc_nmasters cfg' = sc_nmasters cfg"
    using assms(1) ss_shutdown by (auto simp: shard_inv_def shard_ShutdownServer_def bindG_eq_Inr_iff mapG_eq_Inr_iff)
  with shard_ShutdownServer_ok [OF ss_shutdown] assms(1) show ?thesis by (simp add: shard_inv_def)
next
  case (ss_start now rnd names mnames gi i)
  have "groups_ok cfg" using assms(1) by (simp add: shard_inv_def)
  from shard_StartServer_ok [OF ss_start this] assms(1) show ?thesis by (simp add: shard_inv_def)
next
  case (ss_client names ck clerk)
  note f = shard_makeClient_frame [OF ss_client]
  have "groups_ok cfg'" by (rule groups_ok_cong [of cfg]) (use assms(1) f in \<open>simp_all add: shard_inv_def\<close>)
  with assms(1) f show ?thesis by (simp add: shard_inv_def)
qed (use assms(1) in \<open>auto simp: shard_inv_def shard_deleteClient_def accept_req_def Reliable_def nth_list_update serves_counted
      make_end_servers elim!: groups_ok_cong\<close>)

section \<open>Making the configuration\<close>

lemma new_group_ok:
  assumes "groups_ok cfg" "length (sc_groups cfg) = gi" "sc_nmasters cfg = 3"
  shows "groups_ok (cfg\<lparr>sc_groups := sc_groups cfg @ [new_group (sc_n cfg) (sc_nmasters cfg) gi]\<rparr>)" (is "groups_ok ?c0")
proof -
  have name: "named_ok (cfg\<lparr>sc_groups := gs\<rparr>) x s = named_ok cfg x s" for gs x s by (cases s) (simp_all add: named_ok_def)
  have at: "sc_groups ?c0 ! gi = new_group (sc_n cfg) (sc_nmasters cfg) gi" using assms(2) by auto
  show ?thesis unfolding groups_ok_def
  proof (intro conjI allI impI)
    fix k assume k: "k < length (sc_groups ?c0)"
    show "let gg = sc_groups ?c0 ! k in g_gid gg = 100 + int k \<and> length (g_servers gg) = sc_n ?c0 \<and> length (g_mendnames gg) = 3 \<and>
        length (g_saved gg) = sc_n ?c0 \<and> length (g_endnames gg) = sc_n ?c0 \<and>
        (\<forall>i < sc_n ?c0. named_ok ?c0 (group_name k i) (g_servers gg ! i))"
    proof (cases "k = gi")
      case True
      with assms show ?thesis unfolding True Let_def at name by (simp add: new_group_def groups_ok_def)
    next
      case False
      with k assms(2) groups_okD [OF assms(1), of k] show ?thesis by (simp add: name Let_def nth_append)
    qed
  qed (use assms(1,2) in \<open>simp add: name groups_ok_def\<close>)
qed

lemma start_new_group_ok:
  assumes "start_new_group kvm rfm now sr gi cfg = Inr cfg'" "groups_ok cfg" "length (sc_groups cfg) = gi" "sc_nmasters cfg = 3"
  shows "groups_ok cfg' \<and> length (sc_groups cfg') = Suc gi \<and> sc_nmasters cfg' = 3 \<and> sc_n cfg' = sc_n cfg \<and> sc_n cfg \<le> 3"
proof -
  note ok0 = new_group_ok [OF assms(2-4)]
  let ?P = "\<lambda>ys c. groups_ok c \<and> length (sc_groups c) = Suc gi \<and> sc_nmasters c = 3 \<and> sc_n c = sc_n cfg \<and> (\<forall>y \<in> set ys. y < 3)"
  have "?P [0..<sc_n cfg] cfg'"
  proof (rule foldG_invariant [where P = ?P, OF assms(1) [unfolded start_new_group_def StartGroup_def, simplified]])
    fix ys :: "nat list" and i c c' assume "?P ys c" "shard_StartServer kvm rfm now (sr_rnd sr gi i) (sr_names sr gi i) (sr_mnames sr gi i) (int gi) i c = Inr c'"
    with shard_StartServer_ok [of kvm rfm now "sr_rnd sr gi i" "sr_names sr gi i" "sr_mnames sr gi i" "int gi" i c c'] show "?P (ys @ [i]) c'" by auto
  qed (use ok0 assms(3,4) in simp)
  moreover have "sc_n cfg \<le> 3" if "\<forall>y \<in> set [0..<sc_n cfg]. y < 3" using that by (metis atLeast_upt lessThan_iff not_le less_irrefl)
  ultimately show ?thesis by blast
qed

lemma StartMasterServer_ok:
  assumes "StartMasterServer smm rfm now rnd names i cfg = Inr cfg'"
  shows "(\<forall>gid j. Network.servers (sc_net cfg') (servername gid j) = Network.servers (sc_net cfg) (servername gid j)) \<and>
    sc_groups cfg' = sc_groups cfg \<and> sc_nmasters cfg' = sc_nmasters cfg"
  using assms by (auto simp: StartMasterServer_def bindG_eq_Inr_iff mapG_eq_Inr_iff AddServer_def dest: make_all_ends_servers)

lemma shard_make_config_inv:
  assumes "shard_make_config kvm smm rfm now sr n unreliable maxstate = Inr (cfg :: ('c, 'd, 'v) shard_config)"
  shows "shard_inv n cfg" "n \<le> 3"
proof -
  define init :: "('c, 'd, 'v) shard_config" where "init =
    \<lparr>sc_net = MakeNetwork, sc_heap = [], sc_instances = [], sc_start = now, sc_nmasters = 3,
     sc_masterservers = replicate 3 None, sc_mck = sm_MakeClerk [], sc_mends = [], sc_ngroups = 0, sc_n = 0, sc_groups = [],
     sc_clerks = Map.empty, sc_nextClerk = 0, sc_nextClientId = 0, sc_maxraftstate = maxstate\<rparr>"
  have i: "sc_net init = MakeNetwork" "sc_groups init = []" "sc_nmasters init = 3" by (simp_all add: init_def)
  from assms [unfolded shard_make_config_def Let_def, folded init_def] obtain c1 c2 c3 ck mends
    where c1: "foldG (\<lambda>i. StartMasterServer smm rfm now (sr_rnd sr 3 i) (sr_master sr i) i) [0..<3] init = Inr c1"
      and c2: "shardclerk (sr_clerk sr) c1 = Inr (ck, mends, c2)"
      and c3: "foldG (start_new_group kvm rfm now sr) [0..<3] (c2\<lparr>sc_mck := ck, sc_mends := mends, sc_ngroups := 3, sc_n := n\<rparr>) = Inr c3"
      and c: "cfg = c3\<lparr>sc_clerks := Map.empty, sc_nextClientId := int n + 1000, sc_net := Reliable (\<not> unreliable) (sc_net c3)\<rparr>"
    by (auto simp: bindG_eq_Inr_iff mapG_eq_Inr_iff split: prod.split_asm)
  let ?P = "\<lambda>_ c. (\<forall>gid j. Network.servers (sc_net c) (servername gid j) = None) \<and> sc_groups c = [] \<and> sc_nmasters c = 3"
  have "?P [0..<3] c1" by (rule foldG_invariant [where P = ?P, OF c1]) (use i in \<open>auto simp: MakeNetwork_def dest!: StartMasterServer_ok\<close>)
  then have 2: "(\<forall>gid j. Network.servers (sc_net c2) (servername gid j) = None) \<and> sc_groups c2 = [] \<and> sc_nmasters c2 = 3"
    using c2 by (auto simp: shardclerk_def mapG_eq_Inr_iff dest: make_all_ends_servers)
  let ?c2 = "c2\<lparr>sc_mck := ck, sc_mends := mends, sc_ngroups := 3, sc_n := n\<rparr>"
  have ok2: "groups_ok ?c2" using 2 by (simp add: groups_ok_def named_ok_def)
  obtain g1 g2 where g: "start_new_group kvm rfm now sr 0 ?c2 = Inr g1" "start_new_group kvm rfm now sr 1 g1 = Inr g2"
    "start_new_group kvm rfm now sr 2 g2 = Inr c3"
    using c3 by (auto simp: upt_rec bindG_eq_Inr_iff numeral_3_eq_3 numeral_2_eq_2)
  note 3 = start_new_group_ok [OF g(1) ok2] start_new_group_ok [OF g(2)] start_new_group_ok [OF g(3)]
  have ok: "groups_ok c3" "length (sc_groups c3) = 3" "sc_nmasters c3 = 3" "sc_n c3 = n" "n \<le> 3" using 3 2 by simp_all
  show "n \<le> 3" by (rule ok(5))
  have "groups_ok cfg" by (rule groups_ok_cong [OF ok(1)]) (simp_all add: c Reliable_def)
  with ok show "shard_inv n cfg" by (simp add: shard_inv_def c)
qed

interpretation shard_harness: inductive_invariant
  "\<lambda>cfg. \<exists>smm now sr unreliable maxstate. shard_make_config kvm smm rfm now sr n unreliable maxstate = Inr cfg"
  "shard_step kvm rfm" "shard_inv n" for kvm rfm n
proof
  fix cfg assume "\<exists>smm now sr unreliable maxstate. shard_make_config kvm smm rfm now sr n unreliable maxstate = Inr cfg"
  then show "shard_inv n cfg" using shard_make_config_inv(1) by blast
qed (rule shard_step_inv)

section \<open>Properties\<close>

text \<open>The names that \<^verbatim>\<open>joinm\<close> hands to the shard masters.\<close>

lemma joinm_names:
  assumes "shard_inv n cfg" "\<forall>g \<in> set gis. 0 \<le> g \<and> g < 3"
  shows "joinm call gis t cfg = Inr (clerk_Join call (sc_mck cfg)
    (\<lambda>gid. if gid - 100 \<in> set gis then Some (map (servername gid) [0..<n]) else None) t)"
proof -
  have ok: "groups_ok cfg" "sc_n cfg = n" "length (sc_groups cfg) = 3" using assms(1) by (simp_all add: shard_inv_def)
  have gid: "go_index (sc_groups cfg) g = Inr (sc_groups cfg ! nat g)" "g_gid (sc_groups cfg ! nat g) = 100 + g" if "0 \<le> g" "g < 3" for g
    using groups_okD(1) [OF ok(1), of "nat g"] that ok(3) by auto
  have "foldG (\<lambda>g m. mapG (\<lambda>gg. m(g_gid gg \<mapsto> map (servername (g_gid gg)) [0..<sc_n cfg])) (go_index (sc_groups cfg) g)) gs m =
      Inr (\<lambda>gid. if gid - 100 \<in> set gs then Some (map (servername gid) [0..<n]) else m gid)" if "\<forall>g \<in> set gs. 0 \<le> g \<and> g < 3" for gs m
    using that by (induction gs arbitrary: m) (auto simp: gid ok(2) fun_eq_iff)
  from this [OF assms(2), of Map.empty] show ?thesis by (simp add: joinm_def)
qed

text \<open>
  A name leads to the server it stands for. At any point of a test with the sharded service, however servers were shut
  down and started before, an end made for the name of server \<open>i\<close> of group \<open>gi\<close> (the names are what \<^verbatim>\<open>join\<close> gives to the
  shard masters, and the clerks make ends for them) takes a request to a method of the current instance of
  that very server, unless an unreliable network drops it; if the server is shut down, the request fails.
\<close>

lemma names_lead_to_servers:
  assumes "shard_make_config kvm smm rfm now sr n unreliable maxstate = Inr cfg0" and "run_from (shard_step kvm rfm) cfg0 cfg"
    and "gi < 3" and "i < n" and "make_end name (servername (100 + int gi) i) (sc_net cfg) = Inr net" and "rq_endname req = name"
  shows "case g_servers (sc_groups cfg ! gi) ! i of
      None \<Rightarrow> (processReq_route net req r :: (string, 'w) phase \<times> handler) = (Sending failed_reply, Idle)
    | Some a \<Rightarrow> \<exists>h. serves (sc_heap cfg ! h) (InstanceOf a) \<and>
        (processReq_route net req r :: (string, 'w) phase \<times> handler) =
          (if \<not> reliable net \<and> r mod 1000 < 100 then (Sending failed_reply, Idle)
           else (Waiting (servername (100 + int gi) i) h (reliable net) (longReordering net), Pending h))"
proof -
  have "shard_inv n cfg" by (rule shard_harness.inv_run [OF _ assms(2)]) (use assms(1) in blast)
  then have ok: "groups_ok cfg" "sc_n cfg = n" "length (sc_groups cfg) = 3" by (simp_all add: shard_inv_def)
  have named: "named_ok cfg (group_name gi i) (g_servers (sc_groups cfg ! gi) ! i)"
    using groups_okD(6) [OF ok(1), of gi i] assms(3,4) ok(2,3) by simp
  have net: "enabled net name" "connections net name = Some (group_name gi i)" "Network.servers net = Network.servers (sc_net cfg)"
    using assms(5) make_end_servers [OF assms(5)] by (auto simp: make_end_def mapG_eq_Inr_iff Enable_def Connect_def)
  show ?thesis using named net assms(6)
    by (auto simp: named_ok_def processReq_route_def readEndnameInfo_def Let_def split: option.splits)
qed

section \<open>The harness starts\<close>

lemma foldG_total:
  assumes "P [] s" and "\<And>ys x zs s. xs = ys @ x # zs \<Longrightarrow> P ys s \<Longrightarrow> \<exists>t. f x s = Inr t \<and> P (ys @ [x]) t"
  shows "\<exists>t. foldG f xs s = Inr t \<and> P xs t"
  using assms(2)
proof (induction xs rule: rev_induct)
  case (snoc x xs)
  have "\<exists>t. foldG f xs s = Inr t \<and> P xs t" by (rule snoc.IH) (use snoc.prems in \<open>metis append.assoc append_Cons\<close>)
  then obtain t where "foldG f xs s = Inr t" "P xs t" by blast
  with snoc.prems [of xs x "[]" t] show ?case by (auto simp: foldG_append)
qed (use assms(1) in simp)

lemma make_all_ends_total:
  assumes "distinct (map names [0..<m])" "set (map names [0..<m]) \<inter> dom (ends net) = {}"
  shows "\<exists>net'. make_all_ends names to m net = Inr net' \<and> dom (ends net') = dom (ends net) \<union> set (map names [0..<m])"
  unfolding make_all_ends_def
proof (rule foldG_total [where P = "\<lambda>ys net'. dom (ends net') = dom (ends net) \<union> set (map names ys)"])
  fix ys j zs and s :: "string Network"
  assume ys: "[0..<m] = ys @ j # zs" and d: "dom (ends s) = dom (ends net) \<union> set (map names ys)"
  have "names j \<notin> set (map names ys)" "names j \<in> set (map names [0..<m])" using assms(1) unfolding ys by auto
  with assms(2) d have "ends s (names j) = None" by blast
  with d show "\<exists>t. make_end (names j) (to j) s = Inr t \<and> dom (ends t) = dom (ends net) \<union> set (map names (ys @ [j]))"
    by (auto simp: make_end_def MakeEnd_def Connect_def Enable_def)
qed simp

text \<open>The names of the ends of one server, and of all servers.\<close>

definition server_names :: "shard_random \<Rightarrow> nat \<Rightarrow> nat \<Rightarrow> nat \<Rightarrow> string list" where
  "server_names sr n gi i = map (sr_names sr gi i) [0..<n] @ map (sr_mnames sr gi i) [0..<3]"

definition shard_names :: "shard_random \<Rightarrow> nat \<Rightarrow> string list" where
  "shard_names sr n =
     concat (map (\<lambda>i. map (sr_master sr i) [0..<3]) [0..<3]) @ map (sr_clerk sr) [0..<3] @
     concat (map (\<lambda>gi. concat (map (server_names sr n gi) [0..<n])) [0..<3])"

lemma shard_StartServer_total:
  assumes "groups_ok cfg" "gi < length (sc_groups cfg)" "i < sc_n cfg" "i < 3" "sc_nmasters cfg = 3"
    and "distinct (server_names sr (sc_n cfg) gi i)" "set (server_names sr (sc_n cfg) gi i) \<inter> dom (ends (sc_net cfg)) = {}"
  shows "\<exists>cfg'. shard_StartServer kvm rfm now rnd (sr_names sr gi i) (sr_mnames sr gi i) (int gi) i cfg = Inr cfg' \<and>
    dom (ends (sc_net cfg')) = dom (ends (sc_net cfg)) \<union> set (server_names sr (sc_n cfg) gi i)"
proof -
  let ?gg = "sc_groups cfg ! gi"
  note D = groups_okD [OF assms(1,2)]
  let ?A = "map (sr_names sr gi i) [0..<sc_n cfg]" and ?B = "map (sr_mnames sr gi i) [0..<3]"
  have d: "distinct ?A" "distinct ?B" "set ?A \<inter> set ?B = {}" using assms(6) by (simp_all only: server_names_def distinct_append)
  have f: "set ?A \<inter> dom (ends (sc_net cfg)) = {}" "set ?B \<inter> dom (ends (sc_net cfg)) = {}"
    using assms(7) unfolding server_names_def set_append by blast+
  from make_all_ends_total [OF d(1) f(1)] obtain net1
    where 1: "make_all_ends (sr_names sr gi i) (servername (g_gid ?gg)) (sc_n cfg) (sc_net cfg) = Inr net1"
      "dom (ends net1) = dom (ends (sc_net cfg)) \<union> set ?A" by blast
  have "set ?B \<inter> dom (ends net1) = {}" using f(2) d(3) unfolding 1(2) by blast
  from make_all_ends_total [OF d(2) this] obtain net2 where 2: "make_all_ends (sr_mnames sr gi i) mastername 3 net1 = Inr net2"
    "dom (ends net2) = dom (ends net1) \<union> set ?B" by blast
  show ?thesis using 1 2 D assms(2-5)
    by (auto simp: shard_StartServer_def Let_def go_index_int go_update_int AddServer_def server_names_def)
qed

lemma start_new_group_total:
  fixes cfg :: "('c, 'd, 'v) shard_config"
  assumes "groups_ok cfg" "length (sc_groups cfg) = gi" "sc_nmasters cfg = 3" "sc_n cfg \<le> 3"
    and d: "distinct (concat (map (server_names sr (sc_n cfg) gi) [0..<sc_n cfg]))"
    and f: "set (concat (map (server_names sr (sc_n cfg) gi) [0..<sc_n cfg])) \<inter> dom (ends (sc_net cfg)) = {}"
  shows "\<exists>cfg'. start_new_group kvm rfm now sr gi cfg = Inr cfg' \<and>
    dom (ends (sc_net cfg')) = dom (ends (sc_net cfg)) \<union> set (concat (map (server_names sr (sc_n cfg) gi) [0..<sc_n cfg]))"
proof -
  let ?c0 = "cfg\<lparr>sc_groups := sc_groups cfg @ [new_group (sc_n cfg) (sc_nmasters cfg) gi]\<rparr>"
  let ?ns = "server_names sr (sc_n cfg) gi"
  let ?P = "\<lambda>ys (c :: ('c, 'd, 'v) shard_config). groups_ok c \<and> length (sc_groups c) = Suc gi \<and> sc_nmasters c = 3 \<and> sc_n c = sc_n cfg \<and>
    dom (ends (sc_net c)) = dom (ends (sc_net cfg)) \<union> set (concat (map ?ns ys))"
  have "\<exists>c. foldG (\<lambda>i. shard_StartServer kvm rfm now (sr_rnd sr gi i) (sr_names sr gi i) (sr_mnames sr gi i) (int gi) i) [0..<sc_n cfg] ?c0 = Inr c \<and>
    ?P [0..<sc_n cfg] c"
  proof (rule foldG_total [where P = ?P])
    show "?P [] ?c0" using new_group_ok [OF assms(1-3)] assms(2,3) by simp
    fix ys i zs and c :: "('c, 'd, 'v) shard_config" assume ys: "[0..<sc_n cfg] = ys @ i # zs" and P: "?P ys c"
    have i: "i < sc_n cfg" using arg_cong [OF ys, of set] by auto
    have "distinct (?ns i)" "set (?ns i) \<inter> set (concat (map ?ns ys)) = {}" "set (?ns i) \<subseteq> set (concat (map ?ns [0..<sc_n cfg]))"
      using d unfolding ys by (auto simp: Int_commute)
    then have "set (?ns i) \<inter> dom (ends (sc_net c)) = {}" using P f by blast
    with shard_StartServer_total [of c gi i sr kvm rfm now "sr_rnd sr gi i"] P i assms(4) \<open>distinct (?ns i)\<close> obtain c'
      where c': "shard_StartServer kvm rfm now (sr_rnd sr gi i) (sr_names sr gi i) (sr_mnames sr gi i) (int gi) i c = Inr c'"
        "dom (ends (sc_net c')) = dom (ends (sc_net c)) \<union> set (?ns i)" by auto
    moreover have "groups_ok c" using P by blast
    note shard_StartServer_ok [OF c'(1) this]
    ultimately show "\<exists>t. shard_StartServer kvm rfm now (sr_rnd sr gi i) (sr_names sr gi i) (sr_mnames sr gi i) (int gi) i c = Inr t \<and> ?P (ys @ [i]) t"
      using P by auto
  qed
  then show ?thesis unfolding start_new_group_def StartGroup_def by auto
qed

lemma master_start_total:
  assumes "sc_nmasters cfg = 3" "length (sc_masterservers cfg) = 3" "i < 3"
    and "distinct (map names [0..<3])" "set (map names [0..<3]) \<inter> dom (ends (sc_net cfg)) = {}"
  shows "\<exists>cfg'. StartMasterServer smm rfm now rnd names i cfg = Inr cfg' \<and> sc_nmasters cfg' = 3 \<and> length (sc_masterservers cfg') = 3 \<and>
    dom (ends (sc_net cfg')) = dom (ends (sc_net cfg)) \<union> set (map names [0..<3])"
proof -
  from make_all_ends_total [OF assms(4,5)] obtain net where "make_all_ends names mastername 3 (sc_net cfg) = Inr net"
    "dom (ends net) = dom (ends (sc_net cfg)) \<union> set (map names [0..<3])" by blast
  with assms(1-3) show ?thesis by (simp add: StartMasterServer_def go_update_int AddServer_def)
qed

lemma distinct_concat_step:
  assumes "distinct (concat (map f xs))" "xs = ys @ x # zs"
  shows "distinct (f x)" "set (f x) \<inter> set (concat (map f ys)) = {}" "set (f x) \<subseteq> set (concat (map f xs))"
  using assms(1) unfolding assms(2) by (auto simp: Int_commute)

lemma shard_make_config_total:
  assumes d: "distinct (shard_names sr n)" and n: "n \<le> 3"
  shows "\<exists>cfg :: ('c, 'd, 'v) shard_config. shard_make_config kvm smm rfm now sr n unreliable maxstate = Inr cfg \<and>
    dom (ends (sc_net cfg)) = set (shard_names sr n)"
proof -
  let ?M = "\<lambda>i. map (sr_master sr i) [0..<3]" and ?G = "\<lambda>gi. concat (map (server_names sr n gi) [0..<n])"
  let ?C = "map (sr_clerk sr) [0..<3]"
  have parts: "distinct (concat (map ?M [0..<3]))" "distinct ?C" "distinct (concat (map ?G [0..<3]))"
    "set ?C \<inter> set (concat (map ?M [0..<3])) = {}" "set (concat (map ?G [0..<3])) \<inter> (set (concat (map ?M [0..<3])) \<union> set ?C) = {}"
    using d unfolding shard_names_def distinct_append set_append by blast+
  define init :: "('c, 'd, 'v) shard_config" where "init =
    \<lparr>sc_net = MakeNetwork, sc_heap = [], sc_instances = [], sc_start = now, sc_nmasters = 3,
     sc_masterservers = replicate 3 None, sc_mck = sm_MakeClerk [], sc_mends = [], sc_ngroups = 0, sc_n = 0, sc_groups = [],
     sc_clerks = Map.empty, sc_nextClerk = 0, sc_nextClientId = 0, sc_maxraftstate = maxstate\<rparr>"
  let ?P = "\<lambda>ys (c :: ('c, 'd, 'v) shard_config). sc_nmasters c = 3 \<and> length (sc_masterservers c) = 3 \<and> sc_groups c = [] \<and>
    (\<forall>gid j. Network.servers (sc_net c) (servername gid j) = None) \<and> dom (ends (sc_net c)) = set (concat (map ?M ys))"
  have "\<exists>c. foldG (\<lambda>i. StartMasterServer smm rfm now (sr_rnd sr 3 i) (sr_master sr i) i) [0..<3] init = Inr c \<and> ?P [0..<3] c"
  proof (rule foldG_total [where P = ?P])
    show "?P [] init" by (simp add: init_def MakeNetwork_def)
    fix ys i zs and c :: "('c, 'd, 'v) shard_config" assume ys: "[0..<3] = ys @ i # zs" and P: "?P ys c"
    note s = distinct_concat_step [OF parts(1) ys]
    have "i < 3" using arg_cong [OF ys, of set] by auto
    with master_start_total [of c i "sr_master sr i" smm rfm now "sr_rnd sr 3 i"] s(1,2) P obtain c'
      where c': "StartMasterServer smm rfm now (sr_rnd sr 3 i) (sr_master sr i) i c = Inr c'" "sc_nmasters c' = 3"
        "length (sc_masterservers c') = 3" "dom (ends (sc_net c')) = dom (ends (sc_net c)) \<union> set (?M i)" by auto
    with StartMasterServer_ok [OF c'(1)] P
    show "\<exists>t. StartMasterServer smm rfm now (sr_rnd sr 3 i) (sr_master sr i) i c = Inr t \<and> ?P (ys @ [i]) t" by auto
  qed
  then obtain c1 where c1: "foldG (\<lambda>i. StartMasterServer smm rfm now (sr_rnd sr 3 i) (sr_master sr i) i) [0..<3] init = Inr c1"
    and P1: "?P [0..<3] c1" by blast
  have "set ?C \<inter> dom (ends (sc_net c1)) = {}" using parts(4) P1 by simp
  from make_all_ends_total [OF parts(2) this] obtain net where net: "make_all_ends (sr_clerk sr) mastername 3 (sc_net c1) = Inr net"
    "dom (ends net) = dom (ends (sc_net c1)) \<union> set ?C" by blast
  let ?c2 = "c1\<lparr>sc_net := net, sc_mck := sm_MakeClerk [0..<3], sc_mends := ?C, sc_ngroups := 3, sc_n := n\<rparr>"
  have c2: "shardclerk (sr_clerk sr) c1 = Inr (sm_MakeClerk [0..<3], ?C, c1\<lparr>sc_net := net\<rparr>)" using P1 net(1) by (simp add: shardclerk_def)
  let ?Q = "\<lambda>ys (c :: ('c, 'd, 'v) shard_config). groups_ok c \<and> length (sc_groups c) = length ys \<and> sc_nmasters c = 3 \<and> sc_n c = n \<and>
    dom (ends (sc_net c)) = dom (ends net) \<union> set (concat (map ?G ys))"
  have "\<exists>c. foldG (start_new_group kvm rfm now sr) [0..<3] ?c2 = Inr c \<and> ?Q [0..<3] c"
  proof (rule foldG_total [where P = ?Q])
    show "?Q [] ?c2" using P1 make_all_ends_servers [OF net(1)] by (simp add: groups_ok_def named_ok_def)
    fix ys gi zs and c :: "('c, 'd, 'v) shard_config" assume ys: "[0..<3] = ys @ gi # zs" and Q: "?Q ys c"
    note s = distinct_concat_step [OF parts(3) ys]
    have len: "length ys < 3" using arg_cong [OF ys, of length] by simp
    have "[0..<3] ! length ys = gi" unfolding ys by simp
    then have gi: "gi = length ys" using len by simp
    have "set (?G gi) \<inter> dom (ends (sc_net c)) = {}" using s(2,3) parts(5) Q net(2) P1 by blast
    with start_new_group_total [of c gi sr kvm rfm now] Q gi s(1) n obtain c'
      where c': "start_new_group kvm rfm now sr gi c = Inr c'" "dom (ends (sc_net c')) = dom (ends (sc_net c)) \<union> set (?G gi)" by auto
    with start_new_group_ok [OF c'(1)] Q gi show "\<exists>t. start_new_group kvm rfm now sr gi c = Inr t \<and> ?Q (ys @ [gi]) t" by auto
  qed
  then obtain c3 where c3: "foldG (start_new_group kvm rfm now sr) [0..<3] ?c2 = Inr c3" and Q3: "?Q [0..<3] c3" by blast
  have "dom (ends (sc_net c3)) = set (shard_names sr n)" using Q3 net(2) P1 by (simp add: shard_names_def Un_assoc)
  moreover have "shard_make_config kvm smm rfm now sr n unreliable maxstate =
      Inr (c3\<lparr>sc_clerks := Map.empty, sc_nextClientId := int n + 1000, sc_net := Reliable (\<not> unreliable) (sc_net c3)\<rparr>)"
    unfolding shard_make_config_def Let_def init_def [symmetric] c1 using c2 c3 by simp
  ultimately show ?thesis by (simp add: Reliable_def)
qed

lemma shard_makeClient_three:
  assumes "shard_makeClient names cfg = Inr r" "sc_nmasters cfg = 3"
  shows "3 \<le> sc_n cfg"
proof -
  from assms obtain s where f: "foldG (client_end names) [0..<3] (replicate (sc_n cfg) '''', sc_net cfg) = Inr s"
    by (auto simp: shard_makeClient_def mapG_eq_Inr_iff)
  let ?P = "\<lambda>ys (s :: string list \<times> string Network). length (fst s) = sc_n cfg \<and> (\<forall>j \<in> set ys. j < sc_n cfg)"
  have "?P [0..<3] s"
    by (rule foldG_invariant [where P = ?P, OF f]) (auto simp: client_end_def bindG_eq_Inr_iff mapG_eq_Inr_iff go_update_eq_Inr_iff)
  then have "2 < sc_n cfg" by simp
  then show ?thesis by simp
qed

lemma shard_makeClient_total:
  assumes "sc_nmasters cfg = 3" "sc_n cfg = 3" "distinct (map names [0..<3])" "set (map names [0..<3]) \<inter> dom (ends (sc_net cfg)) = {}"
  shows "\<exists>r. shard_makeClient names cfg = Inr r"
proof -
  let ?P = "\<lambda>ys (s :: string list \<times> string Network). length (fst s) = 3 \<and> dom (ends (snd s)) = dom (ends (sc_net cfg)) \<union> set (map names ys)"
  have "\<exists>s. foldG (client_end names) [0..<3] (replicate 3 '''', sc_net cfg) = Inr s \<and> ?P [0..<3] s"
  proof (rule foldG_total [where P = ?P])
    fix ys j zs and s :: "string list \<times> string Network" assume ys: "[0..<3] = ys @ j # zs" and P: "?P ys s"
    have j: "j < 3" using arg_cong [OF ys, of set] by auto
    have "names j \<notin> set (map names ys)" "names j \<in> set (map names [0..<3])" using assms(3) unfolding ys by auto
    with assms(4) P have "ends (snd s) (names j) = None" by blast
    with P j show "\<exists>t. client_end names j s = Inr t \<and> ?P (ys @ [j]) t"
      by (auto simp: client_end_def go_update_int make_end_def MakeEnd_def Connect_def Enable_def)
  qed simp
  with assms(1,2) show ?thesis by (auto simp: shard_makeClient_def)
qed

text \<open>
  The harness works for groups of three servers only. If no random name comes twice, a configuration can be
  made and a client made for it if and only if a group has three servers: with more, starting the fourth server
  of a group is out of range, because the array for the ends to the shard masters has one place per master; with fewer,
  making a client is, because the array for its ends to the masters has one place per server.
\<close>

lemma shard_harness_needs_three:
  assumes "distinct (shard_names sr n @ map names [0..<3])"
  shows "(\<exists>(cfg :: ('c, 'd, 'v) shard_config) r. shard_make_config kvm smm rfm now sr n unreliable maxstate = Inr cfg \<and>
      shard_makeClient names cfg = Inr r) \<longleftrightarrow> n = 3"
proof
  assume "\<exists>(cfg :: ('c, 'd, 'v) shard_config) r. shard_make_config kvm smm rfm now sr n unreliable maxstate = Inr cfg \<and>
      shard_makeClient names cfg = Inr r"
  then obtain cfg :: "('c, 'd, 'v) shard_config" and r where m: "shard_make_config kvm smm rfm now sr n unreliable maxstate = Inr cfg"
    and c: "shard_makeClient names cfg = Inr r" by blast
  note inv = shard_make_config_inv [OF m]
  have "3 \<le> n" using shard_makeClient_three [OF c] inv(1) by (simp add: shard_inv_def)
  with inv(2) show "n = 3" by simp
next
  assume n: "n = 3"
  have d: "distinct (shard_names sr n)" "distinct (map names [0..<3])" "set (map names [0..<3]) \<inter> set (shard_names sr n) = {}"
    using assms unfolding distinct_append by blast+
  from shard_make_config_total [OF d(1)] n obtain cfg :: "('c, 'd, 'v) shard_config"
    where c: "shard_make_config kvm smm rfm now sr n unreliable maxstate = Inr cfg" "dom (ends (sc_net cfg)) = set (shard_names sr n)" by blast
  have "sc_nmasters cfg = 3" "sc_n cfg = 3" using shard_make_config_inv(1) [OF c(1)] n by (simp_all add: shard_inv_def)
  from shard_makeClient_total [OF this d(2)] d(3) c
  show "\<exists>(cfg :: ('c, 'd, 'v) shard_config) r. shard_make_config kvm smm rfm now sr n unreliable maxstate = Inr cfg \<and>
      shard_makeClient names cfg = Inr r" by auto
qed

definition example_random :: shard_random where
  "example_random =
     \<lparr>sr_rnd = (\<lambda>_ _. 0), sr_master = (\<lambda>i j. [char_of (3 * i + j)]), sr_clerk = (\<lambda>j. [char_of (9 + j)]),
      sr_names = (\<lambda>gi i j. [char_of (12 + 9 * gi + 3 * i + j)]), sr_mnames = (\<lambda>gi i j. [char_of (39 + 9 * gi + 3 * i + j)])\<rparr>"

lemma example_names_distinct: "distinct (shard_names example_random 3 @ map (\<lambda>j. [char_of (66 + j)]) [0..<3])"
  by code_simp

lemma shard_harness_needs_three_witness:
  "\<exists>(cfg :: (nat, nat, unit) shard_config) r. shard_make_config [] [] [] 0 example_random 3 False (-1) = Inr cfg \<and>
     shard_makeClient (\<lambda>j. [char_of (66 + j)]) cfg = Inr r"
  using shard_harness_needs_three [OF example_names_distinct, where 'c = nat and 'd = nat and 'v = unit] by blast

lemma names_lead_to_servers_witness:
  "\<exists>(cfg :: (nat, nat, unit) shard_config) net. shard_make_config [] [] [] 0 example_random 3 False (-1) = Inr cfg \<and>
     make_end ''x'' (servername 101 2) (sc_net cfg) = Inr net \<and>
     (case g_servers (sc_groups cfg ! 1) ! 2 of
        None \<Rightarrow> processReq_route net \<lparr>rq_endname = ''x'', svcMeth = ''ShardKV.Get'', argsType = (), rq_args = []\<rparr> 0 =
          ((Sending failed_reply, Idle) :: (string, unit) phase \<times> handler)
      | Some a \<Rightarrow> \<exists>h. serves (sc_heap cfg ! h) (InstanceOf a))"
proof -
  have d: "distinct (shard_names example_random 3)" "''x'' \<notin> set (shard_names example_random 3)" by code_simp+
  from shard_make_config_total [OF d(1)] obtain cfg :: "(nat, nat, unit) shard_config"
    where c: "shard_make_config [] [] [] 0 example_random 3 False (-1) = Inr cfg" "dom (ends (sc_net cfg)) = set (shard_names example_random 3)"
    by blast
  have "ends (sc_net cfg) ''x'' = None" using c(2) d(2) by blast
  then obtain net where net: "make_end ''x'' (servername (100 + int 1) 2) (sc_net cfg) = Inr net" by (simp add: make_end_def MakeEnd_def)
  let ?req = "\<lparr>rq_endname = ''x'', svcMeth = ''ShardKV.Get'', argsType = (), rq_args = []\<rparr>"
  from names_lead_to_servers [OF c(1) run_refl _ _ net, of ?req, where r = 0 and 'w = unit] c(1) net
  show ?thesis by (auto split: option.splits)
qed

end
