(* ===== verification/Mr_Apps.thy ===== *)
theory Mr_Apps
  imports Mr_Sequential
begin

text \<open>
  The applications that test the MapReduce system rather than compute something: one that crashes or
  stalls (\<^verbatim>\<open>mrapps/crash.go\<close>), and two that report how many workers run at the same time
  (\<^verbatim>\<open>mrapps/mtiming.go\<close>, \<^verbatim>\<open>mrapps/rtiming.go\<close>). Random numbers, the process id, the live processes and what is
  found in the directory are arguments.
\<close>

section \<open>Crashing\<close>

text \<open>\<open>rr\<close> and \<open>ms\<close> are the random numbers; the result is the delay in milliseconds, \<open>None\<close> is \<^verbatim>\<open>os.Exit(1)\<close>.\<close>

definition maybeCrash :: "nat \<Rightarrow> nat \<Rightarrow> nat option" where
  "maybeCrash rr ms = (if rr < 330 then None else if rr < 660 then Some (ms mod (10 * 1000)) else Some 0)"

definition crash_Map :: "nat \<Rightarrow> nat \<Rightarrow> string \<Rightarrow> string \<Rightarrow> KeyValue list option" where
  "crash_Map rr ms filename contents =
     (case maybeCrash rr ms of
        None \<Rightarrow> None
      | Some _ \<Rightarrow> Some [\<lparr>kvKey = ''a'', kvValue = filename\<rparr>,
                       \<lparr>kvKey = ''b'', kvValue = Itoa (int (length filename))\<rparr>,
                       \<lparr>kvKey = ''c'', kvValue = Itoa (int (length contents))\<rparr>,
                       \<lparr>kvKey = ''d'', kvValue = ''xyzzy''\<rparr>])"

definition crash_Reduce :: "nat \<Rightarrow> nat \<Rightarrow> string \<Rightarrow> string list \<Rightarrow> string option" where
  "crash_Reduce rr ms key vs = (case maybeCrash rr ms of None \<Rightarrow> None | Some _ \<Rightarrow> Some (Join (sort vs) '' ''))"

section \<open>Counting workers\<close>

definition worker_file :: "string \<Rightarrow> int \<Rightarrow> string" where
  "worker_file ph pid = ''mr-worker-'' @ ph @ ''-'' @ Itoa pid"

text \<open>
  \<^verbatim>\<open>fmt.Sscanf\<close> with a pattern that ends in \<^verbatim>\<open>%d\<close>: the text before it has to match, blanks and a sign may
  follow, then at least one digit; the rest of the input is not looked at. A number that does not
  fit into an int is an error.
\<close>

definition is_digit :: "char \<Rightarrow> bool" where
  "is_digit c \<longleftrightarrow> (48 :: nat) \<le> of_char c \<and> of_char c < (58 :: nat)"

definition scan_digits :: "string \<Rightarrow> nat option" where
  "scan_digits s = (let ds = takeWhile is_digit s in if ds = [] then None else Some (atoi ds))"

definition scan_int :: "string \<Rightarrow> int option" where
  "scan_int s =
     (let t = dropWhile (\<lambda>c. c = CHR '' '') s;
          (neg, u) = (case t of [] \<Rightarrow> (False, [])
                      | c # cs \<Rightarrow> if c = CHR ''-'' then (True, cs) else if c = CHR ''+'' then (False, cs) else (False, t))
      in case scan_digits u of
           None \<Rightarrow> None
         | Some d \<Rightarrow> let i = (if neg then - int d else int d)
                     in if - (2 ^ 63) \<le> i \<and> i < 2 ^ 63 then Some i else None)"

definition Sscanf_pid :: "string \<Rightarrow> string \<Rightarrow> int option" where
  "Sscanf_pid ph name =
     (let pat = ''mr-worker-'' @ ph @ ''-''
      in if take (length pat) name = pat then scan_int (drop (length pat) name) else None)"

fun count_alive :: "string \<Rightarrow> (int \<Rightarrow> bool) \<Rightarrow> string list \<Rightarrow> int" where
  "count_alive ph alive [] = 0"
| "count_alive ph alive (name # names) =
     (case Sscanf_pid ph name of
        None \<Rightarrow> 0
      | Some xpid \<Rightarrow> if alive xpid then 1 else 0) + count_alive ph alive names"

text \<open>
  \<open>written\<close> says that the file could be written, \<open>listing\<close> is what is read from the directory then, \<open>dir\<close> the
  directory a second later; the result has the count and the directory without the file.
\<close>

definition nparallel ::
  "string \<Rightarrow> int \<Rightarrow> (int \<Rightarrow> bool) \<Rightarrow> bool \<Rightarrow> string list option \<Rightarrow> string set \<Rightarrow> (int \<times> string set) go" where
  "nparallel ph pid alive written listing dir =
     (if \<not> written then Inl Panic
      else case listing of
             None \<Rightarrow> Inl Panic
           | Some names \<Rightarrow>
               let ret = count_alive ph alive names; myfilename = worker_file ph pid
               in if myfilename \<notin> dir then Inl Panic else Inr (ret, dir - {myfilename}))"

text \<open>\<open>ts\<close> is the formatted time.\<close>

definition mtiming_Map ::
  "string \<Rightarrow> int \<Rightarrow> (int \<Rightarrow> bool) \<Rightarrow> bool \<Rightarrow> string list option \<Rightarrow> string set \<Rightarrow> (KeyValue list \<times> string set) go" where
  "mtiming_Map ts pid alive written listing dir =
     mapG (\<lambda>(n, dir'). ([\<lparr>kvKey = ''times-'' @ Itoa pid, kvValue = ts\<rparr>, \<lparr>kvKey = ''parallel-'' @ Itoa pid, kvValue = Itoa n\<rparr>], dir'))
       (nparallel ''map'' pid alive written listing dir)"

definition mtiming_Reduce :: reducef where
  "mtiming_Reduce key vs = Join (sort vs) '' ''"

definition rtiming_Map :: mapf where
  "rtiming_Map filename contents = map (\<lambda>k. \<lparr>kvKey = [k], kvValue = ''1''\<rparr>) ''abcdefghij''"

definition rtiming_Reduce ::
  "int \<Rightarrow> (int \<Rightarrow> bool) \<Rightarrow> bool \<Rightarrow> string list option \<Rightarrow> string set \<Rightarrow> (string \<times> string set) go" where
  "rtiming_Reduce pid alive written listing dir =
     mapG (\<lambda>(n, dir'). (Itoa n, dir')) (nparallel ''reduce'' pid alive written listing dir)"

section \<open>What they compute\<close>

text \<open>The crashing application delivers what the quiet one delivers, or nothing.\<close>

lemma crash_delivers_nocrash:
  "crash_Map rr ms filename contents \<in> {None, Some (nocrash_Map filename contents)}"
  "crash_Reduce rr ms key vs \<in> {None, Some (nocrash_Reduce key vs)}"
  by (auto simp: crash_Map_def crash_Reduce_def nocrash_Map_def nocrash_Reduce_def split: option.splits)

lemma itoa_nat_digits: "list_all is_digit (itoa_nat n) \<and> itoa_nat n \<noteq> []"
proof (induction n rule: itoa_nat.induct)
  case (1 n)
  have "is_digit (digit d)" if "d < 10" for d using of_char_digit [OF that] that by (simp add: is_digit_def)
  with 1 show ?case by (subst (1 2) itoa_nat.simps) auto
qed

lemma scan_worker_file:
  assumes "0 \<le> pid" "pid < 2 ^ 63"
  shows "Sscanf_pid ph (worker_file ph pid) = Some pid"
proof -
  let ?s = "itoa_nat (nat pid)"
  obtain c cs where s: "?s = c # cs" using itoa_nat_digits [of "nat pid"] by (cases ?s) auto
  have c: "is_digit c" "c \<noteq> CHR '' ''" "c \<noteq> CHR ''-''" "c \<noteq> CHR ''+''"
    using itoa_nat_digits [of "nat pid"] s by (auto simp: is_digit_def)
  have "takeWhile is_digit ?s = ?s" using itoa_nat_digits [of "nat pid"] by (auto simp: list_all_iff takeWhile_eq_all_conv)
  then have "scan_digits ?s = Some (nat pid)" using s atoi_itoa [of "nat pid"] by (simp add: scan_digits_def)
  then have "scan_int ?s = Some pid" using s c(2-4) assms by (simp add: scan_int_def Let_def)
  then show ?thesis using assms(1) by (simp add: Sscanf_pid_def worker_file_def Itoa_def Let_def)
qed

text \<open>
  If the directory has the files of the workers in \<open>W\<close>, and no other file that looks like one, the
  count is the number of these workers that are alive.
\<close>

lemma count_alive_workers:
  assumes "distinct names" "\<forall>p \<in> W. 0 \<le> p \<and> p < 2 ^ 63" "worker_file ph ` W \<subseteq> set names"
    and "\<forall>x \<in> set names. x \<notin> worker_file ph ` W \<longrightarrow> Sscanf_pid ph x = None"
  shows "count_alive ph alive names = int (card {p \<in> W. alive p})"
  using assms
proof (induction names arbitrary: W)
  case Nil
  then show ?case by simp
next
  case (Cons x xs)
  show ?case
  proof (cases "x \<in> worker_file ph ` W")
    case False
    have none: "Sscanf_pid ph x = None" using Cons.prems(4) False by simp
    have "count_alive ph alive xs = int (card {p \<in> W. alive p})"
    proof (rule Cons.IH)
      show "worker_file ph ` W \<subseteq> set xs" using Cons.prems(3) False by auto
    qed (use Cons.prems in auto)
    with none show ?thesis by simp
  next
    case True
    then obtain p where p: "p \<in> W" "x = worker_file ph p" by blast
    have scan: "Sscanf_pid ph (worker_file ph q) = Some q" if "q \<in> W" for q
      by (rule scan_worker_file) (use Cons.prems(2) that in blast)+
    have inj: "q = p" if "q \<in> W" "worker_file ph q = worker_file ph p" for q
      using scan [OF that(1)] scan [OF p(1)] unfolding that(2) by simp
    have "inj_on (worker_file ph) W"
      by (rule inj_on_inverseI [where g = "\<lambda>n. the (Sscanf_pid ph n)"]) (simp only: scan option.sel)
    then have fin: "finite W" by (rule finite_imageD [OF finite_subset [OF Cons.prems(3) finite_set]])
    have "count_alive ph alive xs = int (card {q \<in> W - {p}. alive q})"
    proof (rule Cons.IH)
      show "worker_file ph ` (W - {p}) \<subseteq> set xs" using Cons.prems(3) p inj by auto
      show "\<forall>y \<in> set xs. y \<notin> worker_file ph ` (W - {p}) \<longrightarrow> Sscanf_pid ph y = None"
        using Cons.prems(1,4) p(2) by auto
    qed (use Cons.prems in auto)
    moreover have "{q \<in> W. alive q} = (if alive p then insert p {q \<in> W - {p}. alive q} else {q \<in> W - {p}. alive q})" using p(1) by auto
    ultimately show ?thesis using p(2) scan [OF p(1)] fin by simp
  qed
qed

end
