(* ===== verification/Spec2Isabelle.thy ===== *)
theory Spec2Isabelle
  imports Raft_Races Raft_Safety Kv_Replicas Kv_Serving Kv_Clerk Mr_Sequential Lin_Kv Lin_Events Lab_Gob Harness_Checks Harness_Shard Mr_Apps
begin

text \<open>
  Verification of the Go packages under \<^verbatim>\<open>src/6.824/src\<close>: MapReduce (\<^verbatim>\<open>mr\<close>, \<^verbatim>\<open>mrapps\<close>,
  \<^verbatim>\<open>main/mrsequential.go\<close>), Raft (\<^verbatim>\<open>raft\<close>), a replicated key/value service (\<^verbatim>\<open>kvraft\<close>), the clerks and
  skeletons of the sharded service (\<^verbatim>\<open>shardmaster\<close>, \<^verbatim>\<open>shardkv\<close>), the simulated network they run on
  (\<^verbatim>\<open>labrpc\<close>, \<^verbatim>\<open>labgob\<close>), the checker that tests use to judge histories of the service
  (\<^verbatim>\<open>linearizability\<close>), and the harnesses that build, cut and judge clusters in tests (\<^verbatim>\<open>config.go\<close> of four
  packages).

  \<^bold>\<open>The parts and how they interact.\<close> A MapReduce master hands map and reduce tasks to workers over
  RPC, takes them back when a timer fires, and is done when every task was reported. A Raft peer
  elects a leader, replicates its log, applies committed entries to a channel, and writes its state
  to stable storage. A key/value server reads that channel, filters out repeated requests, answers
  the waiting handlers and asks its peer for snapshots; clerks retry over the servers. Shard-master
  clerks ask for configurations, sharded clerks pick the group of a key from them. All calls go
  through the simulated network, which encodes them with \<^verbatim>\<open>labgob\<close>. A harness makes the servers, names
  the ends between them, connects, disconnects, crashes and restarts them through the network, keeps
  their stable storage, and checks leaders and committed entries.

  \<^bold>\<open>Conventions.\<close> Go values are records and datatypes with the source's fields. An operation that can
  panic returns \<open>'a go\<close> (\<open>Inl\<close> is the panic). Code that holds a lock is one definition per locked
  region; where several goroutines matter, regions are the steps of an \<open>inductive\<close> relation, and
  invariants are proved through the locale \<open>inductive_invariant\<close>. Operations that read the shared state
  in two regions take both states. Loops that may not end are \<open>partial_function (option)\<close>, with \<open>None\<close>
  for not returning. Clock readings, random numbers, the order of map iterations, the sorting
  algorithm of package sort, the letters of package unicode, the outcome of calls over the network,
  and the encodings of \<^verbatim>\<open>encoding/gob\<close> are arguments.

  \<^bold>\<open>Theories.\<close>

  \<^item> \<open>Prelude\<close>: the error monad, slices, quorums (locale \<open>quorum_system\<close>, interpreted as \<open>votes\<close> in
    \<open>Raft_Election\<close>) and transition systems (locale \<open>inductive_invariant\<close>, interpreted as
    \<open>elections\<close>, \<open>logs\<close>, \<open>network\<close>, \<open>jobs\<close>, \<open>collector\<close>, \<open>rpc_net\<close>, \<open>kv_harness\<close>, \<open>raft_harness\<close> and \<open>shard_harness\<close>).

  \<^item> \<open>Persist\<close>: \<^verbatim>\<open>raft/persister.go\<close> and the contract \<open>stable_store\<close> of atomic saves.

  \<^item> \<open>Raft_Core\<close>: \<^verbatim>\<open>raft/raft.go\<close>, the record \<open>Raft\<close>, the messages, and one definition per locked region:
    \<open>RequestVote\<close>, \<open>AppendEntries\<close> (with \<open>stepDownTo\<close>, \<open>prevConsistent\<close>, \<open>isMatch\<close>, \<open>copyEntries\<close>,
    \<open>conflictReply\<close>), \<open>startOneElection\<close> and its reply handlers, \<open>broadcastAppendEntries\<close> and its reply
    handlers, \<open>raft_apply\<close>, \<open>Start\<close>, \<open>SaveSnapshot\<close>, \<open>persist\<close>, \<open>readPersist\<close>, \<open>Make\<close>. \<open>Raft_Peer\<close>: terms and
    votes of one peer over sequences of regions, crashes and restarts (contract \<open>peer_contract\<close>,
    interpretation \<open>peer\<close>). Its relation \<open>code_step\<close> has every region; \<open>peer_step\<close> leaves out one, the refusal of an
    \<open>AppendEntries\<close> handled after the term has moved past the reply's term, because that region lowers the term (lemma
    \<open>refusal_lowers_term\<close>): votes and terms are kept from the last such refusal on.
    \<open>Raft_Election\<close>: a cluster with the goroutines of its elections, whose requests go out in index
    order; at most one leader per term under schedules that do not mix terms. The role that
    \<open>electionCheckLoop\<close> looks at belongs to an earlier region, so \<open>Elect\<close> is possible on every peer. \<open>Raft_Log\<close>: contiguous logs, the
    receiver rule, snapshots, the retry loop, and that no index is out of range in any reachable
    state, late refusals included. \<open>Raft_Races\<close>: lemmas with concrete runs in which the code fails outside those schedules.

  \<^item> \<open>Raft_Spec\<close>: an abstract specification of replicated logs (terms, votes, the log of each term's leader,
    acknowledgements) and its invariant (interpretation \<open>logs\<close>): what a majority has acknowledged in the
    leader's own term is in the log of every later leader. \<open>Raft_Replication\<close>: a cluster with every call of
    \<open>broadcastAppendEntries\<close> and its goroutines beside the elections, executed on the regions of \<open>Raft_Core\<close>
    (\<open>run_event\<close>), and the schedules called steady: elections as in \<open>Raft_Election\<close>, no snapshots, a command
    appended by the leader that \<open>GetState\<close> saw, and replies handled in the term of their request.
    \<open>Raft_Refinement\<close>, \<open>Raft_Safety\<close>: the cluster implements the specification (relation \<open>sim\<close>), hence log
    matching, leader completeness and state machine safety. \<open>Raft_Races\<close> has a run in which one late reply
    makes two servers apply different commands, so the last condition is needed.

  \<^item> \<open>Kv_Server\<close>: \<^verbatim>\<open>kvraft/server.go\<close> and \<^verbatim>\<open>common.go\<close>, with the server's Raft peer inside its state.
    The apply loop and the handlers' way to the peer are split where the lock is released (\<open>kv_apply_check\<close>,
    \<open>kv_apply_store\<close>, \<open>kv_apply_notify\<close>; \<open>requestRaft_check\<close>, \<open>requestRaft_start\<close>).
    \<open>Kv_Dedup\<close>: the abstract machine \<open>kv_exec\<close>, the contract \<open>at_most_once\<close> (interpretation \<open>kv\<close>), exactly-once
    execution, recovery from snapshots, and the composition with \<open>raft_apply\<close>. \<open>Kv_Replicas\<close>: the servers of
    a cluster, each on its own peer's channel, execute prefixes of one sequence of operations, equal up to the
    channel of the request, which the encoding does not carry. \<open>Kv_Serving\<close>: the apply loop and any number of
    handlers of one server, region by region in any order: what a handler acknowledges has entered the
    table and is in the storage as soon as the apply loop is between messages, and a read returns what a
    prefix of the applied messages stored. \<open>Kv_Clerk\<close>:
    \<^verbatim>\<open>kvraft/client.go\<close>, with the contract \<open>retry_loop\<close> for both of its loops (\<open>get\<close>, \<open>put\<close>).

  \<^item> \<open>Mr_Master\<close>, \<open>Mr_Worker\<close>: \<^verbatim>\<open>mr/master.go\<close>, \<^verbatim>\<open>mr/rpc.go\<close>, \<^verbatim>\<open>mr/worker.go\<close>; a job is a transition system
    of requests, reports, crashes and timers. \<open>Mr_Sequential\<close>: the sequential program, the
    applications, and that both programs write the same lines for reduce functions that ignore the
    order of values (contract \<open>order_insensitive\<close>, interpretations \<open>wc\<close>, \<open>indexer\<close>, \<open>nocrash\<close>).
    The intermediate files keep strings the way \<^verbatim>\<open>encoding/json\<close> does (\<open>json_string\<close>): bytes that are not UTF-8
    become U+FFFD, so the theorem asks for map functions that emit UTF-8.

  \<^item> \<open>Lin_Bitset\<close>, \<open>Lin_Model\<close>, \<open>Lin_List\<close>, \<open>Lin_Check\<close>: \<^verbatim>\<open>linearizability/*.go\<close>; bit sets over 64-bit
    words (contract \<open>position_set\<close>, interpretation \<open>bitset\<close>), the doubly linked list in a heap of
    nodes, and one iteration of the search. \<open>Lin_Search\<close>: the search ends and decides whether a
    history is linearizable. \<open>Lin_Verdict\<close>, \<open>Lin_Events\<close>: the goroutines, the result channel, the kill
    flag and the timeout, for both entry points. \<open>Lin_Kv\<close>: checking each key alone is checking
    the whole store.

  \<^item> \<open>Rpc_Network\<close>: \<^verbatim>\<open>labrpc/labrpc.go\<close>; the goroutines of a call as a transition system in which
    messages are delayed, dropped and reordered: a handler runs at most once per call, a successful
    call ran it exactly once, and every call can still return, unless its handler never does and its server
    stays registered. Handlers may block. \<open>Lab_Gob\<close>: \<^verbatim>\<open>labgob/labgob.go\<close>, the walks over
    types and over the variables that are decoded into.

  \<^item> \<open>Shard_Master\<close>, \<open>Shard_Kv\<close>: the clerks' endless loops, the messages, and the servers with their
    empty handlers; a value that is returned comes from the group that owns the key, and with the
    handlers as they are nothing is ever returned.

  \<^item> \<open>Mr_Apps\<close>: the test applications \<^verbatim>\<open>mrapps/crash.go\<close>, \<^verbatim>\<open>mtiming.go\<close>, \<^verbatim>\<open>rtiming.go\<close>; files, signals and
    random numbers are arguments. Where it does not exit, the crashing application delivers what \<^verbatim>\<open>nocrash.go\<close>
    does, and the count of parallel workers is the number of live ones among the files.

  \<^item> \<open>Harness\<close>: \<^verbatim>\<open>kvraft/config.go\<close> and \<^verbatim>\<open>shardmaster/config.go\<close>, which differ in the server they start only:
    the operations are defined once over any server (record \<open>config\<close>) and instantiated for both. Instances and
    server objects live in heaps, so that replaced instances stay there and may still write their own storage.
    \<open>Harness_Links\<close>: which ends are enabled after each operation, and that a partition cuts the leader off
    from a majority. \<open>Harness_Raft\<close>: \<^verbatim>\<open>raft/config.go\<close> on top of the same record. \<open>Harness_Isolation\<close>: over
    every run of a test, the enabled ends are those between connected servers and lead to current instances,
    and a restart keeps the Raft state. \<open>Harness_Checks\<close>: what \<open>nCommitted\<close>, \<open>one\<close> and \<open>checkOneLeader\<close> conclude,
    where every look at a server is at a later moment of the run, the two looks of \<open>Start\<close> included; \<open>checkOneLeader\<close> is composed with the election
    safety of \<open>Raft_Election\<close>. \<open>Harness_Shard\<close>: \<^verbatim>\<open>shardkv/config.go\<close>, the groups, masters and
    names of the sharded service.

  \<^bold>\<open>Bounds.\<close> The clerk of \<^verbatim>\<open>kvraft\<close> tries 8000 times, the source's own bound. \<open>checkType\<close> has a bound on its
    recursion, \<open>type_depth\<close>, two above the number of types: every recursive call follows the marking of
    a type, and the theorem shows that the bound is never reached. The loops of the list and of the
    search are partial functions that are proved to return. Terms, indices and counters are
    unbounded integers, since no run reaches 2^63 of them; the bit sets, the population count and
    the FNV hash, where wrap-around matters, are words.

  \<^bold>\<open>Not modelled.\<close> The programs under \<^verbatim>\<open>main\<close> other than \<^verbatim>\<open>mrsequential.go\<close>
    (arguments, plugin loading, labs that are not in the repository), the Unix-socket server of the
    master, and debug output. Of the harnesses the test files themselves, the printed messages and the sleeps are
    left out; elapsed time decides only how many rounds a loop makes, and the rounds are an argument. Blocking on
    channels is modelled where it decides an outcome (the result channel of the checker, the
    notify channels of the server, the calls of the network) and left out where only time depends
    on it. Data races between regions appear as interleavings of whole regions; sharing of a slice's
    backing array is not modelled. In \<open>Raft_Replication\<close> the goroutines of a restarted server go on working on
    the new instance; in the code they keep the old one, whose ends the harness has disconnected. A channel inside an operation
    is not taken away when the entry is sent; results that compare servers disregard it. The comparison of interface
    values panics in Go on values that cannot be compared; \<open>ShallowEqual\<close> is plain equality without that panic.
    \<open>startsUpper\<close> knows the ASCII capitals. A request is routed, delayed and perhaps dropped in one step of the
    network (\<open>processReq_route\<close>); its handler runs in a later one. Safety of replication with snapshots
    is not proved: \<open>Raft_Races\<close> shows that requests that start inside the leader's snapshot are misjudged.

  \<^bold>\<open>Order of the work.\<close> Raft and the key/value service came first, then MapReduce, the checker, the
    network, the encoder's checks and the sharded clerks, then the harnesses and the test applications, and
    last the replication of logs in a cluster.
\<close>

end
